(* ===== verification/Prelude.thy ===== *)
theory Prelude
  imports Main "HOL-Library.Word"
begin

text \<open>
  What every component of the development shares: the machine types and the faults of the
  C code, arrays and byte copies with their bounds written out, flag tests on registers,
  and the two interfaces that several components implement, a trap handler that keeps an
  invariant and a bounded queue.

  C arrays are lists. An access outside an array is undefined in C; the model makes it the
  value \<open>Inl OutOfBounds\<close>, so that a theorem that an operation returns \<open>Inr\<close> says that no
  such access is made.
\<close>

unbundle bit_operations_syntax

named_theorems flag_simps "reading a register flag after a flag was set or cleared"
named_theorems result_simps "sequencing of fallible steps"

type_synonym u8 = "8 word"
type_synonym u16 = "16 word"
type_synonym u32 = "32 word"
type_synonym u64 = "64 word"

section \<open>Faults\<close>

text \<open>
  \<open>Die\<close> is a call of \<^verbatim>\<open>die()\<close> or a failed \<^verbatim>\<open>assert\<close>; \<open>OutOfBounds\<close> an access outside an array or an
  allocation; \<open>SignedOverflow\<close> an \<^verbatim>\<open>int\<close> that leaves its range; \<open>UnlockUnheld\<close> the release
  of a mutex that is not held; \<open>UninitRead\<close> the use of a local that was never assigned;
  \<open>NullDeref\<close> an access through a null pointer; \<open>UseAfterFree\<close> an access to a freed object.
\<close>

datatype fault =
  Die | OutOfBounds | SignedOverflow | UnlockUnheld | UninitRead | NullDeref | UseAfterFree

type_synonym 'a result = "fault + 'a"

definition rbind :: "'e + 'a \<Rightarrow> ('a \<Rightarrow> 'e + 'b) \<Rightarrow> 'e + 'b" where
  "rbind m f = (case m of Inl e \<Rightarrow> Inl e | Inr x \<Rightarrow> f x)"

lemma rbind_Inl [simp, result_simps]: "rbind (Inl e) f = Inl e"
  by (simp add: rbind_def)

lemma rbind_Inr [simp, result_simps]: "rbind (Inr x) f = f x"
  by (simp add: rbind_def)

lemma rbind_eq_Inr_iff: "rbind m f = Inr y \<longleftrightarrow> (\<exists>x. m = Inr x \<and> f x = Inr y)"
  by (cases m) auto

lemma rbind_assoc: "rbind (rbind m f) g = rbind m (\<lambda>x. rbind (f x) g)"
  by (cases m) auto

lemma rbind_split: "P (rbind m f) \<longleftrightarrow> (\<forall>e. m = Inl e \<longrightarrow> P (Inl e)) \<and> (\<forall>x. m = Inr x \<longrightarrow> P (f x))"
  by (cases m) auto

text \<open>
  \<open>rall P m\<close>: every value \<open>m\<close> returns satisfies \<open>P\<close>. Invariants of fallible operations are
  stated with it and composed along \<open>rbind\<close>.
\<close>

definition rall :: "('a \<Rightarrow> bool) \<Rightarrow> 'e + 'a \<Rightarrow> bool" where
  "rall P m \<longleftrightarrow> (case m of Inl e \<Rightarrow> True | Inr x \<Rightarrow> P x)"

lemma rall_simps [simp]: "rall P (Inl e)" "rall P (Inr x) \<longleftrightarrow> P x"
  by (simp_all add: rall_def)

lemma rall_bind: "rall Q m \<Longrightarrow> (\<And>x. Q x \<Longrightarrow> rall P (f x)) \<Longrightarrow> rall P (rbind m f)"
  by (cases m) auto

lemma rall_iff: "rall P m \<longleftrightarrow> (\<forall>x. m = Inr x \<longrightarrow> P x)"
  by (cases m) auto

lemma rallD: "rall P m \<Longrightarrow> m = Inr x \<Longrightarrow> P x"
  by simp

text \<open>\<open>runs P m\<close>: \<open>m\<close> returns, and the value satisfies \<open>P\<close>.\<close>

definition runs :: "('a \<Rightarrow> bool) \<Rightarrow> 'e + 'a \<Rightarrow> bool" where
  "runs P m \<longleftrightarrow> (case m of Inl e \<Rightarrow> False | Inr x \<Rightarrow> P x)"

lemma runs_simps [simp]: "\<not> runs P (Inl e)" "runs P (Inr x) \<longleftrightarrow> P x"
  by (simp_all add: runs_def)

lemma runs_iff: "runs P m \<longleftrightarrow> (\<exists>x. m = Inr x \<and> P x)"
  by (cases m) auto

lemma runs_bind: "runs Q m \<Longrightarrow> (\<And>x. Q x \<Longrightarrow> runs P (f x)) \<Longrightarrow> runs P (rbind m f)"
  by (cases m) auto

lemma runs_mono: "runs P m \<Longrightarrow> (\<And>x. P x \<Longrightarrow> Q x) \<Longrightarrow> runs Q m"
  by (cases m) auto

definition aget :: "'a list \<Rightarrow> nat \<Rightarrow> 'a result" where
  "aget xs i = (if i < length xs then Inr (xs ! i) else Inl OutOfBounds)"

definition aset :: "'a list \<Rightarrow> nat \<Rightarrow> 'a \<Rightarrow> 'a list result" where
  "aset xs i v = (if i < length xs then Inr (xs[i := v]) else Inl OutOfBounds)"

lemma aget_in [simp]: "i < length xs \<Longrightarrow> aget xs i = Inr (xs ! i)"
  by (simp add: aget_def)

lemma aset_in [simp]: "i < length xs \<Longrightarrow> aset xs i v = Inr (xs[i := v])"
  by (simp add: aset_def)

lemma aget_eq_Inr_iff: "aget xs i = Inr v \<longleftrightarrow> i < length xs \<and> v = xs ! i"
  by (auto simp: aget_def)

lemma aset_eq_Inr_iff: "aset xs i v = Inr ys \<longleftrightarrow> i < length xs \<and> ys = xs[i := v]"
  by (auto simp: aset_def)

lemma nth_update_at: "m < length xs \<Longrightarrow> xs[n := v] ! m = (if n = m then v else xs ! m)"
  by auto

section \<open>Copies into a buffer\<close>

definition blit :: "'a list \<Rightarrow> nat \<Rightarrow> 'a list \<Rightarrow> 'a list" where
  "blit dst off src = take off dst @ src @ drop (off + length src) dst"

definition memcpy_to :: "'a list \<Rightarrow> nat \<Rightarrow> 'a list \<Rightarrow> 'a list result" where
  "memcpy_to dst off src =
     (if off + length src \<le> length dst then Inr (blit dst off src) else Inl OutOfBounds)"

definition memcpy_from :: "'a list \<Rightarrow> nat \<Rightarrow> nat \<Rightarrow> 'a list result" where
  "memcpy_from src off n =
     (if off + n \<le> length src then Inr (take n (drop off src)) else Inl OutOfBounds)"

lemma length_blit [simp]: "off + length src \<le> length dst \<Longrightarrow> length (blit dst off src) = length dst"
  by (simp add: blit_def)

lemma nth_blit:
  assumes "off + length src \<le> length dst" and "i < length dst"
  shows "blit dst off src ! i =
    (if off \<le> i \<and> i < off + length src then src ! (i - off) else dst ! i)"
  using assms by (auto simp: blit_def nth_append)

lemma take_drop_blit [simp]:
  "off + length src \<le> length dst \<Longrightarrow> take (length src) (drop off (blit dst off src)) = src"
  by (simp add: blit_def)

lemma memcpy_to_eq_Inr_iff:
  "memcpy_to dst off src = Inr r \<longleftrightarrow> off + length src \<le> length dst \<and> r = blit dst off src"
  by (auto simp: memcpy_to_def)

lemma memcpy_from_eq_Inr_iff:
  "memcpy_from src off n = Inr r \<longleftrightarrow> off + n \<le> length src \<and> r = take n (drop off src)"
  by (auto simp: memcpy_from_def)

section \<open>Little-endian words\<close>

definition le_word :: "u8 list \<Rightarrow> 'a::len word" where
  "le_word bs = foldr (\<lambda>b w. push_bit 8 w OR ucast b) bs 0"

definition le_bytes :: "nat \<Rightarrow> 'a::len word \<Rightarrow> u8 list" where
  "le_bytes n w = map (\<lambda>i. ucast (drop_bit (8 * i) w)) [0..<n]"

lemma length_le_bytes [simp]: "length (le_bytes n w) = n"
  by (simp add: le_bytes_def)

lemma bit_le_word:
  "bit (le_word bs :: 'a::len word) n \<longleftrightarrow> n < LENGTH('a) \<and> n div 8 < length bs \<and> bit (bs ! (n div 8)) (n mod 8)"
proof (induction bs arbitrary: n)
  case Nil
  then show ?case by (simp add: le_word_def)
next
  case (Cons b bs)
  have step: "bit (le_word (b # bs) :: 'a word) n \<longleftrightarrow>
      8 \<le> n \<and> n < LENGTH('a) \<and> bit (le_word bs :: 'a word) (n - 8) \<or> n < LENGTH('a) \<and> bit b n"
    by (simp add: le_word_def bit_or_iff bit_push_bit_iff bit_ucast_iff)
  show ?case
  proof (cases "8 \<le> n")
    case True
    then obtain k where k: "n = 8 + k" by (auto simp: le_iff_add)
    have "\<not> bit b n" using k bit_imp_le_length [of b n] by auto
    moreover have "n div 8 = Suc (k div 8)" "n mod 8 = k mod 8" "n - 8 = k"
      unfolding k by (simp_all add: div_add_self1)
    ultimately show ?thesis
      unfolding step using True k Cons [of k] by auto
  next
    case False
    then have "n div 8 = 0" "n mod 8 = n" by simp_all
    with False show ?thesis by (simp add: step)
  qed
qed

lemma le_word_bytes:
  assumes "LENGTH('a) = 8 * n"
  shows "(le_word (le_bytes n w) :: 'a::len word) = w"
proof (rule bit_word_eqI)
  fix i assume i: "i < LENGTH('a)"
  then have "i div 8 < n" using assms by auto
  then show "bit (le_word (le_bytes n w) :: 'a word) i = bit w i"
    using i by (simp add: bit_le_word le_bytes_def bit_simps)
qed

lemma le_word_zeros: "le_word (replicate n 0) = 0"
  by (induction n) (simp_all add: le_word_def)

section \<open>Big-endian words\<close>

definition be_word :: "u8 list \<Rightarrow> 'a::len word" where
  "be_word bs = le_word (rev bs)"

definition be_bytes :: "nat \<Rightarrow> 'a::len word \<Rightarrow> u8 list" where
  "be_bytes n w = rev (le_bytes n w)"

fun be_words :: "nat \<Rightarrow> nat \<Rightarrow> u8 list \<Rightarrow> 'a::len word list" where
  "be_words w 0 bs = []"
| "be_words w (Suc n) bs = be_word (take w bs) # be_words w n (drop w bs)"

lemma length_be_bytes [simp]: "length (be_bytes n w) = n"
  by (simp add: be_bytes_def)

lemma length_be_words [simp]: "length (be_words w n bs) = n"
  by (induction n arbitrary: bs) simp_all

lemma be_word_bytes: "LENGTH('a) = 8 * n \<Longrightarrow> (be_word (be_bytes n w) :: 'a::len word) = w"
  by (simp add: be_word_def be_bytes_def le_word_bytes)

lemma be_word_bytes_simps [simp]:
  "be_word (be_bytes 2 (w :: u16)) = w" "be_word (be_bytes 4 (x :: u32)) = x" "be_word (be_bytes 8 (y :: u64)) = y"
  by (simp_all add: be_word_bytes)

text \<open>The field of \<open>n\<close> bytes at an offset of a structure.\<close>

definition bytes_at :: "nat \<Rightarrow> nat \<Rightarrow> 'a list \<Rightarrow> 'a list" where
  "bytes_at off n bs = take n (drop off bs)"

definition field :: "nat \<Rightarrow> nat \<Rightarrow> u8 list \<Rightarrow> 'a::len word" where
  "field off n bs = be_word (bytes_at off n bs)"

lemma length_bytes_at: "off + n \<le> length bs \<Longrightarrow> length (bytes_at off n bs) = n"
  by (simp add: bytes_at_def)

lemma bytes_at_blit_same: "off + length src \<le> length dst \<Longrightarrow> n = length src \<Longrightarrow> bytes_at off n (blit dst off src) = src"
  by (simp add: bytes_at_def)

lemma bytes_at_blit_apart:
  assumes "off' + length src \<le> length dst" and "off + n \<le> off' \<or> off' + length src \<le> off"
  shows "bytes_at off n (blit dst off' src) = bytes_at off n dst"
proof (rule nth_equalityI)
  show "length (bytes_at off n (blit dst off' src)) = length (bytes_at off n dst)" using assms(1) by (simp add: bytes_at_def)
  fix i assume "i < length (bytes_at off n (blit dst off' src))"
  then have "i < n" "off + i < length dst" using assms(1) by (auto simp: bytes_at_def)
  then show "bytes_at off n (blit dst off' src) ! i = bytes_at off n dst ! i"
    using assms by (auto simp: bytes_at_def nth_blit)
qed

section \<open>Register flags\<close>

text \<open>\<open>flag w m\<close> is the C condition \<^verbatim>\<open>w & m\<close>; \<open>clrf w m\<close> is \<^verbatim>\<open>w & ~m\<close>.\<close>

definition flag :: "'a::len word \<Rightarrow> 'a word \<Rightarrow> bool" where
  "flag w m \<longleftrightarrow> w AND m \<noteq> 0"

definition clrf :: "'a::len word \<Rightarrow> 'a word \<Rightarrow> 'a word" where
  "clrf w m = w AND NOT m"

lemma flag_iff_bit: "flag w m \<longleftrightarrow> (\<exists>n. bit w n \<and> bit m n)"
  by (auto simp: flag_def bit_eq_iff bit_simps dest: bit_imp_le_length)

lemma word_eq_0_iff_bit: "(w :: 'a::len word) = 0 \<longleftrightarrow> (\<forall>n. \<not> bit w n)"
  by (auto simp: bit_eq_iff bit_simps dest: bit_imp_le_length)

lemma flag_or [flag_simps]: "flag (w OR m) k \<longleftrightarrow> flag w k \<or> flag m k"
  by (auto simp: flag_iff_bit bit_simps)

lemma flag_clrf_keep [flag_simps]: "m AND k = 0 \<Longrightarrow> flag (clrf w m) k \<longleftrightarrow> flag w k"
  by (auto simp: flag_iff_bit clrf_def word_eq_0_iff_bit bit_simps dest: bit_imp_le_length)

lemma flag_clrf_gone [flag_simps]: "k AND NOT m = 0 \<Longrightarrow> \<not> flag (clrf w m) k"
  by (auto simp: flag_iff_bit clrf_def word_eq_0_iff_bit bit_simps dest: bit_imp_le_length)

lemma flag_zero [simp, flag_simps]: "\<not> flag 0 k" "\<not> flag w 0"
  by (simp_all add: flag_def)

lemma flag_numeral [simp, flag_simps]:
  "flag (numeral a) (numeral b :: 'a::len word) \<longleftrightarrow> numeral a AND (numeral b :: 'a word) \<noteq> 0"
  "flag (numeral a) (1 :: 'a::len word) \<longleftrightarrow> numeral a AND (1 :: 'a word) \<noteq> 0"
  "flag 1 (numeral b :: 'a::len word) \<longleftrightarrow> 1 AND (numeral b :: 'a word) \<noteq> 0"
  "flag 1 (1 :: 'a::len word)"
  by (simp_all add: flag_def)

lemma flag_push_bit: "n < LENGTH('a) \<Longrightarrow> flag w (push_bit n 1 :: 'a::len word) \<longleftrightarrow> bit w n"
  by (auto simp: flag_iff_bit bit_simps)

lemma bit_clrf_push_bit:
  "n < LENGTH('a) \<Longrightarrow> bit (clrf w (push_bit n 1 :: 'a::len word)) i \<longleftrightarrow> bit w i \<and> i \<noteq> n"
  by (auto simp: clrf_def bit_simps dest: bit_imp_le_length)

lemma bit_or_push_bit:
  "n < LENGTH('a) \<Longrightarrow> bit (w OR (push_bit n 1 :: 'a::len word)) i \<longleftrightarrow> bit w i \<or> i = n"
  by (auto simp: bit_simps)

lemma clrf_flag_idem: "\<not> flag w m \<Longrightarrow> clrf w m = w"
  by (rule bit_word_eqI) (auto simp: flag_iff_bit clrf_def bit_simps)

section \<open>Parts of a word\<close>

lemma unat_drop: "unat (drop_bit n w) = unat w div 2 ^ n"
  by (rule trans [OF unat_drop_bit_eq drop_bit_eq_div])

lemma unat_take: "unat (take_bit n w) = unat w mod 2 ^ n"
  by (rule trans [OF unsigned_take_bit_eq take_bit_eq_mod])

section \<open>Alignment\<close>

text \<open>The macro \<^verbatim>\<open>__ALIGN_MASK\<close> of \<^verbatim>\<open>include/linux/kernel.h\<close>.\<close>

definition align_mask :: "'a::len word \<Rightarrow> 'a word \<Rightarrow> 'a word" where
  "align_mask x m = (x + m) AND NOT m"

lemma unat_2p: "k < LENGTH('a) \<Longrightarrow> unat (2 ^ k :: 'a::len word) = 2 ^ k"
  using unat_of_nat [of "2 ^ k", where 'a = 'a] by simp

lemma align_mask_unat:
  fixes x :: "'a::len word"
  assumes "k < LENGTH('a)" and "unat x + (2 ^ k - 1) < 2 ^ LENGTH('a)"
  shows "unat (align_mask x (2 ^ k - 1)) = (unat x + (2 ^ k - 1)) div 2 ^ k * 2 ^ k"
proof -
  let ?y = "x + (2 ^ k - 1)"
  have m: "unat (2 ^ k - 1 :: 'a word) = 2 ^ k - 1"
    using assms(1) by (simp add: unat_minus_one unat_2p)
  have y: "unat ?y = unat x + (2 ^ k - 1)"
    using assms(2) m by (subst unat_plus_if') simp
  have "align_mask x (2 ^ k - 1) = push_bit k (drop_bit k ?y)"
    by (rule bit_word_eqI)
      (auto simp: align_mask_def bit_simps mask_eq_exp_minus_1 [symmetric] bit_mask_iff)
  also have "\<dots> = drop_bit k ?y * 2 ^ k" by (simp add: push_bit_eq_mult)
  finally have "unat (align_mask x (2 ^ k - 1)) = unat (drop_bit k ?y) * unat (2 ^ k :: 'a word) mod 2 ^ LENGTH('a)"
    by (simp only: unat_word_ariths)
  moreover have "unat (drop_bit k ?y) = unat ?y div 2 ^ k"
    by (rule trans [OF unat_drop_bit_eq drop_bit_eq_div])
  ultimately have "unat (align_mask x (2 ^ k - 1)) = (unat ?y div 2 ^ k * 2 ^ k) mod 2 ^ LENGTH('a)"
    using assms(1) by (simp only: unat_2p)
  moreover have "unat ?y div 2 ^ k * 2 ^ k < 2 ^ LENGTH('a)"
    using le_less_trans [OF div_times_less_eq_dividend [of "unat ?y" "2 ^ k"]] y assms(2) by simp
  ultimately show ?thesis using y by simp
qed

lemma align_bounds:
  fixes n :: nat
  shows "n \<le> (n + (2 ^ k - 1)) div 2 ^ k * 2 ^ k" and "(n + (2 ^ k - 1)) div 2 ^ k * 2 ^ k < n + 2 ^ k"
proof -
  have "(n + (2 ^ k - 1)) mod 2 ^ k < 2 ^ k" by simp
  then have "n + (2 ^ k - 1) < (n + (2 ^ k - 1)) div 2 ^ k * 2 ^ k + 2 ^ k"
    by (metis add_less_cancel_left div_mult_mod_eq)
  then show "n \<le> (n + (2 ^ k - 1)) div 2 ^ k * 2 ^ k" by (simp add: Suc_le_eq algebra_simps)
  have "(n + (2 ^ k - 1)) div 2 ^ k * 2 ^ k \<le> n + (2 ^ k - 1)" by simp
  also have "\<dots> < n + 2 ^ k" by simp
  finally show "(n + (2 ^ k - 1)) div 2 ^ k * 2 ^ k < n + 2 ^ k" .
qed

section \<open>Interface: a trap handler with an invariant\<close>

text \<open>
  A device is a state and a step for each trapped access. The contract of a device is an
  invariant that holds at reset and that every access keeps; the client, the exit loop of
  the vCPU threads, only relies on runs of accesses.
\<close>

locale trap_device =
  fixes inv :: "'s \<Rightarrow> bool"
    and step :: "'s \<Rightarrow> 'e \<Rightarrow> 's"
  assumes step_inv: "inv s \<Longrightarrow> inv (step s e)"
begin

lemma run_inv: "inv s \<Longrightarrow> inv (foldl step s es)"
  by (induction es arbitrary: s) (simp_all add: step_inv)

lemma run_prefix_inv: "inv s \<Longrightarrow> inv (foldl step s (take n es))"
  by (rule run_inv)

end

section \<open>Sequences of fallible operations\<close>

fun rfold :: "('b \<Rightarrow> 's \<Rightarrow> 's result) \<Rightarrow> 'b list \<Rightarrow> 's \<Rightarrow> 's result" where
  "rfold f [] s = Inr s"
| "rfold f (b # bs) s = rbind (f b s) (rfold f bs)"

lemma rfold_append: "rfold f (xs @ ys) s = rbind (rfold f xs s) (rfold f ys)"
proof (induction xs arbitrary: s)
  case (Cons x xs)
  then show ?case by (cases "f x s") auto
qed simp

lemma runs_rfold: "P s \<Longrightarrow> (\<And>b s. b \<in> set bs \<Longrightarrow> P s \<Longrightarrow> runs P (f b s)) \<Longrightarrow> runs P (rfold f bs s)"
proof (induction bs arbitrary: s)
  case (Cons b bs)
  have "runs P (f b s)" using Cons.prems by simp
  then show ?case using Cons by (auto intro!: runs_bind [of P])
qed simp

text \<open>The same contract for a device whose steps may fault: the accesses that are allowed keep the invariant and do not fault.\<close>

locale safe_device =
  fixes inv :: "'s \<Rightarrow> bool"
    and allowed :: "'e \<Rightarrow> bool"
    and step :: "'e \<Rightarrow> 's \<Rightarrow> 's result"
  assumes step_safe: "inv s \<Longrightarrow> allowed e \<Longrightarrow> runs inv (step e s)"
begin

lemma run_safe: "inv s \<Longrightarrow> (\<forall>e \<in> set es. allowed e) \<Longrightarrow> runs inv (rfold step es s)"
  by (rule runs_rfold) (simp_all add: step_safe)

end

fun rdrain :: "('s \<Rightarrow> ('b \<times> 's) result) \<Rightarrow> nat \<Rightarrow> 's \<Rightarrow> ('b list \<times> 's) result" where
  "rdrain get 0 s = Inr ([], s)"
| "rdrain get (Suc n) s =
     rbind (get s) (\<lambda>(b, s'). rbind (rdrain get n s') (\<lambda>(bs, s''). Inr (b # bs, s'')))"

fun drain :: "('s \<Rightarrow> 'b \<times> 's) \<Rightarrow> nat \<Rightarrow> 's \<Rightarrow> 'b list \<times> 's" where
  "drain get 0 s = ([], s)"
| "drain get (Suc n) s = (let (b, s') = get s; (bs, s'') = drain get n s' in (b # bs, s''))"

section \<open>Steps that may wait\<close>

text \<open>
  \<open>None\<close> is a thread that sleeps until another thread changes the state; the step is then made
  again from the state that thread leaves.
\<close>

type_synonym 'a blocking = "'a result option"

definition sbind :: "'a blocking \<Rightarrow> ('a \<Rightarrow> 'b blocking) \<Rightarrow> 'b blocking" where
  "sbind m f = (case m of None \<Rightarrow> None | Some (Inl e) \<Rightarrow> Some (Inl e) | Some (Inr x) \<Rightarrow> f x)"

lemma sbind_simps [simp, result_simps]:
  "sbind None f = None" "sbind (Some (Inl e)) f = Some (Inl e)" "sbind (Some (Inr x)) f = f x"
  by (simp_all add: sbind_def)

lemma sbind_eq_ok_iff: "sbind m f = Some (Inr y) \<longleftrightarrow> (\<exists>x. m = Some (Inr x) \<and> f x = Some (Inr y))"
  by (auto simp: sbind_def split: option.splits sum.splits)

section \<open>Assignments to fields of a structure\<close>

definition stores :: "(nat \<times> 'a list) list \<Rightarrow> 'a list \<Rightarrow> 'a list result" where
  "stores = rfold (\<lambda>(off, src) dst. memcpy_to dst off src)"

fun stored :: "(nat \<times> 'a list) list \<Rightarrow> 'a list \<Rightarrow> 'a list" where
  "stored [] dst = dst"
| "stored ((off, src) # ps) dst = stored ps (blit dst off src)"

lemma stores_Cons [simp]: "stores ((off, src) # ps) dst = rbind (memcpy_to dst off src) (stores ps)"
  by (simp add: stores_def)

lemma stores_Nil [simp]: "stores [] dst = Inr dst"
  by (simp add: stores_def)

lemma stores_ok:
  "\<forall>(off, src) \<in> set ps. off + length src \<le> length dst \<Longrightarrow>
   stores ps dst = Inr (stored ps dst) \<and> length (stored ps dst) = length dst"
  by (induction ps dst rule: stored.induct) (auto simp: memcpy_to_def)

lemma bytes_at_stored_apart:
  "\<forall>(off', src) \<in> set ps. off' + length src \<le> length dst \<and> (off + n \<le> off' \<or> off' + length src \<le> off) \<Longrightarrow>
   bytes_at off n (stored ps dst) = bytes_at off n dst"
  by (induction ps dst rule: stored.induct) (auto simp: bytes_at_blit_apart)

lemma stored_append: "stored (ps @ qs) dst = stored qs (stored ps dst)"
  by (induction ps dst rule: stored.induct) simp_all

fun apart_all :: "(nat \<times> 'a list) list \<Rightarrow> bool" where
  "apart_all [] = True"
| "apart_all ((off, src) # ps) =
     ((\<forall>(off', src') \<in> set ps. off + length src \<le> off' \<or> off' + length src' \<le> off) \<and> apart_all ps)"

lemma stored_get:
  "apart_all ps \<Longrightarrow> \<forall>(off, src) \<in> set ps. off + length src \<le> length dst \<Longrightarrow> (off, src) \<in> set ps \<Longrightarrow>
   bytes_at off (length src) (stored ps dst) = src"
proof (induction ps arbitrary: dst)
  case (Cons p ps)
  obtain o' s' where p: "p = (o', s')" by fastforce
  show ?case
  proof (cases "(off, src) = (o', s')")
    case True
    then have "bytes_at off (length src) (stored ps (blit dst o' s')) = bytes_at off (length src) (blit dst o' s')"
      using Cons.prems p by (intro bytes_at_stored_apart) (auto split: prod.splits)
    then show ?thesis using True Cons.prems p by (simp add: bytes_at_blit_same)
  next
    case False
    then show ?thesis using Cons.prems p Cons.IH [of "blit dst o' s'"] by auto
  qed
qed simp

section \<open>Ring buffers\<close>

text \<open>The \<open>n\<close> elements of a ring from the free-running read counter \<open>rd\<close> on.\<close>

definition ring_list :: "'a list \<Rightarrow> nat \<Rightarrow> nat \<Rightarrow> 'a list" where
  "ring_list buf rd n = map (\<lambda>i. buf ! ((rd + i) mod length buf)) [0..<n]"

lemma length_ring_list [simp]: "length (ring_list buf rd n) = n"
  by (simp add: ring_list_def)

lemma ring_index_neq:
  assumes "i < n" and "n < (L :: nat)"
  shows "(rd + i) mod L \<noteq> (rd + n) mod L"
proof
  assume "(rd + i) mod L = (rd + n) mod L"
  then have "L dvd (rd + n) - (rd + i)"
    using assms(1) by (metis add_left_mono less_imp_le mod_eq_dvd_iff_nat)
  with assms show False
    by (auto dest: dvd_imp_le)
qed

lemma ring_list_put:
  assumes "n < length buf"
  shows "ring_list (buf[(rd + n) mod length buf := v]) rd (Suc n) = ring_list buf rd n @ [v]"
proof -
  have "(rd + n) mod length buf < length buf"
    using assms by (intro mod_less_divisor) auto
  moreover have "\<forall>i<n. (rd + n) mod length buf \<noteq> (rd + i) mod length buf"
    using ring_index_neq [OF _ assms] by metis
  ultimately show ?thesis
    by (auto simp: ring_list_def)
qed

lemma ring_list_get:
  "0 < n \<Longrightarrow> ring_list buf rd n = buf ! (rd mod length buf) # ring_list buf (Suc rd) (n - 1)"
  by (cases n) (auto simp: ring_list_def map_upt_Suc simp del: upt_Suc)

section \<open>Interface: a bounded queue\<close>

text \<open>
  \<open>put\<close> drops the byte when the queue is full; \<open>get\<close> returns the oldest byte of a queue that
  holds one. \<open>list\<close> is the abstraction to the bytes in order. \<open>budget\<close> is the number of
  further bytes the queue takes before its free-running write counter leaves its type.
\<close>

locale bounded_queue =
  fixes inv :: "'s \<Rightarrow> bool"
    and cap :: nat
    and list :: "'s \<Rightarrow> 'b list"
    and budget :: "'s \<Rightarrow> nat"
    and put :: "'b \<Rightarrow> 's \<Rightarrow> 's result"
    and get :: "'s \<Rightarrow> ('b \<times> 's) result"
  assumes list_bound: "inv s \<Longrightarrow> length (list s) \<le> cap"
    and put_ok: "inv s \<Longrightarrow> 0 < budget s \<Longrightarrow>
      \<exists>s'. put b s = Inr s' \<and> inv s' \<and> budget s \<le> Suc (budget s') \<and>
           list s' = (if length (list s) < cap then list s @ [b] else list s)"
    and get_ok: "inv s \<Longrightarrow> list s \<noteq> [] \<Longrightarrow>
      \<exists>s'. get s = Inr (hd (list s), s') \<and> inv s' \<and> list s' = tl (list s)"
begin

lemma put_all:
  "inv s \<Longrightarrow> length bs \<le> budget s \<Longrightarrow>
   \<exists>s'. rfold put bs s = Inr s' \<and> inv s' \<and> list s' = list s @ take (cap - length (list s)) bs"
proof (induction bs arbitrary: s)
  case Nil
  then show ?case by simp
next
  case (Cons b bs)
  then obtain t where t: "put b s = Inr t" "inv t" "budget s \<le> Suc (budget t)"
    "list t = (if length (list s) < cap then list s @ [b] else list s)"
    using put_ok [of s b] by auto
  with Cons.prems obtain u where "rfold put bs t = Inr u" "inv u"
    "list u = list t @ take (cap - length (list t)) bs"
    using Cons.IH [of t] by auto
  with t show ?case
    by (auto simp: take_Cons')
qed

lemma get_all:
  "inv s \<Longrightarrow> n \<le> length (list s) \<Longrightarrow>
   \<exists>s'. rdrain get n s = Inr (take n (list s), s') \<and> inv s' \<and> list s' = drop n (list s)"
proof (induction n arbitrary: s)
  case 0
  then show ?case by simp
next
  case (Suc n)
  then have ne: "list s \<noteq> []" by auto
  then obtain t where t: "get s = Inr (hd (list s), t)" "inv t" "list t = tl (list s)"
    using get_ok Suc.prems(1) by blast
  have "n \<le> length (list t)"
    using Suc.prems(2) t(3) by simp
  then obtain u where "rdrain get n t = Inr (take n (list t), u)" "inv u"
    "list u = drop n (list t)"
    using Suc.IH [OF t(2)] by blast
  with t ne show ?case
    by (cases "list s") auto
qed

text \<open>Bytes put into a queue that holds none come out in order, up to the capacity.\<close>

lemma put_all_get_all:
  assumes "inv s" and "list s = []" and "length bs \<le> budget s" and "length bs \<le> cap"
  shows "\<exists>s'. rbind (rfold put bs s) (rdrain get (length bs)) = Inr (bs, s') \<and> inv s' \<and> list s' = []"
proof -
  obtain t where t: "rfold put bs s = Inr t" "inv t" "list t = bs"
    using put_all [OF assms(1,3)] assms(2,4) by auto
  with get_all [of t "length bs"] show ?thesis
    by auto
qed

end

end
