(* ===== verification/Serial8250.thy ===== *)
theory Serial8250
  imports Prelude
begin

text \<open>
  The 8250 UART of \<^verbatim>\<open>hw/serial.c\<close>. The record is \<^verbatim>\<open>struct serial8250_device\<close> without the
  mutex and the device header; two more fields record what the device does to the outside,
  the bytes given to \<^verbatim>\<open>term_putc\<close> and the calls of \<^verbatim>\<open>kvm_irq_line\<close>, oldest first. Terminal
  input is the list of values the following \<^verbatim>\<open>term_getc\<close> calls return; \<^verbatim>\<open>term_readable\<close> is
  true while it is not empty. Registration with the bus is in \<^verbatim>\<open>serial8250__init\<close> and is
  not modelled here. Addresses and interrupts are those of the x86 build.
\<close>

section \<open>Registers\<close>

abbreviation (input) FIFO_LEN :: nat where "FIFO_LEN \<equiv> 64"
abbreviation (input) UART_IIR_TYPE_BITS :: u8 where "UART_IIR_TYPE_BITS \<equiv> 0xc0"
abbreviation (input) UART_TX :: u16 where "UART_TX \<equiv> 0"
abbreviation (input) UART_RX :: u16 where "UART_RX \<equiv> 0"
abbreviation (input) UART_IER :: u16 where "UART_IER \<equiv> 1"
abbreviation (input) UART_IIR :: u16 where "UART_IIR \<equiv> 2"
abbreviation (input) UART_FCR :: u16 where "UART_FCR \<equiv> 2"
abbreviation (input) UART_LCR :: u16 where "UART_LCR \<equiv> 3"
abbreviation (input) UART_MCR :: u16 where "UART_MCR \<equiv> 4"
abbreviation (input) UART_LSR :: u16 where "UART_LSR \<equiv> 5"
abbreviation (input) UART_MSR :: u16 where "UART_MSR \<equiv> 6"
abbreviation (input) UART_SCR :: u16 where "UART_SCR \<equiv> 7"
abbreviation (input) UART_FCR_CLEAR_RCVR :: u8 where "UART_FCR_CLEAR_RCVR \<equiv> 0x02"
abbreviation (input) UART_FCR_CLEAR_XMIT :: u8 where "UART_FCR_CLEAR_XMIT \<equiv> 0x04"
abbreviation (input) UART_IER_RDI :: u8 where "UART_IER_RDI \<equiv> 0x01"
abbreviation (input) UART_IER_THRI :: u8 where "UART_IER_THRI \<equiv> 0x02"
abbreviation (input) UART_IIR_NO_INT :: u8 where "UART_IIR_NO_INT \<equiv> 0x01"
abbreviation (input) UART_IIR_THRI :: u8 where "UART_IIR_THRI \<equiv> 0x02"
abbreviation (input) UART_IIR_RDI :: u8 where "UART_IIR_RDI \<equiv> 0x04"
abbreviation (input) UART_LCR_DLAB :: u8 where "UART_LCR_DLAB \<equiv> 0x80"
abbreviation (input) UART_MCR_LOOP :: u8 where "UART_MCR_LOOP \<equiv> 0x10"
abbreviation (input) UART_MCR_OUT2 :: u8 where "UART_MCR_OUT2 \<equiv> 0x08"
abbreviation (input) UART_LSR_DR :: u8 where "UART_LSR_DR \<equiv> 0x01"
abbreviation (input) UART_LSR_BI :: u8 where "UART_LSR_BI \<equiv> 0x10"
abbreviation (input) UART_LSR_THRE :: u8 where "UART_LSR_THRE \<equiv> 0x20"
abbreviation (input) UART_LSR_TEMT :: u8 where "UART_LSR_TEMT \<equiv> 0x40"
abbreviation (input) UART_MSR_DCD :: u8 where "UART_MSR_DCD \<equiv> 0x80"
abbreviation (input) UART_MSR_DSR :: u8 where "UART_MSR_DSR \<equiv> 0x20"
abbreviation (input) UART_MSR_CTS :: u8 where "UART_MSR_CTS \<equiv> 0x10"

record serial8250 =
  ser_id :: u8
  ser_iobase :: u32
  ser_irq :: u8
  irq_state :: u8
  txcnt :: nat
  rxcnt :: nat
  rxdone :: nat
  txbuf :: "u8 list"
  rxbuf :: "u8 list"
  dll :: u8
  dlm :: u8
  iir :: u8
  ier :: u8
  fcr :: u8
  lcr :: u8
  mcr :: u8
  lsr :: u8
  msr :: u8
  scr :: u8
  term_out :: "u8 list"
  irq_lines :: "(u8 \<times> bool) list"

definition serial_device :: "u8 \<Rightarrow> u32 \<Rightarrow> u8 \<Rightarrow> serial8250" where
  "serial_device i base irq =
     \<lparr>ser_id = i, ser_iobase = base, ser_irq = irq, irq_state = 0,
      txcnt = 0, rxcnt = 0, rxdone = 0,
      txbuf = replicate FIFO_LEN 0, rxbuf = replicate FIFO_LEN 0,
      dll = 0, dlm = 0, iir = UART_IIR_NO_INT, ier = 0, fcr = 0, lcr = 0,
      mcr = UART_MCR_OUT2, lsr = UART_LSR_TEMT OR UART_LSR_THRE,
      msr = UART_MSR_DCD OR UART_MSR_DSR OR UART_MSR_CTS, scr = 0,
      term_out = [], irq_lines = []\<rparr>"

definition devices :: "serial8250 list" where
  "devices = [serial_device 0 0x3f8 4, serial_device 1 0x2f8 3,
              serial_device 2 0x3e8 4, serial_device 3 0x2e8 3]"

section \<open>Operations\<close>

definition serial_irq_line :: "bool \<Rightarrow> serial8250 \<Rightarrow> serial8250" where
  "serial_irq_line level d = d\<lparr>irq_lines := irq_lines d @ [(ser_irq d, level)]\<rparr>"

definition serial8250_flush_tx :: "serial8250 \<Rightarrow> serial8250" where
  "serial8250_flush_tx d =
     (let d1 = d\<lparr>lsr := lsr d OR (UART_LSR_TEMT OR UART_LSR_THRE)\<rparr>
      in if txcnt d1 \<noteq> 0
         then d1\<lparr>term_out := term_out d1 @ take (txcnt d1) (txbuf d1), txcnt := 0\<rparr>
         else d1)"

definition clear_rx :: "serial8250 \<Rightarrow> serial8250" where
  "clear_rx d =
     (if flag (lcr d) UART_FCR_CLEAR_RCVR
      then d\<lparr>lcr := clrf (lcr d) UART_FCR_CLEAR_RCVR, rxcnt := 0, rxdone := 0,
             lsr := clrf (lsr d) UART_LSR_DR\<rparr>
      else d)"

definition clear_tx :: "serial8250 \<Rightarrow> serial8250" where
  "clear_tx d =
     (if flag (lcr d) UART_FCR_CLEAR_XMIT
      then d\<lparr>lcr := clrf (lcr d) UART_FCR_CLEAR_XMIT, txcnt := 0,
             lsr := lsr d OR (UART_LSR_TEMT OR UART_LSR_THRE)\<rparr>
      else d)"

definition pending_iir :: "serial8250 \<Rightarrow> u8" where
  "pending_iir d =
     (if flag (ier d) UART_IER_RDI \<and> flag (lsr d) UART_LSR_DR then UART_IIR_RDI else 0) OR
     (if flag (ier d) UART_IER_THRI \<and> flag (lsr d) UART_LSR_TEMT then UART_IIR_THRI else 0)"

definition serial8250_update_irq :: "serial8250 \<Rightarrow> serial8250" where
  "serial8250_update_irq d =
     (let d2 = clear_tx (clear_rx d);
          i = pending_iir d2;
          d3 = (if i = 0
                then (if irq_state d2 \<noteq> 0 then serial_irq_line False else id)
                       (d2\<lparr>iir := UART_IIR_NO_INT\<rparr>)
                else (if irq_state d2 = 0 then serial_irq_line True else id) (d2\<lparr>iir := i\<rparr>));
          d4 = d3\<lparr>irq_state := i\<rparr>
      in if \<not> flag (ier d4) UART_IER_THRI then serial8250_flush_tx d4 else d4)"

definition serial_rx_push :: "u8 \<Rightarrow> serial8250 \<Rightarrow> serial8250" where
  "serial_rx_push c d =
     d\<lparr>rxbuf := (rxbuf d)[rxcnt d := c], rxcnt := Suc (rxcnt d), lsr := lsr d OR UART_LSR_DR\<rparr>"

definition serial8250_sysrq :: "u8 \<Rightarrow> serial8250 \<Rightarrow> serial8250" where
  "serial8250_sysrq sysrq d =
     (let d1 = d\<lparr>lsr := lsr d OR (UART_LSR_DR OR UART_LSR_BI)\<rparr>
      in d1\<lparr>rxbuf := (rxbuf d1)[rxcnt d1 := sysrq], rxcnt := Suc (rxcnt d1)\<rparr>)"

fun receive_loop :: "int list \<Rightarrow> serial8250 \<Rightarrow> int list \<times> serial8250" where
  "receive_loop [] d = ([], d)"
| "receive_loop (c # cs) d =
     (if rxcnt d < FIFO_LEN
      then (if c < 0 then (cs, d) else receive_loop cs (serial_rx_push (word_of_int c) d))
      else (c # cs, d))"

text \<open>
  \<open>receive con hs sysrq inp d\<close>: \<open>con\<close> is \<^verbatim>\<open>active_console == CONSOLE_8250\<close>, \<open>hs\<close> is
  \<^verbatim>\<open>handle_sysrq\<close>, \<open>sysrq\<close> is the global \<^verbatim>\<open>sysrq_pending\<close> and \<open>inp\<close> the terminal input. The
  result is the remaining \<^verbatim>\<open>sysrq_pending\<close>, the remaining input and the device.
\<close>

definition serial8250_receive ::
  "bool \<Rightarrow> bool \<Rightarrow> u8 \<Rightarrow> int list \<Rightarrow> serial8250 \<Rightarrow> u8 \<times> int list \<times> serial8250" where
  "serial8250_receive con hs sysrq inp d =
     (if flag (mcr d) UART_MCR_LOOP then (sysrq, inp, d)
      else if flag (lsr d) UART_LSR_DR \<or> rxcnt d \<noteq> 0 then (sysrq, inp, d)
      else if hs \<and> sysrq \<noteq> 0 then (0, inp, serial8250_sysrq sysrq d)
      else if \<not> con then (sysrq, inp, d)
      else (sysrq, receive_loop inp d))"

record serial_ports =
  ports :: "serial8250 list"
  sysrq_pending :: u8
  tty_in :: "int list list"

definition update_console :: "bool \<Rightarrow> nat \<Rightarrow> serial_ports \<Rightarrow> serial_ports" where
  "update_console con i s =
     (let (sq, inp, d) = serial8250_receive con (i = 0) (sysrq_pending s) (tty_in s ! i) (ports s ! i)
      in s\<lparr>ports := (ports s)[i := serial8250_update_irq d], sysrq_pending := sq,
           tty_in := (tty_in s)[i := inp]\<rparr>)"

definition serial8250_update_consoles :: "bool \<Rightarrow> serial_ports \<Rightarrow> serial_ports" where
  "serial8250_update_consoles con s = fold (update_console con) [0..<length (ports s)] s"

definition serial8250_inject_sysrq :: "u8 \<Rightarrow> serial_ports \<Rightarrow> serial_ports" where
  "serial8250_inject_sysrq c s = s\<lparr>sysrq_pending := c\<rparr>"

definition serial_tx :: "u8 \<Rightarrow> serial8250 \<Rightarrow> serial8250" where
  "serial_tx v d =
     (if flag (lcr d) UART_LCR_DLAB then d\<lparr>dll := v\<rparr>
      else if flag (mcr d) UART_MCR_LOOP
      then (if rxcnt d < FIFO_LEN then serial_rx_push v d else d)
      else if txcnt d < FIFO_LEN
      then (let d1 = d\<lparr>txbuf := (txbuf d)[txcnt d := v], txcnt := Suc (txcnt d),
                       lsr := clrf (lsr d) UART_LSR_TEMT\<rparr>;
                d2 = (if txcnt d1 = FIFO_LEN div 2
                      then d1\<lparr>lsr := clrf (lsr d1) UART_LSR_THRE\<rparr> else d1)
            in serial8250_flush_tx d2)
      else d\<lparr>lsr := clrf (lsr d) (UART_LSR_TEMT OR UART_LSR_THRE)\<rparr>)"

definition serial8250_out :: "u16 \<Rightarrow> u8 \<Rightarrow> serial8250 \<Rightarrow> bool \<times> serial8250" where
  "serial8250_out offset v d =
     (let (ret, d1) =
        (if offset = UART_TX then (True, serial_tx v d)
         else if offset = UART_IER
         then (True, if \<not> flag (lcr d) UART_LCR_DLAB then d\<lparr>ier := v AND 0x0f\<rparr> else d\<lparr>dlm := v\<rparr>)
         else if offset = UART_FCR then (True, d\<lparr>fcr := v\<rparr>)
         else if offset = UART_LCR then (True, d\<lparr>lcr := v\<rparr>)
         else if offset = UART_MCR then (True, d\<lparr>mcr := v\<rparr>)
         else if offset = UART_LSR then (True, d)
         else if offset = UART_MSR then (True, d)
         else if offset = UART_SCR then (True, d\<lparr>scr := v\<rparr>)
         else (False, d))
      in (ret, serial8250_update_irq d1))"

text \<open>Reads return the value stored in \<^verbatim>\<open>*data\<close>, which keeps its old value \<open>x\<close> where none is.\<close>

definition serial8250_rx :: "u8 \<Rightarrow> serial8250 \<Rightarrow> u8 \<times> serial8250" where
  "serial8250_rx x d =
     (if rxdone d = rxcnt d then (x, d)
      else if flag (lsr d) UART_LSR_BI then (0, d\<lparr>lsr := clrf (lsr d) UART_LSR_BI\<rparr>)
      else (let v = rxbuf d ! rxdone d;
                d1 = d\<lparr>rxdone := Suc (rxdone d)\<rparr>
            in (v, if rxcnt d1 = rxdone d1
                   then d1\<lparr>lsr := clrf (lsr d1) UART_LSR_DR, rxcnt := 0, rxdone := 0\<rparr>
                   else d1)))"

definition serial8250_in :: "u16 \<Rightarrow> u8 \<Rightarrow> serial8250 \<Rightarrow> bool \<times> u8 \<times> serial8250" where
  "serial8250_in offset x d =
     (let (ret, v, d1) =
        (if offset = UART_RX
         then (if flag (lcr d) UART_LCR_DLAB then (True, dll d, d) else (True, serial8250_rx x d))
         else if offset = UART_IER
         then (True, if flag (lcr d) UART_LCR_DLAB then dlm d else ier d, d)
         else if offset = UART_IIR then (True, iir d OR UART_IIR_TYPE_BITS, d)
         else if offset = UART_LCR then (True, lcr d, d)
         else if offset = UART_MCR then (True, mcr d, d)
         else if offset = UART_LSR then (True, lsr d, d)
         else if offset = UART_MSR then (True, msr d, d)
         else if offset = UART_SCR then (True, scr d, d)
         else (False, x, d))
      in (ret, v, serial8250_update_irq d1))"

definition serial8250_mmio :: "u64 \<Rightarrow> u8 \<Rightarrow> bool \<Rightarrow> serial8250 \<Rightarrow> u8 \<times> serial8250" where
  "serial8250_mmio addr x is_write d =
     (let offset = ucast (addr - ucast (ser_iobase d)) :: u16
      in if is_write then (x, snd (serial8250_out offset x d))
         else snd (serial8250_in offset x d))"

section \<open>Invariant\<close>

text \<open>
  \<open>serial_core\<close> is what every step keeps, also inside an access: the buffers and the
  counters agree with the line status, nothing is left to transmit, and the interrupt line
  is high exactly when \<^verbatim>\<open>irq_state\<close> is set. \<open>serial_wf\<close> adds what
  \<^verbatim>\<open>serial8250_update_irq\<close> establishes at the end of an access.
\<close>

definition serial_level :: "serial8250 \<Rightarrow> bool" where
  "serial_level d \<longleftrightarrow> irq_lines d \<noteq> [] \<and> snd (last (irq_lines d))"

definition serial_core :: "serial8250 \<Rightarrow> bool" where
  "serial_core d \<longleftrightarrow>
     length (txbuf d) = FIFO_LEN \<and> length (rxbuf d) = FIFO_LEN \<and> txcnt d = 0 \<and>
     rxcnt d \<le> FIFO_LEN \<and> rxdone d \<le> rxcnt d \<and> (rxdone d = rxcnt d \<longrightarrow> rxcnt d = 0) \<and>
     (flag (lsr d) UART_LSR_DR \<longleftrightarrow> rxdone d < rxcnt d) \<and>
     flag (lsr d) UART_LSR_TEMT \<and> flag (lsr d) UART_LSR_THRE \<and>
     (serial_level d \<longleftrightarrow> irq_state d \<noteq> 0)"

definition serial_wf :: "serial8250 \<Rightarrow> bool" where
  "serial_wf d \<longleftrightarrow>
     serial_core d \<and> irq_state d = pending_iir d \<and>
     iir d = (if pending_iir d = 0 then UART_IIR_NO_INT else pending_iir d) \<and>
     \<not> flag (lcr d) UART_FCR_CLEAR_RCVR \<and> \<not> flag (lcr d) UART_FCR_CLEAR_XMIT"

definition rx_pending :: "serial8250 \<Rightarrow> u8 list" where
  "rx_pending d = take (rxcnt d - rxdone d) (drop (rxdone d) (rxbuf d))"

lemmas serial_defs = serial_irq_line_def serial8250_flush_tx_def clear_rx_def clear_tx_def
  serial_rx_push_def serial8250_sysrq_def serial_tx_def serial8250_rx_def Let_def

lemma serial_device_wf: "serial_wf (serial_device i base irq)"
  by (simp add: serial_device_def serial_wf_def serial_core_def serial_level_def pending_iir_def
      flag_def)

lemma flush_tx_core [simp]: "txcnt d = 0 \<Longrightarrow> serial_core (serial8250_flush_tx d) \<longleftrightarrow>
    serial_core (d\<lparr>lsr := lsr d OR (UART_LSR_TEMT OR UART_LSR_THRE)\<rparr>)"
  by (simp add: serial8250_flush_tx_def)

lemma clear_rx_core: "serial_core d \<Longrightarrow> serial_core (clear_rx d)"
  by (auto simp: serial_core_def clear_rx_def serial_level_def flag_simps)

lemma clear_tx_core: "serial_core d \<Longrightarrow> serial_core (clear_tx d)"
  by (auto simp: serial_core_def clear_tx_def serial_level_def flag_simps)

lemma rx_push_core: "serial_core d \<Longrightarrow> rxcnt d < FIFO_LEN \<Longrightarrow> serial_core (serial_rx_push c d)"
  by (auto simp: serial_core_def serial_rx_push_def serial_level_def flag_simps)

lemma sysrq_core:
  "serial_core d \<Longrightarrow> rxcnt d < FIFO_LEN \<Longrightarrow> serial_core (serial8250_sysrq c d)"
  by (auto simp: serial_core_def serial8250_sysrq_def serial_level_def flag_simps Let_def)

lemma serial_tx_core: "serial_core d \<Longrightarrow> serial_core (serial_tx v d)"
  by (auto simp: serial_core_def serial_tx_def serial_rx_push_def serial8250_flush_tx_def
      serial_level_def flag_simps Let_def)

lemma serial8250_rx_core: "serial_core d \<Longrightarrow> serial_core (snd (serial8250_rx x d))"
  by (auto simp: serial_core_def serial8250_rx_def serial_level_def flag_simps Let_def)

lemma receive_loop_core: "serial_core d \<Longrightarrow> serial_core (snd (receive_loop cs d))"
  by (induction cs d rule: receive_loop.induct) (auto simp: rx_push_core)

lemma receive_core: "serial_core d \<Longrightarrow> serial_core (snd (snd (serial8250_receive con hs q inp d)))"
  by (auto simp: serial8250_receive_def receive_loop_core intro!: sysrq_core)

lemma pending_iir_flush: "flag (lsr d) UART_LSR_TEMT \<Longrightarrow>
    pending_iir (serial8250_flush_tx d) = pending_iir d"
  by (simp add: pending_iir_def serial8250_flush_tx_def flag_simps Let_def)

lemma update_irq_lcr:
  "lcr (serial8250_update_irq d) = clrf (lcr d) (UART_FCR_CLEAR_RCVR OR UART_FCR_CLEAR_XMIT)"
proof -
  have "lcr (clear_tx (clear_rx d)) = clrf (clrf (lcr d) 2) 4"
    by (auto simp: clear_tx_def clear_rx_def clrf_flag_idem flag_simps)
  moreover have "clrf (clrf (lcr d) 2) 4 = clrf (lcr d) 6"
    by (simp add: clrf_def ac_simps)
  ultimately show ?thesis
    by (simp add: serial8250_update_irq_def serial8250_flush_tx_def serial_irq_line_def Let_def)
qed

lemma update_irq_wf: "serial_core d \<Longrightarrow> serial_wf (serial8250_update_irq d)"
proof -
  assume c: "serial_core d"
  define e where "e = clear_tx (clear_rx d)"
  have e: "serial_core e"
    unfolding e_def by (intro clear_tx_core clear_rx_core c)
  have "serial_core (serial8250_update_irq d)"
    using e unfolding serial8250_update_irq_def e_def [symmetric]
    by (auto simp: Let_def serial_core_def serial_irq_line_def serial8250_flush_tx_def
        serial_level_def flag_simps)
  moreover have "pending_iir (serial8250_update_irq d) = pending_iir e
      \<and> irq_state (serial8250_update_irq d) = pending_iir e
      \<and> iir (serial8250_update_irq d) = (if pending_iir e = 0 then UART_IIR_NO_INT else pending_iir e)"
    using e unfolding serial8250_update_irq_def e_def [symmetric]
    by (auto simp: Let_def serial_core_def serial_irq_line_def serial8250_flush_tx_def
        pending_iir_def flag_simps)
  ultimately show ?thesis
    by (simp add: serial_wf_def update_irq_lcr flag_simps)
qed

lemma wf_core: "serial_wf d \<Longrightarrow> serial_core d"
  by (simp add: serial_wf_def)

lemma serial8250_out_wf: "serial_core d \<Longrightarrow> serial_wf (snd (serial8250_out off v d))"
  unfolding serial8250_out_def Let_def split_beta snd_conv
  by (rule update_irq_wf) (simp add: serial_tx_core, simp add: serial_core_def serial_level_def)

lemma serial8250_in_wf: "serial_core d \<Longrightarrow> serial_wf (snd (snd (serial8250_in off x d)))"
  unfolding serial8250_in_def Let_def split_beta snd_conv
  by (rule update_irq_wf) (simp add: serial8250_rx_core)

text \<open>One event per entry point: a trapped access, or a poll of the terminal.\<close>

datatype serial_event = SerMmio u64 u8 bool | SerPoll bool bool u8 "int list"

fun serial_step :: "serial8250 \<Rightarrow> serial_event \<Rightarrow> serial8250" where
  "serial_step d (SerMmio addr x w) = snd (serial8250_mmio addr x w d)"
| "serial_step d (SerPoll con hs sysrq inp) =
     serial8250_update_irq (snd (snd (serial8250_receive con hs sysrq inp d)))"

lemma serial_step_wf: "serial_wf d \<Longrightarrow> serial_wf (serial_step d e)"
  by (cases e) (auto simp: serial8250_mmio_def Let_def split_beta wf_core serial8250_out_wf
      serial8250_in_wf update_irq_wf receive_core)

interpretation ser: trap_device serial_wf serial_step
  by unfold_locales (rule serial_step_wf)

section \<open>Behaviour of the receiver and the transmitter\<close>

lemma wf_clears_idle: "serial_wf d \<Longrightarrow> clear_tx (clear_rx d) = d"
  by (simp add: serial_wf_def clear_tx_def clear_rx_def)

lemma update_irq_keeps:
  assumes "\<not> flag (lcr d) UART_FCR_CLEAR_RCVR" and "\<not> flag (lcr d) UART_FCR_CLEAR_XMIT"
  shows "rxbuf (serial8250_update_irq d) = rxbuf d" "rxcnt (serial8250_update_irq d) = rxcnt d"
    "rxdone (serial8250_update_irq d) = rxdone d" "mcr (serial8250_update_irq d) = mcr d"
    "flag (lsr (serial8250_update_irq d)) UART_LSR_BI \<longleftrightarrow> flag (lsr d) UART_LSR_BI"
    "ier (serial8250_update_irq d) = ier d"
    "txcnt d = 0 \<Longrightarrow> term_out (serial8250_update_irq d) = term_out d"
  using assms
  by (auto simp: serial8250_update_irq_def Let_def clear_tx_def clear_rx_def serial_irq_line_def
      serial8250_flush_tx_def flag_simps)

lemma update_irq_pending:
  assumes "\<not> flag (lcr d) UART_FCR_CLEAR_RCVR" and "\<not> flag (lcr d) UART_FCR_CLEAR_XMIT"
  shows "rx_pending (serial8250_update_irq d) = rx_pending d"
  by (simp add: rx_pending_def update_irq_keeps [OF assms])

lemma rx_push_pending:
  assumes "serial_core d" and "rxcnt d < FIFO_LEN"
  shows "rx_pending (serial_rx_push c d) = rx_pending d @ [c]"
  using assms
  by (auto simp: rx_pending_def serial_rx_push_def serial_core_def Suc_diff_le
      take_Suc_conv_app_nth drop_update_swap)

lemma receive_loop_pending:
  assumes "serial_core d" and "rxdone d = 0" and "\<forall>c\<in>set cs. 0 \<le> c"
    and "rxcnt d + length cs \<le> FIFO_LEN"
  shows "rx_pending (snd (receive_loop cs d)) = rx_pending d @ map word_of_int cs"
    and "fst (receive_loop cs d) = []"
  using assms
  by (induction cs d rule: receive_loop.induct)
    (auto simp: rx_push_pending rx_push_core, auto simp: serial_rx_push_def)

definition read_rx :: "serial8250 \<Rightarrow> u8 \<times> serial8250" where
  "read_rx d = snd (serial8250_in UART_RX 0 d)"

text \<open>The register state in which a read of the receive register pops the FIFO.\<close>

definition rx_mode :: "serial8250 \<Rightarrow> bool" where
  "rx_mode d \<longleftrightarrow> serial_wf d \<and> \<not> flag (lcr d) UART_LCR_DLAB \<and> \<not> flag (lsr d) UART_LSR_BI"

lemma rx_pending_Nil_iff: "serial_core d \<Longrightarrow> rx_pending d = [] \<longleftrightarrow> rxcnt d = 0"
  by (auto simp: rx_pending_def serial_core_def)

lemma rx_pop:
  assumes "serial_core d" and "rx_pending d \<noteq> []" and "\<not> flag (lsr d) UART_LSR_BI"
  shows "fst (serial8250_rx x d) = hd (rx_pending d)"
    and "rx_pending (snd (serial8250_rx x d)) = tl (rx_pending d)"
proof -
  from assms(1,2) have lt: "rxdone d < rxcnt d" "rxcnt d \<le> length (rxbuf d)"
    by (auto simp: rx_pending_def serial_core_def)
  then have "rx_pending d =
      rxbuf d ! rxdone d # take (rxcnt d - Suc (rxdone d)) (drop (Suc (rxdone d)) (rxbuf d))"
    by (simp add: rx_pending_def Cons_nth_drop_Suc [symmetric] take_Cons')
  with lt assms(3) show "fst (serial8250_rx x d) = hd (rx_pending d)"
    and "rx_pending (snd (serial8250_rx x d)) = tl (rx_pending d)"
    by (auto simp: serial8250_rx_def Let_def) (auto simp: rx_pending_def)
qed

lemma rx_keeps_regs:
  "lcr (snd (serial8250_rx x d)) = lcr d" "mcr (snd (serial8250_rx x d)) = mcr d"
  "\<not> flag (lsr d) UART_LSR_BI \<Longrightarrow> \<not> flag (lsr (snd (serial8250_rx x d))) UART_LSR_BI"
  by (auto simp: serial8250_rx_def Let_def flag_simps)

lemma read_rx_pop:
  assumes "rx_mode d" and "rx_pending d \<noteq> []"
  shows "fst (read_rx d) = hd (rx_pending d)"
    and "rx_pending (snd (read_rx d)) = tl (rx_pending d)"
    and "rx_mode (snd (read_rx d))"
proof -
  let ?r = "snd (serial8250_rx 0 d)"
  from assms(1) have core: "serial_core d" and bi: "\<not> flag (lsr d) UART_LSR_BI"
    and dlab: "\<not> flag (lcr d) UART_LCR_DLAB" and wf: "serial_wf d"
    by (auto simp: rx_mode_def wf_core)
  from wf have c: "\<not> flag (lcr ?r) UART_FCR_CLEAR_RCVR" "\<not> flag (lcr ?r) UART_FCR_CLEAR_XMIT"
    by (simp_all add: rx_keeps_regs serial_wf_def)
  have r: "read_rx d = (fst (serial8250_rx 0 d), serial8250_update_irq ?r)"
    using dlab by (simp add: read_rx_def serial8250_in_def split_beta Let_def)
  show "fst (read_rx d) = hd (rx_pending d)"
    by (simp add: r rx_pop [OF core assms(2) bi])
  show "rx_pending (snd (read_rx d)) = tl (rx_pending d)"
    by (simp add: r update_irq_pending [OF c] rx_pop [OF core assms(2) bi])
  show "rx_mode (snd (read_rx d))"
    using dlab bi
    by (simp add: r rx_mode_def update_irq_wf serial8250_rx_core core update_irq_keeps [OF c]
        update_irq_lcr rx_keeps_regs flag_simps)
qed

lemma drain_rx:
  "rx_mode d \<Longrightarrow> n \<le> length (rx_pending d) \<Longrightarrow>
     fst (drain read_rx n d) = take n (rx_pending d) \<and>
     rx_pending (snd (drain read_rx n d)) = drop n (rx_pending d)"
proof (induction n arbitrary: d)
  case 0
  then show ?case by simp
next
  case (Suc n)
  then have ne: "rx_pending d \<noteq> []" by auto
  note p = read_rx_pop [OF Suc.prems(1) ne]
  from Suc.prems(2) have "n \<le> length (rx_pending (snd (read_rx d)))" by (simp add: p)
  from Suc.IH [OF p(3) this] show ?case
    using ne by (cases "rx_pending d") (auto simp: p split_beta Let_def)
qed

lemma poll_rx_mode:
  assumes "rx_mode d" and "serial8250_receive con False q inp d = (q', inp', e)"
  shows "rx_mode (serial8250_update_irq e)"
proof -
  have loop: "lcr (snd (receive_loop cs f)) = lcr f
      \<and> (flag (lsr (snd (receive_loop cs f))) UART_LSR_BI \<longleftrightarrow> flag (lsr f) UART_LSR_BI)" for cs f
    by (induction cs f rule: receive_loop.induct) (auto simp: serial_rx_push_def flag_simps)
  have e: "lcr e = lcr d" "flag (lsr e) UART_LSR_BI \<longleftrightarrow> flag (lsr d) UART_LSR_BI"
    using assms(2) loop by (auto simp: serial8250_receive_def split: if_splits) (metis snd_conv)+
  have core: "serial_core e"
    using receive_core [of d con False q inp] assms by (auto simp: rx_mode_def wf_core)
  have c: "\<not> flag (lcr e) UART_FCR_CLEAR_RCVR" "\<not> flag (lcr e) UART_FCR_CLEAR_XMIT"
    using assms(1) e(1) by (simp_all add: rx_mode_def serial_wf_def)
  show ?thesis
    using assms(1) e update_irq_wf [OF core]
    by (simp add: rx_mode_def update_irq_keeps [OF c] update_irq_lcr flag_simps)
qed

text \<open>
  C8. From power-on, after any sequence of register accesses and terminal polls, the UART is
  well formed (counters within the FIFO, data-ready exactly when a byte waits, nothing left in
  the transmit buffer), and its interrupt line is high exactly when a received byte waits and
  its interrupt is enabled, or the transmitter-empty interrupt is enabled.
\<close>

theorem serial_run_wf_and_level:
  "let d = foldl serial_step (serial_device i base irq) es
   in serial_wf d \<and>
      (serial_level d \<longleftrightarrow>
         flag (ier d) UART_IER_RDI \<and> rx_pending d \<noteq> [] \<or> flag (ier d) UART_IER_THRI)"
proof -
  let ?d = "foldl serial_step (serial_device i base irq) es"
  have wf: "serial_wf ?d"
    by (rule ser.run_inv [OF serial_device_wf])
  then have "serial_level ?d \<longleftrightarrow> pending_iir ?d \<noteq> 0" and "flag (lsr ?d) UART_LSR_TEMT"
    and "flag (lsr ?d) UART_LSR_DR \<longleftrightarrow> rx_pending ?d \<noteq> []"
    by (auto simp: serial_wf_def serial_core_def rx_pending_Nil_iff [OF wf_core [OF wf]])
  with wf show ?thesis
    by (auto simp: pending_iir_def Let_def)
qed

text \<open>
  Bytes that arrive on the terminal of an idle UART are the bytes the guest reads from the
  receive register, in order, up to the 64 bytes of the FIFO: after one poll, reading as many
  times as bytes arrived returns exactly those bytes.
\<close>

theorem serial_input_roundtrip:
  assumes "rx_mode d" and "rx_pending d = []" and "\<not> flag (mcr d) UART_MCR_LOOP"
    and "list_all (\<lambda>c. 0 \<le> c) inp" and "length inp \<le> FIFO_LEN"
  shows "fst (drain read_rx (length inp)
           (serial8250_update_irq (snd (snd (serial8250_receive True False q inp d)))))
         = map word_of_int inp"
proof -
  let ?e = "snd (receive_loop inp d)"
  from assms(1) have core: "serial_core d" by (simp add: rx_mode_def wf_core)
  with assms(2) have idle: "rxcnt d = 0" "rxdone d = 0" "\<not> flag (lsr d) UART_LSR_DR"
    by (auto simp: rx_pending_Nil_iff serial_core_def)
  with assms(3) have r: "serial8250_receive True False q inp d = (q, fst (receive_loop inp d), ?e)"
    by (simp add: serial8250_receive_def)
  have "rx_pending ?e = map word_of_int inp"
    using receive_loop_pending(1) [OF core idle(2), of inp] assms idle(1)
    by (simp add: list_all_iff)
  moreover have "lcr ?e = lcr d"
    by (induction inp d rule: receive_loop.induct) (auto simp: serial_rx_push_def)
  ultimately have p: "rx_pending (serial8250_update_irq ?e) = map word_of_int inp"
    using assms(1) update_irq_pending [of ?e] by (simp add: rx_mode_def serial_wf_def)
  from drain_rx [OF poll_rx_mode [OF assms(1) r], of "length inp"] show ?thesis
    by (simp add: r p)
qed

theorem serial_input_roundtrip_witness:
  "fst (drain read_rx 2
     (serial8250_update_irq (snd (snd (serial8250_receive True False 0 [104, 105]
        (serial_device 0 0x3f8 4)))))) = [104, 105]"
proof -
  let ?d = "serial_device 0 0x3f8 4"
  have "rx_mode ?d"
    by (simp add: rx_mode_def serial_device_wf, simp add: serial_device_def flag_def)
  moreover have "rx_pending ?d = []" "\<not> flag (mcr ?d) UART_MCR_LOOP"
    by (simp_all add: rx_pending_def serial_device_def)
  ultimately show ?thesis
    using serial_input_roundtrip [of ?d "[104, 105]" 0] by (simp add: numeral_2_eq_2)
qed

lemma out_tx_step:
  fixes v :: u8 and d :: serial8250
  assumes "serial_wf d" and "\<not> flag (lcr d) UART_LCR_DLAB" and "\<not> flag (mcr d) UART_MCR_LOOP"
  defines "e \<equiv> snd (serial8250_out UART_TX v d)"
  shows "term_out e = term_out d @ [v]" and "serial_wf e"
    and "\<not> flag (lcr e) UART_LCR_DLAB" and "\<not> flag (mcr e) UART_MCR_LOOP"
proof -
  let ?t = "serial_tx v d"
  have core: "txcnt d = 0" "length (txbuf d) = FIFO_LEN"
    using assms(1) by (auto simp: serial_wf_def serial_core_def)
  then have tk: "take (Suc 0) ((txbuf d)[0 := v]) = [v]"
    by (cases "txbuf d") auto
  have t: "term_out ?t = term_out d @ [v]" "lcr ?t = lcr d" "mcr ?t = mcr d" "txcnt ?t = 0"
    using assms(2,3) core by (simp_all add: serial_tx_def serial8250_flush_tx_def Let_def tk)
  have c: "\<not> flag (lcr ?t) UART_FCR_CLEAR_RCVR" "\<not> flag (lcr ?t) UART_FCR_CLEAR_XMIT"
    using assms(1) by (auto simp: t serial_wf_def)
  have e: "e = serial8250_update_irq ?t"
    by (simp add: e_def serial8250_out_def Let_def)
  show "term_out e = term_out d @ [v]"
    by (simp add: e update_irq_keeps [OF c] t)
  show "serial_wf e"
    using serial8250_out_wf [OF wf_core [OF assms(1)]] by (simp add: e_def)
  show "\<not> flag (lcr e) UART_LCR_DLAB" "\<not> flag (mcr e) UART_MCR_LOOP"
    using assms(2,3) by (simp_all add: e update_irq_keeps [OF c] update_irq_lcr t flag_simps)
qed

text \<open>
  Every byte the guest writes to the transmit register, outside divisor-latch and loopback
  mode, reaches the terminal at once, in order and without loss.
\<close>

theorem serial_output_complete:
  assumes "serial_wf d" and "\<not> flag (lcr d) UART_LCR_DLAB" and "\<not> flag (mcr d) UART_MCR_LOOP"
  shows "term_out (fold (\<lambda>v e. snd (serial8250_out UART_TX v e)) vs d) = term_out d @ vs"
  using assms
proof (induction vs arbitrary: d)
  case Nil
  then show ?case by simp
next
  case (Cons v vs)
  note s = out_tx_step [OF Cons.prems, of v]
  show ?case
    using Cons.IH [OF s(2-4)] by (simp add: s(1))
qed

theorem serial_output_complete_witness:
  "term_out (fold (\<lambda>v e. snd (serial8250_out UART_TX v e)) [79, 75] (serial_device 0 0x3f8 4))
   = [79, 75]"
  using serial_output_complete [of "serial_device 0 0x3f8 4" "[79, 75]", OF serial_device_wf]
  by (simp add: serial_device_def)

text \<open>
  The line control register does not read back: whatever the guest writes, bits 1 and 2
  (the upper word-length bit and the stop bit) read as zero, because the update treats them as
  the FIFO-clear commands of the FIFO control register; writing bit 1, as the usual 8-bit mode
  does, throws away the received bytes, and writing the FIFO control register never does.
\<close>

theorem serial_lcr_taken_for_fcr:
  "fst (snd (serial8250_in UART_LCR x (snd (serial8250_out UART_LCR v d)))) = clrf v 6 \<and>
   (flag v UART_FCR_CLEAR_RCVR \<longrightarrow> rx_pending (snd (serial8250_out UART_LCR v d)) = []) \<and>
   (serial_wf d \<longrightarrow> rx_pending (snd (serial8250_out UART_FCR v d)) = rx_pending d)"
proof (intro conjI impI)
  show "fst (snd (serial8250_in UART_LCR x (snd (serial8250_out UART_LCR v d)))) = clrf v 6"
    by (simp add: serial8250_in_def serial8250_out_def Let_def update_irq_lcr)
  assume "flag v UART_FCR_CLEAR_RCVR"
  then have "rxcnt (snd (serial8250_out UART_LCR v d)) = 0"
    by (simp add: serial8250_out_def Let_def serial8250_update_irq_def clear_tx_def clear_rx_def
        serial8250_flush_tx_def serial_irq_line_def)
  then show "rx_pending (snd (serial8250_out UART_LCR v d)) = []"
    by (simp add: rx_pending_def)
next
  assume "serial_wf d"
  then have "rx_pending (serial8250_update_irq (d\<lparr>fcr := v\<rparr>)) = rx_pending (d\<lparr>fcr := v\<rparr>)"
    by (intro update_irq_pending) (simp_all add: serial_wf_def)
  then show "rx_pending (snd (serial8250_out UART_FCR v d)) = rx_pending d"
    by (simp add: serial8250_out_def Let_def rx_pending_def)
qed

theorem serial_lcr_taken_for_fcr_witness:
  "fst (snd (serial8250_in UART_LCR 0 (snd (serial8250_out UART_LCR 3 (serial_device 0 0x3f8 4))))) = 1
   \<and> rx_pending (snd (serial8250_out UART_LCR 3 (serial_device 0 0x3f8 4))) = []
   \<and> rx_pending (snd (serial8250_out UART_FCR 2 (serial_device 0 0x3f8 4))) = []"
  using serial_lcr_taken_for_fcr [of 0 3 "serial_device 0 0x3f8 4"]
    serial_lcr_taken_for_fcr [of 0 2 "serial_device 0 0x3f8 4"]
    serial_device_wf [of 0 "0x3f8" 4]
  by (simp add: clrf_def, simp add: serial_device_def rx_pending_def)

end
