(* ===== verification/I8042.thy ===== *)
theory I8042
  imports Prelude
begin

text \<open>
  The PS/2 controller of \<^verbatim>\<open>hw/i8042.c\<close>. \<open>kbd_state\<close> is \<^verbatim>\<open>struct kbd_state\<close>; the calls of
  \<^verbatim>\<open>kvm_irq_line\<close> are kept in \<open>kbd_irqs\<close> and a call of \<^verbatim>\<open>kvm_vm_exit\<close> in \<open>vm_exit\<close>. The
  read and write indexes are C ints that only ever grow; the model stops with
  \<open>SignedOverflow\<close> where they would pass \<^verbatim>\<open>INT_MAX\<close>.
\<close>

section \<open>State\<close>

abbreviation (input) QUEUE_SIZE :: nat where "QUEUE_SIZE \<equiv> 128"
abbreviation (input) INT_MAX :: nat where "INT_MAX \<equiv> 2147483647"
abbreviation (input) KBD_IRQ :: nat where "KBD_IRQ \<equiv> 1"
abbreviation (input) AUX_IRQ :: nat where "AUX_IRQ \<equiv> 12"
abbreviation (input) I8042_DATA_REG :: u64 where "I8042_DATA_REG \<equiv> 0x60"
abbreviation (input) I8042_PORT_B_REG :: u64 where "I8042_PORT_B_REG \<equiv> 0x61"
abbreviation (input) I8042_COMMAND_REG :: u64 where "I8042_COMMAND_REG \<equiv> 0x64"
abbreviation (input) I8042_CMD_CTL_RCTR :: u8 where "I8042_CMD_CTL_RCTR \<equiv> 0x20"
abbreviation (input) I8042_CMD_CTL_WCTR :: u8 where "I8042_CMD_CTL_WCTR \<equiv> 0x60"
abbreviation (input) I8042_CMD_AUX_LOOP :: u8 where "I8042_CMD_AUX_LOOP \<equiv> 0xD3"
abbreviation (input) I8042_CMD_AUX_SEND :: u8 where "I8042_CMD_AUX_SEND \<equiv> 0xD4"
abbreviation (input) I8042_CMD_AUX_TEST :: u8 where "I8042_CMD_AUX_TEST \<equiv> 0xA9"
abbreviation (input) I8042_CMD_AUX_DISABLE :: u8 where "I8042_CMD_AUX_DISABLE \<equiv> 0xA7"
abbreviation (input) I8042_CMD_AUX_ENABLE :: u8 where "I8042_CMD_AUX_ENABLE \<equiv> 0xA8"
abbreviation (input) I8042_CMD_SYSTEM_RESET :: u8 where "I8042_CMD_SYSTEM_RESET \<equiv> 0xFE"
abbreviation (input) RESPONSE_ACK :: u8 where "RESPONSE_ACK \<equiv> 0xFA"
abbreviation (input) MODE_DISABLE_AUX :: u8 where "MODE_DISABLE_AUX \<equiv> 0x20"
abbreviation (input) AUX_ENABLE_REPORTING :: u8 where "AUX_ENABLE_REPORTING \<equiv> 0x20"
abbreviation (input) AUX_SCALING_FLAG :: u8 where "AUX_SCALING_FLAG \<equiv> 0x10"
abbreviation (input) AUX_DEFAULT_RESOLUTION :: u8 where "AUX_DEFAULT_RESOLUTION \<equiv> 0x2"
abbreviation (input) AUX_DEFAULT_SAMPLE :: u8 where "AUX_DEFAULT_SAMPLE \<equiv> 100"
abbreviation (input) I8042_STR_AUXDATA :: u8 where "I8042_STR_AUXDATA \<equiv> 0x20"
abbreviation (input) I8042_STR_KEYLOCK :: u8 where "I8042_STR_KEYLOCK \<equiv> 0x10"
abbreviation (input) I8042_STR_CMDDAT :: u8 where "I8042_STR_CMDDAT \<equiv> 0x08"
abbreviation (input) I8042_STR_MUXERR :: u8 where "I8042_STR_MUXERR \<equiv> 0x04"
abbreviation (input) I8042_STR_OBF :: u8 where "I8042_STR_OBF \<equiv> 0x01"
abbreviation (input) KBD_MODE_KBD_INT :: u8 where "KBD_MODE_KBD_INT \<equiv> 0x01"
abbreviation (input) KBD_MODE_SYS :: u8 where "KBD_MODE_SYS \<equiv> 0x02"

record kbd_state =
  kq :: "u8 list"
  kread :: nat
  kwrite :: nat
  kcount :: nat
  mq :: "u8 list"
  mread :: nat
  mwrite :: nat
  mcount :: nat
  mstatus :: u8
  mres :: u8
  msample :: u8
  kbd_mode :: u8
  kbd_status :: u8
  write_cmd :: u8
  kbd_irqs :: "(nat \<times> bool) list"
  vm_exit :: bool

definition int_inc :: "nat \<Rightarrow> nat result" where
  "int_inc n = (if n < INT_MAX then Inr (Suc n) else Inl SignedOverflow)"

section \<open>Operations\<close>

definition kbd_irq_line :: "nat \<Rightarrow> bool \<Rightarrow> kbd_state \<Rightarrow> kbd_state" where
  "kbd_irq_line n level s = s\<lparr>kbd_irqs := kbd_irqs s @ [(n, level)]\<rparr>"

definition kbd_update_irq :: "kbd_state \<Rightarrow> kbd_state" where
  "kbd_update_irq s =
     (let st0 = clrf (kbd_status s) (I8042_STR_OBF OR I8042_STR_AUXDATA);
          klevel = kcount s > 0;
          st1 = (if klevel then st0 OR I8042_STR_OBF else st0);
          mlevel = (\<not> klevel \<and> mcount s \<noteq> 0);
          st2 = (if mlevel then st1 OR (I8042_STR_OBF OR I8042_STR_AUXDATA) else st1)
      in kbd_irq_line AUX_IRQ mlevel (kbd_irq_line KBD_IRQ klevel (s\<lparr>kbd_status := st2\<rparr>)))"

definition mouse_queue :: "u8 \<Rightarrow> kbd_state \<Rightarrow> kbd_state result" where
  "mouse_queue c s =
     (if mcount s \<ge> QUEUE_SIZE then Inr s
      else rbind (aset (mq s) (mwrite s mod QUEUE_SIZE) c) (\<lambda>q.
           rbind (int_inc (mwrite s)) (\<lambda>w.
           Inr (kbd_update_irq (s\<lparr>mq := q, mwrite := w, mcount := Suc (mcount s)\<rparr>)))))"

definition kbd_queue :: "u8 \<Rightarrow> kbd_state \<Rightarrow> kbd_state result" where
  "kbd_queue c s =
     (if kcount s \<ge> QUEUE_SIZE then Inr s
      else rbind (aset (kq s) (kwrite s mod QUEUE_SIZE) c) (\<lambda>q.
           rbind (int_inc (kwrite s)) (\<lambda>w.
           Inr (kbd_update_irq (s\<lparr>kq := q, kwrite := w, kcount := Suc (kcount s)\<rparr>)))))"

definition kbd_write_command :: "u8 \<Rightarrow> kbd_state \<Rightarrow> kbd_state result" where
  "kbd_write_command val s =
     (if val = I8042_CMD_CTL_RCTR then kbd_queue (kbd_mode s) s
      else if val = I8042_CMD_CTL_WCTR \<or> val = I8042_CMD_AUX_SEND \<or> val = I8042_CMD_AUX_LOOP
      then Inr (s\<lparr>write_cmd := val\<rparr>)
      else if val = I8042_CMD_AUX_TEST then mouse_queue 0 s
      else if val = I8042_CMD_AUX_DISABLE then Inr (s\<lparr>kbd_mode := kbd_mode s OR MODE_DISABLE_AUX\<rparr>)
      else if val = I8042_CMD_AUX_ENABLE then Inr (s\<lparr>kbd_mode := clrf (kbd_mode s) MODE_DISABLE_AUX\<rparr>)
      else if val = I8042_CMD_SYSTEM_RESET then Inr (s\<lparr>vm_exit := True\<rparr>)
      else Inr s)"

definition kbd_read_data :: "kbd_state \<Rightarrow> (u8 \<times> kbd_state) result" where
  "kbd_read_data s =
     (if kcount s \<noteq> 0
      then rbind (aget (kq s) (kread s mod QUEUE_SIZE)) (\<lambda>ret.
           rbind (int_inc (kread s)) (\<lambda>r.
           Inr (ret, kbd_update_irq (kbd_irq_line KBD_IRQ False
                  (s\<lparr>kread := r, kcount := kcount s - 1\<rparr>)))))
      else if mcount s > 0
      then rbind (aget (mq s) (mread s mod QUEUE_SIZE)) (\<lambda>ret.
           rbind (int_inc (mread s)) (\<lambda>r.
           Inr (ret, kbd_update_irq (kbd_irq_line AUX_IRQ False
                  (s\<lparr>mread := r, mcount := mcount s - 1\<rparr>)))))
      else rbind (aget (kq s) (if kread s = 0 then QUEUE_SIZE else kread s - 1)) (\<lambda>ret.
           Inr (ret, s)))"

definition kbd_read_status :: "kbd_state \<Rightarrow> u8" where
  "kbd_read_status s = kbd_status s"

definition kbd_aux_command :: "u8 \<Rightarrow> kbd_state \<Rightarrow> kbd_state result" where
  "kbd_aux_command val s =
     (if val = 0xe6 then Inr (s\<lparr>mstatus := clrf (mstatus s) AUX_SCALING_FLAG\<rparr>)
      else if val = 0xe8 then Inr (s\<lparr>mres := val\<rparr>)
      else if val = 0xe9
      then rbind (mouse_queue (mstatus s) s) (\<lambda>s1.
           rbind (mouse_queue (mres s1) s1) (\<lambda>s2. mouse_queue (msample s2) s2))
      else if val = 0xf2 then mouse_queue 0 s
      else if val = 0xf3 then Inr (s\<lparr>msample := val\<rparr>)
      else if val = 0xf4 then Inr (s\<lparr>mstatus := mstatus s OR AUX_ENABLE_REPORTING\<rparr>)
      else if val = 0xf5 then Inr (s\<lparr>mstatus := clrf (mstatus s) AUX_ENABLE_REPORTING\<rparr>)
      else if val = 0xf6 \<or> val = 0xff
      then Inr (s\<lparr>mstatus := 0, mres := AUX_DEFAULT_RESOLUTION, msample := AUX_DEFAULT_SAMPLE\<rparr>)
      else Inr s)"

definition kbd_write_data :: "u8 \<Rightarrow> kbd_state \<Rightarrow> kbd_state result" where
  "kbd_write_data val s =
     rbind
       (if write_cmd s = I8042_CMD_CTL_WCTR then Inr (kbd_update_irq (s\<lparr>kbd_mode := val\<rparr>))
        else if write_cmd s = I8042_CMD_AUX_LOOP
        then rbind (mouse_queue val s) (mouse_queue RESPONSE_ACK)
        else if write_cmd s = I8042_CMD_AUX_SEND
        then rbind (mouse_queue RESPONSE_ACK s) (kbd_aux_command val)
        else if write_cmd s = 0
        then rbind (kbd_queue RESPONSE_ACK s) (\<lambda>s1.
             rbind (kbd_queue 0xab s1) (\<lambda>s2.
             rbind (kbd_queue 0x41 s2) (\<lambda>s3. Inr (kbd_update_irq s3))))
        else Inr s)
       (\<lambda>s'. Inr (s'\<lparr>write_cmd := 0\<rparr>))"

definition kbd_reset :: kbd_state where
  "kbd_reset =
     \<lparr>kq = replicate QUEUE_SIZE 0, kread = 0, kwrite = 0, kcount = 0,
      mq = replicate QUEUE_SIZE 0, mread = 0, mwrite = 0, mcount = 0,
      mstatus = 0, mres = AUX_DEFAULT_RESOLUTION, msample = AUX_DEFAULT_SAMPLE,
      kbd_mode = KBD_MODE_KBD_INT OR KBD_MODE_SYS,
      kbd_status = I8042_STR_MUXERR OR I8042_STR_CMDDAT OR I8042_STR_KEYLOCK,
      write_cmd = 0, kbd_irqs = [], vm_exit = False\<rparr>"

text \<open>The result is the byte left in \<^verbatim>\<open>*data\<close> and the state; \<open>x\<close> is the byte that was there.\<close>

definition kbd_io :: "u64 \<Rightarrow> u8 \<Rightarrow> bool \<Rightarrow> kbd_state \<Rightarrow> (u8 \<times> kbd_state) result" where
  "kbd_io addr x is_write s =
     (if addr = I8042_COMMAND_REG
      then (if is_write then rbind (kbd_write_command x s) (\<lambda>s'. Inr (x, s'))
            else Inr (kbd_read_status s, s))
      else if addr = I8042_DATA_REG
      then (if is_write then rbind (kbd_write_data x s) (\<lambda>s'. Inr (x, s')) else kbd_read_data s)
      else if addr = I8042_PORT_B_REG then Inr (if is_write then x else 0x20, s)
      else Inr (x, s))"

section \<open>Invariant\<close>

definition kbd_wf :: "kbd_state \<Rightarrow> bool" where
  "kbd_wf s \<longleftrightarrow>
     length (kq s) = QUEUE_SIZE \<and> length (mq s) = QUEUE_SIZE \<and>
     kcount s \<le> QUEUE_SIZE \<and> mcount s \<le> QUEUE_SIZE \<and>
     kwrite s = kread s + kcount s \<and> mwrite s = mread s + mcount s \<and>
     kwrite s \<le> INT_MAX \<and> mwrite s \<le> INT_MAX \<and>
     (flag (kbd_status s) I8042_STR_OBF \<longleftrightarrow> 0 < kcount s \<or> 0 < mcount s) \<and>
     (flag (kbd_status s) I8042_STR_AUXDATA \<longleftrightarrow> kcount s = 0 \<and> 0 < mcount s)"

definition kbd_list :: "kbd_state \<Rightarrow> u8 list" where
  "kbd_list s = ring_list (kq s) (kread s) (kcount s)"

definition mouse_list :: "kbd_state \<Rightarrow> u8 list" where
  "mouse_list s = ring_list (mq s) (mread s) (mcount s)"

lemma kbd_reset_wf: "kbd_wf kbd_reset"
  by (simp add: kbd_wf_def kbd_reset_def)

lemma update_irq_fields [simp]:
  "kq (kbd_update_irq s) = kq s" "kread (kbd_update_irq s) = kread s"
  "kwrite (kbd_update_irq s) = kwrite s" "kcount (kbd_update_irq s) = kcount s"
  "mq (kbd_update_irq s) = mq s" "mread (kbd_update_irq s) = mread s"
  "mwrite (kbd_update_irq s) = mwrite s" "mcount (kbd_update_irq s) = mcount s"
  "write_cmd (kbd_update_irq s) = write_cmd s" "kbd_mode (kbd_update_irq s) = kbd_mode s"
  by (simp_all add: kbd_update_irq_def kbd_irq_line_def Let_def)

lemma irq_line_fields [simp]:
  "kq (kbd_irq_line n l s) = kq s" "kread (kbd_irq_line n l s) = kread s"
  "kwrite (kbd_irq_line n l s) = kwrite s" "kcount (kbd_irq_line n l s) = kcount s"
  "mq (kbd_irq_line n l s) = mq s" "mread (kbd_irq_line n l s) = mread s"
  "mwrite (kbd_irq_line n l s) = mwrite s" "mcount (kbd_irq_line n l s) = mcount s"
  by (simp_all add: kbd_irq_line_def)

lemma update_irq_status:
  "flag (kbd_status (kbd_update_irq s)) I8042_STR_OBF \<longleftrightarrow> 0 < kcount s \<or> 0 < mcount s"
  "flag (kbd_status (kbd_update_irq s)) I8042_STR_AUXDATA \<longleftrightarrow> kcount s = 0 \<and> 0 < mcount s"
  by (auto simp: kbd_update_irq_def kbd_irq_line_def Let_def flag_simps)

lemmas kbd_wf_simps = kbd_wf_def update_irq_status aset_eq_Inr_iff aget_eq_Inr_iff
  rbind_eq_Inr_iff int_inc_def

lemma mouse_queue_wf: "kbd_wf s \<Longrightarrow> rall kbd_wf (mouse_queue c s)"
  by (auto simp: rall_iff mouse_queue_def kbd_wf_simps split: if_splits)

lemma kbd_queue_wf: "kbd_wf s \<Longrightarrow> rall kbd_wf (kbd_queue c s)"
  by (auto simp: rall_iff kbd_queue_def kbd_wf_simps split: if_splits)

lemma kbd_update_irq_wf: "kbd_wf s \<Longrightarrow> kbd_wf (kbd_update_irq s)"
  by (auto simp: kbd_wf_simps)

lemma kbd_wf_upd [simp]:
  "kbd_wf (s\<lparr>write_cmd := a\<rparr>) = kbd_wf s" "kbd_wf (s\<lparr>kbd_mode := b\<rparr>) = kbd_wf s"
  "kbd_wf (s\<lparr>vm_exit := c\<rparr>) = kbd_wf s" "kbd_wf (s\<lparr>mstatus := d\<rparr>) = kbd_wf s"
  "kbd_wf (s\<lparr>mres := e\<rparr>) = kbd_wf s" "kbd_wf (s\<lparr>msample := f\<rparr>) = kbd_wf s"
  by (simp_all add: kbd_wf_def)

lemmas kbd_wf_intros = rall_bind mouse_queue_wf kbd_queue_wf kbd_update_irq_wf

lemma kbd_write_command_wf: "kbd_wf s \<Longrightarrow> rall kbd_wf (kbd_write_command v s)"
  by (simp add: kbd_write_command_def kbd_wf_intros)

lemma kbd_read_data_wf: "kbd_wf s \<Longrightarrow> rall (\<lambda>(v, t). kbd_wf t) (kbd_read_data s)"
  by (auto simp: rall_iff kbd_read_data_def kbd_wf_simps split: if_splits)

lemma kbd_aux_command_wf: "kbd_wf s \<Longrightarrow> rall kbd_wf (kbd_aux_command v s)"
  by (auto simp: kbd_aux_command_def intro!: kbd_wf_intros)

lemma kbd_write_data_wf: "kbd_wf s \<Longrightarrow> rall kbd_wf (kbd_write_data v s)"
  unfolding kbd_write_data_def
  by (rule rall_bind [where Q = kbd_wf])
    (auto intro!: kbd_wf_intros intro: kbd_aux_command_wf)

lemma kbd_io_wf: "kbd_wf s \<Longrightarrow> rall (\<lambda>(v, t). kbd_wf t) (kbd_io addr x w s)"
  unfolding kbd_io_def
  by (auto intro: rall_bind kbd_write_command_wf kbd_write_data_wf kbd_read_data_wf)

text \<open>A faulting access ends the run; the state then stays as it was.\<close>

datatype kbd_event = KbdIo u64 u8 bool | KeyInput u8 | MouseInput u8

fun kbd_handle :: "kbd_state \<Rightarrow> kbd_event \<Rightarrow> kbd_state result" where
  "kbd_handle s (KbdIo addr x w) = rbind (kbd_io addr x w s) (\<lambda>(v, t). Inr t)"
| "kbd_handle s (KeyInput c) = kbd_queue c s"
| "kbd_handle s (MouseInput c) = mouse_queue c s"

definition kbd_step :: "kbd_state \<Rightarrow> kbd_event \<Rightarrow> kbd_state" where
  "kbd_step s e = (case kbd_handle s e of Inl f \<Rightarrow> s | Inr t \<Rightarrow> t)"

lemma kbd_step_wf: "kbd_wf s \<Longrightarrow> kbd_wf (kbd_step s e)"
proof -
  assume s: "kbd_wf s"
  have "rall kbd_wf (kbd_handle s e)"
    by (cases e) (auto intro!: s kbd_wf_intros kbd_io_wf)
  then show ?thesis
    using s by (auto simp: kbd_step_def split: sum.splits)
qed

interpretation kbd: trap_device kbd_wf kbd_step
  by unfold_locales (rule kbd_step_wf)

section \<open>The two queues\<close>

definition kbd_budget :: "kbd_state \<Rightarrow> nat" where
  "kbd_budget s = INT_MAX - kwrite s"

definition mouse_budget :: "kbd_state \<Rightarrow> nat" where
  "mouse_budget s = INT_MAX - mwrite s"

lemma kbd_queue_ok:
  assumes "kbd_wf s" and "0 < kbd_budget s"
  shows "\<exists>t. kbd_queue c s = Inr t \<and> kbd_wf t \<and> kbd_budget s \<le> Suc (kbd_budget t) \<and>
    kbd_list t = (if length (kbd_list s) < QUEUE_SIZE then kbd_list s @ [c] else kbd_list s)"
proof (cases "kcount s < QUEUE_SIZE")
  case True
  have len: "length (kq s) = QUEUE_SIZE" and w: "kwrite s = kread s + kcount s"
    and lt: "kwrite s < INT_MAX"
    using assms by (auto simp: kbd_wf_def kbd_budget_def)
  have "kbd_queue c s = Inr (kbd_update_irq (s\<lparr>kq := (kq s)[kwrite s mod QUEUE_SIZE := c],
      kwrite := Suc (kwrite s), kcount := Suc (kcount s)\<rparr>))" (is "_ = Inr ?t")
    using True lt len by (simp add: kbd_queue_def int_inc_def)
  moreover have "kbd_list ?t = kbd_list s @ [c]"
    using ring_list_put [of "kcount s" "kq s" "kread s" c] True len w by (simp add: kbd_list_def)
  ultimately show ?thesis
    using True kbd_queue_wf [OF assms(1), of c] by (auto simp: kbd_list_def kbd_budget_def)
next
  case False
  with assms show ?thesis
    by (simp add: kbd_queue_def kbd_list_def)
qed

lemma mouse_queue_ok:
  assumes "kbd_wf s" and "0 < mouse_budget s"
  shows "\<exists>t. mouse_queue c s = Inr t \<and> kbd_wf t \<and> kcount t = kcount s \<and>
    mouse_budget s \<le> Suc (mouse_budget t) \<and>
    mouse_list t = (if length (mouse_list s) < QUEUE_SIZE then mouse_list s @ [c] else mouse_list s)"
proof (cases "mcount s < QUEUE_SIZE")
  case True
  have len: "length (mq s) = QUEUE_SIZE" and w: "mwrite s = mread s + mcount s"
    and lt: "mwrite s < INT_MAX"
    using assms by (auto simp: kbd_wf_def mouse_budget_def)
  have "mouse_queue c s = Inr (kbd_update_irq (s\<lparr>mq := (mq s)[mwrite s mod QUEUE_SIZE := c],
      mwrite := Suc (mwrite s), mcount := Suc (mcount s)\<rparr>))" (is "_ = Inr ?t")
    using True lt len by (simp add: mouse_queue_def int_inc_def)
  moreover have "mouse_list ?t = mouse_list s @ [c]"
    using ring_list_put [of "mcount s" "mq s" "mread s" c] True len w by (simp add: mouse_list_def)
  ultimately show ?thesis
    using True mouse_queue_wf [OF assms(1), of c] by (auto simp: mouse_list_def mouse_budget_def)
next
  case False
  with assms show ?thesis
    by (simp add: mouse_queue_def mouse_list_def)
qed

lemma kbd_read_data_kbd:
  assumes "kbd_wf s" and "kbd_list s \<noteq> []"
  shows "\<exists>t. kbd_read_data s = Inr (hd (kbd_list s), t) \<and> kbd_wf t \<and> kbd_list t = tl (kbd_list s)"
proof -
  from assms have c: "0 < kcount s" "length (kq s) = QUEUE_SIZE" "kread s < INT_MAX"
    by (auto simp: kbd_list_def ring_list_def kbd_wf_def)
  then have "kbd_read_data s = Inr (kq s ! (kread s mod QUEUE_SIZE),
      kbd_update_irq (kbd_irq_line KBD_IRQ False (s\<lparr>kread := Suc (kread s), kcount := kcount s - 1\<rparr>)))"
    by (simp add: kbd_read_data_def int_inc_def)
  moreover from c have "kbd_list s =
      kq s ! (kread s mod QUEUE_SIZE) # ring_list (kq s) (Suc (kread s)) (kcount s - 1)"
    by (simp add: kbd_list_def ring_list_get)
  ultimately show ?thesis
    using kbd_read_data_wf [OF assms(1)] by (auto simp: kbd_list_def)
qed

lemma kbd_read_data_mouse:
  assumes "kbd_wf s" and "kcount s = 0" and "mouse_list s \<noteq> []"
  shows "\<exists>t. kbd_read_data s = Inr (hd (mouse_list s), t) \<and> kbd_wf t \<and> kcount t = 0 \<and>
    mouse_list t = tl (mouse_list s)"
proof -
  from assms have c: "0 < mcount s" "length (mq s) = QUEUE_SIZE" "mread s < INT_MAX"
    by (auto simp: mouse_list_def ring_list_def kbd_wf_def)
  with assms(2) have "kbd_read_data s = Inr (mq s ! (mread s mod QUEUE_SIZE),
      kbd_update_irq (kbd_irq_line AUX_IRQ False (s\<lparr>mread := Suc (mread s), mcount := mcount s - 1\<rparr>)))"
    by (simp add: kbd_read_data_def int_inc_def)
  moreover from c have "mouse_list s =
      mq s ! (mread s mod QUEUE_SIZE) # ring_list (mq s) (Suc (mread s)) (mcount s - 1)"
    by (simp add: mouse_list_def ring_list_get)
  ultimately show ?thesis
    using kbd_read_data_wf [OF assms(1)] assms(2) by (auto simp: mouse_list_def)
qed

interpretation kbdq: bounded_queue kbd_wf QUEUE_SIZE kbd_list kbd_budget kbd_queue kbd_read_data
  by unfold_locales (simp add: kbd_list_def kbd_wf_def, rule kbd_queue_ok, assumption+,
      rule kbd_read_data_kbd)

interpretation mouseq: bounded_queue "\<lambda>s. kbd_wf s \<and> kcount s = 0" QUEUE_SIZE mouse_list
    mouse_budget mouse_queue kbd_read_data
proof
  fix s and b :: u8
  assume s: "kbd_wf s \<and> kcount s = 0"
  then show "length (mouse_list s) \<le> QUEUE_SIZE"
    by (simp add: mouse_list_def kbd_wf_def)
  show "\<exists>t. mouse_queue b s = Inr t \<and> (kbd_wf t \<and> kcount t = 0) \<and>
      mouse_budget s \<le> Suc (mouse_budget t) \<and>
      mouse_list t = (if length (mouse_list s) < QUEUE_SIZE then mouse_list s @ [b] else mouse_list s)"
    if "0 < mouse_budget s"
    using mouse_queue_ok [of s b] s that by auto
  show "\<exists>t. kbd_read_data s = Inr (hd (mouse_list s), t) \<and> (kbd_wf t \<and> kcount t = 0) \<and>
      mouse_list t = tl (mouse_list s)"
    if "mouse_list s \<noteq> []"
    using kbd_read_data_mouse [of s] s that by auto
qed

section \<open>Properties\<close>

lemma list_empty_iff:
  "kbd_list s = [] \<longleftrightarrow> kcount s = 0" "mouse_list s = [] \<longleftrightarrow> mcount s = 0"
  by (simp_all add: kbd_list_def mouse_list_def ring_list_def)


text \<open>
  Up to 128 scan codes queued by the keyboard are read back from the data port in order,
  before any mouse byte, and no access fails, as long as the write index stays an int.
\<close>

theorem kbd_scancodes_in_order:
  assumes "kbd_wf s" and "kbd_list s = []" and "length cs \<le> QUEUE_SIZE"
    and "kwrite s + length cs \<le> INT_MAX"
  shows "\<exists>t. rbind (rfold kbd_queue cs s) (rdrain (kbd_io I8042_DATA_REG 0 False) (length cs))
           = Inr (cs, t) \<and> kbd_wf t \<and> kbd_list t = []"
proof -
  have "kbd_io I8042_DATA_REG 0 False = kbd_read_data"
    by (simp add: fun_eq_iff kbd_io_def)
  moreover have "length cs \<le> kbd_budget s"
    using assms(4) by (simp add: kbd_budget_def)
  ultimately show ?thesis
    using kbdq.put_all_get_all [OF assms(1,2) _ assms(3)] by simp
qed

theorem kbd_scancodes_in_order_witness:
  "\<exists>t. rbind (rfold kbd_queue [30, 158] kbd_reset)
         (rdrain (kbd_io I8042_DATA_REG 0 False) (length [30, 158 :: u8]))
       = Inr ([30, 158], t) \<and> kbd_wf t \<and> kbd_list t = []"
  by (rule kbd_scancodes_in_order [OF kbd_reset_wf])
    (simp_all add: list_empty_iff kbd_reset_def)

text \<open>
  Reading the data port while both queues are empty reads outside the keyboard queue before
  the first key was ever read, and again as soon as more than 128 keys were; only in between
  does it return the last byte read.
\<close>

theorem kbd_empty_read_out_of_bounds:
  assumes "kbd_wf s" and "kbd_list s = []" and "mouse_list s = []"
  shows "kbd_io I8042_DATA_REG x False s =
    (if kread s = 0 \<or> QUEUE_SIZE < kread s then Inl OutOfBounds
     else Inr (kq s ! (kread s - 1), s))"
  using assms by (auto simp: kbd_io_def kbd_read_data_def list_empty_iff aget_def kbd_wf_def)

theorem kbd_empty_read_out_of_bounds_witness:
  "kbd_io I8042_DATA_REG 0 False kbd_reset = Inl OutOfBounds"
  using kbd_empty_read_out_of_bounds [OF kbd_reset_wf, of 0]
  by (simp add: list_empty_iff kbd_reset_def)

end
