(* ===== verification/Rtc.thy ===== *)
theory Rtc
  imports Prelude "HOL-Library.Signed_Division"
begin

text \<open>
  The MC146818 clock and CMOS memory of \<^verbatim>\<open>hw/rtc.c\<close>. The broken-down UTC time that
  \<^verbatim>\<open>gmtime\<close> returns is an argument of the access; \<open>nmi_disabled\<close> is the field of
  \<^verbatim>\<open>struct kvm\<close> the index register also writes. The base address is the x86 one.
\<close>

section \<open>State\<close>

abbreviation (input) RTC_BASE_ADDRESS :: u64 where "RTC_BASE_ADDRESS \<equiv> 0x70"
abbreviation (input) RTC_SECONDS :: u8 where "RTC_SECONDS \<equiv> 0x00"
abbreviation (input) RTC_MINUTES :: u8 where "RTC_MINUTES \<equiv> 0x02"
abbreviation (input) RTC_HOURS :: u8 where "RTC_HOURS \<equiv> 0x04"
abbreviation (input) RTC_DAY_OF_WEEK :: u8 where "RTC_DAY_OF_WEEK \<equiv> 0x06"
abbreviation (input) RTC_DAY_OF_MONTH :: u8 where "RTC_DAY_OF_MONTH \<equiv> 0x07"
abbreviation (input) RTC_MONTH :: u8 where "RTC_MONTH \<equiv> 0x08"
abbreviation (input) RTC_YEAR :: u8 where "RTC_YEAR \<equiv> 0x09"
abbreviation (input) RTC_CENTURY :: u8 where "RTC_CENTURY \<equiv> 0x32"
abbreviation (input) RTC_REG_C :: u8 where "RTC_REG_C \<equiv> 0x0C"
abbreviation (input) RTC_REG_D :: u8 where "RTC_REG_D \<equiv> 0x0D"
abbreviation (input) RTC_REG_D_VRT :: u8 where "RTC_REG_D_VRT \<equiv> 0x80"

record tm =
  tm_sec :: int
  tm_min :: int
  tm_hour :: int
  tm_mday :: int
  tm_mon :: int
  tm_year :: int
  tm_wday :: int

record rtc_device =
  cmos_idx :: u8
  cmos_data :: "u8 list"
  nmi_disabled :: bool

section \<open>Operations\<close>

definition bin2bcd :: "u32 \<Rightarrow> u8" where
  "bin2bcd val = ucast (push_bit 4 (val div 10) + val mod 10)"

definition cmos_time_read :: "tm \<Rightarrow> rtc_device \<Rightarrow> u8 result" where
  "cmos_time_read t r =
     (if cmos_idx r = RTC_SECONDS then Inr (bin2bcd (word_of_int (tm_sec t)))
      else if cmos_idx r = RTC_MINUTES then Inr (bin2bcd (word_of_int (tm_min t)))
      else if cmos_idx r = RTC_HOURS then Inr (bin2bcd (word_of_int (tm_hour t)))
      else if cmos_idx r = RTC_DAY_OF_WEEK then Inr (bin2bcd (word_of_int (tm_wday t + 1)))
      else if cmos_idx r = RTC_DAY_OF_MONTH then Inr (bin2bcd (word_of_int (tm_mday t)))
      else if cmos_idx r = RTC_MONTH then Inr (bin2bcd (word_of_int (tm_mon t + 1)))
      else if cmos_idx r = RTC_YEAR
      then Inr (bin2bcd (word_of_int ((tm_year t + 1900) smod 100)))
      else if cmos_idx r = RTC_CENTURY
      then Inr (bin2bcd (word_of_int ((tm_year t + 1900) sdiv 100)))
      else aget (cmos_data r) (unat (cmos_idx r)))"

definition cmos_ram_io :: "tm \<Rightarrow> u64 \<Rightarrow> u8 \<Rightarrow> bool \<Rightarrow> rtc_device \<Rightarrow> (u8 \<times> rtc_device) result" where
  "cmos_ram_io t addr x is_write r =
     (if is_write
      then (if addr = RTC_BASE_ADDRESS
            then Inr (x, r\<lparr>nmi_disabled := flag x 0x80, cmos_idx := clrf x 0x80\<rparr>)
            else if cmos_idx r = RTC_REG_C \<or> cmos_idx r = RTC_REG_D then Inr (x, r)
            else rbind (aset (cmos_data r) (unat (cmos_idx r)) x) (\<lambda>d. Inr (x, r\<lparr>cmos_data := d\<rparr>)))
      else if addr = RTC_BASE_ADDRESS then Inr (x, r)
      else rbind (cmos_time_read t r) (\<lambda>v. Inr (v, r)))"

text \<open>The state once \<^verbatim>\<open>rtc__init\<close> has registered the device: only register D is set.\<close>

definition rtc_init_state :: rtc_device where
  "rtc_init_state =
     \<lparr>cmos_idx = 0, cmos_data = (replicate 128 0)[unat RTC_REG_D := RTC_REG_D_VRT],
      nmi_disabled = False\<rparr>"

section \<open>Invariant and properties\<close>

definition rtc_wf :: "rtc_device \<Rightarrow> bool" where
  "rtc_wf r \<longleftrightarrow> length (cmos_data r) = 128 \<and> unat (cmos_idx r) < 128 \<and>
     cmos_data r ! 13 = RTC_REG_D_VRT"

lemma rtc_init_wf: "rtc_wf rtc_init_state"
  by (simp add: rtc_wf_def rtc_init_state_def)

lemma clrf_top_bound: "unat (clrf (x :: u8) 0x80) < 128"
proof -
  have "NOT (0x80 :: u8) = 0x7f"
    by code_simp
  then have "clrf x 0x80 \<le> 0x7f"
    by (metis clrf_def word_and_le1)
  then show ?thesis
    by (simp add: word_le_nat_alt)
qed

text \<open>No access to the clock touches memory outside the 128 bytes of CMOS data.\<close>

lemma cmos_ram_io_ok:
  assumes "rtc_wf r"
  shows "\<exists>v r'. cmos_ram_io t addr x w r = Inr (v, r') \<and> rtc_wf r'"
proof -
  have "cmos_idx r \<noteq> RTC_REG_D \<Longrightarrow> unat (cmos_idx r) \<noteq> 13"
    by (auto simp: word_unat_eq_iff)
  with assms show ?thesis
    by (auto simp: cmos_ram_io_def cmos_time_read_def rtc_wf_def clrf_top_bound)
qed

datatype rtc_event = RtcIo tm u64 u8 bool

fun rtc_step :: "rtc_device \<Rightarrow> rtc_event \<Rightarrow> rtc_device" where
  "rtc_step r (RtcIo t addr x w) =
     (case cmos_ram_io t addr x w r of Inl f \<Rightarrow> r | Inr (v, r') \<Rightarrow> r')"

interpretation rtc: trap_device rtc_wf rtc_step
proof
  fix s e
  assume "rtc_wf s"
  then show "rtc_wf (rtc_step s e)"
  proof (cases e)
    case (RtcIo t addr x w)
    obtain v r' where "cmos_ram_io t addr x w s = Inr (v, r')" "rtc_wf r'"
      using cmos_ram_io_ok [OF \<open>rtc_wf s\<close>] by blast
    with RtcIo show ?thesis by simp
  qed
qed

definition bcd2bin :: "u8 \<Rightarrow> nat" where
  "bcd2bin b = 10 * unat (drop_bit 4 b) + unat (b AND 0x0f)"

lemma bcd_roundtrip:
  assumes "0 \<le> n" and "n < 100"
  shows "int (bcd2bin (bin2bcd (word_of_int n))) = n"
proof -
  have "list_all (\<lambda>k. bcd2bin (bin2bcd (of_nat k)) = k) [0..<100]"
    by code_simp
  moreover have "nat n \<in> set [0..<100]"
    using assms by simp
  ultimately have "bcd2bin (bin2bcd (of_nat (nat n))) = nat n"
    unfolding list_all_iff by blast
  then show ?thesis
    using assms(1) by simp
qed

text \<open>What \<^verbatim>\<open>gmtime\<close> documents of the fields it returns, for a year of four digits.\<close>

definition tm_valid :: "tm \<Rightarrow> bool" where
  "tm_valid t \<longleftrightarrow> 0 \<le> tm_sec t \<and> tm_sec t \<le> 60 \<and> 0 \<le> tm_min t \<and> tm_min t \<le> 59 \<and>
     0 \<le> tm_hour t \<and> tm_hour t \<le> 23 \<and> 1 \<le> tm_mday t \<and> tm_mday t \<le> 31 \<and>
     0 \<le> tm_mon t \<and> tm_mon t \<le> 11 \<and> 0 \<le> tm_wday t \<and> tm_wday t \<le> 6 \<and>
     0 \<le> tm_year t + 1900 \<and> tm_year t + 1900 \<le> 9999"

text \<open>The value a guest decodes from clock register \<open>reg\<close>: select it, read it, undo the BCD.\<close>

definition read_clock :: "tm \<Rightarrow> u8 \<Rightarrow> rtc_device \<Rightarrow> int result" where
  "read_clock t reg r =
     rbind (cmos_ram_io t RTC_BASE_ADDRESS reg True r) (\<lambda>(_, r1).
     rbind (cmos_ram_io t (RTC_BASE_ADDRESS + 1) 0 False r1) (\<lambda>(v, _).
     Inr (int (bcd2bin v))))"

lemma sdiv_smod_pos: "0 \<le> (y :: int) \<Longrightarrow> y sdiv 100 = y div 100 \<and> y smod 100 = y mod 100"
  by (simp add: signed_divide_int_def signed_modulo_int_def sgn_if)

lemma read_clock_unfold:
  "read_clock t reg r =
     (let r1 = r\<lparr>nmi_disabled := flag reg 0x80, cmos_idx := clrf reg 0x80\<rparr>
      in rbind (cmos_time_read t r1) (\<lambda>v. Inr (int (bcd2bin v))))"
  by (simp add: read_clock_def cmos_ram_io_def Let_def rbind_def split: sum.splits)

text \<open>
  C15. A guest that selects a clock register, reads it and decodes the BCD gets the host's UTC
  time: seconds, minutes, hours, day of the week from 1, day of the month, month from 1, and
  the two halves of the year.
\<close>

theorem rtc_time_roundtrip:
  assumes "tm_valid t"
  shows "read_clock t RTC_SECONDS r = Inr (tm_sec t)
    \<and> read_clock t RTC_MINUTES r = Inr (tm_min t)
    \<and> read_clock t RTC_HOURS r = Inr (tm_hour t)
    \<and> read_clock t RTC_DAY_OF_WEEK r = Inr (tm_wday t + 1)
    \<and> read_clock t RTC_DAY_OF_MONTH r = Inr (tm_mday t)
    \<and> read_clock t RTC_MONTH r = Inr (tm_mon t + 1)
    \<and> read_clock t RTC_YEAR r = Inr ((tm_year t + 1900) mod 100)
    \<and> read_clock t RTC_CENTURY r = Inr ((tm_year t + 1900) div 100)"
proof -
  let ?y = "tm_year t + 1900"
  have y: "0 \<le> ?y" "?y div 100 < 100" "0 \<le> ?y div 100" "?y mod 100 < 100" "0 \<le> ?y mod 100"
    using assms by (auto simp: tm_valid_def)
  note bcd = bcd_roundtrip [of "tm_sec t"] bcd_roundtrip [of "tm_min t"] bcd_roundtrip [of "tm_hour t"]
    bcd_roundtrip [of "tm_wday t + 1"] bcd_roundtrip [of "tm_mday t"] bcd_roundtrip [of "tm_mon t + 1"]
    bcd_roundtrip [OF y(5,4)] bcd_roundtrip [OF y(3,2)]
  show ?thesis
    using assms bcd sdiv_smod_pos [OF y(1)]
    by (simp add: read_clock_unfold cmos_time_read_def tm_valid_def clrf_def Let_def)
qed

theorem rtc_time_roundtrip_witness:
  "read_clock \<lparr>tm_sec = 59, tm_min = 7, tm_hour = 23, tm_mday = 31, tm_mon = 11, tm_year = 125,
     tm_wday = 3\<rparr> RTC_SECONDS rtc_init_state = Inr 59"
  using rtc_time_roundtrip [of "\<lparr>tm_sec = 59, tm_min = 7, tm_hour = 23, tm_mday = 31, tm_mon = 11,
      tm_year = 125, tm_wday = 3\<rparr>" rtc_init_state]
  by (simp add: tm_valid_def)

text \<open>The indexes whose reads are taken from the clock instead of the memory.\<close>

definition clock_regs :: "u8 list" where
  "clock_regs = [RTC_SECONDS, RTC_MINUTES, RTC_HOURS, RTC_DAY_OF_WEEK, RTC_DAY_OF_MONTH,
     RTC_MONTH, RTC_YEAR, RTC_CENTURY]"

text \<open>
  The CMOS memory keeps what is written: outside the clock registers, a read returns the
  byte last written, except that registers C and D are read-only, and every other byte is
  unchanged. No access leaves the 128 bytes of the memory.
\<close>

theorem rtc_cmos_read_after_write:
  assumes "rtc_wf r" and "cmos_idx r \<notin> set clock_regs"
  shows "\<exists>r'. cmos_ram_io t (RTC_BASE_ADDRESS + 1) x True r = Inr (x, r') \<and> rtc_wf r' \<and>
     cmos_ram_io t' (RTC_BASE_ADDRESS + 1) y False r' =
       Inr (if cmos_idx r = RTC_REG_C \<or> cmos_idx r = RTC_REG_D
            then cmos_data r ! unat (cmos_idx r) else x, r') \<and>
     cmos_idx r' = cmos_idx r \<and>
     (\<forall>i. i \<noteq> unat (cmos_idx r) \<longrightarrow> cmos_data r' ! i = cmos_data r ! i)"
proof -
  obtain v r' where r': "cmos_ram_io t (RTC_BASE_ADDRESS + 1) x True r = Inr (v, r')" "rtc_wf r'"
    using cmos_ram_io_ok [OF assms(1)] by blast
  then show ?thesis
    using assms
    by (auto simp: cmos_ram_io_def cmos_time_read_def clock_regs_def rtc_wf_def split: if_splits)
qed

theorem rtc_cmos_read_after_write_witness:
  "\<exists>r'. cmos_ram_io \<lparr>tm_sec = 0, tm_min = 0, tm_hour = 0, tm_mday = 1, tm_mon = 0, tm_year = 125,
     tm_wday = 3\<rparr> (RTC_BASE_ADDRESS + 1) 0x42 True (rtc_init_state\<lparr>cmos_idx := 0x0f\<rparr>) = Inr (0x42, r')
   \<and> rtc_wf r'"
proof -
  let ?r = "rtc_init_state\<lparr>cmos_idx := 0x0f\<rparr>"
  have "rtc_wf ?r" "cmos_idx ?r \<notin> set clock_regs"
    by (simp_all add: rtc_wf_def rtc_init_state_def clock_regs_def)
  from rtc_cmos_read_after_write [OF this] show ?thesis
    by blast
qed

end
