(* ===== verification/Rbtree.thy ===== *)
theory Rbtree
  imports Prelude
begin

text \<open>
  The red-black trees of \<^verbatim>\<open>util/rbtree.c\<close> and \<^verbatim>\<open>include/linux/rbtree_augmented.h\<close>, which hold the
  trap handlers and the caches of the disk code. A C node reaches its ancestors through its
  parent pointers; here a node is a subtree together with the path of its ancestors,
  innermost first, each ancestor with its colour, its key and its other child. Following
  \<^verbatim>\<open>rb_parent\<close> is dropping the head of the path, and writing a child pointer of the parent is
  rebuilding it there. A null pointer that the C code would dereference is \<open>Inl NullDeref\<close>.
\<close>

section \<open>Trees and paths\<close>

datatype color = Red | Black

datatype 'a rbt = Leaf | Node color "'a rbt" 'a "'a rbt"

datatype 'a crumb = LeftOf color 'a "'a rbt" | RightOf color "'a rbt" 'a

datatype dir = Lt | Eq | Gt

fun rb_color :: "'a rbt \<Rightarrow> color" where
  "rb_color Leaf = Black"
| "rb_color (Node c l x r) = c"

fun paint :: "color \<Rightarrow> 'a rbt \<Rightarrow> 'a rbt" where
  "paint c Leaf = Leaf"
| "paint c (Node d l x r) = Node c l x r"

fun crumb_color :: "'a crumb \<Rightarrow> color" where
  "crumb_color (LeftOf c x r) = c"
| "crumb_color (RightOf c l x) = c"

fun attach :: "'a rbt \<Rightarrow> 'a crumb \<Rightarrow> 'a rbt" where
  "attach t (LeftOf c x r) = Node c t x r"
| "attach t (RightOf c l x) = Node c l x t"

fun plug :: "'a rbt \<Rightarrow> 'a crumb list \<Rightarrow> 'a rbt" where
  "plug t [] = t"
| "plug t (p # ps) = plug (attach t p) ps"

text \<open>
  Descend from the root, as every search loop of the callers does; \<open>f x\<close> compares what is
  searched with the key \<open>x\<close> of a node.
\<close>

fun rb_descend :: "('a \<Rightarrow> dir) \<Rightarrow> 'a rbt \<Rightarrow> 'a crumb list \<Rightarrow> 'a rbt \<times> 'a crumb list" where
  "rb_descend f Leaf ps = (Leaf, ps)"
| "rb_descend f (Node c l x r) ps =
     (case f x of
        Lt \<Rightarrow> rb_descend f l (LeftOf c x r # ps)
      | Gt \<Rightarrow> rb_descend f r (RightOf c l x # ps)
      | Eq \<Rightarrow> (Node c l x r, ps))"

section \<open>Insertion\<close>

text \<open>
  The loop of \<^verbatim>\<open>__rb_insert\<close>: \<open>n\<close> is the red node, the head of the path its parent and the
  next element its grandparent. The uncle is the other child of the grandparent.
\<close>

fun rb_insert_color :: "'a rbt \<Rightarrow> 'a crumb list \<Rightarrow> 'a rbt result" where
  "rb_insert_color n [] = Inr (paint Black n)"
| "rb_insert_color n [p] = (if crumb_color p = Black then Inr (plug n [p]) else Inl NullDeref)"
| "rb_insert_color n (p # g # gs) =
     (if crumb_color p = Black then Inr (plug n (p # g # gs))
      else (case g of
        LeftOf gc gx u \<Rightarrow>
          (if rb_color u = Red
           then rb_insert_color (Node Red (paint Black (attach n p)) gx (paint Black u)) gs
           else (case p of
             RightOf pc pl px \<Rightarrow>
               (case n of
                  Leaf \<Rightarrow> Inl NullDeref
                | Node nc nl nx nr \<Rightarrow>
                    Inr (plug (Node gc (Node Red pl px (paint Black nl)) nx
                                       (Node Red (paint Black nr) gx u)) gs))
           | LeftOf pc px pr \<Rightarrow> Inr (plug (Node gc n px (Node Red (paint Black pr) gx u)) gs)))
      | RightOf gc u gx \<Rightarrow>
          (if rb_color u = Red
           then rb_insert_color (Node Red (paint Black u) gx (paint Black (attach n p))) gs
           else (case p of
             LeftOf pc px pr \<Rightarrow>
               (case n of
                  Leaf \<Rightarrow> Inl NullDeref
                | Node nc nl nx nr \<Rightarrow>
                    Inr (plug (Node gc (Node Red u gx (paint Black nl)) nx
                                       (Node Red (paint Black nr) px pr)) gs))
           | RightOf pc pl px \<Rightarrow> Inr (plug (Node gc (Node Red u gx (paint Black pl)) px n) gs)))))"

section \<open>Removal\<close>

text \<open>
  One iteration of \<^verbatim>\<open>____rb_erase_color\<close> works on the subtree of the parent: \<open>n\<close> is the child
  whose paths are one black node short, \<open>px\<close> and \<open>pc\<close> the key and the colour of the parent,
  \<open>s\<close> the sibling. The result is whether the loop continues one level up, and the new subtree.
  Case 1 turns a red sibling into a black one below it and falls through to cases 2 to 4.
\<close>

fun erase_cases_left :: "'a rbt \<Rightarrow> color \<Rightarrow> 'a \<Rightarrow> 'a rbt \<Rightarrow> (bool \<times> 'a rbt) result" where
  "erase_cases_left n pc px Leaf = Inl NullDeref"
| "erase_cases_left n pc px (Node sc sl sx sr) =
     (if rb_color sr = Black
      then (case sl of
          Node Red sll slx slr \<Rightarrow>
            Inr (False, Node pc (Node Black n px sll) slx
                          (paint Black (Node sc (paint Black slr) sx sr)))
        | _ \<Rightarrow> Inr (pc = Black, Node Black n px (Node Red sl sx sr)))
      else Inr (False, Node pc (Node Black n px sl) sx (paint Black sr)))"

fun erase_left :: "'a rbt \<Rightarrow> color \<Rightarrow> 'a \<Rightarrow> 'a rbt \<Rightarrow> (bool \<times> 'a rbt) result" where
  "erase_left n pc px (Node Red sl sx sr) =
     (if sl = Leaf then Inl NullDeref
      else rbind (erase_cases_left n Red px (paint Black sl)) (\<lambda>(again, t).
           Inr (False, Node pc t sx sr)))"
| "erase_left n pc px s = erase_cases_left n pc px s"

fun erase_cases_right :: "'a rbt \<Rightarrow> color \<Rightarrow> 'a \<Rightarrow> 'a rbt \<Rightarrow> (bool \<times> 'a rbt) result" where
  "erase_cases_right n pc px Leaf = Inl NullDeref"
| "erase_cases_right n pc px (Node sc sl sx sr) =
     (if rb_color sl = Black
      then (case sr of
          Node Red srl srx srr \<Rightarrow>
            Inr (False, Node pc (paint Black (Node sc sl sx (paint Black srl))) srx
                          (Node Black srr px n))
        | _ \<Rightarrow> Inr (pc = Black, Node Black (Node Red sl sx sr) px n))
      else Inr (False, Node pc (paint Black sl) sx (Node Black sr px n)))"

fun erase_right :: "'a rbt \<Rightarrow> color \<Rightarrow> 'a \<Rightarrow> 'a rbt \<Rightarrow> (bool \<times> 'a rbt) result" where
  "erase_right n pc px (Node Red sl sx sr) =
     (if sr = Leaf then Inl NullDeref
      else rbind (erase_cases_right n Red px (paint Black sr)) (\<lambda>(again, t).
           Inr (False, Node pc sl sx t)))"
| "erase_right n pc px s = erase_cases_right n pc px s"

fun rb_erase_color :: "'a rbt \<Rightarrow> 'a crumb list \<Rightarrow> 'a rbt result" where
  "rb_erase_color n [] = Inr n"
| "rb_erase_color n (p # ps) =
     rbind (case p of LeftOf pc px s \<Rightarrow> erase_left n pc px s | RightOf pc s px \<Rightarrow> erase_right n pc px s)
       (\<lambda>(again, t). if again then rb_erase_color t ps else Inr (plug t ps))"

text \<open>The successor: the leftmost node below the right child, and the path down to it.\<close>

fun rb_leftmost :: "color \<Rightarrow> 'a rbt \<Rightarrow> 'a \<Rightarrow> 'a rbt \<Rightarrow> 'a crumb list \<Rightarrow>
    color \<times> 'a \<times> 'a rbt \<times> 'a crumb list" where
  "rb_leftmost c Leaf x r ps = (c, x, r, ps)"
| "rb_leftmost c (Node lc ll lx lr) x r ps = rb_leftmost lc ll lx lr (LeftOf c x r # ps)"

text \<open>
  \<^verbatim>\<open>rb_erase\<close> of the node at the given place: \<^verbatim>\<open>__rb_erase_augmented\<close> unlinks it, putting its
  successor in its place when it has two children, and \<^verbatim>\<open>rebalance\<close> is null unless a black
  leaf disappeared below a parent.
\<close>

fun rb_erase :: "'a rbt \<Rightarrow> 'a crumb list \<Rightarrow> 'a rbt result" where
  "rb_erase Leaf ps = Inl NullDeref"
| "rb_erase (Node c Leaf x r) ps =
     (if r \<noteq> Leaf then Inr (plug (paint c r) ps)
      else if c = Black then rb_erase_color Leaf ps
      else Inr (plug Leaf ps))"
| "rb_erase (Node c l x Leaf) ps = Inr (plug (paint c l) ps)"
| "rb_erase (Node c l x (Node rc rl rx rr)) ps =
     (let (sc, sx, child2, qs) = rb_leftmost rc rl rx rr [];
          path = qs @ RightOf c l sx # ps
      in if child2 \<noteq> Leaf then Inr (plug (paint Black child2) path)
         else if sc = Black then rb_erase_color Leaf path
         else Inr (plug Leaf path))"

fun rb_first :: "'a rbt \<Rightarrow> 'a option" where
  "rb_first Leaf = None"
| "rb_first (Node c Leaf x r) = Some x"
| "rb_first (Node c l x r) = rb_first l"

fun rb_last :: "'a rbt \<Rightarrow> 'a option" where
  "rb_last Leaf = None"
| "rb_last (Node c l x Leaf) = Some x"
| "rb_last (Node c l x r) = rb_last r"

text \<open>
  \<^verbatim>\<open>rb_next\<close> and \<^verbatim>\<open>rb_prev\<close> of the node at a place: down into the child on that side, or up to the
  first ancestor that is reached from the other side.
\<close>

fun climb_left :: "'a crumb list \<Rightarrow> 'a option" where
  "climb_left [] = None"
| "climb_left (LeftOf c x r # ps) = Some x"
| "climb_left (RightOf c l x # ps) = climb_left ps"

fun climb_right :: "'a crumb list \<Rightarrow> 'a option" where
  "climb_right [] = None"
| "climb_right (RightOf c l x # ps) = Some x"
| "climb_right (LeftOf c x r # ps) = climb_right ps"

fun rb_next :: "'a rbt \<Rightarrow> 'a crumb list \<Rightarrow> 'a option result" where
  "rb_next Leaf ps = Inl NullDeref"
| "rb_next (Node c l x r) ps = Inr (if r \<noteq> Leaf then rb_first r else climb_left ps)"

fun rb_prev :: "'a rbt \<Rightarrow> 'a crumb list \<Rightarrow> 'a option result" where
  "rb_prev Leaf ps = Inl NullDeref"
| "rb_prev (Node c l x r) ps = Inr (if l \<noteq> Leaf then rb_last l else climb_right ps)"

text \<open>Traversal with the children before their parent: \<^verbatim>\<open>rb_first_postorder\<close> and \<^verbatim>\<open>rb_next_postorder\<close>.\<close>

fun rb_left_deepest_node :: "'a rbt \<Rightarrow> 'a option" where
  "rb_left_deepest_node Leaf = None"
| "rb_left_deepest_node (Node c l x r) =
     (if l \<noteq> Leaf then rb_left_deepest_node l else if r \<noteq> Leaf then rb_left_deepest_node r else Some x)"

definition rb_first_postorder :: "'a rbt \<Rightarrow> 'a option" where
  "rb_first_postorder t = rb_left_deepest_node t"

fun rb_next_postorder :: "'a crumb list \<Rightarrow> 'a option" where
  "rb_next_postorder [] = None"
| "rb_next_postorder (LeftOf c x r # ps) = (if r \<noteq> Leaf then rb_left_deepest_node r else Some x)"
| "rb_next_postorder (RightOf c l x # ps) = Some x"

section \<open>Order\<close>

fun inorder :: "'a rbt \<Rightarrow> 'a list" where
  "inorder Leaf = []"
| "inorder (Node c l x r) = inorder l @ x # inorder r"

text \<open>The keys before and after the subtree at the end of a path.\<close>

fun before :: "'a crumb \<Rightarrow> 'a list" where
  "before (LeftOf c x r) = []"
| "before (RightOf c l x) = inorder l @ [x]"

fun after :: "'a crumb \<Rightarrow> 'a list" where
  "after (LeftOf c x r) = x # inorder r"
| "after (RightOf c l x) = []"

fun left_of :: "'a crumb list \<Rightarrow> 'a list" where
  "left_of [] = []"
| "left_of (p # ps) = left_of ps @ before p"

fun right_of :: "'a crumb list \<Rightarrow> 'a list" where
  "right_of [] = []"
| "right_of (p # ps) = after p @ right_of ps"

lemma inorder_attach [simp]: "inorder (attach t p) = before p @ inorder t @ after p"
  by (cases p) auto

lemma inorder_plug [simp]: "inorder (plug t ps) = left_of ps @ inorder t @ right_of ps"
  by (induction t ps rule: plug.induct) auto

lemma inorder_paint [simp]: "inorder (paint c t) = inorder t"
  by (cases t) auto

lemma paint_eq_Leaf [simp]: "paint c t = Leaf \<longleftrightarrow> t = Leaf"
  by (cases t) auto

lemma rb_descend_Leaf:
  "rb_descend f t ps = (Leaf, qs) \<Longrightarrow> plug Leaf qs = plug t ps"
  by (induction f t ps rule: rb_descend.induct) (auto split: dir.splits)

lemma rb_descend_plug:
  "rb_descend f t ps = (u, qs) \<Longrightarrow> plug u qs = plug t ps"
  by (induction f t ps rule: rb_descend.induct) (auto split: dir.splits)

lemma rb_descend_Node:
  "rb_descend f t ps = (Node c l x r, qs) \<Longrightarrow> f x = Eq"
  by (induction f t ps rule: rb_descend.induct) (auto split: dir.splits)

text \<open>Rebalancing after an insertion keeps the order of the keys.\<close>

lemma insert_color_inorder:
  "rb_insert_color n ps = Inr t \<Longrightarrow> inorder t = left_of ps @ inorder n @ right_of ps"
  by (induction n ps arbitrary: t rule: rb_insert_color.induct)
    (auto split: if_splits crumb.splits rbt.splits)

lemma erase_cases_left_inorder:
  "erase_cases_left n pc px s = Inr (b, t) \<Longrightarrow> inorder t = inorder n @ px # inorder s"
  by (cases s) (auto split: if_splits rbt.splits color.splits)

lemma erase_cases_right_inorder:
  "erase_cases_right n pc px s = Inr (b, t) \<Longrightarrow> inorder t = inorder s @ px # inorder n"
  by (cases s) (auto split: if_splits rbt.splits color.splits)

lemma erase_left_inorder:
  "erase_left n pc px s = Inr (b, t) \<Longrightarrow> inorder t = inorder n @ px # inorder s"
  by (cases "(n, pc, px, s)" rule: erase_left.cases)
    (auto simp: rbind_eq_Inr_iff split: if_splits dest!: erase_cases_left_inorder
      simp del: erase_cases_left.simps)

lemma erase_right_inorder:
  "erase_right n pc px s = Inr (b, t) \<Longrightarrow> inorder t = inorder s @ px # inorder n"
  by (cases "(n, pc, px, s)" rule: erase_right.cases)
    (auto simp: rbind_eq_Inr_iff split: if_splits dest!: erase_cases_right_inorder
      simp del: erase_cases_right.simps)

lemma erase_color_inorder:
  "rb_erase_color n ps = Inr t \<Longrightarrow> inorder t = left_of ps @ inorder n @ right_of ps"
  by (induction n ps arbitrary: t rule: rb_erase_color.induct)
    (auto simp: rbind_eq_Inr_iff split: if_splits crumb.splits
      dest!: erase_left_inorder erase_right_inorder)

lemma leftmost_inorder:
  "rb_leftmost c l x r ps = (sc, sx, child, qs) \<Longrightarrow>
     left_of qs = left_of ps \<and> sx # inorder child @ right_of qs = inorder l @ x # inorder r @ right_of ps"
  by (induction c l x r ps rule: rb_leftmost.induct) auto

lemma left_of_append: "left_of (ps @ qs) = left_of qs @ left_of ps"
  by (induction ps) auto

lemma right_of_append: "right_of (ps @ qs) = right_of ps @ right_of qs"
  by (induction ps) auto

text \<open>Removal takes out exactly the key of the removed node.\<close>

lemma erase_inorder:
  assumes "rb_erase (Node c l x r) ps = Inr t"
  shows "inorder t = left_of ps @ inorder l @ inorder r @ right_of ps"
proof (cases "l = Leaf \<or> r = Leaf")
  case True
  with assms show ?thesis
    by (cases "(Node c l x r, ps)" rule: rb_erase.cases)
      (auto split: if_splits dest!: erase_color_inorder)
next
  case False
  then obtain lc ll lx lr rc rl rx rr where lr: "l = Node lc ll lx lr" "r = Node rc rl rx rr"
    by (cases l; cases r) auto
  obtain sc sx child ds where m: "rb_leftmost rc rl rx rr [] = (sc, sx, child, ds)"
    by (metis prod_cases4)
  from leftmost_inorder [OF m] have d: "left_of ds = []"
    "inorder rl @ rx # inorder rr = sx # inorder child @ right_of ds"
    by simp_all
  from assms m lr have "inorder t = left_of (ds @ RightOf c l sx # ps) @ inorder child
      @ right_of (ds @ RightOf c l sx # ps)"
    by (auto simp: Let_def split: if_splits dest!: erase_color_inorder)
  then show ?thesis
    using d lr by (simp add: left_of_append right_of_append)
qed

text \<open>The ends of the tree and the neighbours of a node.\<close>

definition first_of :: "'a list \<Rightarrow> 'a option" where
  "first_of xs = (case xs of [] \<Rightarrow> None | x # _ \<Rightarrow> Some x)"

definition last_of :: "'a list \<Rightarrow> 'a option" where
  "last_of xs = (if xs = [] then None else Some (last xs))"

lemma inorder_eq_Nil [simp]: "inorder t = [] \<longleftrightarrow> t = Leaf"
  by (cases t) auto

lemma first_of_simps [simp]: "first_of [] = None" "first_of (x # xs) = Some x"
  by (simp_all add: first_of_def)

lemma first_of_append: "first_of (xs @ ys) = (if xs = [] then first_of ys else first_of xs)"
  by (cases xs) auto

lemma rb_first_inorder: "rb_first t = first_of (inorder t)"
proof (induction t rule: rb_first.induct)
  case (3 c lc ll lx lr x r)
  then show ?case by (simp only: rb_first.simps inorder.simps append_assoc) (simp add: first_of_append)
qed simp_all

lemma rb_last_inorder: "rb_last t = last_of (inorder t)"
  by (induction t rule: rb_last.induct) (auto simp: last_of_def)

lemma climb_left_right_of: "climb_left ps = first_of (right_of ps)"
  by (induction ps rule: climb_left.induct) auto

lemma climb_right_left_of: "climb_right ps = last_of (left_of ps)"
  by (induction ps rule: climb_right.induct) (auto simp: last_of_def)

lemma rb_next_inorder: "rb_next (Node c l x r) ps = Inr (first_of (inorder r @ right_of ps))"
  by (simp add: rb_first_inorder climb_left_right_of first_of_append)

lemma rb_prev_inorder: "rb_prev (Node c l x r) ps = Inr (last_of (left_of ps @ inorder l))"
  by (auto simp: rb_last_inorder climb_right_left_of) (simp add: last_of_def)

section \<open>Balance\<close>

fun bheight :: "'a rbt \<Rightarrow> nat" where
  "bheight Leaf = 0"
| "bheight (Node c l x r) = bheight l + (if c = Black then 1 else 0)"

fun rb_inv :: "'a rbt \<Rightarrow> bool" where
  "rb_inv Leaf = True"
| "rb_inv (Node c l x r) =
     (rb_inv l \<and> rb_inv r \<and> bheight l = bheight r \<and>
      (c = Red \<longrightarrow> rb_color l = Black \<and> rb_color r = Black))"

text \<open>The five properties listed at the top of \<^verbatim>\<open>util/rbtree.c\<close>.\<close>

definition rb_tree :: "'a rbt \<Rightarrow> bool" where
  "rb_tree t \<longleftrightarrow> rb_inv t \<and> rb_color t = Black"

definition black_above :: "'a crumb list \<Rightarrow> bool" where
  "black_above ps \<longleftrightarrow> (case ps of [] \<Rightarrow> False | p # _ \<Rightarrow> crumb_color p = Black)"

text \<open>\<open>path_inv h ps\<close>: the path makes a red-black tree of a subtree of black height \<open>h\<close>.\<close>

fun path_inv :: "nat \<Rightarrow> 'a crumb list \<Rightarrow> bool" where
  "path_inv h [] = True"
| "path_inv h (p # ps) =
     ((case p of LeftOf c x s \<Rightarrow> rb_inv s \<and> bheight s = h \<and> (c = Red \<longrightarrow> rb_color s = Black)
               | RightOf c s x \<Rightarrow> rb_inv s \<and> bheight s = h \<and> (c = Red \<longrightarrow> rb_color s = Black)) \<and>
      (crumb_color p = Red \<longrightarrow> black_above ps) \<and>
      path_inv (if crumb_color p = Black then Suc h else h) ps)"

lemma neq_Red_iff [simp]: "c \<noteq> Red \<longleftrightarrow> c = Black"
  by (cases c) auto

lemma paint_rb [simp]:
  "rb_color (paint Black t) = Black"
  "rb_inv t \<Longrightarrow> rb_inv (paint Black t)"
  "rb_color t = Black \<Longrightarrow> paint Black t = t"
  by (cases t, auto)+

lemma plug_rb:
  "rb_inv t \<Longrightarrow> path_inv (bheight t) ps \<Longrightarrow>
   (rb_color t = Red \<longrightarrow> black_above ps) \<Longrightarrow> rb_tree (plug t ps)"
proof (induction ps arbitrary: t)
  case Nil
  then show ?case by (simp add: rb_tree_def black_above_def)
next
  case (Cons p ps)
  show ?case
  proof (cases p)
    case (LeftOf c x s)
    with Cons show ?thesis
      by (cases c; auto simp: black_above_def split: list.splits)
  next
    case (RightOf c s x)
    with Cons show ?thesis
      by (cases c; auto simp: black_above_def split: list.splits)
  qed
qed

lemma insert_color_rb:
  "rb_inv n \<Longrightarrow> rb_color n = Red \<Longrightarrow> path_inv (bheight n) ps \<Longrightarrow>
   \<exists>t. rb_insert_color n ps = Inr t \<and> rb_tree t"
proof (induction n ps rule: rb_insert_color.induct)
  case (1 n)
  then show ?case by (simp add: rb_tree_def)
next
  case (2 n p)
  then show ?case
    using plug_rb [OF 2(1), of "[p]"] by (auto simp: black_above_def)
next
  case (3 n p g gs)
  show ?case
  proof (cases "crumb_color p = Black")
    case True
    then show ?thesis
      using plug_rb [OF 3(3), of "p # g # gs"] 3 by (auto simp: black_above_def)
  next
    case False
    then have red: "crumb_color p = Red" by (cases "crumb_color p") auto
    with 3(5) have g: "crumb_color g = Black" by (simp add: black_above_def)
    obtain nl nx nr where n: "n = Node Red nl nx nr"
      using 3(4) by (cases n) auto
    show ?thesis
    proof (cases g)
      case (LeftOf gc gx u)
      show ?thesis
      proof (cases "rb_color u = Red")
        case True
        have "\<exists>t. rb_insert_color (Node Red (paint Black (attach n p)) gx (paint Black u)) gs = Inr t
            \<and> rb_tree t"
          using 3 red g LeftOf True n by (intro 3(1)) (cases u; cases p; auto)+
        then show ?thesis
          using False LeftOf True by simp
      next
        case u: False
        then show ?thesis
          using 3(3,5) red g LeftOf n
          by (cases p) (auto intro!: plug_rb simp: black_above_def)
      qed
    next
      case (RightOf gc u gx)
      show ?thesis
      proof (cases "rb_color u = Red")
        case True
        have "\<exists>t. rb_insert_color (Node Red (paint Black u) gx (paint Black (attach n p))) gs = Inr t
            \<and> rb_tree t"
          using 3 red g RightOf True n by (intro 3(2)) (cases u; cases p; auto)+
        then show ?thesis
          using False RightOf True by simp
      next
        case u: False
        then show ?thesis
          using 3(3,5) red g RightOf n
          by (cases p) (auto intro!: plug_rb simp: black_above_def)
      qed
    qed
  qed
qed

text \<open>
  What one iteration of the removal loop gives back: a subtree of the expected black height,
  or one still a black node short, whose root is then black.
\<close>

definition erase_post :: "color \<Rightarrow> nat \<Rightarrow> bool \<times> 'a rbt \<Rightarrow> bool" where
  "erase_post pc h bt \<longleftrightarrow> rb_inv (snd bt) \<and>
     (if fst bt then pc = Black \<and> rb_color (snd bt) = Black \<and> bheight (snd bt) = h
      else bheight (snd bt) = h + (if pc = Black then 1 else 0) \<and>
           (rb_color (snd bt) = Red \<longrightarrow> pc = Red))"

lemma rbt_color_cases [case_names Leaf Red Black]:
  assumes "t = Leaf \<Longrightarrow> P" and "\<And>l x r. t = Node Red l x r \<Longrightarrow> P"
    and "\<And>l x r. t = Node Black l x r \<Longrightarrow> P"
  shows P
  using assms by (cases t) (metis color.exhaust)+

lemma bheight_paint_red: "rb_color t = Red \<Longrightarrow> bheight (paint Black t) = Suc (bheight t)"
  by (cases t) auto

lemma erase_cases_left_rb:
  assumes "rb_inv n" "rb_color n = Black" "rb_inv s" "rb_color s = Black"
    "bheight s = Suc (bheight n)"
  shows "\<exists>bt. erase_cases_left n pc px s = Inr bt \<and> erase_post pc (bheight s) bt"
proof (cases s)
  case Leaf
  with assms(5) show ?thesis by simp
next
  case (Node sc sl sx sr)
  with assms show ?thesis
    by (cases "rb_color sr"; cases sl rule: rbt_color_cases)
      (auto simp: erase_post_def bheight_paint_red)
qed

lemma erase_cases_right_rb:
  assumes "rb_inv n" "rb_color n = Black" "rb_inv s" "rb_color s = Black"
    "bheight s = Suc (bheight n)"
  shows "\<exists>bt. erase_cases_right n pc px s = Inr bt \<and> erase_post pc (bheight s) bt"
proof (cases s)
  case Leaf
  with assms(5) show ?thesis by simp
next
  case (Node sc sl sx sr)
  with assms show ?thesis
    by (cases "rb_color sl"; cases sr rule: rbt_color_cases)
      (auto simp: erase_post_def bheight_paint_red)
qed

lemma erase_left_rb:
  assumes "rb_inv n" "rb_color n = Black" "rb_inv s" "pc = Red \<longrightarrow> rb_color s = Black"
    "bheight s = Suc (bheight n)"
  shows "\<exists>bt. erase_left n pc px s = Inr bt \<and> erase_post pc (bheight s) bt"
proof (cases "rb_color s = Black")
  case True
  then have "erase_left n pc px s = erase_cases_left n pc px s"
    by (cases s) auto
  then show ?thesis
    using erase_cases_left_rb [OF assms(1-3) True assms(5)] by presburger
next
  case False
  then obtain sl sx sr where s: "s = Node Red sl sx sr"
    by (cases s rule: rbt_color_cases) auto
  with assms False have sl: "rb_inv sl" "rb_color sl = Black" "bheight sl = Suc (bheight n)"
    and pc: "pc = Black"
    by (cases pc; simp)+
  then obtain b t where t: "erase_cases_left n Red px sl = Inr (b, t)" "erase_post Red (bheight sl) (b, t)"
    using erase_cases_left_rb [OF assms(1,2)] by (metis surj_pair)
  with s sl pc assms show ?thesis
    by (auto simp: erase_post_def split: if_splits)
qed

lemma erase_right_rb:
  assumes "rb_inv n" "rb_color n = Black" "rb_inv s" "pc = Red \<longrightarrow> rb_color s = Black"
    "bheight s = Suc (bheight n)"
  shows "\<exists>bt. erase_right n pc px s = Inr bt \<and> erase_post pc (bheight s) bt"
proof (cases "rb_color s = Black")
  case True
  then have "erase_right n pc px s = erase_cases_right n pc px s"
    by (cases s) auto
  then show ?thesis
    using erase_cases_right_rb [OF assms(1-3) True assms(5)] by presburger
next
  case False
  then obtain sl sx sr where s: "s = Node Red sl sx sr"
    by (cases s rule: rbt_color_cases) auto
  with assms False have sr: "rb_inv sr" "rb_color sr = Black" "bheight sr = Suc (bheight n)"
    and pc: "pc = Black"
    by (cases pc; simp)+
  then obtain b t where t: "erase_cases_right n Red px sr = Inr (b, t)" "erase_post Red (bheight sr) (b, t)"
    using erase_cases_right_rb [OF assms(1,2)] by (metis surj_pair)
  with s sr pc assms show ?thesis
    by (auto simp: erase_post_def split: if_splits)
qed

lemma erase_color_rb:
  "rb_inv n \<Longrightarrow> rb_color n = Black \<Longrightarrow> path_inv (Suc (bheight n)) ps \<Longrightarrow>
   \<exists>t. rb_erase_color n ps = Inr t \<and> rb_tree t"
proof (induction ps arbitrary: n)
  case Nil
  then show ?case by (simp add: rb_tree_def)
next
  case (Cons p ps)
  let ?it = "case p of LeftOf pc px s \<Rightarrow> erase_left n pc px s | RightOf pc s px \<Rightarrow> erase_right n pc px s"
  have "\<exists>bt. ?it = Inr bt \<and> erase_post (crumb_color p) (Suc (bheight n)) bt"
    using Cons.prems erase_left_rb [OF Cons.prems(1,2)] erase_right_rb [OF Cons.prems(1,2)]
    by (cases p) force+
  then obtain b t where it: "?it = Inr (b, t)" "erase_post (crumb_color p) (Suc (bheight n)) (b, t)"
    by auto
  show ?case
  proof (cases b)
    case True
    then have "\<exists>u. rb_erase_color t ps = Inr u \<and> rb_tree u"
      using it(2) Cons.prems(3) by (intro Cons.IH) (auto simp: erase_post_def)
    with True it show ?thesis by simp
  next
    case False
    have "rb_tree (plug t ps)"
      using it(2) False Cons.prems(3) by (intro plug_rb) (auto simp: erase_post_def split: if_splits)
    with False it show ?thesis by simp
  qed
qed

text \<open>The path down to the successor, and the place of the removed key in it.\<close>

lemma leftmost_rb:
  "rb_leftmost c l x r ps = (sc, sx, child, qs) \<Longrightarrow> rb_inv (Node c l x r) \<Longrightarrow>
   path_inv (bheight (Node c l x r)) ps \<Longrightarrow> (c = Red \<longrightarrow> black_above ps) \<Longrightarrow>
   rb_inv (Node sc Leaf sx child) \<and> path_inv (bheight (Node sc Leaf sx child)) qs \<and>
   (sc = Red \<longrightarrow> black_above qs)"
proof (induction c l x r ps rule: rb_leftmost.induct)
  case (1 c x r ps)
  then show ?case by simp
next
  case (2 c lc ll lx lr x r ps)
  show ?case
    using 2(2-) by (intro 2(1)) (cases c; auto simp: black_above_def)+
qed

lemma leftmost_append:
  "rb_leftmost c l x r (ps @ qs) = (case rb_leftmost c l x r ps of (sc, sx, ch, ds) \<Rightarrow> (sc, sx, ch, ds @ qs))"
proof (induction c l x r ps rule: rb_leftmost.induct)
  case (2 c lc ll lx lr x r ps)
  then show ?case by (metis append_Cons rb_leftmost.simps(2))
qed simp

lemma black_above_rekey:
  "black_above (qs @ RightOf c l x # ps) = black_above (qs @ RightOf c l y # ps)"
  by (cases qs) (auto simp: black_above_def)

lemma path_inv_rekey:
  "path_inv h (qs @ RightOf c l x # ps) = path_inv h (qs @ RightOf c l y # ps)"
proof (induction qs arbitrary: h)
  case (Cons q qs)
  then show ?case
    using black_above_rekey [of qs c l x ps y] by simp
qed simp

text \<open>
  A node with an only child is black and the child red, so the child takes the place of the
  node with its colour; a black node without children is what the removal loop repairs.
\<close>

lemma unlink_rb:
  assumes "rb_inv (Node c Leaf x r)" and "path_inv (bheight (Node c Leaf x r)) ps"
    and "c = Red \<longrightarrow> black_above ps"
  shows "\<exists>t. (if r \<noteq> Leaf then Inr (plug (paint Black r) ps)
              else if c = Black then rb_erase_color Leaf ps
              else Inr (plug Leaf ps)) = Inr t \<and> rb_tree t"
    and "r \<noteq> Leaf \<Longrightarrow> c = Black"
proof -
  show "r \<noteq> Leaf \<Longrightarrow> c = Black"
    using assms(1) by (cases c; cases r rule: rbt_color_cases) auto
  then show "\<exists>t. (if r \<noteq> Leaf then Inr (plug (paint Black r) ps)
              else if c = Black then rb_erase_color Leaf ps
              else Inr (plug Leaf ps)) = Inr t \<and> rb_tree t"
    using assms erase_color_rb [of Leaf ps]
    by (cases r rule: rbt_color_cases; cases c) (auto intro!: plug_rb)
qed

lemma erase_rb:
  assumes inv: "rb_inv (Node c l x r)" and path: "path_inv (bheight (Node c l x r)) ps"
    and blk: "c = Red \<longrightarrow> black_above ps"
  shows "\<exists>t. rb_erase (Node c l x r) ps = Inr t \<and> rb_tree t"
proof (cases l)
  case Leaf
  then have "rb_erase (Node c l x r) ps = (if r \<noteq> Leaf then Inr (plug (paint Black r) ps)
      else if c = Black then rb_erase_color Leaf ps else Inr (plug Leaf ps))"
    using unlink_rb(2) [OF assms [unfolded Leaf]] by (cases "r = Leaf") auto
  then show ?thesis
    using unlink_rb(1) [OF assms [unfolded Leaf]] by presburger
next
  case l: (Node lc ll lx lr)
  show ?thesis
  proof (cases r)
    case Leaf
    then have h: "lc = Red" "c = Black"
      using inv l by (cases lc; cases c; simp)+
    then have "rb_inv (paint Black l)" "rb_color (paint Black l) = Black"
      "bheight (paint Black l) = bheight (Node c l x r)"
      using inv l Leaf by simp_all
    then have "rb_tree (plug (paint Black l) ps)"
      using path by (intro plug_rb) simp_all
    then show ?thesis
      using l Leaf h(2) by simp
  next
    case r: (Node rc rl rx rr)
    obtain sc sx child ds where m: "rb_leftmost rc rl rx rr [] = (sc, sx, child, ds)"
      by (metis prod_cases4)
    define qs where "qs = ds @ RightOf c l sx # ps"
    have "rb_leftmost rc rl rx rr (RightOf c l x # ps) = (sc, sx, child, ds @ RightOf c l x # ps)"
      using leftmost_append [of rc rl rx rr "[]" "RightOf c l x # ps"] m by simp
    moreover have "rb_inv (Node rc rl rx rr)"
      "path_inv (bheight (Node rc rl rx rr)) (RightOf c l x # ps)"
      "rc = Red \<longrightarrow> black_above (RightOf c l x # ps)"
      using assms r by (cases c; simp add: black_above_def)+
    ultimately have "rb_inv (Node sc Leaf sx child) \<and>
        path_inv (bheight (Node sc Leaf sx child)) (ds @ RightOf c l x # ps)
        \<and> (sc = Red \<longrightarrow> black_above (ds @ RightOf c l x # ps))"
      by (rule leftmost_rb)
    then have "rb_inv (Node sc Leaf sx child)" "path_inv (bheight (Node sc Leaf sx child)) qs"
      "sc = Red \<longrightarrow> black_above qs"
      unfolding qs_def by (metis path_inv_rekey black_above_rekey)+
    from unlink_rb(1) [OF this] show ?thesis
      unfolding l r rb_erase.simps m Let_def prod.case qs_def .
  qed
qed

section \<open>The operations on a whole tree\<close>

lemma descend_rb:
  "rb_descend f t ps = (u, qs) \<Longrightarrow> rb_inv t \<Longrightarrow> path_inv (bheight t) ps \<Longrightarrow>
   (rb_color t = Red \<longrightarrow> black_above ps) \<Longrightarrow>
   rb_inv u \<and> path_inv (bheight u) qs \<and> (rb_color u = Red \<longrightarrow> black_above qs)"
proof (induction f t ps rule: rb_descend.induct)
  case (1 f ps)
  then show ?case by simp
next
  case (2 f c l x r ps)
  have l: "rb_inv l" "path_inv (bheight l) (LeftOf c x r # ps)"
    "rb_color l = Red \<longrightarrow> black_above (LeftOf c x r # ps)"
    and r: "rb_inv r" "path_inv (bheight r) (RightOf c l x # ps)"
    "rb_color r = Red \<longrightarrow> black_above (RightOf c l x # ps)"
    using 2(4-) by (cases c; simp add: black_above_def)+
  show ?case
  proof (cases "f x")
    case Lt
    with 2(3) show ?thesis by (intro 2(1) l) simp_all
  next
    case Eq
    with 2(3-) show ?thesis by simp
  next
    case Gt
    with 2(3) show ?thesis by (intro 2(2) r) simp_all
  qed
qed

text \<open>
  The invariant of the place a search ends at, from which insertion and removal start.
\<close>

lemma descend_rb_tree:
  assumes "rb_tree t" and "rb_descend f t [] = (u, qs)"
  shows "rb_inv u" and "path_inv (bheight u) qs" and "rb_color u = Red \<longrightarrow> black_above qs"
    and "inorder t = left_of qs @ inorder u @ right_of qs"
  using descend_rb [OF assms(2)] assms(1) rb_descend_plug [OF assms(2)] inorder_plug [of u qs]
  by (simp_all add: rb_tree_def)

lemma insert_rb_tree:
  assumes "rb_tree t" and "rb_descend f t [] = (Leaf, qs)"
  shows "\<exists>u. rb_insert_color (Node Red Leaf x Leaf) qs = Inr u \<and> rb_tree u \<and>
      inorder t = left_of qs @ right_of qs \<and> inorder u = left_of qs @ x # right_of qs"
proof -
  note p = descend_rb_tree [OF assms]
  obtain u where u: "rb_insert_color (Node Red Leaf x Leaf) qs = Inr u" "rb_tree u"
    using insert_color_rb [of "Node Red Leaf x Leaf" qs] p by auto
  from insert_color_inorder [OF u(1)] u p show ?thesis by simp
qed

lemma erase_rb_tree:
  assumes "rb_inv (Node c l x r)" "path_inv (bheight (Node c l x r)) qs" "c = Red \<longrightarrow> black_above qs"
  shows "\<exists>u. rb_erase (Node c l x r) qs = Inr u \<and> rb_tree u \<and>
      inorder u = left_of qs @ inorder l @ inorder r @ right_of qs"
proof -
  obtain u where "rb_erase (Node c l x r) qs = Inr u" "rb_tree u"
    using erase_rb [OF assms] by blast
  with erase_inorder [OF this(1)] show ?thesis by blast
qed

text \<open>
  The place of a node that the caller has a pointer to, here found by a predicate on its key.
\<close>

fun rb_place :: "('a \<Rightarrow> bool) \<Rightarrow> 'a rbt \<Rightarrow> 'a crumb list \<Rightarrow> ('a rbt \<times> 'a crumb list) option" where
  "rb_place P Leaf ps = None"
| "rb_place P (Node c l x r) ps =
     (if P x then Some (Node c l x r, ps)
      else (case rb_place P l (LeftOf c x r # ps) of
          Some q \<Rightarrow> Some q
        | None \<Rightarrow> rb_place P r (RightOf c l x # ps)))"

lemma place_None_iff: "rb_place P t ps = None \<longleftrightarrow> (\<forall>x\<in>set (inorder t). \<not> P x)"
  by (induction P t ps rule: rb_place.induct) (auto split: option.splits)

lemma place_rb:
  "rb_place P t ps = Some (u, qs) \<Longrightarrow> rb_inv t \<Longrightarrow> path_inv (bheight t) ps \<Longrightarrow>
   (rb_color t = Red \<longrightarrow> black_above ps) \<Longrightarrow>
   rb_inv u \<and> path_inv (bheight u) qs \<and> (rb_color u = Red \<longrightarrow> black_above qs) \<and>
   plug u qs = plug t ps \<and> (\<exists>c l x r. u = Node c l x r \<and> P x)"
proof (induction P t ps rule: rb_place.induct)
  case (1 P ps)
  then show ?case by simp
next
  case (2 P c l x r ps)
  have l: "rb_inv l" "path_inv (bheight l) (LeftOf c x r # ps)"
    "rb_color l = Red \<longrightarrow> black_above (LeftOf c x r # ps)"
    and r: "rb_inv r" "path_inv (bheight r) (RightOf c l x # ps)"
    "rb_color r = Red \<longrightarrow> black_above (RightOf c l x # ps)"
    using 2(4-) by (cases c; simp add: black_above_def)+
  show ?case
  proof (cases "P x")
    case True
    with 2(3-) show ?thesis by auto
  next
    case False
    show ?thesis
    proof (cases "rb_place P l (LeftOf c x r # ps)")
      case None
      with False 2(3) 2(2) [OF False None _ r] show ?thesis by simp
    next
      case (Some q)
      with False 2(3) 2(1) [OF False _ l] show ?thesis by simp
    qed
  qed
qed

definition rb_remove :: "('a \<Rightarrow> bool) \<Rightarrow> 'a rbt \<Rightarrow> 'a rbt result" where
  "rb_remove P t = (case rb_place P t [] of None \<Rightarrow> Inl NullDeref | Some (u, qs) \<Rightarrow> rb_erase u qs)"

lemma remove_rb_tree:
  assumes "rb_tree t" and "\<exists>x\<in>set (inorder t). P x"
  shows "\<exists>u xs x ys. rb_remove P t = Inr u \<and> rb_tree u \<and> P x \<and>
      inorder t = xs @ x # ys \<and> inorder u = xs @ ys"
proof -
  obtain v qs where pl: "rb_place P t [] = Some (v, qs)"
    using assms(2) place_None_iff [of P t "[]"] by (cases "rb_place P t []") auto
  have v: "rb_inv v" "path_inv (bheight v) qs" "rb_color v = Red \<longrightarrow> black_above qs"
    "plug v qs = t" "\<exists>c l x r. v = Node c l x r \<and> P x"
    using place_rb [OF pl] assms(1) by (simp_all add: rb_tree_def)
  then obtain c l x r where x: "v = Node c l x r" "P x" by blast
  obtain u where u: "rb_erase v qs = Inr u" "rb_tree u"
    "inorder u = left_of qs @ inorder l @ inorder r @ right_of qs"
    using erase_rb_tree [of c l x r qs] v x by auto
  have "inorder t = (left_of qs @ inorder l) @ x # (inorder r @ right_of qs)"
    unfolding v(4) [symmetric] x(1) by simp
  moreover have "inorder u = (left_of qs @ inorder l) @ (inorder r @ right_of qs)"
    using u(3) by simp
  moreover have "rb_remove P t = Inr u"
    using u(1) pl by (simp add: rb_remove_def)
  ultimately show ?thesis
    using u(2) x(2) by blast
qed

text \<open>A search from the root follows a path of at most twice the logarithm of the size.\<close>

lemma size_bheight: "rb_inv t \<Longrightarrow> 2 ^ bheight t \<le> Suc (length (inorder t))"
proof (induction t)
  case Leaf
  then show ?case by simp
next
  case (Node c l x r)
  then have "2 ^ bheight l \<le> Suc (length (inorder l))" "2 ^ bheight l \<le> Suc (length (inorder r))"
    by (auto dest: sym)
  then show ?case by auto
qed

lemma descend_length:
  "rb_inv t \<Longrightarrow> rb_descend f t ps = (u, qs) \<Longrightarrow>
   length qs \<le> length ps + 2 * bheight t + (if rb_color t = Red then 1 else 0)"
proof (induction f t ps rule: rb_descend.induct)
  case (1 f ps)
  then show ?case by simp
next
  case (2 f c l x r ps)
  show ?case
    by (cases "f x"; cases c; insert 2; fastforce split: if_splits)
qed

lemma search_path_logarithmic:
  assumes "rb_tree t" and "rb_descend f t [] = (u, qs)"
  shows "2 ^ length qs \<le> (Suc (length (inorder t)))\<^sup>2"
proof -
  have "rb_inv t" "length qs \<le> 2 * bheight t"
    using assms descend_length [of t f "[]" u qs] by (auto simp: rb_tree_def)
  then have "(2::nat) ^ length qs \<le> 2 ^ (2 * bheight t)"
    by (intro power_increasing) auto
  also have "\<dots> = (2 ^ bheight t)\<^sup>2"
    by (simp add: power_even_eq)
  also have "\<dots> \<le> (Suc (length (inorder t)))\<^sup>2"
    using size_bheight [OF \<open>rb_inv t\<close>] by (intro power_mono) auto
  finally show ?thesis .
qed

section \<open>Properties\<close>

text \<open>
  C17. Linking a node where a search of a red-black tree ends and calling \<^verbatim>\<open>rb_insert_color\<close> never
  follows a null pointer, terminates, and gives a red-black tree again, whose keys are those
  of the old tree in the same order with the new key between the ones the search passed on
  its left and on its right.
\<close>

theorem rb_insert_balanced:
  assumes "rb_tree t" and "rb_descend f t [] = (Leaf, qs)"
  shows "\<exists>u. rb_insert_color (Node Red Leaf x Leaf) qs = Inr u \<and> rb_tree u \<and>
      inorder t = left_of qs @ right_of qs \<and> inorder u = left_of qs @ x # right_of qs"
  by (rule insert_rb_tree [OF assms])

definition by_key :: "nat \<Rightarrow> nat \<Rightarrow> dir" where
  "by_key k x = (if k < x then Lt else if x < k then Gt else Eq)"

definition sample_tree :: "nat rbt" where
  "sample_tree = Node Black (Node Black Leaf 1 (Node Red Leaf 2 Leaf)) 4 (Node Black Leaf 6 Leaf)"

lemma sample_tree_ok: "rb_tree sample_tree"
  by (simp add: sample_tree_def rb_tree_def)

theorem rb_insert_balanced_witness:
  "\<exists>u. rb_insert_color (Node Red Leaf 3 Leaf) (snd (rb_descend (by_key 3) sample_tree [])) = Inr u \<and>
     rb_tree u \<and> inorder u = [1, 2, 3, 4, 6]"
  using rb_insert_balanced [OF sample_tree_ok, of "by_key 3" "snd (rb_descend (by_key 3) sample_tree [])" 3]
  by (auto simp: sample_tree_def by_key_def)

text \<open>
  C5. \<^verbatim>\<open>rb_erase\<close> of a node of a red-black tree, on every one of its cases (no child, one child,
  the successor as right child or deeper), never follows a null pointer, terminates, gives a
  red-black tree again and removes exactly the key of that node, keeping the order of the others.
\<close>

theorem rb_erase_balanced:
  assumes "rb_tree t" and "rb_descend f t [] = (Node c l x r, qs)"
  shows "\<exists>u. rb_erase (Node c l x r) qs = Inr u \<and> rb_tree u \<and>
      inorder t = left_of qs @ inorder l @ x # inorder r @ right_of qs \<and>
      inorder u = left_of qs @ inorder l @ inorder r @ right_of qs"
  using erase_rb_tree [of c l x r qs] descend_rb_tree [OF assms] by simp

theorem rb_erase_balanced_witness:
  "\<exists>u. rb_erase (Node Black Leaf 6 Leaf) (snd (rb_descend (by_key 6) sample_tree [])) = Inr u \<and>
     rb_tree u \<and> inorder u = [1, 2, 4]"
  using rb_erase_balanced [OF sample_tree_ok, of "by_key 6" Black Leaf 6 Leaf
      "snd (rb_descend (by_key 6) sample_tree [])"]
  by (auto simp: sample_tree_def by_key_def)

text \<open>
  A search in a red-black tree of \<open>n\<close> nodes follows at most \<open>2 log\<^sub>2 (n + 1)\<close> links.
\<close>

theorem rb_search_logarithmic:
  assumes "rb_tree t" and "rb_descend f t [] = (u, qs)"
  shows "2 ^ length qs \<le> (Suc (length (inorder t)))\<^sup>2"
  by (rule search_path_logarithmic [OF assms])

theorem rb_search_logarithmic_witness:
  "2 ^ length (snd (rb_descend (by_key 3) sample_tree [])) \<le> (Suc (length (inorder sample_tree)))\<^sup>2"
  using rb_search_logarithmic [OF sample_tree_ok, of "by_key 3" "fst (rb_descend (by_key 3) sample_tree [])"]
  by simp

end
