(* ===== verification/Interval.thy ===== *)
theory Interval
  imports Rbtree "HOL-Library.Multiset"
begin

text \<open>
  The interval trees of \<^verbatim>\<open>util/rbtree-interval.c\<close>: red-black trees of half-open address ranges
  that do not overlap. The interface that the bus of the trapped accesses relies on is the
  locale \<open>interval_index\<close>, which is interpreted on these trees at the end.

  The nodes embed a \<^verbatim>\<open>struct rb_int_node\<close>; \<open>low\<close> and \<open>high\<close> read it.
\<close>

record rb_int_node =
  low :: u64
  high :: u64

type_synonym 'a rb_int = "'a rb_int_node_scheme"

definition rb_int_init :: "u64 \<Rightarrow> u64 \<Rightarrow> rb_int_node" where
  "rb_int_init l h = \<lparr> low = l, high = h \<rparr>"

fun rb_int_search_single :: "'a rb_int rbt \<Rightarrow> u64 \<Rightarrow> 'a rb_int option" where
  "rb_int_search_single Leaf point = None"
| "rb_int_search_single (Node c l cur r) point =
     (if point < low cur then rb_int_search_single l point
      else if high cur \<le> point then rb_int_search_single r point
      else Some cur)"

definition rb_int_search_range :: "'a rb_int rbt \<Rightarrow> u64 \<Rightarrow> u64 \<Rightarrow> 'a rb_int option" where
  "rb_int_search_range root lo hi =
     (case rb_int_search_single root lo of
        None \<Rightarrow> None
      | Some rng \<Rightarrow> if high rng < hi then None else Some rng)"

definition int_dir :: "'a rb_int \<Rightarrow> 'a rb_int \<Rightarrow> dir" where
  "int_dir i_node cur =
     (if high i_node \<le> low cur then Lt else if high cur \<le> low i_node then Gt else Eq)"

text \<open>The inner sum is the return value: \<open>None\<close> is \<^verbatim>\<open>-EEXIST\<close>, and the tree is unchanged then.\<close>

definition rb_int_insert :: "'a rb_int rbt \<Rightarrow> 'a rb_int \<Rightarrow> 'a rb_int rbt option result" where
  "rb_int_insert root i_node =
     (case rb_descend (int_dir i_node) root [] of
        (Leaf, path) \<Rightarrow> rbind (rb_insert_color (Node Red Leaf i_node Leaf) path) (\<lambda>t. Inr (Some t))
      | (Node _ _ _ _, _) \<Rightarrow> Inr None)"

definition rb_int_erase :: "('a rb_int \<Rightarrow> bool) \<Rightarrow> 'a rb_int rbt \<Rightarrow> 'a rb_int rbt result" where
  "rb_int_erase P root = rb_remove P root"

section \<open>The invariant\<close>

definition int_before :: "'a rb_int \<Rightarrow> 'a rb_int \<Rightarrow> bool" where
  "int_before a b \<longleftrightarrow> high a \<le> low b"

definition apart :: "'a rb_int \<Rightarrow> 'a rb_int \<Rightarrow> bool" where
  "apart a b \<longleftrightarrow> high a \<le> low b \<or> high b \<le> low a"

definition int_sorted :: "'a rb_int list \<Rightarrow> bool" where
  "int_sorted xs \<longleftrightarrow> sorted_wrt int_before xs \<and> (\<forall>x\<in>set xs. low x \<le> high x)"

definition int_tree :: "'a rb_int rbt \<Rightarrow> bool" where
  "int_tree t \<longleftrightarrow> rb_tree t \<and> int_sorted (inorder t)"

lemma int_sorted_append [simp]:
  "int_sorted (xs @ ys) \<longleftrightarrow> int_sorted xs \<and> int_sorted ys \<and> (\<forall>x\<in>set xs. \<forall>y\<in>set ys. int_before x y)"
  by (auto simp: int_sorted_def sorted_wrt_append)

lemma int_sorted_Cons [simp]:
  "int_sorted (x # ys) \<longleftrightarrow> int_sorted ys \<and> low x \<le> high x \<and> (\<forall>y\<in>set ys. int_before x y)"
  by (auto simp: int_sorted_def)

lemma int_sorted_Nil [simp]: "int_sorted []"
  by (simp add: int_sorted_def)

section \<open>Search\<close>

lemma search_single_mem:
  "rb_int_search_single t p = Some m \<Longrightarrow> m \<in> set (inorder t) \<and> low m \<le> p \<and> p < high m"
  by (induction t p rule: rb_int_search_single.induct) (auto split: if_splits)

lemma search_single_complete:
  "int_sorted (inorder t) \<Longrightarrow> m \<in> set (inorder t) \<Longrightarrow> low m \<le> p \<Longrightarrow> p < high m \<Longrightarrow>
   rb_int_search_single t p = Some m"
proof (induction t p rule: rb_int_search_single.induct)
  case (1 point)
  then show ?case by simp
next
  case (2 c l cur r point)
  have le: "low cur \<le> high cur" using 2(3) by simp
  consider "m = cur" | "m \<in> set (inorder l)" | "m \<in> set (inorder r)" using 2(4) by auto
  then show ?case
  proof cases
    case 1
    with 2(5,6) have "\<not> point < low cur" "\<not> high cur \<le> point" by auto
    with 1 show ?thesis by simp
  next
    case 2
    then have "int_before m cur" using \<open>int_sorted (inorder (Node c l cur r))\<close> by simp
    then have "point < low cur" using \<open>point < high m\<close> by (simp add: int_before_def)
    with 2 "2.IH"(1) "2.prems" show ?thesis by simp
  next
    case 3
    then have "int_before cur m" using \<open>int_sorted (inorder (Node c l cur r))\<close> by simp
    then have hi: "high cur \<le> point" using \<open>low m \<le> point\<close> by (simp add: int_before_def)
    then have nlt: "\<not> point < low cur" using le by simp
    with hi 3 "2.IH"(2) "2.prems" show ?thesis by simp
  qed
qed

lemma search_single_iff:
  "int_sorted (inorder t) \<Longrightarrow>
   rb_int_search_single t p = Some m \<longleftrightarrow> m \<in> set (inorder t) \<and> low m \<le> p \<and> p < high m"
  using search_single_mem search_single_complete by blast

section \<open>Insertion\<close>

lemma descend_apart:
  "rb_descend (int_dir i) t ps = (Leaf, qs) \<Longrightarrow> low i \<le> high i \<Longrightarrow> int_sorted (inorder t) \<Longrightarrow>
   (\<forall>x\<in>set (left_of ps). int_before x i) \<Longrightarrow> (\<forall>x\<in>set (right_of ps). int_before i x) \<Longrightarrow>
   (\<forall>x\<in>set (left_of qs). int_before x i) \<and> (\<forall>x\<in>set (right_of qs). int_before i x)"
proof (induction "int_dir i" t ps rule: rb_descend.induct)
  case (1 ps)
  then show ?case by simp
next
  case (2 c l x r ps)
  have s: "int_sorted (inorder l)" "int_sorted (inorder r)" "low x \<le> high x"
    "\<forall>y\<in>set (inorder l). int_before y x" "\<forall>y\<in>set (inorder r). int_before x y"
    using 2(5) by simp_all
  show ?case
  proof (cases "int_dir i x")
    case Lt
    then have "int_before i x" by (auto simp: int_dir_def int_before_def split: if_splits)
    moreover have "\<forall>y\<in>set (inorder r). int_before i y"
      using s(3,5) \<open>int_before i x\<close> by (auto simp: int_before_def intro: order_trans)
    ultimately show ?thesis
      using 2(1) [OF Lt] 2(3-) Lt s(1) by auto
  next
    case Eq
    with 2(3) show ?thesis by simp
  next
    case Gt
    then have "int_before x i" by (auto simp: int_dir_def int_before_def split: if_splits)
    moreover have "\<forall>y\<in>set (inorder l). int_before y i"
      using s(3,4) \<open>int_before x i\<close> by (auto simp: int_before_def intro: order_trans)
    ultimately show ?thesis
      using 2(2) [OF Gt] 2(3-) Gt s(2) by auto
  qed
qed

lemma insert_ok:
  assumes "int_tree t" and "low i \<le> high i" and "\<forall>m\<in>set (inorder t). apart i m"
  shows "\<exists>u. rb_int_insert t i = Inr (Some u) \<and> int_tree u \<and> set (inorder u) = insert i (set (inorder t)) \<and>
    mset (inorder u) = add_mset i (mset (inorder t))"
proof -
  obtain v qs where d: "rb_descend (int_dir i) t [] = (v, qs)" by force
  have v: "v = Leaf"
  proof (cases v)
    case (Node c l x r)
    with d have "int_dir i x = Eq" by (simp add: rb_descend_Node)
    moreover have "x \<in> set (inorder t)"
      using descend_rb_tree(4) [OF _ d] assms(1) Node by (simp add: int_tree_def)
    ultimately show ?thesis
      using assms(3) by (auto simp: int_dir_def apart_def split: if_splits)
  qed
  obtain u where u: "rb_insert_color (Node Red Leaf i Leaf) qs = Inr u" "rb_tree u"
    "inorder t = left_of qs @ right_of qs" "inorder u = left_of qs @ i # right_of qs"
    using insert_rb_tree [of t "int_dir i" qs i] assms(1) d v by (auto simp: int_tree_def)
  have "(\<forall>x\<in>set (left_of qs). int_before x i) \<and> (\<forall>x\<in>set (right_of qs). int_before i x)"
    using descend_apart [of i t "[]" qs] d v assms by (simp add: int_tree_def)
  with u assms have "int_tree u" by (auto simp: int_tree_def)
  then show ?thesis
    using u d v by (simp add: rb_int_insert_def)
qed

lemma insert_eexist:
  assumes "int_tree t" and "low i \<le> high i" and "\<not> (\<forall>m\<in>set (inorder t). apart i m)"
  shows "rb_int_insert t i = Inr None"
proof -
  obtain v qs where d: "rb_descend (int_dir i) t [] = (v, qs)" by force
  show ?thesis
  proof (cases v)
    case Leaf
    then have "(\<forall>x\<in>set (left_of qs). int_before x i) \<and> (\<forall>x\<in>set (right_of qs). int_before i x)"
      using descend_apart [of i t "[]" qs] d assms by (simp add: int_tree_def)
    moreover have "inorder t = left_of qs @ right_of qs"
      using descend_rb_tree(4) [OF _ d] assms(1) Leaf by (simp add: int_tree_def)
    ultimately show ?thesis
      using assms(3) by (auto simp: apart_def int_before_def)
  next
    case Node
    with d show ?thesis by (simp add: rb_int_insert_def)
  qed
qed

lemma remove_ok:
  assumes "int_tree t" and "\<exists>m\<in>set (inorder t). P m"
  shows "\<exists>u m. rb_int_erase P t = Inr u \<and> int_tree u \<and> P m \<and> mset (inorder t) = add_mset m (mset (inorder u))"
proof -
  obtain u xs x ys where "rb_remove P t = Inr u" "rb_tree u" "P x"
    "inorder t = xs @ x # ys" "inorder u = xs @ ys"
    using remove_rb_tree [of t P] assms by (auto simp: int_tree_def)
  then show ?thesis
    using assms(1) by (auto simp: rb_int_erase_def int_tree_def)
qed

section \<open>Interface: an index of disjoint address ranges\<close>

locale interval_index =
  fixes inv :: "'t \<Rightarrow> bool"
    and elems :: "'t \<Rightarrow> 'i multiset"
    and lo :: "'i \<Rightarrow> u64"
    and hi :: "'i \<Rightarrow> u64"
    and find :: "'t \<Rightarrow> u64 \<Rightarrow> 'i option"
    and ins :: "'t \<Rightarrow> 'i \<Rightarrow> 't option result"
    and del :: "('i \<Rightarrow> bool) \<Rightarrow> 't \<Rightarrow> 't result"
  assumes find_iff: "inv t \<Longrightarrow> find t p = Some m \<longleftrightarrow> m \<in># elems t \<and> lo m \<le> p \<and> p < hi m"
    and ins_free: "inv t \<Longrightarrow> lo i \<le> hi i \<Longrightarrow> (\<forall>m. m \<in># elems t \<longrightarrow> hi i \<le> lo m \<or> hi m \<le> lo i) \<Longrightarrow>
      \<exists>u. ins t i = Inr (Some u) \<and> inv u \<and> elems u = add_mset i (elems t)"
    and ins_clash: "inv t \<Longrightarrow> lo i \<le> hi i \<Longrightarrow> m \<in># elems t \<Longrightarrow> \<not> (hi i \<le> lo m \<or> hi m \<le> lo i) \<Longrightarrow>
      ins t i = Inr None"
    and del_one: "inv t \<Longrightarrow> m \<in># elems t \<Longrightarrow> P m \<Longrightarrow>
      \<exists>u n. del P t = Inr u \<and> inv u \<and> P n \<and> elems t = add_mset n (elems u)"
begin

lemma find_None_iff: "inv t \<Longrightarrow> find t p = None \<longleftrightarrow> (\<forall>m. m \<in># elems t \<longrightarrow> \<not> (lo m \<le> p \<and> p < hi m))"
  by (metis find_iff not_Some_eq)

text \<open>No address belongs to two ranges.\<close>

lemma ranges_disjoint:
  "inv t \<Longrightarrow> m \<in># elems t \<Longrightarrow> n \<in># elems t \<Longrightarrow> lo m \<le> p \<Longrightarrow> p < hi m \<Longrightarrow> lo n \<le> p \<Longrightarrow> p < hi n \<Longrightarrow> m = n"
  using find_iff [of t p m] find_iff [of t p n] by simp

text \<open>An insertion of a range that is free of the others answers there and changes nothing elsewhere.\<close>

lemma find_after_insert:
  assumes "inv t" and "lo i \<le> hi i" and "\<forall>m. m \<in># elems t \<longrightarrow> hi i \<le> lo m \<or> hi m \<le> lo i"
    and "ins t i = Inr (Some u)"
  shows "find u p = (if lo i \<le> p \<and> p < hi i then Some i else find t p)"
proof -
  have u: "inv u" "elems u = add_mset i (elems t)"
    using ins_free [OF assms(1-3)] assms(4) by auto
  show ?thesis
  proof (cases "lo i \<le> p \<and> p < hi i")
    case True
    then show ?thesis using u find_iff [of u p i] by simp
  next
    case False
    then have "find u p = Some m \<longleftrightarrow> find t p = Some m" for m
      using find_iff [of u p m] find_iff [of t p m] u assms(1) by auto
    with False show ?thesis by (metis not_Some_eq)
  qed
qed

text \<open>After the removal of the range at \<open>p\<close>, no range is at \<open>p\<close> any more.\<close>

lemma find_after_delete:
  assumes "inv t" and "find t p = Some m" and "\<And>n. n \<in># elems t \<Longrightarrow> P n \<longleftrightarrow> n = m" and "count (elems t) m = 1"
  shows "\<exists>u. del P t = Inr u \<and> inv u \<and> elems t = add_mset m (elems u) \<and>
    (\<forall>q. find u q = (if find t q = Some m then None else find t q))"
proof -
  have m: "m \<in># elems t" using find_iff [of t p m] assms(1,2) by simp
  then obtain u n where u: "del P t = Inr u" "inv u" "P n" "elems t = add_mset n (elems u)"
    using del_one [of t m P] assms(1,3) by blast
  then have n: "n = m" using assms(3) [of n] by simp
  with u assms(4) have notin: "m \<notin># elems u" by (simp add: not_in_iff)
  have "find u q = (if find t q = Some m then None else find t q)" for q
  proof (cases "find t q = Some m")
    case True
    then have "\<forall>k. k \<in># elems u \<longrightarrow> \<not> (lo k \<le> q \<and> q < hi k)"
      using ranges_disjoint [OF assms(1) m, of _ q] u(4) n notin find_iff [OF assms(1), of q m] by auto
    with True show ?thesis using find_None_iff [OF u(2)] by simp
  next
    case False
    have "find u q = Some k \<longleftrightarrow> find t q = Some k" for k
      using False find_iff [OF assms(1), of q k] find_iff [OF u(2), of q k] u(4) n by auto
    with False show ?thesis by (metis not_Some_eq)
  qed
  with u n show ?thesis by blast
qed

end

interpretation rbi: interval_index int_tree "\<lambda>t. mset (inorder t)" low high
  rb_int_search_single rb_int_insert rb_int_erase
proof unfold_locales
  fix t :: "'a rb_int rbt" and p m P i
  show "int_tree t \<Longrightarrow> rb_int_search_single t p = Some m \<longleftrightarrow> m \<in># mset (inorder t) \<and> low m \<le> p \<and> p < high m"
    by (simp add: search_single_iff int_tree_def)
  show "int_tree t \<Longrightarrow> low i \<le> high i \<Longrightarrow>
    (\<forall>m. m \<in># mset (inorder t) \<longrightarrow> high i \<le> low m \<or> high m \<le> low i) \<Longrightarrow>
    \<exists>u. rb_int_insert t i = Inr (Some u) \<and> int_tree u \<and> mset (inorder u) = add_mset i (mset (inorder t))"
    using insert_ok [of t i] by (auto simp: apart_def)
  show "int_tree t \<Longrightarrow> low i \<le> high i \<Longrightarrow> m \<in># mset (inorder t) \<Longrightarrow>
    \<not> (high i \<le> low m \<or> high m \<le> low i) \<Longrightarrow> rb_int_insert t i = Inr None"
    using insert_eexist [of t i] by (auto simp: apart_def)
  show "int_tree t \<Longrightarrow> m \<in># mset (inorder t) \<Longrightarrow> P m \<Longrightarrow>
    \<exists>u n. rb_int_erase P t = Inr u \<and> int_tree u \<and> P n \<and> mset (inorder t) = add_mset n (mset (inorder u))"
    using remove_ok [of t P] by auto
qed

section \<open>Updates in place\<close>

text \<open>A node whose range stays the same may change otherwise without being moved.\<close>

lemma inorder_map_rbt [simp]: "inorder (map_rbt f t) = map f (inorder t)"
  by (induction t) auto

lemma rb_map_rbt [simp]: "rb_color (map_rbt f t) = rb_color t" "bheight (map_rbt f t) = bheight t"
  "rb_inv (map_rbt f t) = rb_inv t" "rb_tree (map_rbt f t) = rb_tree t"
proof -
  show c: "rb_color (map_rbt f u) = rb_color u" for u
    by (cases u) auto
  show h: "bheight (map_rbt f u) = bheight u" for u
    by (induction u) auto
  show "rb_inv (map_rbt f t) = rb_inv t"
    by (induction t) (auto simp: c h)
  then show "rb_tree (map_rbt f t) = rb_tree t"
    by (simp add: rb_tree_def c)
qed

lemma int_tree_map:
  assumes "\<And>x. low (f x) = low x" and "\<And>x. high (f x) = high x"
  shows "int_tree (map_rbt f t) = int_tree t"
  using assms by (simp add: int_tree_def int_sorted_def int_before_def [abs_def] sorted_wrt_map)

lemma search_map:
  assumes "\<And>x. low (f x) = low x" and "\<And>x. high (f x) = high x"
  shows "rb_int_search_single (map_rbt f t) p = map_option f (rb_int_search_single t p)"
  by (induction t p rule: rb_int_search_single.induct) (auto simp: assms)

end
