(* ===== verification/Mmio.thy ===== *)
theory Mmio
  imports Interval
begin

text \<open>
  The bus of the trapped accesses, \<^verbatim>\<open>init/mmio.c\<close>: two interval trees of handlers, one for memory
  and one for ports, shared by the vCPU threads under \<^verbatim>\<open>mmio_lock\<close>. A thread looks a handler
  up and takes a reference, runs the handler without the lock, and gives the reference back; a
  handler that is deregistered meanwhile is freed by the last reference.

  A \<^verbatim>\<open>struct mmio_mapping\<close> is a node of a tree; \<open>m_addr\<close> is its address, the value the C code
  passes around, and reading through an address that no node has any more is \<open>Inl UseAfterFree\<close>.
  The handler is a number (\<open>mmio_fn\<close>) with its argument (\<open>ptr\<close>). The calls of \<^verbatim>\<open>ioctl\<close> that
  declare coalesced zones are recorded in the order they are made, and what the kernel and
  \<^verbatim>\<open>malloc\<close> answer is an argument.
\<close>

section \<open>State\<close>

record mmio_mapping = rb_int_node +
  m_addr :: nat
  mmio_fn :: nat
  ptr :: nat
  refcount :: u32
  remove :: bool

datatype root = Mmio_tree | Pio_tree

datatype kvm_ioctl = Register_coalesced u64 u64 | Unregister_coalesced u64 u64

record mmio_bus =
  mmio_tree :: "mmio_mapping rbt"
  pio_tree :: "mmio_mapping rbt"
  heap_next :: nat
  ioctls :: "kvm_ioctl list"

definition bus_init :: mmio_bus where
  "bus_init = \<lparr> mmio_tree = Leaf, pio_tree = Leaf, heap_next = 0, ioctls = [] \<rparr>"

fun tree_of :: "root \<Rightarrow> mmio_bus \<Rightarrow> mmio_mapping rbt" where
  "tree_of Mmio_tree b = mmio_tree b"
| "tree_of Pio_tree b = pio_tree b"

fun set_tree :: "root \<Rightarrow> mmio_mapping rbt \<Rightarrow> mmio_bus \<Rightarrow> mmio_bus" where
  "set_tree Mmio_tree t b = b\<lparr>mmio_tree := t\<rparr>"
| "set_tree Pio_tree t b = b\<lparr>pio_tree := t\<rparr>"

text \<open>Reading and writing a mapping through its address.\<close>

definition deref :: "nat \<Rightarrow> mmio_mapping rbt \<Rightarrow> mmio_mapping result" where
  "deref p t = (case rb_place (\<lambda>m. m_addr m = p) t [] of
      Some (Node _ _ m _, _) \<Rightarrow> Inr m
    | _ \<Rightarrow> Inl UseAfterFree)"

definition touch :: "nat \<Rightarrow> (mmio_mapping \<Rightarrow> mmio_mapping) \<Rightarrow> mmio_mapping rbt \<Rightarrow> mmio_mapping rbt" where
  "touch p f = map_rbt (\<lambda>m. if m_addr m = p then f m else m)"

section \<open>The operations\<close>

definition mmio_search :: "mmio_mapping rbt \<Rightarrow> u64 \<Rightarrow> u64 \<Rightarrow> mmio_mapping option" where
  "mmio_search t addr len = (if addr + len \<le> addr then None else rb_int_search_range t addr (addr + len))"

definition mmio_get :: "root \<Rightarrow> u64 \<Rightarrow> u32 \<Rightarrow> mmio_bus \<Rightarrow> nat option \<times> mmio_bus" where
  "mmio_get root phys_addr len b =
     (case mmio_search (tree_of root b) phys_addr (ucast len) of
        None \<Rightarrow> (None, b)
      | Some m \<Rightarrow> (Some (m_addr m),
          set_tree root (touch (m_addr m) (\<lambda>m. m\<lparr>refcount := refcount m + 1\<rparr>) (tree_of root b)) b))"

definition mmio_deregister :: "root \<Rightarrow> nat \<Rightarrow> mmio_bus \<Rightarrow> mmio_bus result" where
  "mmio_deregister root p b =
     rbind (deref p (tree_of root b)) (\<lambda>m.
     rbind (rb_int_erase (\<lambda>m. m_addr m = p) (tree_of root b)) (\<lambda>t.
     Inr (set_tree root t (b\<lparr>ioctls := ioctls b @ [Unregister_coalesced (low m) 1]\<rparr>))))"

definition mmio_put :: "root \<Rightarrow> nat \<Rightarrow> mmio_bus \<Rightarrow> mmio_bus result" where
  "mmio_put root p b =
     rbind (deref p (tree_of root b)) (\<lambda>m.
       let rc = refcount m - 1;
           b' = set_tree root (touch p (\<lambda>m. m\<lparr>refcount := rc\<rparr>) (tree_of root b)) b
       in if remove m \<and> rc = 0 then mmio_deregister root p b' else Inr b')"

abbreviation (input) EEXIST :: int where "EEXIST \<equiv> 17"
abbreviation (input) ENOMEM :: int where "ENOMEM \<equiv> 12"
abbreviation (input) IOTRAP_BUS_MASK :: u32 where "IOTRAP_BUS_MASK \<equiv> 0xf"
abbreviation (input) IOTRAP_COALESCE :: u32 where "IOTRAP_COALESCE \<equiv> 0x10"
abbreviation (input) DEVICE_BUS_MMIO :: u32 where "DEVICE_BUS_MMIO \<equiv> 1"

definition trap_is_mmio :: "u32 \<Rightarrow> bool" where
  "trap_is_mmio flags \<longleftrightarrow> flags AND IOTRAP_BUS_MASK = DEVICE_BUS_MMIO"

definition trap_root :: "u32 \<Rightarrow> root" where
  "trap_root flags = (if trap_is_mmio flags then Mmio_tree else Pio_tree)"

text \<open>
  \<open>mem\<close> says whether \<^verbatim>\<open>malloc\<close> succeeds, \<open>err\<close> is \<^verbatim>\<open>errno\<close> after the \<^verbatim>\<open>ioctl\<close>, 0 when it succeeds.
\<close>

definition kvm_register_iotrap ::
  "bool \<Rightarrow> nat \<Rightarrow> u64 \<Rightarrow> u64 \<Rightarrow> nat \<Rightarrow> nat \<Rightarrow> u32 \<Rightarrow> mmio_bus \<Rightarrow> (int \<times> mmio_bus) result" where
  "kvm_register_iotrap mem err phys_addr phys_addr_len fn arg flags b =
     (if \<not> mem then Inr (- ENOMEM, b)
      else
        let mmio = \<lparr> low = phys_addr, high = phys_addr + phys_addr_len, m_addr = heap_next b,
                     mmio_fn = fn, ptr = arg, refcount = 0, remove = False \<rparr>;
            b1 = b\<lparr>heap_next := heap_next b + 1\<rparr>;
            coalesce = trap_is_mmio flags \<and> flag flags IOTRAP_COALESCE;
            b2 = (if coalesce then b1\<lparr>ioctls := ioctls b @ [Register_coalesced phys_addr phys_addr_len]\<rparr> else b1)
        in if coalesce \<and> err \<noteq> 0 then Inr (- int err, b2)
           else rbind (rb_int_insert (tree_of (trap_root flags) b2) mmio) (\<lambda>r.
             case r of
               None \<Rightarrow> Inr (- EEXIST, b2)
             | Some t \<Rightarrow> Inr (0, set_tree (trap_root flags) t b2)))"

definition kvm_deregister_iotrap :: "u64 \<Rightarrow> u32 \<Rightarrow> mmio_bus \<Rightarrow> (bool \<times> mmio_bus) result" where
  "kvm_deregister_iotrap phys_addr flags b =
     (case rb_int_search_single (tree_of (trap_root flags) b) phys_addr of
        None \<Rightarrow> Inr (False, b)
      | Some m \<Rightarrow>
          if refcount m = 0
          then rbind (mmio_deregister (trap_root flags) (m_addr m) b) (\<lambda>b'. Inr (True, b'))
          else Inr (True, set_tree (trap_root flags)
                 (touch (m_addr m) (\<lambda>m. m\<lparr>remove := True\<rparr>) (tree_of (trap_root flags) b)) b))"

text \<open>
  A handler gets the mapping it was found through, the address, the bytes and the direction,
  and may change the bytes, the bus (the PCI code registers and deregisters handlers from
  inside its own) and the rest \<open>'w\<close> of the machine.
\<close>

type_synonym 'w handler =
  "mmio_mapping \<Rightarrow> u64 \<Rightarrow> u8 list \<Rightarrow> bool \<Rightarrow> mmio_bus \<times> 'w \<Rightarrow> u8 list \<times> mmio_bus \<times> 'w"

definition kvm_emulate_mmio ::
  "'w handler \<Rightarrow> u64 \<Rightarrow> u8 list \<Rightarrow> u32 \<Rightarrow> bool \<Rightarrow> mmio_bus \<times> 'w \<Rightarrow> (u8 list \<times> mmio_bus \<times> 'w) result" where
  "kvm_emulate_mmio h phys_addr data len is_write s =
     (case mmio_get Mmio_tree phys_addr len (fst s) of
        (None, b) \<Rightarrow> Inr (data, b, snd s)
      | (Some p, b) \<Rightarrow>
          rbind (deref p (mmio_tree b)) (\<lambda>m.
            let (data', b', w) = h m phys_addr data is_write (b, snd s)
            in rbind (mmio_put Mmio_tree p b') (\<lambda>b''. Inr (data', b'', w))))"

fun io_loop ::
  "'w handler \<Rightarrow> nat \<Rightarrow> u64 \<Rightarrow> nat \<Rightarrow> bool \<Rightarrow> nat \<Rightarrow> u8 list \<Rightarrow> mmio_bus \<times> 'w \<Rightarrow>
   (u8 list \<times> mmio_bus \<times> 'w) result" where
  "io_loop h p port sz is_write 0 data s = Inr (data, s)"
| "io_loop h p port sz is_write (Suc cnt) data s =
     rbind (deref p (pio_tree (fst s))) (\<lambda>m.
       let (chunk, s') = h m port (take sz data) is_write s
       in rbind (io_loop h p port sz is_write cnt (drop sz data) s') (\<lambda>(rest, s'').
            Inr (chunk @ rest, s'')))"

definition kvm_emulate_io ::
  "bool \<Rightarrow> 'w handler \<Rightarrow> u16 \<Rightarrow> u8 list \<Rightarrow> bool \<Rightarrow> u32 \<Rightarrow> u32 \<Rightarrow> mmio_bus \<times> 'w \<Rightarrow>
   (bool \<times> u8 list \<times> mmio_bus \<times> 'w) result" where
  "kvm_emulate_io ioport_debug h port data is_write sz cnt s =
     (case mmio_get Pio_tree (ucast port) sz (fst s) of
        (None, b) \<Rightarrow> Inr (\<not> ioport_debug, data, b, snd s)
      | (Some p, b) \<Rightarrow>
          rbind (io_loop h p (ucast port) (unat sz) is_write (unat cnt) data (b, snd s))
            (\<lambda>(data', b', w).
          rbind (mmio_put Pio_tree p b') (\<lambda>b''. Inr (True, data', b'', w))))"

section \<open>The invariant\<close>

text \<open>
  \<open>refs_but X n t H\<close>: \<open>t\<close> is an interval tree whose nodes have different addresses below \<open>n\<close>, the
  count of each node is the number of references to it in \<open>H\<close>, a node marked for removal and
  not in \<open>X\<close> is still referenced, and every reference in \<open>H\<close> is to a node of the tree. Between
  two operations \<open>X\<close> is empty.
\<close>

definition refs_but :: "nat set \<Rightarrow> nat \<Rightarrow> mmio_mapping rbt \<Rightarrow> nat multiset \<Rightarrow> bool" where
  "refs_but X n t H \<longleftrightarrow> int_tree t \<and> distinct (map m_addr (inorder t)) \<and>
     (\<forall>m\<in>set (inorder t). m_addr m < n \<and> unat (refcount m) = count H (m_addr m) \<and>
        (m_addr m \<notin> X \<longrightarrow> remove m \<longrightarrow> refcount m \<noteq> 0)) \<and>
     set_mset H \<subseteq> m_addr ` set (inorder t)"

abbreviation refs_ok :: "nat \<Rightarrow> mmio_mapping rbt \<Rightarrow> nat multiset \<Rightarrow> bool" where
  "refs_ok \<equiv> refs_but {}"

definition bus_ok :: "mmio_bus \<times> (root \<Rightarrow> nat multiset) \<Rightarrow> bool" where
  "bus_ok s \<longleftrightarrow> (\<forall>r. refs_ok (heap_next (fst s)) (tree_of r (fst s)) (snd s r))"

lemma tree_of_set_tree [simp]: "tree_of r (set_tree q t b) = (if r = q then t else tree_of r b)"
  by (cases r; cases q) auto

lemma heap_next_set_tree [simp]: "heap_next (set_tree q t b) = heap_next b"
  by (cases q) auto

lemma tree_of_more [simp]: "tree_of r (b\<lparr>ioctls := x\<rparr>) = tree_of r b" "tree_of r (b\<lparr>heap_next := n\<rparr>) = tree_of r b"
  by (cases r; simp)+

lemma bus_okD: "bus_ok (b, H) \<Longrightarrow> refs_ok (heap_next b) (tree_of r b) (H r)"
  by (simp add: bus_ok_def)

lemma bus_ok_upd:
  "bus_ok (b, H) \<Longrightarrow> refs_ok (heap_next b) t h \<Longrightarrow> bus_ok (set_tree r t b, H(r := h))"
  by (simp add: bus_ok_def)

lemma refs_ok_mono: "refs_ok n t H \<Longrightarrow> n \<le> k \<Longrightarrow> refs_ok k t H"
  by (auto simp: refs_but_def)

lemma bus_ok_fresh: "bus_ok (b, H) \<Longrightarrow> bus_ok (b\<lparr>heap_next := heap_next b + 1\<rparr>, H)"
  by (auto simp: bus_ok_def intro: refs_ok_mono)

lemma bus_ok_ioctls [simp]:
  "bus_ok (b\<lparr>ioctls := x\<rparr>, H) = bus_ok (b, H)"
  "bus_ok (set_tree r t (b\<lparr>ioctls := x\<rparr>), H) = bus_ok (set_tree r t b, H)"
  by (simp_all add: bus_ok_def)

lemma bus_ok_init: "bus_ok (bus_init, \<lambda>_. {#})"
proof -
  have "tree_of r bus_init = Leaf" for r by (cases r) (simp_all add: bus_init_def)
  then show ?thesis
    by (simp add: bus_ok_def refs_but_def int_tree_def rb_tree_def)
qed

text \<open>Reading through an address: the node there, if it is still in the tree.\<close>

lemma deref_ok:
  assumes "distinct (map m_addr (inorder t))" and "rb_tree t" and "m \<in> set (inorder t)" and "m_addr m = p"
  shows "deref p t = Inr m"
proof -
  obtain v qs where pl: "rb_place (\<lambda>m. m_addr m = p) t [] = Some (v, qs)"
    using assms(3,4) place_None_iff [of "\<lambda>m. m_addr m = p" t "[]"] by (cases "rb_place (\<lambda>m. m_addr m = p) t []") auto
  then obtain c l k r where k: "v = Node c l k r" "m_addr k = p" "plug v qs = t"
    using place_rb [OF pl] assms(2) by (auto simp: rb_tree_def)
  then have "k \<in> set (inorder t)" using inorder_plug [of v qs] by auto
  then have "k = m" using assms(1,3,4) k(2) by (auto simp: distinct_map dest: inj_onD)
  with pl k show ?thesis by (simp add: deref_def)
qed

lemma refs_deref:
  assumes "refs_but X n t H" and "m \<in> set (inorder t)"
  shows "deref (m_addr m) t = Inr m"
  using assms by (intro deref_ok) (auto simp: refs_but_def int_tree_def)

lemma held_deref:
  assumes "refs_ok n t H" and "p \<in># H"
  shows "\<exists>m. m \<in> set (inorder t) \<and> m_addr m = p \<and> deref p t = Inr m \<and> refcount m \<noteq> 0"
proof -
  obtain m where m: "m \<in> set (inorder t)" "m_addr m = p"
    using assms by (auto simp: refs_but_def)
  then have "unat (refcount m) = count H p" using assms(1) by (auto simp: refs_but_def)
  then have "refcount m \<noteq> 0" using assms(2) by (metis count_eq_zero_iff unat_0)
  with m refs_deref [OF assms(1) m(1)] show ?thesis by auto
qed

section \<open>Every operation keeps the invariant\<close>

lemma inorder_touch: "inorder (touch p f t) = map (\<lambda>m. if m_addr m = p then f m else m) (inorder t)"
  by (simp add: touch_def)

lemma map_addr_touch:
  "(\<And>m. m_addr (f m) = m_addr m) \<Longrightarrow> map m_addr (inorder (touch p f t)) = map m_addr (inorder t)"
  by (auto simp: inorder_touch)

lemma int_tree_touch:
  "(\<And>m. low (f m) = low m) \<Longrightarrow> (\<And>m. high (f m) = high m) \<Longrightarrow> int_tree (touch p f t) = int_tree t"
  unfolding touch_def by (rule int_tree_map) auto

lemma refs_touch:
  assumes "refs_ok n t H" and "\<And>m. low (f m) = low m" "\<And>m. high (f m) = high m" "\<And>m. m_addr (f m) = m_addr m"
    and "\<And>m. m \<in> set (inorder t) \<Longrightarrow> m_addr m = p \<Longrightarrow>
      unat (refcount (f m)) = count K p \<and> (p \<notin> X \<longrightarrow> remove (f m) \<longrightarrow> refcount (f m) \<noteq> 0)"
    and "\<And>q. q \<noteq> p \<Longrightarrow> count K q = count H q" and "set_mset K \<subseteq> m_addr ` set (inorder t)"
  shows "refs_but X n (touch p f t) K"
proof -
  have "m_addr ` set (inorder (touch p f t)) = m_addr ` set (inorder t)"
    using map_addr_touch [of f p t, OF assms(4)] by (metis list.set_map)
  moreover have "\<forall>m\<in>set (inorder (touch p f t)). m_addr m < n \<and> unat (refcount m) = count K (m_addr m) \<and>
      (m_addr m \<notin> X \<longrightarrow> remove m \<longrightarrow> refcount m \<noteq> 0)"
    using assms(1,4,5,6) by (auto simp: refs_but_def inorder_touch)
  ultimately show ?thesis
    using assms(1,7) int_tree_touch [of f p t, OF assms(2,3)] map_addr_touch [of f p t, OF assms(4)]
    by (simp add: refs_but_def)
qed

lemma search_mem: "mmio_search t a l = Some m \<Longrightarrow> m \<in> set (inorder t)"
  by (auto simp: mmio_search_def rb_int_search_range_def dest!: search_single_mem split: if_splits option.splits)

lemma get_ok:
  assumes "bus_ok (b, H)" and "mmio_get r a l b = (Some p, b')" and "count (H r) p < 2 ^ 32 - 1"
  shows "bus_ok (b', H(r := add_mset p (H r)))"
proof -
  obtain m where m: "mmio_search (tree_of r b) a (ucast l) = Some m" "p = m_addr m"
    "b' = set_tree r (touch p (\<lambda>m. m\<lparr>refcount := refcount m + 1\<rparr>) (tree_of r b)) b"
    using assms(2) by (auto simp: mmio_get_def split: option.splits)
  note ok = bus_okD [OF assms(1), of r] and mem = search_mem [OF m(1)]
  have "refs_ok (heap_next b) (touch p (\<lambda>m. m\<lparr>refcount := refcount m + 1\<rparr>) (tree_of r b)) (add_mset p (H r))"
  proof (rule refs_touch [OF ok])
    fix k assume k: "k \<in> set (inorder (tree_of r b))" "m_addr k = p"
    then have "unat (refcount k) = count (H r) p" using ok by (auto simp: refs_but_def)
    then have u: "unat (refcount k + 1) = Suc (count (H r) p)"
      using assms(3) by (subst unat_plus_if_size) (simp add: word_size)
    then have "refcount k + 1 \<noteq> 0" by (metis nat.discI unat_0)
    with u show "unat (refcount (k\<lparr>refcount := refcount k + 1\<rparr>)) = count (add_mset p (H r)) p \<and>
      (p \<notin> {} \<longrightarrow> remove (k\<lparr>refcount := refcount k + 1\<rparr>) \<longrightarrow> refcount (k\<lparr>refcount := refcount k + 1\<rparr>) \<noteq> 0)"
      by simp
  qed (use ok mem m(2) in \<open>auto simp: refs_but_def\<close>)
  then show ?thesis
    using assms(1) m(3) by (simp add: bus_ok_upd)
qed

text \<open>Freeing a node that nothing references.\<close>

lemma erase_refs_ok:
  assumes ok: "refs_but {m_addr m} n t H" and mem: "m \<in> set (inorder t)" and "refcount m = 0"
  shows "\<exists>u. rb_int_erase (\<lambda>k. m_addr k = m_addr m) t = Inr u \<and> refs_ok n u H \<and>
    mset (inorder t) = add_mset m (mset (inorder u))"
proof -
  obtain u k where u: "rb_int_erase (\<lambda>k. m_addr k = m_addr m) t = Inr u" "int_tree u"
    "m_addr k = m_addr m" "mset (inorder t) = add_mset k (mset (inorder u))"
    using rbi.del_one [of t m "\<lambda>k. m_addr k = m_addr m"] ok mem by (auto simp: refs_but_def)
  have "k \<in> set (inorder t)" using u(4) by (metis set_mset_mset union_single_eq_member)
  then have k: "k = m" using u(3) ok mem by (auto simp: refs_but_def distinct_map dest: inj_onD)
  have set: "set (inorder t) = insert m (set (inorder u))"
    using u(4) k by (metis set_mset_add_mset_insert set_mset_mset)
  have "distinct (map m_addr (inorder t))" using ok by (simp add: refs_but_def)
  then have d: "distinct (map m_addr (inorder u))" "m_addr m \<notin> m_addr ` set (inorder u)"
    using u(4) k by (metis mset_map distinct.simps(2) image_mset_add_mset list.set_map mset.simps(2) mset_eq_imp_distinct_iff)+
  have "m_addr m \<notin># H"
    using assms by (auto simp: refs_but_def not_in_iff)
  moreover have "\<forall>k\<in>set (inorder u). m_addr k \<noteq> m_addr m"
    using d(2) by (metis image_eqI)
  ultimately have "refs_ok n u H"
    using ok u(2) d(1) set by (auto simp: refs_but_def)
  with u k show ?thesis by blast
qed

lemma refs_but_weaken: "refs_but X n t H \<Longrightarrow> X \<subseteq> Y \<Longrightarrow> refs_but Y n t H"
  by (auto simp: refs_but_def)

lemma deregister_ok:
  assumes "refs_but {m_addr m} (heap_next b) (tree_of r b) h" and "m \<in> set (inorder (tree_of r b))" and "refcount m = 0"
  shows "\<exists>t. mmio_deregister r (m_addr m) b =
      Inr (set_tree r t (b\<lparr>ioctls := ioctls b @ [Unregister_coalesced (low m) 1]\<rparr>)) \<and>
    refs_ok (heap_next b) t h \<and> mset (inorder (tree_of r b)) = add_mset m (mset (inorder t))"
  using erase_refs_ok [OF assms] refs_deref [OF assms(1,2)] by (auto simp: mmio_deregister_def)

lemma put_ok:
  assumes "bus_ok (b, H)" and "p \<in># H r"
  shows "\<exists>b'. mmio_put r p b = Inr b' \<and> bus_ok (b', H(r := H r - {#p#}))"
proof -
  note ok = bus_okD [OF assms(1), of r]
  obtain m where m: "m \<in> set (inorder (tree_of r b))" "m_addr m = p" "deref p (tree_of r b) = Inr m" "refcount m \<noteq> 0"
    using held_deref [OF ok assms(2)] by blast
  define rc where "rc = refcount m - 1"
  define t where "t = touch p (\<lambda>m. m\<lparr>refcount := rc\<rparr>) (tree_of r b)"
  have "unat (refcount m) = count (H r) p" using ok m(1,2) by (auto simp: refs_but_def)
  then have rc: "unat rc = count (H r - {#p#}) p"
    using m(4) by (simp add: rc_def unat_minus_one)
  have same: "k = m" if "k \<in> set (inorder (tree_of r b))" "m_addr k = p" for k
    using that m(1,2) ok by (auto simp: refs_but_def distinct_map dest: inj_onD)
  have t: "refs_but X (heap_next b) t (H r - {#p#})" if "p \<notin> X \<longrightarrow> remove m \<longrightarrow> rc \<noteq> 0" for X
    unfolding t_def
    by (rule refs_touch [OF ok]) (use that rc same ok in \<open>auto simp: refs_but_def dest: in_diffD\<close>)
  have put: "mmio_put r p b =
      (if remove m \<and> rc = 0 then mmio_deregister r p (set_tree r t b) else Inr (set_tree r t b))"
    by (simp only: mmio_put_def m(3) rbind_Inr Let_def rc_def t_def)
  show ?thesis
  proof (cases "remove m \<and> rc = 0")
    case True
    let ?m = "m\<lparr>refcount := rc\<rparr>"
    have "?m \<in> set (inorder t)" using m(1,2) by (auto simp: t_def inorder_touch image_iff)
    then obtain u where u: "mmio_deregister r p (set_tree r t b) =
        Inr (set_tree r u ((set_tree r t b)\<lparr>ioctls := ioctls (set_tree r t b) @ [Unregister_coalesced (low ?m) 1]\<rparr>))"
      "refs_ok (heap_next b) u (H r - {#p#})"
      using deregister_ok [of ?m "set_tree r t b" r "H r - {#p#}"] t [of "{p}"] True m(2) by auto
    have "bus_ok (set_tree r u (set_tree r t b), H(r := H r - {#p#}))"
      using assms(1) u(2) by (simp add: bus_ok_def)
    then show ?thesis
      using put True u(1) by simp
  next
    case False
    then have "bus_ok (set_tree r t b, H(r := H r - {#p#}))"
      using t [of "{}"] assms(1) by (intro bus_ok_upd) auto
    with False put show ?thesis by auto
  qed
qed

text \<open>Registration: what it does on each of its paths.\<close>

definition range_free :: "u64 \<Rightarrow> u64 \<Rightarrow> mmio_mapping rbt \<Rightarrow> bool" where
  "range_free lo hi t \<longleftrightarrow> (\<forall>m\<in>set (inorder t). hi \<le> low m \<or> high m \<le> lo)"

lemma insert_refs_ok:
  assumes ok: "refs_ok n t H" and i: "low i \<le> high i" "m_addr i = n" "refcount i = 0" "\<not> remove i"
    and free: "range_free (low i) (high i) t"
  shows "\<exists>u. rb_int_insert t i = Inr (Some u) \<and> refs_ok (Suc n) u H \<and>
    mset (inorder u) = add_mset i (mset (inorder t))"
proof -
  obtain u where u: "rb_int_insert t i = Inr (Some u)" "int_tree u" "mset (inorder u) = add_mset i (mset (inorder t))"
    using rbi.ins_free [of t i] ok i(1) free by (auto simp: refs_but_def range_free_def)
  have set: "set (inorder u) = insert i (set (inorder t))"
    using u(3) by (metis set_mset_add_mset_insert set_mset_mset)
  have nin: "n \<notin> m_addr ` set (inorder t)" "n \<notin># H" using ok by (auto simp: refs_but_def)
  then have "distinct (m_addr i # map m_addr (inorder t))" using ok i(2) by (simp add: refs_but_def)
  then have "distinct (map m_addr (inorder u))"
    using u(3) by (metis mset_map image_mset_add_mset mset.simps(2) mset_eq_imp_distinct_iff)
  then have "refs_ok (Suc n) u H"
    using ok u(2) set i nin by (auto simp: refs_but_def less_Suc_eq not_in_iff)
  with u show ?thesis by blast
qed

lemma no_wrap_le: "unat a + unat l < 2 ^ 64 \<Longrightarrow> (a :: u64) \<le> a + l"
  by (simp add: word_le_nat_alt unat_plus_if')

definition new_mapping :: "u64 \<Rightarrow> u64 \<Rightarrow> nat \<Rightarrow> nat \<Rightarrow> nat \<Rightarrow> mmio_mapping" where
  "new_mapping lo hi p fn arg = \<lparr> low = lo, high = hi, m_addr = p, mmio_fn = fn, ptr = arg, refcount = 0, remove = False \<rparr>"

lemma register_free:
  assumes ok: "bus_ok (b, H)" and wrap: "unat a + unat l < 2 ^ 64" and err: "err = 0"
    and free: "range_free a (a + l) (tree_of (trap_root flags) b)"
  shows "\<exists>b'. kvm_register_iotrap True err a l fn arg flags b = Inr (0, b') \<and> bus_ok (b', H) \<and>
    mset (inorder (tree_of (trap_root flags) b')) =
      add_mset (new_mapping a (a + l) (heap_next b) fn arg) (mset (inorder (tree_of (trap_root flags) b))) \<and>
    rb_int_insert (tree_of (trap_root flags) b) (new_mapping a (a + l) (heap_next b) fn arg) =
      Inr (Some (tree_of (trap_root flags) b'))"
proof -
  let ?r = "trap_root flags" and ?i = "new_mapping a (a + l) (heap_next b) fn arg"
  obtain u where u: "rb_int_insert (tree_of ?r b) ?i = Inr (Some u)" "refs_ok (Suc (heap_next b)) u (H ?r)"
    "mset (inorder u) = add_mset ?i (mset (inorder (tree_of ?r b)))"
    using insert_refs_ok [OF bus_okD [OF ok, of ?r], of ?i] free no_wrap_le [OF wrap]
    by (auto simp: new_mapping_def)
  have "bus_ok (set_tree ?r u (b\<lparr>heap_next := heap_next b + 1\<rparr>), H)"
    using bus_ok_upd [OF bus_ok_fresh [OF ok], of u "H ?r" ?r] u(2) by simp
  then show ?thesis
    using u err by (auto simp: kvm_register_iotrap_def Let_def new_mapping_def [symmetric])
qed

lemma register_clash:
  assumes ok: "bus_ok (b, H)" and wrap: "unat a + unat l < 2 ^ 64" and err: "err = 0"
    and clash: "\<not> range_free a (a + l) (tree_of (trap_root flags) b)"
  shows "\<exists>b'. kvm_register_iotrap True err a l fn arg flags b = Inr (- EEXIST, b') \<and> bus_ok (b', H) \<and>
    (\<forall>r. tree_of r b' = tree_of r b)"
proof -
  let ?i = "new_mapping a (a + l) (heap_next b) fn arg"
  have "rb_int_insert (tree_of (trap_root flags) b) ?i = Inr None"
    using rbi.ins_clash [of "tree_of (trap_root flags) b" ?i] bus_okD [OF ok, of "trap_root flags"]
      clash no_wrap_le [OF wrap] by (auto simp: refs_but_def range_free_def new_mapping_def)
  then show ?thesis
    using err bus_ok_fresh [OF ok] by (auto simp: kvm_register_iotrap_def Let_def new_mapping_def [symmetric])
qed

lemma register_fails:
  assumes ok: "bus_ok (b, H)" and fail: "\<not> mem \<or> err \<noteq> 0 \<and> trap_is_mmio flags \<and> flag flags IOTRAP_COALESCE"
  shows "\<exists>b' e. kvm_register_iotrap mem err a l fn arg flags b = Inr (e, b') \<and> e < 0 \<and> bus_ok (b', H) \<and>
    (\<forall>r. tree_of r b' = tree_of r b)"
  using fail bus_ok_fresh [OF ok] ok by (auto simp: kvm_register_iotrap_def Let_def)

lemma register_err_irrelevant:
  "\<not> (trap_is_mmio flags \<and> flag flags IOTRAP_COALESCE) \<Longrightarrow>
   kvm_register_iotrap mem err a l fn arg flags b = kvm_register_iotrap mem 0 a l fn arg flags b"
  by (auto simp: kvm_register_iotrap_def Let_def)

lemma register_ok:
  assumes "bus_ok (b, H)" and "unat a + unat l < 2 ^ 64"
  shows "\<exists>e b'. kvm_register_iotrap mem err a l fn arg flags b = Inr (e, b') \<and> bus_ok (b', H)"
proof (cases "\<not> mem \<or> err \<noteq> 0 \<and> trap_is_mmio flags \<and> flag flags IOTRAP_COALESCE")
  case True
  from register_fails [OF assms(1) this] show ?thesis by blast
next
  case False
  then have "kvm_register_iotrap mem err a l fn arg flags b = kvm_register_iotrap True 0 a l fn arg flags b"
    using register_err_irrelevant [of flags mem err a l fn arg b] by (cases "err = 0") auto
  then show ?thesis
    using register_free [OF assms refl, of flags fn arg] register_clash [OF assms refl, of flags fn arg] by metis
qed

lemma deregister_iotrap_ok:
  assumes ok: "bus_ok (b, H)"
  shows "\<exists>e b'. kvm_deregister_iotrap a flags b = Inr (e, b') \<and> bus_ok (b', H)"
proof (cases "rb_int_search_single (tree_of (trap_root flags) b) a")
  case None
  with ok show ?thesis by (auto simp: kvm_deregister_iotrap_def)
next
  case (Some m)
  let ?r = "trap_root flags"
  note rok = bus_okD [OF ok, of ?r]
  have mem: "m \<in> set (inorder (tree_of ?r b))" using search_single_mem [OF Some] by simp
  show ?thesis
  proof (cases "refcount m = 0")
    case True
    obtain t where t: "mmio_deregister ?r (m_addr m) b =
        Inr (set_tree ?r t (b\<lparr>ioctls := ioctls b @ [Unregister_coalesced (low m) 1]\<rparr>))"
      "refs_ok (heap_next b) t (H ?r)"
      using deregister_ok [of m b ?r "H ?r"] refs_but_weaken [OF rok] mem True by auto
    with Some True show ?thesis
      using bus_ok_upd [OF ok t(2), of ?r] by (auto simp: kvm_deregister_iotrap_def)
  next
    case False
    have same: "k = m" if "k \<in> set (inorder (tree_of ?r b))" "m_addr k = m_addr m" for k
      using that mem rok by (auto simp: refs_but_def distinct_map dest: inj_onD)
    have "refs_ok (heap_next b) (touch (m_addr m) (\<lambda>m. m\<lparr>remove := True\<rparr>) (tree_of ?r b)) (H ?r)"
      by (rule refs_touch [OF rok]) (use rok mem False same in \<open>auto simp: refs_but_def\<close>)
    with Some False show ?thesis
      using bus_ok_upd [OF ok, of _ "H ?r" ?r] by (auto simp: kvm_deregister_iotrap_def)
  qed
qed

section \<open>Interleavings\<close>

text \<open>
  The lock makes each of these operations atomic; the threads interleave them freely. The
  state is the bus with the references that are held. A count is a 32-bit number, and a
  reference is only taken while fewer than \<open>2 ^ 32 - 1\<close> are held: a thread holds one at a time.
  Ranges are registered below the end of the address space.
\<close>

inductive bus_step :: "mmio_bus \<times> (root \<Rightarrow> nat multiset) \<Rightarrow> mmio_bus \<times> (root \<Rightarrow> nat multiset) \<Rightarrow> bool" where
  get_hit: "mmio_get r a l b = (Some p, b') \<Longrightarrow> count (H r) p < 2 ^ 32 - 1 \<Longrightarrow>
     bus_step (b, H) (b', H(r := add_mset p (H r)))"
| put: "p \<in># H r \<Longrightarrow> mmio_put r p b = Inr b' \<Longrightarrow> bus_step (b, H) (b', H(r := H r - {#p#}))"
| register: "unat a + unat l < 2 ^ 64 \<Longrightarrow>
     kvm_register_iotrap mem err a l fn arg flags b = Inr (e, b') \<Longrightarrow> bus_step (b, H) (b', H)"
| deregister: "kvm_deregister_iotrap a flags b = Inr (e, b') \<Longrightarrow> bus_step (b, H) (b', H)"

inductive_cases bus_stepE [elim]: "bus_step s s'"

lemma bus_step_ok: "bus_step s s' \<Longrightarrow> bus_ok s \<Longrightarrow> bus_ok s'"
proof (induction rule: bus_step.induct)
  case (get_hit r a l b p b' H)
  then show ?case by (intro get_ok)
next
  case (put p H r b b')
  then show ?case using put_ok [of b H p r] by auto
next
  case (register a l mem err fn arg flags b e b' H)
  then show ?case using register_ok [of b H a l mem err fn arg flags] by auto
next
  case (deregister a flags b e b' H)
  then show ?case using deregister_iotrap_ok [of b H a flags] by auto
qed

definition bus_reachable :: "mmio_bus \<times> (root \<Rightarrow> nat multiset) \<Rightarrow> bool" where
  "bus_reachable s \<longleftrightarrow> bus_step\<^sup>*\<^sup>* (bus_init, \<lambda>_. {#}) s"

lemma bus_reachable_ok: "bus_reachable s \<Longrightarrow> bus_ok s"
  unfolding bus_reachable_def
  by (induction rule: rtranclp_induct) (auto intro: bus_ok_init bus_step_ok)

text \<open>A lookup finds exactly the mapping that holds the whole access.\<close>

lemma search_iff:
  assumes "int_tree t"
  shows "mmio_search t a l = Some m \<longleftrightarrow>
    m \<in> set (inorder t) \<and> low m \<le> a \<and> a < a + l \<and> a + l \<le> high m"
proof -
  have "mmio_search t a l = Some m \<longleftrightarrow>
      a < a + l \<and> rb_int_search_single t a = Some m \<and> a + l \<le> high m"
    by (cases "rb_int_search_single t a"; cases "a + l \<le> a")
      (auto simp: mmio_search_def rb_int_search_range_def split: if_splits)
  then show ?thesis
    using rbi.find_iff [OF assms, of a m] less_le_trans [of a "a + l" "high m"] by auto
qed

text \<open>
  A handler that leaves the references of the other threads alone, whatever it registers or
  deregisters.
\<close>

definition keeps_bus :: "'w handler \<Rightarrow> bool" where
  "keeps_bus h \<longleftrightarrow> (\<forall>m a data wr b w H. bus_ok (b, H) \<longrightarrow> bus_ok (fst (snd (h m a data wr (b, w))), H))"

lemma io_loop_ok:
  assumes "keeps_bus h"
  shows "bus_ok (b, H) \<Longrightarrow> p \<in># H Pio_tree \<Longrightarrow>
    \<exists>d b' w'. io_loop h p port sz wr n data (b, w) = Inr (d, b', w') \<and> bus_ok (b', H)"
proof (induction n arbitrary: data b w)
  case 0
  then show ?case by simp
next
  case (Suc n)
  obtain m where m: "deref p (pio_tree b) = Inr m"
    using held_deref [OF bus_okD [OF Suc.prems(1), of Pio_tree] Suc.prems(2)] by auto
  obtain d b1 w1 where h: "h m port (take sz data) wr (b, w) = (d, b1, w1)" by (metis prod_cases3)
  then have "bus_ok (b1, H)"
    using assms Suc.prems(1) unfolding keeps_bus_def by (metis fst_conv snd_conv)
  then obtain d2 b2 w2 where
    "io_loop h p port sz wr n (drop sz data) (b1, w1) = Inr (d2, b2, w2)" "bus_ok (b2, H)"
    using Suc.IH Suc.prems(2) by blast
  with m h show ?case by simp
qed

lemma get_hit_ok:
  assumes "bus_ok (b, H)" and "\<And>p. count (H r) p < 2 ^ 32 - 1" and "mmio_get r a l b = (Some p, b')"
  shows "bus_ok (b', H(r := add_mset p (H r)))" and "\<exists>m. deref p (tree_of r b') = Inr m"
proof -
  show ok: "bus_ok (b', H(r := add_mset p (H r)))"
    using get_ok [OF assms(1,3,2)] .
  show "\<exists>m. deref p (tree_of r b') = Inr m"
    using held_deref [OF bus_okD [OF ok, of r]] by auto
qed

lemma get_miss_same: "mmio_get r a l b = (None, b') \<Longrightarrow> b' = b"
  by (auto simp: mmio_get_def split: option.splits)

lemma put_back_ok:
  assumes "bus_ok (b, H(r := add_mset p (H r)))"
  shows "\<exists>b'. mmio_put r p b = Inr b' \<and> bus_ok (b', H)"
  using put_ok [OF assms, of p r] by simp

lemma emulate_mmio_ok:
  assumes "bus_ok (b, H)" and "\<And>p. count (H Mmio_tree) p < 2 ^ 32 - 1" and "keeps_bus h"
  shows "\<exists>d b' w'. kvm_emulate_mmio h a data l wr (b, w) = Inr (d, b', w') \<and> bus_ok (b', H)"
proof (cases "mmio_get Mmio_tree a l b")
  case (Pair po b1)
  show ?thesis
  proof (cases po)
    case None
    with Pair get_miss_same [of Mmio_tree a l b b1] assms(1) show ?thesis by (auto simp: kvm_emulate_mmio_def)
  next
    case (Some p)
    let ?H = "H(Mmio_tree := add_mset p (H Mmio_tree))"
    note g = get_hit_ok [OF assms(1,2) Pair [unfolded Some]]
    then obtain m where m: "deref p (mmio_tree b1) = Inr m" by auto
    obtain d b2 w2 where h: "h m a data wr (b1, w) = (d, b2, w2)" by (metis prod_cases3)
    then have "bus_ok (b2, ?H)"
      using assms(3) g(1) unfolding keeps_bus_def by (metis fst_conv snd_conv)
    then obtain b3 where "mmio_put Mmio_tree p b2 = Inr b3" "bus_ok (b3, H)"
      using put_back_ok by blast
    with m h Pair Some show ?thesis by (auto simp: kvm_emulate_mmio_def)
  qed
qed

lemma emulate_io_ok:
  assumes "bus_ok (b, H)" and "\<And>p. count (H Pio_tree) p < 2 ^ 32 - 1" and "keeps_bus h"
  shows "\<exists>ok d b' w'. kvm_emulate_io dbg h port data wr sz n (b, w) = Inr (ok, d, b', w') \<and> bus_ok (b', H)"
proof (cases "mmio_get Pio_tree (ucast port) sz b")
  case (Pair po b1)
  show ?thesis
  proof (cases po)
    case None
    with Pair get_miss_same [of Pio_tree "ucast port" sz b b1] assms(1) show ?thesis
      by (auto simp: kvm_emulate_io_def)
  next
    case (Some p)
    let ?H = "H(Pio_tree := add_mset p (H Pio_tree))"
    note g = get_hit_ok [OF assms(1,2) Pair [unfolded Some]]
    obtain d b2 w2 where l: "io_loop h p (ucast port) (unat sz) wr (unat n) data (b1, w) = Inr (d, b2, w2)"
      "bus_ok (b2, ?H)"
      using io_loop_ok [OF assms(3) g(1), of p "ucast port" "unat sz" wr "unat n" data w] by auto
    then obtain b3 where "mmio_put Pio_tree p b2 = Inr b3" "bus_ok (b3, H)"
      using put_back_ok by blast
    with l Pair Some show ?thesis by (auto simp: kvm_emulate_io_def)
  qed
qed

text \<open>A mapping that is deregistered while one reference is held goes with that reference.\<close>

lemma search_touch:
  assumes "\<And>m. low (f m) = low m" and "\<And>m. high (f m) = high m"
  shows "rb_int_search_single (touch p f t) a =
    map_option (\<lambda>m. if m_addr m = p then f m else m) (rb_int_search_single t a)"
  unfolding touch_def by (rule search_map) (auto simp: assms)

lemma put_last_frees:
  assumes ok: "bus_ok (b, H)" and s: "rb_int_search_single (tree_of r b) a = Some m"
    and rm: "remove m" and one: "count (H r) (m_addr m) = 1"
  shows "\<exists>b'. mmio_put r (m_addr m) b = Inr b' \<and> rb_int_search_single (tree_of r b') a = None"
proof -
  note rok = bus_okD [OF ok, of r]
  define t where "t = touch (m_addr m) (\<lambda>m. m\<lparr>refcount := 0\<rparr>) (tree_of r b)"
  have mem: "m \<in> set (inorder (tree_of r b))" using search_single_mem [OF s] by simp
  then have "unat (refcount m) = unat (1 :: u32)"
    using one rok by (auto simp: refs_but_def)
  then have rc: "refcount m = 1"
    by (simp only: word_unat_eq_iff)
  let ?m = "m\<lparr>refcount := 0\<rparr>"
  have addr: "map m_addr (inorder t) = map m_addr (inorder (tree_of r b))"
    unfolding t_def by (rule map_addr_touch) simp
  have it: "int_tree t" "distinct (map m_addr (inorder t))"
    using rok addr by (simp_all add: t_def int_tree_touch refs_but_def)
  have s': "rb_int_search_single t a = Some ?m"
    using s by (simp add: t_def search_touch)
  have m': "?m \<in> set (inorder t)" using search_single_mem [OF s'] by simp
  have inj: "k = ?m" if "k \<in> set (inorder t)" "m_addr k = m_addr m" for k
    using that m' it(2) inj_onD [of m_addr "set (inorder t)" k ?m] by (simp add: distinct_map)
  have "distinct (inorder t)" using it(2) by (simp add: distinct_map)
  then have one': "count (mset (inorder t)) ?m = 1"
    using m' by (simp add: distinct_count_atmost_1)
  have only: "m_addr n = m_addr m \<longleftrightarrow> n = ?m" if "n \<in># mset (inorder t)" for n
    using that inj [of n] by auto
  obtain u where u: "rb_int_erase (\<lambda>k. m_addr k = m_addr m) t = Inr u"
    "\<forall>q. rb_int_search_single u q = (if rb_int_search_single t q = Some ?m then None else rb_int_search_single t q)"
    using rbi.find_after_delete [OF it(1) s' only one'] by blast
  have "deref (m_addr m) t = Inr ?m"
    using deref_ok [OF it(2) _ m'] it(1) by (simp add: int_tree_def)
  with u s' rc rm refs_deref [OF rok mem] show ?thesis
    by (simp add: mmio_put_def mmio_deregister_def t_def [symmetric] Let_def)
qed

section \<open>Properties\<close>

text \<open>
  C1. Whatever way the threads interleave lookups, returns of references, registrations and
  deregistrations, a reference that a thread holds is to a mapping that is still in its tree:
  the handler it runs and the return of the reference read no freed memory, and no
  registration or deregistration fails in the tree code. Every reachable bus satisfies the
  invariant: balanced trees of disjoint ranges with exact reference counts.
\<close>

theorem mmio_no_use_after_free:
  assumes "bus_reachable (b, H)"
  shows "bus_ok (b, H) \<and>
    (p \<in># H r \<longrightarrow> (\<exists>m b'. deref p (tree_of r b) = Inr m \<and> m_addr m = p \<and> mmio_put r p b = Inr b')) \<and>
    (unat a + unat l < 2 ^ 64 \<longrightarrow> (\<exists>e b'. kvm_register_iotrap mem err a l fn arg flags b = Inr (e, b'))) \<and>
    (\<exists>e b'. kvm_deregister_iotrap a flags b = Inr (e, b'))"
proof -
  have ok: "bus_ok (b, H)" by (rule bus_reachable_ok [OF assms])
  show ?thesis
    using ok held_deref [OF bus_okD [OF ok, of r], of p] put_ok [OF ok, of p r]
      register_ok [OF ok, of a l mem err fn arg flags] deregister_iotrap_ok [OF ok, of a flags] by blast
qed

definition sample_bus :: mmio_bus where
  "sample_bus = \<lparr> mmio_tree = Node Black Leaf (new_mapping 0x1000 0x1100 0 7 1) Leaf,
     pio_tree = Leaf, heap_next = 1, ioctls = [] \<rparr>"

definition sample_bus_held :: mmio_bus where
  "sample_bus_held = \<lparr> mmio_tree = Node Black Leaf ((new_mapping 0x1000 0x1100 0 7 1)\<lparr>refcount := 1\<rparr>) Leaf,
     pio_tree = Leaf, heap_next = 1, ioctls = [] \<rparr>"

lemma sample_bus_reachable: "bus_reachable (sample_bus, \<lambda>_. {#})"
proof -
  have "kvm_register_iotrap True 0 0x1000 0x100 7 1 1 bus_init = Inr (0, sample_bus)"
    by (simp add: kvm_register_iotrap_def Let_def trap_is_mmio_def trap_root_def flag_def bus_init_def
        rb_int_insert_def sample_bus_def new_mapping_def)
  then have "bus_step (bus_init, \<lambda>_. {#}) (sample_bus, \<lambda>_. {#})"
    by (rule bus_step.register [rotated]) simp
  then show ?thesis by (simp add: bus_reachable_def)
qed

lemma sample_bus_held_reachable:
  "bus_reachable (sample_bus_held, (\<lambda>_. {#})(Mmio_tree := {#0#}))"
proof -
  have "mmio_get Mmio_tree 0x1010 4 sample_bus = (Some 0, sample_bus_held)"
    by (simp add: mmio_get_def mmio_search_def rb_int_search_range_def sample_bus_def sample_bus_held_def
        new_mapping_def touch_def)
  then have "bus_step (sample_bus, \<lambda>_. {#}) (sample_bus_held, (\<lambda>_. {#})(Mmio_tree := add_mset 0 {#}))"
    by (rule bus_step.get_hit) simp
  then show ?thesis
    using sample_bus_reachable unfolding bus_reachable_def by (rule rtranclp.rtrancl_into_rtrancl [rotated])
qed

theorem mmio_no_use_after_free_witness:
  "\<exists>m b'. deref 0 (mmio_tree sample_bus_held) = Inr m \<and> mmio_put Mmio_tree 0 sample_bus_held = Inr b'"
  using mmio_no_use_after_free [OF sample_bus_held_reachable, of 0 Mmio_tree 0 0 True 0 0 0 0] by auto

text \<open>
  C16. An access is routed to the one mapping that holds all of it: on every reachable bus,
  \<^verbatim>\<open>mmio_search\<close> returns a mapping exactly when it is registered, the access is not empty and does
  not wrap around, and the range of the mapping includes its first and its last byte; and
  no byte is in the ranges of two mappings.
\<close>

theorem mmio_routes_to_owner:
  assumes "bus_reachable (b, H)"
  shows "(mmio_search (tree_of r b) a l = Some m \<longleftrightarrow>
      m \<in> set (inorder (tree_of r b)) \<and> low m \<le> a \<and> a < a + l \<and> a + l \<le> high m) \<and>
    (m \<in> set (inorder (tree_of r b)) \<and> n \<in> set (inorder (tree_of r b)) \<and>
     low m \<le> x \<and> x < high m \<and> low n \<le> x \<and> x < high n \<longrightarrow> m = n)"
proof -
  have "int_tree (tree_of r b)"
    using bus_okD [OF bus_reachable_ok [OF assms], of r] by (simp add: refs_but_def)
  then show ?thesis
    using search_iff rbi.ranges_disjoint [of "tree_of r b" m n x] by auto
qed

theorem mmio_routes_to_owner_witness:
  "mmio_search (mmio_tree sample_bus) 0x10ff 1 = Some (new_mapping 0x1000 0x1100 0 7 1) \<and>
   mmio_search (mmio_tree sample_bus) 0x10ff 2 = None"
proof -
  note w = mmio_routes_to_owner [OF sample_bus_reachable, THEN conjunct1]
  have "mmio_search (tree_of Mmio_tree sample_bus) 0x10ff 1 = Some (new_mapping 0x1000 0x1100 0 7 1)"
    unfolding w by (simp add: sample_bus_def new_mapping_def)
  moreover have "mmio_search (tree_of Mmio_tree sample_bus) 0x10ff 2 \<noteq> Some m" for m
    unfolding w by (auto simp: sample_bus_def new_mapping_def)
  ultimately show ?thesis by auto
qed

text \<open>
  \<^verbatim>\<open>kvm_register_iotrap\<close> without resource failures answers 0 exactly when the range overlaps
  none that is registered in the same tree, and then every address of the range leads to the
  new handler and every other address where it led before; otherwise it answers
  \<^verbatim>\<open>-EEXIST\<close> and the trees do not change.
\<close>

theorem mmio_register_exact:
  assumes "bus_reachable (b, H)" and "unat a + unat l < 2 ^ 64"
  shows "\<exists>b'. kvm_register_iotrap True 0 a l fn arg flags b =
      Inr (if range_free a (a + l) (tree_of (trap_root flags) b) then 0 else - EEXIST, b') \<and>
    rb_int_search_single (tree_of (trap_root flags) b') x =
      (if range_free a (a + l) (tree_of (trap_root flags) b) \<and> a \<le> x \<and> x < a + l
       then Some (new_mapping a (a + l) (heap_next b) fn arg)
       else rb_int_search_single (tree_of (trap_root flags) b) x)"
proof (cases "range_free a (a + l) (tree_of (trap_root flags) b)")
  case True
  let ?i = "new_mapping a (a + l) (heap_next b) fn arg"
  note ok = bus_reachable_ok [OF assms(1)]
  obtain b' where b': "kvm_register_iotrap True 0 a l fn arg flags b = Inr (0, b')"
    "rb_int_insert (tree_of (trap_root flags) b) ?i = Inr (Some (tree_of (trap_root flags) b'))"
    using register_free [OF ok assms(2) refl True] by blast
  have "int_tree (tree_of (trap_root flags) b)" "low ?i = a" "high ?i = a + l" "low ?i \<le> high ?i"
    "\<forall>m. m \<in># mset (inorder (tree_of (trap_root flags) b)) \<longrightarrow> high ?i \<le> low m \<or> high m \<le> low ?i"
    using bus_okD [OF ok, of "trap_root flags"] no_wrap_le [OF assms(2)] True
    by (simp_all add: refs_but_def new_mapping_def range_free_def)
  with rbi.find_after_insert [OF this(1,4,5) b'(2), of x] b'(1) True show ?thesis by simp
next
  case False
  with register_clash [OF bus_reachable_ok [OF assms(1)] assms(2) refl False, of fn arg] show ?thesis by auto
qed

theorem mmio_register_exact_witness:
  "\<exists>b'. kvm_register_iotrap True 0 0x10f0 0x100 8 2 1 sample_bus = Inr (- EEXIST, b')"
  using mmio_register_exact [OF sample_bus_reachable, of "0x10f0" "0x100" 8 2 1]
  by (auto simp: trap_root_def trap_is_mmio_def range_free_def sample_bus_def new_mapping_def)

text \<open>
  A mapping that is deregistered while exactly one access is in progress stays in place,
  marked, for that access; the return of the reference then frees it, and its address leads
  nowhere.
\<close>

theorem mmio_deferred_removal:
  assumes "bus_reachable (b, H)" and "rb_int_search_single (tree_of (trap_root flags) b) a = Some m"
    and "count (H (trap_root flags)) (m_addr m) = 1"
  shows "\<exists>b1 b2. kvm_deregister_iotrap a flags b = Inr (True, b1) \<and>
    rb_int_search_single (tree_of (trap_root flags) b1) a = Some (m\<lparr>remove := True\<rparr>) \<and>
    mmio_put (trap_root flags) (m_addr m) b1 = Inr b2 \<and>
    rb_int_search_single (tree_of (trap_root flags) b2) a = None"
proof -
  let ?r = "trap_root flags"
  note ok = bus_reachable_ok [OF assms(1)]
  have "m \<in> set (inorder (tree_of ?r b))" using search_single_mem [OF assms(2)] by simp
  then have "unat (refcount m) = 1" using bus_okD [OF ok, of ?r] assms(3) by (auto simp: refs_but_def)
  then have ne: "refcount m \<noteq> 0" by auto
  let ?b1 = "set_tree ?r (touch (m_addr m) (\<lambda>m. m\<lparr>remove := True\<rparr>) (tree_of ?r b)) b"
  have d: "kvm_deregister_iotrap a flags b = Inr (True, ?b1)"
    using assms(2) ne by (simp add: kvm_deregister_iotrap_def)
  have s: "rb_int_search_single (tree_of ?r ?b1) a = Some (m\<lparr>remove := True\<rparr>)"
    using assms(2) by (simp add: search_touch)
  have "bus_ok (?b1, H)" using deregister_iotrap_ok [OF ok, of a flags] d by auto
  from put_last_frees [OF this s] assms(3) d s show ?thesis by auto
qed

theorem mmio_deferred_removal_witness:
  "\<exists>b1 b2. kvm_deregister_iotrap 0x1000 1 sample_bus_held = Inr (True, b1) \<and>
    mmio_put Mmio_tree 0 b1 = Inr b2 \<and> rb_int_search_single (mmio_tree b2) 0x1000 = None"
  using mmio_deferred_removal [OF sample_bus_held_reachable, of 1 "0x1000"
      "(new_mapping 0x1000 0x1100 0 7 1)\<lparr>refcount := 1\<rparr>"]
  by (auto simp: trap_root_def trap_is_mmio_def sample_bus_held_def new_mapping_def)

text \<open>
  The emulation of a memory or port access, with any handler that keeps the bus in order
  itself (it may register and deregister mappings, also its own), runs to its end without
  touching freed memory and returns every reference it took.
\<close>

theorem mmio_emulation_returns_reference:
  assumes "bus_reachable (b, H)" and "\<forall>r p. count (H r) p < 2 ^ 32 - 1" and "keeps_bus h"
  shows "(\<exists>d b' w'. kvm_emulate_mmio h a data l wr (b, w) = Inr (d, b', w') \<and> bus_ok (b', H)) \<and>
    (\<exists>ok d b' w'. kvm_emulate_io dbg h port data wr sz n (b, w) = Inr (ok, d, b', w') \<and> bus_ok (b', H))"
  using emulate_mmio_ok [OF bus_reachable_ok [OF assms(1)] _ assms(3)]
    emulate_io_ok [OF bus_reachable_ok [OF assms(1)] _ assms(3)] assms(2) by blast

theorem mmio_emulation_returns_reference_witness:
  "\<exists>d b' w'. kvm_emulate_mmio (\<lambda>m a d wr (b, w). (if wr then d else [0xff], b, Suc w)) 0x1010 [0] 1 False
     (sample_bus, 0 :: nat) = Inr (d, b', w') \<and> bus_ok (b', \<lambda>_. {#})"
  using mmio_emulation_returns_reference [OF sample_bus_reachable,
      of "\<lambda>m a d wr (b, w). (if wr then d else [0xff], b, Suc w)"]
  by (simp add: keeps_bus_def)

end
