(* ===== verification/Devices.thy ===== *)
theory Devices
  imports Rbtree
begin

text \<open>
  The registry of devices, \<^verbatim>\<open>init/devices.c\<close>: for each kind of bus a red-black tree of the devices,
  ordered by the number that registration gives them, and the counter of these numbers.
  Three values of \<^verbatim>\<open>enum device_bus_type\<close> are buses; any other number is refused.
\<close>

abbreviation (input) DEVICE_BUS_MAX :: nat where "DEVICE_BUS_MAX \<equiv> 3"
abbreviation (input) EINVAL :: int where "EINVAL \<equiv> 22"
abbreviation (input) INT_MAX :: int where "INT_MAX \<equiv> 2147483647"

record device_header =
  bus_type :: nat
  dev_data :: nat
  dev_num :: int

record device_bus =
  bus_root :: "device_header rbt"
  bus_dev_num :: int

type_synonym device_trees = "device_bus list"

definition device_trees_init :: device_trees where
  "device_trees_init = replicate DEVICE_BUS_MAX \<lparr> bus_root = Leaf, bus_dev_num = 0 \<rparr>"

definition dev_dir :: "int \<Rightarrow> device_header \<Rightarrow> dir" where
  "dev_dir n d = (if n < dev_num d then Lt else if dev_num d < n then Gt else Eq)"

text \<open>The result is the return value, the header with its number, and the trees.\<close>

definition device_register :: "device_header \<Rightarrow> device_trees \<Rightarrow> (int \<times> device_header \<times> device_trees) result" where
  "device_register dev ts =
     (if DEVICE_BUS_MAX \<le> bus_type dev then Inr (- EINVAL, dev, ts)
      else rbind (aget ts (bus_type dev)) (\<lambda>bus.
        if bus_dev_num bus = INT_MAX then Inl SignedOverflow
        else
          let dev' = dev\<lparr>dev_num := bus_dev_num bus\<rparr>;
              bus' = bus\<lparr>bus_dev_num := bus_dev_num bus + 1\<rparr>
          in (case rb_descend (dev_dir (dev_num dev')) (bus_root bus) [] of
              (Leaf, path) \<Rightarrow>
                rbind (rb_insert_color (Node Red Leaf dev' Leaf) path) (\<lambda>t.
                  Inr (0, dev', ts[bus_type dev := bus'\<lparr>bus_root := t\<rparr>]))
            | (Node _ _ _ _, _) \<Rightarrow> Inr (- 17, dev', ts[bus_type dev := bus']))))"

definition device_unregister :: "device_header \<Rightarrow> device_trees \<Rightarrow> device_trees result" where
  "device_unregister dev ts =
     rbind (aget ts (bus_type dev)) (\<lambda>bus.
     rbind (rb_remove (\<lambda>d. dev_num d = dev_num dev) (bus_root bus)) (\<lambda>t.
     Inr (ts[bus_type dev := bus\<lparr>bus_root := t\<rparr>])))"

fun find_dev :: "device_header rbt \<Rightarrow> u8 \<Rightarrow> device_header option" where
  "find_dev Leaf n = None"
| "find_dev (Node c l dev r) n =
     (if uint n < dev_num dev then find_dev l n
      else if uint n > dev_num dev then find_dev r n
      else Some dev)"

text \<open>\<open>Inl\<close> of a number is \<^verbatim>\<open>ERR_PTR\<close> of it, \<open>Inr None\<close> the null pointer.\<close>

definition device_find_dev :: "nat \<Rightarrow> u8 \<Rightarrow> device_trees \<Rightarrow> int + device_header option" where
  "device_find_dev bt n ts =
     (if DEVICE_BUS_MAX \<le> bt then Inl (- EINVAL) else Inr (find_dev (bus_root (ts ! bt)) n))"

definition device_first_dev :: "nat \<Rightarrow> device_trees \<Rightarrow> device_header option" where
  "device_first_dev bt ts = (if DEVICE_BUS_MAX \<le> bt then None else rb_first (bus_root (ts ! bt)))"

definition device_next_dev :: "device_header \<Rightarrow> device_trees \<Rightarrow> device_header option result" where
  "device_next_dev dev ts =
     (case rb_place (\<lambda>d. dev_num d = dev_num dev) (bus_root (ts ! bus_type dev)) [] of
        None \<Rightarrow> Inl NullDeref
      | Some (n, path) \<Rightarrow> rb_next n path)"

text \<open>
  The loop over the devices of a bus that the callers write with \<^verbatim>\<open>device__first_dev\<close> and
  \<^verbatim>\<open>device__next_dev\<close>, with fuel; it gives the devices in the order they are visited.
\<close>

fun device_walk :: "nat \<Rightarrow> device_header option \<Rightarrow> device_trees \<Rightarrow> device_header list option result" where
  "device_walk fuel None ts = Inr (Some [])"
| "device_walk 0 (Some d) ts = Inr None"
| "device_walk (Suc fuel) (Some d) ts =
     rbind (device_next_dev d ts) (\<lambda>n. rbind (device_walk fuel n ts) (\<lambda>ds. Inr (map_option (Cons d) ds)))"

section \<open>The invariant\<close>

definition dbus_ok :: "nat \<Rightarrow> device_bus \<Rightarrow> bool" where
  "dbus_ok bt bus \<longleftrightarrow> rb_tree (bus_root bus) \<and> 0 \<le> bus_dev_num bus \<and>
     sorted_wrt (\<lambda>d e. dev_num d < dev_num e) (inorder (bus_root bus)) \<and>
     (\<forall>d\<in>set (inorder (bus_root bus)). 0 \<le> dev_num d \<and> dev_num d < bus_dev_num bus \<and> bus_type d = bt)"

definition trees_ok :: "device_trees \<Rightarrow> bool" where
  "trees_ok ts \<longleftrightarrow> length ts = DEVICE_BUS_MAX \<and> (\<forall>bt < DEVICE_BUS_MAX. dbus_ok bt (ts ! bt))"

lemma trees_ok_init: "trees_ok device_trees_init"
  by (simp add: trees_ok_def device_trees_init_def dbus_ok_def rb_tree_def)

lemma trees_okD: "trees_ok ts \<Longrightarrow> bt < DEVICE_BUS_MAX \<Longrightarrow> dbus_ok bt (ts ! bt)"
  by (simp add: trees_ok_def)

lemma trees_ok_upd: "trees_ok ts \<Longrightarrow> dbus_ok bt bus \<Longrightarrow> trees_ok (ts[bt := bus])"
  by (cases "bt < length ts") (auto simp: trees_ok_def nth_list_update)

text \<open>A new number is larger than every one in the tree, so the search for its place runs to the right.\<close>

lemma descend_new:
  "(\<forall>d\<in>set (inorder t). dev_num d < n) \<Longrightarrow> right_of ps = [] \<Longrightarrow>
   \<exists>qs. rb_descend (dev_dir n) t ps = (Leaf, qs) \<and> right_of qs = []"
  by (induction "dev_dir n" t ps rule: rb_descend.induct) (auto simp: dev_dir_def)

lemma dev_register_ok:
  assumes "trees_ok ts" and "bus_type dev < DEVICE_BUS_MAX" and "bus_dev_num (ts ! bus_type dev) < INT_MAX"
  shows "\<exists>ts'. device_register dev ts = Inr (0, dev\<lparr>dev_num := bus_dev_num (ts ! bus_type dev)\<rparr>, ts') \<and>
    trees_ok ts' \<and>
    inorder (bus_root (ts' ! bus_type dev)) =
      inorder (bus_root (ts ! bus_type dev)) @ [dev\<lparr>dev_num := bus_dev_num (ts ! bus_type dev)\<rparr>] \<and>
    (\<forall>bt. bt \<noteq> bus_type dev \<longrightarrow> ts' ! bt = ts ! bt)"
proof -
  let ?bt = "bus_type dev"
  let ?b = "ts ! ?bt" and ?d = "dev\<lparr>dev_num := bus_dev_num (ts ! ?bt)\<rparr>"
  have b: "dbus_ok ?bt ?b" and len: "?bt < length ts"
    using assms by (auto simp: trees_ok_def)
  obtain qs where d: "rb_descend (dev_dir (bus_dev_num ?b)) (bus_root ?b) [] = (Leaf, qs)" "right_of qs = []"
    using descend_new [of "bus_root ?b" "bus_dev_num ?b" "[]"] b by (auto simp: dbus_ok_def)
  obtain t where t: "rb_insert_color (Node Red Leaf ?d Leaf) qs = Inr t" "rb_tree t"
    "inorder t = inorder (bus_root ?b) @ [?d]"
    using insert_rb_tree [OF _ d(1), of ?d] d(2) b by (auto simp: dbus_ok_def)
  let ?b' = "?b\<lparr>bus_dev_num := bus_dev_num ?b + 1, bus_root := t\<rparr>"
  have "dbus_ok ?bt ?b'"
    using b t(2,3) by (auto simp: dbus_ok_def sorted_wrt_append)
  then have "trees_ok (ts[?bt := ?b'])"
    by (rule trees_ok_upd [OF assms(1)])
  moreover have "device_register dev ts = Inr (0, ?d, ts[?bt := ?b'])"
    using assms(2,3) len d(1) t(1) by (simp add: device_register_def Let_def)
  ultimately show ?thesis
    using t(3) len by auto
qed

lemma dev_unregister_ok:
  assumes "trees_ok ts" and "dev \<in> set (inorder (bus_root (ts ! bt)))" and "bt < DEVICE_BUS_MAX"
  shows "\<exists>ts' xs ys. device_unregister dev ts = Inr ts' \<and> trees_ok ts' \<and>
    inorder (bus_root (ts ! bt)) = xs @ dev # ys \<and> inorder (bus_root (ts' ! bt)) = xs @ ys"
proof -
  let ?b = "ts ! bt"
  have b: "dbus_ok bt ?b" and len: "bt < length ts" using assms by (auto simp: trees_ok_def)
  then have bt: "bus_type dev = bt" using assms(2) by (auto simp: dbus_ok_def)
  obtain t xs x ys where t: "rb_remove (\<lambda>d. dev_num d = dev_num dev) (bus_root ?b) = Inr t" "rb_tree t"
    "dev_num x = dev_num dev" "inorder (bus_root ?b) = xs @ x # ys" "inorder t = xs @ ys"
    using remove_rb_tree [of "bus_root ?b" "\<lambda>d. dev_num d = dev_num dev"] b assms(2) by (auto simp: dbus_ok_def)
  have "x = dev"
    using b assms(2) t(3,4) by (auto simp: dbus_ok_def sorted_wrt_append)
  have "dbus_ok bt (?b\<lparr>bus_root := t\<rparr>)"
    using b t by (auto simp: dbus_ok_def sorted_wrt_append)
  then have "trees_ok (ts[bt := ?b\<lparr>bus_root := t\<rparr>])" by (rule trees_ok_upd [OF assms(1)])
  then show ?thesis
    using t \<open>x = dev\<close> len bt by (auto simp: device_unregister_def)
qed

section \<open>Lookup and iteration\<close>

lemma find_dev_iff:
  assumes "sorted_wrt (\<lambda>d e. dev_num d < dev_num e) (inorder t)"
  shows "find_dev t n = Some d \<longleftrightarrow> d \<in> set (inorder t) \<and> dev_num d = uint n"
  using assms by (induction t n rule: find_dev.induct) (auto simp: sorted_wrt_append)

lemma split_at_key:
  assumes "sorted_wrt (\<lambda>d e. dev_num d < dev_num e) zs" and "zs = xs @ d # ys" and "zs = as @ x # bs"
    and "dev_num x = dev_num d"
  shows "ys = bs"
proof -
  have mem: "x \<in> set zs" unfolding assms(3) by simp
  have "d \<in> set zs" unfolding assms(2) by simp
  have dist: "distinct (map dev_num zs)" using assms(1) by (induction zs) auto
  then have "x = d" using mem \<open>d \<in> set zs\<close> assms(4) by (simp add: distinct_map inj_on_def)
  have "distinct zs" using dist by (simp add: distinct_map)
  then have "d \<notin> set xs" "d \<notin> set ys" using assms(2) by auto
  then show ?thesis
    using assms(2,3) \<open>x = d\<close> append_Cons_eq_iff [of d xs ys as bs] by simp
qed

lemma next_dev_ok:
  assumes "dbus_ok bt (ts ! bt)" and "inorder (bus_root (ts ! bt)) = xs @ d # ys"
  shows "device_next_dev d ts = Inr (first_of ys)"
proof -
  let ?t = "bus_root (ts ! bt)" and ?P = "\<lambda>e. dev_num e = dev_num d"
  have rb: "rb_tree ?t" and bt: "bus_type d = bt" and srt: "sorted_wrt (\<lambda>d e. dev_num d < dev_num e) (inorder ?t)"
    using assms by (auto simp: dbus_ok_def)
  obtain v qs where pl: "rb_place ?P ?t [] = Some (v, qs)"
    using assms(2) place_None_iff [of ?P ?t "[]"] by (cases "rb_place ?P ?t []") auto
  then obtain c l x r where x: "v = Node c l x r" "dev_num x = dev_num d" "plug v qs = ?t"
    using place_rb [OF pl] rb by (auto simp: rb_tree_def)
  have "inorder ?t = (left_of qs @ inorder l) @ x # (inorder r @ right_of qs)"
    unfolding x(3) [symmetric] x(1) by simp
  then have "ys = inorder r @ right_of qs"
    using split_at_key [OF srt assms(2)] x(2) by blast
  then show ?thesis
    using pl x(1) bt by (simp add: device_next_dev_def rb_next_inorder del: rb_next.simps)
qed

lemma walk_ok:
  assumes "dbus_ok bt (ts ! bt)" and "inorder (bus_root (ts ! bt)) = xs @ ys" and "length ys \<le> fuel"
  shows "device_walk fuel (first_of ys) ts = Inr (Some ys)"
  using assms(2,3)
proof (induction ys arbitrary: xs fuel)
  case Nil
  then show ?case by simp
next
  case (Cons d ys)
  then obtain f where f: "fuel = Suc f" by (cases fuel) auto
  have "device_walk f (first_of ys) ts = Inr (Some ys)"
    using Cons.IH [of "xs @ [d]" f] Cons.prems f by simp
  then show ?case
    using next_dev_ok [OF assms(1) Cons.prems(1)] f by simp
qed

section \<open>Properties\<close>

text \<open>
  Registering a device on one of the three buses always succeeds while the counter is below
  \<^verbatim>\<open>INT_MAX\<close>: the device gets the next number of its bus, never one that is in use, a lookup
  by that number (below 256) finds it, lookups of other numbers and the other buses are
  unaffected, and the invariant of the registry is kept.
\<close>

theorem device_register_then_find:
  assumes "trees_ok ts" and "bus_type dev < DEVICE_BUS_MAX" and "bus_dev_num (ts ! bus_type dev) < INT_MAX"
  shows "\<exists>ts'. device_register dev ts = Inr (0, dev\<lparr>dev_num := bus_dev_num (ts ! bus_type dev)\<rparr>, ts') \<and>
    trees_ok ts' \<and>
    device_find_dev (bus_type dev) n ts' =
      (if uint n = bus_dev_num (ts ! bus_type dev)
       then Inr (Some (dev\<lparr>dev_num := bus_dev_num (ts ! bus_type dev)\<rparr>))
       else device_find_dev (bus_type dev) n ts) \<and>
    (bt \<noteq> bus_type dev \<longrightarrow> device_find_dev bt n ts' = device_find_dev bt n ts)"
proof -
  let ?bt = "bus_type dev" and ?k = "bus_dev_num (ts ! bus_type dev)"
  let ?d = "dev\<lparr>dev_num := ?k\<rparr>"
  obtain ts' where r: "device_register dev ts = Inr (0, ?d, ts')" "trees_ok ts'"
    "inorder (bus_root (ts' ! ?bt)) = inorder (bus_root (ts ! ?bt)) @ [?d]"
    "\<forall>bt. bt \<noteq> ?bt \<longrightarrow> ts' ! bt = ts ! bt"
    using dev_register_ok [OF assms] by blast
  have old: "dbus_ok ?bt (ts ! ?bt)" and new: "dbus_ok ?bt (ts' ! ?bt)"
    using trees_okD [OF _ assms(2)] assms(1) r(2) by auto
  have f: "find_dev (bus_root (ts' ! ?bt)) n = Some e \<longleftrightarrow>
      (if uint n = ?k then e = ?d else find_dev (bus_root (ts ! ?bt)) n = Some e)" for e
    using find_dev_iff [of "bus_root (ts' ! ?bt)" n e] find_dev_iff [of "bus_root (ts ! ?bt)" n e]
      old new r(3) by (auto simp: dbus_ok_def)
  have "find_dev (bus_root (ts' ! ?bt)) n = (if uint n = ?k then Some ?d else find_dev (bus_root (ts ! ?bt)) n)"
    using f by (metis not_Some_eq)
  then show ?thesis
    using r assms(2) by (auto simp: device_find_dev_def)
qed

theorem device_register_then_find_witness:
  "\<exists>ts'. device_register \<lparr> bus_type = 1, dev_data = 9, dev_num = 0 \<rparr> device_trees_init =
      Inr (0, \<lparr> bus_type = 1, dev_data = 9, dev_num = 0 \<rparr>, ts') \<and>
    device_find_dev 1 0 ts' = Inr (Some \<lparr> bus_type = 1, dev_data = 9, dev_num = 0 \<rparr>)"
  using device_register_then_find [OF trees_ok_init,
      of "\<lparr> bus_type = 1, dev_data = 9, dev_num = 0 \<rparr>" 0]
  by (auto simp: device_trees_init_def)

text \<open>
  The loop over a bus with \<^verbatim>\<open>device__first_dev\<close> and \<^verbatim>\<open>device__next_dev\<close> visits every
  registered device exactly once, in the order of the numbers, and ends; and unregistering a
  device takes exactly that one out of the sequence.
\<close>

theorem device_iteration_complete:
  assumes "trees_ok ts" and "bt < DEVICE_BUS_MAX"
  shows "device_walk (length (inorder (bus_root (ts ! bt)))) (device_first_dev bt ts) ts =
      Inr (Some (inorder (bus_root (ts ! bt)))) \<and>
    sorted_wrt (\<lambda>d e. dev_num d < dev_num e) (inorder (bus_root (ts ! bt))) \<and>
    (dev \<in> set (inorder (bus_root (ts ! bt))) \<longrightarrow>
      (\<exists>ts' xs ys. device_unregister dev ts = Inr ts' \<and> trees_ok ts' \<and>
         inorder (bus_root (ts ! bt)) = xs @ dev # ys \<and> inorder (bus_root (ts' ! bt)) = xs @ ys))"
proof -
  have ok: "dbus_ok bt (ts ! bt)" by (rule trees_okD [OF assms])
  have "device_walk (length (inorder (bus_root (ts ! bt)))) (device_first_dev bt ts) ts =
      Inr (Some (inorder (bus_root (ts ! bt))))"
    using walk_ok [OF ok, of "[]"] assms(2) by (simp add: device_first_dev_def rb_first_inorder)
  then show ?thesis
    using ok dev_unregister_ok [OF assms(1) _ assms(2), of dev] by (auto simp: dbus_ok_def)
qed

definition sample_trees :: device_trees where
  "sample_trees =
     [\<lparr> bus_root = Node Black Leaf \<lparr> bus_type = 0, dev_data = 5, dev_num = 0 \<rparr>
          (Node Red Leaf \<lparr> bus_type = 0, dev_data = 6, dev_num = 1 \<rparr> Leaf), bus_dev_num = 2 \<rparr>,
      \<lparr> bus_root = Leaf, bus_dev_num = 0 \<rparr>, \<lparr> bus_root = Leaf, bus_dev_num = 0 \<rparr>]"

theorem device_iteration_complete_witness:
  "device_walk 2 (device_first_dev 0 sample_trees) sample_trees =
     Inr (Some [\<lparr> bus_type = 0, dev_data = 5, dev_num = 0 \<rparr>, \<lparr> bus_type = 0, dev_data = 6, dev_num = 1 \<rparr>])"
proof -
  have "trees_ok sample_trees"
    by (auto simp: trees_ok_def sample_trees_def dbus_ok_def rb_tree_def numeral_3_eq_3 less_Suc_eq)
  from device_iteration_complete [OF this, of 0, THEN conjunct1] show ?thesis
    by (simp add: sample_trees_def numeral_2_eq_2)
qed

end
