(* ===== verification/Plic.thy ===== *)
theory Plic
  imports Prelude
begin

text \<open>
  The RISC-V interrupt controller of \<^verbatim>\<open>arch/riscv/plic.c\<close>: 1023 sources with a priority and a level
  each, and for every hart context its enabled, pending and claimed sources. A device raises a
  source with \<open>plic_irq_trig\<close>, the guest claims the best pending one and completes it through
  the memory-mapped registers.

  The bit arrays are lists of 32 words, as in C. Sources and word indices are natural numbers;
  the four bytes of an access are one little-endian word. \<open>virq\<close> is the value the context last
  gave to the \<^verbatim>\<open>KVM_INTERRUPT\<close> ioctl. The mutexes only show where the code releases one it does
  not hold.
\<close>

section \<open>State\<close>

abbreviation (input) MAX_DEVICES :: nat where "MAX_DEVICES \<equiv> 1024"
abbreviation (input) RISCV_IRQCHIP :: u64 where "RISCV_IRQCHIP \<equiv> 0x08000000"
abbreviation (input) ENABLE_BASE :: nat where "ENABLE_BASE \<equiv> 0x2000"
abbreviation (input) ENABLE_PER_HART :: nat where "ENABLE_PER_HART \<equiv> 0x80"
abbreviation (input) CONTEXT_BASE :: nat where "CONTEXT_BASE \<equiv> 0x200000"
abbreviation (input) CONTEXT_PER_HART :: nat where "CONTEXT_PER_HART \<equiv> 0x1000"
abbreviation (input) REG_SIZE :: nat where "REG_SIZE \<equiv> 0x1000000"

record plic_context =
  irq_priority_threshold :: u8
  irq_enable :: "u32 list"
  irq_pending :: "u32 list"
  irq_pending_priority :: "u8 list"
  irq_claimed :: "u32 list"
  irq_autoclear :: "u32 list"
  virq :: bool

record plic_state =
  ready :: bool
  num_irq :: nat
  num_irq_word :: nat
  max_prio :: u32
  num_context :: nat
  contexts :: "plic_context list"
  irq_priority :: "u8 list"
  irq_level :: "u32 list"

definition context_init :: plic_context where
  "context_init = \<lparr> irq_priority_threshold = 0, irq_enable = replicate 32 0, irq_pending = replicate 32 0,
     irq_pending_priority = replicate MAX_DEVICES 0, irq_claimed = replicate 32 0,
     irq_autoclear = replicate 32 0, virq = False \<rparr>"

definition plic_init :: "nat \<Rightarrow> plic_state" where
  "plic_init nrcpus =
     (let words = MAX_DEVICES div 32
      in \<lparr> ready = True, num_irq = MAX_DEVICES,
           num_irq_word = (if words * 32 < MAX_DEVICES then words + 1 else words),
           max_prio = 15, num_context = nrcpus * 2, contexts = replicate (nrcpus * 2) context_init,
           irq_priority = replicate MAX_DEVICES 0, irq_level = replicate 32 0 \<rparr>)"

text \<open>Setting and clearing the bit of a source in an array of words.\<close>

definition irq_mask :: "nat \<Rightarrow> u32" where
  "irq_mask irq = push_bit (irq mod 32) 1"

definition set_irq :: "nat \<Rightarrow> u32 list \<Rightarrow> u32 list" where
  "set_irq irq ws = ws[irq div 32 := (ws ! (irq div 32)) OR irq_mask irq]"

definition clr_irq :: "nat \<Rightarrow> u32 list \<Rightarrow> u32 list" where
  "clr_irq irq ws = ws[irq div 32 := clrf (ws ! (irq div 32)) (irq_mask irq)]"

definition has_irq :: "nat \<Rightarrow> u32 list \<Rightarrow> bool" where
  "has_irq irq ws \<longleftrightarrow> flag (ws ! (irq div 32)) (irq_mask irq)"

section \<open>The best pending source\<close>

text \<open>The body of the inner loop, and the two loops.\<close>

definition best_step :: "plic_state \<Rightarrow> plic_context \<Rightarrow> nat \<times> u8 \<Rightarrow> nat \<Rightarrow> nat \<times> u8" where
  "best_step s c acc irq =
     (if num_irq s \<le> irq \<or> \<not> has_irq irq (irq_pending c) \<or> has_irq irq (irq_claimed c) then acc
      else if fst acc = 0 \<or> snd acc < irq_pending_priority c ! irq
      then (irq, irq_pending_priority c ! irq)
      else acc)"

definition best_word :: "plic_state \<Rightarrow> plic_context \<Rightarrow> nat \<times> u8 \<Rightarrow> nat \<Rightarrow> nat \<times> u8" where
  "best_word s c acc i =
     (if irq_pending c ! i = 0 then acc
      else foldl (\<lambda>acc j. best_step s c acc (i * 32 + j)) acc [0..<32])"

definition plic_context_best_pending_irq :: "plic_state \<Rightarrow> plic_context \<Rightarrow> nat" where
  "plic_context_best_pending_irq s c = fst (foldl (best_word s c) (0, 0) [0..<num_irq_word s])"

definition plic_context_irq_update :: "plic_state \<Rightarrow> plic_context \<Rightarrow> plic_context" where
  "plic_context_irq_update s c = c\<lparr>virq := plic_context_best_pending_irq s c \<noteq> 0\<rparr>"

text \<open>Forgetting a source in a context, and taking it.\<close>

definition drop_irq :: "nat \<Rightarrow> plic_context \<Rightarrow> plic_context" where
  "drop_irq irq c = c\<lparr>irq_pending := clr_irq irq (irq_pending c),
     irq_pending_priority := (irq_pending_priority c)[irq := 0],
     irq_claimed := clr_irq irq (irq_claimed c)\<rparr>"

definition pend_irq :: "nat \<Rightarrow> u8 \<Rightarrow> plic_context \<Rightarrow> plic_context" where
  "pend_irq irq prio c = c\<lparr>irq_pending := set_irq irq (irq_pending c),
     irq_pending_priority := (irq_pending_priority c)[irq := prio]\<rparr>"

definition plic_context_irq_claim :: "plic_state \<Rightarrow> plic_context \<Rightarrow> nat \<times> plic_context" where
  "plic_context_irq_claim s c =
     (let best = plic_context_best_pending_irq s c;
          c0 = c\<lparr>virq := False\<rparr>;
          c1 = (if best = 0 then c0
                else if has_irq best (irq_autoclear c)
                then (drop_irq best c0)\<lparr>irq_autoclear := clr_irq best (irq_autoclear c)\<rparr>
                else c0\<lparr>irq_claimed := set_irq best (irq_claimed c)\<rparr>)
      in (best, plic_context_irq_update s c1))"

section \<open>Raising and lowering a source\<close>

definition trig_context :: "plic_state \<Rightarrow> nat \<Rightarrow> u8 \<Rightarrow> bool \<Rightarrow> bool \<Rightarrow> plic_context \<Rightarrow> plic_context" where
  "trig_context s irq prio level edge c =
     plic_context_irq_update s
       (if level
        then (let c' = pend_irq irq prio c
              in if edge then c'\<lparr>irq_autoclear := set_irq irq (irq_autoclear c')\<rparr> else c')
        else (drop_irq irq c)\<lparr>irq_autoclear := clr_irq irq (irq_autoclear c)\<rparr>)"

text \<open>
  The loop over the contexts. Its counter is an eight-bit number; \<open>Inr None\<close> says that the loop
  is still running when the fuel ends.
\<close>

fun trig_loop :: "nat \<Rightarrow> u8 \<Rightarrow> nat \<Rightarrow> u8 \<Rightarrow> bool \<Rightarrow> bool \<Rightarrow> plic_state \<Rightarrow> plic_state option result" where
  "trig_loop 0 i irq prio level edge s = Inr None"
| "trig_loop (Suc fuel) i irq prio level edge s =
     (if unat i < num_context s
      then rbind (aget (contexts s) (unat i)) (\<lambda>c.
        if has_irq irq (irq_enable c)
        then Inr (Some (s\<lparr>contexts := (contexts s)[unat i := trig_context s irq prio level edge c]\<rparr>))
        else trig_loop fuel (i + 1) irq prio level edge s)
      else Inr (Some s))"

definition plic_irq_trig :: "nat \<Rightarrow> int \<Rightarrow> bool \<Rightarrow> bool \<Rightarrow> plic_state \<Rightarrow> plic_state option result" where
  "plic_irq_trig fuel irq level edge s =
     (if \<not> ready s then Inr (Some s)
      else if irq \<le> 0 \<or> int (num_irq s) \<le> irq then Inl UnlockUnheld
      else
        let n = nat irq;
            prio = irq_priority s ! n;
            s' = s\<lparr>irq_level := (if level then set_irq n (irq_level s) else clr_irq n (irq_level s))\<rparr>
        in trig_loop fuel 0 n prio level edge s')"

section \<open>The registers\<close>

text \<open>A read gives \<open>None\<close> when it leaves the bytes of the access as they are.\<close>

definition plic_priority_read :: "plic_state \<Rightarrow> nat \<Rightarrow> u32 option" where
  "plic_priority_read s offset =
     (let irq = offset div 4
      in if irq = 0 \<or> num_irq s \<le> irq then None else Some (ucast (irq_priority s ! irq)))"

definition plic_priority_write :: "plic_state \<Rightarrow> nat \<Rightarrow> u32 \<Rightarrow> plic_state" where
  "plic_priority_write s offset data =
     (let irq = offset div 4
      in if irq = 0 \<or> num_irq s \<le> irq then s
         else s\<lparr>irq_priority := (irq_priority s)[irq := ucast (data AND 15)]\<rparr>)"

definition plic_context_enable_read :: "plic_state \<Rightarrow> plic_context \<Rightarrow> nat \<Rightarrow> u32 option result" where
  "plic_context_enable_read s c offset =
     (let irq_word = offset div 4
      in if num_irq_word s < irq_word then Inr None
         else rbind (aget (irq_enable c) irq_word) (\<lambda>v. Inr (Some v)))"

definition enable_bit :: "plic_state \<Rightarrow> nat \<Rightarrow> u32 \<Rightarrow> u32 \<Rightarrow> plic_context \<Rightarrow> nat \<Rightarrow> plic_context" where
  "enable_bit s irq_word xor_val new_val c i =
     (let irq = irq_word * 32 + i
      in if \<not> flag xor_val (push_bit i 1) then c
         else if flag new_val (push_bit i 1) \<and> flag (irq_level s ! irq_word) (push_bit i 1)
         then pend_irq irq (irq_priority s ! irq) c
         else if \<not> flag new_val (push_bit i 1) then drop_irq irq c
         else c)"

definition plic_context_enable_write :: "plic_state \<Rightarrow> plic_context \<Rightarrow> nat \<Rightarrow> u32 \<Rightarrow> plic_context result" where
  "plic_context_enable_write s c offset data =
     (let irq_word = offset div 4
      in if num_irq_word s < irq_word then Inr c
         else rbind (aget (irq_enable c) irq_word) (\<lambda>old_val.
           let new_val = (if irq_word = 0 then clrf data 1 else data);
               c1 = c\<lparr>irq_enable := (irq_enable c)[irq_word := new_val]\<rparr>;
               c2 = foldl (enable_bit s irq_word (old_val XOR new_val) new_val) c1 [0..<32]
           in Inr (plic_context_irq_update s c2)))"

definition plic_context_read :: "plic_state \<Rightarrow> plic_context \<Rightarrow> nat \<Rightarrow> u32 option \<times> plic_context" where
  "plic_context_read s c offset =
     (if offset = 0 then (Some (ucast (irq_priority_threshold c)), c)
      else if offset = 4 then (let (irq, c') = plic_context_irq_claim s c in (Some (of_nat irq), c'))
      else (None, c))"

definition plic_context_write :: "plic_state \<Rightarrow> plic_context \<Rightarrow> nat \<Rightarrow> u32 \<Rightarrow> plic_context" where
  "plic_context_write s c offset data =
     (if offset = 0
      then (let val = data AND 15
            in if val \<le> max_prio s then c\<lparr>irq_priority_threshold := ucast val\<rparr>
               else plic_context_irq_update s c)
      else if offset = 4
      then (let val = unat data
            in if val < num_irq s \<and> has_irq val (irq_enable c)
               then plic_context_irq_update s (c\<lparr>irq_claimed := clr_irq val (irq_claimed c)\<rparr>)
               else c)
      else plic_context_irq_update s c)"

definition plic_mmio_callback :: "plic_state \<Rightarrow> u64 \<Rightarrow> u32 \<Rightarrow> u32 \<Rightarrow> bool \<Rightarrow> (u32 \<times> plic_state) result" where
  "plic_mmio_callback s addr data len is_write =
     (if len \<noteq> 4 then Inl Die
      else
        let a = unat ((addr AND NOT 3) - RISCV_IRQCHIP);
            ecntx = (a - ENABLE_BASE) div ENABLE_PER_HART;
            eoff = a - (ecntx * ENABLE_PER_HART + ENABLE_BASE);
            ccntx = (a - CONTEXT_BASE) div CONTEXT_PER_HART;
            coff = a - (ccntx * CONTEXT_PER_HART + CONTEXT_BASE);
            keep = (\<lambda>v. case v of None \<Rightarrow> data | Some d \<Rightarrow> d)
        in if is_write
           then if a < ENABLE_BASE then Inr (data, plic_priority_write s a data)
                else if a < CONTEXT_BASE
                then (if ecntx < num_context s
                      then rbind (aget (contexts s) ecntx) (\<lambda>c.
                           rbind (plic_context_enable_write s c eoff data) (\<lambda>c'.
                           Inr (data, s\<lparr>contexts := (contexts s)[ecntx := c']\<rparr>)))
                      else Inr (data, s))
                else if a < REG_SIZE
                then (if ccntx < num_context s
                      then rbind (aget (contexts s) ccntx) (\<lambda>c.
                           Inr (data, s\<lparr>contexts := (contexts s)[ccntx := plic_context_write s c coff data]\<rparr>))
                      else Inr (data, s))
                else Inr (data, s)
           else if a < ENABLE_BASE then Inr (keep (plic_priority_read s a), s)
                else if a < CONTEXT_BASE
                then (if ecntx < num_context s
                      then rbind (aget (contexts s) ecntx) (\<lambda>c.
                           rbind (plic_context_enable_read s c eoff) (\<lambda>v. Inr (keep v, s)))
                      else Inr (data, s))
                else if a < REG_SIZE
                then (if ccntx < num_context s
                      then rbind (aget (contexts s) ccntx) (\<lambda>c.
                           let (v, c') = plic_context_read s c coff
                           in Inr (keep v, s\<lparr>contexts := (contexts s)[ccntx := c']\<rparr>))
                      else Inr (data, s))
                else Inr (data, s))"

section \<open>Bits of a source\<close>

lemma has_irq_bit: "has_irq i ws \<longleftrightarrow> bit (ws ! (i div 32)) (i mod 32)"
  by (simp add: has_irq_def irq_mask_def flag_push_bit del: push_bit_of_1)

lemma same_source: "i div 32 = k div 32 \<and> i mod 32 = k mod 32 \<longleftrightarrow> i = (k :: nat)"
  by (metis div_mult_mod_eq)

lemma has_set_irq [simp]:
  "k div 32 < length ws \<Longrightarrow> has_irq i (set_irq k ws) \<longleftrightarrow> has_irq i ws \<or> i = k"
  using same_source [of i k]
  by (auto simp: has_irq_bit set_irq_def irq_mask_def bit_or_push_bit nth_list_update
      simp del: push_bit_of_1)

lemma has_clr_irq [simp]:
  "k div 32 < length ws \<Longrightarrow> has_irq i (clr_irq k ws) \<longleftrightarrow> has_irq i ws \<and> i \<noteq> k"
  using same_source [of i k]
  by (auto simp: has_irq_bit clr_irq_def irq_mask_def bit_clrf_push_bit nth_list_update
      simp del: push_bit_of_1)

lemma length_irq [simp]: "length (set_irq k ws) = length ws" "length (clr_irq k ws) = length ws"
  by (simp_all add: set_irq_def clr_irq_def)

section \<open>The best pending source is the best\<close>

text \<open>A source that a claim may return: pending and not claimed.\<close>

definition candidate :: "plic_context \<Rightarrow> nat \<Rightarrow> bool" where
  "candidate c irq \<longleftrightarrow> 0 < irq \<and> irq < MAX_DEVICES \<and> has_irq irq (irq_pending c) \<and> \<not> has_irq irq (irq_claimed c)"

text \<open>\<open>a\<close> goes before \<open>b\<close>: a higher priority, or the same and a smaller number.\<close>

definition outranks :: "plic_context \<Rightarrow> nat \<Rightarrow> nat \<Rightarrow> bool" where
  "outranks c a b \<longleftrightarrow> irq_pending_priority c ! b < irq_pending_priority c ! a \<or>
     irq_pending_priority c ! b = irq_pending_priority c ! a \<and> a \<le> b"

definition best_below :: "plic_context \<Rightarrow> nat \<Rightarrow> nat \<times> u8 \<Rightarrow> bool" where
  "best_below c n acc \<longleftrightarrow>
     (if fst acc = 0 then \<forall>i<n. \<not> candidate c i
      else fst acc < n \<and> candidate c (fst acc) \<and> snd acc = irq_pending_priority c ! fst acc \<and>
           (\<forall>i<n. candidate c i \<longrightarrow> outranks c (fst acc) i))"

definition sized :: "plic_state \<Rightarrow> bool" where
  "sized s \<longleftrightarrow> num_irq s = MAX_DEVICES \<and> num_irq_word s = 32 \<and> length (contexts s) = num_context s \<and>
     length (irq_priority s) = MAX_DEVICES \<and> length (irq_level s) = 32"

lemma best_step_below:
  assumes "sized s" and "best_below c n acc" and "n < MAX_DEVICES"
  shows "best_below c (Suc n) (best_step s c acc n)"
proof (cases "candidate c n")
  case True
  then have "best_step s c acc n =
      (if fst acc = 0 \<or> snd acc < irq_pending_priority c ! n then (n, irq_pending_priority c ! n) else acc)"
    using assms by (auto simp: best_step_def candidate_def sized_def)
  with True assms(2) show ?thesis
    by (auto simp: best_below_def outranks_def candidate_def less_Suc_eq not_less split: if_splits
        dest: order.strict_trans)
next
  case False
  then have "best_step s c acc n = acc \<or> n = 0 \<and> fst acc = 0 \<and> fst (best_step s c acc n) = 0"
    using assms by (auto simp: best_step_def candidate_def sized_def best_below_def split: if_splits)
  with False assms(2) show ?thesis
    by (auto simp: best_below_def less_Suc_eq)
qed

lemma best_fold_below:
  "sized s \<Longrightarrow> n \<le> MAX_DEVICES \<Longrightarrow> best_below c n (foldl (best_step s c) (0, 0) [0..<n])"
  by (induction n) (simp add: best_below_def, simp add: best_step_below)

text \<open>The skipped words and the two nested loops are one loop over all sources.\<close>

lemma zero_word_no_irq:
  assumes "ws ! i = 0" and "j < 32"
  shows "\<not> has_irq (i * 32 + j) ws"
  using assms by (simp add: has_irq_bit)

lemma best_word_all: "best_word s c acc i = foldl (best_step s c) acc (map (\<lambda>j. i * 32 + j) [0..<32])"
proof (cases "irq_pending c ! i = 0")
  case True
  have "foldl (best_step s c) acc (map (\<lambda>j. i * 32 + j) js) = acc" if "\<forall>j\<in>set js. j < 32" for js
    using that zero_word_no_irq [OF True]
    by (induction js) (simp_all add: best_step_def)
  with True show ?thesis by (simp add: best_word_def)
next
  case False
  then show ?thesis by (simp add: best_word_def foldl_map)
qed

lemma best_words_all:
  "foldl (best_word s c) acc [0..<n] = foldl (best_step s c) acc [0..<n * 32]"
proof (induction n)
  case (Suc n)
  have "map (\<lambda>j. n * 32 + j) [0..<32] = [n * 32..<n * 32 + 32]"
    using map_add_upt [of "n * 32" 32] by (simp add: add.commute)
  moreover have "[0..<Suc n * 32] = [0..<n * 32] @ [n * 32..<n * 32 + 32]"
    by (metis add.commute mult_Suc upt_add_eq_append zero_le)
  ultimately show ?case using Suc by (simp add: best_word_all)
qed simp

lemma best_spec:
  assumes "sized s"
  shows "plic_context_best_pending_irq s c = 0 \<Longrightarrow> \<not> candidate c i"
    and "plic_context_best_pending_irq s c \<noteq> 0 \<Longrightarrow> candidate c (plic_context_best_pending_irq s c)"
    and "candidate c i \<Longrightarrow> outranks c (plic_context_best_pending_irq s c) i"
proof -
  define acc where "acc = foldl (best_step s c) (0, 0) [0..<1024]"
  have acc: "best_below c 1024 acc"
    using best_fold_below [OF assms, of 1024 c] by (simp add: acc_def)
  have best: "plic_context_best_pending_irq s c = fst acc"
    using assms by (simp add: plic_context_best_pending_irq_def best_words_all sized_def acc_def)
  have lt: "candidate c i \<Longrightarrow> i < 1024" by (simp add: candidate_def)
  show "plic_context_best_pending_irq s c = 0 \<Longrightarrow> \<not> candidate c i"
    using acc best lt by (auto simp: best_below_def)
  show "plic_context_best_pending_irq s c \<noteq> 0 \<Longrightarrow> candidate c (plic_context_best_pending_irq s c)"
    using acc best by (auto simp: best_below_def split: if_splits)
  show "candidate c i \<Longrightarrow> outranks c (plic_context_best_pending_irq s c) i"
    using acc best lt by (auto simp: best_below_def split: if_splits)
qed

lemma best_nonzero_iff: "sized s \<Longrightarrow> plic_context_best_pending_irq s c \<noteq> 0 \<longleftrightarrow> (\<exists>i. candidate c i)"
  using best_spec by metis

section \<open>The invariant\<close>

definition ctx_sized :: "plic_context \<Rightarrow> bool" where
  "ctx_sized c \<longleftrightarrow> length (irq_enable c) = 32 \<and> length (irq_pending c) = 32 \<and>
     length (irq_pending_priority c) = MAX_DEVICES \<and> length (irq_claimed c) = 32 \<and> length (irq_autoclear c) = 32"

text \<open>Claimed sources are pending, pending ones enabled, source 0 never; the rest has priority 0.\<close>

definition ctx_bits :: "plic_context \<Rightarrow> bool" where
  "ctx_bits c \<longleftrightarrow> ctx_sized c \<and> \<not> has_irq 0 (irq_enable c) \<and>
     (\<forall>i < MAX_DEVICES. (has_irq i (irq_claimed c) \<longrightarrow> has_irq i (irq_pending c)) \<and>
        (has_irq i (irq_pending c) \<longrightarrow> has_irq i (irq_enable c)) \<and>
        (\<not> has_irq i (irq_pending c) \<longrightarrow> irq_pending_priority c ! i = 0))"

text \<open>The line of the vCPU is raised exactly when a source can be claimed.\<close>

definition ctx_ok :: "plic_context \<Rightarrow> bool" where
  "ctx_ok c \<longleftrightarrow> ctx_bits c \<and> (virq c \<longleftrightarrow> (\<exists>i. candidate c i))"

definition plic_ok :: "plic_state \<Rightarrow> bool" where
  "plic_ok s \<longleftrightarrow> sized s \<and> (\<forall>c\<in>set (contexts s). ctx_ok c)"

lemma update_ok: "sized s \<Longrightarrow> ctx_bits c \<Longrightarrow> ctx_ok (plic_context_irq_update s c)"
  using best_nonzero_iff [of s c]
  by (auto simp: ctx_ok_def plic_context_irq_update_def ctx_bits_def ctx_sized_def candidate_def)

lemma has_irq_replicate [simp]: "i < MAX_DEVICES \<Longrightarrow> \<not> has_irq i (replicate 32 0)"
  by (simp add: has_irq_bit)

lemma plic_init_ok: "plic_ok (plic_init n)"
  by (auto simp: plic_ok_def plic_init_def sized_def ctx_ok_def ctx_bits_def ctx_sized_def context_init_def
      candidate_def)

lemma ctx_bits_more [simp]: "ctx_bits (c\<lparr>virq := b\<rparr>) = ctx_bits c" "ctx_bits (c\<lparr>irq_priority_threshold := t\<rparr>) = ctx_bits c"
  by (simp_all add: ctx_bits_def ctx_sized_def)

lemma ctx_bits_autoclear [simp]:
  "length ws = 32 \<Longrightarrow> ctx_sized c \<Longrightarrow> ctx_bits (c\<lparr>irq_autoclear := ws\<rparr>) = ctx_bits c"
  by (simp add: ctx_bits_def ctx_sized_def)

lemma ctx_sizedD: "ctx_bits c \<Longrightarrow> ctx_sized c"
  by (simp add: ctx_bits_def)

lemma pend_bits:
  "ctx_bits c \<Longrightarrow> irq < MAX_DEVICES \<Longrightarrow> has_irq irq (irq_enable c) \<Longrightarrow> ctx_bits (pend_irq irq prio c)"
  by (auto simp: ctx_bits_def ctx_sized_def pend_irq_def nth_list_update)

lemma drop_bits: "ctx_bits c \<Longrightarrow> irq < MAX_DEVICES \<Longrightarrow> ctx_bits (drop_irq irq c)"
  by (auto simp: ctx_bits_def ctx_sized_def drop_irq_def nth_list_update)

lemma claim_ok:
  assumes "sized s" and "ctx_ok c"
  shows "ctx_ok (snd (plic_context_irq_claim s c))"
proof -
  let ?b = "plic_context_best_pending_irq s c"
  have c: "ctx_bits c" "ctx_sized c" using assms(2) by (auto simp: ctx_ok_def ctx_sizedD)
  have b: "?b \<noteq> 0 \<Longrightarrow> ?b < MAX_DEVICES \<and> has_irq ?b (irq_pending c)"
    using best_spec(2) [OF assms(1), of c] by (simp add: candidate_def)
  have 1: "?b \<noteq> 0 \<Longrightarrow> ctx_bits ((drop_irq ?b (c\<lparr>virq := False\<rparr>))\<lparr>irq_autoclear := clr_irq ?b (irq_autoclear c)\<rparr>)"
    using drop_bits [of "c\<lparr>virq := False\<rparr>" ?b] c b by (subst ctx_bits_autoclear) (auto simp: ctx_sized_def ctx_bits_def)
  have 2: "?b \<noteq> 0 \<Longrightarrow> ctx_bits (c\<lparr>virq := False, irq_claimed := set_irq ?b (irq_claimed c)\<rparr>)"
    using c b by (auto simp: ctx_bits_def ctx_sized_def)
  from 1 2 c show ?thesis
    using update_ok [OF assms(1)] by (auto simp: plic_context_irq_claim_def Let_def)
qed

lemma trig_ctx_ok:
  assumes "sized s" and "ctx_ok c" and "irq < MAX_DEVICES" and "has_irq irq (irq_enable c)"
  shows "ctx_ok (trig_context s irq prio level edge c)"
proof -
  have c: "ctx_bits c" using assms(2) by (simp add: ctx_ok_def)
  have p: "ctx_bits (pend_irq irq prio c)" "ctx_bits (drop_irq irq c)"
    using pend_bits drop_bits c assms by auto
  have "length (irq_autoclear c) = 32" "irq_autoclear (pend_irq irq prio c) = irq_autoclear c"
    using c by (simp_all add: ctx_bits_def ctx_sized_def pend_irq_def)
  with p have "ctx_bits ((pend_irq irq prio c)\<lparr>irq_autoclear := set_irq irq (irq_autoclear c)\<rparr>)"
    "ctx_bits ((drop_irq irq c)\<lparr>irq_autoclear := clr_irq irq (irq_autoclear c)\<rparr>)"
    by (simp_all add: ctx_sizedD)
  with p show ?thesis
    using update_ok [OF assms(1)] by (auto simp: trig_context_def Let_def pend_irq_def)
qed

lemma plic_ok_upd: "plic_ok s \<Longrightarrow> ctx_ok c \<Longrightarrow> plic_ok (s\<lparr>contexts := (contexts s)[i := c]\<rparr>)"
  using set_update_subset_insert [of "contexts s" i c] by (auto simp: plic_ok_def sized_def)

lemma plic_okD: "plic_ok s \<Longrightarrow> i < num_context s \<Longrightarrow> i < length (contexts s) \<and> ctx_ok (contexts s ! i)"
  by (auto simp: plic_ok_def sized_def)

lemma trig_loop_ok:
  "plic_ok s \<Longrightarrow> irq < MAX_DEVICES \<Longrightarrow> trig_loop fuel i irq prio level edge s = Inr (Some s') \<Longrightarrow> plic_ok s'"
proof (induction fuel i irq prio level edge s rule: trig_loop.induct)
  case (2 fuel i irq prio level edge s)
  show ?case
  proof (cases "unat i < num_context s")
    case True
    then have c: "unat i < length (contexts s)" "ctx_ok (contexts s ! unat i)"
      using plic_okD [OF 2(2)] by auto
    show ?thesis
    proof (cases "has_irq irq (irq_enable (contexts s ! unat i))")
      case en: True
      have "ctx_ok (trig_context s irq prio level edge (contexts s ! unat i))"
        using trig_ctx_ok [OF _ c(2) 2(3) en] 2(2) by (simp add: plic_ok_def)
      with 2 True c en show ?thesis by (auto intro: plic_ok_upd)
    next
      case False
      with 2 True c show ?thesis by simp
    qed
  qed (use 2 in auto)
qed simp

text \<open>The counter reaches the end of the contexts when there are at most 255 of them.\<close>

lemma trig_loop_ends:
  "plic_ok s \<Longrightarrow> num_context s \<le> 255 \<Longrightarrow> unat i \<le> num_context s \<Longrightarrow> num_context s < unat i + fuel \<Longrightarrow>
   \<exists>s'. trig_loop fuel i irq prio level edge s = Inr (Some s')"
proof (induction fuel i irq prio level edge s rule: trig_loop.induct)
  case (2 fuel i irq prio level edge s)
  show ?case
  proof (cases "unat i < num_context s")
    case True
    then have i: "unat (i + 1) = unat i + 1"
      using 2(3) by (simp add: unat_plus_if' )
    have c: "unat i < length (contexts s)" using plic_okD [OF 2(2) True] by simp
    show ?thesis
    proof (cases "has_irq irq (irq_enable (contexts s ! unat i))")
      case False
      have "\<exists>s'. trig_loop fuel (i + 1) irq prio level edge s = Inr (Some s')"
        using 2(1) [OF True False] 2(2-) True i by simp
      with True False c show ?thesis by simp
    qed (use True c in simp)
  qed simp
qed simp

text \<open>
  With 256 contexts or more the eight-bit counter wraps around below their number, and the
  loop never ends when no context has the source enabled.
\<close>

lemma trig_loop_forever:
  "sized s \<Longrightarrow> 256 \<le> num_context s \<Longrightarrow> (\<forall>c\<in>set (contexts s). \<not> has_irq irq (irq_enable c)) \<Longrightarrow>
   trig_loop fuel i irq prio level edge s = Inr None"
proof (induction fuel i irq prio level edge s rule: trig_loop.induct)
  case (2 fuel i irq prio level edge s)
  have "unat i < 2 ^ LENGTH(8)" by (rule unsigned_less)
  then have "unat i < 256" by simp
  then have i: "unat i < num_context s" "unat i < length (contexts s)"
    using 2(2,3) by (auto simp: sized_def)
  then have no: "\<not> has_irq irq (irq_enable (contexts s ! unat i))" using 2(4) by simp
  have "trig_loop fuel (i + 1) irq prio level edge s = Inr None"
    by (rule 2(1) [OF i(1) no 2(2-4)])
  with i no show ?case by simp
qed simp

text \<open>Writing the enable bits: each turn of the loop handles the bit of one source.\<close>

definition enable_inv :: "u32 \<Rightarrow> u32 \<Rightarrow> nat \<Rightarrow> nat \<Rightarrow> plic_context \<Rightarrow> bool" where
  "enable_inv old new w k c \<longleftrightarrow> ctx_sized c \<and> \<not> has_irq 0 (irq_enable c) \<and> irq_enable c ! w = new \<and>
     (\<forall>i < MAX_DEVICES. (has_irq i (irq_claimed c) \<longrightarrow> has_irq i (irq_pending c)) \<and>
        (has_irq i (irq_pending c) \<longrightarrow>
           has_irq i (irq_enable c) \<or> (\<exists>j<32. k \<le> j \<and> i = w * 32 + j \<and> bit old j)) \<and>
        (\<not> has_irq i (irq_pending c) \<longrightarrow> irq_pending_priority c ! i = 0))"

lemma has_irq_word: "j < 32 \<Longrightarrow> has_irq (w * 32 + j) ws \<longleftrightarrow> bit (ws ! w) j"
  by (simp add: has_irq_bit)

lemma enable_inv_next:
  assumes "enable_inv old new w k c" and "k < 32"
    and "has_irq (w * 32 + k) (irq_pending c) \<Longrightarrow> has_irq (w * 32 + k) (irq_enable c)"
  shows "enable_inv old new w (Suc k) c"
  using assms by (auto simp: enable_inv_def le_Suc_eq Suc_le_eq)

lemma enable_bit_inv:
  assumes inv: "enable_inv old new w k c" and k: "k < 32" and w: "w < 32"
  shows "enable_inv old new w (Suc k) (enable_bit s w (old XOR new) new c k)"
proof -
  let ?i = "w * 32 + k"
  have i: "?i < MAX_DEVICES" using k w by simp
  have en: "has_irq ?i (irq_enable c) \<longleftrightarrow> bit new k"
    using has_irq_word [OF k] inv by (simp add: enable_inv_def)
  have x: "flag (old XOR new) (push_bit k 1) \<longleftrightarrow> bit old k \<noteq> bit new k" "flag new (push_bit k 1) \<longleftrightarrow> bit new k"
    using k by (auto simp: flag_push_bit bit_simps simp del: push_bit_of_1)
  have sz: "ctx_sized c" using inv by (simp add: enable_inv_def)
  have pend: "has_irq ?i (irq_pending c) \<Longrightarrow> bit new k \<or> bit old k"
    using inv i en by (auto simp: enable_inv_def)
  consider (same) "bit old k = bit new k" | (on) "bit old k \<noteq> bit new k" "bit new k" | (off) "bit old k" "\<not> bit new k"
    by blast
  then show ?thesis
  proof cases
    case same
    then have "enable_bit s w (old XOR new) new c k = c" by (simp add: enable_bit_def x del: push_bit_of_1)
    with same enable_inv_next [OF inv k] en pend show ?thesis by auto
  next
    case on
    have next': "enable_inv old new w (Suc k) c" using enable_inv_next [OF inv k] en on by auto
    have "enable_inv old new w (Suc k) (pend_irq ?i (irq_priority s ! ?i) c)"
      using next' en on i sz k w by (auto simp: enable_inv_def pend_irq_def ctx_sized_def nth_list_update)
    with next' on show ?thesis by (simp add: enable_bit_def x Let_def del: push_bit_of_1)
  next
    case off
    have "enable_inv old new w k (drop_irq ?i c)"
      using inv i sz k w by (auto simp: enable_inv_def drop_irq_def ctx_sized_def nth_list_update)
    moreover have "\<not> has_irq ?i (irq_pending (drop_irq ?i c))"
      using sz k w by (simp add: drop_irq_def ctx_sized_def)
    ultimately have "enable_inv old new w (Suc k) (drop_irq ?i c)"
      using enable_inv_next k by blast
    with off show ?thesis by (simp add: enable_bit_def x Let_def del: push_bit_of_1)
  qed
qed

lemma enable_fold_inv:
  assumes "enable_inv old new w 0 c" and "w < 32"
  shows "n \<le> 32 \<Longrightarrow> enable_inv old new w n (foldl (enable_bit s w (old XOR new) new) c [0..<n])"
  using assms by (induction n) (auto intro: enable_bit_inv)

lemma enable_write_ok:
  assumes "sized s" and "ctx_ok c" and "off < 128"
  shows "\<exists>c'. plic_context_enable_write s c off data = Inr c' \<and> ctx_ok c'"
proof -
  let ?w = "off div 4"
  let ?old = "irq_enable c ! ?w" and ?new = "if ?w = 0 then clrf data 1 else data"
  let ?c1 = "c\<lparr>irq_enable := (irq_enable c)[?w := ?new]\<rparr>"
  have w: "?w < 32" using assms(3) by simp
  have c: "ctx_bits c" "length (irq_enable c) = 32" using assms(2) by (auto simp: ctx_ok_def ctx_bits_def ctx_sized_def)
  have zero: "\<not> bit (clrf data 1) 0" by (simp add: clrf_def bit_simps)
  have en: "has_irq i (irq_enable ?c1) \<longleftrightarrow> (if i div 32 = ?w then bit ?new (i mod 32) else has_irq i (irq_enable c))" for i
    using w c(2) by (simp add: has_irq_bit nth_list_update)
  have "enable_inv ?old ?new ?w 0 ?c1"
    unfolding enable_inv_def
  proof (intro conjI allI impI)
    show "ctx_sized ?c1" using c(1) by (simp add: ctx_bits_def ctx_sized_def)
    show "\<not> has_irq 0 (irq_enable ?c1)"
      using c(1) zero by (subst en) (auto simp: ctx_bits_def)
    show "irq_enable ?c1 ! ?w = ?new" using w c(2) by simp
    fix i :: nat assume i: "i < MAX_DEVICES"
    show "has_irq i (irq_claimed ?c1) \<Longrightarrow> has_irq i (irq_pending ?c1)"
      "\<not> has_irq i (irq_pending ?c1) \<Longrightarrow> irq_pending_priority ?c1 ! i = 0"
      using c(1) i by (auto simp: ctx_bits_def)
    assume "has_irq i (irq_pending ?c1)"
    then have old: "has_irq i (irq_enable c)" using c(1) i by (auto simp: ctx_bits_def)
    show "has_irq i (irq_enable ?c1) \<or> (\<exists>j<32. 0 \<le> j \<and> i = ?w * 32 + j \<and> bit ?old j)"
    proof (cases "i div 32 = ?w")
      case True
      then have "i = ?w * 32 + i mod 32" by (metis div_mult_mod_eq)
      moreover have "bit ?old (i mod 32)" using old True by (simp add: has_irq_bit)
      ultimately show ?thesis by (meson mod_less_divisor zero_le zero_less_numeral)
    next
      case False
      with old show ?thesis using en [of i] by (simp only: if_False simp_thms)
    qed
  qed
  then have "enable_inv ?old ?new ?w 32 (foldl (enable_bit s ?w (?old XOR ?new) ?new) ?c1 [0..<32])"
    by (rule enable_fold_inv [OF _ w]) simp
  then have "ctx_bits (foldl (enable_bit s ?w (?old XOR ?new) ?new) ?c1 [0..<32])"
    by (auto simp: enable_inv_def ctx_bits_def)
  then show ?thesis
    using update_ok [OF assms(1)] w c(2) assms(1)
    by (simp add: plic_context_enable_write_def Let_def sized_def)
qed

lemma context_read_ok: "sized s \<Longrightarrow> ctx_ok c \<Longrightarrow> ctx_ok (snd (plic_context_read s c off))"
  using claim_ok [of s c] by (auto simp: plic_context_read_def split: prod.splits)

lemma context_write_ok:
  assumes "sized s" and "ctx_ok c"
  shows "ctx_ok (plic_context_write s c off data)"
proof -
  have c: "ctx_bits c" using assms(2) by (simp add: ctx_ok_def)
  have "ctx_bits (c\<lparr>irq_claimed := clr_irq val (irq_claimed c)\<rparr>)" if "val < MAX_DEVICES" for val
    using c that by (auto simp: ctx_bits_def ctx_sized_def)
  moreover have "ctx_ok (c\<lparr>irq_priority_threshold := t\<rparr>)" for t
    using assms(2) by (simp add: ctx_ok_def candidate_def)
  ultimately show ?thesis
    using assms c update_ok [OF assms(1)] by (auto simp: plic_context_write_def Let_def sized_def)
qed

lemma enable_read_ok:
  "sized s \<Longrightarrow> ctx_ok c \<Longrightarrow> off < 128 \<Longrightarrow> \<exists>v. plic_context_enable_read s c off = Inr v"
  by (auto simp: plic_context_enable_read_def Let_def aget_def ctx_ok_def ctx_bits_def ctx_sized_def sized_def)

lemma reg_offset: "(b :: nat) \<le> a \<Longrightarrow> a - ((a - b) div n * n + b) = (a - b) mod n"
  by (metis add.commute diff_diff_left minus_div_mult_eq_mod)

lemma callback_ok:
  assumes "plic_ok s"
  shows "\<exists>d s'. plic_mmio_callback s addr data 4 wr = Inr (d, s') \<and> plic_ok s'"
proof -
  define a where "a = unat ((addr AND NOT 3) - RISCV_IRQCHIP)"
  define e where "e = (a - ENABLE_BASE) div ENABLE_PER_HART"
  define k where "k = (a - CONTEXT_BASE) div CONTEXT_PER_HART"
  have s: "sized s" using assms by (simp add: plic_ok_def)
  have eoff: "a - (e * ENABLE_PER_HART + ENABLE_BASE) < 128" if "\<not> a < ENABLE_BASE"
    using that reg_offset [of ENABLE_BASE a ENABLE_PER_HART] by (simp add: e_def)
  have prio: "plic_ok (plic_priority_write s a data)"
    using assms by (auto simp: plic_ok_def plic_priority_write_def Let_def sized_def)
  have en: "\<exists>c'. plic_context_enable_write s (contexts s ! e) (a - (e * ENABLE_PER_HART + ENABLE_BASE)) data = Inr c' \<and> ctx_ok c'"
    "\<exists>v. plic_context_enable_read s (contexts s ! e) (a - (e * ENABLE_PER_HART + ENABLE_BASE)) = Inr v"
    if "\<not> a < ENABLE_BASE" "e < num_context s"
    using plic_okD [OF assms that(2)] enable_write_ok [OF s _ eoff [OF that(1)]]
      enable_read_ok [OF s _ eoff [OF that(1)]] by auto
  have ctx: "k < num_context s \<Longrightarrow> ctx_ok (contexts s ! k)" "k < num_context s \<Longrightarrow> k < length (contexts s)"
    "e < num_context s \<Longrightarrow> e < length (contexts s)"
    using plic_okD [OF assms] by auto
  have rd: "k < num_context s \<Longrightarrow> ctx_ok (snd (plic_context_read s (contexts s ! k) off))" for off
    using context_read_ok [OF s ctx(1)] by simp
  show ?thesis
    using assms prio en ctx rd context_write_ok [OF s ctx(1)]
    unfolding plic_mmio_callback_def Let_def a_def [symmetric] e_def [symmetric] k_def [symmetric]
    by (auto simp: case_prod_unfold intro!: plic_ok_upd)
qed

section \<open>Runs\<close>

text \<open>
  What reaches the controller: four-byte accesses of the guest and changes of the input lines
  by the devices. A call that fails leaves the state as it is here; the properties below say
  which calls can fail.
\<close>

datatype plic_event = Access u64 u32 bool | Trig int bool bool

fun plic_step :: "plic_state \<Rightarrow> plic_event \<Rightarrow> plic_state" where
  "plic_step s (Access addr data wr) =
     (case plic_mmio_callback s addr data 4 wr of Inr (_, s') \<Rightarrow> s' | Inl _ \<Rightarrow> s)"
| "plic_step s (Trig irq level edge) =
     (case plic_irq_trig 257 irq level edge s of Inr (Some s') \<Rightarrow> s' | _ \<Rightarrow> s)"

lemma trig_ok:
  assumes "plic_ok s" and "plic_irq_trig fuel irq level edge s = Inr (Some s')"
  shows "plic_ok s'"
proof (cases "ready s")
  case True
  let ?s = "s\<lparr>irq_level := (if level then set_irq (nat irq) (irq_level s) else clr_irq (nat irq) (irq_level s))\<rparr>"
  have ok: "plic_ok ?s" using assms(1) by (simp add: plic_ok_def sized_def)
  from assms True have "trig_loop fuel 0 (nat irq) (irq_priority s ! nat irq) level edge ?s = Inr (Some s')"
    "nat irq < MAX_DEVICES"
    by (auto simp: plic_irq_trig_def Let_def plic_ok_def sized_def split: if_splits)
  from trig_loop_ok [OF ok this(2) this(1)] show ?thesis .
qed (use assms in \<open>simp add: plic_irq_trig_def\<close>)

interpretation plic: trap_device plic_ok plic_step
proof
  fix s e
  assume "plic_ok s"
  then show "plic_ok (plic_step s e)"
  proof (cases e)
    case (Access addr data wr)
    obtain d s' where "plic_mmio_callback s addr data 4 wr = Inr (d, s')" "plic_ok s'"
      using callback_ok [OF \<open>plic_ok s\<close>] by blast
    with Access show ?thesis by simp
  next
    case (Trig irq level edge)
    with \<open>plic_ok s\<close> trig_ok [of s 257 irq level edge] show ?thesis
      by (auto split: sum.splits option.splits)
  qed
qed

section \<open>Properties\<close>

definition plic_run :: "nat \<Rightarrow> plic_event list \<Rightarrow> plic_state" where
  "plic_run nrcpus es = foldl plic_step (plic_init nrcpus) es"

lemma plic_run_ok: "plic_ok (plic_run n es)"
  unfolding plic_run_def by (rule plic.run_inv [OF plic_init_ok])



text \<open>
  The nested loops of \<^verbatim>\<open>__plic_context_best_pending_irq\<close> return 0 exactly when no source is
  pending and unclaimed, and otherwise a pending, unclaimed source whose priority is the
  highest, the smallest number winning among equals.
\<close>

theorem plic_best_is_best:
  assumes "s = plic_run nrcpus es"
  shows "(plic_context_best_pending_irq s c = 0 \<longleftrightarrow> \<not> (\<exists>i. candidate c i)) \<and>
    (candidate c i \<longrightarrow> candidate c (plic_context_best_pending_irq s c) \<and>
       outranks c (plic_context_best_pending_irq s c) i)"
proof -
  have "sized s" using plic_run_ok assms by (simp add: plic_ok_def)
  then show ?thesis using best_nonzero_iff [of s c] best_spec [of s c] by blast
qed

definition sample_context :: plic_context where
  "sample_context = pend_irq 7 3 (pend_irq 5 3 (context_init\<lparr>irq_enable := set_irq 7 (set_irq 5 (replicate 32 0))\<rparr>))"

lemma sample_candidates: "candidate sample_context 5" "candidate sample_context 7"
  by (simp_all add: candidate_def sample_context_def pend_irq_def context_init_def)

theorem plic_best_is_best_witness:
  "outranks sample_context (plic_context_best_pending_irq (plic_run 1 []) sample_context) 7"
  using plic_best_is_best [OF refl, of 1 "[]" sample_context 7] sample_candidates by simp


definition sample_plic :: plic_state where
  "sample_plic = (plic_init 1)\<lparr>contexts := [plic_context_irq_update (plic_init 1) sample_context, context_init]\<rparr>"

lemma sample_plic_ok: "plic_ok sample_plic"
proof -
  have "ctx_bits (context_init\<lparr>irq_enable := set_irq 7 (set_irq 5 (replicate 32 0))\<rparr>)"
    by (auto simp: ctx_bits_def ctx_sized_def context_init_def)
  then have "ctx_bits sample_context"
    unfolding sample_context_def by (intro pend_bits) (auto simp: pend_irq_def)
  moreover have "plic_ok (plic_init 1)" by (rule plic_init_ok)
  ultimately show ?thesis
    by (auto simp: plic_ok_def sample_plic_def sized_def intro: update_ok) (auto simp: plic_init_def)
qed


text \<open>
  The priority threshold of a context is written and read back but never used: whatever
  the threshold, the best pending source, the interrupt line and the claims are the same, so
  a source whose priority does not exceed the threshold still interrupts the hart.
\<close>

theorem plic_threshold_ignored:
  "plic_context_best_pending_irq s (c\<lparr>irq_priority_threshold := t\<rparr>) = plic_context_best_pending_irq s c \<and>
   virq (plic_context_irq_update s (c\<lparr>irq_priority_threshold := t\<rparr>)) = virq (plic_context_irq_update s c) \<and>
   fst (plic_context_irq_claim s (c\<lparr>irq_priority_threshold := t\<rparr>)) = fst (plic_context_irq_claim s c)"
proof -
  have "best_step s (c\<lparr>irq_priority_threshold := t\<rparr>) = best_step s c"
    by (intro ext) (simp add: best_step_def)
  then have "best_word s (c\<lparr>irq_priority_threshold := t\<rparr>) = best_word s c"
    by (intro ext) (simp add: best_word_def)
  then show ?thesis
    by (simp add: plic_context_best_pending_irq_def plic_context_irq_update_def plic_context_irq_claim_def Let_def)
qed

text \<open>
  Raising or lowering a source that exists ends, with a fuel of one turn more than there
  are contexts, when there are at most 127 harts; with 128 harts or more the loop of
  \<^verbatim>\<open>plic__irq_trig\<close> never ends when no context has the source enabled, because its counter has
  eight bits; and a call for a source that does not exist releases a mutex it has not taken.
\<close>

theorem plic_trig_outcomes:
  shows "(0 < irq \<and> irq < 1024 \<and> num_context (plic_run nrcpus es) \<le> 255 \<longrightarrow>
      (\<exists>s'. plic_irq_trig 256 irq level edge (plic_run nrcpus es) = Inr (Some s'))) \<and>
    (0 < irq \<and> irq < 1024 \<and> 256 \<le> num_context (plic_run nrcpus es) \<and> ready (plic_run nrcpus es) \<and>
     (\<forall>c\<in>set (contexts (plic_run nrcpus es)). \<not> has_irq (nat irq) (irq_enable c)) \<longrightarrow>
      plic_irq_trig fuel irq level edge (plic_run nrcpus es) = Inr None) \<and>
    (\<not> (0 < irq \<and> irq < 1024) \<and> ready (plic_run nrcpus es) \<longrightarrow>
      plic_irq_trig fuel irq level edge (plic_run nrcpus es) = Inl UnlockUnheld)"
proof -
  define s where "s = plic_run nrcpus es"
  have s: "plic_ok s" "sized s" using plic_run_ok by (auto simp: plic_ok_def s_def)
  let ?s = "s\<lparr>irq_level := (if level then set_irq (nat irq) (irq_level s) else clr_irq (nat irq) (irq_level s))\<rparr>"
  have s': "plic_ok ?s" "sized ?s" using s by (auto simp: plic_ok_def sized_def)
  have call: "plic_irq_trig f irq level edge s = trig_loop f 0 (nat irq) (irq_priority s ! nat irq) level edge ?s"
    if "0 < irq" "irq < 1024" "ready s" for f
    using that s(2) by (simp add: plic_irq_trig_def sized_def Let_def)
  have "\<exists>s'. plic_irq_trig 256 irq level edge s = Inr (Some s')"
    if "0 < irq" "irq < 1024" "num_context s \<le> 255"
  proof (cases "ready s")
    case True
    then show ?thesis
      using trig_loop_ends [OF s'(1), of 0 256] that by (simp only: call) simp
  qed (simp add: plic_irq_trig_def)
  moreover have "plic_irq_trig fuel irq level edge s = Inr None"
    if "0 < irq" "irq < 1024" "256 \<le> num_context s" "ready s"
      "\<forall>c\<in>set (contexts s). \<not> has_irq (nat irq) (irq_enable c)"
    using trig_loop_forever [OF s'(2)] that by (simp only: call) simp
  moreover have "plic_irq_trig fuel irq level edge s = Inl UnlockUnheld"
    if "\<not> (0 < irq \<and> irq < 1024)" "ready s"
    using that s(2) by (auto simp: plic_irq_trig_def sized_def)
  ultimately show ?thesis unfolding s_def by blast
qed

theorem plic_trig_outcomes_witness:
  "(\<exists>s'. plic_irq_trig 256 9 True False (plic_run 4 []) = Inr (Some s')) \<and>
   plic_irq_trig 1000 9 True False (plic_run 128 []) = Inr None \<and>
   plic_irq_trig 1 1024 True False (plic_run 4 []) = Inl UnlockUnheld"
  using plic_trig_outcomes [of 9 4 "[]" True False 0] plic_trig_outcomes [of 9 128 "[]" True False 1000]
    plic_trig_outcomes [of 1024 4 "[]" True False 1]
  by (simp add: plic_run_def plic_init_def context_init_def)

end
