(* ===== verification/Cfi.thy ===== *)
theory Cfi
  imports Prelude
begin

text \<open>
  The parallel flash of \<^verbatim>\<open>hw/cfi_flash.c\<close>: a command state machine in front of a memory-mapped
  array, with block locks, word and buffered programming and block erase.

  \<open>flash_memory\<close> is the mapped file, \<open>lock_bm\<close> the bits that were allocated for the locks,
  \<open>program_buffer\<close> the 128 bytes in the device structure; every access outside of them is
  \<open>Inl OutOfBounds\<close>. Offsets into the flash are natural numbers. The results of mapping and
  unmapping the array in the guest (\<^verbatim>\<open>kvm_register_mem\<close>, \<^verbatim>\<open>kvm_destroy_mem\<close>) are arguments, and so is
  what the stack holds where \<^verbatim>\<open>value\<close> is not written.
\<close>

section \<open>State\<close>

abbreviation (input) FLASH_BLOCK_SIZE :: nat where "FLASH_BLOCK_SIZE \<equiv> 65536"
abbreviation (input) PROGRAM_BUFF_SIZE :: nat where "PROGRAM_BUFF_SIZE \<equiv> 128"
abbreviation (input) CFI_STATUS_LOCK_ERROR :: u8 where "CFI_STATUS_LOCK_ERROR \<equiv> 0x12"
abbreviation (input) CFI_STATUS_ERASE_ERROR :: u8 where "CFI_STATUS_ERASE_ERROR \<equiv> 0x30"
abbreviation (input) CFI_STATUS_PROGRAM_LOCK_BIT :: u8 where "CFI_STATUS_PROGRAM_LOCK_BIT \<equiv> 0x10"
abbreviation (input) CFI_STATUS_READY :: u8 where "CFI_STATUS_READY \<equiv> 0x80"

datatype cfi_flash_state =
  READY | LOCK_BLOCK_SETUP | WORD_PROGRAM | BUFFERED_PROGRAM_SETUP | BUFFER_WRITE | ERASE_BLOCK_SETUP

datatype cfi_read_mode = READ_ARRAY | READ_STATUS_REG | READ_JEDEC_DEVID | READ_CFI_QUERY

record cfi_flash_device =
  base_addr :: u64
  fsize :: nat
  flash_memory :: "u8 list"
  program_buffer :: "u8 list"
  lock_bm :: "bool list"
  block_address :: "nat option"
  buff_written :: nat
  buffer_length :: nat
  fstate :: cfi_flash_state
  read_mode :: cfi_read_mode
  sr :: u8
  is_mapped :: bool

text \<open>\<open>block_address\<close> is \<open>None\<close> for the value \<^verbatim>\<open>~0ULL\<close> that marks an empty buffer.\<close>

definition cfi_query_table :: "u8 list" where
  "cfi_query_table = replicate 16 0 @
     [0x51, 0x52, 0x59, 0x01, 0x00, 0x31, 0x00, 0x00, 0x00, 0x00, 0x00,
      0x45, 0x55, 0x00, 0x00, 0x01, 0x01, 0x01, 0x00, 0x00, 0x00, 0x00, 0x00,
      0x00, 0x05, 0x00, 0x06, 0x00, 0x01, 0x00, 0x00, 0x00, 0x00,
      0x50, 0x52, 0x49, 0x31, 0x30, 0xa0, 0x00, 0x00, 0x00, 0x00, 0x01, 0x00, 0x50, 0x00, 0x01,
      0x00, 0x00, 0x00, 0x00]"

section \<open>Geometry\<close>

fun bit_length :: "nat \<Rightarrow> nat" where
  "bit_length n = (if n = 0 then 0 else Suc (bit_length (n div 2)))"

declare bit_length.simps [simp del]

definition pow2_size :: "nat \<Rightarrow> nat" where
  "pow2_size x = (if x \<le> 1 then x else bit_length (x - 1))"

definition nr_erase_blocks :: "cfi_flash_device \<Rightarrow> nat" where
  "nr_erase_blocks d = fsize d div FLASH_BLOCK_SIZE"

text \<open>The size that is used of a file of \<open>n\<close> bytes; \<open>max\<close> is the limit of the architecture.\<close>

definition flash_size :: "nat \<Rightarrow> nat \<Rightarrow> nat" where
  "flash_size mx n = (let s = 2 ^ (pow2_size (n + 1) - 1) in if s > mx then mx else s)"

definition create_flash_device :: "u64 \<Rightarrow> nat \<Rightarrow> u8 list \<Rightarrow> bool \<Rightarrow> cfi_flash_device" where
  "create_flash_device base mx file mapped =
     (let size = flash_size mx (length file)
      in \<lparr> base_addr = base, fsize = size, flash_memory = take size file,
           program_buffer = replicate PROGRAM_BUFF_SIZE 0,
           lock_bm = replicate ((size div FLASH_BLOCK_SIZE + 63) div 64 * 64) False,
           block_address = None, buff_written = 0, buffer_length = 0,
           fstate = READY, read_mode = READ_ARRAY, sr = CFI_STATUS_READY, is_mapped = mapped \<rparr>)"

section \<open>Reading\<close>

definition read_cfi :: "cfi_flash_device \<Rightarrow> nat \<Rightarrow> u8 result" where
  "read_cfi d faddr =
     (if faddr > length cfi_query_table then Inr 0
      else if faddr = 0x27 then Inr (of_nat (pow2_size (fsize d div 2)))
      else if faddr = 0x2d then Inr (ucast ((of_nat (nr_erase_blocks d) - 1 :: u32) AND 0xff))
      else if faddr = 0x2e then Inr (ucast (signed_drop_bit 8 (of_nat (nr_erase_blocks d) - 1 :: u32) AND 0xff))
      else if faddr = 0x2f then Inr (of_nat (FLASH_BLOCK_SIZE div 2 div 256))
      else if faddr = 0x30 then Inr (of_nat (FLASH_BLOCK_SIZE div 2 div 256 div 256))
      else aget cfi_query_table faddr)"

definition block_is_locked :: "cfi_flash_device \<Rightarrow> nat \<Rightarrow> bool result" where
  "block_is_locked d faddr = aget (lock_bm d) (faddr div FLASH_BLOCK_SIZE)"

definition read_dev_id :: "cfi_flash_device \<Rightarrow> nat \<Rightarrow> u16 result" where
  "read_dev_id d faddr =
     (let r = faddr mod 0x800 div 4
      in if r = 0 then Inr 0 else if r = 1 then Inr 0xffff
         else if r = 2 then rbind (block_is_locked d (faddr - faddr mod 0x800)) (\<lambda>b. Inr (if b then 1 else 0))
         else Inr 0)"

text \<open>The bytes of a value other than the array, for each length of access.\<close>

definition read_value :: "u16 \<Rightarrow> u8 list \<Rightarrow> u8 list" where
  "read_value v data =
     (let lo = ucast v :: u8; hi = ucast (drop_bit 8 v) :: u8
      in if length data = 1 then [lo]
         else if length data = 8 then [lo, hi, lo, hi, 0, 0, 0, 0]
         else if length data = 4 then [lo, hi, lo, hi]
         else if length data = 2 then [lo, hi]
         else data)"

definition cfi_flash_read :: "cfi_flash_device \<Rightarrow> nat \<Rightarrow> u8 list \<Rightarrow> u8 list result" where
  "cfi_flash_read d faddr data =
     (case read_mode d of
        READ_ARRAY \<Rightarrow> memcpy_from (flash_memory d) faddr (length data)
      | READ_STATUS_REG \<Rightarrow> Inr (read_value (ucast (sr d)) data)
      | READ_JEDEC_DEVID \<Rightarrow> rbind (read_dev_id d faddr) (\<lambda>v. Inr (read_value v data))
      | READ_CFI_QUERY \<Rightarrow> rbind (read_cfi d (faddr div 4)) (\<lambda>v. Inr (read_value (ucast v) data)))"

section \<open>Programming\<close>

definition lock_block :: "nat \<Rightarrow> bool \<Rightarrow> cfi_flash_device \<Rightarrow> cfi_flash_device result" where
  "lock_block faddr lock d =
     rbind (aset (lock_bm d) (faddr div FLASH_BLOCK_SIZE) lock) (\<lambda>bm. Inr (d\<lparr>lock_bm := bm\<rparr>))"

definition lock_error :: "cfi_flash_device \<Rightarrow> cfi_flash_device" where
  "lock_error d = d\<lparr>sr := sr d OR CFI_STATUS_LOCK_ERROR\<rparr>"

definition word_program :: "nat \<Rightarrow> u8 list \<Rightarrow> cfi_flash_device \<Rightarrow> cfi_flash_device result" where
  "word_program faddr data d =
     rbind (block_is_locked d faddr) (\<lambda>locked.
       if locked then Inr (lock_error d)
       else rbind (memcpy_to (flash_memory d) faddr data) (\<lambda>m. Inr (d\<lparr>flash_memory := m\<rparr>)))"

definition buffer_setup :: "cfi_flash_device \<Rightarrow> cfi_flash_device" where
  "buffer_setup d = d\<lparr>program_buffer := replicate PROGRAM_BUFF_SIZE 0, block_address := None, buff_written := 0\<rparr>"

definition buffer_write :: "nat \<Rightarrow> u8 list \<Rightarrow> cfi_flash_device \<Rightarrow> (bool \<times> cfi_flash_device) result" where
  "buffer_write faddr data d =
     (if buffer_length d \<le> buff_written d then Inr (False, d)
      else
        let base = (case block_address d of None \<Rightarrow> faddr | Some b \<Rightarrow> b);
            d1 = d\<lparr>block_address := Some base\<rparr>
        in if faddr < base then Inr (False, d1)
           else if PROGRAM_BUFF_SIZE \<le> faddr - base then Inr (False, d1)
           else rbind (memcpy_to (program_buffer d) (faddr - base) data) (\<lambda>b.
             Inr (True, d1\<lparr>program_buffer := b, buff_written := buff_written d + length data\<rparr>)))"

text \<open>
  With an empty buffer the block address is \<^verbatim>\<open>~0ULL\<close>, far outside of the lock bits.
\<close>

definition buffer_confirm :: "cfi_flash_device \<Rightarrow> cfi_flash_device result" where
  "buffer_confirm d =
     (case block_address d of
        None \<Rightarrow> Inl OutOfBounds
      | Some base \<Rightarrow>
          rbind (block_is_locked d base) (\<lambda>locked.
            if locked then Inr (lock_error d)
            else rbind (memcpy_from (program_buffer d) 0 (buff_written d)) (\<lambda>bytes.
                 rbind (memcpy_to (flash_memory d) base bytes) (\<lambda>m. Inr (d\<lparr>flash_memory := m\<rparr>)))))"

definition block_erase_confirm :: "nat \<Rightarrow> cfi_flash_device \<Rightarrow> cfi_flash_device result" where
  "block_erase_confirm faddr d =
     rbind (block_is_locked d faddr) (\<lambda>locked.
       if locked then Inr (lock_error d)
       else rbind (memcpy_to (flash_memory d) faddr (replicate FLASH_BLOCK_SIZE 0xff)) (\<lambda>m.
            Inr (d\<lparr>flash_memory := m\<rparr>)))"

section \<open>The command state machine\<close>

definition cfi_flash_write_ready :: "u8 \<Rightarrow> cfi_flash_device \<Rightarrow> cfi_flash_device" where
  "cfi_flash_write_ready command d =
     (if command = 0x90 then d\<lparr>read_mode := READ_JEDEC_DEVID\<rparr>
      else if command = 0x70 then d\<lparr>read_mode := READ_STATUS_REG\<rparr>
      else if command = 0x98 then d\<lparr>read_mode := READ_CFI_QUERY\<rparr>
      else if command = 0x50 then d\<lparr>sr := CFI_STATUS_READY\<rparr>
      else if command = 0x40 \<or> command = 0x10 then d\<lparr>fstate := WORD_PROGRAM, read_mode := READ_STATUS_REG\<rparr>
      else if command = 0x60 then d\<lparr>fstate := LOCK_BLOCK_SETUP\<rparr>
      else if command = 0x20 then d\<lparr>fstate := ERASE_BLOCK_SETUP, read_mode := READ_STATUS_REG\<rparr>
      else if command = 0xe8 then (buffer_setup d)\<lparr>fstate := BUFFERED_PROGRAM_SETUP, read_mode := READ_STATUS_REG\<rparr>
      else if command = 0xd0 then d
      else d\<lparr>read_mode := READ_ARRAY\<rparr>)"

definition cfi_flash_write :: "u16 \<Rightarrow> nat \<Rightarrow> u8 list \<Rightarrow> cfi_flash_device \<Rightarrow> cfi_flash_device result" where
  "cfi_flash_write command faddr data d =
     (let cmd = ucast command :: u8
      in case fstate d of
        READY \<Rightarrow> Inr (cfi_flash_write_ready cmd d)
      | LOCK_BLOCK_SETUP \<Rightarrow>
          rbind (if cmd = 0x01 then rbind (lock_block faddr True d) (\<lambda>d. Inr (d\<lparr>read_mode := READ_STATUS_REG\<rparr>))
                 else if cmd = 0xd0 then rbind (lock_block faddr False d) (\<lambda>d. Inr (d\<lparr>read_mode := READ_STATUS_REG\<rparr>))
                 else Inr (d\<lparr>sr := sr d OR CFI_STATUS_ERASE_ERROR\<rparr>)) (\<lambda>d.
          Inr (d\<lparr>fstate := READY\<rparr>))
      | WORD_PROGRAM \<Rightarrow>
          rbind (word_program faddr data d) (\<lambda>d. Inr (d\<lparr>read_mode := READ_STATUS_REG, fstate := READY\<rparr>))
      | BUFFER_WRITE \<Rightarrow>
          rbind (buffer_write faddr data d) (\<lambda>(ok, d).
            if ok then Inr d
            else rbind (if cmd = 0xd0
                        then rbind (buffer_confirm d) (\<lambda>d. Inr (d\<lparr>read_mode := READ_STATUS_REG\<rparr>))
                        else Inr (d\<lparr>sr := sr d OR CFI_STATUS_PROGRAM_LOCK_BIT\<rparr>)) (\<lambda>d.
                 Inr (d\<lparr>fstate := READY\<rparr>)))
      | BUFFERED_PROGRAM_SETUP \<Rightarrow>
          Inr (d\<lparr>buffer_length := (if (unat command + 1) * 4 > PROGRAM_BUFF_SIZE then PROGRAM_BUFF_SIZE
                                     else (unat command + 1) * 4),
                  fstate := BUFFER_WRITE, read_mode := READ_STATUS_REG\<rparr>)
      | ERASE_BLOCK_SETUP \<Rightarrow>
          rbind (if cmd = 0xd0 then block_erase_confirm faddr d
                 else Inr (d\<lparr>sr := sr d OR CFI_STATUS_ERASE_ERROR\<rparr>)) (\<lambda>d.
          Inr (d\<lparr>fstate := READY, read_mode := READ_STATUS_REG\<rparr>)))"

text \<open>The low half of \<^verbatim>\<open>value\<close> after the bytes of the access are copied over what was there.\<close>

definition mmio_command :: "u16 \<Rightarrow> u8 list \<Rightarrow> u16" where
  "mmio_command junk data =
     (case data of
        [] \<Rightarrow> junk
      | [b] \<Rightarrow> ucast b OR (junk AND 0xff00)
      | b # c # _ \<Rightarrow> ucast b OR push_bit 8 (ucast c))"

definition cfi_flash_mmio ::
  "u16 \<Rightarrow> bool \<Rightarrow> u64 \<Rightarrow> u8 list \<Rightarrow> bool \<Rightarrow> cfi_flash_device \<Rightarrow> (u8 list \<times> cfi_flash_device) result" where
  "cfi_flash_mmio junk mem_ok addr data is_write d =
     (let faddr = unat (addr - base_addr d)
      in if \<not> is_write then rbind (cfi_flash_read d faddr data) (\<lambda>data'. Inr (data', d))
         else if length data > 4 then Inr (data, d)
         else rbind (cfi_flash_write (mmio_command junk data) faddr data d) (\<lambda>d'.
           Inr (data,
             if \<not> is_mapped d' \<and> read_mode d' = READ_ARRAY then (if mem_ok then d'\<lparr>is_mapped := True\<rparr> else d')
             else if is_mapped d' \<and> read_mode d' \<noteq> READ_ARRAY then (if mem_ok then d'\<lparr>is_mapped := False\<rparr> else d')
             else d')))"

section \<open>The invariant\<close>

definition flash_ok :: "cfi_flash_device \<Rightarrow> bool" where
  "flash_ok d \<longleftrightarrow> length (flash_memory d) = fsize d \<and> fsize d mod FLASH_BLOCK_SIZE = 0 \<and>
     fsize d div FLASH_BLOCK_SIZE \<le> length (lock_bm d) \<and> length (program_buffer d) = PROGRAM_BUFF_SIZE \<and>
     (is_mapped d \<longleftrightarrow> read_mode d = READ_ARRAY) \<and>
     (fstate d \<noteq> READY \<and> fstate d \<noteq> LOCK_BLOCK_SETUP \<longrightarrow> read_mode d = READ_STATUS_REG) \<and>
     (fstate d = BUFFERED_PROGRAM_SETUP \<longrightarrow> block_address d = None \<and> buff_written d = 0) \<and>
     (fstate d = BUFFER_WRITE \<longrightarrow>
        0 < buffer_length d \<and> buffer_length d \<le> PROGRAM_BUFF_SIZE \<and> buffer_length d mod 4 = 0 \<and>
        buff_written d mod 4 = 0 \<and> buff_written d \<le> buffer_length d \<and>
        (case block_address d of None \<Rightarrow> buff_written d = 0
         | Some b \<Rightarrow> b < fsize d \<and> b mod PROGRAM_BUFF_SIZE = 0))"

text \<open>
  How a driver is expected to write: aligned words inside the flash, buffers that start at a
  multiple of their size, and erase commands at the start of a block.
\<close>

definition polite :: "nat \<Rightarrow> u8 list \<Rightarrow> cfi_flash_device \<Rightarrow> bool" where
  "polite faddr data d \<longleftrightarrow> length data = 4 \<and> faddr mod 4 = 0 \<and> faddr < fsize d \<and>
     (fstate d = BUFFER_WRITE \<and> block_address d = None \<longrightarrow> faddr mod PROGRAM_BUFF_SIZE = 0) \<and>
     (fstate d = ERASE_BLOCK_SETUP \<longrightarrow> faddr mod FLASH_BLOCK_SIZE = 0)"

definition locked_at :: "cfi_flash_device \<Rightarrow> nat \<Rightarrow> bool" where
  "locked_at d i = lock_bm d ! (i div FLASH_BLOCK_SIZE)"

definition keeps_locked :: "cfi_flash_device \<Rightarrow> cfi_flash_device \<Rightarrow> bool" where
  "keeps_locked d d' \<longleftrightarrow> (\<forall>i < fsize d. locked_at d i \<longrightarrow> flash_memory d' ! i = flash_memory d ! i)"

lemma same_block: "(a :: nat) mod m = 0 \<Longrightarrow> m dvd n \<Longrightarrow> k < m \<Longrightarrow> (a + k) div n = a div n"
proof -
  assume "a mod m = 0" "m dvd n" "k < m"
  then obtain q p where "a = m * q" "n = m * p" by (metis dvdE mod_eq_0_iff_dvd)
  with \<open>k < m\<close> show ?thesis by (simp add: div_mult2_eq)
qed

lemma fits: "(a :: nat) mod m = 0 \<Longrightarrow> n mod m = 0 \<Longrightarrow> a < n \<Longrightarrow> a + m \<le> n"
  by (metis add_mono_thms_linordered_semiring(1) dvd_diff_nat dvd_imp_le le_add_diff_inverse less_imp_le_nat
      mod_eq_0_iff_dvd nat_add_left_cancel_le order_refl zero_less_diff)

text \<open>Writing at the start of an aligned piece of an unlocked block touches no locked byte.\<close>

lemma blit_keeps_locked:
  assumes "a mod m = 0" and "m dvd FLASH_BLOCK_SIZE" and "length bytes \<le> m" and "a + length bytes \<le> length (flash_memory d)"
    and "length (flash_memory d) = fsize d" and "\<not> locked_at d a" and "i < fsize d" and "locked_at d i"
  shows "blit (flash_memory d) a bytes ! i = flash_memory d ! i"
proof -
  have "\<not> (a \<le> i \<and> i < a + length bytes)"
  proof
    assume "a \<le> i \<and> i < a + length bytes"
    then have "(a + (i - a)) div FLASH_BLOCK_SIZE = a div FLASH_BLOCK_SIZE"
      using assms(1-3) by (intro same_block [of a m]) auto
    with \<open>a \<le> i \<and> _\<close> assms(6,8) show False by (simp add: locked_at_def)
  qed
  then show ?thesis using assms(4,5,7) by (auto simp: nth_blit)
qed

lemma locked_read:
  assumes "flash_ok d" and "a < fsize d"
  shows "block_is_locked d a = Inr (locked_at d a)"
proof -
  have "a div FLASH_BLOCK_SIZE < fsize d div FLASH_BLOCK_SIZE"
    using assms by (auto simp: flash_ok_def div_less_iff_less_mult)
  then show ?thesis using assms(1) by (simp add: block_is_locked_def locked_at_def flash_ok_def)
qed

lemma lock_ok:
  assumes "flash_ok d" and "a < fsize d"
  shows "\<exists>bm. lock_block a b d = Inr (d\<lparr>lock_bm := bm\<rparr>) \<and> length bm = length (lock_bm d) \<and>
    bm = (lock_bm d)[a div FLASH_BLOCK_SIZE := b]"
proof -
  have "a div FLASH_BLOCK_SIZE < length (lock_bm d)"
    using assms by (auto simp: flash_ok_def div_less_iff_less_mult intro: order.strict_trans2)
  then show ?thesis by (simp add: lock_block_def)
qed

text \<open>
  What a programming operation does, with \<open>bytes\<close> written at \<open>a\<close>, an aligned piece of the flash.
\<close>

definition programs :: "nat \<Rightarrow> u8 list \<Rightarrow> cfi_flash_device \<Rightarrow> cfi_flash_device" where
  "programs a bytes d =
     (if locked_at d a then lock_error d else d\<lparr>flash_memory := blit (flash_memory d) a bytes\<rparr>)"

lemma word_program_ok:
  assumes "flash_ok d" and "a < fsize d" and "a + length data \<le> fsize d"
  shows "word_program a data d = Inr (programs a data d)"
  using assms locked_read [OF assms(1,2)]
  by (simp add: word_program_def programs_def memcpy_to_def flash_ok_def)

lemma erase_ok:
  assumes "flash_ok d" and "a < fsize d" and "a mod FLASH_BLOCK_SIZE = 0"
  shows "block_erase_confirm a d = Inr (programs a (replicate FLASH_BLOCK_SIZE 0xff) d)"
proof -
  have "a + FLASH_BLOCK_SIZE \<le> fsize d"
    using assms by (intro fits) (auto simp: flash_ok_def)
  then show ?thesis
    using assms locked_read [OF assms(1,2)]
    by (simp add: block_erase_confirm_def programs_def memcpy_to_def flash_ok_def)
qed

lemma confirm_ok:
  assumes "flash_ok d" and "fstate d = BUFFER_WRITE" and "block_address d = Some a"
  shows "buffer_confirm d = Inr (programs a (take (buff_written d) (program_buffer d)) d)"
    and "a + buff_written d \<le> fsize d"
proof -
  have a: "a < fsize d" "a mod PROGRAM_BUFF_SIZE = 0" "buff_written d \<le> PROGRAM_BUFF_SIZE"
    using assms by (auto simp: flash_ok_def)
  moreover have "fsize d mod PROGRAM_BUFF_SIZE = 0"
    using assms(1) dvd_trans [of 128 65536 "fsize d"] by (simp add: flash_ok_def mod_eq_0_iff_dvd)
  ultimately have "a + PROGRAM_BUFF_SIZE \<le> fsize d" by (intro fits)
  then show le: "a + buff_written d \<le> fsize d" using a by simp
  show "buffer_confirm d = Inr (programs a (take (buff_written d) (program_buffer d)) d)"
    using assms a le locked_read [OF assms(1) a(1)]
    by (simp add: buffer_confirm_def programs_def memcpy_to_def memcpy_from_def flash_ok_def)
qed

text \<open>Each state of the machine, for a polite access.\<close>

definition good_after :: "cfi_flash_device \<Rightarrow> cfi_flash_device \<Rightarrow> bool" where
  "good_after d d' \<longleftrightarrow> flash_ok (d'\<lparr>is_mapped := (read_mode d' = READ_ARRAY)\<rparr>) \<and> keeps_locked d d' \<and>
     base_addr d' = base_addr d \<and> fsize d' = fsize d"

lemma keeps_locked_same [simp]: "flash_memory d' = flash_memory d \<Longrightarrow> keeps_locked d d'"
  by (simp add: keeps_locked_def)

lemma programs_keeps:
  assumes "flash_ok d" and "a mod m = 0" and "m dvd FLASH_BLOCK_SIZE" and "length bytes \<le> m" and "a + length bytes \<le> fsize d"
  shows "keeps_locked d (programs a bytes d)" and "length (flash_memory (programs a bytes d)) = fsize d"
  using assms blit_keeps_locked [of a m bytes d]
  by (auto simp: keeps_locked_def programs_def lock_error_def flash_ok_def)

lemma programs_fields [simp]:
  "fsize (programs a bytes d) = fsize d" "lock_bm (programs a bytes d) = lock_bm d"
  "base_addr (programs a bytes d) = base_addr d" "program_buffer (programs a bytes d) = program_buffer d"
  by (simp_all add: programs_def lock_error_def)

lemma ready_good:
  assumes "flash_ok d" and "fstate d = READY"
  shows "good_after d (cfi_flash_write_ready cmd d)"
  using assms unfolding cfi_flash_write_ready_def good_after_def
  by (auto simp: flash_ok_def buffer_setup_def)

lemma lock_setup_good:
  assumes "flash_ok d" and "polite a data d" and "fstate d = LOCK_BLOCK_SETUP"
  shows "\<exists>d'. cfi_flash_write c a data d = Inr d' \<and> good_after d d'"
proof -
  have "a < fsize d" using assms(2) by (simp add: polite_def)
  from lock_ok [OF assms(1) this] show ?thesis
    using assms(1,3) by (auto simp: cfi_flash_write_def Let_def good_after_def flash_ok_def)
qed

lemma word_program_good:
  assumes "flash_ok d" and "polite a data d" and "fstate d = WORD_PROGRAM"
  shows "\<exists>d'. cfi_flash_write c a data d = Inr d' \<and> good_after d d'"
proof -
  have a: "a < fsize d" "a mod 4 = 0" "length data = 4" using assms(2) by (auto simp: polite_def)
  moreover have "fsize d mod 4 = 0"
    using assms(1) dvd_trans [of 4 65536 "fsize d"] by (simp add: flash_ok_def mod_eq_0_iff_dvd)
  ultimately have "a + 4 \<le> fsize d" by (intro fits)
  with a have w: "word_program a data d = Inr (programs a data d)"
    and k: "keeps_locked d (programs a data d)" "length (flash_memory (programs a data d)) = fsize d"
    using word_program_ok [OF assms(1)] programs_keeps [OF assms(1), of a 4 data] by auto
  then show ?thesis
    using assms(1,3) by (simp add: cfi_flash_write_def good_after_def flash_ok_def keeps_locked_def)
qed

lemma erase_good:
  assumes "flash_ok d" and "polite a data d" and "fstate d = ERASE_BLOCK_SETUP"
  shows "\<exists>d'. cfi_flash_write c a data d = Inr d' \<and> good_after d d'"
proof -
  have a: "a < fsize d" "a mod FLASH_BLOCK_SIZE = 0" using assms(2,3) by (auto simp: polite_def)
  then have "a + FLASH_BLOCK_SIZE \<le> fsize d" using assms(1) by (intro fits) (auto simp: flash_ok_def)
  with a have w: "block_erase_confirm a d = Inr (programs a (replicate FLASH_BLOCK_SIZE 0xff) d)"
    and k: "keeps_locked d (programs a (replicate FLASH_BLOCK_SIZE 0xff) d)"
      "length (flash_memory (programs a (replicate FLASH_BLOCK_SIZE 0xff) d)) = fsize d"
    using erase_ok [OF assms(1)] programs_keeps [OF assms(1), of a FLASH_BLOCK_SIZE] by auto
  then show ?thesis
    using assms(1,3) by (auto simp: cfi_flash_write_def Let_def good_after_def flash_ok_def keeps_locked_def)
qed

lemma buffer_setup_good:
  assumes "flash_ok d" and "fstate d = BUFFERED_PROGRAM_SETUP"
  shows "\<exists>d'. cfi_flash_write c a data d = Inr d' \<and> good_after d d'"
  using assms by (auto simp: cfi_flash_write_def Let_def good_after_def flash_ok_def)

lemma mod4_less: "(a :: nat) mod 4 = 0 \<Longrightarrow> b mod 4 = 0 \<Longrightarrow> a < b \<Longrightarrow> a + 4 \<le> b"
  by (rule fits)

text \<open>A write to the buffer either stores the word or is refused, with the block address kept.\<close>

lemma buffer_write_ok:
  assumes "flash_ok d" and "polite a data d" and "fstate d = BUFFER_WRITE"
  shows "(\<exists>d'. buffer_write a data d = Inr (True, d') \<and> flash_ok d' \<and> flash_memory d' = flash_memory d \<and>
            base_addr d' = base_addr d \<and> fsize d' = fsize d \<and> read_mode d' = read_mode d) \<or>
    (buffer_write a data d = Inr (False, d) \<and> block_address d \<noteq> None)"
proof (cases "buffer_length d \<le> buff_written d")
  case True
  then have "block_address d \<noteq> None"
    using assms(1,3) by (cases "block_address d") (auto simp: flash_ok_def)
  with True show ?thesis by (simp add: buffer_write_def)
next
  case False
  define base where "base = (case block_address d of None \<Rightarrow> a | Some b \<Rightarrow> b)"
  have b: "base < fsize d" "base mod PROGRAM_BUFF_SIZE = 0"
    using assms by (auto simp: flash_ok_def polite_def base_def split: option.splits)
  have a: "a mod 4 = 0" "length data = 4" using assms(2) by (auto simp: polite_def)
  show ?thesis
  proof (cases "a < base \<or> PROGRAM_BUFF_SIZE \<le> a - base")
    case True
    then obtain x where "block_address d = Some x" by (cases "block_address d") (auto simp: base_def)
    moreover from this have "d\<lparr>block_address := Some x\<rparr> = d" by simp
    ultimately show ?thesis using True False by (auto simp: buffer_write_def base_def Let_def)
  next
    case in_range: False
    have "base mod 4 = 0" using b(2) dvd_trans [of 4 128 base] by (simp add: mod_eq_0_iff_dvd)
    then have "(a - base) mod 4 = 0" using a(1) in_range by (simp add: mod_eq_0_iff_dvd dvd_diff_nat)
    then have fit: "a - base + 4 \<le> PROGRAM_BUFF_SIZE" using in_range by (intro mod4_less) auto
    have "buff_written d + 4 \<le> buffer_length d"
      using False assms(1,3) by (intro mod4_less) (auto simp: flash_ok_def)
    moreover have "(buff_written d + 4) mod 4 = 0" using assms(1,3) by (simp add: flash_ok_def)
    ultimately have "flash_ok (d\<lparr>block_address := Some base,
        program_buffer := blit (program_buffer d) (a - base) data, buff_written := buff_written d + 4\<rparr>)"
      using assms(1,3) a b fit by (auto simp: flash_ok_def)
    then show ?thesis
      using False in_range fit a assms(1)
      by (auto simp: buffer_write_def base_def [symmetric] memcpy_to_def flash_ok_def Let_def)
  qed
qed

lemma buffer_good:
  assumes "flash_ok d" and "polite a data d" and "fstate d = BUFFER_WRITE"
  shows "\<exists>d'. cfi_flash_write c a data d = Inr d' \<and> good_after d d'"
proof -
  consider (stored) d' where "buffer_write a data d = Inr (True, d')" "flash_ok d'" "flash_memory d' = flash_memory d"
      "base_addr d' = base_addr d" "fsize d' = fsize d" "read_mode d' = read_mode d"
    | (refused) b where "buffer_write a data d = Inr (False, d)" "block_address d = Some b"
    using buffer_write_ok [OF assms] by auto
  then show ?thesis
  proof cases
    case stored
    moreover have "d'\<lparr>is_mapped := (read_mode d' = READ_ARRAY)\<rparr> = d'"
      using stored(2) by (simp add: flash_ok_def)
    ultimately show ?thesis
      using assms(3) by (simp add: cfi_flash_write_def good_after_def)
  next
    case refused
    note conf = confirm_ok [OF assms(1,3) refused(2)]
    have "b mod PROGRAM_BUFF_SIZE = 0" "length (take (buff_written d) (program_buffer d)) \<le> PROGRAM_BUFF_SIZE"
      "b + length (take (buff_written d) (program_buffer d)) \<le> fsize d"
      using assms(1,3) refused(2) conf(2) by (auto simp: flash_ok_def)
    from programs_keeps [OF assms(1) this(1) _ this(2,3)] refused conf(1) assms(1,3) show ?thesis
      by (auto simp: cfi_flash_write_def Let_def good_after_def flash_ok_def keeps_locked_def)
  qed
qed

lemma write_good:
  assumes "flash_ok d" and "polite a data d"
  shows "\<exists>d'. cfi_flash_write c a data d = Inr d' \<and> good_after d d'"
proof (cases "fstate d")
  case READY
  with ready_good [OF assms(1)] show ?thesis by (simp add: cfi_flash_write_def)
next
  case LOCK_BLOCK_SETUP
  then show ?thesis by (rule lock_setup_good [OF assms])
next
  case WORD_PROGRAM
  then show ?thesis by (rule word_program_good [OF assms])
next
  case BUFFERED_PROGRAM_SETUP
  then show ?thesis by (rule buffer_setup_good [OF assms(1)])
next
  case BUFFER_WRITE
  then show ?thesis by (rule buffer_good [OF assms])
next
  case ERASE_BLOCK_SETUP
  then show ?thesis by (rule erase_good [OF assms])
qed

lemma mmio_write_good:
  assumes "flash_ok d" and "polite (unat (addr - base_addr d)) data d"
  shows "\<exists>d'. cfi_flash_mmio junk True addr data True d = Inr (data, d') \<and> flash_ok d' \<and> keeps_locked d d' \<and>
    base_addr d' = base_addr d \<and> fsize d' = fsize d"
proof -
  obtain d' where d': "cfi_flash_write (mmio_command junk data) (unat (addr - base_addr d)) data d = Inr d'"
    "good_after d d'"
    using write_good [OF assms] by blast
  have len: "\<not> 4 < length data" using assms(2) by (simp add: polite_def)
  let ?d = "d'\<lparr>is_mapped := (read_mode d' = READ_ARRAY)\<rparr>"
  have "(if \<not> is_mapped d' \<and> read_mode d' = READ_ARRAY then (if True then d'\<lparr>is_mapped := True\<rparr> else d')
     else if is_mapped d' \<and> read_mode d' \<noteq> READ_ARRAY then (if True then d'\<lparr>is_mapped := False\<rparr> else d')
     else d') = ?d" by simp
  then have "cfi_flash_mmio junk True addr data True d = Inr (data, ?d)"
    using d'(1) len unfolding cfi_flash_mmio_def Let_def by simp
  then show ?thesis using d'(2) by (simp add: good_after_def keeps_locked_def)
qed

section \<open>What a driver does\<close>

text \<open>One write of the driver, and a sequence of them.\<close>

definition drive :: "nat \<times> u8 list \<Rightarrow> cfi_flash_device \<Rightarrow> cfi_flash_device result" where
  "drive w d = cfi_flash_write (mmio_command 0 (snd w)) (fst w) (snd w) d"

text \<open>
  The sequence that programs the words \<open>ws\<close> at \<open>base\<close> through the buffer: setup, the number of
  words minus one, the words, confirm.
\<close>

definition buffered_ops :: "nat \<Rightarrow> u8 list list \<Rightarrow> (nat \<times> u8 list) list" where
  "buffered_ops base ws =
     [(base, [0xe8, 0, 0, 0]), (base, [of_nat (length ws - 1), 0, 0, 0])] @
     map (\<lambda>i. (base + 4 * i, ws ! i)) [0..<length ws] @ [(base, [0xd0, 0, 0, 0])]"

definition filled :: "nat \<Rightarrow> u8 list list \<Rightarrow> nat \<Rightarrow> cfi_flash_device \<Rightarrow> cfi_flash_device" where
  "filled base ws k d = d\<lparr>program_buffer := concat (take k ws) @ replicate (128 - 4 * k) 0,
     block_address := (if k = 0 then None else Some base), buff_written := 4 * k,
     buffer_length := 4 * length ws, fstate := BUFFER_WRITE, read_mode := READ_STATUS_REG\<rparr>"

lemma length_concat4: "\<forall>w\<in>set ws. length w = 4 \<Longrightarrow> length (concat ws) = 4 * length ws"
  by (induction ws) auto

lemma filled_start:
  assumes "fstate d = READY" and "0 < length ws" and "length ws \<le> 32"
  shows "rfold drive [(base, [0xe8, 0, 0, 0]), (base, [of_nat (length ws - 1), 0, 0, 0])] d =
    Inr (filled base ws 0 d)"
proof -
  have n: "unat (of_nat (length ws - 1) :: u8) = length ws - 1"
    using assms(3) by (simp add: unat_of_nat)
  have u: "unat (ucast (of_nat (length ws - 1) :: u8) :: u16) = length ws - 1"
    using n assms(3) by (simp add: unsigned_ucast_eq take_bit_nat_eq_self)
  have "4 * (length ws - 1) + 4 = 4 * length ws" using assms(2) by (cases ws) auto
  with assms u show ?thesis
    by (auto simp: drive_def mmio_command_def cfi_flash_write_def cfi_flash_write_ready_def buffer_setup_def
        filled_def)
qed

lemma filled_step:
  assumes "k < length ws" and "length ws \<le> 32" and "\<forall>w\<in>set ws. length w = 4"
  shows "drive (base + 4 * k, ws ! k) (filled base ws k d) = Inr (filled base ws (Suc k) d)"
proof -
  have len: "length (concat (take k ws)) = 4 * k"
    using length_concat4 [of "take k ws"] assms(1,3) by (auto dest: in_set_takeD)
  have w: "length (ws ! k) = 4" using assms by simp
  have "128 - 4 * k = 4 + (128 - 4 * Suc k)" using assms(1,2) by simp
  then have rep: "replicate (128 - 4 * k) (0 :: u8) = replicate 4 0 @ replicate (128 - 4 * Suc k) 0"
    by (metis replicate_add)
  have "blit (concat (take k ws) @ replicate (128 - 4 * k) 0) (4 * k) (ws ! k) =
      concat (take (Suc k) ws) @ replicate (128 - 4 * Suc k) 0"
    unfolding rep blit_def using len w assms(1) by (simp add: take_Suc_conv_app_nth)
  moreover have "4 * k < 128" "4 * k + 4 \<le> 128" using assms(1,2) by simp_all
  ultimately show ?thesis
    using assms(1,2) w len
    by (cases "k = 0") (simp_all add: drive_def cfi_flash_write_def filled_def buffer_write_def memcpy_to_def)
qed

lemma filled_all:
  assumes "length ws \<le> 32" and "\<forall>w\<in>set ws. length w = 4" and "k \<le> length ws"
  shows "rfold drive (map (\<lambda>i. (base + 4 * i, ws ! i)) [0..<k]) (filled base ws 0 d) = Inr (filled base ws k d)"
  using assms(3)
proof (induction k)
  case (Suc k)
  then show ?case using filled_step [of k ws base d] assms by (simp add: rfold_append)
qed simp

lemma buffered_ok:
  assumes "flash_ok d" and "fstate d = READY" and "base mod PROGRAM_BUFF_SIZE = 0" and "base < fsize d"
    and "0 < length ws" "length ws \<le> 32" "\<forall>w\<in>set ws. length w = 4"
  shows "rfold drive (buffered_ops base ws) d =
    Inr ((programs base (concat ws) (filled base ws (length ws) d))\<lparr>fstate := READY\<rparr>)"
proof -
  let ?d = "filled base ws (length ws) d"
  have "fsize d mod PROGRAM_BUFF_SIZE = 0"
    using assms(1) dvd_trans [of 128 65536 "fsize d"] by (simp add: flash_ok_def mod_eq_0_iff_dvd)
  then have "base + PROGRAM_BUFF_SIZE \<le> fsize d" by (rule fits [OF assms(3) _ assms(4)])
  then have fit: "base + 4 * length ws \<le> length (flash_memory d)" using assms(1,6) by (simp add: flash_ok_def)
  have lk: "block_is_locked ?d base = Inr (locked_at ?d base)"
    using locked_read [OF assms(1,4)] by (simp add: filled_def block_is_locked_def locked_at_def)
  have conf: "buffer_confirm ?d = Inr (programs base (concat ws) ?d)"
    using lk fit assms(5,6) length_concat4 [OF assms(7)]
    by (auto simp: buffer_confirm_def filled_def programs_def memcpy_from_def memcpy_to_def)
  have "drive (base, [0xd0, 0, 0, 0]) ?d = Inr ((programs base (concat ws) ?d)\<lparr>read_mode := READ_STATUS_REG, fstate := READY\<rparr>)"
    using conf by (simp add: drive_def mmio_command_def cfi_flash_write_def buffer_write_def filled_def)
  moreover have "(programs base (concat ws) ?d)\<lparr>read_mode := READ_STATUS_REG\<rparr> = programs base (concat ws) ?d"
    by (simp add: programs_def lock_error_def filled_def)
  ultimately show ?thesis
    unfolding buffered_ops_def rfold_append filled_start [OF assms(2,5,6)] rbind_Inr filled_all [OF assms(6,7) le_refl]
    by simp
qed

section \<open>The initial state\<close>

lemma bit_length_bounds: "0 < n \<Longrightarrow> 0 < bit_length n \<and> 2 ^ (bit_length n - 1) \<le> n \<and> n < 2 ^ bit_length n"
proof (induction n rule: bit_length.induct)
  case (1 n)
  show ?case
  proof (cases "n div 2 = 0")
    case True
    then have "n = 1" using 1(2) by auto
    then show ?thesis by (simp add: bit_length.simps)
  next
    case False
    then have ih: "0 < bit_length (n div 2)" "2 ^ (bit_length (n div 2) - 1) \<le> n div 2" "n div 2 < 2 ^ bit_length (n div 2)"
      using 1 by auto
    obtain k where k: "bit_length (n div 2) = Suc k" using ih(1) by (cases "bit_length (n div 2)") auto
    have b: "bit_length n = Suc (Suc k)" using 1(2) k by (subst bit_length.simps) simp
    have "2 * 2 ^ k \<le> n" "n < 4 * 2 ^ k" using ih(2,3) k by simp_all
    with b show ?thesis by simp
  qed
qed

text \<open>The size is the largest power of two that the file has, up to the limit.\<close>

lemma flash_size_bounds:
  assumes "0 < n"
  shows "flash_size mx n \<le> n" and "flash_size mx n \<le> mx" and "n < 2 ^ 25 \<Longrightarrow> flash_size mx n = mx \<or> (\<exists>k. flash_size mx n = 2 ^ k \<and> n < 2 ^ Suc k)"
proof -
  have p: "pow2_size (n + 1) = bit_length n" using assms by (simp add: pow2_size_def)
  have b: "0 < bit_length n" "2 ^ (bit_length n - 1) \<le> n" "n < 2 ^ bit_length n"
    using bit_length_bounds [OF assms] by auto
  show "flash_size mx n \<le> n" "flash_size mx n \<le> mx" using b p by (auto simp: flash_size_def Let_def)
  have "n < 2 ^ Suc (bit_length n - 1)" using b(1,3) by simp
  then show "flash_size mx n = mx \<or> (\<exists>k. flash_size mx n = 2 ^ k \<and> n < 2 ^ Suc k)"
    using p by (auto simp: flash_size_def Let_def)
qed

lemma create_ok:
  assumes "FLASH_BLOCK_SIZE \<le> length file" and "mx mod FLASH_BLOCK_SIZE = 0"
  shows "flash_ok (create_flash_device base mx file True)"
proof -
  let ?n = "length file"
  let ?s = "flash_size mx ?n"
  have n: "0 < ?n" using assms(1) by auto
  have p: "pow2_size (?n + 1) = bit_length ?n" using n by (simp add: pow2_size_def)
  have "2 ^ 16 < (2 :: nat) ^ bit_length ?n" using bit_length_bounds [OF n] assms(1) by simp
  then have "16 < bit_length ?n" by (rule power_less_imp_less_exp [rotated]) simp
  then have "16 \<le> bit_length ?n - 1" by simp
  then have "(2 :: nat) ^ 16 dvd 2 ^ (bit_length ?n - 1)" by (rule le_imp_power_dvd)
  then have "?s mod FLASH_BLOCK_SIZE = 0"
    using assms(2) p by (auto simp: flash_size_def Let_def mod_eq_0_iff_dvd)
  moreover have "?s \<le> ?n" using flash_size_bounds(1) [OF n] .
  ultimately show ?thesis
    by (auto simp: create_flash_device_def Let_def flash_ok_def)
qed

section \<open>Properties\<close>

text \<open>A driver that only makes polite writes; the others are not made.\<close>

definition cfi_step :: "cfi_flash_device \<Rightarrow> u64 \<times> u8 list \<Rightarrow> cfi_flash_device" where
  "cfi_step d e =
     (if polite (unat (fst e - base_addr d)) (snd e) d
      then (case cfi_flash_mmio 0 True (fst e) (snd e) True d of Inr (_, d') \<Rightarrow> d' | Inl _ \<Rightarrow> d)
      else d)"

interpretation cfi: trap_device flash_ok cfi_step
proof
  fix d e
  assume "flash_ok d"
  then show "flash_ok (cfi_step d e)"
    using mmio_write_good [of d "fst e" "snd e" 0] by (auto simp: cfi_step_def)
qed


definition sample_file :: "u8 list" where
  "sample_file = replicate FLASH_BLOCK_SIZE 7"

lemma sample_file_length: "length sample_file = 65536"
  unfolding sample_file_def by (rule length_replicate)

definition sample_flash :: cfi_flash_device where
  "sample_flash = create_flash_device 0 65536 sample_file True"

lemma sample_flash_fields:
  "fsize sample_flash = 65536" "base_addr sample_flash = 0" "fstate sample_flash = READY" "flash_ok sample_flash"
  "\<not> locked_at sample_flash 0"
proof -
  have "bit_length 65536 = 17" by (simp add: bit_length.simps)
  then have "flash_size 65536 65536 = 65536" by (simp add: flash_size_def pow2_size_def)
  then show "fsize sample_flash = 65536" "base_addr sample_flash = 0" "fstate sample_flash = READY"
    "\<not> locked_at sample_flash 0"
    by (simp_all add: sample_flash_def create_flash_device_def sample_file_length Let_def locked_at_def)
  show "flash_ok sample_flash"
    unfolding sample_flash_def by (rule create_ok) (simp_all add: sample_file_length)
qed


text \<open>
  C19. Programming through the buffer: setup, the count, up to 32 words at increasing addresses
  from a multiple of 128, and confirm put exactly these words into an unlocked block and change
  no other byte, and the array reads them back after the read-array command; in a locked block
  the flash is unchanged and the status register has the lock error bits.
\<close>

theorem cfi_buffered_program_roundtrip:
  assumes "flash_ok d" and "fstate d = READY" and "base mod PROGRAM_BUFF_SIZE = 0" and "base < fsize d"
    and "0 < length ws" and "length ws \<le> 32" and "\<forall>w\<in>set ws. length w = 4"
  shows "\<exists>d'. rfold drive (buffered_ops base ws @ [(base, [0xff, 0, 0, 0])]) d = Inr d' \<and>
    (if locked_at d base then flash_memory d' = flash_memory d \<and> sr d' = sr d OR CFI_STATUS_LOCK_ERROR
     else flash_memory d' = blit (flash_memory d) base (concat ws) \<and> sr d' = sr d \<and>
          cfi_flash_read d' base (replicate (4 * length ws) 0) = Inr (concat ws))"
proof -
  let ?p = "programs base (concat ws) (filled base ws (length ws) d)"
  have "fsize d mod PROGRAM_BUFF_SIZE = 0"
    using assms(1) dvd_trans [of 128 65536 "fsize d"] by (simp add: flash_ok_def mod_eq_0_iff_dvd)
  then have "base + PROGRAM_BUFF_SIZE \<le> fsize d" by (rule fits [OF assms(3) _ assms(4)])
  then have fit: "base + length (concat ws) \<le> length (flash_memory d)"
    using assms(1,6) length_concat4 [OF assms(7)] by (simp add: flash_ok_def)
  have run: "rfold drive (buffered_ops base ws @ [(base, [0xff, 0, 0, 0])]) d =
      Inr (?p\<lparr>fstate := READY, read_mode := READ_ARRAY\<rparr>)"
    using buffered_ok [OF assms(1-4) assms(5-7)]
    by (simp add: rfold_append drive_def mmio_command_def cfi_flash_write_def cfi_flash_write_ready_def)
  show ?thesis
    unfolding run using fit length_concat4 [OF assms(7)] take_drop_blit [OF fit]
    by (simp add: programs_def filled_def lock_error_def locked_at_def cfi_flash_read_def memcpy_from_def)
qed

theorem cfi_buffered_program_roundtrip_witness:
  "\<exists>d'. rfold drive (buffered_ops 0 [[1, 2, 3, 4], [5, 6, 7, 8]] @ [(0, [0xff, 0, 0, 0])]) sample_flash = Inr d' \<and>
    cfi_flash_read d' 0 (replicate 8 0) = Inr [1, 2, 3, 4, 5, 6, 7, 8]"
  using cfi_buffered_program_roundtrip [of sample_flash 0 "[[1, 2, 3, 4], [5, 6, 7, 8]]"]
  by (auto simp: sample_flash_fields)

text \<open>
  Erasing: setup and confirm at the start of an unlocked block set all 64 KiB of it to 0xff
  and change nothing else; a word program command writes its word; on a locked block both leave
  the flash unchanged and set the lock error bits.
\<close>

theorem cfi_erase_and_word_program:
  assumes "flash_ok d" and "fstate d = READY" and "a < fsize d" and "length w = 4" and "a mod 4 = 0"
  shows "(\<exists>d'. rfold drive [(a, [0x40, 0, 0, 0]), (a, w)] d = Inr d' \<and> fstate d' = READY \<and>
      (if locked_at d a then flash_memory d' = flash_memory d \<and> sr d' = sr d OR CFI_STATUS_LOCK_ERROR
       else flash_memory d' = blit (flash_memory d) a w \<and> sr d' = sr d)) \<and>
    (a mod FLASH_BLOCK_SIZE = 0 \<longrightarrow>
     (\<exists>d'. rfold drive [(a, [0x20, 0, 0, 0]), (a, [0xd0, 0, 0, 0])] d = Inr d' \<and> fstate d' = READY \<and>
      (if locked_at d a then flash_memory d' = flash_memory d \<and> sr d' = sr d OR CFI_STATUS_LOCK_ERROR
       else flash_memory d' = blit (flash_memory d) a (replicate FLASH_BLOCK_SIZE 0xff) \<and> sr d' = sr d)))"
proof -
  let ?w = "d\<lparr>fstate := WORD_PROGRAM, read_mode := READ_STATUS_REG, is_mapped := False\<rparr>"
  have "fsize d mod 4 = 0"
    using assms(1) dvd_trans [of 4 65536 "fsize d"] by (simp add: flash_ok_def mod_eq_0_iff_dvd)
  then have fit: "a + length w \<le> fsize d" using fits [OF assms(5) _ assms(3)] assms(4) by simp
  have lk: "block_is_locked d a = Inr (locked_at d a)" by (rule locked_read [OF assms(1,3)])
  have l: "length (flash_memory d) = fsize d" using assms(1) by (simp add: flash_ok_def)
  have 1: "rfold drive [(a, [0x40, 0, 0, 0]), (a, w)] d =
      Inr ((programs a w (d\<lparr>fstate := WORD_PROGRAM, read_mode := READ_STATUS_REG\<rparr>))\<lparr>fstate := READY\<rparr>)"
    using assms(2) lk fit l
    by (simp add: drive_def mmio_command_def cfi_flash_write_def cfi_flash_write_ready_def word_program_def
        block_is_locked_def programs_def locked_at_def memcpy_to_def lock_error_def)
  have 2: "rfold drive [(a, [0x20, 0, 0, 0]), (a, [0xd0, 0, 0, 0])] d =
      Inr ((programs a (replicate FLASH_BLOCK_SIZE 0xff)
              (d\<lparr>fstate := ERASE_BLOCK_SETUP, read_mode := READ_STATUS_REG\<rparr>))\<lparr>fstate := READY\<rparr>)"
    if "a mod FLASH_BLOCK_SIZE = 0"
  proof -
    have "a + FLASH_BLOCK_SIZE \<le> fsize d" using that assms(1,3) by (intro fits) (auto simp: flash_ok_def)
    then show ?thesis
      using assms(2) lk l
      by (simp add: drive_def mmio_command_def cfi_flash_write_def cfi_flash_write_ready_def block_erase_confirm_def
          block_is_locked_def programs_def locked_at_def memcpy_to_def lock_error_def)
  qed
  show ?thesis
    using 1 2 by (simp add: programs_def locked_at_def lock_error_def del: rfold.simps)
qed

theorem cfi_erase_and_word_program_witness:
  "\<exists>d'. rfold drive [(0, [0x40, 0, 0, 0]), (0, [1, 2, 3, 4])] sample_flash = Inr d' \<and>
     flash_memory d' = blit (flash_memory sample_flash) 0 [1, 2, 3, 4]"
  using cfi_erase_and_word_program [of sample_flash 0 "[1, 2, 3, 4]"]
  by (auto simp: sample_flash_fields simp del: rfold.simps)

text \<open>
  Writes that are not polite leave the arrays: a word written to the buffer at one of the
  last three offsets runs over the end of \<^verbatim>\<open>program_buffer\<close>, and an erase confirmed less than a block
  before the end of the flash runs over the end of the mapping; the code checks neither.
\<close>

theorem cfi_unaligned_writes_overflow:
  assumes "flash_ok d" and "a < fsize d" and "length w = 4"
  shows "(fstate d = BUFFER_WRITE \<and> block_address d = Some b \<and> buff_written d < buffer_length d \<and>
      b + 124 < a \<and> a < b + 128 \<longrightarrow> cfi_flash_write c a w d = Inl OutOfBounds) \<and>
    (fstate d = ERASE_BLOCK_SETUP \<and> \<not> locked_at d a \<and> fsize d < a + FLASH_BLOCK_SIZE \<longrightarrow>
      cfi_flash_write 0xd0 a w d = Inl OutOfBounds)"
proof -
  have lk: "block_is_locked d a = Inr (locked_at d a)" by (rule locked_read [OF assms(1,2)])
  have l: "length (flash_memory d) = fsize d" "length (program_buffer d) = 128"
    using assms(1) by (simp_all add: flash_ok_def)
  have 1: "cfi_flash_write c a w d = Inl OutOfBounds"
    if "fstate d = BUFFER_WRITE" "block_address d = Some b" "buff_written d < buffer_length d" "b + 124 < a" "a < b + 128"
  proof -
    have "\<not> a < b" "\<not> 128 \<le> a - b" "\<not> a - b + 4 \<le> 128" using that(4,5) by auto
    then show ?thesis
      using that(1-3) l assms(3) by (auto simp: cfi_flash_write_def buffer_write_def memcpy_to_def Let_def)
  qed
  have 2: "cfi_flash_write 0xd0 a w d = Inl OutOfBounds"
    if "fstate d = ERASE_BLOCK_SETUP" "\<not> locked_at d a" "fsize d < a + FLASH_BLOCK_SIZE"
    using that l lk by (simp add: cfi_flash_write_def block_erase_confirm_def memcpy_to_def)
  from 1 2 show ?thesis by blast
qed

theorem cfi_unaligned_writes_overflow_witness:
  "cfi_flash_write 0xd0 4 [0xd0, 0, 0, 0]
     (sample_flash\<lparr>fstate := ERASE_BLOCK_SETUP, read_mode := READ_STATUS_REG, is_mapped := False\<rparr>) = Inl OutOfBounds"
proof -
  let ?d = "sample_flash\<lparr>fstate := ERASE_BLOCK_SETUP, read_mode := READ_STATUS_REG, is_mapped := False\<rparr>"
  have "flash_ok ?d" "\<not> locked_at ?d 4"
    using sample_flash_fields(4,5) by (simp_all add: flash_ok_def locked_at_def)
  then show ?thesis
    using cfi_unaligned_writes_overflow [of ?d 4 "[0xd0, 0, 0, 0]" 0 0] by (simp add: sample_flash_fields)
qed

end
