(* ===== verification/Pci.thy ===== *)
theory Pci
  imports Prelude
begin

text \<open>
  The PCI bus of \<^verbatim>\<open>init/pci.c\<close> and \<^verbatim>\<open>include/kvm/pci.h\<close>: the allocators of bus addresses, the
  configuration space of each device with its base address registers (BARs), and the activation
  of the regions that the BARs describe.

  The configuration space is a list of bytes, in which the fields of \<^verbatim>\<open>struct pci_device_header\<close> are
  read and written in little-endian order. The devices are numbered from 0 in the order of
  their registration, so that \<^verbatim>\<open>device__find_dev\<close> is an index. \<open>ext\<close> says whether the architecture has
  4096 bytes of configuration space per device (\<^verbatim>\<open>ARCH_HAS_PCI_EXP\<close>) or 256. What the
  devices do when a BAR is activated or deactivated, and their own configuration hooks, are
  arguments that act on the rest \<open>'w\<close> of the machine.
\<close>

section \<open>Allocation of bus addresses\<close>

definition pci_get_io_port_block :: "u32 \<Rightarrow> u16 \<Rightarrow> u16 \<times> u16" where
  "pci_get_io_port_block sz io_port_blocks =
     (let port = align_mask io_port_blocks (0x100 - 1) in (port, ucast ((ucast port :: u32) + sz)))"

definition pci_get_mmio_block :: "u32 \<Rightarrow> u32 \<Rightarrow> u32 \<times> u32" where
  "pci_get_mmio_block sz mmio_blocks =
     (let block = align_mask mmio_blocks (sz - 1) in (block, block + sz))"

section \<open>State\<close>

record pci_device_header =
  cfg :: "u8 list"
  bar_size :: "u32 list"
  bar_active :: "bool list"

record 'w pci =
  pci_config_address_bits :: u32
  pci_devs :: "pci_device_header list"
  pci_world :: 'w

definition cfg_command :: "pci_device_header \<Rightarrow> u16" where
  "cfg_command h = le_word (take 2 (drop 4 (cfg h)))"

definition cfg_bar :: "pci_device_header \<Rightarrow> nat \<Rightarrow> u32" where
  "cfg_bar h i = le_word (take 4 (drop (0x10 + 4 * i) (cfg h)))"

definition set_command :: "u16 \<Rightarrow> pci_device_header \<Rightarrow> pci_device_header" where
  "set_command v h = h\<lparr>cfg := blit (cfg h) 4 (le_bytes 2 v)\<rparr>"

definition set_bar :: "nat \<Rightarrow> u32 \<Rightarrow> pci_device_header \<Rightarrow> pci_device_header" where
  "set_bar i v h = h\<lparr>cfg := blit (cfg h) (0x10 + 4 * i) (le_bytes 4 v)\<rparr>"

definition upd_dev :: "nat \<Rightarrow> (pci_device_header \<Rightarrow> pci_device_header) \<Rightarrow> 'w pci \<Rightarrow> 'w pci" where
  "upd_dev n f s = s\<lparr>pci_devs := (pci_devs s)[n := f (pci_devs s ! n)]\<rparr>"

definition memory_space_enabled :: "u16 \<Rightarrow> bool" where
  "memory_space_enabled command = flag command 2"

definition io_space_enabled :: "u16 \<Rightarrow> bool" where
  "io_space_enabled command = flag command 1"

definition bar_is_io :: "u32 \<Rightarrow> bool" where
  "bar_is_io bar = flag bar 1"

definition bar_address :: "u32 \<Rightarrow> u32" where
  "bar_address bar = (if bar_is_io bar then bar AND NOT 3 else bar AND NOT 15)"

definition pci_bar_is_implemented :: "pci_device_header \<Rightarrow> nat \<Rightarrow> bool" where
  "pci_bar_is_implemented h i \<longleftrightarrow> bar_size h ! i \<noteq> 0"

definition pci_bar_is_active :: "pci_device_header \<Rightarrow> nat \<Rightarrow> bool" where
  "pci_bar_is_active h i = bar_active h ! i"

section \<open>Activation of regions\<close>

text \<open>
  \<open>fns True\<close> and \<open>fns False\<close> are \<^verbatim>\<open>bar_activate_fn\<close> and \<^verbatim>\<open>bar_deactivate_fn\<close> of device \<open>n\<close> for BAR \<open>i\<close>.
\<close>

type_synonym 'w bar_fns = "bool \<Rightarrow> nat \<Rightarrow> nat \<Rightarrow> pci_device_header \<Rightarrow> 'w \<Rightarrow> int \<times> 'w"

definition pci_toggle_bar :: "'w bar_fns \<Rightarrow> bool \<Rightarrow> nat \<Rightarrow> nat \<Rightarrow> 'w pci \<Rightarrow> int \<times> 'w pci" where
  "pci_toggle_bar fns activate n i s =
     (if pci_bar_is_active (pci_devs s ! n) i = activate then (0, s)
      else
        let (r, w) = fns activate n i (pci_devs s ! n) (pci_world s); s' = s\<lparr>pci_world := w\<rparr>
        in if r < 0 then (r, s')
           else (r, upd_dev n (\<lambda>h. h\<lparr>bar_active := (bar_active h)[i := activate]\<rparr>) s'))"

definition pci_activate_bar :: "'w bar_fns \<Rightarrow> nat \<Rightarrow> nat \<Rightarrow> 'w pci \<Rightarrow> int \<times> 'w pci" where
  "pci_activate_bar fns = pci_toggle_bar fns True"

definition pci_deactivate_bar :: "'w bar_fns \<Rightarrow> nat \<Rightarrow> nat \<Rightarrow> 'w pci \<Rightarrow> int \<times> 'w pci" where
  "pci_deactivate_bar fns = pci_toggle_bar fns False"

definition command_bar :: "'w bar_fns \<Rightarrow> nat \<Rightarrow> u16 \<Rightarrow> u16 \<Rightarrow> 'w pci \<Rightarrow> nat \<Rightarrow> 'w pci" where
  "command_bar fns n old new s i =
     (let h = pci_devs s ! n
      in if \<not> pci_bar_is_implemented h i then s
         else
           let s1 = (if flag (old XOR new) 1 \<and> bar_is_io (cfg_bar h i)
                     then snd (if io_space_enabled new then pci_activate_bar fns n i s
                               else pci_deactivate_bar fns n i s)
                     else s)
           in if flag (old XOR new) 2 \<and> \<not> bar_is_io (cfg_bar (pci_devs s1 ! n) i)
              then snd (if memory_space_enabled new then pci_activate_bar fns n i s1
                        else pci_deactivate_bar fns n i s1)
              else s1)"

definition pci_config_command_wr :: "'w bar_fns \<Rightarrow> nat \<Rightarrow> u16 \<Rightarrow> 'w pci \<Rightarrow> 'w pci" where
  "pci_config_command_wr fns n new s =
     upd_dev n (set_command new)
       (foldl (command_bar fns n (cfg_command (pci_devs s ! n)) new) s [0..<6])"

fun toggle_regions :: "'w bar_fns \<Rightarrow> bool \<Rightarrow> u32 \<Rightarrow> u32 \<Rightarrow> (nat \<times> nat) list \<Rightarrow> 'w pci \<Rightarrow> int \<times> 'w pci" where
  "toggle_regions fns activate start sz [] s = (0, s)"
| "toggle_regions fns activate start sz ((n, i) # ps) s =
     (let h = pci_devs s ! n; tmp_start = bar_address (cfg_bar h i); tmp_size = bar_size h ! i
      in if \<not> pci_bar_is_implemented h i \<or> tmp_start + tmp_size \<le> start \<or> start + sz \<le> tmp_start
         then toggle_regions fns activate start sz ps s
         else
           let (r, s') = (if activate then pci_activate_bar fns n i s else pci_deactivate_bar fns n i s)
           in if r < 0 then (r, s') else toggle_regions fns activate start sz ps s')"

definition all_bars :: "nat \<Rightarrow> (nat \<times> nat) list" where
  "all_bars ndevs = concat (map (\<lambda>n. map (Pair n) [0..<6]) [0..<ndevs])"

definition pci_toggle_bar_regions :: "'w bar_fns \<Rightarrow> bool \<Rightarrow> u32 \<Rightarrow> u32 \<Rightarrow> 'w pci \<Rightarrow> int \<times> 'w pci" where
  "pci_toggle_bar_regions fns activate start sz s =
     toggle_regions fns activate start sz (all_bars (length (pci_devs s))) s"

definition pci_config_bar_wr :: "'w bar_fns \<Rightarrow> nat \<Rightarrow> nat \<Rightarrow> u32 \<Rightarrow> 'w pci \<Rightarrow> 'w pci" where
  "pci_config_bar_wr fns n i value s =
     (let h = pci_devs s ! n; bar = cfg_bar h i;
          mask = (if bar_is_io bar then NOT 3 else NOT 15) :: u32
      in if value = 0xffffffff
         then upd_dev n (set_bar i ((NOT (bar_size h ! i - 1) AND mask) OR (bar AND NOT mask))) s
         else
           let v = (value AND mask) OR (bar AND NOT mask)
           in if (bar_is_io bar \<and> \<not> io_space_enabled (cfg_command h)) \<or>
                 (\<not> bar_is_io bar \<and> \<not> memory_space_enabled (cfg_command h))
              then upd_dev n (set_bar i v) s
              else
                let old_addr = bar_address bar; new_addr = bar_address v; sz = bar_size h ! i;
                    (r1, s1) = pci_deactivate_bar fns n i s
                in if r1 < 0 then s1
                   else
                     let (r2, s2) = pci_toggle_bar_regions fns False new_addr sz s1
                     in if r2 < 0 then snd (pci_activate_bar fns n i s2)
                        else
                          let (r3, s3) = pci_activate_bar fns n i (upd_dev n (set_bar i v) s2)
                          in if r3 < 0 then snd (pci_toggle_bar_regions fns True new_addr sz s3)
                             else snd (pci_toggle_bar_regions fns True old_addr sz s3))"

section \<open>Configuration accesses\<close>

definition function_number :: "bool \<Rightarrow> u32 \<Rightarrow> nat" where
  "function_number ext w = unat (drop_bit (if ext then 12 else 8) w AND 7)"

definition device_number :: "bool \<Rightarrow> u32 \<Rightarrow> nat" where
  "device_number ext w = unat (drop_bit (if ext then 15 else 11) w AND 31)"

definition bus_number :: "bool \<Rightarrow> u32 \<Rightarrow> nat" where
  "bus_number ext w = unat (drop_bit (if ext then 20 else 16) w AND 255)"

definition cfg_offset :: "bool \<Rightarrow> u32 \<Rightarrow> nat" where
  "cfg_offset ext w = unat (w AND (if ext then 4095 else 255))"

definition pci_device_exists :: "bool \<Rightarrow> nat \<Rightarrow> nat \<Rightarrow> nat \<Rightarrow> 'w pci \<Rightarrow> bool" where
  "pci_device_exists ext bus dev func s \<longleftrightarrow>
     bus_number ext (pci_config_address_bits s) = bus \<and> function_number ext (pci_config_address_bits s) = func \<and>
     dev < length (pci_devs s)"

definition pci_config_writable :: "u8 list" where
  "pci_config_writable = [0, 0, 0, 0, 0x47, 0x05, 0, 0, 0, 0, 0, 0, 0xff, 0, 0, 0] @ replicate 24 0xff @
     replicate 20 0 @ [0xff, 0, 0, 0]"

text \<open>\<open>hook\<close> is \<^verbatim>\<open>cfg_ops.write\<close> of the device, the identity when it is null.\<close>

definition pci_config_wr ::
  "bool \<Rightarrow> 'w bar_fns \<Rightarrow> (nat \<Rightarrow> nat \<Rightarrow> u8 list \<Rightarrow> 'w pci \<Rightarrow> 'w pci) \<Rightarrow> u32 \<Rightarrow> u8 list \<Rightarrow> 'w pci \<Rightarrow> 'w pci result" where
  "pci_config_wr ext fns hook addr data s =
     (let n = device_number ext addr; offset = cfg_offset ext addr;
          mask = (le_word (take (length data) (drop offset pci_config_writable)) :: u32)
      in if \<not> pci_device_exists ext (bus_number ext addr) n 0 s then Inr s
         else if offset < 64 \<and> mask = 0 then Inr s
         else
           let s1 = hook n offset data s;
               bar = (offset + 2 ^ 64 - 0x10) mod 2 ^ 64 div 4 mod 256
           in if offset = 4
              then Inr (pci_config_command_wr fns n (le_word data AND ucast mask) s1)
              else if bar < 6 then Inr (pci_config_bar_wr fns n bar (le_word data) s1)
              else rbind (memcpy_to (cfg (pci_devs s1 ! n)) offset data) (\<lambda>c.
                   Inr (upd_dev n (\<lambda>h. h\<lparr>cfg := c\<rparr>) s1)))"

definition pci_config_rd ::
  "bool \<Rightarrow> (nat \<Rightarrow> nat \<Rightarrow> 'w pci \<Rightarrow> 'w pci) \<Rightarrow> u32 \<Rightarrow> nat \<Rightarrow> 'w pci \<Rightarrow> (u8 list \<times> 'w pci) result" where
  "pci_config_rd ext hook addr sz s =
     (let n = device_number ext addr; offset = cfg_offset ext addr
      in if pci_device_exists ext (bus_number ext addr) n 0 s
         then (let s1 = hook n offset s
               in rbind (memcpy_from (cfg (pci_devs s1 ! n)) offset sz) (\<lambda>data. Inr (data, s1)))
         else Inr (replicate sz 0xff, s))"

text \<open>The two ports of configuration mechanism 1, and the memory-mapped configuration space.\<close>

definition pci_config_address_mmio :: "u16 \<Rightarrow> u8 list \<Rightarrow> bool \<Rightarrow> 'w pci \<Rightarrow> (u8 list \<times> 'w pci) result" where
  "pci_config_address_mmio port data is_write s =
     (let off = unat (port - 0xcf8); old = le_bytes 4 (pci_config_address_bits s)
      in if is_write
         then rbind (memcpy_to old off data) (\<lambda>b. Inr (data, s\<lparr>pci_config_address_bits := le_word b\<rparr>))
         else rbind (memcpy_from old off (length data)) (\<lambda>b. Inr (b, s)))"

definition pci_config_data_mmio ::
  "bool \<Rightarrow> 'w bar_fns \<Rightarrow> (nat \<Rightarrow> nat \<Rightarrow> u8 list \<Rightarrow> 'w pci \<Rightarrow> 'w pci) \<Rightarrow> (nat \<Rightarrow> nat \<Rightarrow> 'w pci \<Rightarrow> 'w pci) \<Rightarrow>
   u16 \<Rightarrow> u8 list \<Rightarrow> bool \<Rightarrow> 'w pci \<Rightarrow> (u8 list \<times> 'w pci) result" where
  "pci_config_data_mmio ext fns wr rd port data is_write s =
     (let reg_offset = (port - 0xcfc) AND 3;
          addr = (pci_config_address_bits s AND NOT 3) OR ucast reg_offset;
          len = min (length data) (4 - unat reg_offset)
      in if is_write
         then rbind (pci_config_wr ext fns wr addr (take len data) s) (\<lambda>s'. Inr (data, s'))
         else rbind (pci_config_rd ext rd addr len s) (\<lambda>(b, s'). Inr (b @ drop len data, s')))"

definition pci_config_mmio_access ::
  "bool \<Rightarrow> 'w bar_fns \<Rightarrow> (nat \<Rightarrow> nat \<Rightarrow> u8 list \<Rightarrow> 'w pci \<Rightarrow> 'w pci) \<Rightarrow> (nat \<Rightarrow> nat \<Rightarrow> 'w pci \<Rightarrow> 'w pci) \<Rightarrow>
   u64 \<Rightarrow> u64 \<Rightarrow> u8 list \<Rightarrow> bool \<Rightarrow> 'w pci \<Rightarrow> (u8 list \<times> 'w pci) result" where
  "pci_config_mmio_access ext fns wr rd area addr data is_write s =
     (let a = addr - area; cfg_addr = (ucast a :: u32) OR 0x80000000
      in if unat (a AND 3) + length data > 4 then Inr (data, s)
         else if is_write then rbind (pci_config_wr ext fns wr cfg_addr data s) (\<lambda>s'. Inr (data, s'))
         else pci_config_rd ext rd cfg_addr (length data) s)"

text \<open>Registration of the regions of a device; a failed \<^verbatim>\<open>assert\<close> is \<open>Inl Die\<close>.\<close>

fun register_bars :: "'w bar_fns \<Rightarrow> nat \<Rightarrow> nat list \<Rightarrow> 'w pci \<Rightarrow> (int \<times> 'w pci) result" where
  "register_bars fns n [] s = Inr (0, s)"
| "register_bars fns n (i # is) s =
     (let h = pci_devs s ! n
      in if \<not> pci_bar_is_implemented h i then register_bars fns n is s
         else if pci_bar_is_active h i then Inl Die
         else
           let io = bar_is_io (cfg_bar h i) \<and> io_space_enabled (cfg_command h);
               mem = \<not> bar_is_io (cfg_bar h i) \<and> memory_space_enabled (cfg_command h);
               (r, s') = (if io \<or> mem then pci_activate_bar fns n i s else (0, s))
           in if r < 0 then Inr (r, s') else register_bars fns n is s')"

definition pci_register_bar_regions :: "'w bar_fns \<Rightarrow> nat \<Rightarrow> 'w pci \<Rightarrow> (int \<times> 'w pci) result" where
  "pci_register_bar_regions fns n s = register_bars fns n [0..<6] s"

text \<open>
  The walk over the capability list: \<open>pos\<close> is the offset of a capability, whose first two bytes
  are its type and the offset of the next. \<open>Inr None\<close> says that the fuel has ended.
\<close>

fun find_cap :: "nat \<Rightarrow> u8 list \<Rightarrow> u8 \<Rightarrow> u8 \<Rightarrow> nat option option result" where
  "find_cap 0 c cap_type pos = Inr None"
| "find_cap (Suc fuel) c cap_type pos =
     (if pos = 0 then Inr (Some None)
      else rbind (aget c (unat pos)) (\<lambda>type.
        if type = cap_type then Inr (Some (Some (unat pos)))
        else rbind (aget c (unat pos + 1)) (\<lambda>next. find_cap fuel c cap_type (next AND NOT 3))))"

definition pci_find_cap :: "nat \<Rightarrow> pci_device_header \<Rightarrow> u8 \<Rightarrow> nat option option result" where
  "pci_find_cap fuel h cap_type =
     rbind (aget (cfg h) 0x34) (\<lambda>p. find_cap fuel (cfg h) cap_type (p AND NOT 3))"

section \<open>Fields of the configuration space\<close>

lemma take_drop_blit_other:
  assumes "off + length b \<le> length c" and "o' + n \<le> off \<or> off + length b \<le> o'" and "o' + n \<le> length c"
  shows "take n (drop o' (blit c off b)) = take n (drop o' c)"
  using assms by (intro nth_equalityI) (auto simp: nth_blit)

definition hdr_ok :: "pci_device_header \<Rightarrow> bool" where
  "hdr_ok h \<longleftrightarrow> 256 \<le> length (cfg h) \<and> length (bar_size h) = 6 \<and> length (bar_active h) = 6"

definition pci_ok :: "'w pci \<Rightarrow> bool" where
  "pci_ok s \<longleftrightarrow> (\<forall>h\<in>set (pci_devs s). hdr_ok h)"

lemma le_word_bytes_32 [simp]: "le_word (le_bytes 4 (v :: u32)) = v"
  by (rule le_word_bytes) simp

lemma le_word_bytes_16 [simp]: "le_word (le_bytes 2 (v :: u16)) = v"
  by (rule le_word_bytes) simp

lemma set_bar_fields [simp]:
  assumes "hdr_ok h" and "i < 6"
  shows "hdr_ok (set_bar i v h)" and "cfg_command (set_bar i v h) = cfg_command h"
    and "bar_size (set_bar i v h) = bar_size h" and "bar_active (set_bar i v h) = bar_active h"
    and "j < 6 \<Longrightarrow> cfg_bar (set_bar i v h) j = (if j = i then v else cfg_bar h j)"
proof -
  have len: "16 + 4 * i + length (le_bytes 4 v) \<le> length (cfg h)" using assms by (simp add: hdr_ok_def)
  show "hdr_ok (set_bar i v h)" "bar_size (set_bar i v h) = bar_size h" "bar_active (set_bar i v h) = bar_active h"
    using assms len by (simp_all add: set_bar_def hdr_ok_def)
  show "cfg_command (set_bar i v h) = cfg_command h"
    using take_drop_blit_other [OF len, of 4 2] assms by (simp add: cfg_command_def set_bar_def hdr_ok_def)
  assume j: "j < 6"
  show "cfg_bar (set_bar i v h) j = (if j = i then v else cfg_bar h j)"
  proof (cases "j = i")
    case True
    then show ?thesis
      using take_drop_blit [OF len] by (simp add: cfg_bar_def set_bar_def)
  next
    case False
    then have "16 + 4 * j + 4 \<le> 16 + 4 * i \<or> 16 + 4 * i + length (le_bytes 4 v) \<le> 16 + 4 * j" by auto
    then show ?thesis
      using take_drop_blit_other [OF len, of "16 + 4 * j" 4] assms j False
      by (simp add: cfg_bar_def set_bar_def hdr_ok_def)
  qed
qed

lemma set_command_fields [simp]:
  assumes "hdr_ok h"
  shows "hdr_ok (set_command v h)" and "cfg_command (set_command v h) = v"
    and "bar_size (set_command v h) = bar_size h" and "bar_active (set_command v h) = bar_active h"
    and "i < 6 \<Longrightarrow> cfg_bar (set_command v h) i = cfg_bar h i"
proof -
  have len: "4 + length (le_bytes 2 v) \<le> length (cfg h)" using assms by (simp add: hdr_ok_def)
  show "hdr_ok (set_command v h)" "bar_size (set_command v h) = bar_size h" "bar_active (set_command v h) = bar_active h"
    using assms len by (simp_all add: set_command_def hdr_ok_def)
  show "cfg_command (set_command v h) = v"
    using take_drop_blit [OF len] by (simp add: cfg_command_def set_command_def)
  show "i < 6 \<Longrightarrow> cfg_bar (set_command v h) i = cfg_bar h i"
    using take_drop_blit_other [OF len, of "16 + 4 * i" 4] assms
    by (simp add: cfg_bar_def set_command_def hdr_ok_def)
qed

section \<open>Activation\<close>

text \<open>Callbacks that succeed; the loops then only change the \<open>bar_active\<close> flags.\<close>

definition fns_succeed :: "'w bar_fns \<Rightarrow> bool" where
  "fns_succeed fns \<longleftrightarrow> (\<forall>a n i h w. 0 \<le> fst (fns a n i h w))"

definition set_active :: "nat \<Rightarrow> bool \<Rightarrow> pci_device_header \<Rightarrow> pci_device_header" where
  "set_active i a h = h\<lparr>bar_active := (bar_active h)[i := a]\<rparr>"

lemma set_active_fields [simp]:
  "cfg_command (set_active i a h) = cfg_command h" "cfg_bar (set_active i a h) j = cfg_bar h j"
  "bar_size (set_active i a h) = bar_size h" "hdr_ok (set_active i a h) = hdr_ok h" "cfg (set_active i a h) = cfg h"
  by (simp_all add: set_active_def cfg_command_def cfg_bar_def hdr_ok_def)

lemma set_active_same: "bar_active h ! i = a \<Longrightarrow> set_active i a h = h"
  using list_update_id [of "bar_active h" i] by (simp add: set_active_def)

lemma toggle_bar_devs:
  assumes "fns_succeed fns"
  shows "pci_devs (snd (pci_toggle_bar fns a n i s)) = (pci_devs s)[n := set_active i a (pci_devs s ! n)]"
    and "0 \<le> fst (pci_toggle_bar fns a n i s)"
    and "pci_config_address_bits (snd (pci_toggle_bar fns a n i s)) = pci_config_address_bits s"
proof -
  have "0 \<le> fst (fns a n i (pci_devs s ! n) (pci_world s))" using assms by (simp add: fns_succeed_def)
  then have t: "pci_bar_is_active (pci_devs s ! n) i \<noteq> a \<Longrightarrow> pci_toggle_bar fns a n i s =
      (fst (fns a n i (pci_devs s ! n) (pci_world s)),
       upd_dev n (set_active i a) (s\<lparr>pci_world := snd (fns a n i (pci_devs s ! n) (pci_world s))\<rparr>))"
    by (simp add: pci_toggle_bar_def case_prod_unfold Let_def set_active_def [abs_def])
  have same: "pci_bar_is_active (pci_devs s ! n) i = a \<Longrightarrow> (pci_devs s)[n := set_active i a (pci_devs s ! n)] = pci_devs s"
    by (simp add: set_active_same pci_bar_is_active_def)
  show "pci_devs (snd (pci_toggle_bar fns a n i s)) = (pci_devs s)[n := set_active i a (pci_devs s ! n)]"
    "0 \<le> fst (pci_toggle_bar fns a n i s)"
    "pci_config_address_bits (snd (pci_toggle_bar fns a n i s)) = pci_config_address_bits s"
    using t same \<open>0 \<le> fst _\<close>
    by (cases "pci_bar_is_active (pci_devs s ! n) i = a"; simp add: upd_dev_def; simp add: pci_toggle_bar_def)+
qed

text \<open>A BAR is to be active when it exists and the command register enables its kind of space.\<close>

definition decodes :: "u16 \<Rightarrow> pci_device_header \<Rightarrow> nat \<Rightarrow> bool" where
  "decodes cmd h i \<longleftrightarrow> pci_bar_is_implemented h i \<and>
     (if bar_is_io (cfg_bar h i) then io_space_enabled cmd else memory_space_enabled cmd)"

lemma flag_xor_bit: "flag (a XOR b) (push_bit k 1) \<longleftrightarrow> flag a (push_bit k 1) \<noteq> flag b (push_bit k (1 :: u16))" if "k < 16"
  using that by (auto simp: flag_push_bit bit_simps simp del: push_bit_of_1)

lemma flag_xor_16: "flag (a XOR b) 1 \<longleftrightarrow> flag a 1 \<noteq> flag b (1 :: u16)" "flag (a XOR b) 2 \<longleftrightarrow> flag a 2 \<noteq> flag b (2 :: u16)"
  using flag_xor_bit [of 0 a b] flag_xor_bit [of 1 a b] by simp_all

lemma command_bar_devs:
  assumes "fns_succeed fns" and "n < length (pci_devs s)"
    and "bar_active (pci_devs s ! n) ! i \<longleftrightarrow> decodes old (pci_devs s ! n) i"
  shows "pci_devs (command_bar fns n old new s i) =
    (pci_devs s)[n := set_active i (decodes new (pci_devs s ! n) i) (pci_devs s ! n)]"
proof -
  let ?h = "pci_devs s ! n"
  have same: "decodes new ?h i = decodes old ?h i \<Longrightarrow>
      (pci_devs s)[n := set_active i (decodes new ?h i) ?h] = pci_devs s"
    using assms(3) by (simp add: set_active_same)
  show ?thesis
  proof (cases "pci_bar_is_implemented ?h i")
    case False
    then show ?thesis using same by (simp add: command_bar_def decodes_def)
  next
    case True
    show ?thesis
      using True same toggle_bar_devs(1) [OF assms(1), of _ n i s] assms(2)
      by (cases "bar_is_io (cfg_bar ?h i)")
        (auto simp: command_bar_def Let_def decodes_def flag_xor_16 io_space_enabled_def memory_space_enabled_def
          pci_activate_bar_def pci_deactivate_bar_def)
  qed
qed

text \<open>Setting several flags at once, as a loop over the BARs does.\<close>

definition set_actives :: "(nat \<Rightarrow> bool) \<Rightarrow> nat \<Rightarrow> pci_device_header \<Rightarrow> pci_device_header" where
  "set_actives f k h = h\<lparr>bar_active := map (\<lambda>j. if j < k then f j else bar_active h ! j) [0..<length (bar_active h)]\<rparr>"

lemma set_actives_fields [simp]:
  "cfg_command (set_actives f k h) = cfg_command h" "cfg_bar (set_actives f k h) j = cfg_bar h j"
  "bar_size (set_actives f k h) = bar_size h" "hdr_ok (set_actives f k h) = hdr_ok h"
  "decodes c (set_actives f k h) j = decodes c h j"
  by (simp_all add: set_actives_def cfg_command_def cfg_bar_def hdr_ok_def decodes_def pci_bar_is_implemented_def)

lemma set_actives_0 [simp]: "set_actives f 0 h = h"
  by (simp add: set_actives_def map_nth)

lemma set_actives_Suc: "set_active k (f k) (set_actives f k h) = set_actives f (Suc k) h"
proof -
  have "(map (\<lambda>j. if j < k then f j else bar_active h ! j) [0..<length (bar_active h)])[k := f k] =
      map (\<lambda>j. if j < Suc k then f j else bar_active h ! j) [0..<length (bar_active h)]"
    by (intro nth_equalityI) (auto simp: nth_list_update less_Suc_eq)
  then show ?thesis by (simp add: set_active_def set_actives_def)
qed

lemma command_fold_devs:
  assumes "fns_succeed fns" and "n < length (pci_devs s)" and "hdr_ok (pci_devs s ! n)"
    and sync: "\<forall>i<6. bar_active (pci_devs s ! n) ! i \<longleftrightarrow> decodes old (pci_devs s ! n) i"
  shows "k \<le> 6 \<Longrightarrow> pci_devs (foldl (command_bar fns n old new) s [0..<k]) =
    (pci_devs s)[n := set_actives (decodes new (pci_devs s ! n)) k (pci_devs s ! n)]"
proof (induction k)
  case (Suc k)
  let ?s = "foldl (command_bar fns n old new) s [0..<k]" and ?h = "pci_devs s ! n"
  have ih: "pci_devs ?s = (pci_devs s)[n := set_actives (decodes new ?h) k ?h]" using Suc by simp
  then have h: "pci_devs ?s ! n = set_actives (decodes new ?h) k ?h" using assms(2) by simp
  have "bar_active (pci_devs ?s ! n) ! k \<longleftrightarrow> decodes old (pci_devs ?s ! n) k"
    unfolding h using sync assms(3) Suc.prems by (simp add: hdr_ok_def) (simp add: set_actives_def hdr_ok_def)
  from command_bar_devs [OF assms(1) _ this, of new] assms(2) ih h show ?case
    by (simp add: set_actives_Suc)
qed simp

definition in_sync :: "pci_device_header \<Rightarrow> bool" where
  "in_sync h \<longleftrightarrow> hdr_ok h \<and> (\<forall>i<6. bar_active h ! i \<longleftrightarrow> decodes (cfg_command h) h i)"

lemma command_wr_devs:
  assumes "fns_succeed fns" and "n < length (pci_devs s)" and "in_sync (pci_devs s ! n)"
  shows "pci_devs (pci_config_command_wr fns n new s) =
    (pci_devs s)[n := set_command new (set_actives (decodes new (pci_devs s ! n)) 6 (pci_devs s ! n))]"
  using command_fold_devs [OF assms(1,2), of "cfg_command (pci_devs s ! n)" 6 new] assms(2,3)
  by (simp add: pci_config_command_wr_def upd_dev_def in_sync_def)

lemma command_wr_sync:
  assumes "fns_succeed fns" and "n < length (pci_devs s)" and "in_sync (pci_devs s ! n)"
  shows "in_sync (pci_devs (pci_config_command_wr fns n new s) ! n)"
    and "cfg_command (pci_devs (pci_config_command_wr fns n new s) ! n) = new"
    and "m \<noteq> n \<Longrightarrow> pci_devs (pci_config_command_wr fns n new s) ! m = pci_devs s ! m"
proof -
  let ?h = "pci_devs s ! n"
  let ?k = "set_actives (decodes new ?h) 6 ?h"
  have ok: "hdr_ok ?k" using assms(3) by (simp add: in_sync_def)
  have act: "bar_active ?k ! i = decodes new ?h i" if "i < 6" for i
    using that assms(3) by (simp add: set_actives_def in_sync_def hdr_ok_def)
  have dec: "decodes new (set_command new ?k) i = decodes new ?h i" if "i < 6" for i
    using that ok by (simp add: decodes_def pci_bar_is_implemented_def)
  have d: "pci_devs (pci_config_command_wr fns n new s) = (pci_devs s)[n := set_command new ?k]"
    by (rule command_wr_devs [OF assms])
  then have n: "pci_devs (pci_config_command_wr fns n new s) ! n = set_command new ?k" using assms(2) by simp
  show "in_sync (pci_devs (pci_config_command_wr fns n new s) ! n)"
    unfolding n using ok act dec by (simp add: in_sync_def)
  show "cfg_command (pci_devs (pci_config_command_wr fns n new s) ! n) = new"
    unfolding n using ok by simp
  show "m \<noteq> n \<Longrightarrow> pci_devs (pci_config_command_wr fns n new s) ! m = pci_devs s ! m"
    unfolding d by simp
qed

section \<open>Regions\<close>

lemma toggle_devs:
  assumes "fns_succeed fns"
  shows "pci_devs (snd (if a then pci_activate_bar fns n i s else pci_deactivate_bar fns n i s)) =
      (pci_devs s)[n := set_active i a (pci_devs s ! n)]"
    and "0 \<le> fst (if a then pci_activate_bar fns n i s else pci_deactivate_bar fns n i s)"
  using toggle_bar_devs [OF assms, of a n i s] by (auto simp: pci_activate_bar_def pci_deactivate_bar_def)

text \<open>What the loops over the regions leave alone: everything but the flags.\<close>

definition same_cfg :: "'w pci \<Rightarrow> 'w pci \<Rightarrow> bool" where
  "same_cfg s t \<longleftrightarrow> length (pci_devs t) = length (pci_devs s) \<and>
     (\<forall>m < length (pci_devs s). cfg (pci_devs t ! m) = cfg (pci_devs s ! m) \<and>
        bar_size (pci_devs t ! m) = bar_size (pci_devs s ! m) \<and>
        length (bar_active (pci_devs t ! m)) = length (bar_active (pci_devs s ! m)))"

lemma same_cfg_refl [simp]: "same_cfg s s"
  by (simp add: same_cfg_def)

lemma same_cfg_trans: "same_cfg s t \<Longrightarrow> same_cfg t u \<Longrightarrow> same_cfg s u"
  by (auto simp: same_cfg_def)

lemma same_cfg_upd:
  "pci_devs t = (pci_devs s)[n := set_active i a (pci_devs s ! n)] \<Longrightarrow> same_cfg s t"
  by (auto simp: same_cfg_def nth_update_at set_active_def)

lemma toggle_step:
  assumes "fns_succeed fns"
  obtains r s' where "(if a then pci_activate_bar fns n i s else pci_deactivate_bar fns n i s) = (r, s')"
    and "\<not> r < 0" and "pci_devs s' = (pci_devs s)[n := set_active i a (pci_devs s ! n)]" and "same_cfg s s'"
proof -
  obtain r s' where p: "(if a then pci_activate_bar fns n i s else pci_deactivate_bar fns n i s) = (r, s')"
    by (metis surj_pair)
  show ?thesis
    by (rule that [OF p]) (use toggle_devs [OF assms, of a n i s] p same_cfg_upd [of s' s n i a] in auto)
qed

definition overlaps :: "u32 \<Rightarrow> u32 \<Rightarrow> pci_device_header \<Rightarrow> nat \<Rightarrow> bool" where
  "overlaps start sz h i \<longleftrightarrow> pci_bar_is_implemented h i \<and>
     \<not> (bar_address (cfg_bar h i) + bar_size h ! i \<le> start \<or> start + sz \<le> bar_address (cfg_bar h i))"

lemma overlaps_same: "cfg h = cfg k \<Longrightarrow> bar_size h = bar_size k \<Longrightarrow> overlaps start sz h i = overlaps start sz k i"
  by (simp add: overlaps_def cfg_bar_def pci_bar_is_implemented_def)

lemma regions_keep:
  assumes "fns_succeed fns"
  shows "0 \<le> fst (toggle_regions fns a start sz ps s) \<and> same_cfg s (snd (toggle_regions fns a start sz ps s)) \<and>
    (\<forall>m j. a \<longrightarrow> m < length (pci_devs s) \<longrightarrow> bar_active (pci_devs s ! m) ! j \<longrightarrow>
       bar_active (pci_devs (snd (toggle_regions fns a start sz ps s)) ! m) ! j)"
proof (induction ps arbitrary: s)
  case (Cons p ps)
  obtain n i where p: "p = (n, i)" by force
  obtain r s' where s': "(if a then pci_activate_bar fns n i s else pci_deactivate_bar fns n i s) = (r, s')"
    "\<not> r < 0" "pci_devs s' = (pci_devs s)[n := set_active i a (pci_devs s ! n)]" "same_cfg s s'"
    by (rule toggle_step [OF assms])
  have keep: "a \<Longrightarrow> m < length (pci_devs s) \<Longrightarrow> bar_active (pci_devs s ! m) ! j \<Longrightarrow>
      m < length (pci_devs s') \<and> bar_active (pci_devs s' ! m) ! j" for m j
    unfolding s'(3)
    by (cases "i = j"; cases "j < length (bar_active (pci_devs s ! n))")
      (auto simp: nth_update_at set_active_def list_update_beyond)
  have "toggle_regions fns a start sz (p # ps) s =
      toggle_regions fns a start sz ps (if overlaps start sz (pci_devs s ! n) i then s' else s)"
    using s'(1,2) p by (auto simp: overlaps_def Let_def)
  then show ?case
    using Cons.IH [of s] Cons.IH [of s'] keep same_cfg_trans [OF s'(4)] by auto
qed simp

lemma regions_activate:
  assumes "fns_succeed fns" and "(m, j) \<in> set ps" and "m < length (pci_devs s)"
    and "overlaps start sz (pci_devs s ! m) j" and "j < length (bar_active (pci_devs s ! m))"
  shows "bar_active (pci_devs (snd (toggle_regions fns True start sz ps s)) ! m) ! j"
  using assms(2-)
proof (induction ps arbitrary: s)
  case (Cons p ps)
  obtain n i where p: "p = (n, i)" by force
  obtain r s' where s': "(if True then pci_activate_bar fns n i s else pci_deactivate_bar fns n i s) = (r, s')"
    "\<not> r < 0" "pci_devs s' = (pci_devs s)[n := set_active i True (pci_devs s ! n)]" "same_cfg s s'"
    by (rule toggle_step [OF assms(1)])
  define t where "t = (if overlaps start sz (pci_devs s ! n) i then s' else s)"
  have step: "toggle_regions fns True start sz (p # ps) s = toggle_regions fns True start sz ps t"
    using s'(1,2) p by (auto simp: overlaps_def Let_def t_def)
  have cfg: "same_cfg s t" using s'(4) by (simp add: t_def)
  show ?case
  proof (cases "(m, j) = p")
    case True
    then have "bar_active (pci_devs t ! m) ! j" "m < length (pci_devs t)"
      using Cons.prems p s'(3) by (auto simp: t_def set_active_def)
    then show ?thesis using regions_keep [OF assms(1), of True start sz ps t] step by simp
  next
    case False
    then have "(m, j) \<in> set ps" using Cons.prems(1) by simp
    moreover have "m < length (pci_devs t)" "overlaps start sz (pci_devs t ! m) j" "j < length (bar_active (pci_devs t ! m))"
      using cfg Cons.prems overlaps_same [of "pci_devs t ! m" "pci_devs s ! m"] by (auto simp: same_cfg_def)
    ultimately show ?thesis using Cons.IH step by simp
  qed
qed simp

lemma all_bars_mem: "m < ndevs \<Longrightarrow> j < 6 \<Longrightarrow> (m, j) \<in> set (all_bars ndevs)"
  by (force simp: all_bars_def)

text \<open>Moving a BAR whose space is enabled, when the callbacks succeed: the sequence of states.\<close>

lemma bar_move:
  assumes "fns_succeed fns" and "value \<noteq> 0xffffffff"
    and "n < length (pci_devs s)" and "i < 6" and "hdr_ok (pci_devs s ! n)"
    and "if bar_is_io (cfg_bar (pci_devs s ! n) i) then io_space_enabled (cfg_command (pci_devs s ! n))
         else memory_space_enabled (cfg_command (pci_devs s ! n))"
  shows "\<exists>t. length (pci_devs t) = length (pci_devs s) \<and>
    (\<forall>m < length (pci_devs s). m \<noteq> n \<longrightarrow> cfg (pci_devs t ! m) = cfg (pci_devs s ! m) \<and>
       bar_size (pci_devs t ! m) = bar_size (pci_devs s ! m) \<and>
       length (bar_active (pci_devs t ! m)) = length (bar_active (pci_devs s ! m))) \<and>
    pci_config_bar_wr fns n i value s =
      snd (pci_toggle_bar_regions fns True (bar_address (cfg_bar (pci_devs s ! n) i)) (bar_size (pci_devs s ! n) ! i) t)"
proof -
  let ?h = "pci_devs s ! n" and ?bar = "cfg_bar (pci_devs s ! n) i"
  define mask :: u32 where "mask = (if bar_is_io ?bar then NOT 3 else NOT 15)"
  define v where "v = (value AND mask) OR (?bar AND NOT mask)"
  obtain r1 s1 where s1: "pci_deactivate_bar fns n i s = (r1, s1)" "\<not> r1 < 0" "same_cfg s s1"
    by (rule toggle_step [OF assms(1), of False n i s]) auto
  obtain r2 s2 where s2: "pci_toggle_bar_regions fns False (bar_address v) (bar_size ?h ! i) s1 = (r2, s2)"
    by (metis surj_pair)
  have k2: "\<not> r2 < 0" "same_cfg s1 s2"
    using regions_keep [OF assms(1), of False "bar_address v" "bar_size ?h ! i" "all_bars (length (pci_devs s1))" s1] s2
    by (auto simp: pci_toggle_bar_regions_def)
  obtain r3 t where t: "pci_activate_bar fns n i (upd_dev n (set_bar i v) s2) = (r3, t)" "\<not> r3 < 0"
    "same_cfg (upd_dev n (set_bar i v) s2) t"
    by (rule toggle_step [OF assms(1), of True n i "upd_dev n (set_bar i v) s2"]) auto
  have c2: "same_cfg s s2" by (rule same_cfg_trans [OF s1(3) k2(2)])
  have "pci_config_bar_wr fns n i value s =
      snd (pci_toggle_bar_regions fns True (bar_address ?bar) (bar_size ?h ! i) t)"
    unfolding pci_config_bar_wr_def Let_def mask_def [symmetric] v_def [symmetric] s1(1) prod.case s2 t(1)
    using assms(2,6) s1(2) k2(1) t(2) by (simp split: if_splits)
  moreover have "length (pci_devs t) = length (pci_devs s)"
    using c2 t(3) by (simp add: same_cfg_def upd_dev_def)
  moreover have "cfg (pci_devs t ! m) = cfg (pci_devs s ! m) \<and> bar_size (pci_devs t ! m) = bar_size (pci_devs s ! m) \<and>
      length (bar_active (pci_devs t ! m)) = length (bar_active (pci_devs s ! m))"
    if "m < length (pci_devs s)" "m \<noteq> n" for m
    using c2 t(3) that by (simp add: same_cfg_def upd_dev_def)
  ultimately show ?thesis by blast
qed

section \<open>Blocks\<close>

lemma mmio_block_ok:
  assumes "k < 32" and "unat start + 2 * 2 ^ k \<le> 2 ^ 32 - 1"
    and "pci_get_mmio_block (2 ^ k) start = (b, next)"
  shows "2 ^ k dvd unat b" and "unat start \<le> unat b" and "unat next = unat b + 2 ^ k" and "unat next < unat start + 2 * 2 ^ k"
proof -
  have b: "unat b = (unat start + (2 ^ k - 1)) div 2 ^ k * 2 ^ k"
    using align_mask_unat [of k start] assms by (auto simp: pci_get_mmio_block_def Let_def)
  have lt: "unat b < unat start + 2 ^ k" using align_bounds(2) [of "unat start" k] b by simp
  have "unat next = (unat b + 2 ^ k) mod 2 ^ 32"
    using assms(1,3) by (auto simp: pci_get_mmio_block_def Let_def unat_word_ariths unat_2p)
  then show n: "unat next = unat b + 2 ^ k" using lt assms(2) by simp
  show "2 ^ k dvd unat b" "unat start \<le> unat b" "unat next < unat start + 2 * 2 ^ k"
    using b n lt align_bounds(1) [of "unat start" k] by simp_all
qed

text \<open>Allocations one after the other, with the sizes as exponents of two.\<close>

fun mmio_blocks_of :: "nat list \<Rightarrow> u32 \<Rightarrow> (u32 \<times> nat) list" where
  "mmio_blocks_of [] start = []"
| "mmio_blocks_of (k # ks) start =
     (let (b, next) = pci_get_mmio_block (2 ^ k) start in (b, k) # mmio_blocks_of ks next)"

lemma mmio_blocks_ok:
  "(\<forall>k\<in>set ks. k < 32) \<Longrightarrow> unat start + 2 * sum_list (map (\<lambda>k. 2 ^ k) ks) \<le> 2 ^ 32 - 1 \<Longrightarrow>
   (\<forall>(b, k)\<in>set (mmio_blocks_of ks start). 2 ^ k dvd unat b \<and> unat start \<le> unat b) \<and>
   sorted_wrt (\<lambda>(b, k) (c, l). unat b + 2 ^ k \<le> unat c) (mmio_blocks_of ks start)"
proof (induction ks arbitrary: start)
  case (Cons k ks)
  obtain b next' where b: "pci_get_mmio_block (2 ^ k) start = (b, next')" by force
  have B: "2 ^ k dvd unat b" "unat start \<le> unat b" "unat next' = unat b + 2 ^ k" "unat next' < unat start + 2 * 2 ^ k"
    using mmio_block_ok [OF _ _ b] Cons.prems by auto
  have "unat next' + 2 * sum_list (map (\<lambda>k. 2 ^ k) ks) \<le> 2 ^ 32 - 1" using B(4) Cons.prems(2) by simp
  with Cons.IH [of next'] Cons.prems(1) have
    "\<forall>(c, l)\<in>set (mmio_blocks_of ks next'). 2 ^ l dvd unat c \<and> unat next' \<le> unat c"
    "sorted_wrt (\<lambda>(b, k) (c, l). unat b + 2 ^ k \<le> unat c) (mmio_blocks_of ks next')"
    by auto
  with b B show ?case by (fastforce simp: case_prod_unfold)
qed simp

section \<open>BAR sizing\<close>

definition no_wr :: "nat \<Rightarrow> nat \<Rightarrow> u8 list \<Rightarrow> 'w pci \<Rightarrow> 'w pci" where
  "no_wr n off data s = s"

definition no_rd :: "nat \<Rightarrow> nat \<Rightarrow> 'w pci \<Rightarrow> 'w pci" where
  "no_rd n off s = s"

definition bar_access :: "bool \<Rightarrow> u32 \<Rightarrow> nat \<Rightarrow> nat \<Rightarrow> 'w pci \<Rightarrow> bool" where
  "bar_access ext addr n i s \<longleftrightarrow> i < 6 \<and> n < length (pci_devs s) \<and> hdr_ok (pci_devs s ! n) \<and>
     device_number ext addr = n \<and> cfg_offset ext addr = 0x10 + 4 * i \<and>
     pci_device_exists ext (bus_number ext addr) n 0 s"

lemma writable_bar: "i < 6 \<Longrightarrow> take 4 (drop (0x10 + 4 * i) pci_config_writable) = [0xff, 0xff, 0xff, 0xff]"
proof -
  assume "i < 6"
  then consider "i = 0" | "i = 1" | "i = 2" | "i = 3" | "i = 4" | "i = 5" by linarith
  then show ?thesis by cases (simp_all add: pci_config_writable_def eval_nat_numeral)
qed

lemma config_wr_bar:
  assumes "bar_access ext addr n i s" and "length data = 4"
  shows "pci_config_wr ext fns no_wr addr data s = Inr (pci_config_bar_wr fns n i (le_word data) s)"
proof -
  have i: "i < 6" and off: "cfg_offset ext addr = 16 + 4 * i" using assms(1) by (auto simp: bar_access_def)
  have m: "(le_word [0xff, 0xff, 0xff, 0xff :: u8] :: u32) \<noteq> 0" by (simp add: le_word_def)
  have "(16 + 4 * i + 2 ^ 64 - 0x10) mod 2 ^ 64 div 4 mod 256 = i" using i by simp
  with m show ?thesis
    using assms i off by (simp add: pci_config_wr_def Let_def writable_bar bar_access_def no_wr_def)
qed

lemma config_rd_bar:
  assumes "bar_access ext addr n i s"
  shows "pci_config_rd ext no_rd addr 4 s = Inr (take 4 (drop (0x10 + 4 * i) (cfg (pci_devs s ! n))), s)"
  using assms by (simp add: pci_config_rd_def Let_def bar_access_def no_rd_def memcpy_from_def hdr_ok_def)

lemma bar_access_upd:
  "bar_access ext addr n i s \<Longrightarrow> bar_access ext addr n i (upd_dev n (set_bar i v) s)"
  by (auto simp: bar_access_def upd_dev_def pci_device_exists_def)

lemma size_mask:
  fixes sz mask :: u32
  assumes "sz = 2 ^ k" and "NOT mask AND (sz - 1) = NOT mask" and "x AND mask = 0"
  shows "NOT (((NOT (sz - 1) AND mask) OR x) AND mask) + 1 = sz"
    and "((NOT (sz - 1) AND mask) OR x) AND NOT mask = x"
proof -
  have sub: "bit (sz - 1) n" if "n < 32" "\<not> bit mask n" for n
  proof -
    have "bit (NOT mask AND (sz - 1)) n = bit (NOT mask) n" using assms(2) by simp
    then show ?thesis using that by (simp add: bit_and_iff bit_not_iff)
  qed
  have x: "\<not> bit x n" if "bit mask n" for n
  proof -
    have "bit (x AND mask) n = bit (0 :: u32) n" using assms(3) by simp
    then show ?thesis using that by (simp add: bit_and_iff)
  qed
  have "((NOT (sz - 1) AND mask) OR x) AND mask = NOT (sz - 1)"
    by (rule bit_word_eqI) (use sub x in \<open>auto simp: bit_simps\<close>)
  then show "NOT (((NOT (sz - 1) AND mask) OR x) AND mask) + 1 = sz" by simp
  show "((NOT (sz - 1) AND mask) OR x) AND NOT mask = x"
    by (rule bit_word_eqI) (use x in \<open>auto simp: bit_simps dest: bit_imp_le_length\<close>)
qed

section \<open>Properties\<close>

text \<open>
  C9. A write of the command register, with callbacks that succeed, leaves exactly those regions
  of the device active that are implemented and whose kind of space the new command enables,
  provided that this was so before; the other devices are not touched.
\<close>

theorem pci_command_activates_regions:
  assumes "fns_succeed fns" and "n < length (pci_devs s)" and "in_sync (pci_devs s ! n)"
  shows "in_sync (pci_devs (pci_config_command_wr fns n new s) ! n) \<and>
    cfg_command (pci_devs (pci_config_command_wr fns n new s) ! n) = new \<and>
    (m \<noteq> n \<longrightarrow> pci_devs (pci_config_command_wr fns n new s) ! m = pci_devs s ! m)"
  using command_wr_sync [OF assms] by blast

definition sample_hdr :: "u16 \<Rightarrow> u32 \<Rightarrow> u32 \<Rightarrow> bool \<Rightarrow> pci_device_header" where
  "sample_hdr cmd bar sz act = set_command cmd (set_bar 0 bar
     \<lparr> cfg = replicate 256 0, bar_size = [sz, 0, 0, 0, 0, 0], bar_active = [act, False, False, False, False, False] \<rparr>)"

lemma sample_hdr_fields [simp]:
  "hdr_ok (sample_hdr cmd bar sz act)" "cfg_command (sample_hdr cmd bar sz act) = cmd"
  "cfg_bar (sample_hdr cmd bar sz act) 0 = bar" "bar_size (sample_hdr cmd bar sz act) = [sz, 0, 0, 0, 0, 0]"
  "bar_active (sample_hdr cmd bar sz act) = [act, False, False, False, False, False]"
proof -
  let ?h = "\<lparr> cfg = replicate 256 0, bar_size = [sz, 0, 0, 0, 0, 0], bar_active = [act, False, False, False, False, False] \<rparr>"
  have h: "hdr_ok ?h" by (simp add: hdr_ok_def)
  show "hdr_ok (sample_hdr cmd bar sz act)" "cfg_command (sample_hdr cmd bar sz act) = cmd"
    "cfg_bar (sample_hdr cmd bar sz act) 0 = bar" "bar_size (sample_hdr cmd bar sz act) = [sz, 0, 0, 0, 0, 0]"
    "bar_active (sample_hdr cmd bar sz act) = [act, False, False, False, False, False]"
    unfolding sample_hdr_def using h by simp_all
qed

definition sample_pci :: "unit pci" where
  "sample_pci = \<lparr> pci_config_address_bits = 0,
     pci_devs = [sample_hdr 2 0x1000 0x1000 True, sample_hdr 0 0x1000 0x1000 False], pci_world = () \<rparr>"

definition ok_fns :: "unit bar_fns" where
  "ok_fns a n i h w = (0, w)"

lemma sample_in_sync: "in_sync (sample_hdr cmd bar sz (sz \<noteq> 0 \<and> (if bar_is_io bar then io_space_enabled cmd else memory_space_enabled cmd)))"
proof -
  let ?a = "sz \<noteq> 0 \<and> (if bar_is_io bar then io_space_enabled cmd else memory_space_enabled cmd)"
  have "bar_active (sample_hdr cmd bar sz ?a) ! i \<longleftrightarrow> decodes cmd (sample_hdr cmd bar sz ?a) i" if "i < 6" for i
    using that by (cases i) (auto simp: decodes_def pci_bar_is_implemented_def less_Suc_eq eval_nat_numeral)
  then show ?thesis by (simp add: in_sync_def)
qed

theorem pci_command_activates_regions_witness:
  "in_sync (pci_devs (pci_config_command_wr ok_fns 0 0 sample_pci) ! 0)"
proof -
  have "fns_succeed ok_fns" by (simp add: fns_succeed_def ok_fns_def)
  moreover have "in_sync (pci_devs sample_pci ! 0)"
    using sample_in_sync [of 2 "0x1000" "0x1000"]
    by (simp add: sample_pci_def bar_is_io_def memory_space_enabled_def)
  ultimately show ?thesis
    using pci_command_activates_regions [of ok_fns 0 sample_pci 0 0] by (simp add: sample_pci_def)
qed


definition sample_pci_off :: "unit pci" where
  "sample_pci_off = \<lparr> pci_config_address_bits = 0, pci_devs = [sample_hdr 0 0x1000 0x1000 False], pci_world = () \<rparr>"

lemma sample_bar_access: "bar_access False 0x10 0 0 sample_pci_off"
  by (simp add: bar_access_def sample_pci_off_def device_number_def cfg_offset_def pci_device_exists_def
      bus_number_def function_number_def)


text \<open>
  When a guest moves a BAR, every region of another device that overlaps the old address is
  active afterwards, whatever the command register of that device says: a device whose memory
  space is disabled answers to accesses again.
\<close>

theorem pci_bar_move_reactivates_overlapping:
  assumes "fns_succeed fns" and "value \<noteq> 0xffffffff" and "n < length (pci_devs s)" and "i < 6" and "pci_ok s"
    and "if bar_is_io (cfg_bar (pci_devs s ! n) i) then io_space_enabled (cfg_command (pci_devs s ! n))
         else memory_space_enabled (cfg_command (pci_devs s ! n))"
    and "m < length (pci_devs s)" and "m \<noteq> n" and "j < 6"
    and "overlaps (bar_address (cfg_bar (pci_devs s ! n) i)) (bar_size (pci_devs s ! n) ! i) (pci_devs s ! m) j"
  shows "bar_active (pci_devs (pci_config_bar_wr fns n i value s) ! m) ! j"
proof -
  let ?old = "bar_address (cfg_bar (pci_devs s ! n) i)" and ?sz = "bar_size (pci_devs s ! n) ! i"
  have ok: "hdr_ok (pci_devs s ! n)" "hdr_ok (pci_devs s ! m)" using assms(3,5,7) by (auto simp: pci_ok_def)
  obtain t where t: "length (pci_devs t) = length (pci_devs s)"
    "cfg (pci_devs t ! m) = cfg (pci_devs s ! m)" "bar_size (pci_devs t ! m) = bar_size (pci_devs s ! m)"
    "length (bar_active (pci_devs t ! m)) = length (bar_active (pci_devs s ! m))"
    "pci_config_bar_wr fns n i value s = snd (pci_toggle_bar_regions fns True ?old ?sz t)"
    using bar_move [OF assms(1-4) ok(1) assms(6)] assms(7,8) by blast
  have "overlaps ?old ?sz (pci_devs t ! m) j"
    using overlaps_same [OF t(2,3)] assms(10) by simp
  moreover have "j < length (bar_active (pci_devs t ! m))" using t(4) ok(2) assms(9) by (simp add: hdr_ok_def)
  ultimately show ?thesis
    using regions_activate [OF assms(1) all_bars_mem [OF _ assms(9)]] t(1,5) assms(7)
    by (simp add: pci_toggle_bar_regions_def)
qed

theorem pci_bar_move_reactivates_overlapping_witness:
  "\<not> memory_space_enabled (cfg_command (pci_devs sample_pci ! 1)) \<and> \<not> bar_active (pci_devs sample_pci ! 1) ! 0 \<and>
   bar_active (pci_devs (pci_config_bar_wr ok_fns 0 0 0x8000 sample_pci) ! 1) ! 0"
proof -
  have "fns_succeed ok_fns" by (simp add: fns_succeed_def ok_fns_def)
  from pci_bar_move_reactivates_overlapping [OF this, of "0x8000" 0 sample_pci 0 1 0] show ?thesis
    by (simp add: sample_pci_def pci_ok_def bar_is_io_def memory_space_enabled_def overlaps_def
        pci_bar_is_implemented_def bar_address_def)
qed

text \<open>
  Blocks that \<^verbatim>\<open>pci_get_mmio_block\<close> hands out for power-of-two sizes, one after the other and
  below the end of the 32-bit space, are aligned to their sizes and never overlap.
\<close>

theorem pci_mmio_blocks_disjoint:
  assumes "\<forall>k\<in>set ks. k < 32" and "unat start + 2 * sum_list (map (\<lambda>k. 2 ^ k) ks) \<le> 2 ^ 32 - 1"
  shows "(\<forall>(b, k)\<in>set (mmio_blocks_of ks start). 2 ^ k dvd unat b \<and> unat start \<le> unat b) \<and>
    sorted_wrt (\<lambda>(b, k) (c, l). unat b + 2 ^ k \<le> unat c) (mmio_blocks_of ks start)"
  by (rule mmio_blocks_ok [OF assms])

theorem pci_mmio_blocks_disjoint_witness:
  "sorted_wrt (\<lambda>(b, k) (c, l). unat b + 2 ^ k \<le> unat c) (mmio_blocks_of [12, 16, 8] 0xd2000000)"
  using pci_mmio_blocks_disjoint [of "[12, 16, 8]" "0xd2000000"] by simp

text \<open>
  Two writes that reach the wrong place. With 4096 bytes of configuration space, the offsets
  0x410, 0x810 and 0xc10 are taken for BAR 0, because the number of the BAR is kept in eight bits.
  A four-byte write at the interrupt line is stored whole, so that it also replaces the
  interrupt pin and the two bytes after it, which the table of writable bits marks read-only.
\<close>

theorem pci_config_write_misdirected:
  assumes "pci_device_exists ext (bus_number ext addr) (device_number ext addr) 0 s" and "length data = 4"
    and "pci_ok s"
  shows "(cfg_offset ext addr \<in> {0x410, 0x810, 0xc10} \<longrightarrow>
      pci_config_wr ext fns no_wr addr data s = Inr (pci_config_bar_wr fns (device_number ext addr) 0 (le_word data) s)) \<and>
    (cfg_offset ext addr = 0x3c \<longrightarrow>
      (\<exists>s'. pci_config_wr ext fns no_wr addr data s = Inr s' \<and>
        take 4 (drop 0x3c (cfg (pci_devs s' ! device_number ext addr))) = data))"
proof -
  let ?n = "device_number ext addr"
  have n: "?n < length (pci_devs s)" using assms(1) by (simp add: pci_device_exists_def)
  then have c: "256 \<le> length (cfg (pci_devs s ! ?n))" using assms(3) by (auto simp: pci_ok_def hdr_ok_def)
  have 1: "pci_config_wr ext fns no_wr addr data s = Inr (pci_config_bar_wr fns ?n 0 (le_word data) s)"
    if "cfg_offset ext addr \<in> {0x410, 0x810, 0xc10}"
    using that assms(1) by (auto simp: pci_config_wr_def Let_def no_wr_def)
  have w: "take 4 (drop 60 pci_config_writable) = [0xff, 0, 0, 0]"
    by (simp add: pci_config_writable_def eval_nat_numeral)
  have "le_word [0xff, 0, 0, 0 :: u8] \<noteq> (0 :: u32)" by (simp add: le_word_def)
  then have 2: "pci_config_wr ext fns no_wr addr data s =
      Inr (upd_dev ?n (\<lambda>h. h\<lparr>cfg := blit (cfg (pci_devs s ! ?n)) 60 data\<rparr>) s)"
    if "cfg_offset ext addr = 0x3c"
    using that assms(1,2) w c by (simp add: pci_config_wr_def Let_def no_wr_def memcpy_to_def)
  show ?thesis
    using 1 2 n c assms(2) take_drop_blit [of 60 data "cfg (pci_devs s ! ?n)"] by (auto simp: upd_dev_def)
qed

theorem pci_config_write_misdirected_witness:
  "\<exists>s'. pci_config_wr False ok_fns no_wr 0x3c [5, 9, 9, 9] sample_pci_off = Inr s' \<and>
     take 4 (drop 0x3c (cfg (pci_devs s' ! 0))) = [5, 9, 9, 9]"
  using pci_config_write_misdirected [of False "0x3c" sample_pci_off "[5, 9, 9, 9]" ok_fns]
  by (simp add: sample_pci_off_def pci_ok_def device_number_def cfg_offset_def pci_device_exists_def
      bus_number_def function_number_def)

end
