(* ===== verification/Iovec.thy ===== *)
theory Iovec
  imports Prelude
begin

text \<open>
  Scattered buffers: \<^verbatim>\<open>util/iovec.c\<close> and \<^verbatim>\<open>include/kvm/iovec.h\<close>. A buffer is a range of a flat memory,
  an \<^verbatim>\<open>iovec\<close> array is a list of ranges. The routines that take no count walk the array until
  their bytes are used up; running off its end is a fault. \<open>gather\<close> and \<open>scatter\<close> say what
  the array stands for: one sequence of bytes.
\<close>

type_synonym memory = "u8 list"

record iovec =
  iov_base :: nat
  iov_len :: nat

section \<open>The routines\<close>

text \<open>\<^verbatim>\<open>min_t(unsigned int, iov_len, len)\<close> looks at the low 32 bits of the length.\<close>

definition min_uint :: "nat \<Rightarrow> nat \<Rightarrow> nat" where
  "min_uint a b = min (a mod 2 ^ 32) (b mod 2 ^ 32)"

definition iov_advance :: "nat \<Rightarrow> iovec \<Rightarrow> iovec" where
  "iov_advance n v = \<lparr> iov_base = iov_base v + n, iov_len = iov_len v - n \<rparr>"

definition iov_size :: "iovec list \<Rightarrow> nat \<Rightarrow> nat result" where
  "iov_size iov n = (if n \<le> length iov then Inr (sum_list (map iov_len (take n iov)) mod 2 ^ 64) else Inl OutOfBounds)"

fun memcpy_toiovec :: "iovec list \<Rightarrow> u8 list \<Rightarrow> memory \<Rightarrow> (iovec list \<times> memory) result" where
  "memcpy_toiovec [] kdata m = (if kdata = [] then Inr ([], m) else Inl OutOfBounds)"
| "memcpy_toiovec (v # iov) kdata m =
     (if kdata = [] then Inr (v # iov, m)
      else if iov_len v = 0 then rbind (memcpy_toiovec iov kdata m) (\<lambda>(iov', m'). Inr (v # iov', m'))
      else let copy = min_uint (iov_len v) (length kdata) in
        rbind (memcpy_to m (iov_base v) (take copy kdata)) (\<lambda>m1.
        rbind (memcpy_toiovec iov (drop copy kdata) m1) (\<lambda>(iov', m').
          Inr (iov_advance copy v # iov', m'))))"

fun memcpy_toiovecend :: "iovec list \<Rightarrow> u8 list \<Rightarrow> nat \<Rightarrow> memory \<Rightarrow> memory result" where
  "memcpy_toiovecend [] kdata off m = (if kdata = [] then Inr m else Inl OutOfBounds)"
| "memcpy_toiovecend (v # iov) kdata off m =
     (if kdata = [] then Inr m
      else if iov_len v \<le> off then memcpy_toiovecend iov kdata (off - iov_len v) m
      else let copy = min_uint (iov_len v - off) (length kdata) in
        rbind (memcpy_to m (iov_base v + off) (take copy kdata)) (\<lambda>m1.
          memcpy_toiovecend iov (drop copy kdata) 0 m1))"

fun memcpy_fromiovec :: "iovec list \<Rightarrow> nat \<Rightarrow> memory \<Rightarrow> (u8 list \<times> iovec list) result" where
  "memcpy_fromiovec [] len m = (if len = 0 then Inr ([], []) else Inl OutOfBounds)"
| "memcpy_fromiovec (v # iov) len m =
     (if len = 0 then Inr ([], v # iov)
      else if iov_len v = 0 then rbind (memcpy_fromiovec iov len m) (\<lambda>(ks, iov'). Inr (ks, v # iov'))
      else let copy = min_uint len (iov_len v) in
        rbind (memcpy_from m (iov_base v) copy) (\<lambda>k.
        rbind (memcpy_fromiovec iov (len - copy) m) (\<lambda>(ks, iov').
          Inr (k @ ks, iov_advance copy v # iov'))))"

text \<open>\<^verbatim>\<open>memcpy_fromiovec_safe\<close> returns the bytes, how many are missing, and the rest of the array.\<close>

fun memcpy_fromiovec_safe :: "iovec list \<Rightarrow> nat \<Rightarrow> memory \<Rightarrow> (u8 list \<times> nat \<times> iovec list) result" where
  "memcpy_fromiovec_safe [] len m = Inr ([], len, [])"
| "memcpy_fromiovec_safe (v # iov) len m =
     (if len = 0 then Inr ([], 0, v # iov)
      else let copy = min len (iov_len v); v' = iov_advance copy v in
        rbind (memcpy_from m (iov_base v) copy) (\<lambda>k.
          if iov_len v' = 0
          then rbind (memcpy_fromiovec_safe iov (len - copy) m) (\<lambda>(ks, n, iov'). Inr (k @ ks, n, iov'))
          else Inr (k, len - copy, v' # iov)))"

fun fromiovecend_loop :: "iovec list \<Rightarrow> nat \<Rightarrow> nat \<Rightarrow> memory \<Rightarrow> u8 list result" where
  "fromiovecend_loop iov off 0 m = Inr []"
| "fromiovecend_loop [] off (Suc len) m = Inl OutOfBounds"
| "fromiovecend_loop (v # iov) off (Suc len) m =
     (let copy = min_uint (Suc len) (iov_len v - off) in
      rbind (memcpy_from m (iov_base v + off) copy) (\<lambda>k.
      rbind (fromiovecend_loop iov 0 (Suc len - copy) m) (\<lambda>ks. Inr (k @ ks))))"

fun memcpy_fromiovecend :: "iovec list \<Rightarrow> nat \<Rightarrow> nat \<Rightarrow> memory \<Rightarrow> u8 list result" where
  "memcpy_fromiovecend [] off len m = Inl OutOfBounds"
| "memcpy_fromiovecend (v # iov) off len m =
     (if iov_len v \<le> off then memcpy_fromiovecend iov (off - iov_len v) len m
      else fromiovecend_loop (v # iov) off len m)"

section \<open>What an array stands for\<close>

definition buf :: "memory \<Rightarrow> iovec \<Rightarrow> u8 list" where
  "buf m v = take (iov_len v) (drop (iov_base v) m)"

definition gather :: "memory \<Rightarrow> iovec list \<Rightarrow> u8 list" where
  "gather m iov = concat (map (buf m) iov)"

fun scatter :: "iovec list \<Rightarrow> u8 list \<Rightarrow> memory \<Rightarrow> memory" where
  "scatter [] ks m = m"
| "scatter (v # iov) ks m =
     scatter iov (drop (iov_len v) ks) (blit m (iov_base v) (take (iov_len v) ks))"

definition iov_total :: "iovec list \<Rightarrow> nat" where
  "iov_total iov = sum_list (map iov_len iov)"

text \<open>Ranges inside the memory, shorter than 4 GiB, and apart from each other.\<close>

definition inside :: "nat \<Rightarrow> iovec \<Rightarrow> bool" where
  "inside n v \<longleftrightarrow> iov_base v + iov_len v \<le> n \<and> iov_len v < 2 ^ 32"

definition apart :: "iovec \<Rightarrow> iovec \<Rightarrow> bool" where
  "apart v w \<longleftrightarrow> iov_base v + iov_len v \<le> iov_base w \<or> iov_base w + iov_len w \<le> iov_base v"

definition iov_ok :: "nat \<Rightarrow> iovec list \<Rightarrow> bool" where
  "iov_ok n iov \<longleftrightarrow> (\<forall>v \<in> set iov. inside n v) \<and> sorted_wrt apart iov"

lemma iov_ok_simps [simp]:
  "iov_ok n []"
  "iov_ok n (v # iov) \<longleftrightarrow> inside n v \<and> (\<forall>w \<in> set iov. apart v w) \<and> iov_ok n iov"
  by (auto simp: iov_ok_def)

lemma iov_total_simps [simp]: "iov_total [] = 0" "iov_total (v # iov) = iov_len v + iov_total iov"
  by (simp_all add: iov_total_def)

lemma gather_simps [simp]: "gather m [] = []" "gather m (v # iov) = buf m v @ gather m iov"
  by (simp_all add: gather_def)

lemma iov_ok_append:
  "iov_ok n (xs @ ys) \<longleftrightarrow> iov_ok n xs \<and> iov_ok n ys \<and> (\<forall>x \<in> set xs. \<forall>y \<in> set ys. apart x y)"
  by (auto simp: iov_ok_def sorted_wrt_append)

lemma length_buf: "inside (length m) v \<Longrightarrow> length (buf m v) = iov_len v"
  by (auto simp: buf_def inside_def min_def)

lemma length_gather: "iov_ok (length m) iov \<Longrightarrow> length (gather m iov) = iov_total iov"
  by (induction iov) (simp_all add: length_buf)

lemma length_scatter [simp]: "iov_ok (length m) iov \<Longrightarrow> length (scatter iov ks m) = length m"
  by (induction iov arbitrary: ks m) (auto simp: inside_def)

lemma buf_blit_apart:
  assumes "apart v w" and "inside (length m) v" and "inside (length m) w" and "length ks \<le> iov_len v"
  shows "buf (blit m (iov_base v) ks) w = buf m w"
  using assms
  by (intro nth_equalityI) (auto simp: buf_def inside_def apart_def nth_blit)

lemma gather_blit_apart:
  "\<forall>w \<in> set iov. apart v w \<and> inside (length m) w \<Longrightarrow> inside (length m) v \<Longrightarrow> length ks \<le> iov_len v \<Longrightarrow>
   gather (blit m (iov_base v) ks) iov = gather m iov"
  by (induction iov) (simp_all add: buf_blit_apart)

lemma buf_blit_self:
  "inside (length m) v \<Longrightarrow> length ks \<le> iov_len v \<Longrightarrow>
   buf (blit m (iov_base v) ks) v = ks @ drop (length ks) (buf m v)"
  by (intro nth_equalityI) (auto simp: buf_def inside_def nth_blit nth_append)

lemma buf_scatter_apart:
  "\<forall>v \<in> set iov. apart v w \<Longrightarrow> iov_ok (length m) iov \<Longrightarrow> inside (length m) w \<Longrightarrow>
   buf (scatter iov ks m) w = buf m w"
proof (induction iov arbitrary: ks m)
  case (Cons v iov)
  let ?m = "blit m (iov_base v) (take (iov_len v) ks)"
  have "length ?m = length m" using Cons.prems by (auto simp: inside_def)
  moreover have "buf ?m w = buf m w" using Cons.prems by (intro buf_blit_apart) auto
  ultimately show ?case using Cons by simp
qed simp

lemma apart_commute: "apart v w = apart w v"
  by (auto simp: apart_def)

text \<open>The bytes written are the bytes read back; what they do not reach keeps its value.\<close>

lemma gather_scatter:
  "iov_ok (length m) iov \<Longrightarrow> length ks \<le> iov_total iov \<Longrightarrow>
   gather (scatter iov ks m) iov = ks @ drop (length ks) (gather m iov)"
proof (induction iov arbitrary: ks m)
  case (Cons v iov)
  let ?h = "take (iov_len v) ks" and ?t = "drop (iov_len v) ks"
  let ?m = "blit m (iov_base v) ?h"
  have len: "length ?m = length m" using Cons.prems by (auto simp: inside_def)
  have v: "buf (scatter iov ?t ?m) v = ?h @ drop (length ?h) (buf m v)"
    using Cons.prems len by (subst buf_scatter_apart) (auto simp: apart_commute buf_blit_self)
  have "gather (scatter iov ?t ?m) iov = ?t @ drop (length ?t) (gather ?m iov)"
    using Cons.prems len by (intro Cons.IH) auto
  also have "gather ?m iov = gather m iov"
    using Cons.prems by (intro gather_blit_apart) (auto simp: iov_ok_def)
  finally show ?case
    using v Cons.prems length_buf [of m v] by (cases "length ks \<le> iov_len v") auto
qed simp

section \<open>The routines do this\<close>

lemma min_uint_small: "a < 2 ^ 32 \<Longrightarrow> b < 2 ^ 32 \<Longrightarrow> min_uint a b = min a b"
  by (simp add: min_uint_def)

lemma blit_Nil [simp]: "blit m i [] = m"
  by (simp add: blit_def)

lemma scatter_Nil [simp]: "scatter iov [] m = m"
  by (induction iov arbitrary: m) simp_all

lemma memcpy_toiovec_ok:
  "iov_ok (length m) iov \<Longrightarrow> length ks \<le> iov_total iov \<Longrightarrow> length ks < 2 ^ 32 \<Longrightarrow>
   \<exists>iov'. memcpy_toiovec iov ks m = Inr (iov', scatter iov ks m)"
proof (induction iov arbitrary: ks m)
  case (Cons v iov)
  let ?m = "blit m (iov_base v) (take (iov_len v) ks)"
  have len: "length ?m = length m" using Cons.prems by (auto simp: inside_def)
  have "length ks - iov_len v \<le> iov_total iov" "length ks - iov_len v < 2 ^ 32"
    using Cons.prems(2,3) by auto
  then obtain iov' where
    "memcpy_toiovec iov (drop (iov_len v) ks) ?m = Inr (iov', scatter iov (drop (iov_len v) ks) ?m)"
    using Cons.IH [of ?m "drop (iov_len v) ks"] Cons.prems(1) len by auto
  moreover have "min_uint (iov_len v) (length ks) = min (iov_len v) (length ks)"
    using Cons.prems by (simp add: min_uint_small inside_def)
  moreover have "take (min (iov_len v) (length ks)) ks = take (iov_len v) ks"
    "drop (min (iov_len v) (length ks)) ks = drop (iov_len v) ks" by (auto simp: min_def)
  ultimately show ?case
    using Cons.prems by (auto simp: Let_def memcpy_to_def inside_def)
qed auto

lemma memcpy_fromiovec_ok:
  "iov_ok (length m) iov \<Longrightarrow> n \<le> iov_total iov \<Longrightarrow> n < 2 ^ 32 \<Longrightarrow>
   \<exists>iov'. memcpy_fromiovec iov n m = Inr (take n (gather m iov), iov')"
proof (induction iov arbitrary: n)
  case (Cons v iov)
  have "n - min n (iov_len v) \<le> iov_total iov" "n - min n (iov_len v) < 2 ^ 32"
    using Cons.prems(2,3) by auto
  then obtain iov' where
    "memcpy_fromiovec iov (n - min n (iov_len v)) m = Inr (take (n - min n (iov_len v)) (gather m iov), iov')"
    using Cons.IH [of "n - min n (iov_len v)"] Cons.prems(1) by auto
  moreover have "min_uint n (iov_len v) = min n (iov_len v)"
    using Cons.prems by (simp add: min_uint_small inside_def)
  ultimately show ?case
    using Cons.prems length_buf [of m v]
    by (auto simp: Let_def memcpy_from_def inside_def buf_def min_def)
qed auto

text \<open>The bounded variant also tells where it stopped: the array that is left stands for the rest.\<close>

lemma memcpy_fromiovec_safe_ok:
  "iov_ok (length m) iov \<Longrightarrow>
   \<exists>iov'. memcpy_fromiovec_safe iov n m = Inr (take n (gather m iov), n - iov_total iov, iov') \<and>
     gather m iov' = drop n (gather m iov) \<and> iov_ok (length m) iov'"
proof (induction iov arbitrary: n)
  case (Cons v iov)
  show ?case
  proof (cases "n < iov_len v")
    case True
    have "apart (iov_advance n v) w" if "w \<in> set iov" for w
      using Cons.prems that True by (auto simp: iov_advance_def apart_def)
    moreover have "buf m (iov_advance n v) = drop n (buf m v)"
      using True by (simp add: iov_advance_def buf_def drop_take add.commute)
    ultimately show ?thesis
      using Cons.prems True length_buf [of m v]
      by (cases "n = 0") (auto simp: Let_def memcpy_from_def inside_def iov_advance_def buf_def min_def)
  next
    case False
    then have "iov_len (iov_advance (iov_len v) v) = 0" "min n (iov_len v) = iov_len v"
      by (simp_all add: iov_advance_def)
    with False Cons.IH [of "n - iov_len v"] Cons.prems length_buf [of m v] show ?thesis
      by (cases "n = 0") (auto simp: Let_def memcpy_from_def inside_def buf_def)
  qed
qed simp

text \<open>The variants with an offset work on the array without its first \<open>off\<close> bytes.\<close>

fun iov_skip :: "nat \<Rightarrow> iovec list \<Rightarrow> iovec list" where
  "iov_skip off [] = []"
| "iov_skip off (v # iov) = (if iov_len v \<le> off then iov_skip (off - iov_len v) iov else iov_advance off v # iov)"

lemma advance_ok:
  assumes "inside n v" and "off \<le> iov_len v"
  shows "inside n (iov_advance off v)" and "apart v w \<Longrightarrow> apart (iov_advance off v) w"
  using assms by (auto simp: inside_def iov_advance_def apart_def)

lemma advance_0 [simp]: "iov_advance 0 v = v"
  by (simp add: iov_advance_def)

lemma buf_advance: "off \<le> iov_len v \<Longrightarrow> buf m (iov_advance off v) = drop off (buf m v)"
  by (simp add: iov_advance_def buf_def drop_take add.commute)

lemma skip_ok:
  "iov_ok (length m) iov \<Longrightarrow> iov_ok (length m) (iov_skip off iov) \<and>
     gather m (iov_skip off iov) = drop off (gather m iov) \<and> iov_total (iov_skip off iov) = iov_total iov - off"
proof (induction iov arbitrary: off)
  case (Cons v iov)
  then show ?case
    using length_buf [of m v] by (auto simp: advance_ok buf_advance) (simp_all add: iov_advance_def)
qed simp

lemma memcpy_toiovecend_0:
  "iov_ok (length m) iov \<Longrightarrow> length ks \<le> iov_total iov \<Longrightarrow> length ks < 2 ^ 32 \<Longrightarrow>
   memcpy_toiovecend iov ks 0 m = Inr (scatter iov ks m)"
proof (induction iov arbitrary: ks m)
  case (Cons v iov)
  let ?m = "blit m (iov_base v) (take (iov_len v) ks)"
  have "length ?m = length m" using Cons.prems by (auto simp: inside_def)
  moreover have "length ks - iov_len v \<le> iov_total iov" "length ks - iov_len v < 2 ^ 32"
    using Cons.prems(2,3) by auto
  ultimately have
    "memcpy_toiovecend iov (drop (iov_len v) ks) 0 ?m = Inr (scatter iov (drop (iov_len v) ks) ?m)"
    using Cons.IH [of ?m "drop (iov_len v) ks"] Cons.prems(1) by auto
  moreover have "min_uint (iov_len v) (length ks) = min (iov_len v) (length ks)"
    using Cons.prems by (simp add: min_uint_small inside_def)
  moreover have "take (min (iov_len v) (length ks)) ks = take (iov_len v) ks"
    "drop (min (iov_len v) (length ks)) ks = drop (iov_len v) ks" by (auto simp: min_def)
  ultimately show ?case
    using Cons.prems by (auto simp: Let_def memcpy_to_def inside_def)
qed simp

lemma toiovecend_Nil [simp]: "memcpy_toiovecend iov [] off m = Inr m"
  by (cases iov) simp_all

lemma toiovecend_skip:
  "memcpy_toiovecend iov ks off m = memcpy_toiovecend (iov_skip off iov) ks 0 m"
  by (induction iov arbitrary: off) (simp_all add: iov_advance_def)

lemma memcpy_toiovecend_ok:
  assumes "iov_ok (length m) iov" and "off + length ks \<le> iov_total iov" and "length ks < 2 ^ 32"
  shows "memcpy_toiovecend iov ks off m = Inr (scatter (iov_skip off iov) ks m)"
  unfolding toiovecend_skip [of iov] using assms skip_ok [of m iov off]
  by (intro memcpy_toiovecend_0) auto

lemma skip_apart: "\<forall>w \<in> set iov. apart v w \<Longrightarrow> iov_ok n iov \<Longrightarrow> w \<in> set (iov_skip off iov) \<Longrightarrow> apart v w"
proof (induction iov arbitrary: off)
  case (Cons u iov)
  have "apart u v" "inside n u" using Cons.prems(1,2) by (simp_all add: apart_commute [of v])
  then have "apart v (iov_advance off u)" if "off \<le> iov_len u"
    using advance_ok(2) [of n u off v] that by (simp add: apart_commute [of v])
  with Cons show ?case by (auto split: if_splits)
qed simp

text \<open>Writing behind the first \<open>off\<close> bytes keeps them.\<close>

lemma gather_scatter_skip:
  "iov_ok (length m) iov \<Longrightarrow> off \<le> iov_total iov \<Longrightarrow> take off (gather (scatter (iov_skip off iov) ks m) iov) = take off (gather m iov)"
proof (induction iov arbitrary: off ks m)
  case (Cons v iov)
  have in': "inside (length m) v" using Cons.prems(1) by simp
  show ?case
  proof (cases "iov_len v \<le> off")
    case True
    let ?m = "scatter (iov_skip (off - iov_len v) iov) ks m"
    have "buf ?m v = buf m v"
      using Cons.prems(1) skip_ok [of m iov "off - iov_len v"] skip_apart [of iov v "length m" _ "off - iov_len v"]
      by (intro buf_scatter_apart) (auto simp: apart_commute [of _ v])
    moreover have "take (off - iov_len v) (gather ?m iov) = take (off - iov_len v) (gather m iov)"
      using Cons.prems True by (intro Cons.IH) auto
    ultimately show ?thesis using True length_buf [OF in'] by simp
  next
    case False
    let ?w = "iov_advance off v" and ?h = "\<lparr> iov_base = iov_base v, iov_len = off \<rparr>"
    have ok: "iov_ok (length m) (?w # iov)" using Cons.prems(1) advance_ok [OF in', of off] False by auto
    have "\<forall>u \<in> set (?w # iov). apart u ?h"
      using Cons.prems(1) False by (auto simp: apart_def iov_advance_def)
    moreover have hin: "inside (length m) ?h" using in' False by (simp add: inside_def)
    ultimately have b: "buf (scatter (?w # iov) ks m) ?h = buf m ?h" using ok by (intro buf_scatter_apart)
    have t: "take off (gather n (v # iov)) = buf n ?h" if "length n = length m" for n
      using that in' False by (auto simp: buf_def inside_def)
    show ?thesis using False b t [of m] t [of "scatter (?w # iov) ks m"] length_scatter [OF ok] by simp
  qed
qed simp

lemma gather_two_parts:
  assumes "iov_ok (length m) iov" and "length xs + length ys \<le> iov_total iov"
  shows "take (length xs + length ys) (gather (scatter (iov_skip (length xs) iov) ys (scatter iov xs m)) iov) = xs @ ys"
proof -
  let ?m1 = "scatter iov xs m" and ?k = "iov_skip (length xs) iov"
  let ?m2 = "scatter ?k ys ?m1"
  have l1: "length ?m1 = length m" using assms(1) by simp
  have k: "iov_ok (length ?m1) ?k" "iov_total ?k = iov_total iov - length xs" using skip_ok [of ?m1 iov "length xs"] assms(1) l1 by simp_all
  have l2: "length ?m2 = length m" using k(1) l1 by simp
  have g1: "take (length xs) (gather ?m1 iov) = xs" using gather_scatter [OF assms(1), of xs] assms(2) by simp
  have a: "take (length xs) (gather ?m2 iov) = xs" using gather_scatter_skip [of ?m1 iov "length xs" ys] assms l1 g1 by simp
  have "drop (length xs) (gather ?m2 iov) = gather ?m2 ?k" using skip_ok [of ?m2 iov "length xs"] assms(1) l2 by simp
  also have "\<dots> = ys @ drop (length ys) (gather ?m1 ?k)" using gather_scatter [OF k(1), of ys] k(2) assms(2) by simp
  finally have "take (length ys) (drop (length xs) (gather ?m2 iov)) = ys" by simp
  with a show ?thesis by (simp add: take_add)
qed

lemma fromiovecend_loop_ok:
  "iov_ok (length m) iov \<Longrightarrow> n \<le> iov_total iov \<Longrightarrow> n < 2 ^ 32 \<Longrightarrow>
   fromiovecend_loop iov 0 n m = Inr (take n (gather m iov))"
proof (induction iov arbitrary: n)
  case (Cons v iov)
  show ?case
  proof (cases n)
    case (Suc k)
    have "n - min n (iov_len v) \<le> iov_total iov" "n - min n (iov_len v) < 2 ^ 32"
      using Cons.prems(2,3) by auto
    then have "fromiovecend_loop iov 0 (n - min n (iov_len v)) m =
        Inr (take (n - min n (iov_len v)) (gather m iov))"
      using Cons.IH [of "n - min n (iov_len v)"] Cons.prems(1) by auto
    moreover have "min_uint n (iov_len v) = min n (iov_len v)"
      using Cons.prems by (simp add: min_uint_small inside_def)
    ultimately show ?thesis
      using Cons.prems length_buf [of m v] Suc
      by (auto simp: Let_def memcpy_from_def inside_def buf_def min_def)
  qed simp
qed simp

lemma fromiovecend_skip:
  "off < iov_total iov \<Longrightarrow> memcpy_fromiovecend iov off n m = fromiovecend_loop (iov_skip off iov) 0 n m"
proof (induction iov arbitrary: off)
  case (Cons v iov)
  then show ?case by (cases n) (auto simp: iov_advance_def)
qed simp

lemma memcpy_fromiovecend_ok:
  assumes "iov_ok (length m) iov" and "off < iov_total iov" and "off + n \<le> iov_total iov" and "n < 2 ^ 32"
  shows "memcpy_fromiovecend iov off n m = Inr (take n (drop off (gather m iov)))"
  using fromiovecend_skip [OF assms(2)] fromiovecend_loop_ok [of m "iov_skip off iov" n] assms
    skip_ok [OF assms(1), of off]
  by simp

end
