(* ===== verification/Hostio.thy ===== *)
theory Hostio
  imports Iovec
begin

text \<open>
  Complete transfers on host files: \<^verbatim>\<open>util/read-write.c\<close>. The system calls may be interrupted, may
  fail and may transfer fewer bytes than asked for; the file carries the list of these
  incidents in the order they will happen, and once it is empty every call completes. What
  is assumed of a call that completes is what POSIX says of a regular file: a read gives the
  bytes from the offset up to the end of the file, none only at the end, and a write past the
  end fills the gap with zeros.
\<close>

datatype incident = Interrupted | Failed | Short nat

record host_file =
  content :: "u8 list"
  position :: nat
  incidents :: "incident list"

datatype 'a sysret = Again | Err | Got 'a

section \<open>System calls\<close>

text \<open>
  \<open>syscall ok count op f\<close>: the effect \<open>op n\<close> on at most \<open>n \<le> count\<close> bytes, \<open>n > 0\<close> unless
  \<open>count = 0\<close>. \<open>ok\<close> is false for arguments that the kernel refuses.
\<close>

definition syscall :: "bool \<Rightarrow> nat \<Rightarrow> (nat \<Rightarrow> host_file \<Rightarrow> 'a \<times> host_file) \<Rightarrow> host_file \<Rightarrow> 'a sysret \<times> host_file" where
  "syscall ok count op f =
     (if \<not> ok then (Err, f)
      else case incidents f of
        [] \<Rightarrow> (case op count f of (r, f') \<Rightarrow> (Got r, f'))
      | Interrupted # is \<Rightarrow> (Again, f\<lparr>incidents := is\<rparr>)
      | Failed # is \<Rightarrow> (Err, f\<lparr>incidents := is\<rparr>)
      | Short n # is \<Rightarrow> (case op (min count (Suc n)) (f\<lparr>incidents := is\<rparr>) of (r, f') \<Rightarrow> (Got r, f')))"

definition extend :: "u8 list \<Rightarrow> nat \<Rightarrow> u8 list" where
  "extend c n = c @ replicate (n - length c) 0"

definition write_at :: "nat \<Rightarrow> u8 list \<Rightarrow> u8 list \<Rightarrow> u8 list" where
  "write_at off bs c = (if bs = [] then c else blit (extend c (off + length bs)) off bs)"

definition read_op :: "nat \<Rightarrow> nat \<Rightarrow> host_file \<Rightarrow> u8 list \<times> host_file" where
  "read_op off n f = (take n (drop off (content f)), f)"

definition write_op :: "u8 list \<Rightarrow> nat \<Rightarrow> nat \<Rightarrow> host_file \<Rightarrow> nat \<times> host_file" where
  "write_op bs off n f = (min n (length bs), f\<lparr>content := write_at off (take n bs) (content f)\<rparr>)"

definition read_seq_op :: "nat \<Rightarrow> host_file \<Rightarrow> u8 list \<times> host_file" where
  "read_seq_op n f = (let bs = take n (drop (position f) (content f)) in (bs, f\<lparr>position := position f + length bs\<rparr>))"

definition write_seq_op :: "u8 list \<Rightarrow> nat \<Rightarrow> host_file \<Rightarrow> nat \<times> host_file" where
  "write_seq_op bs n f =
     (min n (length bs), f\<lparr>content := write_at (position f) (take n bs) (content f),
                          position := position f + min n (length bs)\<rparr>)"

text \<open>An \<^verbatim>\<open>off_t\<close> must not be negative.\<close>

definition off_ok :: "nat \<Rightarrow> nat \<Rightarrow> bool" where
  "off_ok off n \<longleftrightarrow> off + n < 2 ^ 63"

section \<open>Calls that are restarted\<close>

text \<open>The label \<^verbatim>\<open>restart\<close> in all of \<^verbatim>\<open>xread\<close>, \<^verbatim>\<open>xwrite\<close>, \<^verbatim>\<open>xpread\<close>, ...\<close>

function restart :: "bool \<Rightarrow> nat \<Rightarrow> (nat \<Rightarrow> host_file \<Rightarrow> 'a \<times> host_file) \<Rightarrow> host_file \<Rightarrow> 'a sysret \<times> host_file" where
  "restart ok count op f =
     (case syscall ok count op f of
        (Again, f') \<Rightarrow> restart ok count op f'
      | (Err, f') \<Rightarrow> (Err, f')
      | (Got r, f') \<Rightarrow> (Got r, f'))"
  by pat_completeness auto
termination
  by (relation "measure (\<lambda>(_, _, _, f). length (incidents f))")
    (auto simp: syscall_def split: if_splits list.splits incident.splits prod.splits)

declare restart.simps [simp del]

definition xread :: "nat \<Rightarrow> host_file \<Rightarrow> u8 list sysret \<times> host_file" where
  "xread count = restart True count read_seq_op"

definition xwrite :: "u8 list \<Rightarrow> host_file \<Rightarrow> nat sysret \<times> host_file" where
  "xwrite bs = restart True (length bs) (write_seq_op bs)"

definition xpread :: "nat \<Rightarrow> nat \<Rightarrow> host_file \<Rightarrow> u8 list sysret \<times> host_file" where
  "xpread count off = restart (off_ok off count) count (read_op off)"

definition xpwrite :: "u8 list \<Rightarrow> nat \<Rightarrow> host_file \<Rightarrow> nat sysret \<times> host_file" where
  "xpwrite bs off = restart (off_ok off (length bs)) (length bs) (write_op bs off)"

text \<open>The vectors of the calls on several buffers are ranges of a memory.\<close>

definition readv_result :: "iovec list \<Rightarrow> memory \<Rightarrow> u8 list sysret \<times> host_file \<Rightarrow> nat sysret \<times> memory \<times> host_file" where
  "readv_result iov m r = (case r of (Got bs, f) \<Rightarrow> (Got (length bs), scatter iov bs m, f) | (Again, f) \<Rightarrow> (Again, m, f) | (Err, f) \<Rightarrow> (Err, m, f))"

definition mapped :: "memory \<Rightarrow> iovec list \<Rightarrow> bool" where
  "mapped m iov \<longleftrightarrow> (\<forall>v \<in> set iov. iov_base v + iov_len v \<le> length m)"

definition xreadv :: "iovec list \<Rightarrow> memory \<Rightarrow> host_file \<Rightarrow> nat sysret \<times> memory \<times> host_file" where
  "xreadv iov m f = readv_result iov m (restart (mapped m iov) (iov_total iov) read_seq_op f)"

definition xwritev :: "iovec list \<Rightarrow> memory \<Rightarrow> host_file \<Rightarrow> nat sysret \<times> host_file" where
  "xwritev iov m f = restart (mapped m iov) (iov_total iov) (write_seq_op (gather m iov)) f"

definition xpreadv :: "iovec list \<Rightarrow> nat \<Rightarrow> memory \<Rightarrow> host_file \<Rightarrow> nat sysret \<times> memory \<times> host_file" where
  "xpreadv iov off m f = readv_result iov m (restart (mapped m iov \<and> off_ok off (iov_total iov)) (iov_total iov) (read_op off) f)"

definition xpwritev :: "iovec list \<Rightarrow> nat \<Rightarrow> memory \<Rightarrow> host_file \<Rightarrow> nat sysret \<times> host_file" where
  "xpwritev iov off m f = restart (mapped m iov \<and> off_ok off (iov_total iov)) (iov_total iov) (write_op (gather m iov) off) f"

section \<open>Complete transfers\<close>

text \<open>\<open>None\<close> is the return value -1, \<open>Some bs\<close> the number of bytes that were read, and these bytes.\<close>

definition short_read :: "u8 list \<Rightarrow> u8 list option" where
  "short_read acc = (if acc \<noteq> [] then Some acc else None)"


function read_loop :: "nat \<Rightarrow> u8 list \<Rightarrow> host_file \<Rightarrow> u8 list option \<times> host_file" where
  "read_loop count acc f =
     (if count = 0 then (Some acc, f)
      else case xread count f of
        (Got bs, f') \<Rightarrow> if bs = [] then (short_read acc, f') else read_loop (count - length bs) (acc @ bs) f'
      | (_, f') \<Rightarrow> (short_read acc, f'))"
  by pat_completeness auto
termination
  by (relation "measure (\<lambda>(count, _, _). count)") auto

definition read_in_full :: "nat \<Rightarrow> host_file \<Rightarrow> u8 list option \<times> host_file" where
  "read_in_full count f = read_loop count [] f"

definition read_file :: "nat \<Rightarrow> host_file \<Rightarrow> u8 list option \<times> host_file" where
  "read_file max_size f =
     (case read_in_full max_size f of (ret, f1) \<Rightarrow>
      (case xread 1 f1 of
         (Got [], f2) \<Rightarrow> (ret, f2)
       | (_, f2) \<Rightarrow> (None, f2)))"

function write_loop :: "u8 list \<Rightarrow> nat \<Rightarrow> host_file \<Rightarrow> nat option \<times> host_file" where
  "write_loop p tot f =
     (if p = [] then (Some tot, f)
      else case xwrite p f of
        (Got nr, f') \<Rightarrow> if nr = 0 then (None, f') else write_loop (drop nr p) (tot + nr) f'
      | (_, f') \<Rightarrow> (None, f'))"
  by pat_completeness auto
termination
  by (relation "measure (\<lambda>(p, _, _). length p)") auto

definition write_in_full :: "u8 list \<Rightarrow> host_file \<Rightarrow> nat option \<times> host_file" where
  "write_in_full bs f = write_loop bs 0 f"

function pread_loop :: "nat \<Rightarrow> nat \<Rightarrow> u8 list \<Rightarrow> host_file \<Rightarrow> u8 list option \<times> host_file" where
  "pread_loop count off acc f =
     (if count = 0 then (Some acc, f)
      else case xpread count off f of
        (Got bs, f') \<Rightarrow>
          if bs = [] then (short_read acc, f') else pread_loop (count - length bs) (off + length bs) (acc @ bs) f'
      | (_, f') \<Rightarrow> (short_read acc, f'))"
  by pat_completeness auto
termination
  by (relation "measure (\<lambda>(count, _, _, _). count)") auto

definition pread_in_full :: "nat \<Rightarrow> nat \<Rightarrow> host_file \<Rightarrow> u8 list option \<times> host_file" where
  "pread_in_full count off f = pread_loop count off [] f"

function pwrite_loop :: "u8 list \<Rightarrow> nat \<Rightarrow> nat \<Rightarrow> host_file \<Rightarrow> nat option \<times> host_file" where
  "pwrite_loop p off tot f =
     (if p = [] then (Some tot, f)
      else case xpwrite p off f of
        (Got nr, f') \<Rightarrow> if nr = 0 then (None, f') else pwrite_loop (drop nr p) (off + nr) (tot + nr) f'
      | (_, f') \<Rightarrow> (None, f'))"
  by pat_completeness auto
termination
  by (relation "measure (\<lambda>(p, _, _, _). length p)") auto

definition pwrite_in_full :: "u8 list \<Rightarrow> nat \<Rightarrow> host_file \<Rightarrow> nat option \<times> host_file" where
  "pwrite_in_full bs off f = pwrite_loop bs off 0 f"

declare read_loop.simps [simp del] write_loop.simps [simp del] pread_loop.simps [simp del] pwrite_loop.simps [simp del]

subsection \<open>Several buffers\<close>

fun get_iov_size :: "iovec list \<Rightarrow> nat \<Rightarrow> nat" where
  "get_iov_size iov 0 = 0"
| "get_iov_size [] (Suc n) = 0"
| "get_iov_size (v # iov) (Suc n) = iov_len v + get_iov_size iov n"

text \<open>
  \<^verbatim>\<open>shift_iovec\<close> does not look at \<^verbatim>\<open>iovcnt\<close>: after a complete transfer it reads the entry behind the
  last one. The list holds the array and what lies behind it. The result is the rest of the
  array, its count, the total, the bytes that are left and the offset.
\<close>

fun shift_iovec :: "iovec list \<Rightarrow> int \<Rightarrow> nat \<Rightarrow> nat \<Rightarrow> nat \<Rightarrow> nat \<Rightarrow> (iovec list \<times> int \<times> nat \<times> nat \<times> nat) result" where
  "shift_iovec [] cnt nr tot count off = Inl OutOfBounds"
| "shift_iovec (v # iov) cnt nr tot count off =
     (if iov_len v \<le> nr
      then shift_iovec iov (cnt - 1) (nr - iov_len v) (tot + iov_len v) (count - iov_len v) (off + iov_len v)
      else Inr (v # iov, cnt, tot, count, off))"

definition short_total :: "nat \<Rightarrow> nat option" where
  "short_total tot = (if 0 < tot then Some tot else None)"

text \<open>
  These loops may run for ever, so they are partial: the value \<open>None\<close> is a loop that does not end.
\<close>

partial_function (option) preadv_loop ::
  "iovec list \<Rightarrow> int \<Rightarrow> nat \<Rightarrow> nat \<Rightarrow> nat \<Rightarrow> memory \<Rightarrow> host_file \<Rightarrow> (nat option \<times> memory \<times> host_file) result option" where
  "preadv_loop iov cnt tot count off m f =
     (if count = 0 then Some (Inr (Some tot, m, f))
      else case xpreadv (take (nat cnt) iov) off m f of
        (Got nr, m', f') \<Rightarrow>
          if nr = 0 then Some (Inr (short_total tot, m', f'))
          else (case shift_iovec iov cnt nr tot count off of
                  Inl e \<Rightarrow> Some (Inl e)
                | Inr (iov', cnt', tot', count', off') \<Rightarrow> preadv_loop iov' cnt' tot' count' off' m' f')
      | (Again, m', f') \<Rightarrow> Some (Inr (short_total tot, m', f'))
      | (Err, m', f') \<Rightarrow> Some (Inr (short_total tot, m', f')))"

definition preadv_in_full :: "iovec list \<Rightarrow> nat \<Rightarrow> nat \<Rightarrow> memory \<Rightarrow> host_file \<Rightarrow> (nat option \<times> memory \<times> host_file) result option" where
  "preadv_in_full iov iovcnt off m f = preadv_loop iov (int iovcnt) 0 (get_iov_size iov iovcnt) off m f"

partial_function (option) pwritev_loop ::
  "iovec list \<Rightarrow> int \<Rightarrow> nat \<Rightarrow> nat \<Rightarrow> nat \<Rightarrow> memory \<Rightarrow> host_file \<Rightarrow> (nat option \<times> host_file) result option" where
  "pwritev_loop iov cnt tot count off m f =
     (if count = 0 then Some (Inr (Some tot, f))
      else case xpwritev (take (nat cnt) iov) off m f of
        (Got nr, f') \<Rightarrow>
          if nr = 0 then Some (Inr (None, f'))
          else (case shift_iovec iov cnt nr tot count off of
                  Inl e \<Rightarrow> Some (Inl e)
                | Inr (iov', cnt', tot', count', off') \<Rightarrow> pwritev_loop iov' cnt' tot' count' off' m f')
      | (Again, f') \<Rightarrow> Some (Inr (None, f'))
      | (Err, f') \<Rightarrow> Some (Inr (None, f')))"

definition pwritev_in_full :: "iovec list \<Rightarrow> nat \<Rightarrow> nat \<Rightarrow> memory \<Rightarrow> host_file \<Rightarrow> (nat option \<times> host_file) result option" where
  "pwritev_in_full iov iovcnt off m f = pwritev_loop iov (int iovcnt) 0 (get_iov_size iov iovcnt) off m f"

partial_function (option) readv_loop ::
  "iovec list \<Rightarrow> int \<Rightarrow> nat \<Rightarrow> nat \<Rightarrow> memory \<Rightarrow> host_file \<Rightarrow> (nat option \<times> memory \<times> host_file) result option" where
  "readv_loop iov cnt tot count m f =
     (if count = 0 then Some (Inr (Some tot, m, f))
      else case xreadv (take (nat cnt) iov) m f of
        (Got nr, m', f') \<Rightarrow>
          if nr = 0 then Some (Inr (short_total tot, m', f'))
          else (case shift_iovec iov cnt nr tot count 0 of
                  Inl e \<Rightarrow> Some (Inl e)
                | Inr (iov', cnt', tot', count', _) \<Rightarrow> readv_loop iov' cnt' tot' count' m' f')
      | (Again, m', f') \<Rightarrow> Some (Inr (short_total tot, m', f'))
      | (Err, m', f') \<Rightarrow> Some (Inr (short_total tot, m', f')))"

definition readv_in_full :: "iovec list \<Rightarrow> nat \<Rightarrow> memory \<Rightarrow> host_file \<Rightarrow> (nat option \<times> memory \<times> host_file) result option" where
  "readv_in_full iov iovcnt m f = readv_loop iov (int iovcnt) 0 (get_iov_size iov iovcnt) m f"

partial_function (option) writev_loop ::
  "iovec list \<Rightarrow> int \<Rightarrow> nat \<Rightarrow> nat \<Rightarrow> memory \<Rightarrow> host_file \<Rightarrow> (nat option \<times> host_file) result option" where
  "writev_loop iov cnt tot count m f =
     (if count = 0 then Some (Inr (Some tot, f))
      else case xwritev (take (nat cnt) iov) m f of
        (Got nr, f') \<Rightarrow>
          if nr = 0 then Some (Inr (None, f'))
          else (case shift_iovec iov cnt nr tot count 0 of
                  Inl e \<Rightarrow> Some (Inl e)
                | Inr (iov', cnt', tot', count', _) \<Rightarrow> writev_loop iov' cnt' tot' count' m f')
      | (Again, f') \<Rightarrow> Some (Inr (None, f'))
      | (Err, f') \<Rightarrow> Some (Inr (None, f')))"

definition writev_in_full :: "iovec list \<Rightarrow> nat \<Rightarrow> memory \<Rightarrow> host_file \<Rightarrow> (nat option \<times> host_file) result option" where
  "writev_in_full iov iovcnt m f = writev_loop iov (int iovcnt) 0 (get_iov_size iov iovcnt) m f"

section \<open>Restarted calls\<close>

lemma no_incidents: "incidents f = is \<Longrightarrow> f\<lparr>incidents := is\<rparr> = f"
  by (cases f) simp

lemma restart_ok:
  "Failed \<notin> set (incidents f) \<Longrightarrow>
   \<exists>n is. restart True count op f = (case op n (f\<lparr>incidents := is\<rparr>) of (r, f') \<Rightarrow> (Got r, f')) \<and>
     (0 < count \<longrightarrow> 0 < n) \<and> n \<le> count \<and> Failed \<notin> set is \<and>
     length is \<le> length (incidents f) \<and> (incidents f = [] \<longrightarrow> n = count) \<and> (n = count \<or> length is < length (incidents f))"
proof (induction "incidents f" arbitrary: f)
  case Nil
  have "op count (f\<lparr>incidents := []\<rparr>) = op count f" using no_incidents [OF Nil.hyps [symmetric]] by simp
  then show ?case
    using Nil by (intro exI [of _ count] exI [of _ "[]"]) (auto simp: restart.simps [of True] syscall_def split: prod.splits)
next
  case (Cons a as)
  note inc = Cons.hyps(2) [symmetric]
  show ?case
  proof (cases a)
    case Interrupted
    have "restart True count op f = restart True count op (f\<lparr>incidents := as\<rparr>)"
      using inc Interrupted by (subst restart.simps) (simp add: syscall_def)
    moreover obtain n js where "restart True count op (f\<lparr>incidents := as\<rparr>) =
        (case op n (f\<lparr>incidents := js\<rparr>) of (r, f') \<Rightarrow> (Got r, f'))"
      "0 < count \<longrightarrow> 0 < n" "n \<le> count" "Failed \<notin> set js" "length js \<le> length as"
      using Cons.hyps(1) [of "f\<lparr>incidents := as\<rparr>"] Cons.prems inc by auto
    ultimately show ?thesis using inc by (intro exI [of _ n] exI [of _ js]) auto
  next
    case (Short k)
    with Cons.prems inc show ?thesis
      by (intro exI [of _ "min count (Suc k)"] exI [of _ as])
        (auto simp: restart.simps [of True] syscall_def split: prod.splits)
  qed (use Cons.prems inc in simp)
qed

lemma restart_refused: "restart False count op f = (Err, f)"
  by (simp add: restart.simps syscall_def)

text \<open>With failures: the call fails and changes nothing, or it has an effect of some length.\<close>

lemma restart_any:
  "(\<exists>is. restart ok count op f = (Err, f\<lparr>incidents := is\<rparr>)) \<or>
   (\<exists>n is. restart ok count op f = (case op n (f\<lparr>incidents := is\<rparr>) of (r, f') \<Rightarrow> (Got r, f')) \<and> n \<le> count)"
proof (induction "incidents f" arbitrary: f)
  case Nil
  have f: "f\<lparr>incidents := []\<rparr> = f" using no_incidents [OF Nil.hyps [symmetric]] .
  then have op: "op count (f\<lparr>incidents := []\<rparr>) = op count f" by simp
  show ?case
  proof (cases ok)
    case True
    then have "restart ok count op f = (case op count (f\<lparr>incidents := []\<rparr>) of (r, f') \<Rightarrow> (Got r, f'))"
      using Nil op by (simp add: restart.simps [of True] syscall_def split: prod.splits)
    then show ?thesis by blast
  next
    case False
    then have "restart ok count op f = (Err, f\<lparr>incidents := incidents f\<rparr>)" by (simp add: restart_refused)
    then show ?thesis by blast
  qed
next
  case (Cons a as)
  note inc = Cons.hyps(2) [symmetric]
  show ?case
  proof (cases ok)
    case True
    show ?thesis
    proof (cases a)
      case Interrupted
      have "restart ok count op f = restart ok count op (f\<lparr>incidents := as\<rparr>)"
        using inc Interrupted True by (subst restart.simps) (simp add: syscall_def)
      then show ?thesis using Cons.hyps(1) [of "f\<lparr>incidents := as\<rparr>"] by simp
    next
      case Failed
      then have "restart ok count op f = (Err, f\<lparr>incidents := as\<rparr>)"
        using inc True by (simp add: restart.simps [of True] syscall_def)
      then show ?thesis by blast
    next
      case (Short k)
      then have "restart ok count op f = (case op (min count (Suc k)) (f\<lparr>incidents := as\<rparr>) of (r, f') \<Rightarrow> (Got r, f'))"
        using inc True by (simp add: restart.simps [of True] syscall_def split: prod.splits)
      then show ?thesis using min.cobounded1 by blast
    qed
  next
    case False
    then have "restart ok count op f = (Err, f\<lparr>incidents := incidents f\<rparr>)" by (simp add: restart_refused)
    then show ?thesis by blast
  qed
qed

section \<open>Reads and writes at an offset\<close>

lemma length_extend [simp]: "length (extend c n) = max (length c) n"
  by (auto simp: extend_def)

lemma nth_extend: "i < max (length c) n \<Longrightarrow> extend c n ! i = (if i < length c then c ! i else 0)"
  by (auto simp: extend_def nth_append)

lemma write_at_Nil [simp]: "write_at off [] c = c"
  by (simp add: write_at_def)

lemma length_write_at: "length (write_at off bs c) = (if bs = [] then length c else max (length c) (off + length bs))"
  by (simp add: write_at_def)

lemma nth_write_at:
  assumes "i < length (write_at off bs c)"
  shows "write_at off bs c ! i =
    (if off \<le> i \<and> i < off + length bs then bs ! (i - off) else if i < length c then c ! i else 0)"
  using assms by (cases "bs = []") (auto simp: write_at_def nth_blit nth_extend)

lemma write_at_append:
  "write_at (off + length as) bs (write_at off as c) = write_at off (as @ bs) c"
proof (cases "as = [] \<or> bs = []")
  case False
  show ?thesis
  proof (rule nth_equalityI)
    show len: "length (write_at (off + length as) bs (write_at off as c)) = length (write_at off (as @ bs) c)"
      using False by (auto simp: length_write_at)
    fix i assume i: "i < length (write_at (off + length as) bs (write_at off as c))"
    then have j: "i < length (write_at off (as @ bs) c)" using len by simp
    show "write_at (off + length as) bs (write_at off as c) ! i = write_at off (as @ bs) c ! i"
      using False i by (simp add: nth_write_at [OF i] nth_write_at [OF j] nth_append)
        (auto simp: nth_write_at length_write_at)
  qed
qed auto

lemma write_at_split:
  "n \<le> length bs \<Longrightarrow> write_at (off + n) (drop n bs) (write_at off (take n bs) c) = write_at off bs c"
  using write_at_append [of off "take n bs" "drop n bs" c] by (simp add: min_absorb2)

lemma write_at_inside: "off + length bs \<le> length c \<Longrightarrow> write_at off bs c = blit c off bs"
  by (cases "bs = []") (simp_all add: write_at_def extend_def)

lemma take_parts:
  assumes "n \<le> count"
  shows "take n (drop off c) @ take (count - length (take n (drop off c))) (drop (off + length (take n (drop off c))) c) =
    take count (drop off c)"
proof (cases "n \<le> length (drop off c)")
  case True
  then show ?thesis
    using assms take_add [of n "count - n" "drop off c"] by (simp add: min_absorb2 add.commute)
next
  case False
  then show ?thesis using assms by simp
qed

text \<open>\<^verbatim>\<open>pread_in_full\<close> without failures: all bytes up to the end of the file, -1 when there is none.\<close>

lemma pread_loop_ok:
  assumes "Failed \<notin> set (incidents f)" and "off_ok off count"
  shows "\<exists>is. Failed \<notin> set is \<and> pread_loop count off acc f =
    (let bs = take count (drop off (content f)) in
      (if count = 0 \<or> acc @ bs \<noteq> [] then Some (acc @ bs) else None, f\<lparr>incidents := is\<rparr>))"
  using assms
proof (induction count off acc f rule: pread_loop.induct)
  case (1 count off acc f)
  show ?case
  proof (cases "count = 0")
    case True
    then show ?thesis using 1(2) by (intro exI [of _ "incidents f"]) (simp add: pread_loop.simps Let_def)
  next
    case False
    obtain n js where r: "xpread count off f = (Got (take n (drop off (content f))), f\<lparr>incidents := js\<rparr>)"
      and n: "0 < n" "n \<le> count" and js: "Failed \<notin> set js"
      using restart_ok [OF 1(2), of count "read_op off"] False 1(3) by (auto simp: xpread_def read_op_def)
    let ?bs = "take n (drop off (content f))"
    show ?thesis
    proof (cases "?bs = []")
      case True
      then have "length (content f) \<le> off" using n by simp
      with False True r js show ?thesis
        by (intro exI [of _ js]) (simp add: pread_loop.simps [of count] short_read_def)
    next
      case ne: False
      have "off_ok (off + length ?bs) (count - length ?bs)" using 1(3) n by (auto simp: off_ok_def)
      then obtain ks where ks: "Failed \<notin> set ks" "pread_loop (count - length ?bs) (off + length ?bs) (acc @ ?bs) (f\<lparr>incidents := js\<rparr>) =
          (Some (acc @ ?bs @ take (count - length ?bs) (drop (off + length ?bs) (content f))), f\<lparr>incidents := ks\<rparr>)"
        using 1(1) [OF False r [symmetric]] ne js by (auto simp: Let_def)
      have "?bs @ take (count - length ?bs) (drop (off + length ?bs) (content f)) = take count (drop off (content f))"
        using n(2) by (rule take_parts)
      with ks False ne r show ?thesis by (intro exI [of _ ks]) (auto simp: pread_loop.simps [of count] Let_def)
    qed
  qed
qed

lemma pread_in_full_ok:
  assumes "Failed \<notin> set (incidents f)" and "off + count \<le> length (content f)" and "off_ok off count"
  shows "\<exists>is. Failed \<notin> set is \<and> pread_in_full count off f = (Some (take count (drop off (content f))), f\<lparr>incidents := is\<rparr>)"
  using pread_loop_ok [OF assms(1,3), of "[]"] assms(2) by (cases "count = 0") (auto simp: pread_in_full_def Let_def)

text \<open>
  \<^verbatim>\<open>pwrite_in_full\<close>: without failures everything is written; with failures a beginning of
  it, and nothing else changes.
\<close>

lemma pwrite_loop_ok:
  assumes "Failed \<notin> set (incidents f)" and "off_ok off (length p)"
  shows "\<exists>is. Failed \<notin> set is \<and>
    pwrite_loop p off tot f = (Some (tot + length p), f\<lparr>incidents := is, content := write_at off p (content f)\<rparr>)"
  using assms
proof (induction p off tot f rule: pwrite_loop.induct)
  case (1 p off tot f)
  show ?case
  proof (cases "p = []")
    case True
    then show ?thesis using 1(2) by (intro exI [of _ "incidents f"]) (simp add: pwrite_loop.simps)
  next
    case False
    obtain n js where r: "xpwrite p off f = (Got n, f\<lparr>incidents := js, content := write_at off (take n p) (content f)\<rparr>)"
      and n: "0 < n" "n \<le> length p" and js: "Failed \<notin> set js"
      using restart_ok [OF 1(2), of "length p" "write_op p off"] False 1(3)
      by (auto simp: xpwrite_def write_op_def min_absorb1)
    have "off_ok (off + n) (length (drop n p))" using 1(3) n by (auto simp: off_ok_def)
    then obtain ks where "Failed \<notin> set ks" "pwrite_loop (drop n p) (off + n) (tot + n) (f\<lparr>incidents := js, content := write_at off (take n p) (content f)\<rparr>) =
        (Some (tot + length p), f\<lparr>incidents := ks, content := write_at off p (content f)\<rparr>)"
      using 1(1) [OF False r [symmetric]] n js by (auto simp: write_at_split)
    with r False n show ?thesis by (intro exI [of _ ks]) (simp add: pwrite_loop.simps [of p])
  qed
qed

lemma pwrite_in_full_ok:
  assumes "Failed \<notin> set (incidents f)" and "off_ok off (length p)"
  shows "\<exists>is. Failed \<notin> set is \<and>
    pwrite_in_full p off f = (Some (length p), f\<lparr>incidents := is, content := write_at off p (content f)\<rparr>)"
  using pwrite_loop_ok [OF assms, of 0] by (simp add: pwrite_in_full_def)

lemma pwrite_loop_any:
  "\<exists>n is r. pwrite_loop p off tot f = (r, f\<lparr>incidents := is, content := write_at off (take n p) (content f)\<rparr>) \<and>
     (r = None \<or> r = Some (tot + length p) \<and> length p \<le> n)"
proof (induction p off tot f rule: pwrite_loop.induct)
  case (1 p off tot f)
  show ?case
  proof (cases "p = []")
    case True
    then show ?thesis by (intro exI [of _ 0] exI [of _ "incidents f"] exI [of _ "Some tot"]) (simp add: pwrite_loop.simps)
  next
    case False
    consider (err) js where "xpwrite p off f = (Err, f\<lparr>incidents := js\<rparr>)"
      | (got) n js where "xpwrite p off f = (Got n, f\<lparr>incidents := js, content := write_at off (take n p) (content f)\<rparr>)" "n \<le> length p"
      using restart_any [of "off_ok off (length p)" "length p" "write_op p off" f]
      by (auto simp: xpwrite_def write_op_def min_absorb1)
    then show ?thesis
    proof cases
      case err
      with False show ?thesis
        by (intro exI [of _ 0] exI [of _ js] exI [of _ None]) (simp add: pwrite_loop.simps [of p])
    next
      case got
      show ?thesis
      proof (cases "n = 0")
        case True
        with False got show ?thesis
          by (intro exI [of _ 0] exI [of _ js] exI [of _ None]) (simp add: pwrite_loop.simps [of p])
      next
        case pos: False
        from 1 [OF False got(1) [symmetric] refl pos] obtain k ks r where
          "pwrite_loop (drop n p) (off + n) (tot + n) (f\<lparr>incidents := js, content := write_at off (take n p) (content f)\<rparr>) =
             (r, f\<lparr>incidents := ks, content := write_at (off + n) (take k (drop n p)) (write_at off (take n p) (content f))\<rparr>)"
          "r = None \<or> r = Some (tot + n + length (drop n p)) \<and> length (drop n p) \<le> k"
          by auto
        moreover have "write_at (off + n) (take k (drop n p)) (write_at off (take n p) (content f)) = write_at off (take (n + k) p) (content f)"
          using write_at_append [of off "take n p" "take k (drop n p)" "content f"] got(2)
          by (simp add: min_absorb2 take_add)
        ultimately show ?thesis
          using got False pos by (intro exI [of _ "n + k"] exI [of _ ks] exI [of _ r]) (auto simp: pwrite_loop.simps [of p])
      qed
    qed
  qed
qed

section \<open>Several buffers\<close>

lemma iov_total_append [simp]: "iov_total (xs @ ys) = iov_total xs + iov_total ys"
  by (simp add: iov_total_def)

lemma get_iov_size_all: "get_iov_size (ys @ rest) (length ys) = iov_total ys"
  by (induction ys) simp_all

lemma scatter_take: "scatter iov (take (iov_total iov) ks) m = scatter iov ks m"
  by (induction iov arbitrary: ks m) (simp_all add: drop_take min_def)

lemma scatter_append: "scatter (zs @ ws) ks m = scatter ws (drop (iov_total zs) ks) (scatter zs ks m)"
  by (induction zs arbitrary: ks m) (simp_all add: add.commute)

lemma blit_commute:
  assumes "apart v w" and "inside (length m) v" and "inside (length m) w"
    and "length ks \<le> iov_len v" and "length ls \<le> iov_len w"
  shows "blit (blit m (iov_base w) ls) (iov_base v) ks = blit (blit m (iov_base v) ks) (iov_base w) ls"
  using assms by (intro nth_equalityI) (auto simp: nth_blit inside_def apart_def)

lemma scatter_blit:
  "\<forall>w \<in> set iov. apart v w \<Longrightarrow> iov_ok (length m) iov \<Longrightarrow> inside (length m) v \<Longrightarrow> length ks \<le> iov_len v \<Longrightarrow>
   blit (scatter iov xs m) (iov_base v) ks = scatter iov xs (blit m (iov_base v) ks)"
proof (induction iov arbitrary: xs m)
  case (Cons w iov)
  let ?x = "take (iov_len w) xs" and ?m = "blit m (iov_base w) (take (iov_len w) xs)"
  have "length ?m = length m" using Cons.prems by (auto simp: inside_def)
  then have "blit (scatter iov (drop (iov_len w) xs) ?m) (iov_base v) ks =
      scatter iov (drop (iov_len w) xs) (blit ?m (iov_base v) ks)"
    using Cons.prems by (intro Cons.IH) auto
  also have "blit ?m (iov_base v) ks = blit (blit m (iov_base v) ks) (iov_base w) ?x"
    using Cons.prems by (intro blit_commute) auto
  finally show ?case by simp
qed simp

lemma blit_twice:
  "off + length ks \<le> length m \<Longrightarrow> length js \<le> length ks \<Longrightarrow> blit (blit m off js) off ks = blit m off ks"
  by (rule nth_equalityI) (auto simp: nth_blit)

text \<open>Repeating a transfer that was cut short leaves the same bytes.\<close>

lemma scatter_again:
  "iov_ok (length m) iov \<Longrightarrow> length ks = iov_total iov \<Longrightarrow> scatter iov ks (scatter iov (take j ks) m) = scatter iov ks m"
proof (induction iov arbitrary: ks m j)
  case (Cons v iov)
  let ?h = "take (iov_len v) ks" and ?t = "drop (iov_len v) ks"
  let ?m = "blit m (iov_base v) (take (iov_len v) (take j ks))"
  have h: "length ?h = iov_len v" using Cons.prems by simp
  have len: "length ?m = length m" using Cons.prems by (auto simp: inside_def)
  have "blit (scatter iov (take (j - iov_len v) ?t) ?m) (iov_base v) ?h =
      scatter iov (take (j - iov_len v) ?t) (blit ?m (iov_base v) ?h)"
    using Cons.prems len by (intro scatter_blit) auto
  also have "blit ?m (iov_base v) ?h = blit m (iov_base v) ?h"
    using Cons.prems by (intro blit_twice) (auto simp: inside_def)
  finally have "scatter (v # iov) ks (scatter (v # iov) (take j ks) m) =
      scatter iov ?t (scatter iov (take (j - iov_len v) ?t) (blit m (iov_base v) ?h))"
    by (simp add: drop_take)
  also have "\<dots> = scatter iov ?t (blit m (iov_base v) ?h)"
    using Cons.prems h by (intro Cons.IH) (auto simp: inside_def)
  finally show ?case by simp
qed simp

lemma scatter_resume:
  assumes "iov_ok (length m) (zs @ ws)" and "length full = iov_total (zs @ ws)" and "iov_total zs \<le> n"
  shows "scatter ws (drop (iov_total zs) full) (scatter (zs @ ws) (take n full) m) = scatter (zs @ ws) full m"
proof -
  have "scatter zs (take n full) m = scatter zs full m"
    using scatter_take [of zs "take n full" m] scatter_take [of zs full m] assms(3) by (simp add: min_absorb1)
  then have "scatter (zs @ ws) (take n full) m = scatter ws (take (n - iov_total zs) (drop (iov_total zs) full)) (scatter zs full m)"
    by (simp add: scatter_append drop_take)
  moreover have "iov_ok (length (scatter zs full m)) ws" using assms(1) iov_ok_append [of "length m" zs ws] by auto
  ultimately show ?thesis using assms(2) by (simp add: scatter_again scatter_append)
qed

lemma shift_partial:
  "n < iov_total ys \<Longrightarrow> \<exists>zs ws. ys = zs @ ws \<and> iov_total zs \<le> n \<and> ws \<noteq> [] \<and>
     shift_iovec (ys @ rest) cnt n tot count off =
       Inr (ws @ rest, cnt - int (length zs), tot + iov_total zs, count - iov_total zs, off + iov_total zs)"
proof (induction ys arbitrary: n cnt tot count off)
  case (Cons v ys)
  show ?case
  proof (cases "iov_len v \<le> n")
    case True
    then have "n - iov_len v < iov_total ys" using Cons.prems by simp
    from Cons.IH [OF this] True obtain zs ws where "ys = zs @ ws" "iov_total zs \<le> n - iov_len v" "ws \<noteq> []"
      "shift_iovec (ys @ rest) (cnt - 1) (n - iov_len v) (tot + iov_len v) (count - iov_len v) (off + iov_len v) =
        Inr (ws @ rest, cnt - 1 - int (length zs), tot + iov_len v + iov_total zs, count - iov_len v - iov_total zs,
             off + iov_len v + iov_total zs)"
      by blast
    with True show ?thesis by (intro exI [of _ "v # zs"] exI [of _ ws]) (auto simp: algebra_simps)
  next
    case False
    then show ?thesis by (intro exI [of _ "[]"] exI [of _ "v # ys"]) simp
  qed
qed simp

text \<open>After a complete transfer the loop goes on behind the array, to the first entry that is not empty.\<close>

lemma shift_behind:
  "\<exists>v \<in> set rest. 0 < iov_len v \<Longrightarrow> \<exists>iov' cnt'. shift_iovec rest cnt 0 tot count off = Inr (iov', cnt', tot, count, off)"
  by (induction rest arbitrary: cnt) auto

lemma shift_complete:
  "\<exists>v \<in> set rest. 0 < iov_len v \<Longrightarrow> \<exists>iov' cnt'. shift_iovec (ys @ rest) cnt (iov_total ys) tot count off =
     Inr (iov', cnt', tot + iov_total ys, count - iov_total ys, off + iov_total ys)"
proof (induction ys arbitrary: cnt tot count off)
  case (Cons v ys)
  then show ?case
    using Cons.IH [of "cnt - 1" "tot + iov_len v" "count - iov_len v" "off + iov_len v"] by (auto simp: algebra_simps)
qed (simp add: shift_behind)

lemma shift_off_the_end: "shift_iovec ys cnt (iov_total ys) tot count off = Inl OutOfBounds"
  by (induction ys arbitrary: cnt tot count off) simp_all

lemma iov_ok_mapped: "iov_ok (length m) iov \<Longrightarrow> mapped m iov"
  by (auto simp: iov_ok_def mapped_def inside_def)

lemma preadv_loop_ok:
  assumes "Failed \<notin> set (incidents f)" and "iov_ok (length m) ys" and "\<exists>v \<in> set rest. 0 < iov_len v"
    and "off + iov_total ys \<le> length (content f)" and "off_ok off (iov_total ys)"
  shows "\<exists>is. preadv_loop (ys @ rest) (int (length ys)) tot (iov_total ys) off m f =
    Some (Inr (Some (tot + iov_total ys), scatter ys (take (iov_total ys) (drop off (content f))) m, f\<lparr>incidents := is\<rparr>))"
  using assms
proof (induction "length (incidents f)" arbitrary: f ys tot off m rule: less_induct)
  case less
  let ?T = "iov_total ys" and ?full = "take (iov_total ys) (drop off (content f))"
  show ?case
  proof (cases "?T = 0")
    case True
    then have "preadv_loop (ys @ rest) (int (length ys)) tot ?T off m f = Some (Inr (Some (tot + ?T), scatter ys ?full m, f\<lparr>incidents := incidents f\<rparr>))"
      by (subst preadv_loop.simps) simp
    then show ?thesis by blast
  next
    case False
    obtain n js where r: "xpreadv ys off m f = (Got n, scatter ys (take n ?full) m, f\<lparr>incidents := js\<rparr>)"
      and n: "0 < n" "n \<le> ?T" and js: "Failed \<notin> set js" "n = ?T \<or> length js < length (incidents f)"
      using restart_ok [OF less.prems(1), of ?T "read_op off"] False less.prems(4,5) iov_ok_mapped [OF less.prems(2)]
      by (auto simp: xpreadv_def readv_result_def read_op_def min_absorb1 min_absorb2)
    note step = preadv_loop.simps [of "ys @ rest" "int (length ys)" tot ?T off m f]
    show ?thesis
    proof (cases "n = ?T")
      case True
      obtain iov' cnt' where "shift_iovec (ys @ rest) (int (length ys)) n tot ?T off = Inr (iov', cnt', tot + ?T, 0, off + ?T)"
        using shift_complete [OF less.prems(3), of ys "int (length ys)" tot ?T off] True by auto
      then show ?thesis
        using step False r n True by (auto simp: preadv_loop.simps [of iov'])
    next
      case short: False
      then have "n < ?T" using n by simp
      from shift_partial [OF this, of rest "int (length ys)" tot ?T off] obtain zs ws where sh: "ys = zs @ ws" "iov_total zs \<le> n"
        "shift_iovec (ys @ rest) (int (length ys)) n tot ?T off =
          Inr (ws @ rest, int (length ys) - int (length zs), tot + iov_total zs, ?T - iov_total zs, off + iov_total zs)"
        by blast
      let ?m = "scatter ys (take n ?full) m" and ?off = "off + iov_total zs"
      have ok: "iov_ok (length m) zs" "iov_ok (length m) ws" using less.prems(2) sh(1) iov_ok_append by blast+
      have "\<exists>is. preadv_loop (ws @ rest) (int (length ws)) (tot + iov_total zs) (iov_total ws) ?off ?m (f\<lparr>incidents := js\<rparr>) =
          Some (Inr (Some (tot + iov_total zs + iov_total ws),
            scatter ws (take (iov_total ws) (drop ?off (content (f\<lparr>incidents := js\<rparr>)))) ?m, f\<lparr>incidents := js\<rparr>\<lparr>incidents := is\<rparr>))"
        using js short less.prems ok sh(1) by (intro less.hyps) (auto simp: off_ok_def)
      moreover have "scatter ws (take (iov_total ws) (drop ?off (content f))) ?m = scatter ys ?full m"
        using scatter_resume [of m zs ws ?full n] less.prems(2,4) sh(1,2) by (simp add: drop_take add.commute)
      moreover have "preadv_loop (ys @ rest) (int (length ys)) tot ?T off m f =
          preadv_loop (ws @ rest) (int (length ws)) (tot + iov_total zs) (iov_total ws) ?off ?m (f\<lparr>incidents := js\<rparr>)"
      proof -
        have "int (length ys) - int (length zs) = int (length ws)" "?T - iov_total zs = iov_total ws"
          using sh(1) by simp_all
        with sh(3) False n r show ?thesis unfolding step by simp
      qed
      moreover have "tot + ?T = tot + iov_total zs + iov_total ws" using sh(1) by simp
      ultimately show ?thesis by (simp add: add.assoc)
    qed
  qed
qed

text \<open>At the end of the file, in the middle of a buffer, \<^verbatim>\<open>preadv_in_full\<close> never returns.\<close>

definition ends_inside :: "iovec list \<Rightarrow> int \<Rightarrow> nat \<Rightarrow> nat \<Rightarrow> memory \<Rightarrow> host_file \<Rightarrow> bool" where
  "ends_inside iov cnt count off m f \<longleftrightarrow> (\<exists>v iov'. iov = v # iov' \<and> 0 < cnt \<and> 0 < count \<and> incidents f = [] \<and>
     off < length (content f) \<and> length (content f) < off + iov_len v \<and>
     iov_ok (length m) (take (nat cnt) iov) \<and> off_ok off (iov_total (take (nat cnt) iov)))"

lemma preadv_loop_at_eof:
  assumes "preadv_loop iov cnt tot count off m f = Some r"
  shows "\<not> ends_inside iov cnt count off m f"
proof (rule preadv_loop.raw_induct [where P = "\<lambda>iov cnt tot count off m f r. \<not> ends_inside iov cnt count off m f", OF _ assms])
  fix loop iov cnt tot count off m f r
  assume IH: "\<And>iov cnt tot count off m f r. loop iov cnt tot count off m f = Some r \<Longrightarrow> \<not> ends_inside iov cnt count off m f"
    and body: "(if count = 0 then Some (Inr (Some tot, m, f))
      else case xpreadv (take (nat cnt) iov) off m f of
        (Again, m', f') \<Rightarrow> Some (Inr (short_total tot, m', f'))
      | (Err, m', f') \<Rightarrow> Some (Inr (short_total tot, m', f'))
      | (Got nr, m', f') \<Rightarrow>
          if nr = 0 then Some (Inr (short_total tot, m', f'))
          else (case shift_iovec iov cnt nr tot count off of
                  Inl e \<Rightarrow> Some (Inl e)
                | Inr (iov', cnt', tot', count', off') \<Rightarrow> loop iov' cnt' tot' count' off' m' f')) = Some r"
  show "\<not> ends_inside iov cnt count off m f"
  proof
    assume "ends_inside iov cnt count off m f"
    then obtain v iov' where iov: "iov = v # iov'" and c: "0 < cnt" "0 < count" and f: "incidents f = []"
      and eof: "off < length (content f)" "length (content f) < off + iov_len v"
      and ok: "iov_ok (length m) (take (nat cnt) iov)" "off_ok off (iov_total (take (nat cnt) iov))" by (auto simp: ends_inside_def)
    let ?bs = "drop off (content f)"
    have "iov_len v \<le> iov_total (take (nat cnt) iov)" using iov c by (cases "nat cnt") auto
    then have "xpreadv (take (nat cnt) iov) off m f = (Got (length ?bs), scatter (take (nat cnt) iov) ?bs m, f)"
      using ok f eof iov_ok_mapped [OF ok(1)]
      by (auto simp: xpreadv_def readv_result_def read_op_def restart.simps [of True] syscall_def)
    moreover have "length ?bs < iov_len v" using eof by auto
    then have "shift_iovec iov cnt (length ?bs) tot count off = Inr (iov, cnt, tot, count, off)"
      using iov by (auto simp del: length_drop)
    ultimately have "loop iov cnt tot count off (scatter (take (nat cnt) iov) ?bs m) f = Some r"
      using body c eof by simp
    from IH [OF this] show False using iov c f eof ok by (simp add: ends_inside_def)
  qed
qed

lemma gather_append: "gather m (xs @ ys) = gather m xs @ gather m ys"
  by (simp add: gather_def)

lemma write_at_again: "write_at off bs (write_at off (take j bs) c) = write_at off bs c"
proof (rule nth_equalityI)
  show len: "length (write_at off bs (write_at off (take j bs) c)) = length (write_at off bs c)"
    by (auto simp: length_write_at)
  fix i assume i: "i < length (write_at off bs (write_at off (take j bs) c))"
  then have j: "i < length (write_at off bs c)" using len by simp
  show "write_at off bs (write_at off (take j bs) c) ! i = write_at off bs c ! i"
    by (simp add: nth_write_at [OF i] nth_write_at [OF j]) (auto simp: nth_write_at length_write_at)
qed

lemma write_at_overlap:
  assumes "k \<le> n" and "n \<le> length bs"
  shows "write_at (off + k) (drop k bs) (write_at off (take n bs) c) = write_at off bs c"
proof -
  have "write_at off (take n bs) c = write_at (off + k) (drop k (take n bs)) (write_at off (take k bs) c)"
    using write_at_split [of k "take n bs" off c] assms by (simp add: min_absorb2 min_absorb1)
  moreover have "drop k (take n bs) = take (n - k) (drop k bs)" by (simp add: drop_take)
  ultimately show ?thesis using write_at_split [of k bs off c] assms by (simp add: write_at_again)
qed

lemma pwritev_loop_ok:
  assumes "Failed \<notin> set (incidents f)" and "iov_ok (length m) ys" and "\<exists>v \<in> set rest. 0 < iov_len v"
    and "off_ok off (iov_total ys)"
  shows "\<exists>is. pwritev_loop (ys @ rest) (int (length ys)) tot (iov_total ys) off m f =
    Some (Inr (Some (tot + iov_total ys), f\<lparr>incidents := is, content := write_at off (gather m ys) (content f)\<rparr>)) \<and>
    Failed \<notin> set is"
  using assms
proof (induction "length (incidents f)" arbitrary: f ys tot off rule: less_induct)
  case less
  let ?T = "iov_total ys" and ?g = "gather m ys"
  have g: "length ?g = ?T" using less.prems(2) by (rule length_gather)
  show ?case
  proof (cases "?T = 0")
    case True
    then have "?g = []" using g by simp
    then have "f\<lparr>incidents := incidents f, content := write_at off ?g (content f)\<rparr> = f" by simp
    then have "pwritev_loop (ys @ rest) (int (length ys)) tot ?T off m f =
        Some (Inr (Some (tot + ?T), f\<lparr>incidents := incidents f, content := write_at off ?g (content f)\<rparr>))"
      using True by (subst pwritev_loop.simps) simp
    then show ?thesis using less.prems(1) by blast
  next
    case False
    obtain n js where r: "xpwritev ys off m f = (Got n, f\<lparr>incidents := js, content := write_at off (take n ?g) (content f)\<rparr>)"
      and n: "0 < n" "n \<le> ?T" and js: "Failed \<notin> set js" "n = ?T \<or> length js < length (incidents f)"
      using restart_ok [OF less.prems(1), of ?T "write_op ?g off"] False less.prems(4) iov_ok_mapped [OF less.prems(2)] g
      by (auto simp: xpwritev_def write_op_def min_absorb1)
    note step = pwritev_loop.simps [of "ys @ rest" "int (length ys)" tot ?T off m f]
    show ?thesis
    proof (cases "n = ?T")
      case True
      obtain iov' cnt' where "shift_iovec (ys @ rest) (int (length ys)) n tot ?T off = Inr (iov', cnt', tot + ?T, 0, off + ?T)"
        using shift_complete [OF less.prems(3), of ys "int (length ys)" tot ?T off] True by auto
      then show ?thesis
        using step False r n True g js(1) by (auto simp: pwritev_loop.simps [of iov'])
    next
      case short: False
      then have "n < ?T" using n by simp
      from shift_partial [OF this, of rest "int (length ys)" tot ?T off] obtain zs ws where sh: "ys = zs @ ws" "iov_total zs \<le> n"
        "shift_iovec (ys @ rest) (int (length ys)) n tot ?T off =
          Inr (ws @ rest, int (length ys) - int (length zs), tot + iov_total zs, ?T - iov_total zs, off + iov_total zs)"
        by blast
      let ?f = "f\<lparr>incidents := js, content := write_at off (take n ?g) (content f)\<rparr>" and ?off = "off + iov_total zs"
      have ok: "iov_ok (length m) zs" "iov_ok (length m) ws" using less.prems(2) sh(1) iov_ok_append by blast+
      have "\<exists>is. pwritev_loop (ws @ rest) (int (length ws)) (tot + iov_total zs) (iov_total ws) ?off m ?f =
          Some (Inr (Some (tot + iov_total zs + iov_total ws),
            ?f\<lparr>incidents := is, content := write_at ?off (gather m ws) (content ?f)\<rparr>)) \<and> Failed \<notin> set is"
        using js short less.prems ok sh(1) by (intro less.hyps) (auto simp: off_ok_def)
      moreover have "write_at ?off (gather m ws) (content ?f) = write_at off ?g (content f)"
        using write_at_overlap [of "iov_total zs" n ?g off "content f"] sh(1,2) n g ok
        by (simp add: gather_append length_gather)
      moreover have "pwritev_loop (ys @ rest) (int (length ys)) tot ?T off m f =
          pwritev_loop (ws @ rest) (int (length ws)) (tot + iov_total zs) (iov_total ws) ?off m ?f"
      proof -
        have "int (length ys) - int (length zs) = int (length ws)" "?T - iov_total zs = iov_total ws"
          using sh(1) by simp_all
        with sh(3) False n r show ?thesis unfolding step by simp
      qed
      moreover have "tot + ?T = tot + iov_total zs + iov_total ws" using sh(1) by simp
      ultimately show ?thesis by (simp add: add.assoc)
    qed
  qed
qed



end
