(* ===== verification/Tablecache.thy ===== *)
theory Tablecache
  imports Rbtree
begin

text \<open>
  The two caches of \<^verbatim>\<open>disk/qcow.c\<close>, of second-level tables and of blocks of reference counts, which are
  written twice with the same text. A cached object sits in a red-black tree ordered by its
  offset in the image and in a list in the order of its last use, with the least recently used
  object first; the tree holds the offsets, the list the objects. \<open>key\<close> is the offset of an
  object. An object is found by its offset, so the tree and the list agree as long as no two
  cached objects have the same offset, which is part of the invariant.
\<close>

abbreviation (input) MAX_CACHE_NODES :: nat where "MAX_CACHE_NODES \<equiv> 32"

record 'a table_cache =
  cache_root :: "u64 rbt"
  lru_list :: "'a list"
  nr_cached :: nat

definition cache_init :: "'a table_cache" where
  "cache_init = \<lparr> cache_root = Leaf, lru_list = [], nr_cached = 0 \<rparr>"

section \<open>Operations\<close>

definition offset_dir :: "u64 \<Rightarrow> u64 \<Rightarrow> dir" where
  "offset_dir off k = (if off < k then Lt else if k < off then Gt else Eq)"

definition offset_insert :: "u64 \<Rightarrow> u64 rbt \<Rightarrow> u64 rbt result" where
  "offset_insert off root =
     (case rb_descend (offset_dir off) root [] of
        (Leaf, path) \<Rightarrow> rb_insert_color (Node Red Leaf off Leaf) path
      | (Node _ _ _ _, _) \<Rightarrow> Inr root)"

fun offset_lookup :: "u64 rbt \<Rightarrow> u64 \<Rightarrow> u64 option" where
  "offset_lookup Leaf off = None"
| "offset_lookup (Node c l k r) off =
     (if off < k then offset_lookup l off else if k < off then offset_lookup r off else Some k)"

definition cache_add :: "('a \<Rightarrow> u64) \<Rightarrow> 'a \<Rightarrow> 'a table_cache \<Rightarrow> 'a table_cache result" where
  "cache_add key t c =
     rbind (if nr_cached c = MAX_CACHE_NODES
            then (case lru_list c of
                [] \<Rightarrow> Inl NullDeref
              | lru # rest \<Rightarrow> rbind (rb_remove (\<lambda>k. k = key lru) (cache_root c)) (\<lambda>r.
                  Inr (c\<lparr>cache_root := r, lru_list := rest, nr_cached := nr_cached c - 1\<rparr>)))
            else Inr c) (\<lambda>c1.
     rbind (offset_insert (key t) (cache_root c1)) (\<lambda>r.
       Inr (c1\<lparr>cache_root := r, lru_list := lru_list c1 @ [t], nr_cached := nr_cached c1 + 1\<rparr>)))"

definition cache_search :: "('a \<Rightarrow> u64) \<Rightarrow> u64 \<Rightarrow> 'a table_cache \<Rightarrow> ('a option \<times> 'a table_cache) result" where
  "cache_search key off c =
     (case offset_lookup (cache_root c) off of
        None \<Rightarrow> Inr (None, c)
      | Some k \<Rightarrow> (case find (\<lambda>t. key t = k) (lru_list c) of
            None \<Rightarrow> Inl NullDeref
          | Some t \<Rightarrow> Inr (Some t, c\<lparr>lru_list := filter (\<lambda>t. key t \<noteq> k) (lru_list c) @ [t]\<rparr>)))"

text \<open>An assignment to fields of a cached object, which keeps its offset.\<close>

definition cache_assign :: "('a \<Rightarrow> u64) \<Rightarrow> 'a \<Rightarrow> 'a table_cache \<Rightarrow> 'a table_cache" where
  "cache_assign key t c = c\<lparr>lru_list := map (\<lambda>u. if key u = key t then t else u) (lru_list c)\<rparr>"

fun free_loop :: "('a \<Rightarrow> u64) \<Rightarrow> 'a list \<Rightarrow> u64 rbt \<Rightarrow> u64 rbt result" where
  "free_loop key [] root = Inr root"
| "free_loop key (t # ts) root = rbind (rb_remove (\<lambda>k. k = key t) root) (free_loop key ts)"

definition cache_free :: "('a \<Rightarrow> u64) \<Rightarrow> 'a table_cache \<Rightarrow> 'a table_cache result" where
  "cache_free key c =
     rbind (free_loop key (lru_list c) (cache_root c)) (\<lambda>r. Inr (c\<lparr>cache_root := r, lru_list := []\<rparr>))"

section \<open>The invariant\<close>

definition cached :: "('a \<Rightarrow> u64) \<Rightarrow> 'a table_cache \<Rightarrow> u64 \<Rightarrow> 'a option" where
  "cached key c off = find (\<lambda>t. key t = off) (lru_list c)"

definition cache_ok :: "('a \<Rightarrow> u64) \<Rightarrow> 'a table_cache \<Rightarrow> bool" where
  "cache_ok key c \<longleftrightarrow> rb_tree (cache_root c) \<and> sorted_wrt (<) (inorder (cache_root c)) \<and>
     set (inorder (cache_root c)) = key ` set (lru_list c) \<and> distinct (map key (lru_list c)) \<and>
     nr_cached c = length (lru_list c) \<and> nr_cached c \<le> MAX_CACHE_NODES"

lemma cache_ok_init: "cache_ok key cache_init"
  by (simp add: cache_ok_def cache_init_def rb_tree_def)

lemma find_key_iff:
  "distinct (map key ts) \<Longrightarrow> find (\<lambda>t. key t = off) ts = Some t \<longleftrightarrow> t \<in> set ts \<and> key t = off"
  by (induction ts) (auto simp: image_iff)

lemma filter_key_one:
  "distinct (map key ts) \<Longrightarrow> t \<in> set ts \<Longrightarrow> length (filter (\<lambda>u. key u = key t) ts) = 1"
  by (induction ts) (force simp: filter_empty_conv image_iff)+

lemma cached_iff: "cache_ok key c \<Longrightarrow> cached key c off = Some t \<longleftrightarrow> t \<in> set (lru_list c) \<and> key t = off"
  unfolding cached_def cache_ok_def by (simp add: find_key_iff)

lemma cached_None_iff: "cached key c off = None \<longleftrightarrow> off \<notin> key ` set (lru_list c)"
  by (auto simp: cached_def find_None_iff)

lemma lookup_iff:
  "sorted_wrt (<) (inorder t) \<Longrightarrow> offset_lookup t off = (if off \<in> set (inorder t) then Some off else None)"
  by (induction t off rule: offset_lookup.induct) (auto simp: sorted_wrt_append)

lemma descend_absent:
  "sorted_wrt (<) (left_of ps @ inorder t @ right_of ps) \<Longrightarrow> off \<notin> set (inorder t) \<Longrightarrow>
   (\<forall>k \<in> set (left_of ps). k < off) \<Longrightarrow> (\<forall>k \<in> set (right_of ps). off < k) \<Longrightarrow>
   \<exists>qs. rb_descend (offset_dir off) t ps = (Leaf, qs) \<and> (\<forall>k \<in> set (left_of qs). k < off) \<and> (\<forall>k \<in> set (right_of qs). off < k)"
proof (induction "offset_dir off" t ps rule: rb_descend.induct)
  case (2 c l k r ps)
  have srt: "sorted_wrt (<) (left_of ps @ inorder l @ k # inorder r @ right_of ps)" using 2(3) by simp
  show ?case
  proof (cases "off < k")
    case True
    then have d: "offset_dir off k = Lt" by (simp add: offset_dir_def)
    have "\<forall>x \<in> set (inorder r). k < x" using srt by (simp add: sorted_wrt_append)
    then have "\<forall>x \<in> set (right_of (LeftOf c k r # ps)). off < x"
      using True 2(6) by (auto intro: order.strict_trans)
    then show ?thesis using 2(1) [OF d] srt 2(4,5) d by simp
  next
    case False
    moreover have "off \<noteq> k" using 2(4) by simp
    ultimately have "k < off" by (metis linorder_less_linear)
    then have d: "offset_dir off k = Gt" by (simp add: offset_dir_def)
    have "\<forall>x \<in> set (inorder l). x < k" using srt by (simp add: sorted_wrt_append)
    then have "\<forall>x \<in> set (left_of (RightOf c l k # ps)). x < off"
      using \<open>k < off\<close> 2(5) by (auto intro: order.strict_trans)
    then show ?thesis using 2(2) [OF d] srt 2(4,6) d by simp
  qed
qed simp

lemma offset_insert_ok:
  assumes "rb_tree t" and "sorted_wrt (<) (inorder t)" and "off \<notin> set (inorder t)"
  shows "\<exists>u. offset_insert off t = Inr u \<and> rb_tree u \<and> sorted_wrt (<) (inorder u) \<and> set (inorder u) = insert off (set (inorder t))"
proof -
  obtain qs where d: "rb_descend (offset_dir off) t [] = (Leaf, qs)"
    and b: "\<forall>k \<in> set (left_of qs). k < off" "\<forall>k \<in> set (right_of qs). off < k"
    using descend_absent [of "[]" t off] assms by auto
  obtain u where "rb_insert_color (Node Red Leaf off Leaf) qs = Inr u" "rb_tree u"
    "inorder t = left_of qs @ right_of qs" "inorder u = left_of qs @ off # right_of qs"
    using insert_rb_tree [OF assms(1) d, of off] by blast
  with d b assms(2) show ?thesis by (auto simp: offset_insert_def sorted_wrt_append)
qed

lemma offset_remove_ok:
  fixes t :: "u64 rbt"
  assumes "rb_tree t" and "sorted_wrt (<) (inorder t)" and "off \<in> set (inorder t)"
  shows "\<exists>u. rb_remove (\<lambda>k. k = off) t = Inr u \<and> rb_tree u \<and> sorted_wrt (<) (inorder u) \<and> set (inorder u) = set (inorder t) - {off}"
proof -
  obtain u xs ys where "rb_remove (\<lambda>k. k = off) t = Inr u" "rb_tree u"
    "inorder t = xs @ off # ys" "inorder u = xs @ ys"
    using remove_rb_tree [OF assms(1), of "\<lambda>k. k = off"] assms(3) by blast
  moreover from this have "off \<notin> set xs" "off \<notin> set ys" using assms(2) by (simp_all add: strict_sorted_iff)
  ultimately show ?thesis using assms(2) by (auto simp: sorted_wrt_append)
qed

text \<open>A search finds what is cached and changes only the order of use.\<close>

lemma cache_search_ok:
  assumes "cache_ok key c"
  shows "\<exists>c'. cache_search key off c = Inr (cached key c off, c') \<and> cache_ok key c' \<and> cached key c' = cached key c"
proof (cases "cached key c off")
  case None
  then have "offset_lookup (cache_root c) off = None"
    using assms lookup_iff [of "cache_root c" off] by (auto simp: cache_ok_def cached_None_iff)
  with None assms show ?thesis by (auto simp: cache_search_def)
next
  case (Some t)
  let ?c = "c\<lparr>lru_list := filter (\<lambda>t. key t \<noteq> off) (lru_list c) @ [t]\<rparr>"
  have t: "t \<in> set (lru_list c)" "key t = off" using Some cached_iff [OF assms] by auto
  have d: "distinct (map key (lru_list c))" using assms by (simp add: cache_ok_def)
  have set: "set (lru_list ?c) = set (lru_list c)"
    using t d by (auto simp: distinct_map inj_on_def)
  have "length (filter (\<lambda>u. key u = off) (lru_list c)) = 1"
    using filter_key_one [OF d t(1)] t(2) by simp
  then have "length (lru_list ?c) = length (lru_list c)"
    using sum_length_filter_compl [of "\<lambda>u. key u = off" "lru_list c"] by simp
  moreover have "distinct (map key (lru_list ?c))"
    using t d by (auto simp: distinct_map inj_on_def)
  ultimately have ok: "cache_ok key ?c" using assms set by (simp add: cache_ok_def)
  have "cached key ?c o' = cached key c o'" for o'
    using cached_iff [OF ok, of o'] cached_iff [OF assms, of o'] set
    by (cases "cached key ?c o'"; cases "cached key c o'") auto
  moreover have "cache_search key off c = Inr (Some t, ?c)"
    using Some assms t lookup_iff [of "cache_root c" off] by (auto simp: cache_search_def cached_def cache_ok_def)
  ultimately show ?thesis using ok Some by auto
qed

text \<open>Adding makes room by dropping the least recently used object.\<close>

lemma cache_add_ok:
  assumes "cache_ok key c" and "cached key c (key t) = None"
  shows "\<exists>c'. cache_add key t c = Inr c' \<and> cache_ok key c' \<and> cached key c' (key t) = Some t \<and>
    (\<forall>off u. cached key c' off = Some u \<longrightarrow> u = t \<or> cached key c off = Some u) \<and>
    (\<forall>u \<in> set (drop (length (lru_list c) - (MAX_CACHE_NODES - 1)) (lru_list c)). cached key c' (key u) = Some u)"
proof -
  let ?L = "lru_list c"
  have new: "key t \<notin> key ` set ?L" using assms(2) by (simp add: cached_None_iff)
  define rest where "rest = drop (length ?L - (MAX_CACHE_NODES - 1)) ?L"
  have len: "length ?L \<le> MAX_CACHE_NODES" using assms(1) by (simp add: cache_ok_def)
  obtain r where r: "(if nr_cached c = MAX_CACHE_NODES
            then (case ?L of [] \<Rightarrow> Inl NullDeref
              | lru # rest \<Rightarrow> rbind (rb_remove (\<lambda>k. k = key lru) (cache_root c)) (\<lambda>r.
                  Inr (c\<lparr>cache_root := r, lru_list := rest, nr_cached := nr_cached c - 1\<rparr>)))
            else Inr c) = Inr (c\<lparr>cache_root := r, lru_list := rest, nr_cached := length rest\<rparr>)"
    and tree: "rb_tree r" "sorted_wrt (<) (inorder r)" "set (inorder r) = key ` set rest"
  proof (cases "nr_cached c = MAX_CACHE_NODES")
    case True
    then obtain lru ts where L: "?L = lru # ts" using assms(1) by (cases ?L) (auto simp: cache_ok_def)
    then have n: "length ts = MAX_CACHE_NODES - 1" and rest: "rest = ts"
      using True assms(1) by (auto simp: cache_ok_def rest_def)
    have "key lru \<in> set (inorder (cache_root c))" using assms(1) L by (auto simp: cache_ok_def)
    then obtain u where u: "rb_remove (\<lambda>k. k = key lru) (cache_root c) = Inr u" "rb_tree u"
      "sorted_wrt (<) (inorder u)" "set (inorder u) = set (inorder (cache_root c)) - {key lru}"
      using offset_remove_ok [of "cache_root c" "key lru"] assms(1) by (auto simp: cache_ok_def)
    moreover have "set (inorder u) = key ` set rest"
      using u(4) assms(1) L rest by (auto simp: cache_ok_def)
    ultimately show ?thesis using that [of u] True L rest n by auto
  next
    case False
    then have "rest = ?L" "nr_cached c = length ?L" using assms(1) by (auto simp: cache_ok_def rest_def)
    then show ?thesis using that [of "cache_root c"] False assms(1) by (auto simp: cache_ok_def)
  qed
  have sub: "set rest \<subseteq> set ?L" by (auto simp: rest_def dest: in_set_dropD)
  obtain u where u: "offset_insert (key t) r = Inr u" "rb_tree u" "sorted_wrt (<) (inorder u)"
    "set (inorder u) = insert (key t) (set (inorder r))"
    using offset_insert_ok [OF tree(1,2), of "key t"] tree(3) new sub by blast
  let ?c = "c\<lparr>cache_root := u, lru_list := rest @ [t], nr_cached := Suc (length rest)\<rparr>"
  have dist: "distinct (map key rest)" using assms(1) by (simp add: cache_ok_def rest_def drop_map [symmetric])
  have ok: "cache_ok key ?c"
    using u tree dist new sub len by (auto simp: cache_ok_def rest_def)
  have add: "cache_add key t c = Inr ?c" using r u(1) by (simp add: cache_add_def)
  show ?thesis
    unfolding rest_def [symmetric] using add ok sub by (auto simp: cached_iff [OF ok] cached_iff [OF assms(1)])
qed

lemma cache_assign_ok:
  assumes "cache_ok key c" and "cached key c (key t) \<noteq> None"
  shows "cache_ok key (cache_assign key t c)" and "cached key (cache_assign key t c) = (cached key c)(key t \<mapsto> t)"
proof -
  have k: "map key (lru_list (cache_assign key t c)) = map key (lru_list c)"
    by (simp add: cache_assign_def)
  then have "key ` set (lru_list (cache_assign key t c)) = key ` set (lru_list c)" by (metis list.set_map)
  moreover have "length (lru_list (cache_assign key t c)) = length (lru_list c)" by (simp add: cache_assign_def)
  ultimately show ok: "cache_ok key (cache_assign key t c)"
    using assms(1) k by (simp add: cache_ok_def) (simp add: cache_assign_def)
  obtain u where u: "u \<in> set (lru_list c)" "key u = key t" using assms(2) cached_iff [OF assms(1)] by fastforce
  have "cached key (cache_assign key t c) off = Some v \<longleftrightarrow> ((cached key c)(key t \<mapsto> t)) off = Some v" for off v
    using u by (auto simp: cached_iff [OF ok] cached_iff [OF assms(1)]) (auto simp: cache_assign_def image_iff)
  then show "cached key (cache_assign key t c) = (cached key c)(key t \<mapsto> t)"
    by (intro ext option.expand) (metis not_None_eq option.sel)+
qed

section \<open>Interface: reading through a cache\<close>

text \<open>
  What the code relies on: a search gives the cached object and does not change what is
  cached; an object that was added is found, and whatever else is found afterwards was there.
\<close>

locale read_cache =
  fixes ok :: "'c \<Rightarrow> bool"
    and key :: "'a \<Rightarrow> u64"
    and tables :: "'c \<Rightarrow> u64 \<Rightarrow> 'a option"
    and search :: "u64 \<Rightarrow> 'c \<Rightarrow> ('a option \<times> 'c) result"
    and add :: "'a \<Rightarrow> 'c \<Rightarrow> 'c result"
  assumes search_ok: "ok c \<Longrightarrow> \<exists>c'. search off c = Inr (tables c off, c') \<and> ok c' \<and> tables c' = tables c"
    and add_ok: "ok c \<Longrightarrow> tables c (key t) = None \<Longrightarrow>
      \<exists>c'. add t c = Inr c' \<and> ok c' \<and> tables c' (key t) = Some t \<and>
        (\<forall>off u. tables c' off = Some u \<longrightarrow> u = t \<or> tables c off = Some u)"
    and tables_key: "ok c \<Longrightarrow> tables c off = Some t \<Longrightarrow> key t = off"
begin

text \<open>
  A cache that only holds what \<open>load\<close> gives is invisible: whatever it holds, a fetch through it
  returns \<open>load off\<close>, and the cache stays of this kind.
\<close>

lemma fetch_transparent:
  assumes "ok c" and "\<And>off t. tables c off = Some t \<Longrightarrow> t = load off" and "key (load off) = off"
  shows "\<exists>c'. rbind (search off c) (\<lambda>(r, c1). case r of
        Some t \<Rightarrow> Inr (t, c1)
      | None \<Rightarrow> rbind (add (load off) c1) (\<lambda>c2. Inr (load off, c2))) = Inr (load off, c') \<and>
    ok c' \<and> (\<forall>off t. tables c' off = Some t \<longrightarrow> t = load off)"
proof -
  obtain c1 where s: "search off c = Inr (tables c off, c1)" "ok c1" "tables c1 = tables c"
    using search_ok [OF assms(1)] by blast
  show ?thesis
  proof (cases "tables c off")
    case None
    then obtain c2 where "add (load off) c1 = Inr c2" "ok c2"
      "\<forall>o' u. tables c2 o' = Some u \<longrightarrow> u = load off \<or> tables c1 o' = Some u"
      using add_ok [OF s(2), of "load off"] s(3) assms(3) by auto
    moreover have "u = load o'" if "tables c2 o' = Some u" for o' u
    proof -
      have "u = load off \<or> u = load o'" using that calculation(3) s(3) assms(2) by metis
      then show ?thesis using tables_key [OF calculation(2) that] assms(3) by auto
    qed
    ultimately show ?thesis using s None by auto
  next
    case (Some t)
    with s assms(2) show ?thesis by auto
  qed
qed

end

end
