(* ===== verification/Qcow.thy ===== *)
theory Qcow
  imports Hostio Tablecache
begin

text \<open>
  Images in the formats QCOW 1 and 2, \<^verbatim>\<open>disk/qcow.c\<close>: opening an image and reading from it. The
  virtual disk is cut into clusters; a first-level table, held in memory, gives the place of
  second-level tables in the image, and these the place of the clusters. Tables are kept in
  the order of the host here, as \<^verbatim>\<open>be64_to_cpu\<close> gives their entries. The image file is the host file of
  the theory \<open>Hostio\<close>, with its interruptions, short transfers and failures; \<open>zlib\<close> is a
  parameter \<open>inflate\<close>; allocations of host memory succeed.

  An object is the state before, a result the state after: \<open>Inl\<close> is an access outside an
  allocation or an arithmetic fault.
\<close>

abbreviation (input) QCOW_MAGIC :: u32 where "QCOW_MAGIC \<equiv> 0x514649fb"
abbreviation (input) QCOW1_OFLAG_COMPRESSED :: u64 where "QCOW1_OFLAG_COMPRESSED \<equiv> 0x8000000000000000"
abbreviation (input) QCOW2_OFLAG_COPIED :: u64 where "QCOW2_OFLAG_COPIED \<equiv> 0x8000000000000000"
abbreviation (input) QCOW2_OFLAG_COMPRESSED :: u64 where "QCOW2_OFLAG_COMPRESSED \<equiv> 0x4000000000000000"
abbreviation (input) QCOW2_OFLAGS_MASK :: u64 where "QCOW2_OFLAGS_MASK \<equiv> 0xc000000000000000"

section \<open>State\<close>

record qcow_l2_table =
  l2t_offset :: u64
  l2t_dirty :: bool
  l2t_table :: "u64 list"

record qcow_refcount_block =
  rfb_offset :: u64
  rfb_dirty :: bool
  rfb_entries :: "u16 list"

record qcow_header =
  hdr_size :: u64
  l1_table_offset :: u64
  l1_size :: u32
  cluster_bits :: nat
  l2_bits :: nat
  refcount_table_offset :: u64
  refcount_table_size :: u32

record qcow =
  header :: qcow_header
  l1_table :: "u64 list"
  l2_cache :: "qcow_l2_table table_cache"
  rf_table :: "u64 list"
  rf_cache :: "qcow_refcount_block table_cache"
  qfile :: host_file
  version :: nat
  free_clust_idx :: u64
  cluster_data :: "u8 list"

definition cluster_size :: "qcow \<Rightarrow> nat" where
  "cluster_size q = 2 ^ cluster_bits (header q)"

definition csize_shift :: "qcow \<Rightarrow> nat" where
  "csize_shift q = 62 - (cluster_bits (header q) - 8)"

definition csize_mask :: "qcow \<Rightarrow> nat" where
  "csize_mask q = 2 ^ (cluster_bits (header q) - 8) - 1"

definition cluster_offset_mask :: "qcow \<Rightarrow> u64" where
  "cluster_offset_mask q = mask (if version q = 1 then 63 - cluster_bits (header q) else csize_shift q)"

section \<open>Bytes of the image\<close>

text \<open>A read into a buffer: what is past the end of the file keeps its bytes.\<close>

definition pread_into :: "u8 list \<Rightarrow> nat \<Rightarrow> host_file \<Rightarrow> bool \<times> u8 list \<times> host_file" where
  "pread_into dst off f =
     (case pread_in_full (length dst) off f of
        (None, f') \<Rightarrow> (False, dst, f')
      | (Some bs, f') \<Rightarrow> (True, bs @ drop (length bs) dst, f'))"

text \<open>A number that is passed as a file offset: a negative one is refused by the system call.\<close>

definition off_of_int :: "int \<Rightarrow> nat" where
  "off_of_int i = (if i < 0 then 2 ^ 63 else nat i)"

section \<open>Second-level tables\<close>

definition l2_table_search :: "u64 \<Rightarrow> qcow \<Rightarrow> (qcow_l2_table option \<times> qcow) result" where
  "l2_table_search off q =
     rbind (cache_search l2t_offset off (l2_cache q)) (\<lambda>(r, c). Inr (r, q\<lparr>l2_cache := c\<rparr>))"

definition cache_table :: "qcow_l2_table \<Rightarrow> qcow \<Rightarrow> qcow result" where
  "cache_table t q = rbind (cache_add l2t_offset t (l2_cache q)) (\<lambda>c. Inr (q\<lparr>l2_cache := c\<rparr>))"

definition new_cache_table :: "u64 \<Rightarrow> qcow \<Rightarrow> qcow_l2_table" where
  "new_cache_table off q = \<lparr> l2t_offset = off, l2t_dirty = False, l2t_table = replicate (2 ^ l2_bits (header q)) 0 \<rparr>"

definition qcow_read_l2_table :: "u64 \<Rightarrow> qcow \<Rightarrow> (qcow_l2_table option \<times> qcow) result" where
  "qcow_read_l2_table off q =
     rbind (l2_table_search off q) (\<lambda>(r, q1).
       case r of
         Some t \<Rightarrow> Inr (Some t, q1)
       | None \<Rightarrow>
          (let size = 2 ^ l2_bits (header q1); t = new_cache_table off q1 in
           case pread_into (replicate (size * 8) 0) (unat off) (qfile q1) of
             (False, _, f) \<Rightarrow> Inr (None, q1\<lparr>qfile := f\<rparr>)
           | (True, bs, f) \<Rightarrow>
              (let t' = t\<lparr>l2t_table := be_words 8 size bs\<rparr> in
               rbind (cache_table t' (q1\<lparr>qfile := f\<rparr>)) (\<lambda>q2. Inr (Some t', q2)))))"

section \<open>Indices\<close>

definition get_l1_index :: "qcow \<Rightarrow> u64 \<Rightarrow> nat" where
  "get_l1_index q off = unat (drop_bit (l2_bits (header q) + cluster_bits (header q)) off)"

definition get_l2_index :: "qcow \<Rightarrow> u64 \<Rightarrow> nat" where
  "get_l2_index q off = unat (take_bit (l2_bits (header q)) (drop_bit (cluster_bits (header q)) off))"

definition get_cluster_offset :: "qcow \<Rightarrow> u64 \<Rightarrow> nat" where
  "get_cluster_offset q off = unat (take_bit (cluster_bits (header q)) off)"

section \<open>Reading a cluster\<close>

text \<open>
  \<open>inflate bs n\<close> is what \<open>zlib\<close> makes of \<open>bs\<close> in a buffer of \<open>n\<close> bytes, \<open>None\<close> when it reports
  an error; the library may be missing at compile time, then it is \<open>None\<close> always.
\<close>

type_synonym zlib = "u8 list \<Rightarrow> nat \<Rightarrow> u8 list option"

definition qcow_decompress_buffer :: "zlib \<Rightarrow> nat \<Rightarrow> u8 list \<Rightarrow> u8 list option" where
  "qcow_decompress_buffer inflate out_size bs =
     (case inflate bs out_size of None \<Rightarrow> None | Some out \<Rightarrow> if length out = out_size then Some out else None)"

text \<open>
  The value of a cluster read: \<open>None\<close> is -1; \<open>Some (length, bs)\<close> is the return value \<open>length\<close>
  and the bytes that were stored at the start of the destination, fewer than \<open>length\<close> when the
  image ends inside the cluster.
\<close>

type_synonym cluster_read = "(nat \<times> u8 list) option"

definition read_data :: "nat \<Rightarrow> u64 \<Rightarrow> qcow \<Rightarrow> cluster_read \<times> qcow" where
  "read_data len off q =
     (case pread_in_full len (unat off) (qfile q) of
        (None, f) \<Rightarrow> (None, q\<lparr>qfile := f\<rparr>)
      | (Some bs, f) \<Rightarrow> (Some (len, bs), q\<lparr>qfile := f\<rparr>))"

text \<open>\<open>n\<close> bytes at \<open>off\<close> are read into \<^verbatim>\<open>cluster_data\<close>, and those from \<open>skip\<close> on are decompressed.\<close>

definition read_compressed :: "zlib \<Rightarrow> nat \<Rightarrow> int \<Rightarrow> nat \<Rightarrow> nat \<Rightarrow> nat \<Rightarrow> qcow \<Rightarrow> (cluster_read \<times> qcow) result" where
  "read_compressed inflate n off skip clust_off len q =
     (case pread_in_full n (off_of_int off) (qfile q) of
        (None, f) \<Rightarrow> Inr (None, q\<lparr>qfile := f\<rparr>)
      | (Some bs, f) \<Rightarrow>
         rbind (memcpy_to (cluster_data q) 0 bs) (\<lambda>d.
         rbind (memcpy_from d skip (n - skip)) (\<lambda>src.
           let q1 = q\<lparr>qfile := f, cluster_data := d\<rparr> in
           case qcow_decompress_buffer inflate (cluster_size q) src of
             None \<Rightarrow> Inr (None, q1)
           | Some out \<Rightarrow> Inr (Some (len, take len (drop clust_off out)), q1))))"

definition qcow1_read_cluster :: "zlib \<Rightarrow> u64 \<Rightarrow> nat \<Rightarrow> qcow \<Rightarrow> (cluster_read \<times> qcow) result" where
  "qcow1_read_cluster inflate off dst_len q =
     (if length (l1_table q) \<le> get_l1_index q off then Inr (None, q)
      else
        let clust_off = get_cluster_offset q off;
            len = min (cluster_size q - clust_off) dst_len;
            l2t_off = l1_table q ! get_l1_index q off
        in if l2t_off = 0 then Inr (Some (len, replicate len 0), q)
           else rbind (qcow_read_l2_table l2t_off q) (\<lambda>(r, q1).
             case r of
               None \<Rightarrow> Inr (None, q1)
             | Some t \<Rightarrow>
                rbind (aget (l2t_table t) (get_l2_index q1 off)) (\<lambda>start.
                if flag start QCOW1_OFLAG_COMPRESSED then
                  (let coffset = sint (ucast (start AND cluster_offset_mask q1) :: 32 word);
                       csize = unat (drop_bit (63 - cluster_bits (header q1)) start) mod cluster_size q1
                   in read_compressed inflate csize coffset 0 clust_off len q1)
                else if start = 0 then Inr (Some (len, replicate len 0), q1)
                else Inr (read_data len (start + of_nat clust_off) q1))))"

definition qcow2_read_cluster :: "zlib \<Rightarrow> u64 \<Rightarrow> nat \<Rightarrow> qcow \<Rightarrow> (cluster_read \<times> qcow) result" where
  "qcow2_read_cluster inflate off dst_len q =
     (if length (l1_table q) \<le> get_l1_index q off then Inr (None, q)
      else
        let clust_off = get_cluster_offset q off;
            len = min (cluster_size q - clust_off) dst_len;
            l2t_off = clrf (l1_table q ! get_l1_index q off) QCOW2_OFLAG_COPIED
        in if l2t_off = 0 then Inr (Some (len, replicate len 0), q)
           else rbind (qcow_read_l2_table l2t_off q) (\<lambda>(r, q1).
             case r of
               None \<Rightarrow> Inr (None, q1)
             | Some t \<Rightarrow>
                rbind (aget (l2t_table t) (get_l2_index q1 off)) (\<lambda>start.
                if flag start QCOW2_OFLAG_COMPRESSED then
                  (let coffset = sint (ucast (start AND cluster_offset_mask q1) :: 32 word);
                       nb_csectors = unat (drop_bit (csize_shift q1) start AND of_nat (csize_mask q1)) + 1;
                       sector_offset = nat (coffset mod 512)
                   in read_compressed inflate (nb_csectors * 512) (coffset - coffset mod 512) sector_offset clust_off len q1)
                else let start' = clrf start QCOW2_OFLAGS_MASK in
                  if start' = 0 then Inr (Some (len, replicate len 0), q1)
                  else Inr (read_data len (start' + of_nat clust_off) q1))))"

section \<open>Reading sectors\<close>

text \<open>
  The loop keeps its counters in \<^verbatim>\<open>u32\<close> and compares the result of the cluster read with 0 as an
  unsigned number: an error is the count 0xffffffff. \<open>pos\<close> is the place of the pointer \<^verbatim>\<open>buf\<close>
  in the destination.
\<close>

partial_function (option) read_sector_loop ::
  "zlib \<Rightarrow> u64 \<Rightarrow> u32 \<Rightarrow> nat \<Rightarrow> u8 list \<Rightarrow> qcow \<Rightarrow> (bool \<times> u8 list \<times> qcow) result option" where
  "read_sector_loop inflate sector nr_read pos dst q =
     (if of_nat (length dst) \<le> nr_read then Some (Inr (True, dst, q))
      else
        let off = push_bit 9 sector; n = unat (of_nat (length dst) - nr_read :: u32) in
        if hdr_size (header q) \<le> off then Some (Inr (False, dst, q))
        else case (if version q = 1 then qcow1_read_cluster inflate off n q else qcow2_read_cluster inflate off n q) of
            Inl e \<Rightarrow> Some (Inl e)
          | Inr (None, q1) \<Rightarrow>
              read_sector_loop inflate (sector + 0x7fffff) (nr_read - 1) (pos + 0xffffffff) dst q1
          | Inr (Some (len, bs), q1) \<Rightarrow>
              (case memcpy_to dst pos bs of
                 Inl e \<Rightarrow> Some (Inl e)
               | Inr dst' \<Rightarrow>
                  if len = 0 then Some (Inr (False, dst', q1))
                  else read_sector_loop inflate (sector + of_nat (len div 512)) (nr_read + of_nat len) (pos + len) dst' q1))"

definition qcow_read_sector_single :: "zlib \<Rightarrow> u64 \<Rightarrow> u8 list \<Rightarrow> qcow \<Rightarrow> (bool \<times> u8 list \<times> qcow) result option" where
  "qcow_read_sector_single inflate sector dst q = read_sector_loop inflate sector 0 0 dst q"

text \<open>\<open>None\<close> is a read that never ends; the first component of a value is false for -1.\<close>

fun qcow_read_sector :: "zlib \<Rightarrow> u64 \<Rightarrow> iovec list \<Rightarrow> memory \<Rightarrow> qcow \<Rightarrow> (bool \<times> memory \<times> qcow) result option" where
  "qcow_read_sector inflate sector [] m q = Some (Inr (True, m, q))"
| "qcow_read_sector inflate sector (v # iov) m q =
     (case memcpy_from m (iov_base v) (iov_len v) of
        Inl e \<Rightarrow> Some (Inl e)
      | Inr dst \<Rightarrow>
         (case qcow_read_sector_single inflate sector dst q of
            None \<Rightarrow> None
          | Some (Inl e) \<Rightarrow> Some (Inl e)
          | Some (Inr (ok, dst', q1)) \<Rightarrow>
             (let m1 = blit m (iov_base v) dst' in
              if ok \<and> iov_len v < 2 ^ 32 then qcow_read_sector inflate (sector + of_nat (iov_len v div 512)) iov m1 q1
              else Some (Inr (False, m1, q1)))))"

section \<open>Opening an image\<close>

text \<open>
  The header is read into a structure on the stack, here \<open>junk\<close>, which keeps its old bytes when the
  file is shorter. A field is read in the byte order of the format.
\<close>

definition header_matches :: "u32 \<Rightarrow> u8 list \<Rightarrow> host_file \<Rightarrow> bool \<times> host_file" where
  "header_matches ver junk f =
     (case pread_into junk 0 f of
        (False, _, f') \<Rightarrow> (False, f')
      | (True, bs, f') \<Rightarrow> (field 0 4 bs = QCOW_MAGIC \<and> field 4 4 bs = ver, f'))"

definition is_qcow1 :: "u8 list \<Rightarrow> host_file \<Rightarrow> bool \<times> host_file" where
  "is_qcow1 junk f = header_matches 1 (take 48 junk) f"

definition is_qcow2 :: "u8 list \<Rightarrow> host_file \<Rightarrow> bool \<times> host_file" where
  "is_qcow2 junk f = header_matches 2 (take 72 junk) f"

definition is_qcow :: "u8 list \<Rightarrow> host_file \<Rightarrow> bool \<times> host_file" where
  "is_qcow junk f = (case is_qcow1 junk f of (True, f1) \<Rightarrow> (True, f1) | (False, f1) \<Rightarrow> is_qcow2 junk f1)"

definition qcow1_read_header :: "u8 list \<Rightarrow> host_file \<Rightarrow> (qcow_header option \<times> host_file) result" where
  "qcow1_read_header junk f =
     (case pread_into (take 48 junk) 0 f of
        (False, _, f') \<Rightarrow> Inr (None, f')
      | (True, bs, f') \<Rightarrow>
         (let cb = unat (field 32 1 bs :: u8); lb = unat (field 33 1 bs :: u8); sz = field 24 8 bs :: u64 in
          if 31 \<le> lb + cb then Inl SignedOverflow
          else Inr (Some \<lparr> hdr_size = sz, l1_table_offset = field 40 8 bs, l1_size = of_nat (unat sz div (2 ^ lb * 2 ^ cb)),
                           cluster_bits = cb, l2_bits = lb, refcount_table_offset = 0, refcount_table_size = 0 \<rparr>, f')))"

definition qcow2_read_header :: "u8 list \<Rightarrow> host_file \<Rightarrow> qcow_header option \<times> host_file" where
  "qcow2_read_header junk f =
     (case pread_into (take 72 junk) 0 f of
        (False, _, f') \<Rightarrow> (None, f')
      | (True, bs, f') \<Rightarrow>
         (let cb = ucast (field 20 4 bs :: u32) :: u8 in
          (Some \<lparr> hdr_size = field 24 8 bs, l1_table_offset = field 40 8 bs, l1_size = field 36 4 bs,
                  cluster_bits = unat cb, l2_bits = unat (cb - 3),
                  refcount_table_offset = field 48 8 bs, refcount_table_size = field 56 4 bs \<rparr>, f')))"

text \<open>A table of 8-byte entries in fresh zeroed memory.\<close>

definition read_table :: "nat \<Rightarrow> u64 \<Rightarrow> host_file \<Rightarrow> bool \<times> u64 list \<times> host_file" where
  "read_table n off f =
     (case pread_into (replicate (8 * n) 0) (unat off) f of (ok, bs, f') \<Rightarrow> (ok, be_words 8 n bs, f'))"

definition qcow_read_l1_table :: "qcow \<Rightarrow> bool \<times> qcow" where
  "qcow_read_l1_table q =
     (case read_table (unat (l1_size (header q))) (l1_table_offset (header q)) (qfile q) of
        (ok, t, f) \<Rightarrow> (ok, q\<lparr>l1_table := t, qfile := f\<rparr>))"

definition qcow_read_refcount_table :: "qcow \<Rightarrow> bool \<times> qcow" where
  "qcow_read_refcount_table q =
     (let n = unat (of_nat (unat (refcount_table_size (header q)) * cluster_size q div 8) :: u32) in
      case read_table n (refcount_table_offset (header q)) (qfile q) of
        (ok, t, f) \<Rightarrow> (ok, q\<lparr>rf_table := t, rf_cache := cache_init, qfile := f\<rparr>))"

definition new_qcow :: "nat \<Rightarrow> qcow_header \<Rightarrow> u8 list \<Rightarrow> host_file \<Rightarrow> qcow" where
  "new_qcow ver h data f =
     \<lparr> header = h, l1_table = [], l2_cache = cache_init, rf_table = [], rf_cache = cache_init, qfile = f,
       version = ver, free_clust_idx = 0, cluster_data = data \<rparr>"

text \<open>The argument \<open>data\<close> is the memory that \<^verbatim>\<open>malloc\<close> gives for \<^verbatim>\<open>cluster_data\<close>.\<close>

definition qcow1_probe :: "u8 list \<Rightarrow> u8 list \<Rightarrow> host_file \<Rightarrow> (qcow option \<times> host_file) result" where
  "qcow1_probe junk data f =
     rbind (qcow1_read_header junk f) (\<lambda>(h, f1).
       case h of
         None \<Rightarrow> Inr (None, f1)
       | Some h \<Rightarrow>
          (let q = new_qcow 1 h (take (2 ^ cluster_bits h) data) f1 in
           case qcow_read_l1_table q of (ok, q1) \<Rightarrow> Inr (if ok then Some q1 else None, qfile q1)))"

definition qcow2_probe :: "u8 list \<Rightarrow> u8 list \<Rightarrow> host_file \<Rightarrow> (qcow option \<times> host_file) result" where
  "qcow2_probe junk data f =
     (case qcow2_read_header junk f of
        (None, f1) \<Rightarrow> Inr (None, f1)
      | (Some h, f1) \<Rightarrow>
         if cluster_bits h < 8 \<or> 31 \<le> cluster_bits h then Inl SignedOverflow
         else
           (let q = new_qcow 2 h (take (2 ^ cluster_bits h) data) f1 in
            case qcow_read_l1_table q of
              (False, q1) \<Rightarrow> Inr (None, qfile q1)
            | (True, q1) \<Rightarrow>
               (case qcow_read_refcount_table q1 of
                  (ok, q2) \<Rightarrow> Inr (if ok then Some q2 else None, qfile q2))))"

definition qcow_probe :: "u8 list \<Rightarrow> u8 list \<Rightarrow> host_file \<Rightarrow> (qcow option \<times> host_file) result" where
  "qcow_probe junk data f =
     (case is_qcow1 junk f of
        (True, f1) \<Rightarrow> qcow1_probe junk data f1
      | (False, f1) \<Rightarrow>
         (case is_qcow2 junk f1 of
            (True, f2) \<Rightarrow> qcow2_probe junk data f2
          | (False, f2) \<Rightarrow> Inr (None, f2)))"

section \<open>The virtual disk of an image\<close>

text \<open>
  The format, read from the image alone: where a cluster is, and the bytes it stands for.
\<close>

datatype place = Hole | Raw nat | Packed nat nat nat

definition place_of :: "qcow \<Rightarrow> u64 \<Rightarrow> place" where
  "place_of q e =
     (let co = unat (e AND cluster_offset_mask q) in
      if version q = 1 then
        (if flag e QCOW1_OFLAG_COMPRESSED
         then Packed (unat (drop_bit (63 - cluster_bits (header q)) e) mod cluster_size q) co 0
         else if e = 0 then Hole else Raw (unat e))
      else
        (if flag e QCOW2_OFLAG_COMPRESSED
         then Packed ((unat (drop_bit (csize_shift q) e AND of_nat (csize_mask q)) + 1) * 512) (co - co mod 512) (co mod 512)
         else if clrf e QCOW2_OFLAGS_MASK = 0 then Hole else Raw (unat (clrf e QCOW2_OFLAGS_MASK))))"

definition l2_place :: "qcow \<Rightarrow> nat \<Rightarrow> u64" where
  "l2_place q i = (if version q = 1 then l1_table q ! i else clrf (l1_table q ! i) QCOW2_OFLAG_COPIED)"

definition load_l2 :: "qcow \<Rightarrow> u64 \<Rightarrow> qcow_l2_table" where
  "load_l2 q off = \<lparr> l2t_offset = off, l2t_dirty = False,
     l2t_table = be_words 8 (2 ^ l2_bits (header q)) (take (2 ^ l2_bits (header q) * 8) (drop (unat off) (content (qfile q)))) \<rparr>"

definition cluster_place :: "qcow \<Rightarrow> nat \<Rightarrow> place" where
  "cluster_place q c =
     (let e = l2_place q (c div 2 ^ l2_bits (header q)) in
      if e = 0 then Hole else place_of q (l2t_table (load_l2 q e) ! (c mod 2 ^ l2_bits (header q))))"

definition place_bytes :: "zlib \<Rightarrow> qcow \<Rightarrow> place \<Rightarrow> u8 list option" where
  "place_bytes inflate q p =
     (case p of
        Hole \<Rightarrow> Some (replicate (cluster_size q) 0)
      | Raw s \<Rightarrow> Some (take (cluster_size q) (drop s (content (qfile q))))
      | Packed n off skip \<Rightarrow>
          qcow_decompress_buffer inflate (cluster_size q) (drop skip (take n (drop off (content (qfile q))))))"

definition vbyte :: "zlib \<Rightarrow> qcow \<Rightarrow> nat \<Rightarrow> u8" where
  "vbyte inflate q i = the (place_bytes inflate q (cluster_place q (i div cluster_size q))) ! (i mod cluster_size q)"

text \<open>
  An image whose tables and clusters lie inside the file, whose compressed clusters fit into
  the buffer and below 2 GiB and decompress to a cluster, and whose first-level table
  covers the disk.
\<close>

definition place_ok :: "zlib \<Rightarrow> qcow \<Rightarrow> place \<Rightarrow> bool" where
  "place_ok inflate q p \<longleftrightarrow> place_bytes inflate q p \<noteq> None \<and>
     (case p of
        Hole \<Rightarrow> True
      | Raw s \<Rightarrow> s + cluster_size q \<le> length (content (qfile q))
      | Packed n off skip \<Rightarrow> off + n \<le> length (content (qfile q)) \<and> n \<le> cluster_size q \<and> skip \<le> n \<and> off + 512 < 2 ^ 31)"

definition clusters :: "qcow \<Rightarrow> nat" where
  "clusters q = length (l1_table q) * 2 ^ l2_bits (header q)"

definition image_ok :: "zlib \<Rightarrow> qcow \<Rightarrow> bool" where
  "image_ok inflate q \<longleftrightarrow> version q \<in> {1, 2} \<and> 9 \<le> cluster_bits (header q) \<and> cluster_bits (header q) < 31 \<and>
     l2_bits (header q) + cluster_bits (header q) < 64 \<and> length (content (qfile q)) < 2 ^ 62 \<and>
     unat (hdr_size (header q)) \<le> clusters q * cluster_size q \<and>
     (\<forall>i < length (l1_table q). l2_place q i \<noteq> 0 \<longrightarrow>
        unat (l2_place q i) + 2 ^ l2_bits (header q) * 8 \<le> length (content (qfile q))) \<and>
     (\<forall>c < clusters q. place_ok inflate q (cluster_place q c))"

text \<open>The run-time state: the cache holds what the image holds, and no system call fails.\<close>

definition coherent :: "qcow \<Rightarrow> bool" where
  "coherent q \<longleftrightarrow> cache_ok l2t_offset (l2_cache q) \<and>
     (\<forall>off t. cached l2t_offset (l2_cache q) off = Some t \<longrightarrow> t = load_l2 q off)"

definition readable :: "qcow \<Rightarrow> bool" where
  "readable q \<longleftrightarrow> coherent q \<and> Failed \<notin> set (incidents (qfile q)) \<and> length (cluster_data q) = cluster_size q"

definition same_disk :: "qcow \<Rightarrow> qcow \<Rightarrow> bool" where
  "same_disk q q' \<longleftrightarrow> header q' = header q \<and> l1_table q' = l1_table q \<and> version q' = version q \<and>
     content (qfile q') = content (qfile q)"

lemma same_disk_refl [simp]: "same_disk q q"
  by (simp add: same_disk_def)

lemma same_disk_trans: "same_disk q q1 \<Longrightarrow> same_disk q1 q2 \<Longrightarrow> same_disk q q2"
  by (simp add: same_disk_def)

lemma same_disk_eqs:
  assumes "same_disk q q'"
  shows "header q' = header q" "version q' = version q" "l1_table q' = l1_table q" "cluster_size q' = cluster_size q"
    "load_l2 q' = load_l2 q" "cluster_place q' = cluster_place q" "place_of q' = place_of q"
    "vbyte inflate q' = vbyte inflate q" "image_ok inflate q' = image_ok inflate q" "cluster_offset_mask q' = cluster_offset_mask q"
    "csize_shift q' = csize_shift q" "csize_mask q' = csize_mask q" "place_bytes inflate q' = place_bytes inflate q"
    "place_ok inflate q' = place_ok inflate q"
proof -
  show h: "header q' = header q" and v: "version q' = version q" and l: "l1_table q' = l1_table q"
    using assms by (simp_all add: same_disk_def)
  have c: "content (qfile q') = content (qfile q)" using assms by (simp add: same_disk_def)
  show s: "cluster_size q' = cluster_size q" and m: "csize_shift q' = csize_shift q" "csize_mask q' = csize_mask q"
    using h by (simp_all add: cluster_size_def csize_shift_def csize_mask_def)
  then show o': "cluster_offset_mask q' = cluster_offset_mask q" using h v by (simp add: cluster_offset_mask_def)
  show ld: "load_l2 q' = load_l2 q" using h c by (simp add: load_l2_def fun_eq_iff)
  show p: "place_of q' = place_of q" by (rule ext) (simp only: place_of_def h v s m o')
  have "l2_place q' = l2_place q" using v l by (simp add: l2_place_def fun_eq_iff)
  then show cp: "cluster_place q' = cluster_place q"
    by (intro ext) (simp only: cluster_place_def h ld p)
  show pb: "place_bytes inflate q' = place_bytes inflate q" by (rule ext) (simp only: place_bytes_def s c)
  then show "vbyte inflate q' = vbyte inflate q" by (intro ext) (simp only: vbyte_def s cp)
  show "place_ok inflate q' = place_ok inflate q" by (intro ext) (simp only: place_ok_def s c pb)
  show "image_ok inflate q' = image_ok inflate q"
    by (simp only: image_ok_def clusters_def place_ok_def h v l c s cp pb \<open>l2_place q' = l2_place q\<close>)
qed

lemma readable_same:
  "readable q \<Longrightarrow> header q' = header q \<Longrightarrow> content (qfile q') = content (qfile q) \<Longrightarrow> l2_cache q' = l2_cache q \<Longrightarrow>
   Failed \<notin> set (incidents (qfile q')) \<Longrightarrow> length (cluster_data q') = length (cluster_data q) \<Longrightarrow> readable q'"
  by (simp add: readable_def coherent_def load_l2_def cluster_size_def)

section \<open>Reading a second-level table\<close>

interpretation l2c: read_cache "cache_ok l2t_offset" l2t_offset "cached l2t_offset" "cache_search l2t_offset" "cache_add l2t_offset"
proof (unfold_locales, goal_cases)
  case (1 c off)
  then show ?case by (rule cache_search_ok)
next
  case (2 c t)
  then show ?case using cache_add_ok [of l2t_offset c t] by blast
next
  case (3 c off t)
  then show ?case using cached_iff [of l2t_offset c off t] by blast
qed

lemma pread_into_ok:
  assumes "Failed \<notin> set (incidents f)" and "off + length dst \<le> length (content f)" and "length (content f) < 2 ^ 63"
  shows "\<exists>is. Failed \<notin> set is \<and> pread_into dst off f = (True, take (length dst) (drop off (content f)), f\<lparr>incidents := is\<rparr>)"
proof -
  have "off_ok off (length dst)" using assms(2,3) by (simp add: off_ok_def)
  from pread_in_full_ok [OF assms(1,2) this] assms(2) show ?thesis by (auto simp: pread_into_def)
qed

text \<open>Through the cache or from the file, the table is the one of the image.\<close>

lemma read_l2_ok:
  assumes "readable q" and "length (content (qfile q)) < 2 ^ 62"
    and "unat off + 2 ^ l2_bits (header q) * 8 \<le> length (content (qfile q))"
  shows "\<exists>q'. qcow_read_l2_table off q = Inr (Some (load_l2 q off), q') \<and> readable q' \<and> same_disk q q'"
proof -
  have ok: "cache_ok l2t_offset (l2_cache q)" and co: "\<And>off t. cached l2t_offset (l2_cache q) off = Some t \<Longrightarrow> t = load_l2 q off"
    using assms(1) by (auto simp: readable_def coherent_def)
  obtain js where rd: "Failed \<notin> set js" "pread_into (replicate (2 ^ l2_bits (header q) * 8) 0) (unat off) (qfile q) =
      (True, take (2 ^ l2_bits (header q) * 8) (drop (unat off) (content (qfile q))), (qfile q)\<lparr>incidents := js\<rparr>)"
    using pread_into_ok [of "qfile q" "unat off" "replicate (2 ^ l2_bits (header q) * 8) 0"] assms by (auto simp: readable_def)
  have key: "l2t_offset (load_l2 q off) = off" by (simp add: load_l2_def)
  obtain c1 where s: "cache_search l2t_offset off (l2_cache q) = Inr (cached l2t_offset (l2_cache q) off, c1)"
    using l2c.search_ok [OF ok] by blast
  obtain c where f: "rbind (cache_search l2t_offset off (l2_cache q)) (\<lambda>(r, c1). case r of
        Some t \<Rightarrow> Inr (t, c1) | None \<Rightarrow> rbind (cache_add l2t_offset (load_l2 q off) c1) (\<lambda>c2. Inr (load_l2 q off, c2))) =
      Inr (load_l2 q off, c)" "cache_ok l2t_offset c" "\<forall>off t. cached l2t_offset c off = Some t \<longrightarrow> t = load_l2 q off"
    using l2c.fetch_transparent [where load = "load_l2 q" and off = off, OF ok co key] by blast
  define g where "g = (if cached l2t_offset (l2_cache q) off = None then (qfile q)\<lparr>incidents := js\<rparr> else qfile q)"
  have g: "content g = content (qfile q)" "Failed \<notin> set (incidents g)"
    using rd(1) assms(1) by (auto simp: g_def readable_def)
  have t: "(new_cache_table off q)\<lparr>l2t_table := l2t_table (load_l2 q off)\<rparr> = load_l2 q off"
    by (simp add: new_cache_table_def load_l2_def)
  have "qcow_read_l2_table off q = Inr (Some (load_l2 q off), q\<lparr>qfile := g, l2_cache := c\<rparr>)"
  proof (cases "cached l2t_offset (l2_cache q) off")
    case None
    then obtain c2 where "cache_add l2t_offset (load_l2 q off) c1 = Inr c2" "c2 = c"
      using f(1) s by (auto simp: rbind_eq_Inr_iff)
    then show ?thesis
      using None s rd(2) t by (simp add: qcow_read_l2_table_def l2_table_search_def cache_table_def g_def new_cache_table_def load_l2_def Let_def)
  next
    case (Some t)
    then show ?thesis
      using s f(1) co [OF Some] by (simp add: qcow_read_l2_table_def l2_table_search_def g_def)
  qed
  moreover have "readable (q\<lparr>qfile := g, l2_cache := c\<rparr>)"
    using assms(1) f(2,3) g by (simp add: readable_def coherent_def load_l2_def cluster_size_def)
  ultimately show ?thesis using g by (simp add: same_disk_def)
qed

section \<open>Reading a cluster\<close>

lemma place_bytes_length: "place_ok inflate q p \<Longrightarrow> length (the (place_bytes inflate q p)) = cluster_size q"
  by (auto simp: place_ok_def place_bytes_def qcow_decompress_buffer_def split: place.splits option.splits if_splits)

lemma read_data_ok:
  assumes "readable q" and "length (content (qfile q)) < 2 ^ 62" and "unat s + cluster_size q \<le> length (content (qfile q))"
    and "o' + len \<le> cluster_size q"
  shows "\<exists>q'. read_data len (s + of_nat o') q =
      (Some (len, take len (drop o' (take (cluster_size q) (drop (unat s) (content (qfile q)))))), q') \<and> readable q' \<and> same_disk q q'"
proof -
  let ?f = "qfile q"
  have "unat s + o' < 2 ^ 64" using assms(2-4) by simp
  then have u: "unat (s + of_nat o') = unat s + o'"
    by (simp add: unat_word_ariths unat_of_nat)
  obtain js where js: "Failed \<notin> set js"
    "pread_in_full len (unat s + o') ?f = (Some (take len (drop (unat s + o') (content ?f))), ?f\<lparr>incidents := js\<rparr>)"
    using pread_in_full_ok [of ?f "unat s + o'" len] assms by (auto simp: readable_def off_ok_def)
  have "take len (drop (unat s + o') (content ?f)) = take len (drop o' (take (cluster_size q) (drop (unat s) (content ?f))))"
    using assms(4) by (simp add: drop_take add.commute min_absorb1)
  moreover have "readable (q\<lparr>qfile := ?f\<lparr>incidents := js\<rparr>\<rparr>)"
    using readable_same [OF assms(1)] js(1) by simp
  ultimately show ?thesis using js(2) u by (simp add: read_data_def same_disk_def)
qed

lemma read_compressed_ok:
  assumes "readable q" and "length (content (qfile q)) < 2 ^ 62" and "place_ok inflate q (Packed n off skip)"
  shows "\<exists>q'. read_compressed inflate n (int off) skip o' len q =
      Inr (Some (len, take len (drop o' (the (place_bytes inflate q (Packed n off skip))))), q') \<and> readable q' \<and> same_disk q q'"
proof -
  let ?f = "qfile q" and ?src = "take n (drop off (content (qfile q)))"
  have b: "off + n \<le> length (content ?f)" "n \<le> cluster_size q" "skip \<le> n"
    and out: "qcow_decompress_buffer inflate (cluster_size q) (drop skip ?src) \<noteq> None"
    using assms(3) by (auto simp: place_ok_def place_bytes_def)
  obtain js where js: "Failed \<notin> set js" "pread_in_full n off ?f = (Some ?src, ?f\<lparr>incidents := js\<rparr>)"
    using pread_in_full_ok [of ?f off n] assms(1,2) b by (auto simp: readable_def off_ok_def)
  let ?d = "blit (cluster_data q) 0 ?src"
  have len: "length ?src = n" using b by simp
  then have d: "length ?d = cluster_size q" "memcpy_to (cluster_data q) 0 ?src = Inr ?d"
    using b assms(1) by (simp_all add: readable_def memcpy_to_def)
  have "take n ?d = ?src" using len by (simp add: blit_def)
  then have "take (n - skip) (drop skip ?d) = drop skip ?src"
    by (metis drop_take)
  then have "memcpy_from ?d skip (n - skip) = Inr (drop skip ?src)"
    using d b by (simp add: memcpy_from_def)
  moreover have "readable (q\<lparr>qfile := ?f\<lparr>incidents := js\<rparr>, cluster_data := ?d\<rparr>)"
    by (rule readable_same [OF assms(1)]) (use js(1) d(1) assms(1) in \<open>simp_all add: readable_def\<close>)
  moreover have "off_of_int (int off) = off" by (simp add: off_of_int_def)
  ultimately show ?thesis
    using js(2) d(2) out by (simp add: read_compressed_def same_disk_def place_bytes_def Let_def) force
qed

lemma sint_of_small:
  assumes "unat (x :: u64) < 2 ^ 31"
  shows "sint (ucast x :: 32 word) = int (unat x)"
proof -
  have "sint (ucast x :: 32 word) = signed_take_bit 31 (uint x)" by (simp add: signed_ucast_eq)
  moreover have "int (unat x) < 2 ^ 31" using assms by (simp only: of_nat_less_numeral_power_cancel_iff)
  moreover have "- (2 ^ 31) \<le> uint x" by (rule order_trans [of _ 0]) simp_all
  ultimately show ?thesis using signed_take_bit_int_eq_self [of 31 "uint x"] by simp
qed

lemma coffset_parts:
  assumes "unat (co :: u64) < 2 ^ 31"
  shows "sint (ucast co :: 32 word) - sint (ucast co :: 32 word) mod 512 = int (unat co - unat co mod 512)"
    and "nat (sint (ucast co :: 32 word) mod 512) = unat co mod 512"
proof -
  have "nat (int (unat co) mod 512) = unat co mod 512" by (simp add: nat_mod_distrib)
  then show "nat (sint (ucast co :: 32 word) mod 512) = unat co mod 512" using sint_of_small [OF assms] by simp
  show "sint (ucast co :: 32 word) - sint (ucast co :: 32 word) mod 512 = int (unat co - unat co mod 512)"
    using sint_of_small [OF assms] by (simp add: of_nat_diff zmod_int)
qed

lemma indices:
  shows "get_l1_index q off = unat off div cluster_size q div 2 ^ l2_bits (header q)"
    and "get_l2_index q off = unat off div cluster_size q mod 2 ^ l2_bits (header q)"
    and "get_cluster_offset q off = unat off mod cluster_size q"
  by (simp_all add: get_l1_index_def get_l2_index_def get_cluster_offset_def cluster_size_def unat_drop unat_take
      div_mult2_eq [symmetric] power_add mult.commute)

text \<open>What both versions do with the entry of the cluster.\<close>

lemma entry_read:
  assumes "image_ok inflate q" and "readable q" and "place_ok inflate q (place_of q e)" and "o' + len \<le> cluster_size q"
  shows "version q = 1 \<Longrightarrow> \<exists>q'. (if flag e QCOW1_OFLAG_COMPRESSED
      then let coffset = sint (ucast (e AND cluster_offset_mask q) :: 32 word);
               csize = unat (drop_bit (63 - cluster_bits (header q)) e) mod cluster_size q
           in read_compressed inflate csize coffset 0 o' len q
      else if e = 0 then Inr (Some (len, replicate len 0), q) else Inr (read_data len (e + of_nat o') q)) =
      Inr (Some (len, take len (drop o' (the (place_bytes inflate q (place_of q e))))), q') \<and> readable q' \<and> same_disk q q'"
    and "version q \<noteq> 1 \<Longrightarrow> \<exists>q'. (if flag e QCOW2_OFLAG_COMPRESSED
      then let coffset = sint (ucast (e AND cluster_offset_mask q) :: 32 word);
               nb_csectors = unat (drop_bit (csize_shift q) e AND of_nat (csize_mask q)) + 1;
               sector_offset = nat (coffset mod 512)
           in read_compressed inflate (nb_csectors * 512) (coffset - coffset mod 512) sector_offset o' len q
      else let e' = clrf e QCOW2_OFLAGS_MASK in
        if e' = 0 then Inr (Some (len, replicate len 0), q) else Inr (read_data len (e' + of_nat o') q)) =
      Inr (Some (len, take len (drop o' (the (place_bytes inflate q (place_of q e))))), q') \<and> readable q' \<and> same_disk q q'"
proof -
  have small: "length (content (qfile q)) < 2 ^ 62" using assms(1) by (simp add: image_ok_def)
  note rd = read_data_ok [OF assms(2) small _ assms(4)] and rc = read_compressed_ok [OF assms(2) small]
  let ?co = "e AND cluster_offset_mask q"
  have hole: "take len (drop o' (the (place_bytes inflate q Hole))) = replicate len 0"
    using assms(4) by (simp add: place_bytes_def min_absorb1)
  show "\<exists>q'. (if flag e QCOW1_OFLAG_COMPRESSED
      then let coffset = sint (ucast ?co :: 32 word);
               csize = unat (drop_bit (63 - cluster_bits (header q)) e) mod cluster_size q
           in read_compressed inflate csize coffset 0 o' len q
      else if e = 0 then Inr (Some (len, replicate len 0), q) else Inr (read_data len (e + of_nat o') q)) =
      Inr (Some (len, take len (drop o' (the (place_bytes inflate q (place_of q e))))), q') \<and> readable q' \<and> same_disk q q'"
    if v: "version q = 1"
  proof (cases "flag e QCOW1_OFLAG_COMPRESSED")
    case True
    then have p: "place_of q e = Packed (unat (drop_bit (63 - cluster_bits (header q)) e) mod cluster_size q) (unat ?co) 0"
      using v by (simp add: place_of_def Let_def)
    then have "unat ?co < 2 ^ 31" using assms(3) by (simp add: place_ok_def)
    then show ?thesis
      using rc [OF assms(3) [unfolded p]] True p unfolding Let_def by (simp only: sint_of_small) simp
  next
    case False
    then have p: "place_of q e = (if e = 0 then Hole else Raw (unat e))" using v by (simp add: place_of_def Let_def)
    show ?thesis
    proof (cases "e = 0")
      case True
      then show ?thesis using False p hole assms(2) by auto
    next
      case e: False
      then show ?thesis using False p assms(3) rd [of e] by (simp add: place_ok_def place_bytes_def)
    qed
  qed
  show "\<exists>q'. (if flag e QCOW2_OFLAG_COMPRESSED
      then let coffset = sint (ucast ?co :: 32 word);
               nb_csectors = unat (drop_bit (csize_shift q) e AND of_nat (csize_mask q)) + 1;
               sector_offset = nat (coffset mod 512)
           in read_compressed inflate (nb_csectors * 512) (coffset - coffset mod 512) sector_offset o' len q
      else let e' = clrf e QCOW2_OFLAGS_MASK in
        if e' = 0 then Inr (Some (len, replicate len 0), q) else Inr (read_data len (e' + of_nat o') q)) =
      Inr (Some (len, take len (drop o' (the (place_bytes inflate q (place_of q e))))), q') \<and> readable q' \<and> same_disk q q'"
    if v: "version q \<noteq> 1"
  proof (cases "flag e QCOW2_OFLAG_COMPRESSED")
    case True
    then have p: "place_of q e = Packed ((unat (drop_bit (csize_shift q) e AND of_nat (csize_mask q)) + 1) * 512)
        (unat ?co - unat ?co mod 512) (unat ?co mod 512)"
      using v by (simp add: place_of_def Let_def)
    have "unat ?co - unat ?co mod 512 + 512 < 2 ^ 31" using assms(3) unfolding p place_ok_def place.case by blast
    then have "unat ?co < 2 ^ 31" using mod_less_divisor [of 512 "unat ?co"] by linarith
    note c = coffset_parts [OF this]
    from rc [OF assms(3) [unfolded p], of o' len] True show ?thesis
      unfolding Let_def c p by (simp only: if_True)
  next
    case False
    let ?e = "clrf e QCOW2_OFLAGS_MASK"
    have p: "place_of q e = (if ?e = 0 then Hole else Raw (unat ?e))" using v False by (simp add: place_of_def Let_def)
    show ?thesis
    proof (cases "?e = 0")
      case True
      then show ?thesis using False p hole assms(2) by auto
    next
      case e: False
      then show ?thesis using False p assms(3) rd [of ?e] by (simp add: place_ok_def place_bytes_def Let_def)
    qed
  qed
qed

lemma div_mod_inside: "(i::nat) < n - a mod n \<Longrightarrow> (a + i) div n = a div n \<and> (a + i) mod n = a mod n + i"
proof -
  assume i: "i < n - a mod n"
  then have "a mod n + i < n" by simp
  moreover have "a + i = a div n * n + (a mod n + i)" by simp
  ultimately show ?thesis by (metis div_mult_self3 div_less add_0_right mod_mult_self3 mod_less not_less0)
qed

lemma vbyte_cluster:
  assumes "place_ok inflate q (cluster_place q (a div cluster_size q))" and "a mod cluster_size q + len \<le> cluster_size q"
  shows "take len (drop (a mod cluster_size q) (the (place_bytes inflate q (cluster_place q (a div cluster_size q))))) =
    map (vbyte inflate q) [a..<a + len]"
proof (rule nth_equalityI)
  show "length (take len (drop (a mod cluster_size q) (the (place_bytes inflate q (cluster_place q (a div cluster_size q)))))) =
      length (map (vbyte inflate q) [a..<a + len])"
    using place_bytes_length [OF assms(1)] assms(2) by simp
  fix i assume "i < length (take len (drop (a mod cluster_size q) (the (place_bytes inflate q (cluster_place q (a div cluster_size q))))))"
  then have i: "i < len" by simp
  then have "i < cluster_size q - a mod cluster_size q" using assms(2) by simp
  note d = div_mod_inside [OF this]
  show "take len (drop (a mod cluster_size q) (the (place_bytes inflate q (cluster_place q (a div cluster_size q))))) ! i =
      map (vbyte inflate q) [a..<a + len] ! i"
    using i d place_bytes_length [OF assms(1)] assms(2) by (simp add: vbyte_def)
qed

lemma read_cluster_ok:
  assumes "image_ok inflate q" and "readable q" and "unat off div cluster_size q < clusters q"
  shows "\<exists>q'. (if version q = 1 then qcow1_read_cluster inflate off n q else qcow2_read_cluster inflate off n q) =
      (let len = min (cluster_size q - unat off mod cluster_size q) n in
       Inr (Some (len, map (vbyte inflate q) [unat off..<unat off + len]), q')) \<and> readable q' \<and> same_disk q q'"
proof -
  let ?c = "unat off div cluster_size q" and ?o = "unat off mod cluster_size q"
  let ?len = "min (cluster_size q - ?o) n" and ?i = "?c div 2 ^ l2_bits (header q)"
  let ?e = "l2_place q ?i" and ?code = "if version q = 1 then qcow1_read_cluster inflate off n q else qcow2_read_cluster inflate off n q"
  have i: "?i < length (l1_table q)" using assms(3) by (simp add: clusters_def less_mult_imp_div_less)
  have cs: "0 < cluster_size q" by (simp add: cluster_size_def)
  then have "?o < cluster_size q" by simp
  then have len: "?o + ?len \<le> cluster_size q" by simp
  have pok: "place_ok inflate q (cluster_place q ?c)" using assms(1,3) by (simp add: image_ok_def)
  note vb = vbyte_cluster [OF pok len]
  have idx: "get_l1_index q off = ?i" "get_cluster_offset q off = ?o" "get_l2_index q off = ?c mod 2 ^ l2_bits (header q)"
    by (simp_all only: indices)
  show ?thesis
  proof (cases "?e = 0")
    case True
    then have "cluster_place q ?c = Hole" by (simp add: cluster_place_def)
    then have "replicate ?len 0 = map (vbyte inflate q) [unat off..<unat off + ?len]"
      using vb len by (simp add: place_bytes_def min_absorb1)
    moreover have "version q = 1 \<Longrightarrow> l1_table q ! ?i = 0" "version q \<noteq> 1 \<Longrightarrow> clrf (l1_table q ! ?i) QCOW2_OFLAG_COPIED = 0"
      using True by (simp_all add: l2_place_def)
    then have "?code = Inr (Some (?len, replicate ?len 0), q)"
      using i by (cases "version q = 1") (simp_all add: qcow1_read_cluster_def qcow2_read_cluster_def idx not_le Let_def)
    ultimately show ?thesis using assms(2) by (auto simp: Let_def)
  next
    case False
    have "length (content (qfile q)) < 2 ^ 62" "unat ?e + 2 ^ l2_bits (header q) * 8 \<le> length (content (qfile q))"
      using assms(1) i False by (auto simp: image_ok_def)
    from read_l2_ok [OF assms(2) this] obtain q1 where
      q1: "qcow_read_l2_table ?e q = Inr (Some (load_l2 q ?e), q1)" "readable q1" "same_disk q q1" by blast
    note eqs = same_disk_eqs [OF q1(3)]
    let ?e2 = "l2t_table (load_l2 q ?e) ! (?c mod 2 ^ l2_bits (header q))"
    have get: "aget (l2t_table (load_l2 q ?e)) (?c mod 2 ^ l2_bits (header q)) = Inr ?e2"
      by (simp add: load_l2_def aget_def)
    have place: "place_of q ?e2 = cluster_place q ?c" using False by (simp add: cluster_place_def Let_def)
    have idx1: "get_l2_index q1 off = ?c mod 2 ^ l2_bits (header q)" using idx(3) eqs(1) by (simp add: get_l2_index_def)
    have pok1: "place_ok inflate q1 (place_of q1 ?e2)"
      using pok place by (simp only: eqs)
    have len1: "?o + ?len \<le> cluster_size q1" using len eqs(4) by simp
    have img1: "image_ok inflate q1" using assms(1) eqs(9) by blast
    note er = entry_read [OF img1 q1(2) pok1 len1]
    obtain q2 where "?code = Inr (Some (?len, take ?len (drop ?o (the (place_bytes inflate q1 (place_of q1 ?e2))))), q2)"
      "readable q2" "same_disk q1 q2"
    proof (cases "version q = 1")
      case True
      then have e: "l1_table q ! ?i = ?e" by (simp add: l2_place_def)
      from er(1) True eqs(2) that show thesis
        by (auto simp: qcow1_read_cluster_def idx e i False Let_def q1(1) idx1 get not_le)
    next
      case v: False
      then have e: "clrf (l1_table q ! ?i) QCOW2_OFLAG_COPIED = ?e" by (simp add: l2_place_def)
      from er(2) v eqs(2) that show thesis
        by (auto simp: qcow2_read_cluster_def idx e i False Let_def q1(1) idx1 get not_le)
    qed
    then show ?thesis
      using vb place q1(3) eqs same_disk_trans [of q q1] by (auto simp: Let_def)
  qed
qed

section \<open>Reading sectors\<close>

lemma blit_append_map:
  "length xs = pos \<Longrightarrow> length bs + pos \<le> length dst \<Longrightarrow> take pos dst = xs \<Longrightarrow>
   take (pos + length bs) (blit dst pos bs) = xs @ bs"
  by (simp add: blit_def)

lemma read_loop_ok:
  assumes "image_ok inflate q" and "readable q" and "length dst < 2 ^ 32" and "512 * unat sector < 2 ^ 64"
    and "512 * unat sector + (length dst - pos) \<le> unat (hdr_size (header q))"
    and "pos \<le> length dst" and "take pos dst = map (vbyte inflate q) [a..<a + pos]"
    and "512 * unat sector = a + pos \<or> pos = length dst"
  shows "\<exists>q'. read_sector_loop inflate sector (of_nat pos) pos dst q =
      Some (Inr (True, map (vbyte inflate q) [a..<a + length dst], q')) \<and> readable q' \<and> same_disk q q'"
  using assms
proof (induction "length dst - pos" arbitrary: sector pos dst q rule: less_induct)
  case less
  note step = read_sector_loop.simps [of inflate sector "of_nat pos" pos dst q]
  have u: "unat (of_nat pos :: u32) = pos" "unat (of_nat (length dst) :: u32) = length dst"
    using less.prems(3,6) by (auto simp: unat_of_nat)
  have le: "(of_nat (length dst) :: u32) \<le> of_nat pos \<longleftrightarrow> length dst \<le> pos" by (simp add: word_le_nat_alt u)
  show ?case
  proof (cases "pos = length dst")
    case True
    then have "dst = map (vbyte inflate q) [a..<a + length dst]" using less.prems(7) by simp
    then show ?thesis using step le True less.prems(2) by auto
  next
    case False
    then have pos: "pos < length dst" and a: "512 * unat sector = a + pos" using less.prems(6,8) by auto
    let ?off = "push_bit 9 sector" and ?cs = "cluster_size q"
    have off: "unat ?off = a + pos"
      using a less.prems(4) by (simp add: push_bit_eq_mult unat_word_ariths mult.commute)
    have n: "unat (of_nat (length dst) - of_nat pos :: u32) = length dst - pos"
      using u pos by (simp add: unat_sub word_le_nat_alt)
    have inside: "a + pos < unat (hdr_size (header q))" using less.prems(5) pos a by simp
    have ncs: "unat (hdr_size (header q)) \<le> clusters q * ?cs" and cb: "9 \<le> cluster_bits (header q)"
      using less.prems(1) by (auto simp: image_ok_def)
    have c: "unat ?off div ?cs < clusters q" using inside ncs off by (simp add: less_mult_imp_div_less)
    define len where "len = min (?cs - (a + pos) mod ?cs) (length dst - pos)"
    obtain q1 where q1: "(if version q = 1 then qcow1_read_cluster inflate ?off (length dst - pos) q
        else qcow2_read_cluster inflate ?off (length dst - pos) q) =
        Inr (Some (len, map (vbyte inflate q) [a + pos..<a + pos + len]), q1)" "readable q1" "same_disk q q1"
      using read_cluster_ok [OF less.prems(1,2) c, of "length dst - pos"] by (auto simp: Let_def len_def off)
    note eqs = same_disk_eqs [OF q1(3)]
    let ?bs = "map (vbyte inflate q) [a + pos..<a + pos + len]" and ?dst = "blit dst pos (map (vbyte inflate q) [a + pos..<a + pos + len])"
    have "(a + pos) mod ?cs < ?cs" by (simp add: cluster_size_def)
    then have len: "0 < len" "pos + len \<le> length dst" using pos by (auto simp: len_def)
    then have cpy: "memcpy_to dst pos ?bs = Inr ?dst" "length ?dst = length dst" by (simp_all add: memcpy_to_def)
    have up: "[a..<a + (pos + len)] = [a..<a + pos] @ [a + pos..<a + (pos + len)]" using upt_add_eq_append [of a "a + pos" len] by (simp add: add.assoc)
    have take: "take (pos + len) ?dst = map (vbyte inflate q1) [a..<a + (pos + len)]"
      using blit_append_map [of "map (vbyte inflate q) [a..<a + pos]" pos ?bs dst] less.prems(7) len eqs(8)
      by (simp add: up add.assoc)
    have "unat (hdr_size (header q)) < 2 ^ LENGTH(64)" by (rule unsigned_less)
    then have size: "unat (hdr_size (header q)) < 2 ^ 64" by simp
    have sec: "unat (sector + of_nat (len div 512)) = unat sector + len div 512"
    proof -
      have "512 * (unat sector + len div 512) \<le> a + pos + len" using a by simp
      also have "\<dots> < 2 ^ 64" using less.prems(5) a len(2) size by simp
      finally have "unat sector + len div 512 < 2 ^ 64" by simp
      moreover have "len < 2 ^ 64" using len(2) less.prems(3) by simp
      ultimately show ?thesis by (simp add: unat_word_ariths unat_of_nat)
    qed
    have dvd: "pos + len = length dst \<or> 512 dvd len"
    proof (cases "len = length dst - pos")
      case False
      then have "len = ?cs - (a + pos) mod ?cs" by (simp add: len_def min_def split: if_splits)
      moreover have "512 dvd ?cs" using cb le_imp_power_dvd [of 9 "cluster_bits (header q)" "2::nat"] by (simp add: cluster_size_def)
      moreover have "512 dvd a + pos" using a by (metis dvd_triv_left)
      ultimately show ?thesis by (simp add: dvd_diff_nat dvd_mod)
    qed (use pos in simp)
    have IH: "\<exists>q'. read_sector_loop inflate (sector + of_nat (len div 512)) (of_nat (pos + len)) (pos + len) ?dst q1 =
        Some (Inr (True, map (vbyte inflate q1) [a..<a + length ?dst], q')) \<and> readable q' \<and> same_disk q1 q'"
    proof (rule less.hyps)
      show "length ?dst - (pos + len) < length dst - pos" using len pos cpy(2) by simp
      show "image_ok inflate q1" using less.prems(1) eqs(9) by blast
      have up: "512 * unat (sector + of_nat (len div 512)) \<le> a + (pos + len)" using sec a by simp
      show "512 * unat (sector + of_nat (len div 512)) + (length ?dst - (pos + len)) \<le> unat (hdr_size (header q1))"
        using up less.prems(5) a len cpy(2) eqs(1) by simp
      show "512 * unat (sector + of_nat (len div 512)) < 2 ^ 64"
        using up less.prems(5) a len size by simp
      show "512 * unat (sector + of_nat (len div 512)) = a + (pos + len) \<or> pos + len = length ?dst"
        using dvd sec a cpy(2) by auto
    qed (use q1(2) less.prems(3) len cpy(2) take in simp_all)
    moreover have "read_sector_loop inflate sector (of_nat pos) pos dst q =
        read_sector_loop inflate (sector + of_nat (len div 512)) (of_nat (pos + len)) (pos + len) ?dst q1"
    proof -
      have "\<not> (of_nat (length dst) :: u32) \<le> of_nat pos" using le pos by simp
      moreover have "\<not> hdr_size (header q) \<le> ?off" using inside off by (simp add: word_le_nat_alt)
      ultimately show ?thesis unfolding step Let_def n q1(1) using len(1) cpy(1) by simp
    qed
    ultimately show ?thesis
      using cpy(2) eqs(8) same_disk_trans [OF q1(3)] by auto
  qed
qed

lemma read_single_ok:
  assumes "image_ok inflate q" and "readable q" and "length dst < 2 ^ 32"
    and "512 * unat sector + length dst \<le> unat (hdr_size (header q))"
  shows "\<exists>q'. qcow_read_sector_single inflate sector dst q =
      Some (Inr (True, map (vbyte inflate q) [512 * unat sector..<512 * unat sector + length dst], q')) \<and>
    readable q' \<and> same_disk q q'"
proof -
  have "unat (hdr_size (header q)) < 2 ^ LENGTH(64)" by (rule unsigned_less)
  then have "512 * unat sector < 2 ^ 64" using assms(4) by simp
  then show ?thesis
    using read_loop_ok [of inflate q dst sector 0 "512 * unat sector"] assms by (simp add: qcow_read_sector_single_def)
qed

lemma sector_advance:
  assumes "512 dvd n" and "512 * unat (sector :: u64) + n < 2 ^ 64"
  shows "512 * unat (sector + of_nat (n div 512)) = 512 * unat sector + n"
proof -
  have "unat sector + n div 512 < 2 ^ 64" "n < 2 ^ 64" using assms(2) by auto
  then have "unat (sector + of_nat (n div 512)) = unat sector + n div 512"
    by (simp add: unat_word_ariths unat_of_nat)
  then show ?thesis using assms(1) by (simp add: distrib_left)
qed

lemma read_sector_ok:
  assumes "image_ok inflate q" and "readable q" and "iov_ok (length m) iov" and "\<forall>v \<in> set iov. 512 dvd iov_len v"
    and "512 * unat sector + iov_total iov \<le> unat (hdr_size (header q))"
  shows "\<exists>q'. qcow_read_sector inflate sector iov m q =
      Some (Inr (True, scatter iov (map (vbyte inflate q) [512 * unat sector..<512 * unat sector + iov_total iov]) m, q')) \<and>
    readable q' \<and> same_disk q q'"
  using assms
proof (induction iov arbitrary: sector m q)
  case (Cons v iov)
  let ?a = "512 * unat sector" and ?n = "iov_len v"
  have v: "inside (length m) v" using Cons.prems(3) by simp
  have len: "length (take ?n (drop (iov_base v) m)) = ?n" using v by (auto simp: inside_def min_def)
  obtain q1 where q1: "qcow_read_sector_single inflate sector (take ?n (drop (iov_base v) m)) q =
      Some (Inr (True, map (vbyte inflate q) [?a..<?a + ?n], q1))" "readable q1" "same_disk q q1"
    using read_single_ok [OF Cons.prems(1,2), of "take ?n (drop (iov_base v) m)" sector] len v Cons.prems(5)
    by (auto simp: inside_def)
  note eqs = same_disk_eqs [OF q1(3)]
  have "unat (hdr_size (header q)) < 2 ^ LENGTH(64)" by (rule unsigned_less)
  then have adv: "512 * unat (sector + of_nat (?n div 512)) = ?a + ?n"
    using Cons.prems(4,5) by (intro sector_advance) auto
  let ?m = "blit m (iov_base v) (map (vbyte inflate q) [?a..<?a + ?n])"
  have m: "length ?m = length m" using v by (simp add: inside_def)
  have "\<exists>q'. qcow_read_sector inflate (sector + of_nat (?n div 512)) iov ?m q1 =
      Some (Inr (True, scatter iov (map (vbyte inflate q) [?a + ?n..<?a + ?n + iov_total iov]) ?m, q')) \<and> readable q' \<and> same_disk q1 q'"
    using Cons.IH [of q1 ?m "sector + of_nat (?n div 512)"] Cons.prems q1(2) m adv eqs by (simp add: add.assoc)
  moreover have "map (vbyte inflate q) [?a..<?a + iov_total (v # iov)] =
      map (vbyte inflate q) [?a..<?a + ?n] @ map (vbyte inflate q) [?a + ?n..<?a + ?n + iov_total iov]"
    using upt_add_eq_append [of ?a "?a + ?n" "iov_total iov"] by (simp add: add.assoc)
  moreover have "memcpy_from m (iov_base v) ?n = Inr (take ?n (drop (iov_base v) m))"
    using v by (simp add: memcpy_from_def inside_def)
  ultimately show ?case
    using q1 v same_disk_trans [OF q1(3)] by (auto simp: inside_def)
qed simp

section \<open>Opening\<close>

lemma pread_into_keeps:
  "Failed \<notin> set (incidents f) \<Longrightarrow> off_ok off (length dst) \<Longrightarrow>
   \<exists>ok bs is. pread_into dst off f = (ok, bs, f\<lparr>incidents := is\<rparr>) \<and> Failed \<notin> set is \<and> length bs = length dst"
  using pread_loop_ok [of f off "length dst" "[]"]
  by (auto simp: pread_into_def pread_in_full_def Let_def)

lemma pread_into_refused: "\<not> off_ok off (length dst) \<Longrightarrow> dst \<noteq> [] \<Longrightarrow> pread_into dst off f = (False, dst, f)"
  by (simp add: pread_into_def pread_in_full_def pread_loop.simps xpread_def restart_refused short_read_def)

section \<open>Properties\<close>

text \<open>
  C3. Reading from an image of either version refines the virtual disk of the format: on a
  well-formed image a read of whole sectors into scattered buffers succeeds and stores exactly the bytes of
  the disk, from raw, compressed and missing clusters alike, whatever the cache of tables
  holds and however the system calls are interrupted or cut short; the image is not changed,
  and the state stays fit for the next read.
\<close>

theorem qcow_read_refines_disk:
  assumes "image_ok inflate q" and "readable q" and "iov_ok (length m) iov" and "\<forall>v \<in> set iov. 512 dvd iov_len v"
    and "512 * unat sector + iov_total iov \<le> unat (hdr_size (header q))"
  shows "\<exists>q'. qcow_read_sector inflate sector iov m q =
      Some (Inr (True, scatter iov (map (vbyte inflate q) [512 * unat sector..<512 * unat sector + iov_total iov]) m, q')) \<and>
    readable q' \<and> same_disk q q' \<and> image_ok inflate q' \<and> vbyte inflate q' = vbyte inflate q"
proof -
  obtain q' where q': "qcow_read_sector inflate sector iov m q =
      Some (Inr (True, scatter iov (map (vbyte inflate q) [512 * unat sector..<512 * unat sector + iov_total iov]) m, q'))"
    "readable q'" "same_disk q q'"
    using read_sector_ok [OF assms] by blast
  with same_disk_eqs(8,9) [OF q'(3), of inflate] assms(1) show ?thesis by auto
qed

text \<open>An image of version 1 with two entries in each table: the first cluster is full of sevens, the second is missing.\<close>

definition sample_image :: qcow where
  "sample_image =
     \<lparr> header = \<lparr> hdr_size = 1024, l1_table_offset = 48, l1_size = 1, cluster_bits = 9, l2_bits = 1,
                  refcount_table_offset = 0, refcount_table_size = 0 \<rparr>,
       l1_table = [56], l2_cache = cache_init, rf_table = [], rf_cache = cache_init,
       qfile = \<lparr> content = replicate 56 0 @ [0, 0, 0, 0, 0, 0, 0, 72] @ replicate 8 0 @ replicate 512 7,
                 position = 0, incidents = [Interrupted, Short 3] \<rparr>,
       version = 1, free_clust_idx = 0, cluster_data = replicate 512 0 \<rparr>"

lemma be_words_2: "be_words w 2 bs = [be_word (take w bs), be_word (take w (drop w bs))]"
  by (simp add: numeral_2_eq_2)

lemma sample_table: "l2t_table (load_l2 sample_image 56) = [72, 0]"
proof -
  have "l2t_table (load_l2 sample_image 56) = be_words 8 2 ([0, 0, 0, 0, 0, 0, 0, 72] @ replicate 8 0)"
    by (simp add: load_l2_def sample_image_def)
  also have "\<dots> = [be_word [0, 0, 0, 0, 0, 0, 0, 72], be_word (replicate 8 0)]" by (simp add: be_words_2)
  also have "\<dots> = [72, 0]" using le_word_zeros [of 8] by (simp add: be_word_def) (simp add: le_word_def)
  finally show ?thesis .
qed

lemma sample_places: "cluster_place sample_image 0 = Raw 72" "cluster_place sample_image 1 = Hole"
proof -
  have l: "l2_place sample_image 0 = 56" "l2_bits (header sample_image) = 1" "version sample_image = 1"
    by (simp_all add: sample_image_def l2_place_def)
  show "cluster_place sample_image 0 = Raw 72" "cluster_place sample_image 1 = Hole"
    using l sample_table by (simp_all add: cluster_place_def place_of_def)
qed

lemma sample_fields: "cluster_size sample_image = 512" "length (content (qfile sample_image)) = 584"
  by (simp_all add: sample_image_def cluster_size_def)

lemma sample_image_ok: "image_ok inflate sample_image" "readable sample_image"
proof -
  have "c = 0 \<or> c = 1" if "c < clusters sample_image" for c
    using that by (auto simp: clusters_def sample_image_def)
  moreover have "place_ok inflate sample_image (Raw 72)" "place_ok inflate sample_image Hole"
    using sample_fields by (simp_all add: place_ok_def place_bytes_def)
  ultimately have "\<forall>c < clusters sample_image. place_ok inflate sample_image (cluster_place sample_image c)"
    using sample_places by metis
  then show "image_ok inflate sample_image"
    by (simp add: image_ok_def) (simp add: sample_image_def clusters_def cluster_size_def l2_place_def)
  show "readable sample_image"
    using cache_ok_init by (simp add: readable_def coherent_def sample_image_def cluster_size_def)
      (simp add: cached_def cache_init_def)
qed

theorem qcow_read_refines_disk_witness:
  "\<exists>q'. qcow_read_sector (\<lambda>_ _. None) 0 [\<lparr> iov_base = 16, iov_len = 512 \<rparr>] (replicate 528 0) sample_image =
     Some (Inr (True, replicate 16 0 @ replicate 512 7, q'))"
proof -
  have "map (vbyte (\<lambda>_ _. None) sample_image) [0..<512] = replicate 512 7"
  proof (rule nth_equalityI)
    fix i assume "i < length (map (vbyte (\<lambda>_ _. None) sample_image) [0..<512])"
    then have i: "i < 512" by simp
    moreover have "cluster_size sample_image = 512" by (simp add: sample_image_def cluster_size_def)
    ultimately show "map (vbyte (\<lambda>_ _. None) sample_image) [0..<512] ! i = replicate 512 7 ! i"
      by (simp add: vbyte_def sample_places place_bytes_def) (simp add: sample_image_def nth_append)
  qed simp
  then show ?thesis
    using qcow_read_refines_disk [OF sample_image_ok, of "replicate 528 0" "[\<lparr> iov_base = 16, iov_len = 512 \<rparr>]" 0 "\<lambda>_ _. None"]
    by (auto simp: inside_def blit_def sample_image_def)
qed

text \<open>
  A read whose first cluster cannot be read, because its table is outside of the first-level
  table, a system call fails or the data do not decompress, is reported as a success that
  leaves the destination as it was: the result -1 is kept in an unsigned counter, which is
  then past the end of the loop.
\<close>

theorem qcow_read_error_hidden:
  assumes "dst \<noteq> []" and "length dst < 2 ^ 32" and "push_bit 9 sector < hdr_size (header q)"
    and "(if version q = 1 then qcow1_read_cluster inflate (push_bit 9 sector) (length dst) q
          else qcow2_read_cluster inflate (push_bit 9 sector) (length dst) q) = Inr (None, q1)"
  shows "qcow_read_sector_single inflate sector dst q = Some (Inr (True, dst, q1))"
proof -
  have u: "unat (of_nat (length dst) :: u32) = length dst" using assms(2) by (simp add: unat_of_nat)
  then have c: "\<not> (of_nat (length dst) :: u32) \<le> 0" using assms(1) by (simp add: word_le_nat_alt)
  have s: "\<not> hdr_size (header q) \<le> push_bit 9 sector" using assms(3) by simp
  have "read_sector_loop inflate sector 0 0 dst q = read_sector_loop inflate (sector + 0x7fffff) (0 - 1) (0 + 0xffffffff) dst q1"
    unfolding read_sector_loop.simps [of inflate sector 0 0 dst q] Let_def diff_0_right u assms(4) using c s by simp
  also have "\<dots> = Some (Inr (True, dst, q1))"
    by (subst read_sector_loop.simps) simp
  finally show ?thesis by (simp add: qcow_read_sector_single_def)
qed

theorem qcow_read_error_hidden_witness:
  "\<exists>q1. qcow_read_sector_single (\<lambda>_ _. None) 0 [1, 2, 3] (sample_image\<lparr>l1_table := []\<rparr>) = Some (Inr (True, [1, 2, 3], q1))"
proof (rule exI [of _ "sample_image\<lparr>l1_table := []\<rparr>"], rule qcow_read_error_hidden)
  show "push_bit 9 (0 :: u64) < hdr_size (header (sample_image\<lparr>l1_table := []\<rparr>))" by (simp add: sample_image_def)
  show "(if version (sample_image\<lparr>l1_table := []\<rparr>) = 1
      then qcow1_read_cluster (\<lambda>_ _. None) (push_bit 9 0) (length [1, 2, 3]) (sample_image\<lparr>l1_table := []\<rparr>)
      else qcow2_read_cluster (\<lambda>_ _. None) (push_bit 9 0) (length [1, 2, 3]) (sample_image\<lparr>l1_table := []\<rparr>)) =
      Inr (None, sample_image\<lparr>l1_table := []\<rparr>)"
    by (simp add: qcow1_read_cluster_def qcow2_read_cluster_def)
qed simp_all

end
