(* ===== verification/Disk.thy ===== *)
theory Disk
  imports Qcow
begin

text \<open>
  Disk images: \<^verbatim>\<open>disk/core.c\<close>, \<^verbatim>\<open>disk/raw.c\<close> and \<^verbatim>\<open>disk/blk.c\<close>. An image is a host file, a private mapping of one, or an
  opened QCOW image, with a table of operations; a read or a write names a sector and an array of
  buffers in guest memory and reports a count of bytes or an error to a callback.

  Asynchronous I/O (\<^verbatim>\<open>CONFIG_HAS_AIO\<close>) has no implementation in the repository; \<^verbatim>\<open>raw_image__read\<close> and
  \<^verbatim>\<open>raw_image__write\<close> are the synchronous functions.
\<close>

datatype disk_ops = raw_image_regular_ops | ro_ops | blk_dev_ops | qcow_disk_readonly_ops

record disk_image =
  disk_size :: u64
  ops :: disk_ops
  fd :: host_file
  priv_map :: "u8 list"
  priv_qcow :: "qcow option"
  readonly :: bool

text \<open>The result of an operation: the return value, the memory of the guest and the image. \<open>None\<close> does not return.\<close>

type_synonym disk_result = "(int \<times> memory \<times> disk_image) result option"

definition int_of_ret :: "nat option \<Rightarrow> int" where
  "int_of_ret r = (case r of None \<Rightarrow> - 1 | Some n \<Rightarrow> int n)"

section \<open>Raw images\<close>

text \<open>The array is \<open>iov\<close>, its first \<open>n\<close> entries are the buffers.\<close>

definition raw_image_read_sync :: "u64 \<Rightarrow> iovec list \<Rightarrow> nat \<Rightarrow> memory \<Rightarrow> disk_image \<Rightarrow> disk_result" where
  "raw_image_read_sync sector iov n m d =
     (case preadv_in_full iov n (unat (push_bit 9 sector)) m (fd d) of
        None \<Rightarrow> None
      | Some (Inl e) \<Rightarrow> Some (Inl e)
      | Some (Inr (r, m', f)) \<Rightarrow> Some (Inr (int_of_ret r, m', d\<lparr>fd := f\<rparr>)))"

definition raw_image_write_sync :: "u64 \<Rightarrow> iovec list \<Rightarrow> nat \<Rightarrow> memory \<Rightarrow> disk_image \<Rightarrow> disk_result" where
  "raw_image_write_sync sector iov n m d =
     (case pwritev_in_full iov n (unat (push_bit 9 sector)) m (fd d) of
        None \<Rightarrow> None
      | Some (Inl e) \<Rightarrow> Some (Inl e)
      | Some (Inr (r, f)) \<Rightarrow> Some (Inr (int_of_ret r, m, d\<lparr>fd := f\<rparr>)))"

text \<open>The mapping is as long as the file; nothing compares the sector with it.\<close>

fun read_mmap_loop :: "nat \<Rightarrow> iovec list \<Rightarrow> int \<Rightarrow> memory \<Rightarrow> u8 list \<Rightarrow> (int \<times> memory) result" where
  "read_mmap_loop off [] tot m img = Inr (tot, m)"
| "read_mmap_loop off (v # iov) tot m img =
     rbind (memcpy_from img off (iov_len v)) (\<lambda>bs.
     rbind (memcpy_to m (iov_base v) bs) (\<lambda>m1.
       read_mmap_loop (off + iov_len v) iov (tot + int (iov_len v)) m1 img))"

definition raw_image_read_mmap :: "u64 \<Rightarrow> iovec list \<Rightarrow> nat \<Rightarrow> memory \<Rightarrow> disk_image \<Rightarrow> disk_result" where
  "raw_image_read_mmap sector iov n m d =
     Some (rbind (read_mmap_loop (unat (push_bit 9 sector)) (take n iov) 0 m (priv_map d)) (\<lambda>(r, m'). Inr (r, m', d)))"

fun write_mmap_loop :: "nat \<Rightarrow> iovec list \<Rightarrow> int \<Rightarrow> memory \<Rightarrow> u8 list \<Rightarrow> (int \<times> u8 list) result" where
  "write_mmap_loop off [] tot m img = Inr (tot, img)"
| "write_mmap_loop off (v # iov) tot m img =
     rbind (memcpy_from m (iov_base v) (iov_len v)) (\<lambda>bs.
     rbind (memcpy_to img off bs) (\<lambda>img1.
       write_mmap_loop (off + iov_len v) iov (tot + int (iov_len v)) m img1))"

definition raw_image_write_mmap :: "u64 \<Rightarrow> iovec list \<Rightarrow> nat \<Rightarrow> memory \<Rightarrow> disk_image \<Rightarrow> disk_result" where
  "raw_image_write_mmap sector iov n m d =
     Some (rbind (write_mmap_loop (unat (push_bit 9 sector)) (take n iov) 0 m (priv_map d))
       (\<lambda>(r, img). Inr (r, m, d\<lparr>priv_map := img\<rparr>)))"

section \<open>Operations of any image\<close>

definition qcow_image_read :: "zlib \<Rightarrow> u64 \<Rightarrow> iovec list \<Rightarrow> nat \<Rightarrow> memory \<Rightarrow> disk_image \<Rightarrow> disk_result" where
  "qcow_image_read inflate sector iov n m d =
     (case priv_qcow d of
        None \<Rightarrow> Some (Inl NullDeref)
      | Some q \<Rightarrow>
         (case qcow_read_sector inflate sector (take n iov) m q of
            None \<Rightarrow> None
          | Some (Inl e) \<Rightarrow> Some (Inl e)
          | Some (Inr (ok, m', q')) \<Rightarrow>
              Some (Inr (if ok then int (iov_total (take n iov)) else - 1, m', d\<lparr>priv_qcow := Some q'\<rparr>))))"

text \<open>The second component of a value is what the callback is called with, if it is called.\<close>

definition disk_image_read :: "zlib \<Rightarrow> u64 \<Rightarrow> iovec list \<Rightarrow> nat \<Rightarrow> memory \<Rightarrow> disk_image \<Rightarrow>
    (int option \<times> memory \<times> disk_image) result option" where
  "disk_image_read inflate sector iov n m d =
     (case (case ops d of
              raw_image_regular_ops \<Rightarrow> raw_image_read_sync sector iov n m d
            | blk_dev_ops \<Rightarrow> raw_image_read_sync sector iov n m d
            | ro_ops \<Rightarrow> raw_image_read_mmap sector iov n m d
            | qcow_disk_readonly_ops \<Rightarrow> qcow_image_read inflate sector iov n m d) of
        None \<Rightarrow> None
      | Some (Inl e) \<Rightarrow> Some (Inl e)
      | Some (Inr (tot, m', d')) \<Rightarrow> Some (Inr (if tot < 0 then None else Some tot, m', d')))"

definition disk_image_write :: "u64 \<Rightarrow> iovec list \<Rightarrow> nat \<Rightarrow> memory \<Rightarrow> disk_image \<Rightarrow>
    (int option \<times> memory \<times> disk_image) result option" where
  "disk_image_write sector iov n m d =
     (case (case ops d of
              raw_image_regular_ops \<Rightarrow> raw_image_write_sync sector iov n m d
            | blk_dev_ops \<Rightarrow> raw_image_write_sync sector iov n m d
            | ro_ops \<Rightarrow> raw_image_write_mmap sector iov n m d
            | qcow_disk_readonly_ops \<Rightarrow> Some (Inr (0, m, d))) of
        None \<Rightarrow> None
      | Some (Inl e) \<Rightarrow> Some (Inl e)
      | Some (Inr (tot, m', d')) \<Rightarrow> Some (Inr (if tot < 0 then None else Some tot, m', d')))"

text \<open>None of these tables has a \<^verbatim>\<open>flush\<close> operation: the file is synchronised.\<close>

definition disk_image_flush :: "disk_image \<Rightarrow> int \<times> disk_image" where
  "disk_image_flush d =
     (case syscall True 0 (\<lambda>_ f. ((), f)) (fd d) of
        (Got _, f) \<Rightarrow> (0, d\<lparr>fd := f\<rparr>)
      | (_, f) \<Rightarrow> (- 1, d\<lparr>fd := f\<rparr>))"

text \<open>
  \<open>digits\<close> is the text of the three numbers that \<^verbatim>\<open>fstat\<close> gives; \<^verbatim>\<open>snprintf\<close> stores at most \<open>len - 1\<close> bytes of it
  and a zero, and returns the length of the whole text.
\<close>

definition disk_image_get_serial :: "u8 list \<Rightarrow> iovec list \<Rightarrow> nat \<Rightarrow> nat \<Rightarrow> memory \<Rightarrow> (int \<times> iovec list \<times> memory) result" where
  "disk_image_get_serial digits iov n len m =
     rbind (iov_size iov n) (\<lambda>size.
       let buf = take (len - 1) digits @ [0] in
       if size < length digits then Inr (- 12, iov, m)
       else if len < length digits then Inl OutOfBounds
       else rbind (memcpy_toiovec iov (take (length digits) buf) m) (\<lambda>(iov', m'). Inr (int (length digits), iov', m')))"

section \<open>Opening\<close>

text \<open>
  \<open>blkdev\<close> and \<open>mounted\<close> are what \<^verbatim>\<open>stat\<close> and the table of mounts say, \<open>blksize\<close> the size that the
  kernel reports for a block device, if it does. \<open>Inl\<close> is a fault, \<open>Inr None\<close> an error.
\<close>

definition new_image :: "u64 \<Rightarrow> disk_ops \<Rightarrow> host_file \<Rightarrow> bool \<Rightarrow> disk_image" where
  "new_image sz o' f ro =
     \<lparr> disk_size = sz, ops = o', fd = f, priv_map = (if o' = ro_ops then content f else []), priv_qcow = None, readonly = ro \<rparr>"

definition raw_image_probe :: "host_file \<Rightarrow> bool \<Rightarrow> disk_image" where
  "raw_image_probe f ro =
     new_image (of_nat (length (content f))) (if ro then ro_ops else raw_image_regular_ops) f ro"

definition blkdev_probe :: "u64 option \<Rightarrow> host_file \<Rightarrow> bool \<Rightarrow> disk_image option" where
  "blkdev_probe blksize f ro = map_option (\<lambda>sz. new_image sz blk_dev_ops f ro) blksize"

definition disk_image_open :: "bool \<Rightarrow> bool \<Rightarrow> u64 option \<Rightarrow> u8 list \<Rightarrow> u8 list \<Rightarrow> bool \<Rightarrow> host_file \<Rightarrow> disk_image option result" where
  "disk_image_open blkdev mounted blksize junk data ro f =
     (if blkdev then Inr (if mounted then None else blkdev_probe blksize f True)
      else case is_qcow junk f of
        (True, f1) \<Rightarrow>
          rbind (qcow_probe junk data f1) (\<lambda>(q, f2).
            Inr (map_option (\<lambda>q. (new_image (hdr_size (header q)) qcow_disk_readonly_ops f2 True)\<lparr>priv_qcow := Some q\<rparr>) q))
      | (False, f1) \<Rightarrow> Inr (Some (raw_image_probe f1 ro)))"

end
