(* ===== verification/Virtq.thy ===== *)
theory Virtq
  imports Prelude
begin

text \<open>
  The virtqueues of \<^verbatim>\<open>virtio/core.c\<close>, \<^verbatim>\<open>include/kvm/virtio.h\<close> and \<^verbatim>\<open>include/linux/virtio_ring.h\<close>: taking
  requests from the available ring, walking a chain of descriptors into an array of buffers,
  publishing results in the used ring and deciding whether the guest wants an interrupt; the
  device status and the configuration accesses.

  A ring is a record of lists, one element per entry, as the guest sees it between two steps of
  the device; guest and host have the same byte order (\<^verbatim>\<open>VIRTIO_RING_ENDIAN\<close> is that of the host), so that the
  conversions are the identity. A buffer is the guest address and the length; \<open>tables\<close> gives the
  descriptors that lie at a guest address, \<open>None\<close> where \<^verbatim>\<open>guest_flat_to_host\<close> returns a null pointer.
\<close>

section \<open>Rings\<close>

record vring_desc =
  desc_addr :: u64
  desc_len :: u32
  desc_flags :: u16
  desc_next :: u16

record vring_avail =
  avail_flags :: u16
  avail_idx :: u16
  avail_ring :: "u16 list"
  used_event :: u16

record vring_used =
  used_flags :: u16
  used_idx :: u16
  used_ring :: "(u32 \<times> u32) list"
  avail_event :: u16

record virt_queue =
  num :: nat
  desc :: "vring_desc list"
  avail :: vring_avail
  used :: vring_used
  last_avail_idx :: u16
  last_used_signalled :: u16
  use_event_idx :: bool

abbreviation (input) VRING_DESC_F_NEXT :: u16 where "VRING_DESC_F_NEXT \<equiv> 1"
abbreviation (input) VRING_DESC_F_WRITE :: u16 where "VRING_DESC_F_WRITE \<equiv> 2"
abbreviation (input) VRING_DESC_F_INDIRECT :: u16 where "VRING_DESC_F_INDIRECT \<equiv> 4"
abbreviation (input) VRING_AVAIL_F_NO_INTERRUPT :: u16 where "VRING_AVAIL_F_NO_INTERRUPT \<equiv> 1"

section \<open>The available ring\<close>

definition virt_queue_available :: "virt_queue \<Rightarrow> bool \<times> virt_queue" where
  "virt_queue_available vq =
     (let vq' = (if use_event_idx vq then vq\<lparr>used := (used vq)\<lparr>avail_event := last_avail_idx vq\<rparr>\<rparr> else vq)
      in (avail_idx (avail vq) \<noteq> last_avail_idx vq, vq'))"

definition virt_queue_pop :: "virt_queue \<Rightarrow> (u16 \<times> virt_queue) result" where
  "virt_queue_pop vq =
     rbind (aget (avail_ring (avail vq)) (unat (last_avail_idx vq) mod num vq)) (\<lambda>head.
     Inr (head, vq\<lparr>last_avail_idx := last_avail_idx vq + 1\<rparr>))"

section \<open>Descriptor chains\<close>

definition virt_desc_test_flag :: "vring_desc \<Rightarrow> u16 \<Rightarrow> bool" where
  "virt_desc_test_flag d m = flag (desc_flags d) m"

definition next_desc :: "vring_desc \<Rightarrow> nat \<Rightarrow> nat" where
  "next_desc d mx = (if \<not> virt_desc_test_flag d VRING_DESC_F_NEXT then mx else min (unat (desc_next d)) mx)"

text \<open>
  The loop of \<^verbatim>\<open>virt_queue__get_head_iov\<close>. \<open>cap\<close> is the size of the array \<open>iov\<close> of the caller, which
  the code does not know; \<open>iov\<close> holds the entries written so far and \<open>ins\<close> how many of them are
  buffers for the device to write.
\<close>

function chain_loop :: "nat \<Rightarrow> vring_desc list \<Rightarrow> nat \<Rightarrow> nat \<Rightarrow> (u64 \<times> u32) list \<Rightarrow> nat \<Rightarrow>
    ((u64 \<times> u32) list \<times> nat) result" where
  "chain_loop cap table mx idx iov ins =
     (if cap \<le> length iov then Inl OutOfBounds
      else rbind (aget table idx) (\<lambda>d.
        let iov' = iov @ [(desc_addr d, desc_len d)];
            ins' = (if virt_desc_test_flag d VRING_DESC_F_WRITE then ins + 1 else ins);
            idx' = next_desc d mx
        in if idx' \<noteq> mx then chain_loop cap table mx idx' iov' ins' else Inr (iov', ins')))"
  by pat_completeness auto
termination
  by (relation "measure (\<lambda>(cap, table, mx, idx, iov, ins). cap - length iov)") auto

declare chain_loop.simps [simp del]

text \<open>The result: the buffers, the number \<open>out\<close> of those to read and the number \<open>in\<close> of those to write.\<close>

definition virt_queue_get_head_iov ::
  "(u64 \<Rightarrow> vring_desc list option) \<Rightarrow> nat \<Rightarrow> u16 \<Rightarrow> virt_queue \<Rightarrow> ((u64 \<times> u32) list \<times> nat \<times> nat) result" where
  "virt_queue_get_head_iov tables cap head vq =
     rbind (aget (desc vq) (unat head)) (\<lambda>d.
     rbind (if virt_desc_test_flag d VRING_DESC_F_INDIRECT
            then (case tables (desc_addr d) of
                None \<Rightarrow> Inl NullDeref
              | Some t \<Rightarrow> chain_loop cap t (unat (desc_len d) div 16 mod 65536) 0 [] 0)
            else chain_loop cap (desc vq) (num vq mod 65536) (unat head) [] 0) (\<lambda>(iov, ins).
     Inr (iov, length iov - ins, ins)))"

definition virt_queue_get_iov ::
  "(u64 \<Rightarrow> vring_desc list option) \<Rightarrow> nat \<Rightarrow> virt_queue \<Rightarrow>
   (u16 \<times> ((u64 \<times> u32) list \<times> nat \<times> nat) \<times> virt_queue) result" where
  "virt_queue_get_iov tables cap vq =
     rbind (virt_queue_pop vq) (\<lambda>(head, vq').
     rbind (virt_queue_get_head_iov tables cap head vq') (\<lambda>r. Inr (head, r, vq')))"

text \<open>
  \<^verbatim>\<open>virt_queue__get_inout_iov\<close> fills two arrays, and follows \<^verbatim>\<open>next\<close> without a check.
\<close>

function inout_loop :: "nat \<Rightarrow> nat \<Rightarrow> vring_desc list \<Rightarrow> nat \<Rightarrow> (u64 \<times> u32) list \<Rightarrow> (u64 \<times> u32) list \<Rightarrow>
    ((u64 \<times> u32) list \<times> (u64 \<times> u32) list) result" where
  "inout_loop incap outcap table idx ins outs =
     rbind (aget table idx) (\<lambda>d.
       let buf = (desc_addr d, desc_len d); w = virt_desc_test_flag d VRING_DESC_F_WRITE
       in if (w \<and> incap \<le> length ins) \<or> (\<not> w \<and> outcap \<le> length outs) then Inl OutOfBounds
          else
            let ins' = (if w then ins @ [buf] else ins); outs' = (if w then outs else outs @ [buf])
            in if virt_desc_test_flag d VRING_DESC_F_NEXT
               then inout_loop incap outcap table (unat (desc_next d)) ins' outs'
               else Inr (ins', outs'))"
  by pat_completeness auto
termination
  by (relation "measure (\<lambda>(incap, outcap, table, idx, ins, outs). (incap - length ins) + (outcap - length outs))") auto

declare inout_loop.simps [simp del]

definition virt_queue_get_inout_iov ::
  "nat \<Rightarrow> nat \<Rightarrow> virt_queue \<Rightarrow> (u16 \<times> ((u64 \<times> u32) list \<times> (u64 \<times> u32) list) \<times> virt_queue) result" where
  "virt_queue_get_inout_iov incap outcap vq =
     rbind (virt_queue_pop vq) (\<lambda>(head, vq').
     rbind (inout_loop incap outcap (desc vq') (unat head) [] []) (\<lambda>r. Inr (head, r, vq')))"

section \<open>The used ring\<close>

definition virt_queue_used_idx_advance :: "u16 \<Rightarrow> virt_queue \<Rightarrow> virt_queue" where
  "virt_queue_used_idx_advance jump vq = vq\<lparr>used := (used vq)\<lparr>used_idx := used_idx (used vq) + jump\<rparr>\<rparr>"

definition virt_queue_set_used_elem_no_update :: "u32 \<Rightarrow> u32 \<Rightarrow> u16 \<Rightarrow> virt_queue \<Rightarrow> virt_queue result" where
  "virt_queue_set_used_elem_no_update head len offset vq =
     (let idx = used_idx (used vq) + offset
      in rbind (aset (used_ring (used vq)) (unat idx mod num vq) (head, len)) (\<lambda>r.
         Inr (vq\<lparr>used := (used vq)\<lparr>used_ring := r\<rparr>\<rparr>)))"

definition virt_queue_set_used_elem :: "u32 \<times> u32 \<Rightarrow> virt_queue \<Rightarrow> virt_queue result" where
  "virt_queue_set_used_elem e vq =
     rbind (virt_queue_set_used_elem_no_update (fst e) (snd e) 0 vq) (\<lambda>vq.
     Inr (virt_queue_used_idx_advance 1 vq))"

definition vring_need_event :: "u16 \<Rightarrow> u16 \<Rightarrow> u16 \<Rightarrow> bool" where
  "vring_need_event event_idx new_idx old \<longleftrightarrow> new_idx - event_idx - 1 < new_idx - old"

definition virtio_queue_should_signal :: "virt_queue \<Rightarrow> bool \<times> virt_queue" where
  "virtio_queue_should_signal vq =
     (if \<not> use_event_idx vq then (\<not> flag (avail_flags (avail vq)) VRING_AVAIL_F_NO_INTERRUPT, vq)
      else
        let new_idx = used_idx (used vq)
        in if vring_need_event (used_event (avail vq)) new_idx (last_used_signalled vq)
           then (True, vq\<lparr>last_used_signalled := new_idx\<rparr>)
           else (False, vq))"

section \<open>Layout of a ring\<close>

text \<open>The addresses of the three parts, in the legacy and in the modern description.\<close>

record vring_addr =
  legacy :: bool
  pfn :: u32
  vr_align :: u32
  pgsize :: u32
  desc_lo :: u32
  desc_hi :: u32
  avail_lo :: u32
  avail_hi :: u32
  used_lo :: u32
  used_hi :: u32

definition vring_init :: "nat \<Rightarrow> u64 \<Rightarrow> u64 \<Rightarrow> u64 \<times> u64 \<times> u64" where
  "vring_init n p al =
     (let a = p + of_nat (n * 16) in (p, a, (a + 4 + 2 * of_nat n + 2 + al - 1) AND NOT (al - 1)))"

definition virtio_vq_addresses :: "nat \<Rightarrow> vring_addr \<Rightarrow> u64 \<times> u64 \<times> u64" where
  "virtio_vq_addresses nr_descs a =
     (if legacy a then vring_init nr_descs (ucast (pfn a) * ucast (pgsize a)) (ucast (vr_align a))
      else (push_bit 32 (ucast (desc_hi a)) OR ucast (desc_lo a),
            push_bit 32 (ucast (avail_hi a)) OR ucast (avail_lo a),
            push_bit 32 (ucast (used_hi a)) OR ucast (used_lo a)))"

section \<open>Device status and configuration\<close>

record virtio_device =
  features :: u64
  vstatus :: u32

abbreviation (input) VIRTIO_CONFIG_S_MASK :: u32 where "VIRTIO_CONFIG_S_MASK \<equiv> 0xcf"
abbreviation (input) VIRTIO_CONFIG_S_DRIVER_OK :: u8 where "VIRTIO_CONFIG_S_DRIVER_OK \<equiv> 4"
abbreviation (input) STATUS_START :: u32 where "STATUS_START \<equiv> 0x100"
abbreviation (input) STATUS_STOP :: u32 where "STATUS_STOP \<equiv> 0x200"
abbreviation (input) STATUS_CONFIG :: u32 where "STATUS_CONFIG \<equiv> 0x400"

definition virtio_set_guest_features :: "u64 \<Rightarrow> virtio_device \<Rightarrow> virtio_device" where
  "virtio_set_guest_features fs d = d\<lparr>features := features d OR fs\<rparr>"

text \<open>
  The result: whether the virtqueues are reset, the status that the device is told, the new state.
\<close>

definition virtio_notify_status :: "u8 \<Rightarrow> virtio_device \<Rightarrow> bool \<times> u32 \<times> virtio_device" where
  "virtio_notify_status status d =
     (let ext = ucast status :: u32;
          st = clrf (vstatus d) VIRTIO_CONFIG_S_MASK OR ucast status;
          start = flag status VIRTIO_CONFIG_S_DRIVER_OK \<and> \<not> flag st STATUS_START;
          stop = \<not> start \<and> status = 0 \<and> flag st STATUS_START;
          st' = (if start then st OR STATUS_START else if stop then clrf st STATUS_START else st);
          ext' = (if start then ext OR STATUS_START else if stop then ext OR STATUS_STOP else ext);
          ext'' = (if status = 0 then ext' OR STATUS_CONFIG else ext')
      in (stop, ext'', d\<lparr>vstatus := st'\<rparr>))"

text \<open>
  \<open>data\<close> and \<open>config\<close> are the bytes on both sides; \<open>None\<close> is the return value false.
\<close>

definition virtio_access_config ::
  "u8 list \<Rightarrow> u64 \<Rightarrow> u8 list \<Rightarrow> bool \<Rightarrow> (u8 list \<times> u8 list) option result" where
  "virtio_access_config config offset data is_write =
     (let size = length data
      in if offset + of_nat size > of_nat (length config) then Inr None
         else if size \<notin> {1, 2, 4, 8} then Inr None
         else if is_write
         then rbind (memcpy_to config (unat offset) data) (\<lambda>c. Inr (Some (data, c)))
         else rbind (memcpy_from config (unat offset) size) (\<lambda>d. Inr (Some (d, config))))"

definition virtio_get_dev_specific_field :: "int \<Rightarrow> bool \<Rightarrow> bool \<times> int" where
  "virtio_get_dev_specific_field offset msix =
     (if msix then (if offset < 4 then (True, 0) else (False, offset - 4)) else (False, offset))"

section \<open>Taking requests\<close>

definition queue_ok :: "virt_queue \<Rightarrow> bool" where
  "queue_ok vq \<longleftrightarrow> 0 < num vq \<and> num vq dvd 65536 \<and> length (desc vq) = num vq \<and>
     length (avail_ring (avail vq)) = num vq \<and> length (used_ring (used vq)) = num vq"

text \<open>A free-running 16-bit index, reduced to a ring whose size divides 65536.\<close>

lemma index_mod:
  assumes "n dvd 65536"
  shows "unat (i + of_nat k :: u16) mod n = (unat i + k) mod n"
proof -
  have "unat (i + of_nat k :: u16) = (unat i + k) mod 65536"
    by (simp add: unat_word_ariths unat_of_nat mod_add_right_eq)
  then show ?thesis using assms by (simp add: mod_mod_cancel)
qed

text \<open>
  The loop that every device runs on a notification: pop while requests are available. With
  fuel; \<open>Inr None\<close> says that it ended.
\<close>

fun take_requests :: "nat \<Rightarrow> virt_queue \<Rightarrow> (u16 list \<times> virt_queue) option result" where
  "take_requests 0 vq = Inr None"
| "take_requests (Suc fuel) vq =
     (let (more, vq1) = virt_queue_available vq
      in if \<not> more then Inr (Some ([], vq1))
         else rbind (virt_queue_pop vq1) (\<lambda>(h, vq2).
              rbind (take_requests fuel vq2) (\<lambda>r.
              Inr (map_option (\<lambda>(hs, vq3). (h # hs, vq3)) r))))"

definition pending :: "virt_queue \<Rightarrow> nat" where
  "pending vq = unat (avail_idx (avail vq) - last_avail_idx vq)"

lemma available_fields [simp]:
  "fst (virt_queue_available vq) \<longleftrightarrow> avail_idx (avail vq) \<noteq> last_avail_idx vq"
  "avail (snd (virt_queue_available vq)) = avail vq" "num (snd (virt_queue_available vq)) = num vq"
  "last_avail_idx (snd (virt_queue_available vq)) = last_avail_idx vq"
  "queue_ok (snd (virt_queue_available vq)) = queue_ok vq"
  by (simp_all add: virt_queue_available_def Let_def queue_ok_def)

lemma take_requests_all:
  "queue_ok vq \<Longrightarrow> pending vq < fuel \<Longrightarrow>
   \<exists>vq'. take_requests fuel vq =
       Inr (Some (ring_list (avail_ring (avail vq)) (unat (last_avail_idx vq)) (pending vq), vq')) \<and>
     queue_ok vq' \<and> avail vq' = avail vq \<and> last_avail_idx vq' = avail_idx (avail vq)"
proof (induction fuel arbitrary: vq)
  case (Suc fuel)
  let ?v = "snd (virt_queue_available vq)"
  have split: "virt_queue_available vq = (avail_idx (avail vq) \<noteq> last_avail_idx vq, ?v)"
    by (simp add: virt_queue_available_def Let_def)
  show ?case
  proof (cases "avail_idx (avail vq) = last_avail_idx vq")
    case True
    then show ?thesis
      using Suc.prems by (subst take_requests.simps, subst split) (simp add: pending_def ring_list_def)
  next
    case False
    let ?w = "?v\<lparr>last_avail_idx := last_avail_idx vq + 1\<rparr>"
    have p: "pending vq \<noteq> 0" "pending ?w = pending vq - 1"
    proof -
      show n: "pending vq \<noteq> 0" using False by (simp add: pending_def unat_eq_zero)
      have "avail_idx (avail vq) - (last_avail_idx vq + 1) = avail_idx (avail vq) - last_avail_idx vq - 1"
        by (simp only: diff_diff_add)
      moreover have "unat (avail_idx (avail vq) - last_avail_idx vq - 1) = unat (avail_idx (avail vq) - last_avail_idx vq) - 1"
        using False by (intro unat_minus_one) simp
      moreover have "pending ?w = unat (avail_idx (avail vq) - (last_avail_idx vq + 1))"
        by (simp add: pending_def)
      ultimately show "pending ?w = pending vq - 1" by (simp only: pending_def)
    qed
    have ok: "queue_ok ?w" using Suc.prems(1) by (simp add: queue_ok_def) (simp add: virt_queue_available_def Let_def)
    have lt: "unat (last_avail_idx vq) mod num vq < length (avail_ring (avail vq))"
      using Suc.prems(1) by (simp add: queue_ok_def)
    then have pop: "virt_queue_pop ?v = Inr (avail_ring (avail vq) ! (unat (last_avail_idx vq) mod num vq), ?w)"
      by (simp add: virt_queue_pop_def)
    obtain vq' where ih: "take_requests fuel ?w =
        Inr (Some (ring_list (avail_ring (avail vq)) (unat (last_avail_idx vq + 1)) (pending vq - 1), vq'))"
      "queue_ok vq'" "avail vq' = avail vq" "last_avail_idx vq' = avail_idx (avail vq)"
    proof -
      have "pending ?w < fuel" using p Suc.prems(2) by simp
      from Suc.IH [OF ok this] that p(2) show ?thesis by auto
    qed
    have dvd: "num vq dvd 65536" "length (avail_ring (avail vq)) = num vq"
      using Suc.prems(1) by (simp_all add: queue_ok_def)
    have "unat (last_avail_idx vq + 1) mod num vq = Suc (unat (last_avail_idx vq)) mod num vq"
      using index_mod [OF dvd(1), of "last_avail_idx vq" 1] by simp
    then have eq: "(unat (last_avail_idx vq + 1) + i) mod num vq = (Suc (unat (last_avail_idx vq)) + i) mod num vq" for i
      by (rule mod_add_cong) (rule refl)
    have "ring_list (avail_ring (avail vq)) (unat (last_avail_idx vq + 1)) (pending vq - 1) =
        ring_list (avail_ring (avail vq)) (Suc (unat (last_avail_idx vq))) (pending vq - 1)"
      unfolding ring_list_def dvd(2) eq ..
    moreover have "0 < pending vq" using p(1) by simp
    ultimately have "ring_list (avail_ring (avail vq)) (unat (last_avail_idx vq)) (pending vq) =
        avail_ring (avail vq) ! (unat (last_avail_idx vq) mod num vq) #
        ring_list (avail_ring (avail vq)) (unat (last_avail_idx vq + 1)) (pending vq - 1)"
      using ring_list_get dvd(2) by metis
    with ih pop False show ?thesis
      by (subst take_requests.simps, subst split) simp
  qed
qed simp

section \<open>Chains\<close>

definition buf_of :: "vring_desc \<Rightarrow> u64 \<times> u32" where
  "buf_of d = (desc_addr d, desc_len d)"

definition is_write :: "vring_desc \<Rightarrow> bool" where
  "is_write d = virt_desc_test_flag d VRING_DESC_F_WRITE"

text \<open>\<open>path\<close> is a chain of the table: each descriptor leads to the next one and the last one ends it.\<close>

fun is_chain :: "vring_desc list \<Rightarrow> nat \<Rightarrow> nat list \<Rightarrow> bool" where
  "is_chain table mx [] = False"
| "is_chain table mx [i] = (i < length table \<and> next_desc (table ! i) mx = mx)"
| "is_chain table mx (i # j # path) =
     (i < length table \<and> next_desc (table ! i) mx = j \<and> j \<noteq> mx \<and> is_chain table mx (j # path))"

lemma chain_loop_path:
  "is_chain table mx (idx # path) \<Longrightarrow> length iov + length (idx # path) \<le> cap \<Longrightarrow>
   chain_loop cap table mx idx iov ins =
     Inr (iov @ map (\<lambda>i. buf_of (table ! i)) (idx # path),
          ins + length (filter (\<lambda>i. is_write (table ! i)) (idx # path)))"
proof (induction path arbitrary: idx iov ins)
  case Nil
  then show ?case
    by (subst chain_loop.simps) (simp add: buf_of_def is_write_def)
next
  case (Cons j path)
  then have i: "idx < length table" "next_desc (table ! idx) mx = j" "j \<noteq> mx" "is_chain table mx (j # path)"
    "\<not> cap \<le> length iov"
    by auto
  then have "chain_loop cap table mx idx iov ins =
      chain_loop cap table mx j (iov @ [buf_of (table ! idx)]) (if is_write (table ! idx) then ins + 1 else ins)"
    by (subst chain_loop.simps) (simp add: buf_of_def is_write_def)
  also have "\<dots> = Inr ((iov @ [buf_of (table ! idx)]) @ map (\<lambda>i. buf_of (table ! i)) (j # path),
      (if is_write (table ! idx) then ins + 1 else ins) + length (filter (\<lambda>i. is_write (table ! i)) (j # path)))"
    using Cons.prems(2) by (intro Cons.IH [OF i(4)]) simp
  finally show ?case by simp
qed

text \<open>A chain that never leaves a set of descriptors fills the array of the caller and goes on.\<close>

lemma chain_loop_cycle:
  "idx \<in> S \<Longrightarrow> (\<forall>i\<in>S. i < length table \<and> next_desc (table ! i) mx \<in> S \<and> next_desc (table ! i) mx \<noteq> mx) \<Longrightarrow>
   chain_loop cap table mx idx iov ins = Inl OutOfBounds"
proof (induction cap table mx idx iov ins rule: chain_loop.induct)
  case (1 cap table mx idx iov ins)
  show ?case
  proof (cases "cap \<le> length iov")
    case True
    then show ?thesis by (subst chain_loop.simps) simp
  next
    case False
    have i: "idx < length table" "next_desc (table ! idx) mx \<in> S" "next_desc (table ! idx) mx \<noteq> mx"
      using 1(2,3) by auto
    from 1(1) [OF False refl refl refl i(3) i(2) 1(3)] i False show ?thesis
      by (subst chain_loop.simps) simp
  qed
qed

section \<open>Publishing results\<close>

lemma set_used_ok:
  assumes "queue_ok vq"
  shows "virt_queue_set_used_elem e vq = Inr (vq\<lparr>used := (used vq)\<lparr>
      used_ring := (used_ring (used vq))[unat (used_idx (used vq)) mod num vq := e],
      used_idx := used_idx (used vq) + 1\<rparr>\<rparr>)"
  using assms
  by (simp add: virt_queue_set_used_elem_def virt_queue_set_used_elem_no_update_def virt_queue_used_idx_advance_def
      queue_ok_def)

lemma rfold_used:
  "queue_ok vq \<Longrightarrow> length es \<le> num vq \<Longrightarrow>
   \<exists>vq'. rfold virt_queue_set_used_elem es vq = Inr vq' \<and> queue_ok vq' \<and> num vq' = num vq \<and>
     used_idx (used vq') = used_idx (used vq) + of_nat (length es) \<and>
     ring_list (used_ring (used vq')) (unat (used_idx (used vq))) (length es) = es"
proof (induction es rule: rev_induct)
  case Nil
  then show ?case by (simp add: ring_list_def)
next
  case (snoc e es)
  obtain v where v: "rfold virt_queue_set_used_elem es vq = Inr v" "queue_ok v" "num v = num vq"
    "used_idx (used v) = used_idx (used vq) + of_nat (length es)"
    "ring_list (used_ring (used v)) (unat (used_idx (used vq))) (length es) = es"
    using snoc.IH snoc.prems by auto
  have len: "length (used_ring (used v)) = num vq" "num vq dvd 65536" using v(2,3) by (simp_all add: queue_ok_def)
  have "unat (used_idx (used v)) mod num vq = (unat (used_idx (used vq)) + length es) mod length (used_ring (used v))"
    unfolding v(4) len(1) by (rule index_mod [OF len(2)])
  then have "ring_list ((used_ring (used v))[unat (used_idx (used v)) mod num vq := e])
      (unat (used_idx (used vq))) (Suc (length es)) = es @ [e]"
    using ring_list_put [of "length es" "used_ring (used v)"] v(5) len(1) snoc.prems(2) by simp
  then show ?case
    using v set_used_ok [OF v(2), of e] len by (simp add: rfold_append queue_ok_def)
qed

text \<open>Writing a batch with offsets and advancing the index once, as the network device does.\<close>

definition used_batch :: "(u32 \<times> u32) list \<Rightarrow> virt_queue \<Rightarrow> virt_queue result" where
  "used_batch es vq =
     rbind (rfold (\<lambda>(i, e). virt_queue_set_used_elem_no_update (fst e) (snd e) (of_nat i)) (enumerate 0 es) vq)
       (\<lambda>vq'. Inr (virt_queue_used_idx_advance (of_nat (length es)) vq'))"

lemma set_advance:
  "virt_queue_set_used_elem e (virt_queue_used_idx_advance j vq) =
   rbind (virt_queue_set_used_elem_no_update (fst e) (snd e) j vq) (\<lambda>v. Inr (virt_queue_used_idx_advance (j + 1) v))"
  by (simp add: virt_queue_set_used_elem_def virt_queue_set_used_elem_no_update_def virt_queue_used_idx_advance_def
      aset_def Let_def add.assoc)

lemma batch_eq: "rfold virt_queue_set_used_elem es vq = used_batch es vq"
proof (induction es rule: rev_induct)
  case Nil
  then show ?case by (simp add: used_batch_def virt_queue_used_idx_advance_def)
next
  case (snoc e es)
  then show ?case
    by (simp add: rfold_append used_batch_def rbind_assoc set_advance enumerate_append_eq add.commute [of 1])
qed

section \<open>Interrupt suppression\<close>

lemma need_event_less: "(N - X - 1 < N) = (X < (N :: u16))"
proof (cases "X < N")
  case True
  then have "unat (N - X) = unat N - unat X" "unat X < unat N"
    by (simp_all add: unat_sub word_less_nat_alt less_imp_le)
  moreover have "unat (N - X - 1) = unat (N - X) - 1"
    using True by (intro unat_minus_one) auto
  ultimately show ?thesis using True by (simp add: word_less_nat_alt)
next
  case False
  have bnd: "uint X < 2 ^ 16" "uint N < 2 ^ 16" "0 \<le> uint X" "0 \<le> uint N"
    using uint_bounded [of X] uint_bounded [of N] by simp_all
  have le: "uint N \<le> uint X" using False by (simp add: word_less_def)
  have "uint (N - X - 1) = (uint N - uint X - 1) mod 2 ^ 16"
    by (simp add: uint_word_ariths mod_diff_left_eq)
  also have "\<dots> = (uint N - uint X - 1 + 2 ^ 16) mod 2 ^ 16" by (simp only: mod_add_self2)
  also have "\<dots> = uint N - uint X - 1 + 2 ^ 16" using bnd le by (intro mod_pos_pos_trivial) linarith+
  finally have "uint N \<le> uint (N - X - 1)" using bnd by simp
  with False show ?thesis by (simp add: word_less_def)
qed

lemma need_event_iff:
  "vring_need_event e new old \<longleftrightarrow> (\<exists>k < unat (new - old). old + of_nat k = e)"
proof -
  have "new - e - 1 = (new - old) - (e - old) - 1" by simp
  then have "vring_need_event e new old \<longleftrightarrow> e - old < new - old"
    unfolding vring_need_event_def using need_event_less [of "new - old" "e - old"] by simp
  also have "\<dots> \<longleftrightarrow> (\<exists>k < unat (new - old). old + of_nat k = e)"
  proof
    assume "e - old < new - old"
    then have "unat (e - old) < unat (new - old)" by (simp add: word_less_nat_alt)
    moreover have "old + of_nat (unat (e - old)) = e" by simp
    ultimately show "\<exists>k < unat (new - old). old + of_nat k = e" by blast
  next
    assume "\<exists>k < unat (new - old). old + of_nat k = e"
    then obtain k where k: "k < unat (new - old)" "old + of_nat k = e" by blast
    then have "e - old = of_nat k" by auto
    moreover have "unat (new - old) < 2 ^ 16" using unsigned_less [of "new - old"] by simp
    ultimately have "unat (e - old) = k" using k(1) by (simp add: unat_of_nat)
    with k(1) show "e - old < new - old" by (simp add: word_less_nat_alt)
  qed
  finally show ?thesis .
qed

section \<open>Device status\<close>

text \<open>What the status machine promises: a device is started by DRIVER_OK and stopped by a reset.\<close>

definition started :: "virtio_device \<Rightarrow> bool" where
  "started d = flag (vstatus d) STATUS_START"

definition started_next :: "u8 \<Rightarrow> bool \<Rightarrow> bool" where
  "started_next status st = (if flag status VIRTIO_CONFIG_S_DRIVER_OK then True else if status = 0 then False else st)"

lemma status_start_flag:
  "flag (clrf v VIRTIO_CONFIG_S_MASK OR ucast (s :: u8)) STATUS_START \<longleftrightarrow> flag (v :: u32) STATUS_START"
proof -
  have "\<not> flag (ucast s :: u32) (push_bit 8 1)"
    using bit_imp_le_length [of s 8] by (auto simp: flag_push_bit bit_ucast_iff simp del: push_bit_of_1)
  then have "\<not> flag (ucast s :: u32) STATUS_START" by simp
  moreover have "flag (clrf v VIRTIO_CONFIG_S_MASK) STATUS_START \<longleftrightarrow> flag v STATUS_START"
    by (rule flag_clrf_keep) simp
  ultimately show ?thesis by (simp add: flag_or)
qed

lemma notify_status_refines:
  assumes "virtio_notify_status status d = (reset, ext, d')"
  shows "started d' = started_next status (started d)"
    and "reset \<longleftrightarrow> started d \<and> status = 0"
    and "flag ext STATUS_START \<longleftrightarrow> started d' \<and> \<not> started d"
    and "flag ext STATUS_STOP \<longleftrightarrow> reset"
proof -
  let ?st = "clrf (vstatus d) VIRTIO_CONFIG_S_MASK OR ucast status"
  have f: "flag ?st STATUS_START \<longleftrightarrow> started d" using status_start_flag by (simp add: started_def)
  have bits: "\<not> flag (ucast status :: u32) (push_bit 8 1)" "\<not> flag (ucast status :: u32) (push_bit 9 1)"
    using bit_imp_le_length [of status 8] bit_imp_le_length [of status 9]
    by (auto simp: flag_push_bit bit_ucast_iff simp del: push_bit_of_1)
  then have e: "\<not> flag (ucast status :: u32) STATUS_START" "\<not> flag (ucast status :: u32) STATUS_STOP" by simp_all
  have gone: "\<not> flag (clrf ?st STATUS_START) STATUS_START" by (rule flag_clrf_gone) simp
  show "started d' = started_next status (started d)"
    "reset \<longleftrightarrow> started d \<and> status = 0" "flag ext STATUS_START \<longleftrightarrow> started d' \<and> \<not> started d"
    "flag ext STATUS_STOP \<longleftrightarrow> reset"
    using assms f e gone unfolding virtio_notify_status_def Let_def
    by (auto simp: started_def started_next_def flag_or split: if_splits)
qed

section \<open>Properties\<close>

text \<open>
  C21. When the guest has published \<open>pending\<close> requests since the device last looked, the loop of a
  device over \<^verbatim>\<open>virt_queue__available\<close> and \<^verbatim>\<open>virt_queue__pop\<close> ends after exactly these, in the order
  they were published, also when the 16-bit indices wrap around, and leaves nothing available;
  the ring size is a power of two, as any divisor of 65536.
\<close>

theorem virtq_requests_in_order:
  assumes "queue_ok vq" and "pending vq < fuel"
  shows "\<exists>vq'. take_requests fuel vq =
      Inr (Some (ring_list (avail_ring (avail vq)) (unat (last_avail_idx vq)) (pending vq), vq')) \<and>
    pending vq' = 0 \<and> \<not> fst (virt_queue_available vq')"
  using take_requests_all [OF assms] by (auto simp: pending_def)

definition sample_queue :: virt_queue where
  "sample_queue = \<lparr> num = 4,
     desc = [\<lparr> desc_addr = 0x1000, desc_len = 16, desc_flags = 1, desc_next = 2 \<rparr>,
             \<lparr> desc_addr = 0x2000, desc_len = 8, desc_flags = 1, desc_next = 1 \<rparr>,
             \<lparr> desc_addr = 0x3000, desc_len = 512, desc_flags = 2, desc_next = 0 \<rparr>,
             \<lparr> desc_addr = 0, desc_len = 0, desc_flags = 0, desc_next = 0 \<rparr>],
     avail = \<lparr> avail_flags = 0, avail_idx = 1, avail_ring = [0, 1, 2, 3], used_event = 0xffff \<rparr>,
     used = \<lparr> used_flags = 0, used_idx = 0xffff, used_ring = [(0, 0), (0, 0), (0, 0), (0, 0)], avail_event = 0 \<rparr>,
     last_avail_idx = 0xffff, last_used_signalled = 0xfffe, use_event_idx = True \<rparr>"

lemma sample_queue_ok: "queue_ok sample_queue"
  by (simp add: queue_ok_def sample_queue_def)

lemma upt_two: "[0..<2] = [0, Suc 0]"
  by (simp add: upt_rec)

lemma sample_queue_pending: "pending sample_queue = 2"
  by (simp add: pending_def sample_queue_def)

lemma sample_queue_ring: "ring_list (avail_ring (avail sample_queue)) (unat (last_avail_idx sample_queue)) 2 = [3, 0]"
  by (simp add: sample_queue_def ring_list_def upt_two)

theorem virtq_requests_in_order_witness:
  "\<exists>vq'. take_requests 3 sample_queue = Inr (Some ([3, 0], vq')) \<and> \<not> fst (virt_queue_available vq')"
  using virtq_requests_in_order [OF sample_queue_ok, of 3]
  unfolding sample_queue_pending sample_queue_ring by auto



text \<open>
  C22. Up to a ring full of results published one by one are found by the guest in order at the
  positions after the old index, the index grows by their number modulo 65536, and nothing is
  written outside the ring; writing them as a batch with offsets and advancing the index once
  gives the same ring.
\<close>

theorem virtq_results_published:
  assumes "queue_ok vq" and "length es \<le> num vq"
  shows "\<exists>vq'. rfold virt_queue_set_used_elem es vq = Inr vq' \<and> used_batch es vq = Inr vq' \<and> queue_ok vq' \<and>
     used_idx (used vq') = used_idx (used vq) + of_nat (length es) \<and>
     ring_list (used_ring (used vq')) (unat (used_idx (used vq))) (length es) = es"
  using rfold_used [OF assms] batch_eq [of es vq] by auto

theorem virtq_results_published_witness:
  "\<exists>vq'. used_batch [(0, 512), (1, 1)] sample_queue = Inr vq' \<and> used_idx (used vq') = 1 \<and>
     used_ring (used vq') ! 3 = (0, 512) \<and> used_ring (used vq') ! 0 = (1, 1)"
  using virtq_results_published [OF sample_queue_ok, of "[(0, 512), (1, 1)]"]
  by (auto simp: sample_queue_def ring_list_def upt_two queue_ok_def used_batch_def
      virt_queue_set_used_elem_no_update_def virt_queue_used_idx_advance_def)

text \<open>
  With event indices the device signals exactly when the used index that the guest asked for
  is one of those published since the last signal, also across the wrap-around of the 16-bit
  indices, and then starts a new interval; without them, unless the guest asked not to be interrupted.
\<close>

theorem virtq_signals_when_asked:
  "virtio_queue_should_signal vq =
     (let want = (if use_event_idx vq
                  then \<exists>k < unat (used_idx (used vq) - last_used_signalled vq).
                         last_used_signalled vq + of_nat k = used_event (avail vq)
                  else \<not> flag (avail_flags (avail vq)) VRING_AVAIL_F_NO_INTERRUPT)
      in (want, if use_event_idx vq \<and> want then vq\<lparr>last_used_signalled := used_idx (used vq)\<rparr> else vq))"
  by (auto simp: virtio_queue_should_signal_def Let_def need_event_iff)

text \<open>
  C23. The status register implements the machine \<open>started_next\<close>: a device is started when the
  driver sets DRIVER_OK and stopped when it writes 0; the device is told of a start exactly when
  it was stopped, of a stop exactly when it was started, and the virtqueues are reset exactly then.
\<close>

theorem virtio_status_refines_machine:
  assumes "virtio_notify_status status d = (reset, ext, d')"
  shows "started d' = started_next status (started d) \<and> (reset \<longleftrightarrow> started d \<and> status = 0) \<and>
    (flag ext STATUS_START \<longleftrightarrow> started d' \<and> \<not> started d) \<and> (flag ext STATUS_STOP \<longleftrightarrow> reset)"
  using notify_status_refines [OF assms] by blast

theorem virtio_status_refines_machine_witness:
  "started (snd (snd (virtio_notify_status 7 \<lparr> features = 0, vstatus = 3 \<rparr>)))"
  using virtio_status_refines_machine [of 7 "\<lparr> features = 0, vstatus = 3 \<rparr>"
      "fst (virtio_notify_status 7 \<lparr> features = 0, vstatus = 3 \<rparr>)"
      "fst (snd (virtio_notify_status 7 \<lparr> features = 0, vstatus = 3 \<rparr>))"
      "snd (snd (virtio_notify_status 7 \<lparr> features = 0, vstatus = 3 \<rparr>))"]
  by (simp add: started_next_def)

text \<open>
  A configuration access of 1, 2, 4 or 8 bytes inside the configuration of the device is done,
  and a read after a write gives the bytes written and leaves the others; any other access
  whose end does not wrap around is refused without touching memory.
\<close>

theorem virtio_config_roundtrip:
  assumes "unat offset + length data < 2 ^ 64" and "length config < 2 ^ 64"
  shows "if unat offset + length data \<le> length config \<and> length data \<in> {1, 2, 4, 8}
    then (\<exists>c. virtio_access_config config offset data True = Inr (Some (data, c)) \<and>
           c = blit config (unat offset) data \<and>
           virtio_access_config c offset (replicate (length data) 0) False = Inr (Some (data, c)))
    else virtio_access_config config offset data wr = Inr None"
proof -
  have "unat (offset + of_nat (length data)) = unat offset + length data"
    using assms(1) by (simp add: unat_word_ariths unat_of_nat)
  then have gt: "offset + of_nat (length data) > of_nat (length config) \<longleftrightarrow> length config < unat offset + length data"
    using assms(2) by (simp add: word_less_nat_alt unat_of_nat)
  show ?thesis
  proof (cases "unat offset + length data \<le> length config \<and> length data \<in> {1, 2, 4, 8}")
    case True
    then have fit: "unat offset + length data \<le> length config" by simp
    then have "length (blit config (unat offset) data) = length config" by simp
    with True gt fit take_drop_blit [OF fit] show ?thesis
      by (auto simp: virtio_access_config_def Let_def memcpy_to_def memcpy_from_def)
  next
    case False
    with gt show ?thesis by (auto simp: virtio_access_config_def Let_def)
  qed
qed

lemma replicate_two: "replicate 2 x = [x, x]"
  by (simp add: numeral_2_eq_2)

theorem virtio_config_roundtrip_witness:
  "\<exists>c. virtio_access_config [1, 2, 3, 4] 2 [9, 8] True = Inr (Some ([9, 8], c)) \<and>
     virtio_access_config c 2 [0, 0] False = Inr (Some ([9, 8], c))"
  using virtio_config_roundtrip [of 2 "[9, 8]" "[1, 2, 3, 4]" True] replicate_two by auto

end
