(* ===== verification/Blk.thy ===== *)
theory Blk
  imports Disk Virtq
begin

text \<open>
  The block device, \<^verbatim>\<open>virtio/blk.c\<close>: requests are taken from the virtqueue, decoded, passed to the disk
  image and completed. A request is an array of 256 buffers for each head of a descriptor
  chain; what earlier requests left behind the entries of the current one stays in the array.
  Guest memory starts at address 0 and holds the buffers; the rings are the record of the
  theory \<open>Virtq\<close>, apart from the buffers. Numbers are little-endian.
\<close>

abbreviation (input) VIRTIO_BLK_QUEUE_SIZE :: nat where "VIRTIO_BLK_QUEUE_SIZE \<equiv> 256"
abbreviation (input) VIRTIO_BLK_S_OK :: u8 where "VIRTIO_BLK_S_OK \<equiv> 0"
abbreviation (input) VIRTIO_BLK_S_IOERR :: u8 where "VIRTIO_BLK_S_IOERR \<equiv> 1"
abbreviation (input) VIRTIO_BLK_T_IN :: u32 where "VIRTIO_BLK_T_IN \<equiv> 0"
abbreviation (input) VIRTIO_BLK_T_OUT :: u32 where "VIRTIO_BLK_T_OUT \<equiv> 1"
abbreviation (input) VIRTIO_BLK_T_FLUSH :: u32 where "VIRTIO_BLK_T_FLUSH \<equiv> 4"
abbreviation (input) VIRTIO_BLK_T_GET_ID :: u32 where "VIRTIO_BLK_T_GET_ID \<equiv> 8"
abbreviation (input) VIRTIO_BLK_ID_BYTES :: nat where "VIRTIO_BLK_ID_BYTES \<equiv> 20"

text \<open>\<open>signals\<close> counts the calls of \<^verbatim>\<open>signal_vq\<close>.\<close>

record blk_dev =
  vq :: virt_queue
  disk :: disk_image
  reqs :: "iovec list list"
  mem :: memory
  signals :: nat

record blk_req =
  req_iov :: "iovec list"
  req_out :: nat
  req_in :: nat
  req_head :: u16

section \<open>Completion\<close>

definition virtio_blk_complete :: "u16 \<Rightarrow> nat \<Rightarrow> int \<Rightarrow> blk_dev \<Rightarrow> blk_dev result" where
  "virtio_blk_complete head status len b =
     rbind (aset (mem b) status (if len < 0 then VIRTIO_BLK_S_IOERR else VIRTIO_BLK_S_OK)) (\<lambda>m.
     rbind (virt_queue_set_used_elem (ucast head, of_int len) (vq b)) (\<lambda>q.
       case virtio_queue_should_signal q of
         (sig, q') \<Rightarrow> Inr (b\<lparr>mem := m, vq := q', signals := signals b + (if sig then 1 else 0)\<rparr>)))"

section \<open>A request\<close>

text \<open>The last entry with bytes in it, from the end of the array.\<close>

definition last_nonempty :: "iovec list \<Rightarrow> nat \<Rightarrow> nat result" where
  "last_nonempty iov n =
     (case find (\<lambda>i. iov_len (iov ! i) \<noteq> 0) (rev [0..<n]) of None \<Rightarrow> Inl OutOfBounds | Some i \<Rightarrow> Inr i)"

text \<open>
  The entries that the header used up are left empty in front of the array \<open>iov\<close> that the code
  goes on with. The value: these entries, \<open>iov\<close>, and unless the request is malformed the
  bytes of the header, the count of the buffers and the address of the status byte.
\<close>

definition blk_parse :: "blk_req \<Rightarrow> memory \<Rightarrow> (iovec list \<times> iovec list \<times> (u8 list \<times> nat \<times> nat) option) result" where
  "blk_parse r m =
     rbind (memcpy_fromiovec_safe (take (req_out r) (req_iov r)) 16 m) (\<lambda>(hdr, missing, rest).
       let spent = map (\<lambda>v. iov_advance (iov_len v) v) (take (req_out r - length rest) (req_iov r));
           iov = rest @ drop (req_out r) (req_iov r);
           n = length rest + req_in r
       in if missing \<noteq> 0 then Inr (spent, iov, None)
          else rbind (iov_size iov n) (\<lambda>size.
            if size = 0 then Inr (spent, iov, None)
            else rbind (last_nonempty iov n) (\<lambda>i.
              let v = iov ! i; v' = v\<lparr>iov_len := iov_len v - 1\<rparr> in
              Inr (spent, iov[i := v'], Some (hdr, if iov_len v' = 0 then n - 1 else n, iov_base v + iov_len v')))))"

definition blk_finish :: "u16 \<Rightarrow> nat \<Rightarrow> (int option \<times> memory \<times> disk_image) result option \<Rightarrow> blk_dev \<Rightarrow> blk_dev result option" where
  "blk_finish head status res b =
     (case res of
        None \<Rightarrow> None
      | Some (Inl e) \<Rightarrow> Some (Inl e)
      | Some (Inr (cb, m, d)) \<Rightarrow>
          (let b' = b\<lparr>mem := m, disk := d\<rparr> in
           Some (case cb of None \<Rightarrow> Inr b' | Some len \<Rightarrow> virtio_blk_complete head status len b')))"

text \<open>\<open>None\<close> is a request whose I/O never ends; \<open>digits\<close> is the serial number of the disk as text.\<close>

definition virtio_blk_do_io_request :: "zlib \<Rightarrow> u8 list \<Rightarrow> blk_req \<Rightarrow> blk_dev \<Rightarrow> blk_dev result option" where
  "virtio_blk_do_io_request inflate digits r b =
     (case blk_parse r (mem b) of
        Inl e \<Rightarrow> Some (Inl e)
      | Inr (spent, iov, p) \<Rightarrow>
         (let head = req_head r; keep = (\<lambda>iov. b\<lparr>reqs := (reqs b)[unat head := spent @ iov]\<rparr>) in
          case p of
            None \<Rightarrow> Some (Inr (keep iov))
          | Some (hdr, n, status) \<Rightarrow>
             (let type = le_word (take 4 hdr) :: u32; sector = le_word (take 8 (drop 8 hdr)) :: u64 in
              if type = VIRTIO_BLK_T_IN then
                blk_finish head status (disk_image_read inflate sector iov n (mem b) (disk b)) (keep iov)
              else if type = VIRTIO_BLK_T_OUT then
                blk_finish head status (disk_image_write sector iov n (mem b) (disk b)) (keep iov)
              else if type = VIRTIO_BLK_T_FLUSH then
                (case disk_image_flush (disk b) of (len, d) \<Rightarrow>
                   Some (virtio_blk_complete head status len ((keep iov)\<lparr>disk := d\<rparr>)))
              else if type = VIRTIO_BLK_T_GET_ID then
                Some (rbind (disk_image_get_serial digits iov n VIRTIO_BLK_ID_BYTES (mem b)) (\<lambda>(len, iov', m).
                  virtio_blk_complete head status len ((keep iov')\<lparr>mem := m\<rparr>)))
              else Some (Inr (keep iov)))))"

section \<open>The queue\<close>

definition to_iovec :: "u64 \<times> u32 \<Rightarrow> iovec" where
  "to_iovec a = \<lparr> iov_base = unat (fst a), iov_len = unat (snd a) \<rparr>"

definition blk_take :: "(u64 \<Rightarrow> vring_desc list option) \<Rightarrow> blk_dev \<Rightarrow> (blk_req \<times> blk_dev) result" where
  "blk_take tables b =
     rbind (virt_queue_pop (vq b)) (\<lambda>(head, q).
     rbind (aget (reqs b) (unat head)) (\<lambda>old.
     rbind (virt_queue_get_head_iov tables VIRTIO_BLK_QUEUE_SIZE head q) (\<lambda>(iov, out, ins).
       let arr = map to_iovec iov @ drop (length iov) old in
       Inr (\<lparr> req_iov = arr, req_out = out, req_in = ins, req_head = head \<rparr>,
            b\<lparr>vq := q, reqs := (reqs b)[unat head := arr]\<rparr>))))"

text \<open>The loop over the available requests, with fuel for their number.\<close>

fun virtio_blk_do_io :: "nat \<Rightarrow> zlib \<Rightarrow> u8 list \<Rightarrow> (u64 \<Rightarrow> vring_desc list option) \<Rightarrow> blk_dev \<Rightarrow> blk_dev result option" where
  "virtio_blk_do_io 0 inflate digits tables b = None"
| "virtio_blk_do_io (Suc fuel) inflate digits tables b =
     (case virt_queue_available (vq b) of
        (False, q) \<Rightarrow> Some (Inr (b\<lparr>vq := q\<rparr>))
      | (True, q) \<Rightarrow>
         (case blk_take tables (b\<lparr>vq := q\<rparr>) of
            Inl e \<Rightarrow> Some (Inl e)
          | Inr (r, b1) \<Rightarrow>
             (case virtio_blk_do_io_request inflate digits r b1 of
                None \<Rightarrow> None
              | Some (Inl e) \<Rightarrow> Some (Inl e)
              | Some (Inr b2) \<Rightarrow> virtio_blk_do_io fuel inflate digits tables b2)))"

section \<open>What the device offers\<close>

definition get_host_features :: "disk_image \<Rightarrow> u64" where
  "get_host_features d =
     push_bit 2 1 OR push_bit 9 1 OR push_bit 29 1 OR push_bit 28 1 OR push_bit 27 1 OR (if readonly d then push_bit 5 1 else 0)"

definition blk_capacity :: "disk_image \<Rightarrow> u64" where
  "blk_capacity d = disk_size d div 512"

section \<open>Lemmas\<close>

definition publishes :: "virt_queue \<Rightarrow> u32 \<times> u32 \<Rightarrow> virt_queue \<Rightarrow> bool" where
  "publishes q e q' \<longleftrightarrow> used_idx (used q') = used_idx (used q) + 1 \<and> queue_ok q' \<and>
     used_ring (used q') = (used_ring (used q))[unat (used_idx (used q)) mod num q := e]"

lemma should_signal_fields:
  "virtio_queue_should_signal q = (sig, q') \<Longrightarrow> used q' = used q \<and> queue_ok q' = queue_ok q"
  by (auto simp: virtio_queue_should_signal_def Let_def queue_ok_def split: if_splits)

lemma complete_ok:
  assumes "queue_ok (vq b)" and "status < length (mem b)"
  shows "\<exists>b'. virtio_blk_complete head status len b = Inr b' \<and> disk b' = disk b \<and> reqs b' = reqs b \<and>
    mem b' = (mem b)[status := if len < 0 then 1 else 0] \<and> publishes (vq b) (ucast head, of_int len) (vq b')"
proof -
  let ?q = "(vq b)\<lparr>used := (used (vq b))\<lparr>used_ring := (used_ring (used (vq b)))[unat (used_idx (used (vq b))) mod num (vq b) := (ucast head, of_int len)],
      used_idx := used_idx (used (vq b)) + 1\<rparr>\<rparr>"
  obtain sig q' where s: "virtio_queue_should_signal ?q = (sig, q')" by fastforce
  have "used q' = used ?q" "queue_ok q' = queue_ok ?q" using should_signal_fields [OF s] by auto
  then have "publishes (vq b) (ucast head, of_int len) q'"
    using assms(1) by (simp add: publishes_def queue_ok_def)
  then show ?thesis
    using s assms(2) by (simp add: virtio_blk_complete_def set_used_ok [OF assms(1)] aset_def)
qed

text \<open>A request as a driver lays it out: header, data, status; behind it what earlier requests left.\<close>

definition laid_out :: "blk_req \<Rightarrow> bool \<Rightarrow> iovec \<Rightarrow> iovec list \<Rightarrow> iovec \<Rightarrow> iovec list \<Rightarrow> nat \<Rightarrow> bool" where
  "laid_out r wr hdr data st tail n \<longleftrightarrow> req_iov r = hdr # data @ st # tail \<and>
     (if wr then req_out r = length data + 1 \<and> req_in r = 1 else req_out r = 1 \<and> req_in r = length data + 1) \<and>
     iov_len hdr = 16 \<and> iov_len st = 1 \<and> iov_ok n (hdr # st # data) \<and> iov_total data < 2 ^ 62 \<and>
     (\<exists>v \<in> set tail. 0 < iov_len v)"

lemma fromiovec_safe_0: "memcpy_fromiovec_safe iov 0 m = Inr ([], 0, iov)"
  by (cases iov) simp_all

lemma last_nonempty_end: "iov_len st \<noteq> 0 \<Longrightarrow> last_nonempty (data @ st # tail) (Suc (length data)) = Inr (length data)"
  by (simp add: last_nonempty_def)

lemma parse_ok:
  assumes "laid_out r wr hdr data st tail (length m)"
  shows "blk_parse r m = Inr ([iov_advance 16 hdr], data @ st\<lparr>iov_len := 0\<rparr> # tail, Some (buf m hdr, length data, iov_base st))"
proof -
  have l: "iov_len hdr = 16" "iov_len st = 1" "inside (length m) hdr" "req_iov r = hdr # data @ st # tail" "iov_total data < 2 ^ 62"
    using assms by (auto simp: laid_out_def)
  define outs where "outs = (if wr then data else [])"
  have o': "take (req_out r) (req_iov r) = hdr # outs" "outs @ drop (req_out r) (req_iov r) = data @ st # tail"
    "length outs + req_in r = Suc (length data)" "req_out r - length outs = 1"
    using assms l(4) by (auto simp: laid_out_def outs_def)
  have safe: "memcpy_fromiovec_safe (hdr # outs) 16 m = Inr (buf m hdr, 0, outs)"
    using l by (simp add: memcpy_from_def inside_def iov_advance_def fromiovec_safe_0 buf_def)
  have "sum_list (map iov_len (take (Suc (length data)) (data @ st # tail))) = iov_total data + 1"
    using l(2) by (simp add: iov_total_def)
  then have size: "iov_size (data @ st # tail) (Suc (length data)) = Inr (iov_total data + 1)"
    using l(5) by (simp add: iov_size_def)
  show ?thesis
    unfolding blk_parse_def o'(1) safe using o'(2-4) size last_nonempty_end [of st data tail] l(2,4)
    by (simp add: Let_def l(1))
qed

lemma push_sector: "512 * unat (s :: u64) < 2 ^ 64 \<Longrightarrow> unat (push_bit 9 s) = 512 * unat s"
  by (simp add: push_bit_eq_mult unat_word_ariths mult.commute)

text \<open>Raw images and block devices read and write the file of the host.\<close>

lemma raw_read_ok:
  assumes "ops d \<in> {raw_image_regular_ops, blk_dev_ops}" and "Failed \<notin> set (incidents (fd d))" and "iov_ok (length m) data"
    and "\<exists>v \<in> set rest. 0 < iov_len v" and "512 * unat sector + iov_total data \<le> length (content (fd d))"
    and "length (content (fd d)) < 2 ^ 63"
  shows "\<exists>is. disk_image_read inflate sector (data @ rest) (length data) m d =
    Some (Inr (Some (int (iov_total data)), scatter data (take (iov_total data) (drop (512 * unat sector) (content (fd d)))) m,
      d\<lparr>fd := (fd d)\<lparr>incidents := is\<rparr>\<rparr>)) "
proof -
  have off: "unat (push_bit 9 sector) = 512 * unat sector" using assms(5,6) by (intro push_sector) simp
  obtain js where "preadv_in_full (data @ rest) (length data) (512 * unat sector) m (fd d) =
      Some (Inr (Some (iov_total data), scatter data (take (iov_total data) (drop (512 * unat sector) (content (fd d)))) m, (fd d)\<lparr>incidents := js\<rparr>))"
    using preadv_loop_ok [OF assms(2,3,4,5), of 0] assms(5,6) by (auto simp: preadv_in_full_def get_iov_size_all off_ok_def)
  then show ?thesis
    using assms(1) off by (auto simp: disk_image_read_def raw_image_read_sync_def int_of_ret_def)
qed

lemma raw_write_ok:
  assumes "ops d \<in> {raw_image_regular_ops, blk_dev_ops}" and "Failed \<notin> set (incidents (fd d))" and "iov_ok (length m) data"
    and "\<exists>v \<in> set rest. 0 < iov_len v" and "512 * unat sector + iov_total data < 2 ^ 63"
  shows "\<exists>is. disk_image_write sector (data @ rest) (length data) m d =
    Some (Inr (Some (int (iov_total data)), m,
      d\<lparr>fd := (fd d)\<lparr>incidents := is, content := write_at (512 * unat sector) (gather m data) (content (fd d))\<rparr>\<rparr>)) \<and> Failed \<notin> set is"
proof -
  have off: "unat (push_bit 9 sector) = 512 * unat sector" using assms(5) by (intro push_sector) simp
  have "off_ok (512 * unat sector) (iov_total data)" using assms(5) by (simp add: off_ok_def)
  from pwritev_loop_ok [OF assms(2,3,4) this, of 0] obtain js where
    "pwritev_in_full (data @ rest) (length data) (512 * unat sector) m (fd d) =
      Some (Inr (Some (iov_total data), (fd d)\<lparr>incidents := js, content := write_at (512 * unat sector) (gather m data) (content (fd d))\<rparr>))"
    "Failed \<notin> set js"
    by (auto simp: pwritev_in_full_def get_iov_size_all)
  then show ?thesis
    using assms(1) off by (auto simp: disk_image_write_def raw_image_write_sync_def int_of_ret_def)
qed

definition hdr_type :: "memory \<Rightarrow> iovec \<Rightarrow> u32" where
  "hdr_type m hdr = le_word (take 4 (buf m hdr))"

definition hdr_sector :: "memory \<Rightarrow> iovec \<Rightarrow> u64" where
  "hdr_sector m hdr = le_word (take 8 (drop 8 (buf m hdr)))"

lemma blk_write_request:
  assumes "laid_out r True hdr data st tail (length (mem b))" and "hdr_type (mem b) hdr = VIRTIO_BLK_T_OUT"
    and "hdr_sector (mem b) hdr = sector" and "queue_ok (vq b)"
    and "ops (disk b) \<in> {raw_image_regular_ops, blk_dev_ops}" and "Failed \<notin> set (incidents (fd (disk b)))"
    and "512 * unat sector + iov_total data < 2 ^ 63"
  shows "\<exists>b'. virtio_blk_do_io_request inflate digits r b = Some (Inr b') \<and> mem b' = (mem b)[iov_base st := 0] \<and>
    ops (disk b') = ops (disk b) \<and> Failed \<notin> set (incidents (fd (disk b'))) \<and>
    content (fd (disk b')) = write_at (512 * unat sector) (gather (mem b) data) (content (fd (disk b))) \<and>
    publishes (vq b) (ucast (req_head r), of_nat (iov_total data)) (vq b')"
proof -
  have st: "iov_base st < length (mem b)" and ok: "iov_ok (length (mem b)) data"
    using assms(1) by (auto simp: laid_out_def inside_def)
  have rest: "\<exists>v \<in> set (st\<lparr>iov_len := 0\<rparr> # tail). 0 < iov_len v" using assms(1) by (auto simp: laid_out_def)
  obtain js where w: "disk_image_write sector (data @ st\<lparr>iov_len := 0\<rparr> # tail) (length data) (mem b) (disk b) =
      Some (Inr (Some (int (iov_total data)), mem b, (disk b)\<lparr>fd := (fd (disk b))\<lparr>incidents := js,
        content := write_at (512 * unat sector) (gather (mem b) data) (content (fd (disk b)))\<rparr>\<rparr>))" "Failed \<notin> set js"
    using raw_write_ok [OF assms(5,6) ok rest assms(7)] by blast
  let ?b = "b\<lparr>reqs := (reqs b)[unat (req_head r) := [iov_advance 16 hdr] @ data @ st\<lparr>iov_len := 0\<rparr> # tail],
      mem := mem b, disk := (disk b)\<lparr>fd := (fd (disk b))\<lparr>incidents := js,
        content := write_at (512 * unat sector) (gather (mem b) data) (content (fd (disk b)))\<rparr>\<rparr>\<rparr>"
  obtain b' where "virtio_blk_complete (req_head r) (iov_base st) (int (iov_total data)) ?b = Inr b'" "disk b' = disk ?b"
    "mem b' = (mem b)[iov_base st := 0]" "publishes (vq b) (ucast (req_head r), of_nat (iov_total data)) (vq b')"
    using complete_ok [of ?b "iov_base st" "req_head r" "int (iov_total data)"] assms(4) st by auto
  then show ?thesis
    using w assms(2,3) by (simp add: virtio_blk_do_io_request_def hdr_type_def hdr_sector_def parse_ok [OF assms(1)] blk_finish_def)
qed

lemma blk_read_request:
  assumes "laid_out r False hdr data st tail (length (mem b))" and "hdr_type (mem b) hdr = VIRTIO_BLK_T_IN"
    and "hdr_sector (mem b) hdr = sector" and "queue_ok (vq b)"
    and "ops (disk b) \<in> {raw_image_regular_ops, blk_dev_ops}" and "Failed \<notin> set (incidents (fd (disk b)))"
    and "512 * unat sector + iov_total data \<le> length (content (fd (disk b)))" and "length (content (fd (disk b))) < 2 ^ 63"
  shows "\<exists>b'. virtio_blk_do_io_request inflate digits r b = Some (Inr b') \<and> mem b' ! iov_base st = 0 \<and>
    gather (mem b') data = take (iov_total data) (drop (512 * unat sector) (content (fd (disk b)))) \<and>
    content (fd (disk b')) = content (fd (disk b)) \<and>
    publishes (vq b) (ucast (req_head r), of_nat (iov_total data)) (vq b')"
proof -
  let ?bs = "take (iov_total data) (drop (512 * unat sector) (content (fd (disk b))))"
  let ?m = "scatter data ?bs (mem b)"
  have st: "iov_base st < length (mem b)" and ok: "iov_ok (length (mem b)) data"
    and ap: "\<forall>w \<in> set data. apart st w \<and> inside (length (mem b)) w" "inside (length (mem b)) st" "iov_len st = 1"
    using assms(1) by (auto simp: laid_out_def inside_def iov_ok_def)
  have m: "length ?m = length (mem b)" using ok by simp
  have rest: "\<exists>v \<in> set (st\<lparr>iov_len := 0\<rparr> # tail). 0 < iov_len v" using assms(1) by (auto simp: laid_out_def)
  obtain js where w: "disk_image_read inflate sector (data @ st\<lparr>iov_len := 0\<rparr> # tail) (length data) (mem b) (disk b) =
      Some (Inr (Some (int (iov_total data)), ?m, (disk b)\<lparr>fd := (fd (disk b))\<lparr>incidents := js\<rparr>\<rparr>))"
    using raw_read_ok [OF assms(5,6) ok rest assms(7,8)] by blast
  let ?b = "b\<lparr>reqs := (reqs b)[unat (req_head r) := [iov_advance 16 hdr] @ data @ st\<lparr>iov_len := 0\<rparr> # tail],
      mem := ?m, disk := (disk b)\<lparr>fd := (fd (disk b))\<lparr>incidents := js\<rparr>\<rparr>\<rparr>"
  obtain b' where b': "virtio_blk_complete (req_head r) (iov_base st) (int (iov_total data)) ?b = Inr b'" "disk b' = disk ?b"
    "mem b' = ?m[iov_base st := 0]" "publishes (vq b) (ucast (req_head r), of_nat (iov_total data)) (vq b')"
    using complete_ok [of ?b "iov_base st" "req_head r" "int (iov_total data)"] assms(4) st m by auto
  have "length ?bs = iov_total data" using assms(7) by simp
  then have "gather ?m data = ?bs" using gather_scatter [OF ok, of ?bs] length_gather [OF ok] by simp
  moreover have "gather (blit ?m (iov_base st) [0]) data = gather ?m data"
    using ap m by (intro gather_blit_apart) auto
  moreover have "?m[iov_base st := 0] = blit ?m (iov_base st) [0]"
    using st m by (simp add: blit_def upd_conv_take_nth_drop)
  ultimately have g: "gather (mem b') data = ?bs" using b'(3) by metis
  have s: "mem b' ! iov_base st = 0" using b'(3) st m by simp
  show ?thesis
    using w b'(1,2,4) g s assms(2,3)
    by (simp add: virtio_blk_do_io_request_def hdr_type_def hdr_sector_def parse_ok [OF assms(1)] blk_finish_def)
qed

lemma restart_failed: "incidents f = Failed # is \<Longrightarrow> \<exists>f'. restart ok n op f = (Err, f')"
  by (cases ok) (auto simp: restart_refused restart.simps [of True] syscall_def)

lemma raw_read_failed:
  assumes "incidents (fd d) = Failed # is" and "ops d = raw_image_regular_ops" and "0 < iov_total data"
  shows "\<exists>d'. disk_image_read inflate sector (data @ rest) (length data) m d = Some (Inr (None, m, d'))"
    and "\<exists>d'. disk_image_write sector (data @ rest) (length data) m d = Some (Inr (None, m, d'))"
proof -
  obtain f' where "xpreadv data (unat (push_bit 9 sector)) m (fd d) = (Err, m, f')"
    using restart_failed [OF assms(1), of "mapped m data \<and> off_ok (unat (push_bit 9 sector)) (iov_total data)" "iov_total data"
        "read_op (unat (push_bit 9 sector))"] by (auto simp: xpreadv_def readv_result_def)
  then show "\<exists>d'. disk_image_read inflate sector (data @ rest) (length data) m d = Some (Inr (None, m, d'))"
    using assms(2,3) by (simp add: disk_image_read_def raw_image_read_sync_def preadv_in_full_def get_iov_size_all
        preadv_loop.simps [of "data @ rest"] short_total_def int_of_ret_def)
  obtain f' where "xpwritev data (unat (push_bit 9 sector)) m (fd d) = (Err, f')"
    using restart_failed [OF assms(1), of "mapped m data \<and> off_ok (unat (push_bit 9 sector)) (iov_total data)" "iov_total data"
        "write_op (gather m data) (unat (push_bit 9 sector))"] by (auto simp: xpwritev_def)
  then show "\<exists>d'. disk_image_write sector (data @ rest) (length data) m d = Some (Inr (None, m, d'))"
    using assms(2,3) by (simp add: disk_image_write_def raw_image_write_sync_def pwritev_in_full_def get_iov_size_all
        pwritev_loop.simps [of "data @ rest"] int_of_ret_def)
qed

lemma mmap_past_end:
  "length img \<le> off \<Longrightarrow> 0 < iov_total data \<Longrightarrow> read_mmap_loop off data tot m img = Inl OutOfBounds"
  "length img \<le> off \<Longrightarrow> 0 < iov_total data \<Longrightarrow> write_mmap_loop off data tot m img = Inl OutOfBounds"
  by (induction data arbitrary: off tot m img) (auto simp: memcpy_from_def memcpy_to_def)

lemma take_drop_write_at: "take (length bs) (drop off (write_at off bs c)) = bs"
  by (cases "bs = []") (simp_all add: write_at_def)

text \<open>A guest with two requests in 64 bytes of memory, and an image of four bytes.\<close>

definition sample_vec :: "nat \<Rightarrow> nat \<Rightarrow> iovec" where
  "sample_vec a n = \<lparr> iov_base = a, iov_len = n \<rparr>"

definition sample_blk :: blk_dev where
  "sample_blk = \<lparr>
     vq = \<lparr> num = 1, desc = [\<lparr> desc_addr = 0, desc_len = 0, desc_flags = 0, desc_next = 0 \<rparr>],
       avail = \<lparr> avail_flags = 0, avail_idx = 0, avail_ring = [0], used_event = 0 \<rparr>,
       used = \<lparr> used_flags = 0, used_idx = 0, used_ring = [(0, 0)], avail_event = 0 \<rparr>,
       last_avail_idx = 0, last_used_signalled = 0, use_event_idx = False \<rparr>,
     disk = \<lparr> disk_size = 4, ops = raw_image_regular_ops, fd = \<lparr> content = [9, 9, 9, 9], position = 0, incidents = [Interrupted] \<rparr>,
       priv_map = [], priv_qcow = None, readonly = False \<rparr>,
     reqs = [], mem = 1 # replicate 31 0 @ [5, 6, 7, 8] @ replicate 28 255, signals = 0 \<rparr>"

definition sample_write :: blk_req where
  "sample_write = \<lparr> req_iov = [sample_vec 0 16, sample_vec 32 4, sample_vec 50 1, sample_vec 0 1],
     req_out = 2, req_in = 1, req_head = 0 \<rparr>"

definition sample_read :: blk_req where
  "sample_read = \<lparr> req_iov = [sample_vec 16 16, sample_vec 40 1, sample_vec 44 3, sample_vec 51 1, sample_vec 0 1],
     req_out = 1, req_in = 3, req_head = 0 \<rparr>"

lemma funpow_push_0: "((push_bit 8) ^^ n) (0 :: 'a::len word) = 0"
  by (induction n) simp_all

lemma sample_mem:
  "length (mem sample_blk) = 64" "buf (mem sample_blk) (sample_vec 0 16) = 1 # replicate 15 0"
  "buf (mem sample_blk) (sample_vec 16 16) = replicate 16 0" "gather (mem sample_blk) [sample_vec 32 4] = [5, 6, 7, 8]"
  by (simp_all add: sample_blk_def sample_vec_def buf_def)

lemma sample_blk_ok:
  "laid_out sample_write True (sample_vec 0 16) [sample_vec 32 4] (sample_vec 50 1) [sample_vec 0 1] (length (mem sample_blk))"
  "laid_out sample_read False (sample_vec 16 16) [sample_vec 40 1, sample_vec 44 3] (sample_vec 51 1) [sample_vec 0 1] (length (mem sample_blk))"
  "hdr_type (mem sample_blk) (sample_vec 0 16) = 1" "hdr_type (mem sample_blk) (sample_vec 16 16) = 0"
  "hdr_sector (mem sample_blk) (sample_vec 0 16) = 0" "hdr_sector (mem sample_blk) (sample_vec 16 16) = 0"
  "queue_ok (vq sample_blk)"
  unfolding hdr_type_def hdr_sector_def sample_mem
  by (simp_all add: laid_out_def sample_write_def sample_read_def sample_vec_def iov_ok_def inside_def apart_def iov_total_def
      le_word_def queue_ok_def sample_blk_def funpow_push_0)

section \<open>Properties\<close>



text \<open>
  Failures are not reported: a read or write that the host refuses leaves the used ring as it was, so that the guest
  waits for ever; a write to a QCOW image is completed with the status OK and not written;
  and on a read-only raw image a sector past the end is copied from or to memory of the
  hypervisor behind the mapping.
\<close>

theorem virtio_blk_failures_unreported:
  assumes "laid_out r wr hdr data st tail (length (mem b))" and "queue_ok (vq b)" and "0 < iov_total data"
    and "hdr_type (mem b) hdr = (if wr then VIRTIO_BLK_T_OUT else VIRTIO_BLK_T_IN)"
    and "hdr_sector (mem b) hdr = sector"
  shows "(ops (disk b) = raw_image_regular_ops \<and> incidents (fd (disk b)) = Failed # is \<longrightarrow>
      (\<exists>b'. virtio_blk_do_io_request inflate digits r b = Some (Inr b') \<and> vq b' = vq b \<and> mem b' = mem b)) \<and>
    (ops (disk b) = qcow_disk_readonly_ops \<and> wr \<longrightarrow>
      (\<exists>b'. virtio_blk_do_io_request inflate digits r b = Some (Inr b') \<and> disk b' = disk b \<and> mem b' ! iov_base st = 0 \<and>
        publishes (vq b) (ucast (req_head r), 0) (vq b'))) \<and>
    (ops (disk b) = ro_ops \<and> length (priv_map (disk b)) \<le> unat (push_bit 9 sector) \<longrightarrow>
      virtio_blk_do_io_request inflate digits r b = Some (Inl OutOfBounds))"
proof (intro conjI impI; elim conjE)
  note step = virtio_blk_do_io_request_def parse_ok [OF assms(1)] blk_finish_def
  have f: "le_word (take 4 (buf (mem b) hdr)) = (if wr then VIRTIO_BLK_T_OUT else VIRTIO_BLK_T_IN)"
    "le_word (take 8 (drop 8 (buf (mem b) hdr))) = sector"
    using assms(4,5) by (simp_all add: hdr_type_def hdr_sector_def)
  let ?rest = "st\<lparr>iov_len := 0\<rparr> # tail"
  show "\<exists>b'. virtio_blk_do_io_request inflate digits r b = Some (Inr b') \<and> vq b' = vq b \<and> mem b' = mem b"
    if "ops (disk b) = raw_image_regular_ops" "incidents (fd (disk b)) = Failed # is"
    using raw_read_failed(1) [OF that(2,1) assms(3), of inflate sector ?rest "mem b"]
      raw_read_failed(2) [OF that(2,1) assms(3), of sector ?rest "mem b"] f by (cases wr) (auto simp: step)
  show "\<exists>b'. virtio_blk_do_io_request inflate digits r b = Some (Inr b') \<and> disk b' = disk b \<and> mem b' ! iov_base st = 0 \<and>
      publishes (vq b) (ucast (req_head r), 0) (vq b')"
    if "ops (disk b) = qcow_disk_readonly_ops" "wr"
  proof -
    have st: "iov_base st < length (mem b)" using assms(1) by (auto simp: laid_out_def inside_def)
    let ?b = "b\<lparr>reqs := (reqs b)[unat (req_head r) := [iov_advance 16 hdr] @ data @ ?rest], mem := mem b, disk := disk b\<rparr>"
    obtain b' where "virtio_blk_complete (req_head r) (iov_base st) 0 ?b = Inr b'" "disk b' = disk b"
      "mem b' = (mem b)[iov_base st := 0]" "publishes (vq b) (ucast (req_head r), 0) (vq b')"
      using complete_ok [of ?b "iov_base st" "req_head r" 0] assms(2) st by auto
    then show ?thesis using that f st by (simp add: step disk_image_write_def)
  qed
  show "virtio_blk_do_io_request inflate digits r b = Some (Inl OutOfBounds)"
    if "ops (disk b) = ro_ops" "length (priv_map (disk b)) \<le> unat (push_bit 9 sector)"
    using mmap_past_end [OF that(2) assms(3), of 0 "mem b"] that(1) f
    by (cases wr) (simp_all add: step disk_image_read_def disk_image_write_def raw_image_read_mmap_def raw_image_write_mmap_def)
qed

theorem virtio_blk_failures_unreported_witness:
  "\<exists>b'. virtio_blk_do_io_request (\<lambda>_ _. None) [] sample_write
      (sample_blk\<lparr>disk := (disk sample_blk)\<lparr>ops := qcow_disk_readonly_ops\<rparr>\<rparr>) = Some (Inr b') \<and> mem b' ! 50 = 0"
  using virtio_blk_failures_unreported [of sample_write True "sample_vec 0 16" "[sample_vec 32 4]" "sample_vec 50 1" "[sample_vec 0 1]"
      "sample_blk\<lparr>disk := (disk sample_blk)\<lparr>ops := qcow_disk_readonly_ops\<rparr>\<rparr>" 0 "[]" "\<lambda>_ _. None" "[]"] sample_blk_ok sample_mem
  by (auto simp: sample_vec_def iov_total_def)

end
