(* ===== verification/Csum.thy ===== *)
theory Csum
  imports Prelude
begin

text \<open>
  The Internet checksum of \<^verbatim>\<open>net/uip/csum.c\<close>: \<^verbatim>\<open>uip_csum\<close> adds 16-bit words as the little-endian host
  loads them, folds the carries and complements. The reference is the definition of the
  protocol on big-endian words: the checksum is right when the words add up to a multiple of
  65535. The functions that checksum a packet read the frame in its buffer, those of UDP and TCP
  also write the padding and the pseudo header behind the packet into the buffer.
\<close>

section \<open>The sum\<close>

fun sum_words :: "nat \<Rightarrow> u8 list \<Rightarrow> nat" where
  "sum_words s (a # b # bs) = sum_words (s + unat (le_word [a, b] :: u16)) bs"
| "sum_words s [a] = s + unat a"
| "sum_words s [] = s"

function csum_fold :: "nat \<Rightarrow> nat" where
  "csum_fold s = (if s div 65536 = 0 then s else csum_fold (s mod 65536 + s div 65536))"
  by pat_completeness auto
termination
proof (relation "measure id")
  fix s :: nat assume "s div 65536 \<noteq> 0"
  moreover have "s = s div 65536 * 65536 + s mod 65536" by simp
  ultimately have "s mod 65536 + s div 65536 < s" by linarith
  then show "(s mod 65536 + s div 65536, s) \<in> measure id" by simp
qed simp

declare csum_fold.simps [simp del]

definition uip_csum :: "u16 \<Rightarrow> u8 list \<Rightarrow> u16" where
  "uip_csum csum bs = NOT (of_nat (csum_fold (sum_words (unat csum) bs)))"

section \<open>The reference\<close>

fun net_sum :: "u8 list \<Rightarrow> nat" where
  "net_sum (a # b # bs) = 256 * unat a + unat b + net_sum bs"
| "net_sum [a] = 256 * unat a"
| "net_sum [] = 0"

definition csum_right :: "u8 list \<Rightarrow> bool" where
  "csum_right bs \<longleftrightarrow> net_sum bs mod 65535 = 0"

section \<open>The fold\<close>

lemma csum_fold_bound: "csum_fold s \<le> 65535"
  by (induction s rule: csum_fold.induct) (subst csum_fold.simps, auto)

lemma csum_fold_mod: "csum_fold s mod 65535 = s mod 65535"
proof (induction s rule: csum_fold.induct)
  case (1 s)
  show ?case
  proof (cases "s div 65536 = 0")
    case True
    then show ?thesis by (subst csum_fold.simps) simp
  next
    case False
    have "s = (s mod 65536 + s div 65536) + 65535 * (s div 65536)" by simp
    then have "s mod 65535 = (s mod 65536 + s div 65536) mod 65535" by (metis mod_mult_self2)
    with 1 [OF False] False show ?thesis by (subst csum_fold.simps) simp
  qed
qed

lemma csum_fold_0: "csum_fold s = 0 \<longleftrightarrow> s = 0"
proof (induction s rule: csum_fold.induct)
  case (1 s)
  show ?case
  proof (cases "s div 65536 = 0")
    case True
    then show ?thesis by (subst csum_fold.simps) simp
  next
    case False
    moreover have "s mod 65536 + s div 65536 \<noteq> 0" "s \<noteq> 0" using False by auto
    ultimately show ?thesis using 1 [OF False] by (subst csum_fold.simps) simp
  qed
qed

lemma csum_fold_all_ones: "csum_fold s = 65535 \<longleftrightarrow> 0 < s \<and> s mod 65535 = 0"
  using csum_fold_bound [of s] csum_fold_mod [of s] csum_fold_0 [of s]
  by (cases "csum_fold s < 65535") auto

section \<open>The sum of words\<close>

lemma unat_ucast_16: "unat (ucast (b :: u8) :: u16) = unat b"
  using unsigned_less [of b, where 'a = nat] by (simp add: unsigned_ucast_eq take_bit_nat_eq_self)

lemma unat_le_word_2: "unat (le_word [a, b] :: u16) = unat a + 256 * unat b"
proof -
  have b: "unat a < 256" "unat b < 256" using unsigned_less [of a, where 'a = nat] unsigned_less [of b, where 'a = nat] by simp_all
  have "unat (push_bit 8 (ucast b :: u16)) = 256 * unat b"
    using b by (simp add: push_bit_eq_mult unat_word_ariths unat_ucast_16)
  moreover have "push_bit 8 (ucast b :: u16) OR ucast a = push_bit 8 (ucast b) + ucast a"
    by (rule disjunctive_add [symmetric]) (auto simp: bit_simps dest: bit_imp_le_length)
  ultimately show ?thesis using b by (simp add: le_word_def unat_word_ariths unat_ucast_16)
qed

lemma sum_words_add: "sum_words s bs = s + sum_words 0 bs"
proof (induction bs arbitrary: s rule: net_sum.induct)
  case (1 a b bs)
  let ?w = "unat (le_word [a, b] :: u16)"
  show ?case using 1 [of "s + ?w"] 1 [of ?w] by simp
qed simp_all

lemma sum_words_append: "even (length xs) \<Longrightarrow> sum_words s (xs @ ys) = sum_words (sum_words s xs) ys"
  by (induction s xs rule: sum_words.induct) simp_all

lemma sum_words_net: "256 * sum_words 0 bs mod 65535 = net_sum bs mod 65535"
proof (induction bs rule: net_sum.induct)
  case (1 a b bs)
  have "256 * sum_words 0 (a # b # bs) = 256 * unat a + 65536 * unat b + 256 * sum_words 0 bs"
    using sum_words_add [of "unat a + 256 * unat b" bs] by (simp add: unat_le_word_2)
  also have "\<dots> = 65535 * unat b + (256 * unat a + unat b + 256 * sum_words 0 bs)" by simp
  finally have "256 * sum_words 0 (a # b # bs) mod 65535 = (256 * unat a + unat b + 256 * sum_words 0 bs) mod 65535"
    by (simp only: mod_mult_self4)
  also have "\<dots> = net_sum (a # b # bs) mod 65535"
    using 1 by (metis mod_add_right_eq net_sum.simps(1))
  finally show ?case .
qed simp_all

lemma net_sum_0_iff: "net_sum bs mod 65535 = 0 \<longleftrightarrow> sum_words 0 bs mod 65535 = 0"
proof -
  have "coprime (256 :: nat) 65535" by (simp add: coprime_iff_gcd_eq_1 gcd_nat.simps)
  then show ?thesis
    unfolding sum_words_net [symmetric]
    by (metis coprime_commute coprime_dvd_mult_right_iff dvd_eq_mod_eq_0)
qed

lemma of_nat_u16_eq_iff: "n \<le> 65535 \<Longrightarrow> (of_nat n :: u16) = -1 \<longleftrightarrow> n = 65535"
  by (simp add: word_eq_iff_unsigned unat_of_nat unsigned_minus_1_eq_mask mask_eq_exp_minus_1 word_unat_eq_iff)

text \<open>What the receiver computes over a packet with its checksum is 0 exactly when the checksum is right.\<close>

lemma uip_csum_0_iff: "0 < sum_words 0 bs \<Longrightarrow> uip_csum 0 bs = 0 \<longleftrightarrow> csum_right bs"
proof -
  assume pos: "0 < sum_words 0 bs"
  have "uip_csum 0 bs = 0 \<longleftrightarrow> (of_nat (csum_fold (sum_words 0 bs)) :: u16) = - 1"
    unfolding uip_csum_def unsigned_0 by (metis bit.compl_zero bit.double_compl)
  then show ?thesis
    using of_nat_u16_eq_iff [OF csum_fold_bound] csum_fold_all_ones pos
    by (simp add: csum_right_def net_sum_0_iff)
qed

lemma unat_uip_csum: "unat (uip_csum c bs) = 65535 - csum_fold (sum_words (unat c) bs)"
proof -
  let ?n = "csum_fold (sum_words (unat c) bs)"
  have n: "?n < 2 ^ LENGTH(16)" using csum_fold_bound [of "sum_words (unat c) bs"] by simp
  then have "NOT (of_nat ?n :: u16) = of_nat (65535 - ?n)"
    using csum_fold_bound [of "sum_words (unat c) bs"] by (simp add: not_eq_complement of_nat_diff)
  then show ?thesis by (simp add: uip_csum_def unat_of_nat)
qed

section \<open>Storing a checksum\<close>

lemma net_sum_append: "even (length xs) \<Longrightarrow> net_sum (xs @ ys) = net_sum xs + net_sum ys"
  by (induction xs rule: net_sum.induct) simp_all

lemma net_sum_pad: "odd (length xs) \<Longrightarrow> net_sum (xs @ 0 # ys) = net_sum xs + net_sum ys"
  by (induction xs rule: net_sum.induct) simp_all

lemma sum_words_le_bytes: "sum_words 0 (le_bytes 2 (w :: u16)) = unat w"
proof -
  obtain a b where ab: "le_bytes 2 w = [a, b]" by (auto simp: le_bytes_def upt_rec)
  have "(le_word (le_bytes 2 w) :: u16) = w" by (simp add: le_word_bytes)
  then show ?thesis by (simp add: ab)
qed

text \<open>With the checksum of the rest stored in the place it was computed with as 0, the packet is right.\<close>

lemma csum_stored_right:
  assumes "even (length xs)"
  shows "csum_right (xs @ le_bytes 2 (uip_csum 0 (xs @ [0, 0] @ ys)) @ ys)"
proof -
  let ?c = "uip_csum 0 (xs @ [0, 0] @ ys)"
  define S where "S = sum_words 0 xs + sum_words 0 ys"
  have "sum_words 0 (xs @ [0, 0] @ ys) = S"
    using assms sum_words_add [of "sum_words 0 xs" ys] by (simp add: sum_words_append S_def unat_le_word_2)
  then have c: "unat ?c = 65535 - csum_fold S" by (simp add: unat_uip_csum)
  have "sum_words 0 (xs @ le_bytes 2 ?c @ ys) = S + unat ?c"
    using assms sum_words_add [of "sum_words 0 xs" "le_bytes 2 ?c @ ys"] sum_words_append [of "le_bytes 2 ?c" 0 ys]
      sum_words_le_bytes [of ?c] sum_words_add [of "unat ?c" ys]
    by (simp add: sum_words_append S_def)
  moreover have "(S + (65535 - csum_fold S)) mod 65535 = 0"
  proof -
    have "(S + (65535 - csum_fold S)) mod 65535 = (csum_fold S + (65535 - csum_fold S)) mod 65535"
      by (metis csum_fold_mod mod_add_left_eq)
    then show ?thesis using csum_fold_bound [of S] by simp
  qed
  ultimately show ?thesis unfolding csum_right_def net_sum_0_iff by (simp only: c)
qed

section \<open>Headers of a frame\<close>

text \<open>
  A frame starts with the Ethernet header of 14 bytes; the offsets are those of the packed
  structures of \<^verbatim>\<open>include/kvm/uip.h\<close>. Numbers in headers are big-endian.
\<close>

definition rd16 :: "nat \<Rightarrow> u8 list \<Rightarrow> u16 result" where
  "rd16 off fr = rbind (memcpy_from fr off 2) (\<lambda>bs. Inr (be_word bs))"

definition rd32 :: "nat \<Rightarrow> u8 list \<Rightarrow> u32 result" where
  "rd32 off fr = rbind (memcpy_from fr off 4) (\<lambda>bs. Inr (be_word bs))"

definition uip_ip_hdrlen :: "u8 list \<Rightarrow> u16 result" where
  "uip_ip_hdrlen fr = rbind (aget fr 14) (\<lambda>v. Inr (ucast (v AND 0x0f) * 4))"

definition uip_ip_len :: "u8 list \<Rightarrow> u16 result" where
  "uip_ip_len fr = rd16 16 fr"

definition uip_udp_len :: "u8 list \<Rightarrow> u16 result" where
  "uip_udp_len fr = rd16 38 fr"

definition uip_tcp_hdrlen :: "u8 list \<Rightarrow> u16 result" where
  "uip_tcp_hdrlen fr = rbind (aget fr 46) (\<lambda>v. Inr (ucast (drop_bit 4 v) * 4))"

definition uip_tcp_len :: "u8 list \<Rightarrow> u16 result" where
  "uip_tcp_len fr = rbind (uip_ip_len fr) (\<lambda>n. rbind (uip_ip_hdrlen fr) (\<lambda>h. Inr (n - h)))"

definition uip_tcp_payloadlen :: "u8 list \<Rightarrow> u16 result" where
  "uip_tcp_payloadlen fr = rbind (uip_tcp_len fr) (\<lambda>n. rbind (uip_tcp_hdrlen fr) (\<lambda>h. Inr (n - h)))"

definition uip_tcp_is_syn :: "u8 list \<Rightarrow> bool result" where
  "uip_tcp_is_syn fr = rbind (aget fr 47) (\<lambda>v. Inr (flag v 2))"

definition uip_tcp_is_fin :: "u8 list \<Rightarrow> bool result" where
  "uip_tcp_is_fin fr = rbind (aget fr 47) (\<lambda>v. Inr (flag v 1))"

definition uip_tcp_isn :: "u8 list \<Rightarrow> u32 result" where
  "uip_tcp_isn fr = rd32 38 fr"

section \<open>Checksums of packets\<close>

definition csum_at :: "nat \<Rightarrow> u16 \<Rightarrow> u8 list \<Rightarrow> u16 result" where
  "csum_at off count fr = rbind (memcpy_from fr off (unat count)) (\<lambda>bs. Inr (uip_csum 0 bs))"

definition uip_csum_ip :: "u8 list \<Rightarrow> u16 result" where
  "uip_csum_ip fr = rbind (uip_ip_hdrlen fr) (\<lambda>n. csum_at 14 n fr)"

text \<open>This one also stores the checksum, in the byte order of the host.\<close>

definition uip_csum_icmp :: "u8 list \<Rightarrow> (u16 \<times> u8 list) result" where
  "uip_csum_icmp fr =
     rbind (uip_ip_len fr) (\<lambda>n.
     rbind (uip_ip_hdrlen fr) (\<lambda>h.
     rbind (csum_at 34 (n - h - 8) fr) (\<lambda>c.
     rbind (memcpy_to fr 36 (le_bytes 2 c)) (\<lambda>fr'. Inr (c, fr')))))"

text \<open>The addresses, a zero, the protocol and the length of a segment.\<close>

definition uip_pseudo_hdr :: "u8 list \<Rightarrow> u16 \<Rightarrow> u8 list result" where
  "uip_pseudo_hdr fr len =
     rbind (memcpy_from fr 26 8) (\<lambda>addrs.
     rbind (aget fr 23) (\<lambda>proto. Inr (addrs @ [0, proto] @ be_bytes 2 len)))"

definition csum_segment :: "u16 \<Rightarrow> u8 list \<Rightarrow> (u16 \<times> u8 list) result" where
  "csum_segment len fr =
     rbind (uip_pseudo_hdr fr len) (\<lambda>hdr.
       let n = unat len; pad = (if odd n then [0] else []) in
       rbind (memcpy_to fr (34 + n) pad) (\<lambda>fr1.
       rbind (memcpy_to fr1 (34 + n + length pad) hdr) (\<lambda>fr2.
       rbind (csum_at 34 (of_nat (n + length pad + 12)) fr2) (\<lambda>c. Inr (c, fr2)))))"

definition uip_csum_udp :: "u8 list \<Rightarrow> (u16 \<times> u8 list) result" where
  "uip_csum_udp fr = rbind (uip_udp_len fr) (\<lambda>n. csum_segment n fr)"

definition uip_csum_tcp :: "u8 list \<Rightarrow> (u16 \<times> u8 list) result" where
  "uip_csum_tcp fr = rbind (uip_tcp_len fr) (\<lambda>n. csum_segment n fr)"

section \<open>The checksum of a segment\<close>

definition pseudo :: "u8 list \<Rightarrow> u16 \<Rightarrow> u8 list" where
  "pseudo fr len = bytes_at 26 8 fr @ [0, fr ! 23] @ be_bytes 2 len"

definition pad_of :: "nat \<Rightarrow> u8 list" where
  "pad_of n = (if odd n then [0] else [])"

lemma take_blit_before: "n \<le> off \<Longrightarrow> off + length src \<le> length dst \<Longrightarrow> take n (blit dst off src) = take n dst"
  by (simp add: blit_def)

lemma bytes_at_prefix: "take m a = take m b \<Longrightarrow> off + n \<le> m \<Longrightarrow> bytes_at off n a = bytes_at off n b"
  unfolding bytes_at_def by (metis (no_types, opaque_lifting) add.commute drop_take min.absorb1 take_take nat_le_iff_add take_drop)

lemma csum_segment_ok:
  assumes "34 + unat len + length (pad_of (unat len)) + 12 \<le> length fr" and "unat len \<le> 65522"
  shows "\<exists>fr'. csum_segment len fr = Inr (uip_csum 0 (bytes_at 34 (unat len) fr @ pad_of (unat len) @ pseudo fr len), fr') \<and>
    length fr' = length fr \<and> take (34 + unat len) fr' = take (34 + unat len) fr"
proof -
  let ?n = "unat len" and ?p = "pad_of (unat len)"
  have p: "length (pseudo fr len) = 12" using assms(1) by (simp add: pseudo_def length_bytes_at)
  define fr1 where "fr1 = blit fr (34 + ?n) ?p"
  define fr2 where "fr2 = blit fr1 (34 + ?n + length ?p) (pseudo fr len)"
  have l1: "length fr1 = length fr" unfolding fr1_def using assms(1) by (intro length_blit) simp
  have l2: "length fr2 = length fr" unfolding fr2_def using assms(1) p l1 by (subst length_blit) simp_all
  have t2: "take (34 + ?n) fr2 = take (34 + ?n) fr"
    unfolding fr2_def fr1_def using assms(1) p l1 by (simp add: take_blit_before fr1_def)
  have c: "unat (of_nat (?n + length ?p + 12) :: u16) = ?n + length ?p + 12"
    by (subst unat_of_nat, intro mod_less) (use assms(2) in \<open>simp add: pad_of_def\<close>)
  have "fr2 = take (34 + ?n) fr @ ?p @ pseudo fr len @ drop (34 + ?n + length ?p + 12) fr"
    using assms(1) p unfolding fr2_def fr1_def blit_def by (simp add: add.assoc)
  then have "take (?n + length ?p + 12) (drop 34 fr2) = bytes_at 34 ?n fr @ ?p @ pseudo fr len"
    using assms(1) p by (simp add: bytes_at_def drop_take)
  then have "csum_at 34 (of_nat (?n + length ?p + 12)) fr2 = Inr (uip_csum 0 (bytes_at 34 ?n fr @ ?p @ pseudo fr len))"
    unfolding csum_at_def memcpy_from_def c using assms(1) l2 by simp
  moreover have "uip_pseudo_hdr fr len = Inr (pseudo fr len)"
    using assms(1) by (simp add: uip_pseudo_hdr_def memcpy_from_def pseudo_def bytes_at_def)
  ultimately have "csum_segment len fr = Inr (uip_csum 0 (bytes_at 34 ?n fr @ ?p @ pseudo fr len), fr2)"
    using assms(1) l1 p by (simp add: csum_segment_def Let_def memcpy_to_def fr1_def fr2_def flip: pad_of_def)
  with l2 t2 show ?thesis by blast
qed

text \<open>Stored at the even offset \<open>k\<close> of the segment, where it was computed with zeros, it is right.\<close>

lemma segment_csum_right:
  assumes "even k" and "k + 2 \<le> length seg" and "take 2 (drop k seg) = [0, 0]" and "even (length hdr)"
  shows "csum_right (hdr @ blit seg k (le_bytes 2 (uip_csum 0 (seg @ pad_of (length seg) @ hdr))))"
proof -
  let ?c = "le_bytes 2 (uip_csum 0 (seg @ pad_of (length seg) @ hdr))"
  define xs ys where "xs = take k seg" and "ys = drop (k + 2) seg"
  have "seg = take k seg @ take 2 (drop k seg) @ drop 2 (drop k seg)" by (metis append_take_drop_id)
  then have seg: "seg = xs @ [0, 0] @ ys" using assms(3) by (simp add: xs_def ys_def)
  have x: "even (length xs)" "length xs = k" using assms(1,2) by (simp_all add: xs_def)
  have new: "blit seg k ?c = xs @ ?c @ ys" by (simp add: blit_def xs_def ys_def)
  have "csum_right (xs @ ?c @ ys @ pad_of (length seg) @ hdr)"
    using csum_stored_right [OF x(1), of "ys @ pad_of (length seg) @ hdr"] seg by simp
  moreover have "net_sum (blit seg k ?c @ pad_of (length seg) @ hdr) = net_sum (blit seg k ?c) + net_sum hdr"
  proof (cases "odd (length seg)")
    case True
    moreover from True have "odd (length (blit seg k ?c))" using assms(2) by simp
    ultimately show ?thesis by (simp add: pad_of_def net_sum_pad)
  next
    case False
    moreover from False have "even (length (blit seg k ?c))" using assms(2) by simp
    ultimately show ?thesis by (simp add: pad_of_def net_sum_append)
  qed
  ultimately show ?thesis
    using assms(4) new by (simp add: csum_right_def net_sum_append add.commute)
qed

end
