(* ===== verification/Uipbuf.thy ===== *)
theory Uipbuf
  imports Csum Iovec
begin

text \<open>
  The state of the user-mode network stack, \<^verbatim>\<open>struct uip_info\<close>, and its pool of packet buffers,
  \<^verbatim>\<open>net/uip/buf.c\<close>. The buffers are a list; a pointer to a buffer is its index. IP addresses and
  ports are kept as numbers, the code keeps them in the byte order of the network. A thread
  that finds no buffer sleeps: its step is \<open>None\<close>.

  What the stack asks of the host's sockets is a list of calls in the state, in their order.
\<close>

datatype buf_status = UIP_FREE | UIP_INUSE | UIP_USED

record uip_buf =
  status :: buf_status
  vnet :: "u8 list"
  eth :: "u8 list"
  vnet_len :: nat
  eth_len :: nat

datatype host_call =
    Connect int u32 u16
  | Write int "u8 list"
  | SendTo int u32 u16 "u8 list"
  | ShutRd int
  | ShutWr int
  | ShutRdWr int
  | Close int

record udp_socket =
  us_sip :: u32
  us_dip :: u32
  us_sport :: u16
  us_dport :: u16
  us_fd :: int

record tcp_socket =
  ts_sip :: u32
  ts_dip :: u32
  ts_sport :: u16
  ts_dport :: u16
  ts_fd :: int
  guest_acked :: u32
  window_size :: u16
  isn_server :: u32
  isn_guest :: u32
  ack_server :: u32
  seq_server :: u32
  write_done :: bool
  read_done :: bool
  ts_thread :: bool

record uip_info =
  bufs :: "uip_buf list"
  buf_free_nr :: int
  buf_used_nr :: int
  guest_mac :: "u8 list"
  host_mac :: "u8 list"
  guest_ip :: u32
  guest_netmask :: u32
  host_ip :: u32
  dns_ip :: "u32 list"
  domain_name :: "u8 list option"
  vnet_hdr_len :: nat
  udp_sockets :: "udp_socket list"
  tcp_sockets :: "tcp_socket list"
  udp_thread :: bool
  calls :: "host_call list"

definition log_call :: "host_call \<Rightarrow> uip_info \<Rightarrow> uip_info" where
  "log_call c info = info\<lparr>calls := calls info @ [c]\<rparr>"

abbreviation (input) UIP_ETH_BUF :: nat where "UIP_ETH_BUF \<equiv> 65548"

section \<open>The pool\<close>

text \<open>The first buffer of a status, as \<^verbatim>\<open>list_for_each_entry\<close> finds it.\<close>

definition first_buf :: "buf_status \<Rightarrow> uip_info \<Rightarrow> nat option" where
  "first_buf st info = find (\<lambda>i. status (bufs info ! i) = st) [0..<length (bufs info)]"

definition set_status :: "nat \<Rightarrow> buf_status \<Rightarrow> uip_info \<Rightarrow> uip_info" where
  "set_status i st info = info\<lparr>bufs := (bufs info)[i := (bufs info ! i)\<lparr>status := st\<rparr>]\<rparr>"

definition uip_buf_get_used :: "uip_info \<Rightarrow> (nat option \<times> uip_info) blocking" where
  "uip_buf_get_used info =
     (if \<not> 0 < buf_used_nr info then None
      else case first_buf UIP_USED info of
          None \<Rightarrow> Some (Inr (None, info))
        | Some i \<Rightarrow> Some (Inr (Some i, (set_status i UIP_INUSE info)\<lparr>buf_used_nr := buf_used_nr info - 1\<rparr>)))"

definition uip_buf_get_free :: "uip_info \<Rightarrow> (nat option \<times> uip_info) blocking" where
  "uip_buf_get_free info =
     (if \<not> 0 < buf_free_nr info then None
      else case first_buf UIP_FREE info of
          None \<Rightarrow> Some (Inr (None, info))
        | Some i \<Rightarrow> Some (Inr (Some i, (set_status i UIP_INUSE info)\<lparr>buf_free_nr := buf_free_nr info - 1\<rparr>)))"

definition uip_buf_set_used :: "nat \<Rightarrow> uip_info \<Rightarrow> uip_info" where
  "uip_buf_set_used i info = (set_status i UIP_USED info)\<lparr>buf_used_nr := buf_used_nr info + 1\<rparr>"

definition uip_buf_set_free :: "nat \<Rightarrow> uip_info \<Rightarrow> uip_info" where
  "uip_buf_set_free i info = (set_status i UIP_FREE info)\<lparr>buf_free_nr := buf_free_nr info + 1\<rparr>"

text \<open>
  What the guest sends: the virtio header, and the memory from the start of the frame on, of which
  the frame is the first \<open>arg_eth_len\<close> bytes.
\<close>

record uip_tx_arg =
  arg_vnet :: "u8 list"
  arg_eth :: "u8 list"
  arg_vnet_len :: nat
  arg_eth_len :: nat

definition with_buf :: "(nat option \<times> uip_info) blocking \<Rightarrow> (nat \<Rightarrow> uip_info \<Rightarrow> 'a blocking) \<Rightarrow> 'a blocking" where
  "with_buf got f = sbind got (\<lambda>(i, info). case i of None \<Rightarrow> Some (Inl NullDeref) | Some i \<Rightarrow> f i info)"

definition put_buf :: "nat \<Rightarrow> uip_buf \<Rightarrow> uip_info \<Rightarrow> uip_info" where
  "put_buf i b info = info\<lparr>bufs := (bufs info)[i := b]\<rparr>"

definition clone_into :: "uip_tx_arg \<Rightarrow> u8 list \<Rightarrow> uip_buf \<Rightarrow> uip_buf result" where
  "clone_into arg mac b =
     rbind (memcpy_from (arg_vnet arg) 0 (arg_vnet_len arg)) (\<lambda>v.
     rbind (memcpy_to (vnet b) 0 v) (\<lambda>vn.
     rbind (memcpy_from (arg_eth arg) 0 (arg_eth_len arg)) (\<lambda>e.
     rbind (memcpy_to (eth b) 0 e) (\<lambda>et.
     rbind (memcpy_from (arg_eth arg) 6 6) (\<lambda>src.
     rbind (stores [(6, mac), (0, src)] et) (\<lambda>et'.
       Inr (b\<lparr>vnet := vn, eth := et', vnet_len := arg_vnet_len arg, eth_len := arg_eth_len arg\<rparr>)))))))"

definition uip_buf_clone :: "uip_tx_arg \<Rightarrow> uip_info \<Rightarrow> (nat \<times> uip_info) blocking" where
  "uip_buf_clone arg info =
     with_buf (uip_buf_get_free info) (\<lambda>i info1.
       Some (rbind (clone_into arg (host_mac info1) (bufs info1 ! i)) (\<lambda>b. Inr (i, put_buf i b info1))))"

text \<open>The set-up of the buffers; \<^verbatim>\<open>malloc\<close> is taken to succeed, as the code does.\<close>

definition init_bufs :: "nat \<Rightarrow> uip_info \<Rightarrow> uip_info" where
  "init_bufs buf_nr info =
     info\<lparr>bufs := bufs info @ replicate buf_nr \<lparr> status = UIP_FREE, vnet = replicate (vnet_hdr_len info) 0, eth = replicate UIP_ETH_BUF 0,
                vnet_len = vnet_hdr_len info, eth_len = UIP_ETH_BUF \<rparr>,
          buf_free_nr := int buf_nr\<rparr>"

section \<open>The invariant of the pool\<close>

definition count_buf :: "buf_status \<Rightarrow> uip_info \<Rightarrow> nat" where
  "count_buf st info = length (filter (\<lambda>b. status b = st) (bufs info))"

definition buf_ok :: "uip_info \<Rightarrow> uip_buf \<Rightarrow> bool" where
  "buf_ok info b \<longleftrightarrow> length (vnet b) = vnet_hdr_len info \<and> length (eth b) = UIP_ETH_BUF \<and>
     vnet_len b \<le> vnet_hdr_len info \<and> eth_len b \<le> UIP_ETH_BUF"

definition pool_ok :: "uip_info \<Rightarrow> bool" where
  "pool_ok info \<longleftrightarrow> buf_free_nr info = int (count_buf UIP_FREE info) \<and> buf_used_nr info = int (count_buf UIP_USED info) \<and>
     (\<forall>b \<in> set (bufs info). buf_ok info b) \<and> length (host_mac info) = 6 \<and> length (guest_mac info) = 6"

lemma count_buf_update:
  "i < length xs \<Longrightarrow> length (filter P (xs[i := b])) + (if P (xs ! i) then 1 else 0) = length (filter P xs) + (if P b then 1 else 0)"
proof (induction xs arbitrary: i)
  case (Cons x xs)
  then show ?case by (cases i) auto
qed simp

lemma first_buf_SomeD:
  assumes "first_buf st info = Some i"
  shows "i < length (bufs info)" and "status (bufs info ! i) = st" and "\<forall>j<i. status (bufs info ! j) \<noteq> st"
  using assms by (auto simp: first_buf_def find_Some_iff)

lemma first_buf_None_iff: "first_buf st info = None \<longleftrightarrow> count_buf st info = 0"
  by (auto simp: first_buf_def find_None_iff count_buf_def filter_empty_conv all_set_conv_all_nth)

lemma count_buf_put:
  "i < length (bufs info) \<Longrightarrow> count_buf st (put_buf i b info) + (if status (bufs info ! i) = st then 1 else 0) =
     count_buf st info + (if status b = st then 1 else 0)"
  unfolding count_buf_def put_buf_def using count_buf_update [of i "bufs info" "\<lambda>b. status b = st" b] by simp

lemma set_status_put: "set_status i st info = put_buf i ((bufs info ! i)\<lparr>status := st\<rparr>) info"
  by (simp add: set_status_def put_buf_def)

lemma put_buf_simps [simp]:
  "buf_free_nr (put_buf i b info) = buf_free_nr info" "buf_used_nr (put_buf i b info) = buf_used_nr info"
  "host_mac (put_buf i b info) = host_mac info" "guest_mac (put_buf i b info) = guest_mac info"
  "vnet_hdr_len (put_buf i b info) = vnet_hdr_len info" "length (bufs (put_buf i b info)) = length (bufs info)"
  "host_ip (put_buf i b info) = host_ip info" "guest_ip (put_buf i b info) = guest_ip info"
  "i < length (bufs info) \<Longrightarrow> bufs (put_buf i b info) ! i = b"
  "udp_sockets (put_buf i b info) = udp_sockets info" "tcp_sockets (put_buf i b info) = tcp_sockets info"
  "calls (put_buf i b info) = calls info"
  by (simp_all add: put_buf_def)

lemma pool_ok_buf: "pool_ok info \<Longrightarrow> i < length (bufs info) \<Longrightarrow> buf_ok info (bufs info ! i)"
  by (simp add: pool_ok_def)

lemma buf_ok_put [simp]: "buf_ok (put_buf i b info) = buf_ok info"
  by (rule ext) (simp add: buf_ok_def)

lemma pool_bufs_put:
  "\<forall>b \<in> set (bufs info). buf_ok info b \<Longrightarrow> buf_ok info b \<Longrightarrow> \<forall>c \<in> set (bufs (put_buf i b info)). buf_ok info c"
  by (auto simp: put_buf_def dest: set_update_subset_insert [THEN subsetD])

lemma pool_updates [simp]:
  "count_buf st (info\<lparr>buf_free_nr := n\<rparr>) = count_buf st info" "count_buf st (info\<lparr>buf_used_nr := n\<rparr>) = count_buf st info"
  "buf_ok (info\<lparr>buf_free_nr := n\<rparr>) = buf_ok info" "buf_ok (info\<lparr>buf_used_nr := n\<rparr>) = buf_ok info"
  by (simp_all add: count_buf_def buf_ok_def fun_eq_iff)

section \<open>Operations keep the invariant\<close>

definition edit_buf :: "nat \<Rightarrow> (uip_buf \<Rightarrow> uip_buf result) \<Rightarrow> uip_info \<Rightarrow> uip_info result" where
  "edit_buf i f info = rbind (f (bufs info ! i)) (\<lambda>b. Inr (put_buf i b info))"

definition edit_eth :: "(u8 list \<Rightarrow> u8 list result) \<Rightarrow> uip_buf \<Rightarrow> uip_buf result" where
  "edit_eth f b = rbind (f (eth b)) (\<lambda>e. Inr (b\<lparr>eth := e\<rparr>))"

text \<open>
  A buffer in the hands of a thread: \<open>holds i info\<close>. Between taking and passing it on, the thread
  changes only that buffer.
\<close>

definition holds :: "nat \<Rightarrow> uip_info \<Rightarrow> bool" where
  "holds i info \<longleftrightarrow> i < length (bufs info) \<and> status (bufs info ! i) = UIP_INUSE"

lemma pool_put:
  assumes "pool_ok info" and "i < length (bufs info)" and "buf_ok info b" and "status b = status (bufs info ! i)"
  shows "pool_ok (put_buf i b info)" and "count_buf st (put_buf i b info) = count_buf st info"
proof -
  show c: "count_buf st (put_buf i b info) = count_buf st info" for st
    using count_buf_put [OF assms(2), of st b] assms(4) by (simp split: if_splits)
  show "pool_ok (put_buf i b info)"
    using assms(1) pool_bufs_put [of info b i] assms(3) by (simp add: pool_ok_def c)
qed

lemma get_free_ok:
  assumes "pool_ok info" and "0 < count_buf UIP_FREE info"
  shows "\<exists>i info1. uip_buf_get_free info = Some (Inr (Some i, info1)) \<and> first_buf UIP_FREE info = Some i \<and>
    pool_ok info1 \<and> holds i info1 \<and>
    info1 = (put_buf i ((bufs info ! i)\<lparr>status := UIP_INUSE\<rparr>) info)\<lparr>buf_free_nr := buf_free_nr info - 1\<rparr>"
proof -
  obtain i where f: "first_buf UIP_FREE info = Some i" using assms(2) first_buf_None_iff [of UIP_FREE info] by (cases "first_buf UIP_FREE info") auto
  have i: "i < length (bufs info)" "status (bufs info ! i) = UIP_FREE" using first_buf_SomeD [OF f] by auto
  let ?b = "(bufs info ! i)\<lparr>status := UIP_INUSE\<rparr>"
  have ok: "buf_ok info ?b" using pool_ok_buf [OF assms(1) i(1)] by (simp add: buf_ok_def)
  have c: "count_buf UIP_FREE (put_buf i ?b info) + 1 = count_buf UIP_FREE info" "count_buf UIP_USED (put_buf i ?b info) = count_buf UIP_USED info"
    using count_buf_put [OF i(1), of UIP_FREE ?b] count_buf_put [OF i(1), of UIP_USED ?b] i(2) by simp_all
  let ?info = "(put_buf i ?b info)\<lparr>buf_free_nr := buf_free_nr info - 1\<rparr>"
  have "\<forall>c \<in> set (bufs ?info). buf_ok info c" using pool_bufs_put [of info ?b i] assms(1) ok by (simp add: pool_ok_def)
  then have "pool_ok ?info" using assms(1) c by (auto simp: pool_ok_def)
  moreover have "holds i ?info" using i(1) by (simp add: holds_def put_buf_def)
  ultimately show ?thesis using f assms by (auto simp: uip_buf_get_free_def pool_ok_def set_status_put)
qed

lemma buf_set_used_ok:
  assumes "pool_ok info" and "holds i info"
  shows "pool_ok (uip_buf_set_used i info)" and "count_buf UIP_USED (uip_buf_set_used i info) = count_buf UIP_USED info + 1"
    and "count_buf UIP_FREE (uip_buf_set_used i info) = count_buf UIP_FREE info"
proof -
  have i: "i < length (bufs info)" "status (bufs info ! i) = UIP_INUSE" using assms(2) by (auto simp: holds_def)
  let ?b = "(bufs info ! i)\<lparr>status := UIP_USED\<rparr>"
  let ?info = "uip_buf_set_used i info"
  have eq: "count_buf st ?info = count_buf st (put_buf i ?b info)" "buf_ok ?info = buf_ok info" for st
    by (auto simp: count_buf_def buf_ok_def fun_eq_iff uip_buf_set_used_def set_status_put)
  show u: "count_buf UIP_USED ?info = count_buf UIP_USED info + 1" and f: "count_buf UIP_FREE ?info = count_buf UIP_FREE info"
    using count_buf_put [OF i(1), of UIP_FREE ?b] count_buf_put [OF i(1), of UIP_USED ?b] i(2) by (simp_all add: eq)
  have "buf_ok info ?b" using pool_ok_buf [OF assms(1) i(1)] by (simp add: buf_ok_def)
  then have "\<forall>c \<in> set (bufs ?info). buf_ok info c"
    using pool_bufs_put [of info ?b i] assms(1) by (simp add: pool_ok_def uip_buf_set_used_def set_status_put)
  then show "pool_ok ?info" using assms(1) u f by (simp add: pool_ok_def eq(2)) (simp add: uip_buf_set_used_def set_status_def)
qed

lemma get_used_ok:
  assumes "pool_ok info" and "0 < count_buf UIP_USED info"
  shows "\<exists>i info1. uip_buf_get_used info = Some (Inr (Some i, info1)) \<and> first_buf UIP_USED info = Some i \<and>
    pool_ok (uip_buf_set_free i info1) \<and> bufs info1 ! i = (bufs info ! i)\<lparr>status := UIP_INUSE\<rparr> \<and>
    count_buf UIP_FREE (uip_buf_set_free i info1) = count_buf UIP_FREE info + 1 \<and>
    count_buf UIP_USED (uip_buf_set_free i info1) = count_buf UIP_USED info - 1 \<and>
    bufs (uip_buf_set_free i info1) = (bufs info)[i := (bufs info ! i)\<lparr>status := UIP_FREE\<rparr>]"
proof -
  obtain i where f: "first_buf UIP_USED info = Some i" using assms(2) first_buf_None_iff [of UIP_USED info] by (cases "first_buf UIP_USED info") auto
  have i: "i < length (bufs info)" "status (bufs info ! i) = UIP_USED" using first_buf_SomeD [OF f] by auto
  define info1 where "info1 = (set_status i UIP_INUSE info)\<lparr>buf_used_nr := buf_used_nr info - 1\<rparr>"
  define info2 where "info2 = uip_buf_set_free i info1"
  let ?b = "(bufs info ! i)\<lparr>status := UIP_FREE\<rparr>"
  have b: "bufs info2 = bufs (put_buf i ?b info)"
    using i(1) by (simp add: info2_def info1_def uip_buf_set_free_def set_status_def put_buf_def)
  have eq: "count_buf st info2 = count_buf st (put_buf i ?b info)" "buf_ok info2 = buf_ok info" for st
    using b by (auto simp: count_buf_def buf_ok_def fun_eq_iff info2_def info1_def uip_buf_set_free_def set_status_def)
  have c: "count_buf UIP_FREE info2 = count_buf UIP_FREE info + 1" "count_buf UIP_USED info2 + 1 = count_buf UIP_USED info"
    using count_buf_put [OF i(1), of UIP_FREE ?b] count_buf_put [OF i(1), of UIP_USED ?b] i(2) by (simp_all add: eq)
  have "buf_ok info ?b" using pool_ok_buf [OF assms(1) i(1)] by (simp add: buf_ok_def)
  then have "\<forall>c \<in> set (bufs info2). buf_ok info c"
    using pool_bufs_put [of info ?b i] assms(1) b by (simp add: pool_ok_def)
  moreover have "buf_free_nr info2 = buf_free_nr info + 1" "buf_used_nr info2 = buf_used_nr info - 1"
    "host_mac info2 = host_mac info" "guest_mac info2 = guest_mac info"
    by (simp_all add: info2_def info1_def uip_buf_set_free_def set_status_def)
  ultimately have "pool_ok info2" using assms(1) c by (simp add: pool_ok_def eq(2))
  moreover have "bufs info2 = (bufs info)[i := ?b]" using b by (simp add: put_buf_def)
  moreover have "count_buf UIP_USED info2 = count_buf UIP_USED info - 1" using c(2) by simp
  ultimately show ?thesis
    using f assms c(1) i(1) by (intro exI [of _ i] exI [of _ info1]) (auto simp: uip_buf_get_used_def pool_ok_def set_status_def info2_def info1_def)
qed

end
