(* ===== verification/Uiptcp.thy ===== *)
theory Uiptcp
  imports Uipbuf
begin

text \<open>
  The TCP side of the user-mode network stack, \<^verbatim>\<open>net/uip/tcp.c\<close>: the stack ends the guest's connections and
  carries their bytes over sockets of the host. A socket is known by its descriptor \<open>ts_fd\<close>. The
  thread of a connection reads from the host and sends segments to the guest; its loop is split
  at the points where it waits. What the host answers to a call is an argument.
\<close>

section \<open>Frames to the guest\<close>

text \<open>The assignments that start a frame, in \<^verbatim>\<open>uip_tcp_payload_send\<close> and in \<^verbatim>\<open>uip_udp_make_pkg\<close>.\<close>

definition eth_ip_hdr :: "u8 \<Rightarrow> u32 \<Rightarrow> u32 \<Rightarrow> uip_info \<Rightarrow> (nat \<times> u8 list) list" where
  "eth_ip_hdr proto sip dip info =
     [(6, host_mac info), (0, guest_mac info), (12, be_bytes 2 (0x0800 :: u16)), (14, [0x45]), (15, [0]), (18, [0, 0]), (20, [0, 0]),
      (22, [0x40]), (23, [proto]), (24, [0, 0]), (26, be_bytes 4 sip), (30, be_bytes 4 dip)]"

definition store_ip_csum :: "u8 list \<Rightarrow> u8 list result" where
  "store_ip_csum fr = rbind (uip_csum_ip fr) (\<lambda>c. memcpy_to fr 24 (le_bytes 2 c))"

definition tcp_hdr :: "tcp_socket \<Rightarrow> u8 \<Rightarrow> (nat \<times> u8 list) list" where
  "tcp_hdr sk flg =
     [(34, be_bytes 2 (ts_dport sk)), (36, be_bytes 2 (ts_sport sk)), (38, be_bytes 4 (seq_server sk)), (42, be_bytes 4 (ack_server sk)),
      (46, [0x50]), (47, [flg]), (48, be_bytes 2 (14600 :: u16)), (50, [0, 0]), (52, [0, 0])]"

definition tcp_frame :: "tcp_socket \<Rightarrow> u8 \<Rightarrow> u8 list \<Rightarrow> uip_info \<Rightarrow> u8 list \<Rightarrow> u8 list result" where
  "tcp_frame sk flg payload info fr =
     rbind (stores (eth_ip_hdr 6 (ts_dip sk) (ts_sip sk) info @ tcp_hdr sk flg) fr) (\<lambda>f1.
     rbind (uip_tcp_hdrlen f1) (\<lambda>th.
     rbind (memcpy_to f1 (34 + unat th) payload) (\<lambda>f2.
     rbind (uip_ip_hdrlen f2) (\<lambda>ih.
     rbind (memcpy_to f2 16 (be_bytes 2 (th + of_nat (length payload) + ih))) (\<lambda>f3.
     rbind (store_ip_csum f3) (\<lambda>f4.
     rbind (uip_csum_tcp f4) (\<lambda>(c, f5). memcpy_to f5 50 (le_bytes 2 c))))))))"

text \<open>The rest of both functions: the virtio header and the lengths.\<close>

definition finish_frame :: "uip_info \<Rightarrow> (u8 list \<Rightarrow> u8 list result) \<Rightarrow> uip_buf \<Rightarrow> uip_buf result" where
  "finish_frame info build b =
     rbind (build (eth b)) (\<lambda>fr.
     rbind (memcpy_to (vnet b) 0 (replicate (vnet_hdr_len info) 0)) (\<lambda>v.
     rbind (uip_ip_len fr) (\<lambda>n.
       Inr (b\<lparr>eth := fr, vnet := v, vnet_len := vnet_hdr_len info, eth_len := unat n + 14\<rparr>))))"

section \<open>Sockets\<close>

definition find_tcp :: "int \<Rightarrow> uip_info \<Rightarrow> tcp_socket option" where
  "find_tcp fd info = find (\<lambda>sk. ts_fd sk = fd) (tcp_sockets info)"

definition put_tcp :: "tcp_socket \<Rightarrow> uip_info \<Rightarrow> uip_info" where
  "put_tcp sk info = info\<lparr>tcp_sockets := map (\<lambda>s. if ts_fd s = ts_fd sk then sk else s) (tcp_sockets info)\<rparr>"

text \<open>
  \<open>held\<close>: the caller holds the lock of the socket list, which the function takes itself before it
  removes the socket: then it waits for ever.
\<close>

definition uip_tcp_socket_close :: "bool \<Rightarrow> tcp_socket \<Rightarrow> (int \<Rightarrow> host_call) \<Rightarrow> uip_info \<Rightarrow> uip_info blocking" where
  "uip_tcp_socket_close held sk how info =
     (let info1 = log_call (how (ts_fd sk)) info in
      if write_done sk \<and> read_done sk
      then (let info2 = log_call (Close (ts_fd sk)) (log_call (ShutRdWr (ts_fd sk)) info1) in
            if held then None
            else Some (Inr (info2\<lparr>tcp_sockets := filter (\<lambda>s. ts_fd s \<noteq> ts_fd sk) (tcp_sockets info2)\<rparr>)))
      else Some (Inr info1))"

definition uip_tcp_socket_find :: "u32 \<Rightarrow> u32 \<Rightarrow> u16 \<Rightarrow> u16 \<Rightarrow> uip_info \<Rightarrow> tcp_socket option" where
  "uip_tcp_socket_find sip dip sport dport info =
     find (\<lambda>sk. ts_sip sk = sip \<and> ts_dip sk = dip \<and> ts_sport sk = sport \<and> ts_dport sk = dport) (tcp_sockets info)"

definition uip_tcp_socket_alloc :: "int \<Rightarrow> bool \<Rightarrow> u32 \<Rightarrow> u32 \<Rightarrow> u16 \<Rightarrow> u16 \<Rightarrow> uip_info \<Rightarrow> tcp_socket option \<times> uip_info" where
  "uip_tcp_socket_alloc fd connects sip dip sport dport info =
     (let info1 = log_call (Connect fd (if dip = host_ip info then 0x7f000001 else dip) dport) info in
      if \<not> connects then (None, info1)
      else let sk = \<lparr> ts_sip = sip, ts_dip = dip, ts_sport = sport, ts_dport = dport, ts_fd = fd, guest_acked = 0, window_size = 0,
              isn_server = 0, isn_guest = 0, ack_server = 0, seq_server = 0, write_done = False, read_done = False, ts_thread = False \<rparr>
           in (Some sk, info1\<lparr>tcp_sockets := tcp_sockets info1 @ [sk]\<rparr>))"

definition uip_tcp_payload_send :: "tcp_socket \<Rightarrow> u8 \<Rightarrow> u8 list \<Rightarrow> uip_info \<Rightarrow> (tcp_socket \<times> uip_info) blocking" where
  "uip_tcp_payload_send sk flg payload info =
     with_buf (uip_buf_get_free info) (\<lambda>i info1.
       Some (rbind (edit_buf i (finish_frame info1 (tcp_frame sk flg payload info1)) info1) (\<lambda>info2.
         let sk' = sk\<lparr>seq_server := seq_server sk + of_nat (length payload)\<rparr>
         in Inr (sk', uip_buf_set_used i (put_tcp sk' info2)))))"

section \<open>Segments from the guest\<close>

definition uip_tcp_socket_receive :: "tcp_socket \<Rightarrow> tcp_socket" where
  "uip_tcp_socket_receive sk = (if ts_thread sk then sk else sk\<lparr>ts_thread := True\<rparr>)"

text \<open>\<open>ret\<close> is what \<^verbatim>\<open>write\<close> returns; the call is logged with the bytes that it took.\<close>

definition uip_tcp_socket_send :: "int \<Rightarrow> tcp_socket \<Rightarrow> u8 list \<Rightarrow> uip_info \<Rightarrow> (int \<times> uip_info) result" where
  "uip_tcp_socket_send ret sk fr info =
     (if write_done sk then Inr (0, info)
      else rbind (uip_tcp_hdrlen fr) (\<lambda>th.
           rbind (uip_tcp_payloadlen fr) (\<lambda>n.
           rbind (memcpy_from fr (34 + unat th) (unat n)) (\<lambda>payload.
             Inr (ret, log_call (Write (ts_fd sk) (take (nat ret) payload)) info)))))"

definition tcp_open :: "int \<Rightarrow> bool \<Rightarrow> u8 list \<Rightarrow> u32 \<Rightarrow> u32 \<Rightarrow> u16 \<Rightarrow> u16 \<Rightarrow> uip_info \<Rightarrow> uip_info blocking" where
  "tcp_open fd connects fr sip dip sport dport info =
     (case uip_tcp_socket_alloc fd connects sip dip sport dport info of
        (None, info1) \<Rightarrow> Some (Inr info1)
      | (Some sk, info1) \<Rightarrow>
          sbind (Some (rd16 48 fr)) (\<lambda>win.
          sbind (Some (uip_tcp_isn fr)) (\<lambda>isn.
            let sk1 = sk\<lparr>window_size := win, isn_guest := isn, isn_server := 10000000, seq_server := 10000000, ack_server := isn + 1\<rparr> in
            sbind (uip_tcp_payload_send sk1 18 [] (put_tcp sk1 info1)) (\<lambda>(sk2, info2).
              Some (Inr (put_tcp (uip_tcp_socket_receive (sk2\<lparr>seq_server := seq_server sk2 + 1\<rparr>)) info2))))))"

definition tcp_segment :: "int \<Rightarrow> u8 list \<Rightarrow> tcp_socket \<Rightarrow> uip_info \<Rightarrow> uip_info blocking" where
  "tcp_segment ret fr sk info =
     sbind (Some (uip_tcp_is_fin fr)) (\<lambda>fin.
       if fin then
         (if write_done sk then Some (Inr info)
          else let sk1 = sk\<lparr>write_done := True, ack_server := ack_server sk + 1\<rparr> in
               sbind (uip_tcp_payload_send sk1 16 [] (put_tcp sk1 info)) (\<lambda>(sk2, info1).
                 uip_tcp_socket_close False sk2 ShutWr info1))
       else sbind (Some (uip_tcp_payloadlen fr)) (\<lambda>n.
         if n = 0 then Some (Inr info)
         else sbind (Some (uip_tcp_socket_send ret sk fr info)) (\<lambda>(r, info1).
           if r < 0 then Some (Inr info1)
           else let sk1 = sk\<lparr>ack_server := ack_server sk + of_int r\<rparr> in
                sbind (uip_tcp_payload_send sk1 16 [] (put_tcp sk1 info1)) (\<lambda>(sk2, info2). Some (Inr info2)))))"

definition uip_tx_do_ipv4_tcp :: "int \<Rightarrow> bool \<Rightarrow> int \<Rightarrow> uip_tx_arg \<Rightarrow> uip_info \<Rightarrow> uip_info blocking" where
  "uip_tx_do_ipv4_tcp fd connects ret arg info =
     (let fr = arg_eth arg in
      sbind (Some (uip_tcp_is_syn fr)) (\<lambda>syn.
      sbind (Some (rd32 26 fr)) (\<lambda>sip.
      sbind (Some (rd32 30 fr)) (\<lambda>dip.
      sbind (Some (rd16 34 fr)) (\<lambda>sport.
      sbind (Some (rd16 36 fr)) (\<lambda>dport.
        if syn then tcp_open fd connects fr sip dip sport dport info
        else case uip_tcp_socket_find sip dip sport dport info of
            None \<Rightarrow> Some (Inr info)
          | Some sk \<Rightarrow>
             sbind (Some (rd16 48 fr)) (\<lambda>win.
             sbind (Some (rd32 42 fr)) (\<lambda>ack.
               let sk1 = sk\<lparr>window_size := win, guest_acked := ack\<rparr> in tcp_segment ret fr sk1 (put_tcp sk1 info)))))))))"

section \<open>The thread of a connection\<close>

abbreviation (input) UIP_MAX_TCP_PAYLOAD :: nat where "UIP_MAX_TCP_PAYLOAD \<equiv> 65495"

text \<open>How much the guest takes: the \<^verbatim>\<open>int\<close> of a difference of \<^verbatim>\<open>u32\<close>.\<close>

definition tcp_room :: "tcp_socket \<Rightarrow> int" where
  "tcp_room sk = sint (guest_acked sk + ucast (window_size sk) - seq_server sk)"

text \<open>One turn of the inner loop; \<open>left\<close> are the bytes from \<^verbatim>\<open>pos\<close> on.\<close>

definition tcp_thread_chunk :: "int \<Rightarrow> u8 list \<Rightarrow> uip_info \<Rightarrow> (u8 list \<times> uip_info) blocking" where
  "tcp_thread_chunk fd left info =
     (case find_tcp fd info of
        None \<Rightarrow> Some (Inl UseAfterFree)
      | Some sk \<Rightarrow>
          if tcp_room sk \<le> 0 then None
          else let n = min (min (nat (tcp_room sk)) (length left)) UIP_MAX_TCP_PAYLOAD in
               sbind (uip_tcp_payload_send sk 16 (take n left) info) (\<lambda>(sk', info'). Some (Inr (drop n left, info'))))"

definition tcp_thread_out :: "int \<Rightarrow> uip_info \<Rightarrow> uip_info blocking" where
  "tcp_thread_out fd info =
     (case find_tcp fd info of
        None \<Rightarrow> Some (Inl UseAfterFree)
      | Some sk \<Rightarrow>
          sbind (uip_tcp_socket_close False sk ShutRd info) (\<lambda>info1.
            case find_tcp fd info1 of
              None \<Rightarrow> Some (Inl UseAfterFree)
            | Some sk1 \<Rightarrow>
               sbind (uip_tcp_payload_send sk1 17 [] info1) (\<lambda>(sk2, info2).
                 Some (Inr (put_tcp (sk2\<lparr>seq_server := seq_server sk2 + 1, read_done := True\<rparr>) info2)))))"

section \<open>The end\<close>

definition uip_tcp_socket_free :: "tcp_socket \<Rightarrow> uip_info \<Rightarrow> uip_info blocking" where
  "uip_tcp_socket_free sk info =
     (let sk1 = sk\<lparr>write_done := True, read_done := True\<rparr> in uip_tcp_socket_close True sk1 ShutRdWr (put_tcp sk1 info))"

fun uip_tcp_exit :: "tcp_socket list \<Rightarrow> uip_info \<Rightarrow> uip_info blocking" where
  "uip_tcp_exit [] info = Some (Inr info)"
| "uip_tcp_exit (sk # sks) info = sbind (uip_tcp_socket_free sk info) (uip_tcp_exit sks)"

section \<open>The frames are right\<close>

lemma uip_ip_hdrlen_45: "14 < length fr \<Longrightarrow> fr ! 14 = 0x45 \<Longrightarrow> uip_ip_hdrlen fr = Inr 20"
  by (simp add: uip_ip_hdrlen_def)

lemma bytes_at_add: "bytes_at off (m + n) xs = bytes_at off m xs @ bytes_at (off + m) n xs"
  by (simp add: bytes_at_def take_add add.commute)

lemma store_ip_csum_ok:
  assumes "34 \<le> length fr" and "fr ! 14 = 0x45" and "bytes_at 24 2 fr = [0, 0]"
  shows "\<exists>c :: u16. store_ip_csum fr = Inr (blit fr 24 (le_bytes 2 c)) \<and> csum_right (bytes_at 14 20 (blit fr 24 (le_bytes 2 c)))"
proof -
  let ?c = "uip_csum 0 (bytes_at 14 20 fr)"
  have parts: "bytes_at 14 20 g = bytes_at 14 10 g @ bytes_at 24 2 g @ bytes_at 26 8 g" for g :: "u8 list"
    using bytes_at_add [of 14 10 10 g] bytes_at_add [of 24 2 8 g] by simp
  have l: "length (bytes_at 14 10 fr) = 10" using assms(1) by (simp add: length_bytes_at)
  have "store_ip_csum fr = Inr (blit fr 24 (le_bytes 2 ?c))"
    using assms(1) uip_ip_hdrlen_45 [OF _ assms(2)]
    by (simp add: store_ip_csum_def uip_csum_ip_def csum_at_def memcpy_from_def memcpy_to_def bytes_at_def)
  moreover have "bytes_at 14 20 (blit fr 24 (le_bytes 2 ?c)) = bytes_at 14 10 fr @ le_bytes 2 ?c @ bytes_at 26 8 fr"
    using assms(1) by (simp add: parts bytes_at_blit_apart bytes_at_blit_same)
  moreover have "bytes_at 14 20 fr = bytes_at 14 10 fr @ [0, 0] @ bytes_at 26 8 fr" by (simp only: parts assms(3))
  moreover have "csum_right (bytes_at 14 10 fr @ le_bytes 2 (uip_csum 0 (bytes_at 14 10 fr @ [0, 0] @ bytes_at 26 8 fr)) @ bytes_at 26 8 fr)"
    using l by (intro csum_stored_right) simp
  ultimately show ?thesis by (intro exI [of _ ?c]) simp
qed

text \<open>
  The end of both builders: with the header and the segment in place, the checksum of the header
  at 24 and that of the segment at offset \<open>k\<close> still zero, both checksums are computed and stored.
\<close>

definition seal :: "nat \<Rightarrow> u16 \<Rightarrow> u8 list \<Rightarrow> u8 list result" where
  "seal k len fr = rbind (store_ip_csum fr) (\<lambda>f4. rbind (csum_segment len f4) (\<lambda>(c, f5). memcpy_to f5 (34 + k) (le_bytes 2 c)))"

definition sealed :: "nat \<Rightarrow> nat \<Rightarrow> u8 list \<Rightarrow> u8 list \<Rightarrow> bool" where
  "sealed k n fr f \<longleftrightarrow> length f = length fr \<and> csum_right (bytes_at 14 20 f) \<and> csum_right (pseudo f (of_nat n) @ bytes_at 34 n f) \<and>
     (\<forall>off m. off + m \<le> 34 + n \<longrightarrow> (off + m \<le> 24 \<or> 26 \<le> off) \<longrightarrow> (off + m \<le> 34 + k \<or> 36 + k \<le> off) \<longrightarrow> bytes_at off m f = bytes_at off m fr)"

lemma bytes_at_blit_shift:
  assumes "off + n \<le> length fr" and "k + length src \<le> n"
  shows "bytes_at off n (blit fr (off + k) src) = blit (bytes_at off n fr) k src"
proof (rule nth_equalityI)
  show "length (bytes_at off n (blit fr (off + k) src)) = length (blit (bytes_at off n fr) k src)"
    using assms by (simp add: length_bytes_at)
  fix i assume "i < length (bytes_at off n (blit fr (off + k) src))"
  then have "i < n" using assms by (simp add: length_bytes_at)
  then show "bytes_at off n (blit fr (off + k) src) ! i = blit (bytes_at off n fr) k src ! i"
    using assms by (auto simp: nth_blit length_bytes_at) (auto simp: bytes_at_def nth_blit)
qed

lemma seal_ok:
  assumes "fr ! 14 = 0x45" and "bytes_at 24 2 fr = [0, 0]" and "bytes_at (34 + k) 2 fr = [0, 0]"
    and "even k" and "k + 2 \<le> n" and "n \<le> 65522" and "34 + n + length (pad_of n) + 12 \<le> length fr"
  shows "\<exists>f. seal k (of_nat n) fr = Inr f \<and> sealed k n fr f"
proof -
  have un: "unat (of_nat n :: u16) = n" using assms(6) by (simp add: unat_of_nat)
  obtain c1 :: u16 where f4: "store_ip_csum fr = Inr (blit fr 24 (le_bytes 2 c1))" "csum_right (bytes_at 14 20 (blit fr 24 (le_bytes 2 c1)))"
    using store_ip_csum_ok [of fr] assms(1,2,7) by auto
  define f where "f = blit fr 24 (le_bytes 2 c1)"
  have lf: "length f = length fr" using assms(7) by (simp add: f_def)
  have seg: "bytes_at 34 n f = bytes_at 34 n fr" using assms(7) by (simp add: f_def bytes_at_blit_apart)
  let ?s = "bytes_at 34 n f" and ?h = "pseudo f (of_nat n)"
  define c where "c = uip_csum 0 (?s @ pad_of n @ ?h)"
  obtain g where g: "csum_segment (of_nat n) f = Inr (c, g)" "length g = length fr" "take (34 + n) g = take (34 + n) f"
    using csum_segment_ok [of "of_nat n" f] assms(6,7) lf unfolding un c_def by auto
  have pre: "bytes_at off m g = bytes_at off m f" if "off + m \<le> 34 + n" for off m
    by (rule bytes_at_prefix [OF g(3) that])
  define r where "r = blit g (34 + k) (le_bytes 2 c)"
  have lr: "length r = length fr" using g(2) assms(5,7) by (simp add: r_def)
  have rk: "bytes_at off m r = bytes_at off m f" if "off + m \<le> 34 + n" "off + m \<le> 34 + k \<or> 36 + k \<le> off" for off m
    unfolding r_def using that g(2) assms(5,7) pre by (subst bytes_at_blit_apart) auto
  have keep: "bytes_at off m r = bytes_at off m fr"
    if "off + m \<le> 34 + n" "off + m \<le> 24 \<or> 26 \<le> off" "off + m \<le> 34 + k \<or> 36 + k \<le> off" for off m
  proof -
    have "bytes_at off m r = bytes_at off m f" using that(1,3) by (rule rk)
    also have "\<dots> = bytes_at off m fr" unfolding f_def using that(2) assms(7) by (intro bytes_at_blit_apart) auto
    finally show ?thesis .
  qed
  have hd: "bytes_at 14 20 r = bytes_at 14 20 f" and ad: "bytes_at 26 8 r = bytes_at 26 8 f" and pr: "bytes_at 23 1 r = bytes_at 23 1 f"
    using assms(5) by (auto intro: rk)
  have "r ! 23 = f ! 23"
    using pr lf lr assms(7) unfolding bytes_at_def by (simp add: take_Suc_conv_app_nth hd_drop_conv_nth take_Suc)
  then have ps: "pseudo r (of_nat n) = ?h" using ad by (simp add: pseudo_def)
  have sr: "bytes_at 34 n r = blit ?s k (le_bytes 2 c)"
    unfolding r_def using bytes_at_blit_shift [of 34 n g k "le_bytes 2 c"] pre [of 34 n] g(2) assms(5,7) by simp
  have z: "take 2 (drop k ?s) = [0, 0]"
    using assms(3,5) seg by (simp add: bytes_at_def drop_take add.commute)
  have ls: "length ?s = n" and lh: "length ?h = 12" using lf assms(7) by (simp_all add: length_bytes_at pseudo_def)
  have "csum_right (?h @ blit ?s k (le_bytes 2 c))"
    using segment_csum_right [OF assms(4) _ z, of ?h] assms(5) ls lh by (simp add: c_def)
  moreover have "seal k (of_nat n) fr = Inr r"
    using f4(1) g assms(5,7) by (simp add: seal_def memcpy_to_def r_def f_def [symmetric])
  moreover have "csum_right (bytes_at 14 20 r)" using f4(2) hd by (simp add: f_def)
  ultimately show ?thesis using keep lr ps sr unfolding sealed_def by auto
qed

text \<open>A frame of a connection to the guest, as the guest reads it.\<close>

definition ip_carries :: "u8 \<Rightarrow> u32 \<Rightarrow> u32 \<Rightarrow> nat \<Rightarrow> uip_info \<Rightarrow> u8 list \<Rightarrow> bool" where
  "ip_carries proto sip dip n info f \<longleftrightarrow> bytes_at 0 6 f = guest_mac info \<and> bytes_at 6 6 f = host_mac info \<and>
     field 12 2 f = (0x0800 :: u16) \<and> bytes_at 14 1 f = [0x45] \<and> bytes_at 23 1 f = [proto] \<and>
     field 26 4 f = sip \<and> field 30 4 f = dip \<and> csum_right (bytes_at 14 20 f) \<and> csum_right (pseudo f (of_nat n) @ bytes_at 34 n f)"

definition tcp_carries :: "tcp_socket \<Rightarrow> u8 \<Rightarrow> u8 list \<Rightarrow> uip_info \<Rightarrow> u8 list \<Rightarrow> bool" where
  "tcp_carries sk flg payload info f \<longleftrightarrow> ip_carries 6 (ts_dip sk) (ts_sip sk) (20 + length payload) info f \<and>
     field 16 2 f = (of_nat (40 + length payload) :: u16) \<and>
     field 34 2 f = ts_dport sk \<and> field 36 2 f = ts_sport sk \<and> field 38 4 f = seq_server sk \<and> field 42 4 f = ack_server sk \<and>
     bytes_at 46 2 f = [0x50, flg] \<and> bytes_at 54 (length payload) f = payload"

lemma eth_ip_hdr_ok:
  assumes "length (host_mac info) = 6" and "length (guest_mac info) = 6" and "48 \<le> length fr"
    and "\<forall>(off, src) \<in> set ps. 34 \<le> off \<and> off + length src \<le> length fr" and "apart_all ps"
  shows "stores (eth_ip_hdr proto sip dip info @ ps) fr = Inr (stored (eth_ip_hdr proto sip dip info @ ps) fr)"
    and "length (stored (eth_ip_hdr proto sip dip info @ ps) fr) = length fr"
    and "(off, src) \<in> set (eth_ip_hdr proto sip dip info @ ps) \<Longrightarrow> bytes_at off (length src) (stored (eth_ip_hdr proto sip dip info @ ps) fr) = src"
proof -
  let ?ps = "eth_ip_hdr proto sip dip info @ ps"
  have b: "\<forall>(off, src) \<in> set ?ps. off + length src \<le> length fr"
    using assms(1-4) by (auto simp: eth_ip_hdr_def)
  then show "stores ?ps fr = Inr (stored ?ps fr)" "length (stored ?ps fr) = length fr" using stores_ok [of ?ps fr] by auto
  have "apart_all ?ps" using assms(1,2,4,5) by (fastforce simp: eth_ip_hdr_def)
  then show "(off, src) \<in> set ?ps \<Longrightarrow> bytes_at off (length src) (stored ?ps fr) = src" using b by (intro stored_get)
qed

lemma sealed_keep:
  "sealed k n fr f \<Longrightarrow> off + m \<le> 34 + n \<Longrightarrow> off + m \<le> 24 \<or> 26 \<le> off \<Longrightarrow> off + m \<le> 34 + k \<or> 36 + k \<le> off \<Longrightarrow>
   bytes_at off m f = bytes_at off m fr"
  unfolding sealed_def by blast

lemma field_of: "bytes_at off n f = be_bytes n w \<Longrightarrow> LENGTH('a) = 8 * n \<Longrightarrow> field off n f = (w :: 'a::len word)"
  by (simp add: field_def be_word_bytes)

lemma nth_bytes_at: "bytes_at off 1 f = [x] \<Longrightarrow> f ! off = x"
  by (cases "off < length f") (auto simp: bytes_at_def take_Suc hd_drop_conv_nth)

text \<open>The headers that both builders leave, up to the assignments of their own at 34 and behind.\<close>

lemma ip_carries_sealed:
  assumes "\<And>off src. (off, src) \<in> set (eth_ip_hdr proto sip dip info) \<Longrightarrow> off \<noteq> 24 \<Longrightarrow> bytes_at off (length src) fr = src"
    and "sealed k n fr f" and "length (host_mac info) = 6" and "length (guest_mac info) = 6"
  shows "ip_carries proto sip dip n info f"
proof -
  have k: "bytes_at off m f = bytes_at off m fr" if "off + m \<le> 34" "off + m \<le> 24 \<or> 26 \<le> off" for off m
    using sealed_keep [OF assms(2), of off m] that by simp
  note h = assms(1) [of 0 "guest_mac info"] assms(1) [of 6 "host_mac info"] assms(1) [of 12 "be_bytes 2 (0x0800 :: u16)"]
    assms(1) [of 14 "[0x45]"] assms(1) [of 23 "[proto]"] assms(1) [of 26 "be_bytes 4 sip"] assms(1) [of 30 "be_bytes 4 dip"]
  have "bytes_at 0 6 f = guest_mac info" "bytes_at 6 6 f = host_mac info" "bytes_at 12 2 f = be_bytes 2 (0x0800 :: u16)"
    "bytes_at 14 1 f = [0x45]" "bytes_at 23 1 f = [proto]" "bytes_at 26 4 f = be_bytes 4 sip" "bytes_at 30 4 f = be_bytes 4 dip"
    using h assms(3,4) by (simp_all add: k eth_ip_hdr_def)
  then show ?thesis
    using assms(2) unfolding ip_carries_def sealed_def by (simp add: field_of)
qed

lemma tcp_frame_parts:
  assumes "length fr = UIP_ETH_BUF" and "length (host_mac info) = 6" and "length (guest_mac info) = 6" and "length payload \<le> 65494"
  shows "\<exists>f3. tcp_frame sk flg payload info fr = seal 16 (of_nat (20 + length payload)) f3 \<and> length f3 = UIP_ETH_BUF \<and> f3 ! 14 = 0x45 \<and>
    bytes_at 24 2 f3 = [0, 0] \<and> bytes_at (34 + 16) 2 f3 = [0, 0] \<and>
    (\<forall>off src. (off, src) \<in> set (eth_ip_hdr 6 (ts_dip sk) (ts_sip sk) info @ tcp_hdr sk flg) \<longrightarrow> bytes_at off (length src) f3 = src) \<and>
    bytes_at 16 2 f3 = be_bytes 2 (of_nat (40 + length payload) :: u16) \<and> bytes_at 54 (length payload) f3 = payload"
proof -
  let ?p = "length payload" and ?hs = "eth_ip_hdr 6 (ts_dip sk) (ts_sip sk) info"
  define f1 where "f1 = stored (?hs @ tcp_hdr sk flg) fr"
  have ps: "\<forall>(off, src) \<in> set (tcp_hdr sk flg). 34 \<le> off \<and> off + length src \<le> length fr" "apart_all (tcp_hdr sk flg)"
    using assms(1) by (auto simp: tcp_hdr_def)
  note e = eth_ip_hdr_ok [OF assms(2,3) _ ps, where proto = 6 and sip = "ts_dip sk" and dip = "ts_sip sk", folded f1_def]
  have l1: "length f1 = UIP_ETH_BUF" and s1: "stores (?hs @ tcp_hdr sk flg) fr = Inr f1" using e(1,2) assms(1) by simp_all
  have h1: "bytes_at off (length src) f1 = src" if "(off, src) \<in> set (?hs @ tcp_hdr sk flg)" for off src
    using e(3) [OF _ that] assms(1) by simp
  define f2 where "f2 = blit f1 54 payload"
  define f3 where "f3 = blit f2 16 (be_bytes 2 (of_nat (40 + ?p) :: u16))"
  have l2: "length f2 = UIP_ETH_BUF" and l3: "length f3 = UIP_ETH_BUF" using l1 assms(4) by (simp_all add: f2_def f3_def)
  have k3: "bytes_at off m f3 = bytes_at off m f1" if "off + m \<le> 54" "off + m \<le> 16 \<or> 18 \<le> off" for off m
    using that l1 l2 assms(4) by (simp add: f3_def f2_def bytes_at_blit_apart)
  have h3: "bytes_at off (length src) f3 = src" if "(off, src) \<in> set (?hs @ tcp_hdr sk flg)" for off src
    using h1 [OF that] that assms(2,3) by (subst k3) (auto simp: eth_ip_hdr_def tcp_hdr_def)
  have len3: "bytes_at 16 2 f3 = be_bytes 2 (of_nat (40 + ?p) :: u16)" using l2 by (simp add: f3_def bytes_at_blit_same)
  have pay3: "bytes_at 54 ?p f3 = payload" using l1 l2 assms(4) by (simp add: f3_def f2_def bytes_at_blit_apart bytes_at_blit_same)
  have v: "f1 ! 14 = 0x45" "f3 ! 14 = 0x45" "f2 ! 14 = 0x45" "f1 ! 46 = 0x50"
    using h1 [of 14 "[0x45]"] h3 [of 14 "[0x45]"] h1 [of 46 "[0x50]"] l1 assms(4)
    by (auto simp: eth_ip_hdr_def tcp_hdr_def f2_def nth_blit intro: nth_bytes_at)
  have z: "bytes_at 24 2 f3 = [0, 0]" "bytes_at (34 + 16) 2 f3 = [0, 0]"
    using h3 [of 24 "[0, 0]"] h3 [of 50 "[0, 0]"] by (simp_all add: eth_ip_hdr_def tcp_hdr_def numeral_2_eq_2)
  obtain f4 where f4: "store_ip_csum f3 = Inr f4" "length f4 = UIP_ETH_BUF" "bytes_at 16 2 f4 = bytes_at 16 2 f3" "f4 ! 14 = 0x45"
    using store_ip_csum_ok [OF _ v(2) z(1)] v(2) l3 by (auto simp: bytes_at_blit_apart nth_blit)
  have "uip_ip_len f4 = Inr (of_nat (40 + ?p))"
    using f4(2,3) len3 by (simp add: uip_ip_len_def rd16_def memcpy_from_def bytes_at_def)
  then have "uip_tcp_len f4 = Inr (of_nat (20 + ?p))"
    using uip_ip_hdrlen_45 [of f4] f4(2,4) by (simp add: uip_tcp_len_def)
  then have c: "uip_csum_tcp f4 = csum_segment (of_nat (20 + ?p)) f4" by (simp add: uip_csum_tcp_def)
  have th: "uip_tcp_hdrlen f1 = Inr 20" using v(4) l1 by (simp add: uip_tcp_hdrlen_def)
  have m2: "memcpy_to f1 54 payload = Inr f2" using l1 assms(4) by (simp add: memcpy_to_def f2_def)
  have m3: "memcpy_to f2 16 (be_bytes 2 (20 + of_nat ?p + 20 :: u16)) = Inr f3"
    using l2 by (simp add: memcpy_to_def f3_def add.commute)
  have "tcp_frame sk flg payload info fr = rbind (store_ip_csum f3) (\<lambda>f4. rbind (uip_csum_tcp f4) (\<lambda>(c, f5). memcpy_to f5 50 (le_bytes 2 c)))"
    using s1 th m2 m3 uip_ip_hdrlen_45 [of f2] l2 v(3) by (simp add: tcp_frame_def)
  also have "\<dots> = seal 16 (of_nat (20 + ?p)) f3" using f4(1) c by (simp add: seal_def)
  finally show ?thesis using l3 v(2) z h3 len3 pay3 by blast
qed

lemma tcp_frame_ok:
  assumes "length fr = UIP_ETH_BUF" and "length (host_mac info) = 6" and "length (guest_mac info) = 6" and "length payload \<le> 65482"
  shows "\<exists>f. tcp_frame sk flg payload info fr = Inr f \<and> length f = UIP_ETH_BUF \<and> tcp_carries sk flg payload info f"
proof -
  let ?p = "length payload"
  have p: "?p \<le> 65494" using assms(4) by simp
  obtain f3 where f3: "tcp_frame sk flg payload info fr = seal 16 (of_nat (20 + ?p)) f3" "length f3 = UIP_ETH_BUF" "f3 ! 14 = 0x45"
    "bytes_at 24 2 f3 = [0, 0]" "bytes_at (34 + 16) 2 f3 = [0, 0]"
    and h3: "\<And>off src. (off, src) \<in> set (eth_ip_hdr 6 (ts_dip sk) (ts_sip sk) info @ tcp_hdr sk flg) \<Longrightarrow> bytes_at off (length src) f3 = src"
    and b3: "bytes_at 16 2 f3 = be_bytes 2 (of_nat (40 + ?p) :: u16)" "bytes_at 54 ?p f3 = payload"
    using tcp_frame_parts [OF assms(1-3) p, of sk flg] by blast
  have room: "34 + (20 + ?p) + length (pad_of (20 + ?p)) + 12 \<le> length f3"
    using assms(4) f3(2) by (auto simp: pad_of_def elim!: oddE)
  obtain f where f: "seal 16 (of_nat (20 + ?p)) f3 = Inr f" "sealed 16 (20 + ?p) f3 f"
    using seal_ok [OF f3(3-5) _ _ _ room] assms(4) by auto
  have ip: "ip_carries 6 (ts_dip sk) (ts_sip sk) (20 + ?p) info f"
    using h3 by (intro ip_carries_sealed [OF _ f(2) assms(2,3)]) auto
  note k = sealed_keep [OF f(2)]
  have "bytes_at 46 2 f = bytes_at 46 1 f3 @ bytes_at 47 1 f3" using k [of 46 2] bytes_at_add [of 46 1 1 f3] by (simp add: numeral_2_eq_2)
  moreover have "length f = UIP_ETH_BUF" using f(2) f3(2) by (simp add: sealed_def)
  moreover have "bytes_at 16 2 f = be_bytes 2 (of_nat (40 + ?p) :: u16)" "bytes_at 34 2 f = be_bytes 2 (ts_dport sk)" "bytes_at 36 2 f = be_bytes 2 (ts_sport sk)"
    "bytes_at 38 4 f = be_bytes 4 (seq_server sk)" "bytes_at 42 4 f = be_bytes 4 (ack_server sk)" "bytes_at 54 ?p f = payload"
    using k [of 16 2] k [of 34 2] k [of 36 2] k [of 38 4] k [of 42 4] k [of 54 ?p] b3
      h3 [of 34 "be_bytes 2 (ts_dport sk)"] h3 [of 36 "be_bytes 2 (ts_sport sk)"] h3 [of 38 "be_bytes 4 (seq_server sk)"] h3 [of 42 "be_bytes 4 (ack_server sk)"]
    by (simp_all add: tcp_hdr_def)
  ultimately show ?thesis
    using ip f3(1) f(1) h3 [of 46 "[0x50]"] h3 [of 47 "[flg]"] by (simp add: tcp_carries_def field_of tcp_hdr_def)
qed

text \<open>A payload that the buffer has no room for, with the pseudo header behind it, runs past the buffer.\<close>

lemma csum_segment_overflow:
  assumes "length fr < 34 + n + length (pad_of n) + 12" and "n < 65536" and "34 \<le> length fr"
  shows "csum_segment (of_nat n) fr = Inl OutOfBounds"
proof -
  have un: "unat (of_nat n :: u16) = n" using assms(2) by (simp add: unat_of_nat)
  have "uip_pseudo_hdr fr (of_nat n) = Inr (pseudo fr (of_nat n))"
    using assms(3) by (simp add: uip_pseudo_hdr_def memcpy_from_def pseudo_def bytes_at_def)
  moreover have "length (pseudo fr (of_nat n)) = 12" using assms(3) by (simp add: pseudo_def length_bytes_at)
  ultimately show ?thesis
    using assms(1) by (auto simp: csum_segment_def un Let_def memcpy_to_def pad_of_def)
qed

lemma tcp_frame_overflow:
  assumes "length fr = UIP_ETH_BUF" and "length (host_mac info) = 6" and "length (guest_mac info) = 6" and "65482 < length payload"
    and "length payload \<le> 65495"
  shows "tcp_frame sk flg payload info fr = Inl OutOfBounds"
proof (cases "length payload \<le> 65494")
  case True
  obtain f3 where f3: "tcp_frame sk flg payload info fr = seal 16 (of_nat (20 + length payload)) f3" "length f3 = UIP_ETH_BUF" "f3 ! 14 = 0x45"
    "bytes_at 24 2 f3 = [0, 0]"
    using tcp_frame_parts [OF assms(1-3) True, of sk flg] by blast
  obtain c :: u16 where "store_ip_csum f3 = Inr (blit f3 24 (le_bytes 2 c))" using store_ip_csum_ok [OF _ f3(3,4)] f3(2) by auto
  moreover have "csum_segment (of_nat (20 + length payload)) (blit f3 24 (le_bytes 2 c)) = Inl OutOfBounds"
    using f3(2) assms(4) True by (intro csum_segment_overflow) auto
  ultimately show ?thesis using f3(1) by (simp add: seal_def)
next
  case False
  have ps: "\<forall>(off, src) \<in> set (tcp_hdr sk flg). 34 \<le> off \<and> off + length src \<le> length fr" "apart_all (tcp_hdr sk flg)"
    using assms(1) by (auto simp: tcp_hdr_def)
  note e = eth_ip_hdr_ok [OF assms(2,3) _ ps, where proto = 6 and sip = "ts_dip sk" and dip = "ts_sip sk"]
  let ?f = "stored (eth_ip_hdr 6 (ts_dip sk) (ts_sip sk) info @ tcp_hdr sk flg) fr"
  have "?f ! 46 = 0x50" using e(3) [of 46 "[0x50]"] assms(1) by (intro nth_bytes_at) (simp add: tcp_hdr_def)
  then have "uip_tcp_hdrlen ?f = Inr 20" using e(2) assms(1) by (simp add: uip_tcp_hdrlen_def)
  then show ?thesis using e(1,2) assms(1) False by (simp add: tcp_frame_def memcpy_to_def)
qed

section \<open>Frames are posted in a free buffer\<close>

definition posts :: "(uip_buf \<Rightarrow> bool) \<Rightarrow> uip_info \<Rightarrow> uip_info \<Rightarrow> bool" where
  "posts Q info info' \<longleftrightarrow> pool_ok info' \<and>
     (\<exists>i b. first_buf UIP_FREE info = Some i \<and> status b = UIP_USED \<and> Q b \<and>
        info' = info\<lparr>bufs := (bufs info)[i := b], buf_free_nr := buf_free_nr info - 1, buf_used_nr := buf_used_nr info + 1\<rparr>)"

definition framed :: "(u8 list \<Rightarrow> bool) \<Rightarrow> nat \<Rightarrow> uip_info \<Rightarrow> uip_buf \<Rightarrow> bool" where
  "framed Q n info b \<longleftrightarrow> Q (eth b) \<and> eth_len b = n \<and> vnet_len b = vnet_hdr_len info \<and> vnet b = replicate (vnet_hdr_len info) 0"

lemma finish_frame_ok:
  assumes "buf_ok info b" and "build (eth b) = Inr f" and "length f = UIP_ETH_BUF" and "field 16 2 f = (of_nat n :: u16)" and "n + 14 \<le> UIP_ETH_BUF"
  shows "\<exists>b'. finish_frame info build b = Inr b' \<and> buf_ok info b' \<and> status b' = status b \<and> framed (\<lambda>g. g = f) (n + 14) info b'"
proof -
  have "uip_ip_len f = Inr (of_nat n)"
    using assms(3,4) by (simp add: uip_ip_len_def rd16_def memcpy_from_def field_def bytes_at_def)
  moreover have "unat (of_nat n :: u16) = n" using assms(5) by (simp add: unat_of_nat)
  ultimately show ?thesis
    using assms(1,2,3,5) by (auto simp: finish_frame_def buf_ok_def memcpy_to_def blit_def framed_def)
qed

lemma post_frame:
  assumes "pool_ok info" and "0 < count_buf UIP_FREE info" and "n + 14 \<le> UIP_ETH_BUF"
    and "\<And>fr info1. length fr = UIP_ETH_BUF \<Longrightarrow> host_mac info1 = host_mac info \<Longrightarrow> guest_mac info1 = guest_mac info \<Longrightarrow>
      \<exists>f. build info1 fr = Inr f \<and> length f = UIP_ETH_BUF \<and> Q f \<and> field 16 2 f = (of_nat n :: u16)"
  shows "\<exists>i info1 info2. uip_buf_get_free info = Some (Inr (Some i, info1)) \<and> edit_buf i (finish_frame info1 (build info1)) info1 = Inr info2 \<and>
    posts (framed Q (n + 14) info) info (uip_buf_set_used i info2)"
proof -
  obtain i info1 where g: "uip_buf_get_free info = Some (Inr (Some i, info1))" "first_buf UIP_FREE info = Some i" "pool_ok info1" "holds i info1"
    "info1 = (put_buf i ((bufs info ! i)\<lparr>status := UIP_INUSE\<rparr>) info)\<lparr>buf_free_nr := buf_free_nr info - 1\<rparr>"
    using get_free_ok [OF assms(1,2)] by blast
  let ?b = "bufs info1 ! i"
  have i: "i < length (bufs info)" using first_buf_SomeD [OF g(2)] by simp
  have ok: "buf_ok info1 ?b" using pool_ok_buf [OF g(3)] g(4) by (simp add: holds_def)
  obtain f where f: "build info1 (eth ?b) = Inr f" "length f = UIP_ETH_BUF" "Q f" "field 16 2 f = (of_nat n :: u16)"
    using assms(4) [of "eth ?b" info1] ok g(5) by (auto simp: buf_ok_def)
  obtain b' where b': "finish_frame info1 (build info1) ?b = Inr b'" "buf_ok info1 b'" "status b' = status ?b" "framed (\<lambda>g. g = f) (n + 14) info1 b'"
    using finish_frame_ok [where build = "build info1", OF ok f(1,2,4) assms(3)] by blast
  define info2 where "info2 = put_buf i b' info1"
  have h2: "pool_ok info2" "holds i info2"
    using pool_put [OF g(3) _ b'(2,3)] g(4) b'(3) by (auto simp: info2_def holds_def)
  have "vnet_hdr_len info1 = vnet_hdr_len info" using g(5) by simp
  then have fr: "framed Q (n + 14) info (b'\<lparr>status := UIP_USED\<rparr>)" using b'(4) f(3) by (simp add: framed_def)
  have "uip_buf_set_used i info2 = info\<lparr>bufs := (bufs info)[i := b'\<lparr>status := UIP_USED\<rparr>], buf_free_nr := buf_free_nr info - 1,
      buf_used_nr := buf_used_nr info + 1\<rparr>"
    using i g(5) by (simp add: uip_buf_set_used_def info2_def set_status_def put_buf_def)
  then have "posts (framed Q (n + 14) info) info (uip_buf_set_used i info2)"
    unfolding posts_def using buf_set_used_ok(1) [OF h2] g(2) fr
    by (intro conjI exI [of _ i] exI [of _ "b'\<lparr>status := UIP_USED\<rparr>"]) simp_all
  then show ?thesis using g(1) b'(1) by (auto simp: edit_buf_def info2_def)
qed

section \<open>Sending to the guest\<close>

lemma put_tcp_set_used: "uip_buf_set_used i (put_tcp sk info) = put_tcp sk (uip_buf_set_used i info)"
  by (simp add: uip_buf_set_used_def put_tcp_def set_status_def)

lemma tcp_send_ok:
  assumes "pool_ok info" and "0 < count_buf UIP_FREE info" and "length payload \<le> 65482"
  shows "\<exists>info'. uip_tcp_payload_send sk flg payload info =
      Some (Inr (sk\<lparr>seq_server := seq_server sk + of_nat (length payload)\<rparr>,
        put_tcp (sk\<lparr>seq_server := seq_server sk + of_nat (length payload)\<rparr>) info')) \<and>
    posts (framed (tcp_carries sk flg payload info) (54 + length payload) info) info info'"
proof -
  have b: "\<exists>f. tcp_frame sk flg payload info1 fr = Inr f \<and> length f = UIP_ETH_BUF \<and> tcp_carries sk flg payload info f \<and>
      field 16 2 f = (of_nat (40 + length payload) :: u16)"
    if "length fr = UIP_ETH_BUF" "host_mac info1 = host_mac info" "guest_mac info1 = guest_mac info" for fr info1
    using tcp_frame_ok [OF that(1), of info1 payload sk flg] that assms(1,3)
    by (auto simp: pool_ok_def tcp_carries_def ip_carries_def)
  have n: "40 + length payload + 14 \<le> UIP_ETH_BUF" using assms(3) by simp
  obtain i info1 info2 where "uip_buf_get_free info = Some (Inr (Some i, info1))"
    "edit_buf i (finish_frame info1 (tcp_frame sk flg payload info1)) info1 = Inr info2"
    "posts (framed (tcp_carries sk flg payload info) (40 + length payload + 14) info) info (uip_buf_set_used i info2)"
    using post_frame [where build = "tcp_frame sk flg payload" and Q = "tcp_carries sk flg payload info", OF assms(1,2) n b] by blast
  then show ?thesis
    by (auto simp: uip_tcp_payload_send_def with_buf_def Let_def put_tcp_set_used)
qed

lemma find_put_tcp: "find_tcp fd info = Some s \<Longrightarrow> ts_fd sk = fd \<Longrightarrow> find_tcp fd (put_tcp sk info) = Some sk"
proof -
  have "find (\<lambda>s. ts_fd s = fd) xs = Some s \<Longrightarrow> ts_fd sk = fd \<Longrightarrow>
      find (\<lambda>s. ts_fd s = fd) (map (\<lambda>s. if ts_fd s = ts_fd sk then sk else s) xs) = Some sk" for xs
    by (induction xs) (auto split: if_splits)
  then show "find_tcp fd info = Some s \<Longrightarrow> ts_fd sk = fd \<Longrightarrow> ?thesis" by (simp add: find_tcp_def put_tcp_def)
qed

lemma find_tcp_fd: "find_tcp fd info = Some sk \<Longrightarrow> ts_fd sk = fd"
  by (auto simp: find_tcp_def find_Some_iff)

lemma find_tcp_cong: "tcp_sockets info' = tcp_sockets info \<Longrightarrow> find_tcp fd info' = find_tcp fd info"
  by (simp add: find_tcp_def)

lemma tcp_sockets_simps [simp]:
  "tcp_sockets (uip_buf_set_used i info) = tcp_sockets info" "tcp_sockets (uip_buf_set_free i info) = tcp_sockets info"
  "tcp_sockets (set_status i st info) = tcp_sockets info" "tcp_sockets (log_call c info) = tcp_sockets info"
  by (simp_all add: uip_buf_set_used_def uip_buf_set_free_def set_status_def log_call_def)

lemma get_free_sockets: "uip_buf_get_free info = Some (Inr (i, info1)) \<Longrightarrow> tcp_sockets info1 = tcp_sockets info"
  by (auto simp: uip_buf_get_free_def set_status_def split: if_splits option.splits)

lemma edit_buf_sockets: "edit_buf i f info = Inr info1 \<Longrightarrow> tcp_sockets info1 = tcp_sockets info"
  by (auto simp: edit_buf_def rbind_eq_Inr_iff)

text \<open>Whatever is sent, the number of the next byte moves on by its length.\<close>

lemma tcp_send_seq:
  assumes "uip_tcp_payload_send sk flg payload info = Some (Inr (sk', info'))" and "find_tcp fd info = Some sk"
  shows "sk' = sk\<lparr>seq_server := seq_server sk + of_nat (length payload)\<rparr>" and "find_tcp fd info' = Some sk'"
proof -
  obtain i info1 info2 where *: "uip_buf_get_free info = Some (Inr (Some i, info1))"
    "edit_buf i (finish_frame info1 (tcp_frame sk flg payload info1)) info1 = Inr info2"
    "sk' = sk\<lparr>seq_server := seq_server sk + of_nat (length payload)\<rparr>" "info' = uip_buf_set_used i (put_tcp sk' info2)"
    using assms(1) by (auto simp: uip_tcp_payload_send_def with_buf_def sbind_eq_ok_iff rbind_eq_Inr_iff Let_def split: option.splits)
  show "sk' = sk\<lparr>seq_server := seq_server sk + of_nat (length payload)\<rparr>" by (rule *(3))
  have "tcp_sockets info2 = tcp_sockets info" using get_free_sockets [OF *(1)] edit_buf_sockets [OF *(2)] by simp
  then have "find_tcp fd info2 = Some sk" using assms(2) find_tcp_cong by metis
  moreover have "ts_fd sk' = fd" using *(3) find_tcp_fd [OF assms(2)] by simp
  ultimately show "find_tcp fd info' = Some sk'"
    unfolding *(4) put_tcp_set_used using find_put_tcp [of fd "uip_buf_set_used i info2" sk sk'] find_tcp_cong [of "uip_buf_set_used i info2" info2] by simp
qed

section \<open>A connection as a state machine\<close>

text \<open>
  The state: the stack, the bytes that the thread has read and not sent, all bytes that it read, and
  the segments that it sent with their sequence numbers. The thread reads when it has nothing
  left, or sends; the guest acknowledges and opens its window; it takes a frame from the pool.
\<close>

type_synonym tcp_world = "uip_info \<times> u8 list \<times> u8 list \<times> (u32 \<times> u8 list) list"

inductive tcp_step :: "int \<Rightarrow> tcp_world \<Rightarrow> tcp_world \<Rightarrow> bool" for fd where
  Read: "0 < length bs \<Longrightarrow> length bs \<le> UIP_MAX_TCP_PAYLOAD \<Longrightarrow> tcp_step fd (info, [], d, segs) (info, bs, d @ bs, segs)"
| Chunk: "find_tcp fd info = Some sk \<Longrightarrow> left \<noteq> [] \<Longrightarrow> tcp_thread_chunk fd left info = Some (Inr (left', info')) \<Longrightarrow>
    tcp_step fd (info, left, d, segs) (info', left', d, segs @ [(seq_server sk, take (length left - length left') left)])"
| Ack: "find_tcp fd info = Some sk \<Longrightarrow>
    tcp_step fd (info, left, d, segs) (put_tcp (sk\<lparr>window_size := w, guest_acked := a\<rparr>) info, left, d, segs)"
| Take: "uip_buf_get_used info = Some (Inr (Some i, info1)) \<Longrightarrow>
    tcp_step fd (info, left, d, segs) (uip_buf_set_free i info1, left, d, segs)"

inductive_cases tcp_step_elim [elim!]: "tcp_step fd (info, left, d, segs) w"

fun consecutive :: "u32 \<Rightarrow> (u32 \<times> u8 list) list \<Rightarrow> bool" where
  "consecutive s [] = True"
| "consecutive s ((q, bs) # segs) = (q = s \<and> bs \<noteq> [] \<and> consecutive (s + of_nat (length bs)) segs)"

definition stream :: "(u32 \<times> u8 list) list \<Rightarrow> u8 list" where
  "stream segs = concat (map snd segs)"

definition tcp_inv :: "int \<Rightarrow> u32 \<Rightarrow> tcp_world \<Rightarrow> bool" where
  "tcp_inv fd s w = (case w of (info, left, d, segs) \<Rightarrow>
     stream segs @ left = d \<and> consecutive s segs \<and>
     (\<exists>sk. find_tcp fd info = Some sk \<and> seq_server sk = s + of_nat (length (stream segs))))"

lemma consecutive_snoc:
  "consecutive s (segs @ [(q, bs)]) \<longleftrightarrow> consecutive s segs \<and> q = s + of_nat (length (stream segs)) \<and> bs \<noteq> []"
  by (induction s segs rule: consecutive.induct) (auto simp: stream_def add.assoc)

lemma chunkD:
  assumes "tcp_thread_chunk fd left info = Some (Inr (left', info'))" and "find_tcp fd info = Some sk"
  shows "\<exists>n. left' = drop n left \<and> n = min (min (nat (tcp_room sk)) (length left)) UIP_MAX_TCP_PAYLOAD \<and> 0 < tcp_room sk \<and>
    find_tcp fd info' = Some (sk\<lparr>seq_server := seq_server sk + of_nat n\<rparr>)"
proof -
  let ?n = "min (min (nat (tcp_room sk)) (length left)) UIP_MAX_TCP_PAYLOAD"
  obtain sk' where *: "0 < tcp_room sk" "uip_tcp_payload_send sk 16 (take ?n left) info = Some (Inr (sk', info'))" "left' = drop ?n left"
    using assms by (auto simp: tcp_thread_chunk_def Let_def sbind_eq_ok_iff split: if_splits)
  have len: "length (take ?n left) = ?n" by simp
  from tcp_send_seq [OF *(2) assms(2)] have "find_tcp fd info' = Some (sk\<lparr>seq_server := seq_server sk + of_nat ?n\<rparr>)"
    unfolding len by simp
  with *(1,3) show ?thesis by blast
qed

lemma tcp_step_inv: "tcp_step fd w w' \<Longrightarrow> tcp_inv fd s w \<Longrightarrow> tcp_inv fd s w'"
proof (induction rule: tcp_step.induct)
  case (Read bs info d segs)
  then show ?case by (auto simp: tcp_inv_def)
next
  case (Chunk info sk left left' info' d segs)
  obtain n where n: "left' = drop n left" "0 < tcp_room sk" "n = min (min (nat (tcp_room sk)) (length left)) UIP_MAX_TCP_PAYLOAD"
    "find_tcp fd info' = Some (sk\<lparr>seq_server := seq_server sk + of_nat n\<rparr>)"
    using chunkD [OF Chunk(3,1)] by blast
  have "0 < n" "n \<le> length left" using n(2,3) Chunk(2) by auto
  then have "length left - length left' = n" using n(1) by simp
  with Chunk n \<open>0 < n\<close> \<open>n \<le> length left\<close> show ?case
    by (auto simp: tcp_inv_def consecutive_snoc stream_def)
next
  case (Ack info sk left d segs a w)
  then show ?case using find_put_tcp [of fd info sk "sk\<lparr>window_size := w, guest_acked := a\<rparr>"] find_tcp_fd [of fd info sk]
    by (auto simp: tcp_inv_def)
next
  case (Take info i info1 left d segs)
  then have "tcp_sockets info1 = tcp_sockets info" by (auto simp: uip_buf_get_used_def set_status_def split: if_splits option.splits)
  with Take show ?case using find_tcp_cong [of "uip_buf_set_free i info1" info] by (auto simp: tcp_inv_def)
qed

lemma get_free_waits: "pool_ok info \<Longrightarrow> count_buf UIP_FREE info = 0 \<Longrightarrow> uip_buf_get_free info = None"
  by (simp add: uip_buf_get_free_def pool_ok_def)

lemma tcp_send_overflow:
  assumes "pool_ok info" and "0 < count_buf UIP_FREE info" and "65482 < length payload" and "length payload \<le> 65495"
  shows "uip_tcp_payload_send sk flg payload info = Some (Inl OutOfBounds)"
proof -
  obtain i info1 where g: "uip_buf_get_free info = Some (Inr (Some i, info1))" "pool_ok info1" "holds i info1"
    using get_free_ok [OF assms(1,2)] by blast
  have "tcp_frame sk flg payload info1 (eth (bufs info1 ! i)) = Inl OutOfBounds"
    using pool_ok_buf [OF g(2)] g(2,3) assms(3,4) by (intro tcp_frame_overflow) (auto simp: holds_def buf_ok_def pool_ok_def)
  then show ?thesis using g(1) by (simp add: uip_tcp_payload_send_def with_buf_def edit_buf_def finish_frame_def)
qed

section \<open>Data from the guest\<close>

text \<open>A segment with data on an open connection, as a guest sends it; its sequence number may be any.\<close>

definition guest_segment :: "u8 list \<Rightarrow> tcp_socket \<Rightarrow> u8 list \<Rightarrow> bool" where
  "guest_segment fr sk payload \<longleftrightarrow> 54 + length payload \<le> length fr \<and> fr ! 14 = 0x45 \<and> fr ! 46 = 0x50 \<and> fr ! 47 AND 3 = 0 \<and>
     field 16 2 fr = (of_nat (40 + length payload) :: u16) \<and> field 26 4 fr = ts_sip sk \<and> field 30 4 fr = ts_dip sk \<and>
     field 34 2 fr = ts_sport sk \<and> field 36 2 fr = ts_dport sk \<and>
     0 < length payload \<and> length payload \<le> 65495 \<and> bytes_at 54 (length payload) fr = payload"

lemma rd_field: "off + 2 \<le> length fr \<Longrightarrow> rd16 off fr = Inr (field off 2 fr)" "off + 4 \<le> length fr \<Longrightarrow> rd32 off fr = Inr (field off 4 fr)"
  by (simp_all add: rd16_def rd32_def memcpy_from_def field_def bytes_at_def)

lemma no_flag: "(w :: u8) AND 3 = 0 \<Longrightarrow> \<not> flag w 2 \<and> \<not> flag w 1"
proof -
  assume a: "w AND 3 = 0"
  have "w AND 2 = (w AND 3) AND 2" "w AND 1 = (w AND 3) AND 1" by (simp_all add: and.assoc)
  with a show ?thesis by (simp add: flag_def)
qed

lemma guest_segment_reads:
  assumes "guest_segment fr sk payload"
  shows "uip_tcp_is_syn fr = Inr False" and "uip_tcp_is_fin fr = Inr False" and "uip_tcp_hdrlen fr = Inr 20"
    and "uip_tcp_payloadlen fr = Inr (of_nat (length payload))" and "memcpy_from fr 54 (length payload) = Inr payload"
proof -
  have g: "54 \<le> length fr" "fr ! 47 AND 3 = 0" "fr ! 46 = 0x50" "fr ! 14 = 0x45" "field 16 2 fr = (of_nat (40 + length payload) :: u16)"
    using assms by (auto simp: guest_segment_def)
  show "uip_tcp_is_syn fr = Inr False" "uip_tcp_is_fin fr = Inr False"
    using g(1) no_flag [OF g(2)] by (simp_all add: uip_tcp_is_syn_def uip_tcp_is_fin_def)
  show th: "uip_tcp_hdrlen fr = Inr 20" using g(1,3) by (simp add: uip_tcp_hdrlen_def)
  have "uip_ip_len fr = Inr (of_nat (40 + length payload))" using g(1,5) by (simp add: uip_ip_len_def rd_field)
  then show "uip_tcp_payloadlen fr = Inr (of_nat (length payload))"
    using g(1,4) th uip_ip_hdrlen_45 [of fr] by (simp add: uip_tcp_payloadlen_def uip_tcp_len_def)
  show "memcpy_from fr 54 (length payload) = Inr payload"
    using assms by (auto simp: guest_segment_def memcpy_from_def bytes_at_def)
qed

lemma pool_ok_log: "pool_ok (log_call c info) = pool_ok info" "count_buf st (log_call c info) = count_buf st info"
  by (simp_all add: pool_ok_def count_buf_def buf_ok_def log_call_def)

lemma pool_ok_put_tcp: "pool_ok (put_tcp sk info) = pool_ok info" "count_buf st (put_tcp sk info) = count_buf st info"
  by (simp_all add: pool_ok_def count_buf_def buf_ok_def put_tcp_def)

text \<open>A stack with one buffer and one connection, and a segment of that connection.\<close>

definition sample_buf :: uip_buf where
  "sample_buf = \<lparr> status = UIP_FREE, vnet = replicate 12 0, eth = replicate UIP_ETH_BUF 0, vnet_len = 12, eth_len = UIP_ETH_BUF \<rparr>"

definition sample_tcp :: tcp_socket where
  "sample_tcp = \<lparr> ts_sip = 0x0a000002, ts_dip = 0x0a000001, ts_sport = 1000, ts_dport = 80, ts_fd = 7, guest_acked = 10000001, window_size = 3,
     isn_server = 10000000, isn_guest = 5, ack_server = 6, seq_server = 10000001, write_done = False, read_done = False, ts_thread = True \<rparr>"

definition sample_net :: uip_info where
  "sample_net = \<lparr> bufs = [sample_buf], buf_free_nr = 1, buf_used_nr = 0, guest_mac = [2, 0, 0, 0, 0, 1], host_mac = [2, 0, 0, 0, 0, 2],
     guest_ip = 0x0a000002, guest_netmask = 0xffffff00, host_ip = 0x0a000001, dns_ip = [0, 0, 0], domain_name = None, vnet_hdr_len = 12,
     udp_sockets = [], tcp_sockets = [sample_tcp], udp_thread = False, calls = [] \<rparr>"

definition sample_seg :: "u8 list" where
  "sample_seg = replicate 14 0 @ [0x45, 0, 0, 42] @ replicate 8 0 @ [10, 0, 0, 2, 10, 0, 0, 1, 3, 0xe8, 0, 80] @ replicate 8 0 @
     [0x50, 16, 0, 9, 0, 0, 0, 0, 104, 105]"

lemma sample_net_ok:
  "pool_ok sample_net" "count_buf UIP_FREE sample_net = 1" "find_tcp 7 sample_net = Some sample_tcp" "tcp_room sample_tcp = 3"
  by (simp_all add: pool_ok_def count_buf_def buf_ok_def sample_net_def sample_buf_def find_tcp_def sample_tcp_def tcp_room_def)

lemma sample_chunk: "\<exists>info'. tcp_thread_chunk 7 [1, 2, 3, 4] sample_net = Some (Inr ([4], info'))"
  using tcp_send_ok [OF sample_net_ok(1), of "[1, 2, 3]" sample_tcp 16] sample_net_ok(2-4)
  by (auto simp: tcp_thread_chunk_def)

lemma sample_seg_ok: "guest_segment sample_seg sample_tcp [104, 105]"
  by (simp add: guest_segment_def sample_seg_def sample_tcp_def field_def bytes_at_def be_word_def le_word_def nth_append)

section \<open>Properties\<close>



text \<open>
  C26. A turn of the thread of a connection makes progress exactly when the guest's window is open and
  a buffer is free, otherwise it waits. It then sends a segment inside the window, with right lengths,
  addresses, sequence and acknowledgement numbers and checksums, and goes on behind it; but
  a segment of more than 65482 bytes runs past the packet buffer.
\<close>

theorem uip_tcp_chunk_sent:
  assumes "pool_ok info" and "find_tcp fd info = Some sk" and "left \<noteq> []"
    and "n = min (min (nat (tcp_room sk)) (length left)) UIP_MAX_TCP_PAYLOAD"
  shows "(tcp_room sk \<le> 0 \<or> count_buf UIP_FREE info = 0 \<longrightarrow> tcp_thread_chunk fd left info = None) \<and>
    (0 < tcp_room sk \<and> 0 < count_buf UIP_FREE info \<and> n \<le> 65482 \<longrightarrow> 0 < n \<and> int n \<le> tcp_room sk \<and>
      (\<exists>info'. tcp_thread_chunk fd left info = Some (Inr (drop n left, put_tcp (sk\<lparr>seq_server := seq_server sk + of_nat n\<rparr>) info')) \<and>
        posts (framed (tcp_carries sk 16 (take n left) info) (54 + n) info) info info')) \<and>
    (0 < tcp_room sk \<and> 0 < count_buf UIP_FREE info \<and> 65482 < n \<longrightarrow> tcp_thread_chunk fd left info = Some (Inl OutOfBounds))"
proof (intro conjI impI; (elim conjE)?)
  have n: "length (take n left) = n" using assms(4) by simp
  have chunk: "tcp_thread_chunk fd left info = (if tcp_room sk \<le> 0 then None
      else sbind (uip_tcp_payload_send sk 16 (take n left) info) (\<lambda>(sk', info'). Some (Inr (drop n left, info'))))"
    using assms(2,4) by (simp add: tcp_thread_chunk_def Let_def)
  show "tcp_thread_chunk fd left info = None" if "tcp_room sk \<le> 0 \<or> count_buf UIP_FREE info = 0"
    using that get_free_waits [OF assms(1)] by (auto simp: chunk uip_tcp_payload_send_def with_buf_def)
  show "0 < n" if "0 < tcp_room sk" using that assms(3,4) by auto
  show "int n \<le> tcp_room sk" if "0 < tcp_room sk" using that assms(4) by linarith
  show "\<exists>info'. tcp_thread_chunk fd left info = Some (Inr (drop n left, put_tcp (sk\<lparr>seq_server := seq_server sk + of_nat n\<rparr>) info')) \<and>
      posts (framed (tcp_carries sk 16 (take n left) info) (54 + n) info) info info'"
    if "0 < tcp_room sk" "0 < count_buf UIP_FREE info" "n \<le> 65482"
    using tcp_send_ok [OF assms(1) that(2), of "take n left" sk 16] that n by (auto simp: chunk)
  show "tcp_thread_chunk fd left info = Some (Inl OutOfBounds)" if "0 < tcp_room sk" "0 < count_buf UIP_FREE info" "65482 < n"
    using tcp_send_overflow [OF assms(1) that(2), of "take n left" sk 16] that n assms(4) by (simp add: chunk)
qed

theorem uip_tcp_chunk_sent_witness:
  "\<exists>info'. tcp_thread_chunk 7 [1, 2, 3, 4] sample_net = Some (Inr ([4], put_tcp (sample_tcp\<lparr>seq_server := 10000004\<rparr>) info')) \<and>
     posts (framed (tcp_carries sample_tcp 16 [1, 2, 3] sample_net) 57 sample_net) sample_net info'"
  using uip_tcp_chunk_sent [OF sample_net_ok(1,3), of "[1, 2, 3, 4]" 3] sample_net_ok(2,4) by (auto simp: sample_tcp_def)

text \<open>
  Data from the guest on an open connection is written to its socket and acknowledged at once with
  a right segment when the host takes it all; the sequence number is never looked at, so that a segment which
  the guest sends again is written again.
\<close>

theorem uip_tcp_guest_data_acked:
  assumes "pool_ok info" and "0 < count_buf UIP_FREE info" and "guest_segment (arg_eth arg) sk payload"
    and "uip_tcp_socket_find (ts_sip sk) (ts_dip sk) (ts_sport sk) (ts_dport sk) info = Some sk" and "\<not> write_done sk"
    and "ret = int (length payload)"
    and "sk' = sk\<lparr>window_size := field 48 2 (arg_eth arg), guest_acked := field 42 4 (arg_eth arg), ack_server := ack_server sk + of_nat (length payload)\<rparr>"
  shows "\<exists>info'. uip_tx_do_ipv4_tcp fd c ret arg info = Some (Inr (put_tcp sk' info')) \<and>
    calls info' = calls info @ [Write (ts_fd sk) payload] \<and>
    posts (framed (tcp_carries sk' 16 [] info) 54 info) (put_tcp sk' (log_call (Write (ts_fd sk) payload) info)) info'"
proof -
  let ?fr = "arg_eth arg"
  note g = guest_segment_reads [OF assms(3)]
  have len: "54 \<le> length ?fr" and p: "0 < length payload" "length payload \<le> 65495" using assms(3) by (auto simp: guest_segment_def)
  have un: "unat (of_nat (length payload) :: u16) = length payload" "(of_nat (length payload) :: u16) \<noteq> 0"
    using p by (simp_all add: unat_of_nat word_unat_eq_iff)
  define sk1 where "sk1 = sk\<lparr>window_size := field 48 2 ?fr, guest_acked := field 42 4 ?fr\<rparr>"
  define info1 where "info1 = put_tcp sk' (log_call (Write (ts_fd sk) payload) (put_tcp sk1 info))"
  have same: "info1 = put_tcp sk' (log_call (Write (ts_fd sk) payload) info)"
    by (simp add: info1_def put_tcp_def log_call_def sk1_def assms(7) comp_def)
  have sk': "sk' = sk1\<lparr>ack_server := ack_server sk1 + of_int ret\<rparr>" using assms(6,7) by (simp add: sk1_def)
  have "uip_tx_do_ipv4_tcp fd c ret arg info = tcp_segment ret ?fr sk1 (put_tcp sk1 info)"
    using g(1) assms(3,4) len by (simp add: uip_tx_do_ipv4_tcp_def Let_def rd_field sk1_def guest_segment_def)
  also have "\<dots> = sbind (uip_tcp_payload_send sk' 16 [] info1) (\<lambda>(sk2, info2). Some (Inr info2))"
    using g un p assms(5,6) by (simp add: tcp_segment_def uip_tcp_socket_send_def sk1_def info1_def Let_def sk')
  finally have run: "uip_tx_do_ipv4_tcp fd c ret arg info = sbind (uip_tcp_payload_send sk' 16 [] info1) (\<lambda>(sk2, info2). Some (Inr info2))" .
  have "pool_ok info1" "0 < count_buf UIP_FREE info1" using assms(1,2) by (simp_all add: same pool_ok_put_tcp pool_ok_log)
  from tcp_send_ok [OF this, of "[]" sk' 16] obtain info' where i: "uip_tcp_payload_send sk' 16 [] info1 = Some (Inr (sk', put_tcp sk' info'))"
    "posts (framed (tcp_carries sk' 16 [] info1) 54 info1) info1 info'"
    by auto
  have "calls info' = calls info1" using i(2) by (auto simp: posts_def)
  then have "calls info' = calls info @ [Write (ts_fd sk) payload]" by (simp add: same put_tcp_def log_call_def)
  moreover have "framed (tcp_carries sk' 16 [] info1) 54 info1 = framed (tcp_carries sk' 16 [] info) 54 info"
    by (simp add: fun_eq_iff framed_def tcp_carries_def ip_carries_def same put_tcp_def log_call_def)
  ultimately show ?thesis using run i by (auto simp: same)
qed

theorem uip_tcp_guest_data_acked_witness:
  "\<exists>info'. uip_tx_do_ipv4_tcp 0 False 2 \<lparr> arg_vnet = [], arg_eth = sample_seg, arg_vnet_len = 0, arg_eth_len = 56 \<rparr> sample_net = Some (Inr info') \<and>
     calls info' = [Write 7 [104, 105]]"
proof -
  let ?sk = "sample_tcp\<lparr>window_size := field 48 2 sample_seg, guest_acked := field 42 4 sample_seg, ack_server := ack_server sample_tcp + of_nat 2\<rparr>"
  have f: "uip_tcp_socket_find (ts_sip sample_tcp) (ts_dip sample_tcp) (ts_sport sample_tcp) (ts_dport sample_tcp) sample_net = Some sample_tcp"
    by (simp add: uip_tcp_socket_find_def sample_net_def)
  obtain info' where "uip_tx_do_ipv4_tcp 0 False 2 \<lparr> arg_vnet = [], arg_eth = sample_seg, arg_vnet_len = 0, arg_eth_len = 56 \<rparr> sample_net =
      Some (Inr (put_tcp ?sk info'))" "calls info' = calls sample_net @ [Write (ts_fd sample_tcp) [104, 105]]"
    using uip_tcp_guest_data_acked [OF sample_net_ok(1) _ _ f, of "\<lparr> arg_vnet = [], arg_eth = sample_seg, arg_vnet_len = 0, arg_eth_len = 56 \<rparr>"
        "[104, 105]" 2 ?sk 0 False] sample_net_ok(2) sample_seg_ok
    by (auto simp: sample_tcp_def)
  then show ?thesis by (intro exI [of _ "put_tcp ?sk info'"]) (simp add: put_tcp_def sample_net_def sample_tcp_def)
qed

end
