(* ===== verification/Uip.thy ===== *)
theory Uip
  imports Uiptcp
begin

text \<open>
  The rest of the user-mode network stack: ARP, ICMP, UDP and the DHCP server, the dispatch on
  protocols, and the two entry points for the network device, \<^verbatim>\<open>uip_tx\<close> for a frame from the guest and
  \<^verbatim>\<open>uip_rx\<close> for a frame to the guest (\<^verbatim>\<open>net/uip/\<close>).
\<close>

section \<open>ARP\<close>

definition uip_tx_do_arp :: "uip_tx_arg \<Rightarrow> uip_info \<Rightarrow> uip_info blocking" where
  "uip_tx_do_arp arg info =
     sbind (uip_buf_clone arg info) (\<lambda>(i, info1).
       Some (
         rbind (memcpy_from (arg_eth arg) 22 6) (\<lambda>smac.
         rbind (memcpy_from (arg_eth arg) 28 4) (\<lambda>sip.
         rbind (edit_buf i (edit_eth (stores [(20, be_bytes 2 (2 :: u16)), (32, smac), (38, sip)])) info1) (\<lambda>info2.
         rbind (rd32 38 (arg_eth arg)) (\<lambda>dip.
           if dip = host_ip info
           then rbind (edit_buf i (edit_eth (stores [(22, host_mac info), (28, be_bytes 4 (host_ip info))])) info2) (\<lambda>info3.
                  Inr (uip_buf_set_used i info3))
           else Inr info2))))))"

section \<open>ICMP\<close>

definition icmp_frame :: "u8 list \<Rightarrow> u8 list \<Rightarrow> u8 list \<Rightarrow> u8 list result" where
  "icmp_frame sip dip fr =
     rbind (stores [(26, dip), (30, sip), (24, [0, 0]), (34, [0]), (36, [0, 0])] fr) (\<lambda>f1.
     rbind (store_ip_csum f1) (\<lambda>f2.
     rbind (uip_csum_icmp f2) (\<lambda>(c, f3). memcpy_to f3 36 (le_bytes 2 c))))"

definition uip_tx_do_ipv4_icmp :: "uip_tx_arg \<Rightarrow> uip_info \<Rightarrow> uip_info blocking" where
  "uip_tx_do_ipv4_icmp arg info =
     sbind (uip_buf_clone arg info) (\<lambda>(i, info1).
       Some (
         rbind (memcpy_from (arg_eth arg) 26 4) (\<lambda>sip.
         rbind (memcpy_from (arg_eth arg) 30 4) (\<lambda>dip.
         rbind (edit_buf i (edit_eth (icmp_frame sip dip)) info1) (\<lambda>info2. Inr (uip_buf_set_used i info2))))))"

section \<open>UDP\<close>

definition udp_hdr :: "udp_socket \<Rightarrow> nat \<Rightarrow> (nat \<times> u8 list) list" where
  "udp_hdr sk payload_len =
     [(34, be_bytes 2 (us_dport sk)), (36, be_bytes 2 (us_sport sk)), (38, be_bytes 2 (of_nat (payload_len + 8) :: u16)), (40, [0, 0])]"

text \<open>The length of the IP packet is added up in the byte order of the network: \<^verbatim>\<open>udp2->len + htons(20)\<close>.\<close>

definition store_ip_len :: "u8 list \<Rightarrow> u8 list result" where
  "store_ip_len fr =
     rbind (memcpy_from fr 38 2) (\<lambda>n.
     rbind (uip_ip_hdrlen fr) (\<lambda>h. memcpy_to fr 16 (le_bytes 2 (le_word n + le_word (be_bytes 2 h) :: u16))))"

definition udp_frame :: "udp_socket \<Rightarrow> u8 list option \<Rightarrow> nat \<Rightarrow> uip_info \<Rightarrow> u8 list \<Rightarrow> u8 list result" where
  "udp_frame sk payload payload_len info fr =
     rbind (stores (eth_ip_hdr 17 (us_dip sk) (us_sip sk) info @ udp_hdr sk payload_len) fr) (\<lambda>f1.
     rbind (case payload of None \<Rightarrow> Inr f1 | Some p \<Rightarrow> memcpy_to f1 42 p) (\<lambda>f2.
     rbind (store_ip_len f2) (\<lambda>f3.
     rbind (store_ip_csum f3) (\<lambda>f4.
     rbind (uip_csum_udp f4) (\<lambda>(c, f5). memcpy_to f5 40 (le_bytes 2 c))))))"

definition uip_udp_make_pkg :: "uip_info \<Rightarrow> udp_socket \<Rightarrow> u8 list option \<Rightarrow> nat \<Rightarrow> uip_buf \<Rightarrow> uip_buf result" where
  "uip_udp_make_pkg info sk payload payload_len = finish_frame info (udp_frame sk payload payload_len info)"

text \<open>\<open>fd\<close> is what \<^verbatim>\<open>socket\<close> returns when there is no socket for the addresses yet.\<close>

definition uip_udp_socket_find :: "int \<Rightarrow> u32 \<Rightarrow> u32 \<Rightarrow> u16 \<Rightarrow> u16 \<Rightarrow> uip_info \<Rightarrow> udp_socket option \<times> uip_info" where
  "uip_udp_socket_find fd sip dip sport dport info =
     (case find (\<lambda>sk. us_sip sk = sip \<and> us_dip sk = dip \<and> us_sport sk = sport \<and> us_dport sk = dport) (udp_sockets info) of
        Some sk \<Rightarrow> (Some sk, info)
      | None \<Rightarrow>
          if fd < 0 then (None, info)
          else let sk = \<lparr> us_sip = sip, us_dip = dip, us_sport = sport, us_dport = dport, us_fd = fd \<rparr>
               in (Some sk, info\<lparr>udp_sockets := udp_sockets info @ [sk]\<rparr>))"

text \<open>A length field below 8 makes the length of the call negative, which the host refuses.\<close>

definition uip_udp_socket_send :: "int \<Rightarrow> udp_socket \<Rightarrow> u8 list \<Rightarrow> uip_info \<Rightarrow> (bool \<times> uip_info) result" where
  "uip_udp_socket_send ret sk fr info =
     rbind (uip_udp_len fr) (\<lambda>n.
       let len = int (unat n) - 8 in
       if len < 0 then Inr (ret = len, info)
       else rbind (memcpy_from fr 42 (nat len)) (\<lambda>payload.
         Inr (ret = len, log_call (SendTo (us_fd sk) (us_dip sk) (us_dport sk) payload) info)))"

text \<open>What the UDP thread does with a datagram that it received.\<close>

definition udp_receive :: "udp_socket \<Rightarrow> u8 list \<Rightarrow> uip_info \<Rightarrow> uip_info blocking" where
  "udp_receive sk payload info =
     with_buf (uip_buf_get_free info) (\<lambda>i info1.
       Some (rbind (edit_buf i (uip_udp_make_pkg info1 sk (Some payload) (length payload)) info1) (\<lambda>info2.
         Inr (uip_buf_set_used i info2))))"

section \<open>DHCP\<close>

definition dhcp_option :: "u8 \<Rightarrow> u8 list \<Rightarrow> bool result" where
  "dhcp_option ty fr = rbind (memcpy_from fr 282 3) (\<lambda>o'. Inr (o' = [53, 1, ty]))"

definition uip_udp_is_dhcp :: "u8 list \<Rightarrow> bool result" where
  "uip_udp_is_dhcp fr =
     rbind (rd16 34 fr) (\<lambda>sport. rbind (rd16 36 fr) (\<lambda>dport.
       if sport \<noteq> 68 \<or> dport \<noteq> 67 then Inr False
       else rbind (rd32 278 fr) (\<lambda>cookie. Inr (cookie = 0x63825363))))"

definition dhcp_name_and_server :: "uip_info \<Rightarrow> u8 list" where
  "dhcp_name_and_server info =
     (case domain_name info of
        None \<Rightarrow> []
      | Some name \<Rightarrow> [15, of_nat (length name)] @ take (length name mod 256) name) @
     concat (map (\<lambda>ip. [6, 4] @ be_bytes 4 ip) (filter (\<lambda>ip. ip \<noteq> 0) (dns_ip info)))"

definition uip_dhcp_fill_option :: "uip_info \<Rightarrow> u8 \<Rightarrow> u8 list" where
  "uip_dhcp_fill_option info reply =
     [53, 1, reply] @ [54, 4] @ be_bytes 4 (host_ip info) @ [51, 4] @ be_bytes 4 (0x3840 :: u32) @
     [1, 4] @ be_bytes 4 (guest_netmask info) @ [3, 4] @ be_bytes 4 (host_ip info) @
     [17, 7] @ [48, 46, 48, 46, 48, 46, 48] @ dhcp_name_and_server info @ [255]"

definition uip_dhcp_make_pkg :: "uip_info \<Rightarrow> u8 \<Rightarrow> u8 list \<Rightarrow> u8 list result" where
  "uip_dhcp_make_pkg info reply =
     stores [(42, [2]), (54, [0, 0, 0, 0]), (58, be_bytes 4 (guest_ip info)), (62, be_bytes 4 (host_ip info)), (66, [0, 0, 0, 0]),
       (282, uip_dhcp_fill_option info reply)]"

definition dhcp_socket :: "uip_info \<Rightarrow> udp_socket" where
  "dhcp_socket info = \<lparr> us_sip = guest_ip info, us_dip = host_ip info, us_sport = 68, us_dport = 67, us_fd = -1 \<rparr>"

definition uip_tx_do_ipv4_udp_dhcp :: "uip_tx_arg \<Rightarrow> uip_info \<Rightarrow> uip_info blocking" where
  "uip_tx_do_ipv4_udp_dhcp arg info =
     sbind (Some (dhcp_option 1 (arg_eth arg))) (\<lambda>discover.
     sbind (Some (dhcp_option 3 (arg_eth arg))) (\<lambda>request.
       if \<not> discover \<and> \<not> request then Some (Inr info)
       else sbind (uip_buf_clone arg info) (\<lambda>(i, info1).
         Some (
           rbind (edit_buf i (edit_eth (uip_dhcp_make_pkg info1 (if discover then 2 else 5))) info1) (\<lambda>info2.
           rbind (edit_buf i (uip_udp_make_pkg info2 (dhcp_socket info2) None 548) info2) (\<lambda>info3.
             Inr (uip_buf_set_used i info3)))))))"

text \<open>
  The name servers of \<^verbatim>\<open>/etc/resolv.conf\<close>: \<^verbatim>\<open>fscanf("%s %s\n")\<close> takes the words of the file two by two,
  whatever the lines. \<open>inet_aton\<close> is the conversion of the C library.
\<close>

fun word_pairs :: "string list \<Rightarrow> (string \<times> string) list" where
  "word_pairs (k # v # ws) = (k, v) # word_pairs ws"
| "word_pairs ws = []"

definition dns_word :: "(string \<Rightarrow> u32 option) \<Rightarrow> string \<times> string \<Rightarrow> (nat \<times> bool \<times> uip_info) \<Rightarrow> (nat \<times> bool \<times> uip_info)" where
  "dns_word inet_aton kv acc =
     (case (kv, acc) of ((key, val), (n, ok, info)) \<Rightarrow>
        if take 6 key = ''domain'' then (n, ok, info\<lparr>domain_name := Some (map of_char (take 256 val))\<rparr>)
        else if take 10 key = ''nameserver'' then
          (case inet_aton val of
             None \<Rightarrow> (n, ok, info)
           | Some ip \<Rightarrow> if n < 3 then (n + 1, True, info\<lparr>dns_ip := (dns_ip info)[n := ip]\<rparr>) else (n, True, info))
        else (n, ok, info))"

definition uip_dhcp_get_dns :: "(string \<Rightarrow> u32 option) \<Rightarrow> string list \<Rightarrow> uip_info \<Rightarrow> bool \<times> uip_info" where
  "uip_dhcp_get_dns inet_aton ws info = snd (fold (dns_word inet_aton) (word_pairs ws) (0, False, info))"

section \<open>Dispatch\<close>

text \<open>
  The answers of the host to the calls that a frame leads to: the descriptor of a new socket,
  whether \<^verbatim>\<open>connect\<close> succeeds, and what \<^verbatim>\<open>write\<close> or \<^verbatim>\<open>sendto\<close> returns.
\<close>

record host_answers =
  new_fd :: int
  connects :: bool
  sent :: int

definition uip_tx_do_ipv4_udp :: "host_answers \<Rightarrow> uip_tx_arg \<Rightarrow> uip_info \<Rightarrow> uip_info blocking" where
  "uip_tx_do_ipv4_udp h arg info =
     (let fr = arg_eth arg in
      sbind (Some (uip_udp_is_dhcp fr)) (\<lambda>dhcp.
        if dhcp then uip_tx_do_ipv4_udp_dhcp arg info
        else Some (
          rbind (rd32 26 fr) (\<lambda>sip. rbind (rd32 30 fr) (\<lambda>dip. rbind (rd16 34 fr) (\<lambda>sport. rbind (rd16 36 fr) (\<lambda>dport.
            case uip_udp_socket_find (new_fd h) sip dip sport dport info of
              (None, info1) \<Rightarrow> Inr info1
            | (Some sk, info1) \<Rightarrow>
               rbind (uip_udp_socket_send (sent h) sk fr info1) (\<lambda>(ok, info2).
                 Inr (if ok then info2\<lparr>udp_thread := True\<rparr> else info2)))))))))"

definition uip_tx_do_ipv4 :: "host_answers \<Rightarrow> uip_tx_arg \<Rightarrow> uip_info \<Rightarrow> uip_info blocking" where
  "uip_tx_do_ipv4 h arg info =
     sbind (Some (uip_ip_hdrlen (arg_eth arg))) (\<lambda>n.
       if n \<noteq> 20 then Some (Inr info)
       else sbind (Some (aget (arg_eth arg) 23)) (\<lambda>proto.
         if proto = 1 then uip_tx_do_ipv4_icmp arg info
         else if proto = 6 then uip_tx_do_ipv4_tcp (new_fd h) (connects h) (sent h) arg info
         else if proto = 17 then uip_tx_do_ipv4_udp h arg info
         else Some (Inr info)))"

section \<open>Entry points\<close>

text \<open>The three layouts of the buffers; \<open>None\<close> is -EINVAL.\<close>

definition tx_layout :: "iovec list \<Rightarrow> nat \<Rightarrow> nat \<Rightarrow> memory \<Rightarrow> uip_tx_arg option result" where
  "tx_layout iov out vl m =
     rbind (aget iov 0) (\<lambda>v.
     rbind (iov_size iov out) (\<lambda>len.
       if len \<le> vl then Inr None
       else if iov_len v = vl \<and> out = 2 then
         rbind (aget iov 1) (\<lambda>e. Inr (Some \<lparr> arg_vnet = drop (iov_base v) m, arg_eth = drop (iov_base e) m,
           arg_vnet_len = vl, arg_eth_len = iov_len e \<rparr>))
       else if out = 1 then
         Inr (Some \<lparr> arg_vnet = drop (iov_base v) m, arg_eth = drop (iov_base v + vl) m,
           arg_vnet_len = vl, arg_eth_len = iov_len v - vl \<rparr>)
       else
         rbind (memcpy_fromiovec_safe (take out iov) vl m) (\<lambda>(vb, missing, iov1).
           if missing \<noteq> 0 then Inr None
           else rbind (iov_size iov1 (length iov1)) (\<lambda>el.
             rbind (memcpy_fromiovec_safe iov1 el m) (\<lambda>(eb, missing, iov2).
               if missing \<noteq> 0 then Inr None
               else Inr (Some \<lparr> arg_vnet = vb, arg_eth = eb, arg_vnet_len = vl, arg_eth_len = el \<rparr>))))))"

definition uip_tx_frame :: "host_answers \<Rightarrow> uip_tx_arg \<Rightarrow> uip_info \<Rightarrow> uip_info blocking" where
  "uip_tx_frame h arg info =
     sbind (Some (rd16 12 (arg_eth arg))) (\<lambda>proto.
       if proto = 0x0806 then uip_tx_do_arp arg info
       else if proto = 0x0800 then uip_tx_do_ipv4 h arg info
       else Some (Inr info))"

definition uip_tx :: "host_answers \<Rightarrow> iovec list \<Rightarrow> nat \<Rightarrow> memory \<Rightarrow> uip_info \<Rightarrow> (nat option \<times> uip_info) blocking" where
  "uip_tx h iov out m info =
     sbind (Some (tx_layout iov out (vnet_hdr_len info) m)) (\<lambda>a.
       case a of
         None \<Rightarrow> Some (Inr (None, info))
       | Some arg \<Rightarrow> sbind (uip_tx_frame h arg info) (\<lambda>info1. Some (Inr (Some (arg_vnet_len arg + arg_eth_len arg), info1))))"

definition uip_rx :: "iovec list \<Rightarrow> memory \<Rightarrow> uip_info \<Rightarrow> (nat \<times> memory \<times> uip_info) blocking" where
  "uip_rx iov m info =
     with_buf (uip_buf_get_used info) (\<lambda>i info1.
       let b = bufs info1 ! i in
       Some (
         rbind (memcpy_from (vnet b) 0 (vnet_len b)) (\<lambda>v.
         rbind (memcpy_toiovecend iov v 0 m) (\<lambda>m1.
         rbind (memcpy_from (eth b) 0 (eth_len b)) (\<lambda>e.
         rbind (memcpy_toiovecend iov e (vnet_len b) m1) (\<lambda>m2.
           Inr (vnet_len b + eth_len b, m2, uip_buf_set_free i info1)))))))"

section \<open>Start and end\<close>

definition uip_init :: "(string \<Rightarrow> u32 option) \<Rightarrow> string list \<Rightarrow> nat \<Rightarrow> uip_info \<Rightarrow> uip_info" where
  "uip_init inet_aton ws buf_nr info = snd (uip_dhcp_get_dns inet_aton ws (init_bufs buf_nr info))"

definition uip_static_init :: "uip_info \<Rightarrow> uip_info" where
  "uip_static_init info = info\<lparr>udp_sockets := [], tcp_sockets := [], bufs := [], buf_used_nr := 0\<rparr>"

text \<open>The sockets are closed and freed, but stay on the list.\<close>

definition uip_udp_exit :: "uip_info \<Rightarrow> uip_info" where
  "uip_udp_exit info = (fold (\<lambda>sk. log_call (Close (us_fd sk))) (udp_sockets info) info)\<lparr>udp_thread := False\<rparr>"

definition uip_dhcp_exit :: "uip_info \<Rightarrow> uip_info" where
  "uip_dhcp_exit info = info\<lparr>domain_name := None\<rparr>"

definition uip_exit :: "uip_info \<Rightarrow> uip_info blocking" where
  "uip_exit info =
     (let info1 = uip_udp_exit info in
      sbind (uip_tcp_exit (tcp_sockets info1) info1) (\<lambda>info2. Some (Inr (uip_static_init ((uip_dhcp_exit info2)\<lparr>bufs := []\<rparr>)))))"

section \<open>Copies of the guest's frame\<close>

text \<open>A frame whose bytes are all there and that fits into a packet buffer.\<close>

definition arg_ok :: "uip_tx_arg \<Rightarrow> uip_info \<Rightarrow> bool" where
  "arg_ok arg info \<longleftrightarrow> arg_vnet_len arg = vnet_hdr_len info \<and> vnet_hdr_len info \<le> length (arg_vnet arg) \<and>
     12 \<le> length (arg_eth arg) \<and> arg_eth_len arg \<le> length (arg_eth arg) \<and> arg_eth_len arg \<le> UIP_ETH_BUF"

definition cloned :: "uip_tx_arg \<Rightarrow> uip_info \<Rightarrow> u8 list \<Rightarrow> bool" where
  "cloned arg info fr \<longleftrightarrow> length fr = UIP_ETH_BUF \<and> bytes_at 0 6 fr = bytes_at 6 6 (arg_eth arg) \<and> bytes_at 6 6 fr = host_mac info \<and>
     (\<forall>off n. 12 \<le> off \<longrightarrow> off + n \<le> arg_eth_len arg \<longrightarrow> bytes_at off n fr = bytes_at off n (arg_eth arg))"

lemma clone_into_ok:
  assumes "arg_ok arg info" and "buf_ok info b" and "length (host_mac info) = 6"
  shows "\<exists>b'. clone_into arg (host_mac info) b = Inr b' \<and> buf_ok info b' \<and> status b' = status b \<and> cloned arg info (eth b') \<and>
    vnet_len b' = vnet_hdr_len info \<and> eth_len b' = arg_eth_len arg \<and> take (vnet_hdr_len info) (vnet b') = take (vnet_hdr_len info) (arg_vnet arg)"
proof -
  let ?e = "take (arg_eth_len arg) (arg_eth arg)"
  define et where "et = blit (eth b) 0 ?e"
  let ?src = "bytes_at 6 6 (arg_eth arg)"
  define fr where "fr = blit (blit et 6 (host_mac info)) 0 ?src"
  have le: "length ?e = arg_eth_len arg" "length (eth b) = UIP_ETH_BUF" using assms(1,2) by (auto simp: arg_ok_def buf_ok_def)
  have let': "length et = UIP_ETH_BUF" using le assms(1) by (simp add: et_def arg_ok_def)
  have ls: "length ?src = 6" using assms(1) by (simp add: arg_ok_def length_bytes_at)
  have lf: "length fr = UIP_ETH_BUF" using let' ls assms(3) by (simp add: fr_def)
  have "bytes_at off n fr = bytes_at off n (arg_eth arg)" if "12 \<le> off" "off + n \<le> arg_eth_len arg" for off n
  proof -
    have "bytes_at off n fr = bytes_at off n et" using that(1) let' ls assms(3) by (simp add: fr_def bytes_at_blit_apart)
    also have "take (arg_eth_len arg) et = ?e" using le by (simp add: et_def blit_def)
    then have "bytes_at off n et = bytes_at off n (arg_eth arg)" using that(2) bytes_at_prefix [of "arg_eth_len arg" et "arg_eth arg" off n] by simp
    finally show ?thesis .
  qed
  moreover have "bytes_at 0 6 fr = ?src" "bytes_at 6 6 fr = host_mac info"
    using let' ls assms(3) by (simp_all add: fr_def bytes_at_blit_same bytes_at_blit_apart)
  ultimately have c: "cloned arg info fr" using lf by (simp add: cloned_def)
  have st: "stores [(6, host_mac info), (0, ?src)] et = Inr fr" using let' ls assms(3) by (simp add: memcpy_to_def fr_def)
  let ?v = "take (vnet_hdr_len info) (arg_vnet arg)"
  have v: "length ?v = vnet_hdr_len info" "length (vnet b) = vnet_hdr_len info" using assms(1,2) by (auto simp: arg_ok_def buf_ok_def)
  then have bv: "blit (vnet b) 0 ?v = ?v" by (simp add: blit_def)
  have "clone_into arg (host_mac info) b = Inr (b\<lparr>vnet := ?v, eth := fr, vnet_len := arg_vnet_len arg, eth_len := arg_eth_len arg\<rparr>)"
    using assms(1) le v bv st ls unfolding clone_into_def
    by (simp add: memcpy_from_def memcpy_to_def arg_ok_def et_def [symmetric] bytes_at_def)
  then show ?thesis using c lf v assms(1,2) by (auto simp: buf_ok_def arg_ok_def)
qed

text \<open>A handler that clones the frame, changes the copy by \<open>f\<close> and posts it.\<close>

lemma clone_ok:
  assumes "pool_ok info" and "0 < count_buf UIP_FREE info" and "arg_ok arg info"
  shows "\<exists>i b info1. uip_buf_clone arg info = Some (Inr (i, info1)) \<and> first_buf UIP_FREE info = Some i \<and> pool_ok info1 \<and> holds i info1 \<and>
    bufs info1 ! i = b \<and> cloned arg info (eth b) \<and> vnet_len b = vnet_hdr_len info \<and> eth_len b = arg_eth_len arg \<and>
    info1 = info\<lparr>bufs := (bufs info)[i := b], buf_free_nr := buf_free_nr info - 1\<rparr>"
proof -
  obtain i info1 where g: "uip_buf_get_free info = Some (Inr (Some i, info1))" "first_buf UIP_FREE info = Some i" "pool_ok info1" "holds i info1"
    "info1 = (put_buf i ((bufs info ! i)\<lparr>status := UIP_INUSE\<rparr>) info)\<lparr>buf_free_nr := buf_free_nr info - 1\<rparr>"
    using get_free_ok [OF assms(1,2)] by blast
  let ?b = "bufs info1 ! i"
  have i: "i < length (bufs info)" using first_buf_SomeD [OF g(2)] by simp
  have ok: "buf_ok info1 ?b" using pool_ok_buf [OF g(3)] g(4) by (simp add: holds_def)
  have same: "host_mac info1 = host_mac info" "arg_ok arg info1" "vnet_hdr_len info1 = vnet_hdr_len info" using g(5) assms(3) by (simp_all add: arg_ok_def)
  obtain b where b: "clone_into arg (host_mac info1) ?b = Inr b" "buf_ok info1 b" "status b = status ?b" "cloned arg info1 (eth b)"
    "vnet_len b = vnet_hdr_len info1" "eth_len b = arg_eth_len arg"
    using clone_into_ok [OF same(2) ok] g(3) by (auto simp: pool_ok_def)
  let ?info = "put_buf i b info1"
  have "pool_ok ?info" "holds i ?info" using pool_put [OF g(3) _ b(2,3)] g(4) b(3) by (auto simp: holds_def)
  moreover have "?info = info\<lparr>bufs := (bufs info)[i := b], buf_free_nr := buf_free_nr info - 1\<rparr>" using i g(5) by (simp add: put_buf_def)
  moreover have "cloned arg info (eth b)" using b(4) same by (simp add: cloned_def)
  moreover have "bufs ?info ! i = b" using g(4) by (simp add: holds_def)
  ultimately show ?thesis using g(1,2) b(1,5,6) same by (auto simp: uip_buf_clone_def with_buf_def)
qed

lemma clone_post:
  assumes "pool_ok info1" and "holds i info1" and "first_buf UIP_FREE info = Some i"
    and "info1 = info\<lparr>bufs := (bufs info)[i := b], buf_free_nr := buf_free_nr info - 1\<rparr>"
    and "f b = Inr b'" and "buf_ok info b'" and "status b' = UIP_INUSE" and "Q (b'\<lparr>status := UIP_USED\<rparr>)"
  shows "\<exists>info2. edit_buf i f info1 = Inr info2 \<and> posts Q info (uip_buf_set_used i info2)"
proof -
  have i: "i < length (bufs info)" using first_buf_SomeD [OF assms(3)] by simp
  have b: "bufs info1 ! i = b" using assms(4) i by simp
  let ?info2 = "put_buf i b' info1"
  have "buf_ok info1 b'" using assms(4,6) by (simp add: buf_ok_def)
  then have "pool_ok ?info2" "holds i ?info2" using pool_put [OF assms(1), of i b'] assms(2,7) by (auto simp: holds_def)
  moreover have "uip_buf_set_used i ?info2 = info\<lparr>bufs := (bufs info)[i := b'\<lparr>status := UIP_USED\<rparr>], buf_free_nr := buf_free_nr info - 1,
      buf_used_nr := buf_used_nr info + 1\<rparr>"
    using i assms(4) by (simp add: uip_buf_set_used_def set_status_def put_buf_def)
  ultimately have "posts Q info (uip_buf_set_used i ?info2)"
    unfolding posts_def using buf_set_used_ok(1) [of ?info2 i] assms(3,8)
    by (intro conjI exI [of _ i] exI [of _ "b'\<lparr>status := UIP_USED\<rparr>"]) simp_all
  then show ?thesis using assms(5) b by (auto simp: edit_buf_def)
qed

lemma edit_buf_edit:
  "i < length (bufs info) \<Longrightarrow> rbind (edit_buf i f info) (edit_buf i g) = edit_buf i (\<lambda>b. rbind (f b) g) info"
proof (cases "f (bufs info ! i)")
  case (Inr b)
  assume "i < length (bufs info)"
  with Inr show ?thesis by (cases "g b") (auto simp: edit_buf_def put_buf_def)
qed (simp add: edit_buf_def)

lemma edit_eth_stores:
  assumes "\<forall>(off, src) \<in> set ps. off + length src \<le> length (eth b)"
  shows "edit_eth (stores ps) b = Inr (b\<lparr>eth := stored ps (eth b)\<rparr>)"
  using stores_ok [OF assms] by (simp add: edit_eth_def)

section \<open>ARP\<close>

definition arp_reply :: "uip_tx_arg \<Rightarrow> uip_info \<Rightarrow> u8 list \<Rightarrow> bool" where
  "arp_reply arg info f \<longleftrightarrow> bytes_at 0 6 f = bytes_at 6 6 (arg_eth arg) \<and> bytes_at 6 6 f = host_mac info \<and>
     bytes_at 12 8 f = bytes_at 12 8 (arg_eth arg) \<and> field 20 2 f = (2 :: u16) \<and> bytes_at 22 6 f = host_mac info \<and> field 28 4 f = host_ip info \<and>
     bytes_at 32 6 f = bytes_at 22 6 (arg_eth arg) \<and> bytes_at 38 4 f = bytes_at 28 4 (arg_eth arg)"

lemma arp_stores:
  assumes "cloned arg info fr" and "42 \<le> arg_eth_len arg" and "arg_eth_len arg \<le> length (arg_eth arg)" and "length (host_mac info) = 6"
    and "ps = [(20, be_bytes 2 (2 :: u16)), (32, bytes_at 22 6 (arg_eth arg)), (38, bytes_at 28 4 (arg_eth arg)),
      (22, host_mac info), (28, be_bytes 4 (host_ip info))]"
  shows "length (stored ps fr) = UIP_ETH_BUF" and "arp_reply arg info (stored ps fr)"
proof -
  have l: "length fr = UIP_ETH_BUF" "length (bytes_at 22 6 (arg_eth arg)) = 6" "length (bytes_at 28 4 (arg_eth arg)) = 4"
    using assms(1-3) by (simp_all add: cloned_def length_bytes_at)
  have b: "\<forall>(off, src) \<in> set ps. off + length src \<le> length fr" using l assms(4,5) by auto
  have ap: "apart_all ps" using l assms(4,5) by auto
  show "length (stored ps fr) = UIP_ETH_BUF" using stores_ok [OF b] l by simp
  note g = stored_get [OF ap b]
  have k: "bytes_at off n (stored ps fr) = bytes_at off n fr" if "off + n \<le> 20" for off n
    using that b assms(4,5) l by (intro bytes_at_stored_apart) auto
  have "bytes_at 12 8 fr = bytes_at 12 8 (arg_eth arg)" using assms(1,2) by (simp add: cloned_def)
  moreover have "bytes_at 0 6 fr = bytes_at 6 6 (arg_eth arg)" "bytes_at 6 6 fr = host_mac info" using assms(1) by (simp_all add: cloned_def)
  ultimately show "arp_reply arg info (stored ps fr)"
    using k [of 0 6] k [of 6 6] k [of 12 8] g [of 20 "be_bytes 2 (2 :: u16)"] g [of 32 "bytes_at 22 6 (arg_eth arg)"]
      g [of 38 "bytes_at 28 4 (arg_eth arg)"] g [of 22 "host_mac info"] g [of 28 "be_bytes 4 (host_ip info)"] l assms(4,5)
    by (simp add: arp_reply_def field_of)
qed

lemma arp_outcome:
  assumes "pool_ok info" and "0 < count_buf UIP_FREE info" and "arg_ok arg info" and "42 \<le> arg_eth_len arg"
  shows "field 38 4 (arg_eth arg) = host_ip info \<Longrightarrow>
      \<exists>info'. uip_tx_do_arp arg info = Some (Inr info') \<and> posts (\<lambda>b. arp_reply arg info (eth b) \<and> eth_len b = arg_eth_len arg) info info'"
    and "field 38 4 (arg_eth arg) \<noteq> host_ip info \<Longrightarrow>
      \<exists>info'. uip_tx_do_arp arg info = Some (Inr info') \<and> pool_ok info' \<and> count_buf UIP_FREE info' = count_buf UIP_FREE info - 1 \<and>
        count_buf UIP_USED info' = count_buf UIP_USED info \<and> vnet_hdr_len info' = vnet_hdr_len info \<and> host_ip info' = host_ip info"
proof -
  let ?a = "arg_eth arg"
  have le: "42 \<le> length ?a" using assms(3,4) by (simp add: arg_ok_def)
  have mac: "length (host_mac info) = 6" using assms(1) by (simp add: pool_ok_def)
  obtain i b info1 where c: "uip_buf_clone arg info = Some (Inr (i, info1))" "first_buf UIP_FREE info = Some i" "pool_ok info1" "holds i info1"
    "bufs info1 ! i = b" "cloned arg info (eth b)" "eth_len b = arg_eth_len arg"
    "info1 = info\<lparr>bufs := (bufs info)[i := b], buf_free_nr := buf_free_nr info - 1\<rparr>"
    using clone_ok [OF assms(1-3)] by blast
  have i: "i < length (bufs info)" "i < length (bufs info1)" using first_buf_SomeD [OF c(2)] c(4) by (simp_all add: holds_def)
  have bok: "buf_ok info1 b" using pool_ok_buf [OF c(3) i(2)] c(5) by simp
  let ?ps = "[(20, be_bytes 2 (2 :: u16)), (32, bytes_at 22 6 ?a), (38, bytes_at 28 4 ?a)]"
  let ?qs = "[(22, host_mac info), (28, be_bytes 4 (host_ip info))]"
  have l: "length (eth b) = UIP_ETH_BUF" "length (bytes_at 22 6 ?a) = 6" "length (bytes_at 28 4 ?a) = 4"
    using c(6) le by (simp_all add: cloned_def length_bytes_at)
  have e1: "edit_eth (stores ?ps) b = Inr (b\<lparr>eth := stored ?ps (eth b)\<rparr>)" using l by (intro edit_eth_stores) auto
  have lp: "length (stored ?ps (eth b)) = UIP_ETH_BUF" using stores_ok [of ?ps "eth b"] l by auto
  have e2: "edit_eth (stores ?qs) (b\<lparr>eth := stored ?ps (eth b)\<rparr>) = Inr (b\<lparr>eth := stored (?ps @ ?qs) (eth b)\<rparr>)"
    using edit_eth_stores [of ?qs "b\<lparr>eth := stored ?ps (eth b)\<rparr>"] lp mac by (auto simp: stored_append)
  have run: "uip_tx_do_arp arg info = Some (rbind (edit_buf i (edit_eth (stores ?ps)) info1) (\<lambda>info2.
      if field 38 4 ?a = host_ip info then rbind (edit_buf i (edit_eth (stores ?qs)) info2) (\<lambda>info3. Inr (uip_buf_set_used i info3)) else Inr info2))"
    using c(1) le by (simp add: uip_tx_do_arp_def memcpy_from_def bytes_at_def rd_field cong: if_cong)
  show "\<exists>info'. uip_tx_do_arp arg info = Some (Inr info') \<and> posts (\<lambda>b. arp_reply arg info (eth b) \<and> eth_len b = arg_eth_len arg) info info'"
    if "field 38 4 ?a = host_ip info"
  proof -
    have "stored (?ps @ ?qs) (eth b) = stored [(20, be_bytes 2 (2 :: u16)), (32, bytes_at 22 6 ?a), (38, bytes_at 28 4 ?a),
        (22, host_mac info), (28, be_bytes 4 (host_ip info))] (eth b)" by simp
    then have r: "length (stored (?ps @ ?qs) (eth b)) = UIP_ETH_BUF" "arp_reply arg info (stored (?ps @ ?qs) (eth b))"
      using arp_stores [OF c(6) assms(4) _ mac refl] assms(3) by (simp_all add: arg_ok_def)
    let ?b = "b\<lparr>eth := stored (?ps @ ?qs) (eth b)\<rparr>"
    have "buf_ok info ?b" using bok r c(8) by (simp add: buf_ok_def)
    moreover have "status ?b = UIP_INUSE" using c(4,5) by (simp add: holds_def)
    moreover have "rbind (edit_eth (stores ?ps) b) (edit_eth (stores ?qs)) = Inr ?b" using e1 e2 by simp
    ultimately obtain info2 where i2: "edit_buf i (\<lambda>b. rbind (edit_eth (stores ?ps) b) (edit_eth (stores ?qs))) info1 = Inr info2"
      "posts (\<lambda>b. arp_reply arg info (eth b) \<and> eth_len b = arg_eth_len arg) info (uip_buf_set_used i info2)"
      using clone_post [OF c(3,4,2,8), of "\<lambda>b. rbind (edit_eth (stores ?ps) b) (edit_eth (stores ?qs))" ?b
          "\<lambda>b. arp_reply arg info (eth b) \<and> eth_len b = arg_eth_len arg"] r c(7) by auto
    have "rbind (edit_buf i (edit_eth (stores ?ps)) info1) (edit_buf i (edit_eth (stores ?qs))) = Inr info2"
      using edit_buf_edit [OF i(2)] i2(1) by simp
    then have "uip_tx_do_arp arg info = Some (Inr (uip_buf_set_used i info2))"
      using run that by (auto simp: rbind_eq_Inr_iff)
    with i2(2) show ?thesis by blast
  qed
  show "\<exists>info'. uip_tx_do_arp arg info = Some (Inr info') \<and> pool_ok info' \<and> count_buf UIP_FREE info' = count_buf UIP_FREE info - 1 \<and>
      count_buf UIP_USED info' = count_buf UIP_USED info \<and> vnet_hdr_len info' = vnet_hdr_len info \<and> host_ip info' = host_ip info"
    if "field 38 4 ?a \<noteq> host_ip info"
  proof -
    let ?b = "b\<lparr>eth := stored ?ps (eth b)\<rparr>"
    let ?info = "put_buf i ?b info1"
    have "buf_ok info1 ?b" using bok lp by (simp add: buf_ok_def)
    then have p: "pool_ok ?info" "count_buf st ?info = count_buf st info1" for st using pool_put [OF c(3) i(2), of ?b] c(5) by simp_all
    have "status b = UIP_INUSE" using c(4,5) by (simp add: holds_def)
    then have "count_buf UIP_FREE info1 + 1 = count_buf UIP_FREE info" "count_buf UIP_USED info1 = count_buf UIP_USED info"
      using count_buf_put [OF i(1), of UIP_FREE b] count_buf_put [OF i(1), of UIP_USED b] first_buf_SomeD(2) [OF c(2)] c(8)
      by (simp_all add: put_buf_def count_buf_def)
    moreover have "uip_tx_do_arp arg info = Some (Inr ?info)" using run e1 c(5) that by (simp add: edit_buf_def)
    ultimately show ?thesis using p c(8) by auto
  qed
qed

fun arps :: "nat \<Rightarrow> uip_tx_arg \<Rightarrow> uip_info \<Rightarrow> uip_info blocking" where
  "arps 0 arg info = Some (Inr info)"
| "arps (Suc n) arg info = sbind (uip_tx_do_arp arg info) (arps n arg)"

lemma arps_wait:
  assumes "field 38 4 (arg_eth arg) \<noteq> host_ip info" and "pool_ok info" and "arg_ok arg info" and "42 \<le> arg_eth_len arg"
  shows "arps (Suc (count_buf UIP_FREE info)) arg info = None"
  using assms
proof (induction "count_buf UIP_FREE info" arbitrary: info)
  case 0
  then show ?case using get_free_waits [of info] by (simp add: uip_tx_do_arp_def uip_buf_clone_def with_buf_def)
next
  case (Suc k)
  have f: "0 < count_buf UIP_FREE info" using Suc.hyps(2) by simp
  obtain info' where "uip_tx_do_arp arg info = Some (Inr info')" "pool_ok info'" "count_buf UIP_FREE info' = count_buf UIP_FREE info - 1"
    "vnet_hdr_len info' = vnet_hdr_len info" "host_ip info' = host_ip info"
    using arp_outcome(2) [OF Suc.prems(2) f Suc.prems(3,4,1)] by blast
  moreover from this have "arps (Suc (count_buf UIP_FREE info')) arg info' = None"
    using Suc.hyps Suc.prems by (intro Suc.hyps(1)) (auto simp: arg_ok_def)
  ultimately show ?case using Suc.hyps(2) by auto
qed

section \<open>ICMP\<close>

text \<open>The reply to an echo request with an IP packet of \<open>n\<close> bytes; its checksum is right for all but the last 8 bytes.\<close>

definition icmp_reply :: "uip_tx_arg \<Rightarrow> uip_info \<Rightarrow> nat \<Rightarrow> u8 list \<Rightarrow> bool" where
  "icmp_reply arg info n f \<longleftrightarrow> bytes_at 0 6 f = bytes_at 6 6 (arg_eth arg) \<and> bytes_at 6 6 f = host_mac info \<and>
     bytes_at 26 4 f = bytes_at 30 4 (arg_eth arg) \<and> bytes_at 30 4 f = bytes_at 26 4 (arg_eth arg) \<and> csum_right (bytes_at 14 20 f) \<and>
     f ! 34 = 0 \<and> bytes_at 38 (n - 24) f = bytes_at 38 (n - 24) (arg_eth arg) \<and> csum_right (bytes_at 34 (n - 28) f)"

lemma icmp_frame_parts:
  assumes "length fr = UIP_ETH_BUF" and "fr ! 14 = 0x45" and "field 16 2 fr = (of_nat n :: u16)" and "length sip = 4" and "length dip = 4"
  shows "\<exists>f2. icmp_frame sip dip fr = rbind (csum_at 34 (of_nat n - 28) f2) (\<lambda>c. Inr (blit f2 36 (le_bytes 2 c))) \<and>
    length f2 = UIP_ETH_BUF \<and> csum_right (bytes_at 14 20 f2) \<and> bytes_at 26 4 f2 = dip \<and> bytes_at 30 4 f2 = sip \<and> f2 ! 34 = 0 \<and>
    bytes_at 36 2 f2 = [0, 0] \<and> (\<forall>off m. off + m \<le> 24 \<or> 38 \<le> off \<longrightarrow> bytes_at off m f2 = bytes_at off m fr)"
proof -
  let ?ps = "[(26, dip), (30, sip), (24, [0, 0]), (34, [0]), (36, [0, 0])] :: (nat \<times> u8 list) list"
  define f1 where "f1 = stored ?ps fr"
  have b: "\<forall>(off, src) \<in> set ?ps. off + length src \<le> length fr" and ap: "apart_all ?ps" using assms by auto
  have s1: "stores ?ps fr = Inr f1" and l1: "length f1 = UIP_ETH_BUF" using stores_ok [OF b] assms(1) by (simp_all add: f1_def)
  have g: "bytes_at off (length src) f1 = src" if "(off, src) \<in> set ?ps" for off src using stored_get [OF ap b that] by (simp add: f1_def)
  have k1: "bytes_at off m f1 = bytes_at off m fr" if "off + m \<le> 24 \<or> 38 \<le> off" for off m
    unfolding f1_def using that b assms(4,5) by (intro bytes_at_stored_apart) auto
  have "bytes_at 14 1 fr = [0x45]" using assms(1,2) by (simp add: bytes_at_def take_Suc hd_drop_conv_nth)
  then have v: "f1 ! 14 = 0x45" using k1 [of 14 1] by (intro nth_bytes_at) simp
  have z: "bytes_at 24 2 f1 = [0, 0]" "bytes_at 36 2 f1 = [0, 0]" "bytes_at 34 1 f1 = [0]"
    using g [of 24 "[0, 0]"] g [of 36 "[0, 0]"] g [of 34 "[0]"] by (simp_all add: numeral_2_eq_2)
  obtain c :: u16 where c: "store_ip_csum f1 = Inr (blit f1 24 (le_bytes 2 c))" "csum_right (bytes_at 14 20 (blit f1 24 (le_bytes 2 c)))"
    using store_ip_csum_ok [OF _ v z(1)] l1 by auto
  define f2 where "f2 = blit f1 24 (le_bytes 2 c)"
  have l2: "length f2 = UIP_ETH_BUF" using l1 by (simp add: f2_def)
  have k2: "bytes_at off m f2 = bytes_at off m f1" if "off + m \<le> 24 \<or> 26 \<le> off" for off m
    using that l1 by (simp add: f2_def bytes_at_blit_apart)
  have "f2 ! 14 = 0x45" using v l1 by (simp add: f2_def nth_blit)
  then have "uip_ip_hdrlen f2 = Inr 20" using uip_ip_hdrlen_45 [of f2] l2 by simp
  moreover have "uip_ip_len f2 = Inr (of_nat n)"
    using l2 k2 [of 16 2] k1 [of 16 2] assms(3) by (simp add: uip_ip_len_def rd_field field_def)
  moreover have "blit (blit f2 36 (le_bytes 2 d)) 36 (le_bytes 2 d) = blit f2 36 (le_bytes 2 d)" for d :: u16
    using l2 by (simp add: blit_def)
  ultimately have "icmp_frame sip dip fr = rbind (csum_at 34 (of_nat n - 28) f2) (\<lambda>c. Inr (blit f2 36 (le_bytes 2 c)))"
    using s1 c(1) l2 unfolding icmp_frame_def uip_csum_icmp_def f2_def [symmetric]
    by (cases "csum_at 34 (of_nat n - 28) f2") (auto simp: memcpy_to_def f2_def [symmetric] diff_diff_eq)
  moreover have "bytes_at 26 4 f2 = dip" "bytes_at 30 4 f2 = sip" "bytes_at 36 2 f2 = [0, 0]"
    using g [of 26 dip] g [of 30 sip] z assms(4,5) by (simp_all add: k2)
  moreover have "f2 ! 34 = 0" using k2 [of 34 1] z(3) by (intro nth_bytes_at) simp
  ultimately show ?thesis using c(2) l2 k1 k2 by (intro exI [of _ f2]) (auto simp: f2_def [symmetric])
qed

lemma csum_at_ok: "unat n + off \<le> length fr \<Longrightarrow> csum_at off n fr = Inr (uip_csum 0 (bytes_at off (unat n) fr))"
  by (simp add: csum_at_def memcpy_from_def bytes_at_def add.commute)

lemma icmp_frame_ok:
  assumes "cloned arg info fr" and "14 + n \<le> arg_eth_len arg" and "arg_eth_len arg \<le> UIP_ETH_BUF" and "arg_eth_len arg \<le> length (arg_eth arg)"
    and "arg_eth arg ! 14 = 0x45" and "field 16 2 (arg_eth arg) = (of_nat n :: u16)" and "32 \<le> n" and "even n"
  shows "\<exists>f. icmp_frame (bytes_at 26 4 (arg_eth arg)) (bytes_at 30 4 (arg_eth arg)) fr = Inr f \<and> length f = UIP_ETH_BUF \<and> icmp_reply arg info n f"
proof -
  let ?a = "arg_eth arg"
  have k: "bytes_at off m fr = bytes_at off m ?a" if "12 \<le> off" "off + m \<le> 14 + n" for off m
    using assms(1,2) that by (simp add: cloned_def)
  have lf: "length fr = UIP_ETH_BUF" using assms(1) by (simp add: cloned_def)
  have "bytes_at 14 1 ?a = [0x45]" using assms(2,4,5,7) by (simp add: bytes_at_def take_Suc hd_drop_conv_nth)
  then have v: "fr ! 14 = 0x45" using k [of 14 1] assms(7) by (intro nth_bytes_at) simp
  have f16: "field 16 2 fr = (of_nat n :: u16)" using k [of 16 2] assms(6,7) by (simp add: field_def)
  have l4: "length (bytes_at 26 4 ?a) = 4" "length (bytes_at 30 4 ?a) = 4" using assms(2,4,7) by (simp_all add: length_bytes_at)
  obtain f2 where f2: "icmp_frame (bytes_at 26 4 ?a) (bytes_at 30 4 ?a) fr = rbind (csum_at 34 (of_nat n - 28) f2) (\<lambda>c. Inr (blit f2 36 (le_bytes 2 c)))"
    "length f2 = UIP_ETH_BUF" "csum_right (bytes_at 14 20 f2)" "bytes_at 26 4 f2 = bytes_at 30 4 ?a" "bytes_at 30 4 f2 = bytes_at 26 4 ?a" "f2 ! 34 = 0"
    "bytes_at 36 2 f2 = [0, 0]" and k2: "\<And>off m. off + m \<le> 24 \<or> 38 \<le> off \<Longrightarrow> bytes_at off m f2 = bytes_at off m fr"
    using icmp_frame_parts [OF lf v f16 l4] by blast
  have n: "unat (of_nat n - 28 :: u16) = n - 28"
    using assms(2,3,7) by (simp add: unat_sub_if' unat_of_nat)
  define c where "c = uip_csum 0 (bytes_at 34 (n - 28) f2)"
  define f where "f = blit f2 36 (le_bytes 2 c)"
  have at: "csum_at 34 (of_nat n - 28) f2 = Inr c" unfolding c_def n [symmetric] using assms(2,3) f2(2) n by (intro csum_at_ok) simp
  have k3: "bytes_at off m f = bytes_at off m f2" if "off + m \<le> 36 \<or> 38 \<le> off" for off m
    using that f2(2) by (simp add: f_def bytes_at_blit_apart)
  have "n - 28 = 2 + (2 + (n - 32))" using assms(7) by simp
  then have parts: "bytes_at 34 (n - 28) g = bytes_at 34 2 g @ bytes_at 36 2 g @ bytes_at 38 (n - 32) g" for g :: "u8 list"
    using bytes_at_add [of 34 2 "2 + (n - 32)" g] bytes_at_add [of 36 2 "n - 32" g] by simp
  have "bytes_at 36 2 f = le_bytes 2 c" using f2(2) by (simp add: f_def bytes_at_blit_same)
  then have "bytes_at 34 (n - 28) f = bytes_at 34 2 f2 @ le_bytes 2 c @ bytes_at 38 (n - 32) f2" by (simp add: parts k3)
  moreover have "c = uip_csum 0 (bytes_at 34 2 f2 @ [0, 0] @ bytes_at 38 (n - 32) f2)" unfolding c_def parts f2(7) ..
  moreover have "even (length (bytes_at 34 2 f2))" using f2(2) by (simp add: length_bytes_at)
  ultimately have r: "csum_right (bytes_at 34 (n - 28) f)" by (simp only: csum_stored_right)
  have "f ! 34 = 0" using f2(2,6) by (simp add: f_def nth_blit)
  moreover have "bytes_at 0 6 f = bytes_at 6 6 ?a" "bytes_at 6 6 f = host_mac info" using assms(1) by (simp_all add: k3 k2 cloned_def)
  moreover have "bytes_at 38 (n - 24) f = bytes_at 38 (n - 24) ?a" using assms(7) k [of 38 "n - 24"] by (simp add: k3 k2)
  ultimately have "icmp_reply arg info n f" using r f2(3-5) by (simp add: icmp_reply_def k3)
  moreover have "length f = UIP_ETH_BUF" using f2(2) by (simp add: f_def)
  ultimately show ?thesis using f2(1) at by (auto simp: f_def)
qed

text \<open>The whole message has a right checksum exactly when its last 8 bytes do not count.\<close>

lemma icmp_reply_right_iff:
  assumes "icmp_reply arg info n f" and "length f = UIP_ETH_BUF" and "14 + n \<le> UIP_ETH_BUF" and "32 \<le> n" and "even n"
  shows "csum_right (bytes_at 34 (n - 20) f) \<longleftrightarrow> csum_right (bytes_at (6 + n) 8 (arg_eth arg))"
proof -
  have "n - 20 = (n - 28) + 8" "34 + (n - 28) = 6 + n" using assms(4) by simp_all
  then have s: "bytes_at 34 (n - 20) f = bytes_at 34 (n - 28) f @ bytes_at (6 + n) 8 f"
    using bytes_at_add [of 34 "n - 28" 8 f] by simp
  have "bytes_at (6 + n) 8 g = bytes_at (n - 32) 8 (bytes_at 38 (n - 24) g)" for g :: "u8 list"
    using assms(4) by (simp add: bytes_at_def drop_take add.commute)
  then have l: "bytes_at (6 + n) 8 f = bytes_at (6 + n) 8 (arg_eth arg)" using assms(1) by (simp add: icmp_reply_def)
  have "even (length (bytes_at 34 (n - 28) f))" using assms(2,3,5) by (simp add: bytes_at_def)
  then have "net_sum (bytes_at 34 (n - 20) f) = net_sum (bytes_at 34 (n - 28) f) + net_sum (bytes_at (6 + n) 8 f)"
    by (simp add: s net_sum_append)
  moreover have "net_sum (bytes_at 34 (n - 28) f) mod 65535 = 0" using assms(1) by (simp add: icmp_reply_def csum_right_def)
  ultimately show ?thesis using l unfolding csum_right_def by (metis add_0 mod_add_left_eq)
qed

lemma icmp_outcome:
  assumes "pool_ok info" and "0 < count_buf UIP_FREE info" and "arg_ok arg info" and "14 + n \<le> arg_eth_len arg" and "arg_eth arg ! 14 = 0x45"
    and "field 16 2 (arg_eth arg) = (of_nat n :: u16)" and "32 \<le> n" and "even n"
  shows "\<exists>info'. uip_tx_do_ipv4_icmp arg info = Some (Inr info') \<and>
    posts (\<lambda>b. icmp_reply arg info n (eth b) \<and> length (eth b) = UIP_ETH_BUF \<and> eth_len b = arg_eth_len arg) info info'"
proof -
  let ?a = "arg_eth arg" and ?Q = "\<lambda>b. icmp_reply arg info n (eth b) \<and> length (eth b) = UIP_ETH_BUF \<and> eth_len b = arg_eth_len arg"
  let ?f = "edit_eth (icmp_frame (bytes_at 26 4 ?a) (bytes_at 30 4 ?a))"
  obtain i b info1 where c: "uip_buf_clone arg info = Some (Inr (i, info1))" "first_buf UIP_FREE info = Some i" "pool_ok info1" "holds i info1"
    "bufs info1 ! i = b" "cloned arg info (eth b)" "eth_len b = arg_eth_len arg"
    "info1 = info\<lparr>bufs := (bufs info)[i := b], buf_free_nr := buf_free_nr info - 1\<rparr>"
    using clone_ok [OF assms(1-3)] by blast
  have bok: "buf_ok info1 b" using pool_ok_buf [OF c(3)] c(4,5) by (auto simp: holds_def)
  obtain f where f: "icmp_frame (bytes_at 26 4 ?a) (bytes_at 30 4 ?a) (eth b) = Inr f" "length f = UIP_ETH_BUF" "icmp_reply arg info n f"
    using icmp_frame_ok [OF c(6) assms(4) _ _ assms(5-8)] assms(3) by (auto simp: arg_ok_def)
  have "?f b = Inr (b\<lparr>eth := f\<rparr>)" using f(1) by (simp add: edit_eth_def)
  moreover have "buf_ok info (b\<lparr>eth := f\<rparr>)" using bok f(2) c(8) by (simp add: buf_ok_def)
  moreover have "status (b\<lparr>eth := f\<rparr>) = UIP_INUSE" using c(4,5) by (simp add: holds_def)
  ultimately obtain info2 where "edit_buf i ?f info1 = Inr info2" "posts ?Q info (uip_buf_set_used i info2)"
    using clone_post [OF c(3,4,2,8), of ?f "b\<lparr>eth := f\<rparr>" ?Q] f c(7) by auto
  moreover have "34 \<le> length ?a" using assms(3,4,7) by (simp add: arg_ok_def)
  ultimately show ?thesis using c(1) by (simp add: uip_tx_do_ipv4_icmp_def memcpy_from_def bytes_at_def)
qed

section \<open>UDP\<close>

lemma le_bytes_word_2: "le_bytes 2 (le_word [a, b] :: u16) = [a, b]"
proof -
  have "unat (ucast (le_word [a, b] :: u16) :: u8) = unat a"
    using unsigned_less [of a, where 'a = nat] by (simp add: unsigned_ucast_eq unat_le_word_2 take_bit_eq_mod)
  moreover have "unat (ucast (drop_bit 8 (le_word [a, b] :: u16)) :: u8) = unat b"
    using unsigned_less [of a, where 'a = nat] unsigned_less [of b, where 'a = nat]
    by (simp add: unsigned_ucast_eq unat_drop unat_le_word_2 take_bit_eq_mod)
  ultimately show ?thesis by (simp add: le_bytes_def upt_rec word_unat_eq_iff)
qed

text \<open>The sum of two lengths in network byte order loses the carry out of the low byte.\<close>

definition swapped_sum :: "nat \<Rightarrow> nat" where
  "swapped_sum n = (if n mod 256 < 236 then n + 20 else n + 20 - 256)"

lemma swapped_add:
  assumes "n < 65536 - 20"
  shows "le_bytes 2 (le_word (be_bytes 2 (of_nat n :: u16)) + le_word (be_bytes 2 (20 :: u16)) :: u16) = be_bytes 2 (of_nat (swapped_sum n) :: u16)"
proof -
  have wrap: "(l + 20) mod 256 = l + 20 - 256" if "236 \<le> l" "l < 256" for l :: nat using that by (simp add: mod_if)
  define hi lo where "hi = (of_nat (n div 256) :: u8)" and "lo = (of_nat (n mod 256) :: u8)"
  have hl: "unat hi = n div 256" "unat lo = n mod 256" using assms by (simp_all add: hi_def lo_def unat_of_nat)
  have "(of_nat n :: u16) = le_word [lo, hi]" using assms hl by (simp add: word_unat_eq_iff unat_of_nat unat_le_word_2)
  then have n: "be_bytes 2 (of_nat n :: u16) = [hi, lo]" by (simp add: be_bytes_def le_bytes_word_2)
  have "(20 :: u16) = le_word [20, 0]" by (simp add: le_word_def)
  then have t: "be_bytes 2 (20 :: u16) = [0, 20]" by (simp only: be_bytes_def le_bytes_word_2) simp
  have lo20: "unat (lo + 20) = (n mod 256 + 20) mod 256" by (simp add: unat_word_ariths hl)
  have "(h + 256 * l + 5120) mod 65536 = h + 256 * ((l + 20) mod 256)" if "h < 256" "l < 256" for h l :: nat
  proof (cases "l < 236")
    case False
    then have "h + 256 * l + 5120 = 65536 + (h + 256 * (l + 20 - 256))" by simp
    moreover have "(l + 20) mod 256 = l + 20 - 256" using False that(2) by (simp add: wrap)
    ultimately show ?thesis using that by simp
  qed (use that in simp)
  then have "(unat hi + 256 * unat lo + 5120) mod 65536 = unat hi + 256 * ((unat lo + 20) mod 256)"
    using unsigned_less [of hi, where 'a = nat] unsigned_less [of lo, where 'a = nat] by simp
  then have "unat (le_word [hi, lo] + le_word [0, 20] :: u16) = unat (le_word [hi, lo + 20] :: u16)"
    using lo20 by (simp add: unat_word_ariths unat_le_word_2 hl)
  then have s: "(le_word [hi, lo] + le_word [0, 20] :: u16) = le_word [hi, lo + 20]" by (simp add: word_unat_eq_iff)
  have q: "n = 256 * (n div 256) + n mod 256" "n mod 256 < 256" by simp_all
  have "swapped_sum n = (n mod 256 + 20) mod 256 + 256 * (n div 256)"
  proof (cases "n mod 256 < 236")
    case True
    then have "(n mod 256 + 20) mod 256 = n mod 256 + 20" by simp
    with True q(1) show ?thesis by (simp add: swapped_sum_def)
  next
    case False
    then have "(n mod 256 + 20) mod 256 = n mod 256 + 20 - 256" using wrap [of "n mod 256"] q(2) by linarith
    moreover have "n + 20 - 256 = n mod 256 + 20 - 256 + 256 * (n div 256)" using False q(1) by linarith
    ultimately show ?thesis using False by (simp only: swapped_sum_def if_False)
  qed
  then have "swapped_sum n = unat (le_word [lo + 20, hi] :: u16)" using hl lo20 by (simp add: unat_le_word_2)
  then have "(of_nat (swapped_sum n) :: u16) = le_word [lo + 20, hi]" by simp
  then show ?thesis by (simp only: n t s le_bytes_word_2) (simp add: be_bytes_def le_bytes_word_2)
qed

definition udp_body :: "u8 list option \<Rightarrow> nat \<Rightarrow> u8 list \<Rightarrow> u8 list" where
  "udp_body payload n fr = (case payload of None \<Rightarrow> bytes_at 42 n fr | Some p \<Rightarrow> p)"

text \<open>A datagram to the guest; the length of the IP packet is what the code makes of it.\<close>

definition udp_carries :: "udp_socket \<Rightarrow> u8 list \<Rightarrow> uip_info \<Rightarrow> u8 list \<Rightarrow> bool" where
  "udp_carries sk body info f \<longleftrightarrow> ip_carries 17 (us_dip sk) (us_sip sk) (8 + length body) info f \<and>
     field 34 2 f = us_dport sk \<and> field 36 2 f = us_sport sk \<and> field 38 2 f = (of_nat (8 + length body) :: u16) \<and>
     bytes_at 42 (length body) f = body"

lemma udp_frame_parts:
  assumes "length fr = UIP_ETH_BUF" and "length (host_mac info) = 6" and "length (guest_mac info) = 6" and "n \<le> 65506"
    and "\<forall>p. payload = Some p \<longrightarrow> length p = n"
  shows "\<exists>f3. udp_frame sk payload n info fr = seal 6 (of_nat (8 + n)) f3 \<and> length f3 = UIP_ETH_BUF \<and> f3 ! 14 = 0x45 \<and>
    bytes_at 24 2 f3 = [0, 0] \<and> bytes_at (34 + 6) 2 f3 = [0, 0] \<and>
    (\<forall>off src. (off, src) \<in> set (eth_ip_hdr 17 (us_dip sk) (us_sip sk) info @ udp_hdr sk n) \<longrightarrow> bytes_at off (length src) f3 = src) \<and>
    bytes_at 16 2 f3 = be_bytes 2 (of_nat (swapped_sum (8 + n)) :: u16) \<and> bytes_at 42 n f3 = udp_body payload n fr"
proof -
  let ?hs = "eth_ip_hdr 17 (us_dip sk) (us_sip sk) info"
  define f1 where "f1 = stored (?hs @ udp_hdr sk n) fr"
  have ps: "\<forall>(off, src) \<in> set (udp_hdr sk n). 34 \<le> off \<and> off + length src \<le> length fr" "apart_all (udp_hdr sk n)"
    using assms(1) by (auto simp: udp_hdr_def)
  note e = eth_ip_hdr_ok [OF assms(2,3) _ ps, where proto = 17 and sip = "us_dip sk" and dip = "us_sip sk", folded f1_def]
  have l1: "length f1 = UIP_ETH_BUF" and s1: "stores (?hs @ udp_hdr sk n) fr = Inr f1" using e(1,2) assms(1) by simp_all
  have h1: "bytes_at off (length src) f1 = src" if "(off, src) \<in> set (?hs @ udp_hdr sk n)" for off src
    using e(3) [OF _ that] assms(1) by simp
  have b1: "bytes_at 42 n f1 = bytes_at 42 n fr"
    unfolding f1_def using assms(1-3) by (intro bytes_at_stored_apart) (auto simp: eth_ip_hdr_def udp_hdr_def)
  define f2 where "f2 = (case payload of None \<Rightarrow> f1 | Some p \<Rightarrow> blit f1 42 p)"
  have m2: "(case payload of None \<Rightarrow> Inr f1 | Some p \<Rightarrow> memcpy_to f1 42 p) = Inr f2"
    using l1 assms(4,5) by (auto simp: f2_def memcpy_to_def split: option.splits)
  have l2: "length f2 = UIP_ETH_BUF" using l1 assms(4,5) by (auto simp: f2_def split: option.splits)
  have k2: "bytes_at off m f2 = bytes_at off m f1" if "off + m \<le> 42" for off m
    using that l1 assms(4,5) by (auto simp: f2_def bytes_at_blit_apart split: option.splits)
  have b2: "bytes_at 42 n f2 = udp_body payload n fr"
    using b1 l1 assms(4,5) by (auto simp: f2_def udp_body_def bytes_at_blit_same split: option.splits)
  define f3 where "f3 = blit f2 16 (be_bytes 2 (of_nat (swapped_sum (8 + n)) :: u16))"
  have l3: "length f3 = UIP_ETH_BUF" using l2 by (simp add: f3_def)
  have k3: "bytes_at off m f3 = bytes_at off m f2" if "off + m \<le> 16 \<or> 18 \<le> off" for off m
    using that l2 by (simp add: f3_def bytes_at_blit_apart)
  have h3: "bytes_at off (length src) f3 = src" if "(off, src) \<in> set (?hs @ udp_hdr sk n)" for off src
    using h1 [OF that] that assms(2,3) by (subst k3, force simp: eth_ip_hdr_def udp_hdr_def, subst k2) (auto simp: eth_ip_hdr_def udp_hdr_def)
  have v: "f2 ! 14 = 0x45" "f3 ! 14 = 0x45"
    using h1 [of 14 "[0x45]"] k2 [of 14 1] h3 [of 14 "[0x45]"] by (auto simp: eth_ip_hdr_def intro: nth_bytes_at)
  have z: "bytes_at 24 2 f3 = [0, 0]" "bytes_at (34 + 6) 2 f3 = [0, 0]"
    using h3 [of 24 "[0, 0]"] h3 [of 40 "[0, 0]"] by (simp_all add: eth_ip_hdr_def udp_hdr_def numeral_2_eq_2)
  have "bytes_at 38 2 f2 = be_bytes 2 (of_nat (8 + n) :: u16)"
    using h1 [of 38 "be_bytes 2 (of_nat (n + 8) :: u16)"] k2 [of 38 2] by (simp add: udp_hdr_def add.commute)
  then have m3: "store_ip_len f2 = Inr f3"
    using uip_ip_hdrlen_45 [of f2] l2 v(1) assms(4) swapped_add [of "8 + n"]
    by (simp add: store_ip_len_def memcpy_from_def memcpy_to_def f3_def bytes_at_def)
  obtain f4 where f4: "store_ip_csum f3 = Inr f4" "length f4 = UIP_ETH_BUF" "bytes_at 38 2 f4 = bytes_at 38 2 f3"
    using store_ip_csum_ok [OF _ v(2) z(1)] l3 by (auto simp: bytes_at_blit_apart)
  have "bytes_at 38 2 f3 = be_bytes 2 (of_nat (8 + n) :: u16)"
    using h3 [of 38 "be_bytes 2 (of_nat (n + 8) :: u16)"] by (simp add: udp_hdr_def add.commute)
  then have "uip_udp_len f4 = Inr (of_nat (8 + n))" using f4(2,3) by (simp add: uip_udp_len_def rd16_def memcpy_from_def bytes_at_def)
  then have "udp_frame sk payload n info fr = seal 6 (of_nat (8 + n)) f3"
    using s1 m2 m3 f4(1) by (simp add: udp_frame_def seal_def uip_csum_udp_def)
  moreover have "bytes_at 42 n f3 = udp_body payload n fr" using b2 by (simp add: k3)
  moreover have "bytes_at 16 2 f3 = be_bytes 2 (of_nat (swapped_sum (8 + n)) :: u16)" using l2 by (simp add: f3_def bytes_at_blit_same)
  ultimately show ?thesis using l3 v(2) z h3 by blast
qed

lemma udp_frame_ok:
  assumes "length fr = UIP_ETH_BUF" and "length (host_mac info) = 6" and "length (guest_mac info) = 6" and "n \<le> 65494"
    and "\<forall>p. payload = Some p \<longrightarrow> length p = n"
  shows "\<exists>f. udp_frame sk payload n info fr = Inr f \<and> length f = UIP_ETH_BUF \<and> udp_carries sk (udp_body payload n fr) info f \<and>
    field 16 2 f = (of_nat (swapped_sum (8 + n)) :: u16)"
proof -
  have n: "n \<le> 65506" using assms(4) by simp
  have body: "length (udp_body payload n fr) = n" using assms(1,4,5) by (auto simp: udp_body_def length_bytes_at split: option.splits)
  obtain f3 where f3: "udp_frame sk payload n info fr = seal 6 (of_nat (8 + n)) f3" "length f3 = UIP_ETH_BUF" "f3 ! 14 = 0x45"
    "bytes_at 24 2 f3 = [0, 0]" "bytes_at (34 + 6) 2 f3 = [0, 0]"
    and h3: "\<And>off src. (off, src) \<in> set (eth_ip_hdr 17 (us_dip sk) (us_sip sk) info @ udp_hdr sk n) \<Longrightarrow> bytes_at off (length src) f3 = src"
    and b3: "bytes_at 16 2 f3 = be_bytes 2 (of_nat (swapped_sum (8 + n)) :: u16)" "bytes_at 42 n f3 = udp_body payload n fr"
    using udp_frame_parts [OF assms(1-3) n assms(5), of sk] by blast
  have room: "34 + (8 + n) + length (pad_of (8 + n)) + 12 \<le> length f3"
    using assms(4) f3(2) by (auto simp: pad_of_def elim!: oddE)
  obtain f where f: "seal 6 (of_nat (8 + n)) f3 = Inr f" "sealed 6 (8 + n) f3 f"
    using seal_ok [OF f3(3-5) _ _ _ room] assms(4) by auto
  have ip: "ip_carries 17 (us_dip sk) (us_sip sk) (8 + n) info f"
    using h3 by (intro ip_carries_sealed [OF _ f(2) assms(2,3)]) auto
  note k = sealed_keep [OF f(2)]
  have "bytes_at 16 2 f = be_bytes 2 (of_nat (swapped_sum (8 + n)) :: u16)" "bytes_at 34 2 f = be_bytes 2 (us_dport sk)"
    "bytes_at 36 2 f = be_bytes 2 (us_sport sk)" "bytes_at 38 2 f = be_bytes 2 (of_nat (8 + n) :: u16)" "bytes_at 42 n f = udp_body payload n fr"
    using k [of 16 2] k [of 34 2] k [of 36 2] k [of 38 2] k [of 42 n] b3
      h3 [of 34 "be_bytes 2 (us_dport sk)"] h3 [of 36 "be_bytes 2 (us_sport sk)"] h3 [of 38 "be_bytes 2 (of_nat (n + 8) :: u16)"]
    by (simp_all add: udp_hdr_def add.commute)
  moreover have "length f = UIP_ETH_BUF" using f(2) f3(2) by (simp add: sealed_def)
  ultimately show ?thesis using ip f3(1) f(1) body by (simp add: udp_carries_def field_of)
qed

lemma udp_frame_overflow:
  assumes "length fr = UIP_ETH_BUF" and "length (host_mac info) = 6" and "length (guest_mac info) = 6" and "65494 < n" and "n \<le> 65506"
    and "\<forall>p. payload = Some p \<longrightarrow> length p = n"
  shows "udp_frame sk payload n info fr = Inl OutOfBounds"
proof -
  obtain f3 where f3: "udp_frame sk payload n info fr = seal 6 (of_nat (8 + n)) f3" "length f3 = UIP_ETH_BUF" "f3 ! 14 = 0x45" "bytes_at 24 2 f3 = [0, 0]"
    using udp_frame_parts [OF assms(1-3,5,6), of sk] by blast
  obtain c :: u16 where "store_ip_csum f3 = Inr (blit f3 24 (le_bytes 2 c))" using store_ip_csum_ok [OF _ f3(3,4)] f3(2) by auto
  moreover have "csum_segment (of_nat (8 + n)) (blit f3 24 (le_bytes 2 c)) = Inl OutOfBounds"
    using f3(2) assms(4,5) by (intro csum_segment_overflow) auto
  ultimately show ?thesis using f3(1) by (simp add: seal_def)
qed

lemma udp_carries_cong:
  "host_mac info1 = host_mac info \<Longrightarrow> guest_mac info1 = guest_mac info \<Longrightarrow> udp_carries sk body info1 = udp_carries sk body info"
  by (simp add: fun_eq_iff udp_carries_def ip_carries_def)

lemma udp_receive_ok:
  assumes "pool_ok info" and "0 < count_buf UIP_FREE info" and "length payload \<le> 65494"
  shows "\<exists>info'. udp_receive sk payload info = Some (Inr info') \<and>
    posts (framed (udp_carries sk payload info) (swapped_sum (8 + length payload) + 14) info) info info'"
proof -
  let ?n = "swapped_sum (8 + length payload)"
  have n: "?n + 14 \<le> UIP_ETH_BUF" using assms(3) by (auto simp: swapped_sum_def)
  have b: "\<exists>f. udp_frame sk (Some payload) (length payload) info1 fr = Inr f \<and> length f = UIP_ETH_BUF \<and> udp_carries sk payload info f \<and>
      field 16 2 f = (of_nat ?n :: u16)"
    if "length fr = UIP_ETH_BUF" "host_mac info1 = host_mac info" "guest_mac info1 = guest_mac info" for fr info1
  proof -
    have m: "length (host_mac info1) = 6" "length (guest_mac info1) = 6" using that(2,3) assms(1) by (simp_all add: pool_ok_def)
    have "udp_body (Some payload) (length payload) fr = payload" by (simp add: udp_body_def)
    moreover have "udp_carries sk payload info1 = udp_carries sk payload info" using that(2,3) by (rule udp_carries_cong)
    ultimately show ?thesis using udp_frame_ok [OF that(1) m assms(3), of "Some payload" sk] by simp
  qed
  obtain i info1 info2 where "uip_buf_get_free info = Some (Inr (Some i, info1))"
    "edit_buf i (finish_frame info1 (udp_frame sk (Some payload) (length payload) info1)) info1 = Inr info2"
    "posts (framed (udp_carries sk payload info) (?n + 14) info) info (uip_buf_set_used i info2)"
    using post_frame [where build = "udp_frame sk (Some payload) (length payload)" and Q = "udp_carries sk payload info", OF assms(1,2) n b] by blast
  then show ?thesis by (auto simp: udp_receive_def with_buf_def uip_udp_make_pkg_def)
qed

lemma udp_receive_overflow:
  assumes "pool_ok info" and "0 < count_buf UIP_FREE info" and "65494 < length payload" and "length payload \<le> 65506"
  shows "udp_receive sk payload info = Some (Inl OutOfBounds)"
proof -
  obtain i info1 where g: "uip_buf_get_free info = Some (Inr (Some i, info1))" "pool_ok info1" "holds i info1"
    using get_free_ok [OF assms(1,2)] by blast
  have "udp_frame sk (Some payload) (length payload) info1 (eth (bufs info1 ! i)) = Inl OutOfBounds"
    using pool_ok_buf [OF g(2)] g(2,3) assms(3,4) by (intro udp_frame_overflow) (auto simp: holds_def buf_ok_def pool_ok_def)
  then show ?thesis using g(1) by (simp add: udp_receive_def with_buf_def edit_buf_def finish_frame_def uip_udp_make_pkg_def)
qed

section \<open>DHCP\<close>

text \<open>The reader of options that the protocol describes: tag, length, value, up to the end tag.\<close>

function read_options :: "u8 list \<Rightarrow> (u8 \<times> u8 list) list option" where
  "read_options [] = None"
| "read_options (t # bs) =
     (if t = 255 then Some []
      else case bs of
          [] \<Rightarrow> None
        | n # bs' \<Rightarrow> if length bs' < unat n then None
            else map_option (Cons (t, take (unat n) bs')) (read_options (drop (unat n) bs')))"
  by pat_completeness auto
termination by (relation "measure length") auto

definition dhcp_options :: "uip_info \<Rightarrow> u8 \<Rightarrow> (u8 \<times> u8 list) list" where
  "dhcp_options info reply =
     [(53, [reply]), (54, be_bytes 4 (host_ip info)), (51, be_bytes 4 (0x3840 :: u32)), (1, be_bytes 4 (guest_netmask info)),
      (3, be_bytes 4 (host_ip info)), (17, [48, 46, 48, 46, 48, 46, 48])] @
     (case domain_name info of None \<Rightarrow> [] | Some name \<Rightarrow> [(15, name)]) @
     map (\<lambda>ip. (6, be_bytes 4 ip)) (filter (\<lambda>ip. ip \<noteq> 0) (dns_ip info))"

lemma read_option_step:
  "t \<noteq> 255 \<Longrightarrow> length v < 256 \<Longrightarrow> read_options (t # of_nat (length v) # v @ bs) = map_option (Cons (t, v)) (read_options bs)"
  by (simp add: unat_of_nat)

lemma read_option_4: "t \<noteq> 255 \<Longrightarrow> length v = 4 \<Longrightarrow> read_options (t # 4 # v @ bs) = map_option (Cons (t, v)) (read_options bs)"
  using read_option_step [of t v bs] by simp

lemma read_dns:
  "read_options (concat (map (\<lambda>ip. [6, 4] @ be_bytes 4 (ip :: u32)) ips) @ [255] @ bs) = Some (map (\<lambda>ip. (6, be_bytes 4 ip)) ips)"
  by (induction ips) (simp_all add: read_option_4)

lemma read_dhcp_options:
  assumes "\<forall>name. domain_name info = Some name \<longrightarrow> length name < 256"
  shows "read_options (uip_dhcp_fill_option info reply @ bs) = Some (dhcp_options info reply)"
proof -
  let ?dns = "filter (\<lambda>ip. ip \<noteq> 0) (dns_ip info)"
  have "read_options (dhcp_name_and_server info @ [255] @ bs) =
      Some ((case domain_name info of None \<Rightarrow> [] | Some name \<Rightarrow> [(15, name)]) @ map (\<lambda>ip. (6, be_bytes 4 ip)) ?dns)"
  proof (cases "domain_name info")
    case None
    then show ?thesis using read_dns [of ?dns bs] by (simp add: dhcp_name_and_server_def)
  next
    case (Some name)
    then have "length name < 256" using assms by simp
    with Some show ?thesis
      using read_option_step [of 15 name "concat (map (\<lambda>ip. [6, 4] @ be_bytes 4 ip) ?dns) @ [255] @ bs"] read_dns [of ?dns bs]
      by (simp add: dhcp_name_and_server_def del: read_options.simps)
  qed
  moreover have "read_options (17 # 7 # [48, 46, 48, 46, 48, 46, 48] @ cs) = map_option (Cons (17, [48, 46, 48, 46, 48, 46, 48])) (read_options cs)" for cs
    using read_option_step [of 17 "[48, 46, 48, 46, 48, 46, 48]" cs] by simp
  moreover have "read_options (53 # 1 # [reply] @ cs) = map_option (Cons (53, [reply])) (read_options cs)" for cs
    using read_option_step [of 53 "[reply]" cs] by simp
  ultimately show ?thesis
    by (simp add: uip_dhcp_fill_option_def dhcp_options_def read_option_4 del: read_options.simps)
qed

definition dhcp_reply :: "uip_tx_arg \<Rightarrow> uip_info \<Rightarrow> u8 \<Rightarrow> u8 list \<Rightarrow> bool" where
  "dhcp_reply arg info reply f \<longleftrightarrow> udp_carries (dhcp_socket info) (bytes_at 42 548 f) info f \<and> field 16 2 f = (576 :: u16) \<and>
     f ! 42 = 2 \<and> bytes_at 46 4 f = bytes_at 46 4 (arg_eth arg) \<and> field 58 4 f = guest_ip info \<and> field 62 4 f = host_ip info \<and>
     bytes_at 70 6 f = bytes_at 70 6 (arg_eth arg) \<and> bytes_at 278 4 f = bytes_at 278 4 (arg_eth arg) \<and>
     read_options (bytes_at 282 308 f) = Some (dhcp_options info reply)"

lemma bytes_at_sub: "off' \<le> off \<Longrightarrow> off + m \<le> off' + n \<Longrightarrow> bytes_at off' n f = bytes_at off' n g \<Longrightarrow> bytes_at off m f = bytes_at off m g"
proof -
  assume a: "off' \<le> off" "off + m \<le> off' + n" "bytes_at off' n f = bytes_at off' n g"
  have "bytes_at off m h = bytes_at (off - off') m (bytes_at off' n h)" for h :: "'a list"
    using a(1,2) by (auto simp: bytes_at_def drop_take min_def)
  with a(3) show ?thesis by metis
qed

lemma dhcp_frame_ok:
  assumes "cloned arg info fr" and "285 \<le> arg_eth_len arg" and "length (host_mac info) = 6" and "length (guest_mac info) = 6"
    and "length (uip_dhcp_fill_option info reply) \<le> 308" and "\<forall>name. domain_name info = Some name \<longrightarrow> length name < 256"
  shows "\<exists>f1 f. uip_dhcp_make_pkg info reply fr = Inr f1 \<and> length f1 = UIP_ETH_BUF \<and> udp_frame (dhcp_socket info) None 548 info f1 = Inr f \<and>
    length f = UIP_ETH_BUF \<and> dhcp_reply arg info reply f"
proof -
  let ?o = "uip_dhcp_fill_option info reply"
  let ?ps = "[(42, [2]), (54, [0, 0, 0, 0]), (58, be_bytes 4 (guest_ip info)), (62, be_bytes 4 (host_ip info)), (66, [0, 0, 0, 0]), (282, ?o)]"
  define f1 where "f1 = stored ?ps fr"
  have lf: "length fr = UIP_ETH_BUF" using assms(1) by (simp add: cloned_def)
  have b: "\<forall>(off, src) \<in> set ?ps. off + length src \<le> length fr" and ap: "apart_all ?ps" using lf assms(5) by auto
  have s1: "uip_dhcp_make_pkg info reply fr = Inr f1" and l1: "length f1 = UIP_ETH_BUF"
    using stores_ok [OF b] lf by (simp_all add: uip_dhcp_make_pkg_def f1_def)
  have g: "bytes_at off (length src) f1 = src" if "(off, src) \<in> set ?ps" for off src using stored_get [OF ap b that] by (simp add: f1_def)
  have k: "bytes_at off m f1 = bytes_at off m (arg_eth arg)" if "off + m \<le> 282" "43 \<le> off \<and> off + m \<le> 54 \<or> 70 \<le> off" for off m
  proof -
    have "bytes_at off m f1 = bytes_at off m fr" unfolding f1_def using that b by (intro bytes_at_stored_apart) auto
    also have "\<dots> = bytes_at off m (arg_eth arg)" using assms(1,2) that by (auto simp: cloned_def)
    finally show ?thesis .
  qed
  obtain f where f: "udp_frame (dhcp_socket info) None 548 info f1 = Inr f" "length f = UIP_ETH_BUF"
    "udp_carries (dhcp_socket info) (bytes_at 42 548 f1) info f" "field 16 2 f = (of_nat (swapped_sum (8 + 548)) :: u16)"
    using udp_frame_ok [OF l1 assms(3,4), of 548 None "dhcp_socket info"] by (auto simp: udp_body_def)
  have lb: "length (bytes_at 42 548 f1) = 548" using l1 by (simp add: length_bytes_at)
  then have body: "bytes_at 42 548 f = bytes_at 42 548 f1" using f(3) by (simp add: udp_carries_def)
  have sub: "bytes_at off m f = bytes_at off m f1" if "42 \<le> off" "off + m \<le> 590" for off m
    by (rule bytes_at_sub [OF that(1) _ body]) (use that(2) in simp)
  have "bytes_at 282 308 f = ?o @ bytes_at (282 + length ?o) (308 - length ?o) f1"
    using sub [of 282 308] bytes_at_add [of 282 "length ?o" "308 - length ?o" f1] g [of 282 ?o] assms(5) by simp
  then have o': "read_options (bytes_at 282 308 f) = Some (dhcp_options info reply)" using read_dhcp_options [OF assms(6)] by simp
  have "bytes_at 42 1 f = [2]" using sub [of 42 1] g [of 42 "[2]"] by simp
  then have "f ! 42 = 2" by (rule nth_bytes_at)
  moreover have "field 58 4 f = guest_ip info" "field 62 4 f = host_ip info"
    using g [of 58 "be_bytes 4 (guest_ip info)"] g [of 62 "be_bytes 4 (host_ip info)"] by (simp_all add: field_def sub)
  moreover have "field 16 2 f = (576 :: u16)" using f(4) by (simp add: swapped_sum_def)
  ultimately have "dhcp_reply arg info reply f" using f(3) body o' by (simp add: dhcp_reply_def sub k)
  with s1 l1 f show ?thesis by blast
qed

lemma dhcp_outcome:
  assumes "pool_ok info" and "0 < count_buf UIP_FREE info" and "arg_ok arg info" and "285 \<le> arg_eth_len arg"
    and "(bytes_at 282 3 (arg_eth arg), reply) \<in> {([53, 1, 1], 2), ([53, 1, 3], 5)}"
    and "length (uip_dhcp_fill_option info reply) \<le> 308" and "\<forall>name. domain_name info = Some name \<longrightarrow> length name < 256"
  shows "\<exists>info'. uip_tx_do_ipv4_udp_dhcp arg info = Some (Inr info') \<and> posts (framed (dhcp_reply arg info reply) 590 info) info info'"
proof -
  have macs: "length (host_mac info) = 6" "length (guest_mac info) = 6" using assms(1) by (simp_all add: pool_ok_def)
  obtain i b info1 where c: "uip_buf_clone arg info = Some (Inr (i, info1))" "first_buf UIP_FREE info = Some i" "pool_ok info1" "holds i info1"
    "bufs info1 ! i = b" "cloned arg info (eth b)"
    "info1 = info\<lparr>bufs := (bufs info)[i := b], buf_free_nr := buf_free_nr info - 1\<rparr>"
    using clone_ok [OF assms(1-3)] by blast
  have i: "i < length (bufs info1)" using c(4) by (simp add: holds_def)
  have bok: "buf_ok info b" using pool_ok_buf [OF c(3) i] c(5,7) by (simp add: buf_ok_def)
  obtain f1 f where f: "uip_dhcp_make_pkg info reply (eth b) = Inr f1" "length f1 = UIP_ETH_BUF" "udp_frame (dhcp_socket info) None 548 info f1 = Inr f"
    "length f = UIP_ETH_BUF" "dhcp_reply arg info reply f"
    using dhcp_frame_ok [OF c(6) assms(4) macs assms(6,7)] by blast
  have "udp_frame sk p n info1 = udp_frame sk p n info" "uip_dhcp_make_pkg info1 reply = uip_dhcp_make_pkg info reply" "dhcp_socket info1 = dhcp_socket info" for sk p n
    using c(7) by (simp_all add: udp_frame_def eth_ip_hdr_def uip_dhcp_make_pkg_def uip_dhcp_fill_option_def dhcp_name_and_server_def dhcp_socket_def fun_eq_iff)
  note cong = this
  let ?b1 = "b\<lparr>eth := f1\<rparr>" and ?info2 = "put_buf i (b\<lparr>eth := f1\<rparr>) info1"
  have e1: "edit_buf i (edit_eth (uip_dhcp_make_pkg info1 reply)) info1 = Inr ?info2"
    using f(1) c(5) by (simp add: edit_buf_def edit_eth_def cong)
  have b1ok: "buf_ok info ?b1" using bok f(2) by (simp add: buf_ok_def)
  have "buf_ok info1 ?b1" using b1ok c(7) by (simp add: buf_ok_def)
  then have p2: "pool_ok ?info2" "holds i ?info2" using pool_put [OF c(3) i, of ?b1] c(4,5) i by (auto simp: holds_def)
  have "field 16 2 f = (of_nat 576 :: u16)" using f(5) by (simp add: dhcp_reply_def)
  then obtain b' where b': "finish_frame info (udp_frame (dhcp_socket info) None 548 info) ?b1 = Inr b'" "buf_ok info b'" "status b' = status ?b1"
    "framed (\<lambda>g. g = f) (576 + 14) info b'"
    using finish_frame_ok [OF b1ok, of "udp_frame (dhcp_socket info) None 548 info" f 576] f(3,4) by auto
  have i2: "?info2 = info\<lparr>bufs := (bufs info)[i := ?b1], buf_free_nr := buf_free_nr info - 1\<rparr>" using c(7) by (simp add: put_buf_def)
  have "udp_frame sk p n ?info2 = udp_frame sk p n info1" "dhcp_socket ?info2 = dhcp_socket info1" "vnet_hdr_len ?info2 = vnet_hdr_len info" for sk p n
    using c(7) by (simp_all add: udp_frame_def eth_ip_hdr_def dhcp_socket_def fun_eq_iff)
  then have pk: "uip_udp_make_pkg ?info2 (dhcp_socket ?info2) None 548 = finish_frame info (udp_frame (dhcp_socket info) None 548 info)"
    by (simp add: uip_udp_make_pkg_def finish_frame_def cong fun_eq_iff)
  have "status b' = UIP_INUSE" using b'(3) c(4,5) by (simp add: holds_def)
  moreover have "framed (dhcp_reply arg info reply) 590 info (b'\<lparr>status := UIP_USED\<rparr>)" using b'(4) f(5) by (simp add: framed_def)
  ultimately obtain info3 where i3: "edit_buf i (finish_frame info (udp_frame (dhcp_socket info) None 548 info)) ?info2 = Inr info3"
    "posts (framed (dhcp_reply arg info reply) 590 info) info (uip_buf_set_used i info3)"
    using clone_post [OF p2 c(2) i2, of "finish_frame info (udp_frame (dhcp_socket info) None 548 info)" b' "framed (dhcp_reply arg info reply) 590 info"] b'(1,2)
    by blast
  have "285 \<le> length (arg_eth arg)" using assms(3,4) by (simp add: arg_ok_def)
  then have opt: "dhcp_option ty (arg_eth arg) = Inr (bytes_at 282 3 (arg_eth arg) = [53, 1, ty])" for ty
    by (simp add: dhcp_option_def memcpy_from_def bytes_at_def)
  have "uip_tx_do_ipv4_udp_dhcp arg info = Some (Inr (uip_buf_set_used i info3))"
    using assms(5) c(1) e1 i3(1) by (auto simp: uip_tx_do_ipv4_udp_dhcp_def opt pk)
  then show ?thesis using i3(2) by blast
qed

section \<open>Frames reach the guest\<close>

lemma uip_rx_ok:
  assumes "pool_ok info" and "first_buf UIP_USED info = Some i" and "b = bufs info ! i" and "iov_ok (length m) iov"
    and "vnet_len b + eth_len b \<le> iov_total iov" and "vnet_hdr_len info < 2 ^ 32"
  shows "\<exists>m' info'. uip_rx iov m info = Some (Inr (vnet_len b + eth_len b, m', info')) \<and> pool_ok info' \<and>
    take (vnet_len b + eth_len b) (gather m' iov) = take (vnet_len b) (vnet b) @ take (eth_len b) (eth b) \<and>
    bufs info' = (bufs info)[i := b\<lparr>status := UIP_FREE\<rparr>]"
proof -
  have "count_buf UIP_USED info \<noteq> 0" using first_buf_None_iff [of UIP_USED info] assms(2) by auto
  then obtain info1 where g: "uip_buf_get_used info = Some (Inr (Some i, info1))" "pool_ok (uip_buf_set_free i info1)"
    "bufs info1 ! i = b\<lparr>status := UIP_INUSE\<rparr>" "bufs (uip_buf_set_free i info1) = (bufs info)[i := b\<lparr>status := UIP_FREE\<rparr>]"
    using get_used_ok [OF assms(1)] assms(2,3) by auto
  have ok: "buf_ok info b" using pool_ok_buf [OF assms(1)] first_buf_SomeD [OF assms(2)] assms(3) by simp
  let ?v = "take (vnet_len b) (vnet b)" and ?e = "take (eth_len b) (eth b)"
  have l: "length ?v = vnet_len b" "length ?e = eth_len b" "eth_len b < 2 ^ 32" "vnet_len b < 2 ^ 32" using ok assms(6) by (auto simp: buf_ok_def)
  let ?m1 = "scatter iov ?v m" and ?m2 = "scatter (iov_skip (vnet_len b) iov) ?e (scatter iov ?v m)"
  have t1: "memcpy_toiovecend iov ?v 0 m = Inr ?m1"
    using memcpy_toiovecend_0 [OF assms(4), of ?v] assms(5) l by simp
  have t2: "memcpy_toiovecend iov ?e (vnet_len b) ?m1 = Inr ?m2"
    using memcpy_toiovecend_ok [of ?m1 iov "vnet_len b" ?e] assms(4,5) l by simp
  have "take (vnet_len b + eth_len b) (gather ?m2 iov) = ?v @ ?e"
    using gather_two_parts [OF assms(4), of ?v ?e] assms(5) l by simp
  moreover have "memcpy_from (vnet b) 0 (vnet_len b) = Inr ?v" "memcpy_from (eth b) 0 (eth_len b) = Inr ?e"
    using ok by (simp_all add: memcpy_from_def buf_ok_def)
  then have "uip_rx iov m info = Some (Inr (vnet_len b + eth_len b, ?m2, uip_buf_set_free i info1))"
    using g(1,3) t1 t2 by (simp add: uip_rx_def with_buf_def Let_def)
  ultimately show ?thesis using g(2,4) by blast
qed

lemma posts_then_rx:
  assumes "posts Q info info'" and "count_buf UIP_USED info = 0"
  shows "\<exists>i b. first_buf UIP_USED info' = Some i \<and> bufs info' ! i = b \<and> Q b"
proof -
  obtain i b where p: "first_buf UIP_FREE info = Some i" "status b = UIP_USED" "Q b" "bufs info' = (bufs info)[i := b]"
    using assms(1) by (auto simp: posts_def)
  have i: "i < length (bufs info)" using first_buf_SomeD [OF p(1)] by simp
  have none: "\<forall>j < length (bufs info). status (bufs info ! j) \<noteq> UIP_USED"
    using assms(2) by (auto simp: count_buf_def filter_empty_conv all_set_conv_all_nth)
  have "first_buf UIP_USED info' = Some i"
    unfolding first_buf_def find_Some_iff using i p(2,4) none by (intro exI [of _ i]) (auto simp: nth_list_update)
  then show ?thesis using p i by auto
qed

section \<open>A restart\<close>

definition same_net :: "uip_info \<Rightarrow> uip_info \<Rightarrow> bool" where
  "same_net info info' \<longleftrightarrow> bufs info' = bufs info \<and> buf_free_nr info' = buf_free_nr info \<and> buf_used_nr info' = buf_used_nr info \<and>
     host_mac info' = host_mac info \<and> guest_mac info' = guest_mac info \<and> vnet_hdr_len info' = vnet_hdr_len info \<and>
     udp_sockets info' = udp_sockets info \<and> tcp_sockets info' = tcp_sockets info"

lemma dns_word_same: "same_net info0 (snd (snd acc)) \<Longrightarrow> same_net info0 (snd (snd (dns_word f kv acc)))"
  by (auto simp: dns_word_def same_net_def split: prod.splits option.splits)

lemma get_dns_same: "same_net info (snd (uip_dhcp_get_dns f ws info))"
proof -
  have "same_net info (snd (snd acc)) \<Longrightarrow> same_net info (snd (snd (fold (dns_word f) kvs acc)))" for kvs acc
    by (induction kvs arbitrary: acc) (simp_all add: dns_word_same)
  from this [of "(0, False, info)"] show ?thesis by (simp add: uip_dhcp_get_dns_def same_net_def)
qed

lemma udp_exit_same: "same_net info (uip_udp_exit info)"
proof -
  have "same_net info info' \<Longrightarrow> same_net info (fold (\<lambda>sk. log_call (Close (us_fd sk))) sks info')" for sks info'
    by (induction sks arbitrary: info') (simp_all add: same_net_def log_call_def)
  from this [of info] show ?thesis by (simp add: uip_udp_exit_def same_net_def)
qed

lemma udp_exit_calls: "calls (uip_udp_exit info) = calls info @ map (\<lambda>sk. Close (us_fd sk)) (udp_sockets info)"
proof -
  have "calls (fold (\<lambda>sk. log_call (Close (us_fd sk))) sks info') = calls info' @ map (\<lambda>sk. Close (us_fd sk)) sks" for sks info'
    by (induction sks arbitrary: info') (simp_all add: log_call_def)
  then show ?thesis by (simp add: uip_udp_exit_def)
qed

lemma init_bufs_ok: "bufs info = [] \<Longrightarrow> buf_used_nr info = 0 \<Longrightarrow> length (host_mac info) = 6 \<Longrightarrow> length (guest_mac info) = 6 \<Longrightarrow>
    pool_ok (init_bufs n info) \<and> count_buf UIP_FREE (init_bufs n info) = n"
  by (auto simp: pool_ok_def init_bufs_def count_buf_def buf_ok_def)

lemma tcp_exit_waits: "sks \<noteq> [] \<Longrightarrow> uip_tcp_exit sks info = None"
  by (cases sks) (simp_all add: uip_tcp_socket_free_def uip_tcp_socket_close_def Let_def)

section \<open>Sample frames\<close>

definition sample_arg :: "u8 list \<Rightarrow> uip_tx_arg" where
  "sample_arg fr = \<lparr> arg_vnet = replicate 12 0, arg_eth = fr, arg_vnet_len = 12, arg_eth_len = length fr \<rparr>"

definition sample_arp :: "u8 \<Rightarrow> u8 list" where
  "sample_arp host = replicate 38 0 @ [10, 0, 0, host]"

definition sample_ping :: "u8 list" where
  "sample_ping = replicate 14 0 @ [0x45, 0, 0, 32] @ replicate 16 0 @ [8, 0, 0, 0] @ [1, 2, 3, 4, 5, 6, 7, 8]"

definition sample_discover :: "u8 list" where
  "sample_discover = replicate 282 0 @ [53, 1, 1]"

lemma sample_arg_ok: "12 \<le> length fr \<Longrightarrow> length fr \<le> UIP_ETH_BUF \<Longrightarrow> arg_ok (sample_arg fr) sample_net"
  by (simp add: arg_ok_def sample_arg_def sample_net_def)

lemma sample_net_host [simp]: "host_ip sample_net = 0x0a000001" "vnet_hdr_len sample_net = 12" "domain_name sample_net = None"
  "count_buf UIP_USED sample_net = 0" "count_buf UIP_FREE sample_net = Suc 0"
  by (simp_all add: sample_net_def count_buf_def sample_buf_def)

section \<open>Properties\<close>

text \<open>
  An ARP request of the guest for the address of the host is answered with the host's MAC
  address, in a frame back to the sender. A request for any other address is not answered, and
  the buffer that was taken for the answer is never given back: after as many such requests as
  there are free buffers, the thread that handles the guest's frames waits for ever.
\<close>

theorem uip_arp_reply_or_leak:
  assumes "pool_ok info" and "arg_ok arg info" and "42 \<le> arg_eth_len arg"
  shows "(0 < count_buf UIP_FREE info \<and> field 38 4 (arg_eth arg) = host_ip info \<longrightarrow>
      (\<exists>info'. uip_tx_do_arp arg info = Some (Inr info') \<and> posts (\<lambda>b. arp_reply arg info (eth b) \<and> eth_len b = arg_eth_len arg) info info')) \<and>
    (field 38 4 (arg_eth arg) \<noteq> host_ip info \<longrightarrow> arps (Suc (count_buf UIP_FREE info)) arg info = None)"
  using arp_outcome(1) [OF assms(1) _ assms(2,3)] arps_wait [OF _ assms] by blast

theorem uip_arp_reply_or_leak_witness:
  "(\<exists>info'. uip_tx_do_arp (sample_arg (sample_arp 1)) sample_net = Some (Inr info') \<and>
      posts (\<lambda>b. arp_reply (sample_arg (sample_arp 1)) sample_net (eth b) \<and> eth_len b = 42) sample_net info') \<and>
   arps 2 (sample_arg (sample_arp 9)) sample_net = None"
proof -
  have f: "field 38 4 (sample_arp 1) = (0x0a000001 :: u32)" "field 38 4 (sample_arp 9) \<noteq> (0x0a000001 :: u32)" by code_simp+
  have l: "length (sample_arp h) = 42" for h by (simp add: sample_arp_def)
  have ok: "arg_ok (sample_arg (sample_arp h)) sample_net" for h by (rule sample_arg_ok) (simp_all add: l)
  have a: "arg_eth (sample_arg fr) = fr" "arg_eth_len (sample_arg fr) = length fr" for fr by (simp_all add: sample_arg_def)
  show ?thesis
    using uip_arp_reply_or_leak [OF sample_net_ok(1) ok [of 1]] uip_arp_reply_or_leak [OF sample_net_ok(1) ok [of 9]] f
    by (simp add: a l numeral_2_eq_2 del: arps.simps)
qed

text \<open>
  An ICMP echo request is answered by a packet with the same identifier, sequence number and
  data, exchanged addresses and a right header checksum; but the checksum of the ICMP message leaves out its
  last 8 bytes, so that the guest accepts the reply only when these bytes add up to 0.
\<close>

theorem uip_icmp_checksum_incomplete:
  assumes "pool_ok info" and "0 < count_buf UIP_FREE info" and "arg_ok arg info" and "14 + n \<le> arg_eth_len arg" and "arg_eth arg ! 14 = 0x45"
    and "field 16 2 (arg_eth arg) = (of_nat n :: u16)" and "32 \<le> n" and "even n"
  shows "\<exists>info'. uip_tx_do_ipv4_icmp arg info = Some (Inr info') \<and>
    posts (\<lambda>b. icmp_reply arg info n (eth b) \<and> eth_len b = arg_eth_len arg \<and>
      (csum_right (bytes_at 34 (n - 20) (eth b)) \<longleftrightarrow> csum_right (bytes_at (6 + n) 8 (arg_eth arg)))) info info'"
proof -
  have "14 + n \<le> UIP_ETH_BUF" using assms(3,4) by (simp add: arg_ok_def)
  then have "icmp_reply arg info n (eth b) \<and> length (eth b) = UIP_ETH_BUF \<and> eth_len b = arg_eth_len arg \<Longrightarrow>
      icmp_reply arg info n (eth b) \<and> eth_len b = arg_eth_len arg \<and>
      (csum_right (bytes_at 34 (n - 20) (eth b)) \<longleftrightarrow> csum_right (bytes_at (6 + n) 8 (arg_eth arg)))" for b
    using icmp_reply_right_iff [of arg info n "eth b"] assms(7,8) by blast
  then show ?thesis using icmp_outcome [OF assms] unfolding posts_def by blast
qed

theorem uip_icmp_checksum_incomplete_witness:
  "\<exists>info'. uip_tx_do_ipv4_icmp (sample_arg sample_ping) sample_net = Some (Inr info') \<and>
    posts (\<lambda>b. icmp_reply (sample_arg sample_ping) sample_net 32 (eth b) \<and> eth_len b = 46 \<and> \<not> csum_right (bytes_at 34 12 (eth b))) sample_net info'"
proof -
  have f: "sample_ping ! 14 = 0x45" "field 16 2 sample_ping = (of_nat 32 :: u16)" "bytes_at 38 8 sample_ping = [1, 2, 3, 4, 5, 6, 7, 8]" "length sample_ping = 46"
    by code_simp+
  have c: "\<not> csum_right (bytes_at 38 8 sample_ping)" by (simp add: f(3) csum_right_def)
  have ok: "arg_ok (sample_arg sample_ping) sample_net" by (rule sample_arg_ok) (simp_all add: f(4))
  have a: "arg_eth (sample_arg fr) = fr" "arg_eth_len (sample_arg fr) = length fr" for fr by (simp_all add: sample_arg_def)
  show ?thesis using uip_icmp_checksum_incomplete [OF sample_net_ok(1) _ ok, of 32] f(1,2,4) c by (simp add: a)
qed





text \<open>
  C29. When the guest resets the device while no TCP connection is known, all UDP sockets are closed and the stack starts
  again with a full pool of free buffers; with any connection on the list \<^verbatim>\<open>uip_tcp_exit\<close> takes the lock of the
  list twice and never returns.
\<close>

theorem uip_restart_or_deadlock:
  assumes "length (host_mac info) = 6" and "length (guest_mac info) = 6"
  shows "(tcp_sockets info = [] \<longrightarrow> (\<exists>info'. uip_exit info = Some (Inr info') \<and>
      calls info' = calls info @ map (\<lambda>sk. Close (us_fd sk)) (udp_sockets info) \<and> udp_sockets info' = [] \<and> \<not> udp_thread info' \<and>
      pool_ok (uip_init inet_aton ws n info') \<and> count_buf UIP_FREE (uip_init inet_aton ws n info') = n)) \<and>
    (tcp_sockets info \<noteq> [] \<longrightarrow> uip_exit info = None)"
proof (intro conjI impI)
  assume none: "tcp_sockets info = []"
  define info' where "info' = uip_static_init ((uip_dhcp_exit (uip_udp_exit info))\<lparr>bufs := []\<rparr>)"
  note same = udp_exit_same [of info, unfolded same_net_def]
  have run: "uip_exit info = Some (Inr info')" using same none by (simp add: uip_exit_def Let_def info'_def)
  have "bufs info' = []" "buf_used_nr info' = 0" "length (host_mac info') = 6" "length (guest_mac info') = 6"
    using same assms by (simp_all add: info'_def uip_static_init_def uip_dhcp_exit_def)
  from init_bufs_ok [OF this, of n] get_dns_same [of "init_bufs n info'" inet_aton ws]
  have "pool_ok (uip_init inet_aton ws n info') \<and> count_buf UIP_FREE (uip_init inet_aton ws n info') = n"
    by (simp add: same_net_def pool_ok_def count_buf_def buf_ok_def uip_init_def)
  then show "\<exists>info'. uip_exit info = Some (Inr info') \<and>
      calls info' = calls info @ map (\<lambda>sk. Close (us_fd sk)) (udp_sockets info) \<and> udp_sockets info' = [] \<and> \<not> udp_thread info' \<and>
      pool_ok (uip_init inet_aton ws n info') \<and> count_buf UIP_FREE (uip_init inet_aton ws n info') = n"
    using run udp_exit_calls [of info] by (simp add: info'_def uip_static_init_def uip_dhcp_exit_def uip_udp_exit_def)
next
  assume "tcp_sockets info \<noteq> []"
  then show "uip_exit info = None"
    using udp_exit_same [of info] by (simp add: uip_exit_def Let_def same_net_def tcp_exit_waits)
qed

theorem uip_restart_or_deadlock_witness:
  "uip_exit sample_net = None \<and>
   (\<exists>info'. uip_exit (sample_net\<lparr>tcp_sockets := []\<rparr>) = Some (Inr info') \<and>
      count_buf UIP_FREE (uip_init (\<lambda>_. Some 0x08080808) [''nameserver'', ''8.8.8.8''] 16 info') = 16)"
  using uip_restart_or_deadlock [of sample_net]
    uip_restart_or_deadlock [of "sample_net\<lparr>tcp_sockets := []\<rparr>" "\<lambda>_. Some 0x08080808" "[''nameserver'', ''8.8.8.8'']" 16]
  by (auto simp: sample_net_def)

end
