(* ===== verification/Membank.thy ===== *)
theory Membank
  imports Prelude
begin

text \<open>
  The memory of the guest: the banks of \<^verbatim>\<open>init/kvm.c\<close>, their registration with the kernel, the translation
  of guest addresses to addresses of the hypervisor and back, the layout of RAM on x86
  (\<^verbatim>\<open>arch/x86_64/kvm.c\<close>) and the table that \<^verbatim>\<open>virtio/vhost.c\<close> hands to the kernel. Host pointers are 64-bit numbers.

  The table of memory slots in the kernel is part of the state; \<open>accept\<close> says whether the \<^verbatim>\<open>ioctl\<close> that sets a
  slot succeeds, and it changes the table exactly then.
\<close>

section \<open>State\<close>

abbreviation KVM_MEM_TYPE_RAM :: u32 where "KVM_MEM_TYPE_RAM \<equiv> 1"
abbreviation KVM_MEM_TYPE_DEVICE :: u32 where "KVM_MEM_TYPE_DEVICE \<equiv> 2"
abbreviation KVM_MEM_TYPE_RESERVED :: u32 where "KVM_MEM_TYPE_RESERVED \<equiv> 4"
abbreviation KVM_MEM_TYPE_READONLY :: u32 where "KVM_MEM_TYPE_READONLY \<equiv> 8"
abbreviation KVM_MEM_TYPE_ALL :: u32 where "KVM_MEM_TYPE_ALL \<equiv> 15"

record kvm_mem_bank =
  mb_gpa :: u64
  mb_host :: u64
  mb_size :: u64
  mb_type :: u32
  mb_slot :: u32

record mem_region =
  rg_readonly :: bool
  rg_gpa :: u64
  rg_size :: u64
  rg_host :: u64

record kvm_mem =
  mem_banks :: "kvm_mem_bank list"
  mem_slots :: u32
  kernel_slots :: "u32 \<rightharpoonup> mem_region"

section \<open>Registration\<close>

text \<open>
  The loop over the banks: \<open>seen\<close> are the banks it has passed, \<open>prev\<close> the number of those up to
  \<^verbatim>\<open>prev_entry\<close> (which is used only when no bank was merged), \<open>merged\<close> the position of the merged bank among them. \<open>Inl\<close> is
  the exit with an error, with the banks as they are then.
\<close>

fun register_loop ::
  "u32 \<Rightarrow> u64 \<Rightarrow> u64 \<Rightarrow> u32 \<Rightarrow> nat \<Rightarrow> nat option \<Rightarrow> kvm_mem_bank list \<Rightarrow> kvm_mem_bank list \<Rightarrow>
   kvm_mem_bank list + (u32 \<times> nat \<times> nat option \<times> kvm_mem_bank list)" where
  "register_loop ty gp sz slot prev merged seen [] = Inr (slot, prev, merged, seen)"
| "register_loop ty gp sz slot prev merged seen (b # bs) =
     (let bank_end = mb_gpa b + mb_size b - 1; e = gp + sz - 1 in
      if bank_end < gp \<or> e < mb_gpa b then
        (if mb_slot b = slot then register_loop ty gp sz (slot + 1) (Suc (length seen)) merged (seen @ [b]) bs
         else register_loop ty gp sz slot prev merged (seen @ [b]) bs)
      else if mb_type b = KVM_MEM_TYPE_RESERVED \<and> ty = KVM_MEM_TYPE_RESERVED then
        (let gp' = min (mb_gpa b) gp;
             sz' = max bank_end e - gp' + 1;
             seen' = (case merged of None \<Rightarrow> seen | Some m \<Rightarrow> take m seen @ drop (Suc m) seen)
         in register_loop ty gp' sz' slot prev (Some (length seen')) (seen' @ [b\<lparr>mb_gpa := gp', mb_size := sz'\<rparr>]) bs)
      else Inl (seen @ b # bs))"

definition kvm_register_mem :: "bool \<Rightarrow> u64 \<Rightarrow> u64 \<Rightarrow> u64 \<Rightarrow> u32 \<Rightarrow> kvm_mem \<Rightarrow> bool \<times> kvm_mem" where
  "kvm_register_mem accept gp sz host ty kvm =
     (case register_loop ty gp sz 0 0 None [] (mem_banks kvm) of
        Inl banks \<Rightarrow> (False, kvm\<lparr>mem_banks := banks\<rparr>)
      | Inr (slot, prev, merged, banks) \<Rightarrow>
          if merged \<noteq> None then (True, kvm\<lparr>mem_banks := banks\<rparr>)
          else
            let bank = \<lparr> mb_gpa = gp, mb_host = host, mb_size = sz, mb_type = ty, mb_slot = slot \<rparr>;
                region = \<lparr> rg_readonly = flag ty KVM_MEM_TYPE_READONLY, rg_gpa = gp, rg_size = sz, rg_host = host \<rparr>;
                kvm' = kvm\<lparr>mem_banks := take prev banks @ bank # drop prev banks, mem_slots := mem_slots kvm + 1\<rparr>
            in if ty = KVM_MEM_TYPE_RESERVED then (True, kvm')
               else if accept then (True, kvm'\<lparr>kernel_slots := (kernel_slots kvm)(slot \<mapsto> region)\<rparr>)
               else (False, kvm))"

definition kvm_destroy_mem :: "bool \<Rightarrow> u64 \<Rightarrow> u64 \<Rightarrow> u64 \<Rightarrow> kvm_mem \<Rightarrow> bool \<times> kvm_mem" where
  "kvm_destroy_mem accept gp sz host kvm =
     (case List.extract (\<lambda>b. mb_gpa b = gp \<and> mb_size b = sz \<and> mb_host b = host) (mem_banks kvm) of
        None \<Rightarrow> (False, kvm)
      | Some (before, bank, after) \<Rightarrow>
          if mb_type bank = KVM_MEM_TYPE_RESERVED then (False, kvm)
          else if accept
          then (True, kvm\<lparr>mem_banks := before @ after, mem_slots := mem_slots kvm - 1,
                 kernel_slots := (kernel_slots kvm)(mb_slot bank := None)\<rparr>)
          else (False, kvm))"

definition kvm_register_ram :: "bool \<Rightarrow> u64 \<Rightarrow> u64 \<Rightarrow> u64 \<Rightarrow> kvm_mem \<Rightarrow> bool \<times> kvm_mem" where
  "kvm_register_ram accept gp sz host = kvm_register_mem accept gp sz host KVM_MEM_TYPE_RAM"

definition kvm_register_dev_mem :: "bool \<Rightarrow> u64 \<Rightarrow> u64 \<Rightarrow> u64 \<Rightarrow> kvm_mem \<Rightarrow> bool \<times> kvm_mem" where
  "kvm_register_dev_mem accept gp sz host = kvm_register_mem accept gp sz host KVM_MEM_TYPE_DEVICE"

definition kvm_reserve_mem :: "u64 \<Rightarrow> u64 \<Rightarrow> kvm_mem \<Rightarrow> bool \<times> kvm_mem" where
  "kvm_reserve_mem gp sz = kvm_register_mem True gp sz 0 KVM_MEM_TYPE_RESERVED"

section \<open>Translation\<close>

text \<open>\<open>None\<close> is the null pointer.\<close>

definition guest_flat_to_host :: "kvm_mem \<Rightarrow> u64 \<Rightarrow> u64 option" where
  "guest_flat_to_host kvm offset =
     map_option (\<lambda>b. mb_host b + (offset - mb_gpa b))
       (find (\<lambda>b. mb_gpa b \<le> offset \<and> offset < mb_gpa b + mb_size b) (mem_banks kvm))"

definition host_to_guest_flat :: "kvm_mem \<Rightarrow> u64 \<Rightarrow> u64" where
  "host_to_guest_flat kvm p =
     (case find (\<lambda>b. mb_host b \<le> p \<and> p < mb_host b + mb_size b) (mem_banks kvm) of
        None \<Rightarrow> 0
      | Some b \<Rightarrow> mb_gpa b + (p - mb_host b))"

text \<open>\<open>f\<close> is the callback; without a bank of the type the value that is returned was never set.\<close>

fun each_bank :: "u32 \<Rightarrow> (kvm_mem_bank \<Rightarrow> 's \<Rightarrow> int \<times> 's) \<Rightarrow> kvm_mem_bank list \<Rightarrow> int option \<Rightarrow> 's \<Rightarrow> int option \<times> 's" where
  "each_bank ty f [] ret s = (ret, s)"
| "each_bank ty f (b # bs) ret s =
     (if ty \<noteq> KVM_MEM_TYPE_ALL \<and> \<not> flag (mb_type b) ty then each_bank ty f bs ret s
      else case f b s of (r, s') \<Rightarrow> if r \<noteq> 0 then (Some r, s') else each_bank ty f bs (Some r) s')"

definition kvm_for_each_mem_bank :: "u32 \<Rightarrow> (kvm_mem_bank \<Rightarrow> 's \<Rightarrow> int \<times> 's) \<Rightarrow> kvm_mem \<Rightarrow> 's \<Rightarrow> (int \<times> 's) result" where
  "kvm_for_each_mem_bank ty f kvm s =
     (case each_bank ty f (mem_banks kvm) None s of (None, s') \<Rightarrow> Inl UninitRead | (Some r, s') \<Rightarrow> Inr (r, s'))"

section \<open>RAM of an x86 machine\<close>

abbreviation KVM_32BIT_MAX_MEM_SIZE :: u64 where "KVM_32BIT_MAX_MEM_SIZE \<equiv> 0x100000000"
abbreviation KVM_32BIT_GAP_SIZE :: u64 where "KVM_32BIT_GAP_SIZE \<equiv> 0x30000000"
abbreviation KVM_32BIT_GAP_START :: u64 where "KVM_32BIT_GAP_START \<equiv> 0xd0000000"

text \<open>The size of the mapping that \<^verbatim>\<open>kvm_arch_init\<close> makes for the RAM of the configuration.\<close>

definition x86_ram_size :: "u64 \<Rightarrow> u64" where
  "x86_ram_size cfg = (if cfg < KVM_32BIT_GAP_START then cfg else cfg + KVM_32BIT_GAP_SIZE)"

definition kvm_init_ram :: "bool \<Rightarrow> u64 \<Rightarrow> u64 \<Rightarrow> kvm_mem \<Rightarrow> kvm_mem" where
  "kvm_init_ram accept ram_start ram_size kvm =
     (if ram_size < KVM_32BIT_GAP_START then snd (kvm_register_ram accept 0 ram_size ram_start kvm)
      else snd (kvm_register_ram accept KVM_32BIT_MAX_MEM_SIZE (ram_size - KVM_32BIT_MAX_MEM_SIZE) (ram_start + KVM_32BIT_MAX_MEM_SIZE)
             (snd (kvm_register_ram accept 0 KVM_32BIT_GAP_START ram_start kvm))))"

section \<open>The memory table of vhost\<close>

text \<open>The table is allocated with \<^verbatim>\<open>mem_slots\<close> entries.\<close>

fun vhost_regions :: "nat \<Rightarrow> kvm_mem_bank list \<Rightarrow> mem_region list \<Rightarrow> mem_region list result" where
  "vhost_regions n [] acc = Inr acc"
| "vhost_regions n (b # bs) acc =
     (if length acc < n
      then vhost_regions n bs (acc @ [\<lparr> rg_readonly = False, rg_gpa = mb_gpa b, rg_size = mb_size b, rg_host = mb_host b \<rparr>])
      else Inl OutOfBounds)"

definition virtio_vhost_mem_table :: "kvm_mem \<Rightarrow> mem_region list result" where
  "virtio_vhost_mem_table kvm = vhost_regions (unat (mem_slots kvm)) (mem_banks kvm) []"

section \<open>Required extensions of the kernel\<close>

text \<open>\<^verbatim>\<open>kvm_check_extensions\<close> returns the negated position of the first extension that is missing.\<close>

fun check_extensions :: "(nat \<Rightarrow> int) \<Rightarrow> nat \<Rightarrow> nat list \<Rightarrow> int" where
  "check_extensions ioctl i [] = 0"
| "check_extensions ioctl i (code # cs) = (if ioctl code \<le> 0 then - int i else check_extensions ioctl (Suc i) cs)"

definition kvm_check_extensions :: "(nat \<Rightarrow> int) \<Rightarrow> nat list \<Rightarrow> int" where
  "kvm_check_extensions ioctl codes = check_extensions ioctl 0 codes"

section \<open>Banks as ranges\<close>

definition span :: "u64 \<Rightarrow> u64 \<Rightarrow> nat set" where
  "span gp sz = {unat gp ..< unat gp + unat sz}"

text \<open>A region that is not empty and ends below the last address.\<close>

definition span_ok :: "u64 \<Rightarrow> u64 \<Rightarrow> bool" where
  "span_ok gp sz \<longleftrightarrow> 0 < sz \<and> unat gp + unat sz < 2 ^ 64"

abbreviation mb_span :: "kvm_mem_bank \<Rightarrow> nat set" where
  "mb_span b \<equiv> span (mb_gpa b) (mb_size b)"

abbreviation reserved :: "kvm_mem_bank \<Rightarrow> bool" where
  "reserved b \<equiv> mb_type b = KVM_MEM_TYPE_RESERVED"

definition bank_region :: "kvm_mem_bank \<Rightarrow> mem_region" where
  "bank_region b = \<lparr> rg_readonly = flag (mb_type b) KVM_MEM_TYPE_READONLY, rg_gpa = mb_gpa b, rg_size = mb_size b, rg_host = mb_host b \<rparr>"

definition kernel_view :: "kvm_mem_bank list \<Rightarrow> u32 \<rightharpoonup> mem_region" where
  "kernel_view bs = map_of (map (\<lambda>b. (mb_slot b, bank_region b)) (filter (\<lambda>b. \<not> reserved b) bs))"

definition banks_ok :: "kvm_mem_bank list \<Rightarrow> bool" where
  "banks_ok bs \<longleftrightarrow> (\<forall>b \<in> set bs. span_ok (mb_gpa b) (mb_size b)) \<and> sorted_wrt (\<lambda>a b. mb_slot a < mb_slot b) bs \<and>
     sorted_wrt (\<lambda>a b. mb_span a \<inter> mb_span b = {}) bs"

definition mem_ok :: "kvm_mem \<Rightarrow> bool" where
  "mem_ok kvm \<longleftrightarrow> banks_ok (mem_banks kvm) \<and> kernel_slots kvm = kernel_view (mem_banks kvm) \<and> length (mem_banks kvm) \<le> unat (mem_slots kvm)"

lemma span_end:
  assumes "span_ok gp sz"
  shows "unat (gp + sz - 1) = unat gp + unat sz - 1" and "unat (gp + sz) = unat gp + unat sz"
proof -
  have p: "0 < unat sz" "unat gp + unat sz < 2 ^ 64" using assms by (simp_all add: span_ok_def word_less_nat_alt)
  then show "unat (gp + sz) = unat gp + unat sz" by (simp add: unat_word_ariths)
  moreover from this p have "gp + sz \<noteq> 0" by (metis add_is_0 less_numeral_extra(3) unat_0)
  ultimately show "unat (gp + sz - 1) = unat gp + unat sz - 1" by (simp add: unat_minus_one)
qed

lemma span_apart_iff:
  assumes "span_ok gp sz" and "span_ok gp' sz'"
  shows "gp + sz - 1 < gp' \<or> gp' + sz' - 1 < gp \<longleftrightarrow> span gp sz \<inter> span gp' sz' = {}"
proof -
  have p: "0 < unat sz" "0 < unat sz'" using assms by (simp_all add: span_ok_def word_less_nat_alt)
  have "span gp sz \<inter> span gp' sz' = {} \<longleftrightarrow> unat gp + unat sz \<le> unat gp' \<or> unat gp' + unat sz' \<le> unat gp"
    using p by (auto simp: span_def)
  then show ?thesis using p by (simp only: word_less_nat_alt span_end assms) linarith
qed

lemma span_join:
  assumes "span_ok gp sz" and "span_ok gp' sz'" and "span gp sz \<inter> span gp' sz' \<noteq> {}"
    and "gp'' = min gp gp'" and "sz'' = max (gp + sz - 1) (gp' + sz' - 1) - gp'' + 1"
  shows "span_ok gp'' sz''" and "span gp'' sz'' = span gp sz \<union> span gp' sz'"
proof -
  let ?e = "max (gp + sz - 1) (gp' + sz' - 1)"
  have p: "0 < unat sz" "0 < unat sz'" "unat gp + unat sz < 2 ^ 64" "unat gp' + unat sz' < 2 ^ 64"
    using assms(1,2) by (simp_all add: span_ok_def word_less_nat_alt)
  have e: "unat ?e = max (unat gp + unat sz - 1) (unat gp' + unat sz' - 1)"
    by (simp add: max_def word_le_nat_alt span_end assms(1,2))
  have g: "unat gp'' = min (unat gp) (unat gp')" by (simp add: assms(4) min_def word_le_nat_alt)
  have le: "gp'' \<le> ?e" using p by (simp only: word_le_nat_alt e g)
  have d: "unat (?e - gp'') = unat ?e - unat gp''" using le by (simp add: unat_sub)
  have ne: "unat gp < unat gp' + unat sz'" "unat gp' < unat gp + unat sz" using assms(3) by (auto simp: span_def)
  have "unat ?e - unat gp'' + 1 < 2 ^ 64" using e p by linarith
  then have s: "unat sz'' = unat ?e - unat gp'' + 1" using d by (simp add: assms(5) unat_word_ariths)
  have sum: "unat gp'' + unat sz'' = unat ?e + 1" using s le by (simp add: word_le_nat_alt)
  moreover have "unat ?e + 1 < 2 ^ 64" using e p by linarith
  ultimately show "span_ok gp'' sz''" unfolding span_ok_def using s by (simp add: word_less_nat_alt)
  show "span gp'' sz'' = span gp sz \<union> span gp' sz'"
    unfolding span_def sum using e g ne p by (auto simp: min_def max_def split: if_splits)
qed

section \<open>The loop of the registration\<close>

fun free_slot :: "u32 \<Rightarrow> nat \<Rightarrow> nat \<Rightarrow> kvm_mem_bank list \<Rightarrow> u32 \<times> nat" where
  "free_slot slot prev n [] = (slot, prev)"
| "free_slot slot prev n (b # bs) =
     (if mb_slot b = slot then free_slot (slot + 1) (Suc n) (Suc n) bs else free_slot slot prev (Suc n) bs)"

lemma loop_free:
  assumes "span_ok gp sz" and "\<forall>b \<in> set bs. span_ok (mb_gpa b) (mb_size b) \<and> mb_span b \<inter> span gp sz = {}"
  shows "register_loop ty gp sz slot prev merged seen bs =
    (case free_slot slot prev (length seen) bs of (s, p) \<Rightarrow> Inr (s, p, merged, seen @ bs))"
  using assms(2)
proof (induction bs arbitrary: slot prev seen)
  case (Cons b bs)
  then have "mb_gpa b + mb_size b - 1 < gp \<or> gp + sz - 1 < mb_gpa b"
    using span_apart_iff [of "mb_gpa b" "mb_size b" gp sz] assms(1) by auto
  then show ?case
    using Cons.prems Cons.IH [of "slot + 1" "Suc (length seen)" "seen @ [b]"] Cons.IH [of slot prev "seen @ [b]"]
    by (simp add: Let_def)
qed simp

lemma free_slot_above: "\<forall>b \<in> set bs. slot < mb_slot b \<Longrightarrow> free_slot slot prev n bs = (slot, prev)"
  by (induction bs arbitrary: n) auto

lemma free_slot_split:
  assumes "sorted_wrt (\<lambda>a b. mb_slot a < mb_slot b) bs" and "\<forall>b \<in> set bs. slot \<le> mb_slot b" and "unat slot + length bs < 2 ^ 32"
  shows "\<exists>s k. free_slot slot n n bs = (s, n + k) \<and> k \<le> length bs \<and>
    (\<forall>b \<in> set (take k bs). mb_slot b < s) \<and> (\<forall>b \<in> set (drop k bs). s < mb_slot b) \<and> slot \<le> s"
  using assms
proof (induction bs arbitrary: slot n)
  case Nil
  then show ?case by simp
next
  case (Cons b bs)
  show ?case
  proof (cases "mb_slot b = slot")
    case False
    then have "slot < mb_slot b" using Cons.prems(2) by (simp add: order_less_le)
    then have "\<forall>c \<in> set (b # bs). slot < mb_slot c" using Cons.prems(1) by auto
    from this free_slot_above [OF this] show ?thesis by (intro exI [of _ slot] exI [of _ 0]) simp
  next
    case True
    have nw: "unat (slot + 1) = unat slot + 1" using Cons.prems(3) by (simp add: unat_word_ariths)
    have "\<forall>c \<in> set bs. slot < mb_slot c" using Cons.prems(1) True by auto
    then have "\<forall>c \<in> set bs. slot + 1 \<le> mb_slot c" by (simp add: word_le_nat_alt word_less_nat_alt nw Suc_le_eq)
    moreover have "unat (slot + 1) + length bs < 2 ^ 32" using Cons.prems(3) nw by simp
    ultimately obtain s k where *: "free_slot (slot + 1) (Suc n) (Suc n) bs = (s, Suc n + k)" "k \<le> length bs"
      "\<forall>b \<in> set (take k bs). mb_slot b < s" "\<forall>b \<in> set (drop k bs). s < mb_slot b" "slot + 1 \<le> s"
      using Cons.IH [of "slot + 1" "Suc n"] Cons.prems(1) by auto
    have "slot < s" using *(5) by (simp add: word_le_nat_alt word_less_nat_alt nw)
    with * True show ?thesis by (intro exI [of _ s] exI [of _ "Suc k"]) auto
  qed
qed

text \<open>What holds of the banks while reserved regions are merged.\<close>

definition merging :: "u64 \<Rightarrow> u64 \<Rightarrow> nat option \<Rightarrow> kvm_mem_bank list \<Rightarrow> kvm_mem_bank list \<Rightarrow> bool" where
  "merging gp sz merged seen bs \<longleftrightarrow> span_ok gp sz \<and> (\<forall>b \<in> set (seen @ bs). span_ok (mb_gpa b) (mb_size b)) \<and>
     sorted_wrt (\<lambda>a b. mb_slot a < mb_slot b) (seen @ bs) \<and>
     (case merged of
        None \<Rightarrow> (\<forall>b \<in> set seen. mb_span b \<inter> span gp sz = {}) \<and> sorted_wrt (\<lambda>a b. mb_span a \<inter> mb_span b = {}) (seen @ bs)
      | Some m \<Rightarrow> \<exists>xs b ys. seen = xs @ b # ys \<and> m = length xs \<and> reserved b \<and> mb_gpa b = gp \<and> mb_size b = sz \<and>
          (\<forall>c \<in> set (xs @ ys). mb_span c \<inter> span gp sz = {}) \<and> sorted_wrt (\<lambda>a b. mb_span a \<inter> mb_span b = {}) (xs @ ys @ bs))"

definition res_set :: "kvm_mem_bank list \<Rightarrow> nat set" where
  "res_set bs = (\<Union>b \<in> set (filter reserved bs). mb_span b)"

lemma merging_SomeI:
  assumes "seen = xs @ b # ys" and "m = length xs" and "span_ok gp sz" and "\<forall>b \<in> set (seen @ bs). span_ok (mb_gpa b) (mb_size b)"
    and "sorted_wrt (\<lambda>a b. mb_slot a < mb_slot b) (seen @ bs)" and "reserved b" and "mb_gpa b = gp" and "mb_size b = sz"
    and "\<forall>c \<in> set (xs @ ys). mb_span c \<inter> span gp sz = {}" and "sorted_wrt (\<lambda>a b. mb_span a \<inter> mb_span b = {}) (xs @ ys @ bs)"
  shows "merging gp sz (Some m) seen bs"
  unfolding merging_def option.case using assms by blast

lemma merging_pass:
  assumes "merging gp sz merged seen (b # bs)" and "mb_span b \<inter> span gp sz = {}"
  shows "merging gp sz merged (seen @ [b]) bs"
proof (cases merged)
  case (Some m)
  then obtain xs c ys where "seen = xs @ c # ys" "m = length xs" "reserved c" "mb_gpa c = gp" "mb_size c = sz"
    "\<forall>d \<in> set (xs @ ys). mb_span d \<inter> span gp sz = {}" "sorted_wrt (\<lambda>a b. mb_span a \<inter> mb_span b = {}) (xs @ ys @ b # bs)"
    using assms(1) by (auto simp: merging_def)
  then show ?thesis
    unfolding Some using assms by (intro merging_SomeI [of _ xs c "ys @ [b]"]) (auto simp: merging_def)
qed (use assms in \<open>auto simp: merging_def\<close>)

lemma merging_join:
  assumes "merging gp sz merged seen (b # bs)" and "mb_span b \<inter> span gp sz \<noteq> {}" and "reserved b"
    and "gp' = min (mb_gpa b) gp" and "sz' = max (mb_gpa b + mb_size b - 1) (gp + sz - 1) - gp' + 1"
    and "seen' = (case merged of None \<Rightarrow> seen | Some m \<Rightarrow> take m seen @ drop (Suc m) seen)"
  shows "merging gp' sz' (Some (length seen')) (seen' @ [b\<lparr>mb_gpa := gp', mb_size := sz'\<rparr>]) bs"
    and "filter (\<lambda>b. \<not> reserved b) (seen' @ [b\<lparr>mb_gpa := gp', mb_size := sz'\<rparr>] @ bs) = filter (\<lambda>b. \<not> reserved b) (seen @ b # bs)"
    and "length seen' \<le> length seen" and "span gp' sz' = mb_span b \<union> span gp sz"
    and "res_set (seen' @ [b\<lparr>mb_gpa := gp', mb_size := sz'\<rparr>] @ bs) = res_set (seen @ b # bs) \<union> span gp sz"
proof -
  have wf: "span_ok gp sz" "span_ok (mb_gpa b) (mb_size b)" using assms(1) by (auto simp: merging_def)
  note join = span_join [OF wf(2,1) assms(2,4,5)]
  have "span_ok gp' sz' \<and> (\<forall>c \<in> set (seen' @ bs). span_ok (mb_gpa c) (mb_size c)) \<and>
      sorted_wrt (\<lambda>a b. mb_slot a < mb_slot b) (seen' @ b # bs) \<and> (\<forall>c \<in> set seen'. mb_span c \<inter> span gp' sz' = {}) \<and>
      sorted_wrt (\<lambda>a b. mb_span a \<inter> mb_span b = {}) (seen' @ bs) \<and> length seen' \<le> length seen \<and>
      filter (\<lambda>b. \<not> reserved b) seen' = filter (\<lambda>b. \<not> reserved b) seen \<and> res_set seen' \<union> span gp sz = res_set seen \<union> span gp sz"
  proof (cases merged)
    case None
    then show ?thesis using assms(1,6) join unfolding merging_def by (auto simp: sorted_wrt_append res_set_def)
  next
    case (Some m)
    then obtain xs c ys where c: "seen = xs @ c # ys" "m = length xs" "reserved c" "mb_gpa c = gp" "mb_size c = sz"
      "\<forall>d \<in> set (xs @ ys). mb_span d \<inter> span gp sz = {}" "sorted_wrt (\<lambda>a b. mb_span a \<inter> mb_span b = {}) (xs @ ys @ b # bs)"
      using assms(1) by (auto simp: merging_def)
    then have "seen' = xs @ ys" using Some assms(6) by simp
    then show ?thesis using assms(1) c join unfolding merging_def by (auto simp: sorted_wrt_append res_set_def)
  qed
  note seen' = this
  show "merging gp' sz' (Some (length seen')) (seen' @ [b\<lparr>mb_gpa := gp', mb_size := sz'\<rparr>]) bs"
    using seen' assms(3) join(1) by (intro merging_SomeI [of _ seen' "b\<lparr>mb_gpa := gp', mb_size := sz'\<rparr>" "[]"]) (auto simp: sorted_wrt_append)
  show "filter (\<lambda>b. \<not> reserved b) (seen' @ [b\<lparr>mb_gpa := gp', mb_size := sz'\<rparr>] @ bs) = filter (\<lambda>b. \<not> reserved b) (seen @ b # bs)"
    "length seen' \<le> length seen"
    using seen' assms(3) by simp_all
  show "res_set (seen' @ [b\<lparr>mb_gpa := gp', mb_size := sz'\<rparr>] @ bs) = res_set (seen @ b # bs) \<union> span gp sz"
    using seen' assms(3) join(2) by (auto simp: res_set_def)
  show "span gp' sz' = mb_span b \<union> span gp sz" by (rule join)
qed

lemma merging_end: "merging gp sz (Some m) banks [] \<Longrightarrow> banks_ok banks"
  by (auto simp: merging_def banks_ok_def sorted_wrt_append Int_commute)

lemma loop_merging:
  assumes "merging gp sz merged seen bs"
    and "register_loop KVM_MEM_TYPE_RESERVED gp sz slot prev merged seen bs = Inr (s, p, Some m, banks)"
  shows "banks_ok banks \<and> filter (\<lambda>b. \<not> reserved b) banks = filter (\<lambda>b. \<not> reserved b) (seen @ bs) \<and> length banks \<le> length (seen @ bs) \<and>
    res_set banks = res_set (seen @ bs) \<union> span gp sz"
  using assms
proof (induction bs arbitrary: gp sz slot prev merged seen)
  case Nil
  then have m: "merging gp sz (Some m) seen []" "banks = seen" by simp_all
  then have "span gp sz \<subseteq> res_set seen" by (auto simp: merging_def res_set_def)
  then show ?case using m merging_end [OF m(1)] by auto
next
  case (Cons b bs)
  have wf: "span_ok (mb_gpa b) (mb_size b)" "span_ok gp sz" using Cons.prems(1) by (auto simp: merging_def)
  show ?case
  proof (cases "mb_span b \<inter> span gp sz = {}")
    case True
    have t: "mb_gpa b + mb_size b - 1 < gp \<or> gp + sz - 1 < mb_gpa b" using span_apart_iff [OF wf] True by simp
    have "\<exists>slot' prev'. register_loop KVM_MEM_TYPE_RESERVED gp sz slot' prev' merged (seen @ [b]) bs = Inr (s, p, Some m, banks)"
      using Cons.prems(2) t by (auto simp: Let_def split: if_splits)
    then show ?thesis using Cons.IH [OF merging_pass [OF Cons.prems(1) True]] by auto
  next
    case False
    then have t: "\<not> (mb_gpa b + mb_size b - 1 < gp \<or> gp + sz - 1 < mb_gpa b)" using span_apart_iff [OF wf] by simp
    then have r: "reserved b" using Cons.prems(2) by (auto simp: Let_def split: if_splits)
    define gp' where "gp' = min (mb_gpa b) gp"
    define sz' where "sz' = max (mb_gpa b + mb_size b - 1) (gp + sz - 1) - gp' + 1"
    define seen' where "seen' = (case merged of None \<Rightarrow> seen | Some m \<Rightarrow> take m seen @ drop (Suc m) seen)"
    note join = merging_join [OF Cons.prems(1) False r gp'_def sz'_def seen'_def]
    have "register_loop KVM_MEM_TYPE_RESERVED gp' sz' slot prev (Some (length seen')) (seen' @ [b\<lparr>mb_gpa := gp', mb_size := sz'\<rparr>]) bs =
        Inr (s, p, Some m, banks)"
      using Cons.prems(2) t r by (simp add: Let_def gp'_def sz'_def seen'_def)
    note ih = Cons.IH [OF join(1) this]
    have "mb_span b \<subseteq> res_set (seen @ b # bs)" using r by (auto simp: res_set_def)
    then have "res_set (seen @ b # bs) \<union> span gp sz \<union> span gp' sz' = res_set (seen @ b # bs) \<union> span gp sz" using join(4) by blast
    with ih join(2,3,5) show ?thesis by simp
  qed
qed

lemma loop_rejects:
  assumes "merging gp sz merged seen bs"
  shows "isl (register_loop KVM_MEM_TYPE_RESERVED gp sz slot prev merged seen bs) \<longleftrightarrow> (\<exists>b \<in> set bs. \<not> reserved b \<and> mb_span b \<inter> span gp sz \<noteq> {})"
  using assms
proof (induction bs arbitrary: gp sz slot prev merged seen)
  case (Cons b bs)
  have wf: "span_ok (mb_gpa b) (mb_size b)" "span_ok gp sz" using Cons.prems by (auto simp: merging_def)
  show ?case
  proof (cases "mb_span b \<inter> span gp sz = {}")
    case True
    have t: "mb_gpa b + mb_size b - 1 < gp \<or> gp + sz - 1 < mb_gpa b" using span_apart_iff [OF wf] True by simp
    then show ?thesis using Cons.IH [OF merging_pass [OF Cons.prems True]] True by (simp add: Let_def)
  next
    case False
    then have t: "\<not> (mb_gpa b + mb_size b - 1 < gp \<or> gp + sz - 1 < mb_gpa b)" using span_apart_iff [OF wf] by simp
    show ?thesis
    proof (cases "reserved b")
      case True
      note join = merging_join [OF Cons.prems False True refl refl refl]
      have "\<forall>c \<in> set bs. mb_span b \<inter> mb_span c = {}" using Cons.prems by (auto simp: merging_def sorted_wrt_append split: option.splits)
      then have "\<forall>c \<in> set bs. mb_span c \<inter> (mb_span b \<union> span gp sz) = mb_span c \<inter> span gp sz" by blast
      then show ?thesis using Cons.IH [OF join(1), unfolded join(4)] t True by (simp add: Let_def)
    qed (use t False in \<open>auto simp: Let_def\<close>)
  qed
qed simp

section \<open>What the guest sees\<close>

text \<open>The kernel lets the guest reach the host address \<open>h\<close> at its address \<open>a\<close>.\<close>

definition guest_sees :: "kvm_mem \<Rightarrow> nat \<Rightarrow> u64 \<Rightarrow> bool" where
  "guest_sees kvm a h \<longleftrightarrow> (\<exists>s r. kernel_slots kvm s = Some r \<and> a \<in> span (rg_gpa r) (rg_size r) \<and> h = rg_host r + of_nat (a - unat (rg_gpa r)))"

abbreviation mb_maps :: "kvm_mem_bank \<Rightarrow> nat \<Rightarrow> u64 \<Rightarrow> bool" where
  "mb_maps b a h \<equiv> a \<in> mb_span b \<and> h = mb_host b + of_nat (a - unat (mb_gpa b))"

lemma slots_distinct: "sorted_wrt (\<lambda>a b. mb_slot a < mb_slot b) bs \<Longrightarrow> distinct (map mb_slot (filter P bs))"
  by (induction bs) auto

lemma guest_sees_iff:
  assumes "mem_ok kvm"
  shows "guest_sees kvm a h \<longleftrightarrow> (\<exists>b \<in> set (mem_banks kvm). \<not> reserved b \<and> mb_maps b a h)"
proof -
  have "distinct (map fst (map (\<lambda>b. (mb_slot b, bank_region b)) (filter (\<lambda>b. \<not> reserved b) (mem_banks kvm))))"
    using assms slots_distinct by (auto simp: mem_ok_def banks_ok_def comp_def)
  then have k: "kernel_slots kvm s = Some r \<longleftrightarrow> (\<exists>b \<in> set (mem_banks kvm). \<not> reserved b \<and> s = mb_slot b \<and> r = bank_region b)" for s r
    using assms by (auto simp: mem_ok_def kernel_view_def map_of_eq_Some_iff)
  have "guest_sees kvm a h \<longleftrightarrow> (\<exists>b \<in> set (mem_banks kvm). \<not> reserved b \<and> a \<in> span (rg_gpa (bank_region b)) (rg_size (bank_region b)) \<and>
      h = rg_host (bank_region b) + of_nat (a - unat (rg_gpa (bank_region b))))"
    unfolding guest_sees_def k by blast
  then show ?thesis by (simp add: bank_region_def)
qed

lemma kernel_view_insert:
  assumes "\<forall>b \<in> set (xs @ ys). mb_slot b \<noteq> mb_slot c"
  shows "kernel_view (xs @ c # ys) = (if reserved c then kernel_view (xs @ ys) else (kernel_view (xs @ ys))(mb_slot c \<mapsto> bank_region c))"
  using assms by (induction xs) (auto simp: kernel_view_def fun_eq_iff)

lemma banks_ok_insert:
  assumes "banks_ok (xs @ ys)" and "span_ok (mb_gpa c) (mb_size c)" and "\<forall>b \<in> set (xs @ ys). mb_span b \<inter> mb_span c = {}"
    and "\<forall>b \<in> set xs. mb_slot b < mb_slot c" and "\<forall>b \<in> set ys. mb_slot c < mb_slot b"
  shows "banks_ok (xs @ c # ys)"
  using assms by (auto simp: banks_ok_def sorted_wrt_append Int_commute)

lemma register_mem_free:
  assumes "mem_ok kvm" and "span_ok gp sz" and "mem_slots kvm \<noteq> - 1" and "\<forall>b \<in> set (mem_banks kvm). mb_span b \<inter> span gp sz = {}"
    and "ty = KVM_MEM_TYPE_RESERVED \<or> accept"
  shows "\<exists>xs ys slot kvm'. kvm_register_mem accept gp sz host ty kvm = (True, kvm') \<and> mem_ok kvm' \<and> mem_banks kvm = xs @ ys \<and>
    mem_banks kvm' = xs @ \<lparr> mb_gpa = gp, mb_host = host, mb_size = sz, mb_type = ty, mb_slot = slot \<rparr> # ys"
proof -
  let ?bs = "mem_banks kvm"
  have ok: "banks_ok ?bs" "kernel_slots kvm = kernel_view ?bs" and len: "length ?bs \<le> unat (mem_slots kvm)" using assms(1) by (simp_all add: mem_ok_def)
  have "length ?bs < 2 ^ 32" using len unsigned_less [of "mem_slots kvm", where 'a = nat] by simp
  then obtain s k where f: "free_slot 0 0 0 ?bs = (s, k)" "k \<le> length ?bs" "\<forall>b \<in> set (take k ?bs). mb_slot b < s" "\<forall>b \<in> set (drop k ?bs). s < mb_slot b"
    using free_slot_split [of ?bs 0 0] ok(1) by (auto simp: banks_ok_def)
  let ?b = "\<lparr> mb_gpa = gp, mb_host = host, mb_size = sz, mb_type = ty, mb_slot = s \<rparr>"
  have loop: "register_loop ty gp sz 0 0 None [] ?bs = Inr (s, k, None, ?bs)"
    using loop_free [OF assms(2), of ?bs ty 0 0 None "[]"] assms(4) ok(1) f(1) by (auto simp: banks_ok_def)
  have "unat (mem_slots kvm + 1) = unat (mem_slots kvm) + 1"
    using assms(3) by (metis Suc_eq_plus1 add.commute add_eq_0_iff unatSuc)
  moreover have "banks_ok (take k ?bs @ ?b # drop k ?bs)"
    using banks_ok_insert [of "take k ?bs" "drop k ?bs" ?b] ok(1) assms(2,4) f(3,4) by (simp flip: set_append)
  moreover have "\<forall>b \<in> set (take k ?bs @ drop k ?bs). mb_slot b \<noteq> mb_slot ?b"
    unfolding set_append ball_Un using f(3,4) by (simp add: less_imp_neq less_imp_neq [symmetric])
  note kernel_view_insert [OF this]
  ultimately have "\<exists>kvm'. kvm_register_mem accept gp sz host ty kvm = (True, kvm') \<and> mem_ok kvm' \<and> mem_banks kvm' = take k ?bs @ ?b # drop k ?bs"
    using assms(5) ok len f(2) by (auto simp: kvm_register_mem_def loop mem_ok_def Let_def bank_region_def)
  then show ?thesis by (metis append_take_drop_id)
qed

lemma register_taken:
  assumes "mem_ok kvm" and "span_ok gp sz" and "\<exists>b \<in> set (mem_banks kvm). mb_span b \<inter> span gp sz \<noteq> {}" and "ty \<noteq> KVM_MEM_TYPE_RESERVED"
  shows "kvm_register_mem accept gp sz host ty kvm = (False, kvm)"
proof -
  have "\<forall>b \<in> set bs. span_ok (mb_gpa b) (mb_size b) \<Longrightarrow> \<exists>b \<in> set bs. mb_span b \<inter> span gp sz \<noteq> {} \<Longrightarrow>
      register_loop ty gp sz slot prev merged seen bs = Inl (seen @ bs)" for slot prev merged seen bs
  proof (induction bs arbitrary: slot prev seen)
    case (Cons b bs)
    have "mb_gpa b + mb_size b - 1 < gp \<or> gp + sz - 1 < mb_gpa b \<longleftrightarrow> mb_span b \<inter> span gp sz = {}"
      using Cons.prems(1) span_apart_iff [of "mb_gpa b" "mb_size b" gp sz] assms(2) by simp
    then show ?case using Cons.IH [where seen = "seen @ [b]"] Cons.prems assms(4) by (auto simp: Let_def)
  qed simp
  from this [of "mem_banks kvm" 0 0 None "[]"] show ?thesis
    using assms(1,3) by (simp add: kvm_register_mem_def mem_ok_def banks_ok_def)
qed

lemma register_refused:
  assumes "mem_ok kvm" and "span_ok gp sz" and "\<not> (accept \<and> (\<forall>b \<in> set (mem_banks kvm). mb_span b \<inter> span gp sz = {}))"
    and "ty \<noteq> KVM_MEM_TYPE_RESERVED"
  shows "kvm_register_mem accept gp sz host ty kvm = (False, kvm)"
proof (cases "\<forall>b \<in> set (mem_banks kvm). mb_span b \<inter> span gp sz = {}")
  case True
  then have "register_loop ty gp sz 0 0 None [] (mem_banks kvm) = (case free_slot 0 0 0 (mem_banks kvm) of (s, p) \<Rightarrow> Inr (s, p, None, mem_banks kvm))"
    using loop_free [OF assms(2), of "mem_banks kvm" ty 0 0 None "[]"] assms(1) by (auto simp: mem_ok_def banks_ok_def)
  then show ?thesis using True assms(3,4) by (auto simp: kvm_register_mem_def Let_def split: prod.splits)
qed (use register_taken [OF assms(1,2) _ assms(4)] in auto)

lemma register_reserved:
  assumes "mem_ok kvm" and "span_ok gp sz" and "mem_slots kvm \<noteq> - 1" and "kvm_register_mem accept gp sz host KVM_MEM_TYPE_RESERVED kvm = (ok, kvm')"
  shows "ok \<longleftrightarrow> (\<forall>b \<in> set (mem_banks kvm). \<not> reserved b \<longrightarrow> mb_span b \<inter> span gp sz = {})"
    and "ok \<Longrightarrow> mem_ok kvm' \<and> res_set (mem_banks kvm') = res_set (mem_banks kvm) \<union> span gp sz \<and>
      filter (\<lambda>b. \<not> reserved b) (mem_banks kvm') = filter (\<lambda>b. \<not> reserved b) (mem_banks kvm)"
proof -
  let ?bs = "mem_banks kvm"
  have m: "merging gp sz None [] ?bs" using assms(1,2) by (simp add: merging_def mem_ok_def banks_ok_def)
  let ?l = "register_loop KVM_MEM_TYPE_RESERVED gp sz 0 0 None [] ?bs"
  have isl: "ok \<longleftrightarrow> \<not> isl ?l" using assms(4) by (cases ?l) (auto simp: kvm_register_mem_def Let_def split: if_splits)
  then show "ok \<longleftrightarrow> (\<forall>b \<in> set ?bs. \<not> reserved b \<longrightarrow> mb_span b \<inter> span gp sz = {})" using loop_rejects [OF m, of 0 0] by auto
  assume ok
  show "mem_ok kvm' \<and> res_set (mem_banks kvm') = res_set ?bs \<union> span gp sz \<and> filter (\<lambda>b. \<not> reserved b) (mem_banks kvm') = filter (\<lambda>b. \<not> reserved b) ?bs"
  proof (cases "\<forall>b \<in> set ?bs. mb_span b \<inter> span gp sz = {}")
    case True
    obtain xs ys slot where *: "mem_ok kvm'" "?bs = xs @ ys"
      "mem_banks kvm' = xs @ \<lparr> mb_gpa = gp, mb_host = host, mb_size = sz, mb_type = KVM_MEM_TYPE_RESERVED, mb_slot = slot \<rparr> # ys"
      using register_mem_free [OF assms(1-3) True, of KVM_MEM_TYPE_RESERVED accept host] assms(4) by auto
    then show ?thesis by (auto simp: res_set_def)
  next
    case False
    obtain s p mg banks where l: "?l = Inr (s, p, mg, banks)" using \<open>ok\<close> isl by (cases ?l) auto
    have "mg \<noteq> None"
    proof
      assume "mg = None"
      have "register_loop ty gp' sz' slot prev (Some k) seen bs \<noteq> Inr (s, p, None, banks)" for ty gp' sz' slot prev k seen bs
        by (induction ty gp' sz' slot prev "Some k" seen bs arbitrary: k rule: register_loop.induct) (auto simp: Let_def)
      then have clean: "\<forall>b \<in> set bs. span_ok (mb_gpa b) (mb_size b) \<Longrightarrow> register_loop KVM_MEM_TYPE_RESERVED gp sz slot prev None seen bs = Inr (s, p, None, banks) \<Longrightarrow>
          \<forall>b \<in> set bs. mb_span b \<inter> span gp sz = {}" for slot prev seen bs
      proof (induction bs arbitrary: slot prev seen)
        case (Cons b bs)
        then show ?case
          using span_apart_iff [of "mb_gpa b" "mb_size b" gp sz] assms(2) by (auto simp: Let_def split: if_splits)
      qed simp
      then show False using False l \<open>mg = None\<close> m clean [of "mem_banks kvm"] by (simp add: merging_def)
    qed
    then obtain k where mg: "mg = Some k" by blast
    note lm = loop_merging [OF m l [unfolded mg]]
    have "kvm' = kvm\<lparr>mem_banks := banks\<rparr>" using assms(4) l mg by (simp add: kvm_register_mem_def)
    then show ?thesis using lm assms(1) by (auto simp: mem_ok_def kernel_view_def)
  qed
qed

lemma find_unique:
  assumes "b \<in> set xs" and "P b" and "\<And>c. c \<in> set xs \<Longrightarrow> P c \<Longrightarrow> c = b"
  shows "find P xs = Some b"
proof (cases "find P xs")
  case None
  then show ?thesis using assms(1,2) by (simp add: find_None_iff)
next
  case (Some c)
  then have "c \<in> set xs" "P c" by (auto simp: find_Some_iff)
  then show ?thesis using Some assms(3) by blast
qed

lemma apart_unique:
  assumes "sorted_wrt (\<lambda>a b. f a \<inter> f b = {}) bs" and "b \<in> set bs" and "c \<in> set bs" and "x \<in> f b" and "x \<in> f c"
  shows "b = c"
  using assms by (induction bs) auto

lemma span_mem_iff: "span_ok gp sz \<Longrightarrow> gp \<le> a \<and> a < gp + sz \<longleftrightarrow> unat a \<in> span gp sz"
  by (simp add: span_def word_le_nat_alt word_less_nat_alt span_end)

lemma guest_flat_to_host_iff:
  assumes "mem_ok kvm"
  shows "guest_flat_to_host kvm a = Some h \<longleftrightarrow> (\<exists>b \<in> set (mem_banks kvm). mb_maps b (unat a) h)"
proof -
  let ?P = "\<lambda>b. mb_gpa b \<le> a \<and> a < mb_gpa b + mb_size b"
  have P: "?P b \<longleftrightarrow> unat a \<in> mb_span b" if "b \<in> set (mem_banks kvm)" for b
    using assms that span_mem_iff by (auto simp: mem_ok_def banks_ok_def)
  have off: "a - mb_gpa b = of_nat (unat a - unat (mb_gpa b))" if "unat a \<in> mb_span b" for b
    using that by (simp add: span_def of_nat_diff)
  show ?thesis
  proof
    assume "guest_flat_to_host kvm a = Some h"
    then obtain b where b: "find ?P (mem_banks kvm) = Some b" "h = mb_host b + (a - mb_gpa b)"
      unfolding guest_flat_to_host_def by auto
    from b(1) have "b \<in> set (mem_banks kvm)" "?P b" by (auto simp: find_Some_iff)
    with P [of b] off [of b] b(2) show "\<exists>b \<in> set (mem_banks kvm). mb_maps b (unat a) h" by auto
  next
    assume "\<exists>b \<in> set (mem_banks kvm). mb_maps b (unat a) h"
    then obtain b where b: "b \<in> set (mem_banks kvm)" "mb_maps b (unat a) h" by blast
    have "find ?P (mem_banks kvm) = Some b"
    proof (rule find_unique [where P = ?P, OF b(1)])
      show "?P b" using P b by simp
      show "c = b" if "c \<in> set (mem_banks kvm)" "?P c" for c
        using apart_unique [of mb_span "mem_banks kvm" c b "unat a"] that b P [of c] assms by (simp add: mem_ok_def banks_ok_def)
    qed
    then show "guest_flat_to_host kvm a = Some h" using b(2) off [of b] by (simp add: guest_flat_to_host_def)
  qed
qed

lemma destroy_ok:
  assumes "mem_ok kvm" and "b \<in> set (mem_banks kvm)" and "\<not> reserved b"
  shows "\<exists>xs ys kvm'. kvm_destroy_mem True (mb_gpa b) (mb_size b) (mb_host b) kvm = (True, kvm') \<and> mem_banks kvm = xs @ b # ys \<and>
    mem_banks kvm' = xs @ ys \<and> mem_ok kvm'"
proof -
  let ?P = "\<lambda>c. mb_gpa c = mb_gpa b \<and> mb_size c = mb_size b \<and> mb_host c = mb_host b"
  obtain xs c ys where e: "List.extract ?P (mem_banks kvm) = Some (xs, c, ys)"
    using assms(2) by (cases "List.extract ?P (mem_banks kvm)") (auto simp: extract_None_iff)
  then have c: "mem_banks kvm = xs @ c # ys" "?P c" by (simp_all add: extract_Some_iff)
  have ok: "banks_ok (xs @ c # ys)" "kernel_slots kvm = kernel_view (xs @ c # ys)" "Suc (length xs + length ys) \<le> unat (mem_slots kvm)"
    using assms(1) c(1) by (simp_all add: mem_ok_def)
  have "span_ok (mb_gpa b) (mb_size b)" using assms(1,2) by (simp add: mem_ok_def banks_ok_def)
  then have "unat (mb_gpa b) \<in> mb_span b" "unat (mb_gpa b) \<in> mb_span c" using c(2) by (simp_all add: span_def span_ok_def word_less_nat_alt)
  then have "c = b" using apart_unique [of mb_span "mem_banks kvm" c b "unat (mb_gpa b)"] assms(1,2) c(1) by (simp add: mem_ok_def banks_ok_def)
  have "\<forall>d \<in> set (xs @ ys). mb_slot d \<noteq> mb_slot b" using ok(1) \<open>c = b\<close> by (auto simp: banks_ok_def sorted_wrt_append)
  note view = kernel_view_insert [OF this]
  have "mb_slot b \<notin> dom (kernel_view (xs @ ys))"
    using \<open>\<forall>d \<in> set (xs @ ys). mb_slot d \<noteq> mb_slot b\<close> by (fastforce simp: kernel_view_def dest!: map_of_SomeD)
  then have "(kernel_view (xs @ b # ys))(mb_slot b := None) = kernel_view (xs @ ys)"
    using view assms(3) by (simp add: domIff fun_upd_idem)
  moreover have "unat (mem_slots kvm - 1) = unat (mem_slots kvm) - 1"
    using ok(3) by (metis not_less_eq_eq unat_0 unat_minus_one zero_le)
  moreover have "banks_ok (xs @ ys)" using ok(1) by (auto simp: banks_ok_def sorted_wrt_append)
  ultimately show ?thesis
    using e c ok assms(3) \<open>c = b\<close> by (intro exI [of _ xs] exI [of _ ys]) (auto simp: kvm_destroy_mem_def mem_ok_def)
qed

section \<open>Properties\<close>


definition sample_mem :: kvm_mem where
  "sample_mem = \<lparr> mem_banks = [\<lparr> mb_gpa = 0x1000, mb_host = 0x7f0000, mb_size = 0x1000, mb_type = KVM_MEM_TYPE_RAM, mb_slot = 0 \<rparr>],
     mem_slots = 1, kernel_slots = [0 \<mapsto> \<lparr> rg_readonly = False, rg_gpa = 0x1000, rg_size = 0x1000, rg_host = 0x7f0000 \<rparr>] \<rparr>"

lemma sample_mem_ok: "mem_ok sample_mem" "mem_slots sample_mem \<noteq> - 1" "span_ok 0x3000 0x1000" "span_ok 0x1800 0x1000"
  "mem_banks sample_mem = [\<lparr> mb_gpa = 0x1000, mb_host = 0x7f0000, mb_size = 0x1000, mb_type = KVM_MEM_TYPE_RAM, mb_slot = 0 \<rparr>]"
  by (simp_all add: sample_mem_def mem_ok_def banks_ok_def span_ok_def kernel_view_def bank_region_def flag_def fun_eq_iff)


text \<open>
  Destroying a region that was registered brings back the banks, and with them what the guest sees, exactly as they were before.
\<close>

theorem kvm_destroy_mem_undoes:
  assumes "mem_ok kvm" and "span_ok gp sz" and "mem_slots kvm \<noteq> - 1" and "ty \<noteq> KVM_MEM_TYPE_RESERVED"
    and "kvm_register_mem accept gp sz host ty kvm = (True, kvm')"
  shows "\<exists>kvm''. kvm_destroy_mem True gp sz host kvm' = (True, kvm'') \<and> mem_ok kvm'' \<and> mem_banks kvm'' = mem_banks kvm \<and> kernel_slots kvm'' = kernel_slots kvm"
proof -
  have acc: "accept" "\<forall>b \<in> set (mem_banks kvm). mb_span b \<inter> span gp sz = {}"
    using register_refused [OF assms(1,2) _ assms(4), of accept host] assms(5) by auto
  then obtain xs ys slot where r: "mem_ok kvm'" "mem_banks kvm = xs @ ys"
    "mem_banks kvm' = xs @ \<lparr> mb_gpa = gp, mb_host = host, mb_size = sz, mb_type = ty, mb_slot = slot \<rparr> # ys"
    using register_mem_free [OF assms(1-3), of ty accept host] assms(5) by auto
  let ?b = "\<lparr> mb_gpa = gp, mb_host = host, mb_size = sz, mb_type = ty, mb_slot = slot \<rparr>"
  obtain xs' ys' kvm'' where d: "kvm_destroy_mem True gp sz host kvm' = (True, kvm'')" "mem_banks kvm' = xs' @ ?b # ys'" "mem_banks kvm'' = xs' @ ys'" "mem_ok kvm''"
    using destroy_ok [OF r(1), of ?b] r(3) assms(4) by auto
  have "mb_span ?b \<noteq> {}" using assms(2) by (simp add: span_def span_ok_def word_less_nat_alt)
  then have "?b \<notin> set (xs @ ys)" using acc(2) r(2) by (metis Int_absorb kvm_mem_bank.select_convs(1,3))
  then have "xs' = xs \<and> ys' = ys" using d(2) r(3) append_Cons_eq_iff [of ?b xs ys xs' ys'] by simp
  then show ?thesis using d assms(1) r(2) by (auto simp: mem_ok_def)
qed

theorem kvm_destroy_mem_undoes_witness:
  "\<exists>kvm' kvm''. kvm_register_mem True 0x3000 0x1000 0x900000 KVM_MEM_TYPE_DEVICE sample_mem = (True, kvm') \<and>
     kvm_destroy_mem True 0x3000 0x1000 0x900000 kvm' = (True, kvm'') \<and> kernel_slots kvm'' = kernel_slots sample_mem"
proof -
  obtain kvm' where r: "kvm_register_mem True 0x3000 0x1000 0x900000 KVM_MEM_TYPE_DEVICE sample_mem = (True, kvm')"
    by (simp add: kvm_register_mem_def sample_mem_def Let_def)
  show ?thesis using kvm_destroy_mem_undoes [OF sample_mem_ok(1,3,2) _ r] r by auto
qed



text \<open>
  A reserved region that overlaps a reserved bank first and RAM later is refused, but the reserved bank has been extended over the RAM by then: the
  translation of guest addresses in this RAM now ends in the reserved bank, at an offset from the null pointer, although the guest sees the RAM there.
\<close>

theorem kvm_reserve_mem_failure_corrupts:
  assumes "mem_banks kvm = [b1, b2]" and "reserved b1" and "mb_host b1 = 0" and "\<not> reserved b2" and "mem_ok kvm" and "span_ok gp sz"
    and "mb_span b1 \<inter> span gp sz \<noteq> {}" and "unat a \<in> mb_span b2" and "unat a \<in> span gp sz"
  shows "\<exists>kvm'. kvm_reserve_mem gp sz kvm = (False, kvm') \<and> guest_sees kvm' = guest_sees kvm \<and>
    guest_sees kvm (unat a) (mb_host b2 + (a - mb_gpa b2)) \<and> guest_flat_to_host kvm' a = Some (a - min (mb_gpa b1) gp)"
proof -
  have wf: "span_ok (mb_gpa b1) (mb_size b1)" "span_ok (mb_gpa b2) (mb_size b2)" using assms(1,5) by (simp_all add: mem_ok_def banks_ok_def)
  define gp' where "gp' = min (mb_gpa b1) gp"
  define sz' where "sz' = max (mb_gpa b1 + mb_size b1 - 1) (gp + sz - 1) - gp' + 1"
  note join = span_join [OF wf(1) assms(6,7) gp'_def sz'_def]
  let ?b1 = "b1\<lparr>mb_gpa := gp', mb_size := sz'\<rparr>"
  have o1: "\<not> (mb_gpa b1 + mb_size b1 - 1 < gp \<or> gp + sz - 1 < mb_gpa b1)" using span_apart_iff [OF wf(1) assms(6)] assms(7) by simp
  have "span gp' sz' \<inter> mb_span b2 \<noteq> {}" using join(2) assms(8,9) by blast
  then have o2: "\<not> (mb_gpa b2 + mb_size b2 - 1 < gp' \<or> gp' + sz' - 1 < mb_gpa b2)" using span_apart_iff [OF wf(2) join(1)] by blast
  have "register_loop KVM_MEM_TYPE_RESERVED gp sz 0 0 None [] [b1, b2] = register_loop KVM_MEM_TYPE_RESERVED gp' sz' 0 0 (Some 0) [?b1] [b2]"
    using o1 assms(2) by (simp add: gp'_def sz'_def Let_def)
  also have "\<dots> = Inl [?b1, b2]" using o2 assms(4) by (simp add: Let_def)
  finally have run: "kvm_reserve_mem gp sz kvm = (False, kvm\<lparr>mem_banks := [?b1, b2]\<rparr>)"
    by (simp add: kvm_reserve_mem_def kvm_register_mem_def assms(1))
  have "gp' \<le> a \<and> a < gp' + sz'" using span_mem_iff [OF join(1), of a] join(2) assms(9) by simp
  then have "guest_flat_to_host (kvm\<lparr>mem_banks := [?b1, b2]\<rparr>) a = Some (a - gp')" by (simp add: guest_flat_to_host_def assms(3))
  moreover have "guest_sees kvm (unat a) (mb_host b2 + (a - mb_gpa b2))"
    using assms(1,4,8) by (auto simp: guest_sees_iff [OF assms(5)] span_def of_nat_diff)
  ultimately show ?thesis using run by (auto simp: guest_sees_def fun_eq_iff gp'_def)
qed

definition sample_reserved :: kvm_mem where
  "sample_reserved =
     \<lparr> mem_banks = [\<lparr> mb_gpa = 0x1000, mb_host = 0, mb_size = 0x1000, mb_type = KVM_MEM_TYPE_RESERVED, mb_slot = 0 \<rparr>,
                    \<lparr> mb_gpa = 0x2000, mb_host = 0x7f0000, mb_size = 0x1000, mb_type = KVM_MEM_TYPE_RAM, mb_slot = 1 \<rparr>],
       mem_slots = 2, kernel_slots = [1 \<mapsto> \<lparr> rg_readonly = False, rg_gpa = 0x2000, rg_size = 0x1000, rg_host = 0x7f0000 \<rparr>] \<rparr>"

theorem kvm_reserve_mem_failure_corrupts_witness:
  "\<exists>kvm'. kvm_reserve_mem 0x1800 0x1000 sample_reserved = (False, kvm') \<and> guest_sees kvm' = guest_sees sample_reserved \<and>
     guest_sees sample_reserved 0x2010 0x7f0010 \<and> guest_flat_to_host kvm' 0x2010 = Some 0x1010"
proof -
  have ok: "mem_ok sample_reserved"
    by (auto simp: sample_reserved_def mem_ok_def banks_ok_def span_ok_def span_def kernel_view_def bank_region_def flag_def fun_eq_iff)
  have "span 0x1000 0x1000 \<inter> span 0x1800 0x1000 \<noteq> {}" by (auto simp: span_def)
  then show ?thesis
    using kvm_reserve_mem_failure_corrupts [OF _ _ _ _ ok, of _ _ "0x1800" "0x1000" "0x2010"]
    by (auto simp: sample_reserved_def span_def span_ok_def)
qed

section \<open>Runs\<close>

lemma destroy_inv:
  assumes "mem_ok kvm"
  shows "mem_ok (snd (kvm_destroy_mem accept gp sz host kvm))"
proof (cases "List.extract (\<lambda>b. mb_gpa b = gp \<and> mb_size b = sz \<and> mb_host b = host) (mem_banks kvm)")
  case None
  then show ?thesis using assms by (simp add: kvm_destroy_mem_def)
next
  case (Some t)
  obtain xs c ys where t: "t = (xs, c, ys)" by (cases t)
  with Some have c: "c \<in> set (mem_banks kvm)" "mb_gpa c = gp" "mb_size c = sz" "mb_host c = host" by (auto simp: extract_Some_iff)
  show ?thesis
  proof (cases "\<not> reserved c \<and> accept")
    case True
    then show ?thesis using destroy_ok [OF assms c(1)] c by auto
  qed (use Some t assms in \<open>auto simp: kvm_destroy_mem_def\<close>)
qed

lemma register_inv:
  assumes "mem_ok kvm" and "span_ok gp sz" and "mem_slots kvm \<noteq> - 1" and "kvm_register_mem accept gp sz host ty kvm = (ok, kvm')"
    and "ok \<or> ty \<noteq> KVM_MEM_TYPE_RESERVED"
  shows "mem_ok kvm'"
proof (cases "ty = KVM_MEM_TYPE_RESERVED")
  case True
  then show ?thesis using register_reserved [OF assms(1-3), of accept host] assms(4,5) by auto
next
  case other: False
  show ?thesis
  proof (cases "accept \<and> (\<forall>b \<in> set (mem_banks kvm). mb_span b \<inter> span gp sz = {})")
    case True
    then show ?thesis using register_mem_free [OF assms(1-3), of ty accept host] assms(4) by auto
  qed (use register_refused [OF assms(1,2) _ other] assms(1,4) in auto)
qed

lemma vhost_regions_ok:
  "length acc + length bs \<le> n \<Longrightarrow> vhost_regions n bs acc =
     Inr (acc @ map (\<lambda>b. \<lparr> rg_readonly = False, rg_gpa = mb_gpa b, rg_size = mb_size b, rg_host = mb_host b \<rparr>) bs)"
  by (induction bs arbitrary: acc) auto

text \<open>The states that the machine can get into: regions are not empty, and the program ends when a reservation fails.\<close>

inductive mem_reach :: "kvm_mem \<Rightarrow> bool" where
  Start: "mem_reach \<lparr> mem_banks = [], mem_slots = 0, kernel_slots = Map.empty \<rparr>"
| Register: "mem_reach kvm \<Longrightarrow> span_ok gp sz \<Longrightarrow> mem_slots kvm \<noteq> - 1 \<Longrightarrow> kvm_register_mem accept gp sz host ty kvm = (ok, kvm') \<Longrightarrow>
    ok \<or> ty \<noteq> KVM_MEM_TYPE_RESERVED \<Longrightarrow> mem_reach kvm'"
| Destroy: "mem_reach kvm \<Longrightarrow> kvm_destroy_mem accept gp sz host kvm = (ok, kvm') \<Longrightarrow> mem_reach kvm'"

lemma mem_empty_ok: "mem_ok \<lparr> mem_banks = [], mem_slots = 0, kernel_slots = Map.empty \<rparr>"
  by (simp add: mem_ok_def banks_ok_def kernel_view_def)

lemma mem_reach_ok: "mem_reach kvm \<Longrightarrow> mem_ok kvm"
proof (induction rule: mem_reach.induct)
  case (Register kvm gp sz accept host ty ok kvm')
  show ?case by (rule register_inv [OF Register.IH Register.hyps(2-)])
next
  case (Destroy kvm accept gp sz host ok kvm')
  then show ?case using destroy_inv [of kvm accept gp sz host] by simp
qed (rule mem_empty_ok)

text \<open>
  In every reachable state the banks are disjoint, their slots distinct, and the kernel holds exactly the banks that are not reserved, each in its slot; the
  table of memory regions for vhost, which is allocated by the number of registrations, holds all banks.
\<close>

theorem kvm_mem_reachable_ok:
  assumes "mem_reach kvm"
  shows "banks_ok (mem_banks kvm) \<and> kernel_slots kvm = kernel_view (mem_banks kvm) \<and>
    virtio_vhost_mem_table kvm = Inr (map (\<lambda>b. \<lparr> rg_readonly = False, rg_gpa = mb_gpa b, rg_size = mb_size b, rg_host = mb_host b \<rparr>) (mem_banks kvm))"
  using mem_reach_ok [OF assms] vhost_regions_ok [of "[]" "mem_banks kvm" "unat (mem_slots kvm)"]
  by (simp add: mem_ok_def virtio_vhost_mem_table_def)

theorem kvm_mem_reachable_ok_witness:
  "\<exists>kvm. mem_reach kvm \<and> length (mem_banks kvm) = 1 \<and> banks_ok (mem_banks kvm)"
proof -
  let ?k0 = "\<lparr> mem_banks = [], mem_slots = 0, kernel_slots = Map.empty \<rparr>"
  obtain kvm where r: "kvm_register_mem True 0x3000 0x1000 0x900000 KVM_MEM_TYPE_RAM ?k0 = (True, kvm)" "length (mem_banks kvm) = 1"
    by (simp add: kvm_register_mem_def Let_def)
  then have "mem_reach kvm" using mem_reach.Register [OF mem_reach.Start sample_mem_ok(3) _ r(1)] by simp
  then show ?thesis using kvm_mem_reachable_ok r(2) by blast
qed

section \<open>The layout of RAM\<close>

lemma option_eq_ifI:
  assumes "\<And>h. x = Some h \<longleftrightarrow> P \<and> h = y"
  shows "x = (if P then Some y else None)"
proof (cases P)
  case True
  then show ?thesis using assms [of y] by simp
next
  case False
  then show ?thesis using assms by (cases x) auto
qed

text \<open>
  An x86 machine has all its RAM at the guest addresses below the gap under 4 GiB and, when there is more, from 4 GiB on; these addresses, and no others, are
  translated, to the same offset in the mapping of the RAM.
\<close>

theorem x86_ram_layout:
  assumes "mem_banks kvm = []" and "mem_slots kvm = 0" and "kernel_slots kvm = Map.empty" and "0 < cfg" and "cfg \<noteq> KVM_32BIT_GAP_START"
    and "unat cfg + unat KVM_32BIT_GAP_SIZE < 2 ^ 64"
  shows "mem_ok (kvm_init_ram True start (x86_ram_size cfg) kvm) \<and>
    (\<forall>a. guest_flat_to_host (kvm_init_ram True start (x86_ram_size cfg) kvm) a =
       (if a < min cfg KVM_32BIT_GAP_START \<or> KVM_32BIT_MAX_MEM_SIZE \<le> a \<and> a < x86_ram_size cfg then Some (start + a) else None))"
proof (cases "cfg < KVM_32BIT_GAP_START")
  case True
  have ok: "mem_ok kvm" "span_ok 0 cfg" "mem_slots kvm \<noteq> - 1"
    using assms True by (simp_all add: mem_ok_def banks_ok_def kernel_view_def span_ok_def word_less_nat_alt)
  obtain slot k where k: "kvm_register_ram True 0 cfg start kvm = (True, k)" "mem_ok k"
    "mem_banks k = [\<lparr> mb_gpa = 0, mb_host = start, mb_size = cfg, mb_type = KVM_MEM_TYPE_RAM, mb_slot = slot \<rparr>]"
    using register_mem_free [OF ok, of KVM_MEM_TYPE_RAM True start] assms(1) by (auto simp: kvm_register_ram_def)
  then have "kvm_init_ram True start (x86_ram_size cfg) kvm = k" using True by (simp add: kvm_init_ram_def x86_ram_size_def)
  then show ?thesis using k True by (auto simp: guest_flat_to_host_def x86_ram_size_def)
next
  case False
  let ?size = "x86_ram_size cfg - KVM_32BIT_MAX_MEM_SIZE"
  have big: "unat KVM_32BIT_GAP_START < unat cfg" using False assms(5) by (simp add: word_less_nat_alt word_unat_eq_iff)
  have rs: "unat (x86_ram_size cfg) = unat cfg + unat KVM_32BIT_GAP_SIZE" using False assms(6) by (simp add: x86_ram_size_def unat_word_ariths)
  then have le: "KVM_32BIT_MAX_MEM_SIZE \<le> x86_ram_size cfg" using big by (simp add: word_le_nat_alt)
  have us: "unat ?size = unat (x86_ram_size cfg) - unat KVM_32BIT_MAX_MEM_SIZE" using le by (simp add: unat_sub)
  have ok: "mem_ok kvm" "span_ok 0 KVM_32BIT_GAP_START" "mem_slots kvm \<noteq> - 1"
    using assms by (simp_all add: mem_ok_def banks_ok_def kernel_view_def span_ok_def)
  obtain s1 k1 where k1: "kvm_register_ram True 0 KVM_32BIT_GAP_START start kvm = (True, k1)" "mem_ok k1"
    "mem_banks k1 = [\<lparr> mb_gpa = 0, mb_host = start, mb_size = KVM_32BIT_GAP_START, mb_type = KVM_MEM_TYPE_RAM, mb_slot = s1 \<rparr>]"
    using register_mem_free [OF ok, of KVM_MEM_TYPE_RAM True start] assms(1) by (auto simp: kvm_register_ram_def)
  have "mem_slots k1 = 1" using k1(1) assms(1,2) by (auto simp: kvm_register_ram_def kvm_register_mem_def Let_def)
  moreover have sp: "span_ok KVM_32BIT_MAX_MEM_SIZE ?size" using us rs big assms(6) by (simp add: span_ok_def word_less_nat_alt)
  ultimately obtain xs ys s2 k2 where k2: "kvm_register_ram True KVM_32BIT_MAX_MEM_SIZE ?size (start + KVM_32BIT_MAX_MEM_SIZE) k1 = (True, k2)" "mem_ok k2"
    "mem_banks k1 = xs @ ys"
    "mem_banks k2 = xs @ \<lparr> mb_gpa = KVM_32BIT_MAX_MEM_SIZE, mb_host = start + KVM_32BIT_MAX_MEM_SIZE, mb_size = ?size, mb_type = KVM_MEM_TYPE_RAM, mb_slot = s2 \<rparr> # ys"
    using register_mem_free [OF k1(2), of KVM_32BIT_MAX_MEM_SIZE ?size KVM_MEM_TYPE_RAM True "start + KVM_32BIT_MAX_MEM_SIZE"] k1(3)
    by (auto simp: kvm_register_ram_def span_def)
  have run: "kvm_init_ram True start (x86_ram_size cfg) kvm = k2"
    using False k1(1) k2(1) le rs big by (simp add: kvm_init_ram_def word_less_nat_alt)
  have set: "set (mem_banks k2) = {\<lparr> mb_gpa = 0, mb_host = start, mb_size = KVM_32BIT_GAP_START, mb_type = KVM_MEM_TYPE_RAM, mb_slot = s1 \<rparr>,
      \<lparr> mb_gpa = KVM_32BIT_MAX_MEM_SIZE, mb_host = start + KVM_32BIT_MAX_MEM_SIZE, mb_size = ?size, mb_type = KVM_MEM_TYPE_RAM, mb_slot = s2 \<rparr>}"
    (is "_ = {?b1, ?b2}")
  proof -
    have "set (xs @ ys) = {?b1}" using k2(3) k1(3) by (simp flip: k2(3))
    moreover have "set (mem_banks k2) = insert ?b2 (set (xs @ ys))" using k2(4) by auto
    ultimately show ?thesis by auto
  qed
  have "guest_flat_to_host k2 a = Some h \<longleftrightarrow> (a < KVM_32BIT_GAP_START \<or> KVM_32BIT_MAX_MEM_SIZE \<le> a \<and> a < x86_ram_size cfg) \<and> h = start + a" for a h
    unfolding guest_flat_to_host_iff [OF k2(2)] set using us rs le
    by (auto simp: span_def word_less_nat_alt word_le_nat_alt of_nat_diff)
  then have "guest_flat_to_host k2 a = (if a < KVM_32BIT_GAP_START \<or> KVM_32BIT_MAX_MEM_SIZE \<le> a \<and> a < x86_ram_size cfg then Some (start + a) else None)" for a
    by (intro option_eq_ifI)
  then show ?thesis using run k2(2) False by (simp add: min_def not_less)
qed

theorem x86_ram_layout_witness:
  "guest_flat_to_host (kvm_init_ram True 0x7f0000000000 (x86_ram_size 0x100000000) \<lparr> mem_banks = [], mem_slots = 0, kernel_slots = Map.empty \<rparr>) 0x110000000 =
     Some 0x7f0110000000"
  using x86_ram_layout [of "\<lparr> mem_banks = [], mem_slots = 0, kernel_slots = Map.empty \<rparr>" "0x100000000" "0x7f0000000000"]
  by (simp add: x86_ram_size_def)

end
