(* ===== verification/Xics.thy ===== *)
theory Xics
  imports Prelude
begin

text \<open>
  The interrupt controller of pSeries machines, \<^verbatim>\<open>arch/powerpc/xics.c\<close>: a source layer (ICS) that keeps a priority, a target and flags for
  each source, and a presentation layer (ICP) with one pending interrupt per processor. Sources start at number 16;
  number 2 is the interrupt between processors. The line of a processor, which \<^verbatim>\<open>kvm_cpu__irq\<close> sets, is a field of
  its state.
\<close>

abbreviation XICS_IRQ_OFFSET :: nat where "XICS_IRQ_OFFSET \<equiv> 16"
abbreviation XICS_NUM_IRQS :: nat where "XICS_NUM_IRQS \<equiv> 1024"
abbreviation XICS_IPI :: u32 where "XICS_IPI \<equiv> 2"
abbreviation XISR_MASK :: u32 where "XISR_MASK \<equiv> 0x00ffffff"
abbreviation CPPR_MASK :: u32 where "CPPR_MASK \<equiv> 0xff000000"

record icp_server_state =
  xirr :: u32
  pending_priority :: u8
  mfrr :: u8
  cpu_line :: bool

record ics_irq_state =
  server :: nat
  priority :: u8
  rejected :: bool
  masked_pending :: bool

record xics_state =
  ss :: "icp_server_state list"
  irqs :: "ics_irq_state list"

definition XISR :: "icp_server_state \<Rightarrow> u32" where
  "XISR s = xirr s AND XISR_MASK"

definition CPPR :: "icp_server_state \<Rightarrow> u8" where
  "CPPR s = ucast (drop_bit 24 (xirr s))"

definition set_XISR :: "u32 \<Rightarrow> icp_server_state \<Rightarrow> icp_server_state" where
  "set_XISR nr s = s\<lparr>xirr := (xirr s AND NOT XISR_MASK) OR nr\<rparr>"

definition set_CPPR :: "u32 \<Rightarrow> icp_server_state \<Rightarrow> icp_server_state" where
  "set_CPPR bits s = s\<lparr>xirr := (xirr s AND NOT CPPR_MASK) OR bits\<rparr>"

section \<open>Sources and presentation\<close>

definition put_ss :: "nat \<Rightarrow> icp_server_state \<Rightarrow> xics_state \<Rightarrow> xics_state" where
  "put_ss n s x = x\<lparr>ss := (ss x)[n := s]\<rparr>"

definition put_irq :: "nat \<Rightarrow> ics_irq_state \<Rightarrow> xics_state \<Rightarrow> xics_state" where
  "put_irq i q x = x\<lparr>irqs := (irqs x)[i := q]\<rparr>"

text \<open>\<^verbatim>\<open>irqs + nr - offset\<close> is in front of the array for numbers below the offset.\<close>

definition ics_reject :: "u32 \<Rightarrow> xics_state \<Rightarrow> xics_state result" where
  "ics_reject nr x =
     (if unat nr < XICS_IRQ_OFFSET then Inl OutOfBounds
      else rbind (aget (irqs x) (unat nr - XICS_IRQ_OFFSET)) (\<lambda>q. Inr (put_irq (unat nr - XICS_IRQ_OFFSET) (q\<lparr>rejected := True\<rparr>) x)))"

definition reject_pending :: "icp_server_state \<Rightarrow> xics_state \<Rightarrow> xics_state result" where
  "reject_pending s x = (if XISR s \<noteq> 0 then ics_reject (XISR s) x else Inr x)"

definition icp_irq :: "nat \<Rightarrow> nat \<Rightarrow> u8 \<Rightarrow> xics_state \<Rightarrow> xics_state result" where
  "icp_irq n nr prio x =
     rbind (aget (ss x) n) (\<lambda>s.
       if CPPR s \<le> prio \<or> (XISR s \<noteq> 0 \<and> pending_priority s \<le> prio) then ics_reject (of_nat nr) x
       else rbind (reject_pending s x) (\<lambda>x1.
         Inr (put_ss n ((set_XISR (of_nat nr AND XISR_MASK) s)\<lparr>pending_priority := prio, cpu_line := True\<rparr>) x1)))"

definition resend_one :: "nat \<Rightarrow> xics_state \<Rightarrow> xics_state result" where
  "resend_one i x =
     rbind (aget (irqs x) i) (\<lambda>q.
       if rejected q
       then (let x1 = put_irq i (q\<lparr>rejected := False\<rparr>) x in
             if priority q \<noteq> 0xff then icp_irq (server q) (i + XICS_IRQ_OFFSET) (priority q) x1 else Inr x1)
       else Inr x)"

definition ics_resend :: "xics_state \<Rightarrow> xics_state result" where
  "ics_resend x = rfold resend_one [0..<length (irqs x)] x"

definition icp_check_ipi :: "nat \<Rightarrow> xics_state \<Rightarrow> xics_state result" where
  "icp_check_ipi n x =
     rbind (aget (ss x) n) (\<lambda>s.
       if XISR s \<noteq> 0 \<and> pending_priority s \<le> mfrr s then Inr x
       else rbind (reject_pending s x) (\<lambda>x1.
         Inr (put_ss n ((set_XISR XICS_IPI s)\<lparr>pending_priority := mfrr s, cpu_line := True\<rparr>) x1)))"

definition icp_resend :: "nat \<Rightarrow> xics_state \<Rightarrow> xics_state result" where
  "icp_resend n x =
     rbind (aget (ss x) n) (\<lambda>s.
     rbind (if mfrr s < CPPR s then icp_check_ipi n x else Inr x) ics_resend)"

definition icp_set_cppr :: "nat \<Rightarrow> u8 \<Rightarrow> xics_state \<Rightarrow> xics_state result" where
  "icp_set_cppr n cppr x =
     rbind (aget (ss x) n) (\<lambda>s.
       let s1 = set_CPPR (push_bit 24 (ucast cppr)) s; x1 = put_ss n s1 x in
       if cppr < CPPR s then
         (if XISR s1 \<noteq> 0 \<and> cppr \<le> pending_priority s1
          then ics_reject (XISR s1) (put_ss n ((set_XISR 0 s1)\<lparr>cpu_line := False\<rparr>) x1)
          else Inr x1)
       else if XISR s1 = 0 then icp_resend n x1
       else Inr x1)"

definition icp_set_mfrr :: "nat \<Rightarrow> u8 \<Rightarrow> xics_state \<Rightarrow> xics_state result" where
  "icp_set_mfrr n m x =
     rbind (aget (ss x) n) (\<lambda>s.
       let x1 = put_ss n (s\<lparr>mfrr := m\<rparr>) x in if m < CPPR s then icp_check_ipi n x1 else Inr x1)"

definition icp_accept :: "nat \<Rightarrow> xics_state \<Rightarrow> (u32 \<times> xics_state) result" where
  "icp_accept n x =
     rbind (aget (ss x) n) (\<lambda>s. Inr (xirr s, put_ss n (s\<lparr>cpu_line := False, xirr := push_bit 24 (ucast (pending_priority s))\<rparr>) x))"

definition icp_eoi :: "nat \<Rightarrow> u32 \<Rightarrow> xics_state \<Rightarrow> xics_state result" where
  "icp_eoi n v x =
     rbind (aget (ss x) n) (\<lambda>s.
       let s1 = set_CPPR (v AND CPPR_MASK) s; x1 = put_ss n s1 x in if XISR s1 = 0 then icp_resend n x1 else Inr x1)"

definition ics_valid_irq :: "u32 \<Rightarrow> xics_state \<Rightarrow> bool" where
  "ics_valid_irq nr x \<longleftrightarrow> XICS_IRQ_OFFSET \<le> unat nr \<and> unat nr < XICS_IRQ_OFFSET + length (irqs x)"

definition ics_set_irq_msi :: "nat \<Rightarrow> bool \<Rightarrow> xics_state \<Rightarrow> xics_state result" where
  "ics_set_irq_msi srcno val x =
     (if \<not> val then Inr x
      else rbind (aget (irqs x) srcno) (\<lambda>q.
        if priority q = 0xff then Inr (put_irq srcno (q\<lparr>masked_pending := True\<rparr>) x)
        else icp_irq (server q) (srcno + XICS_IRQ_OFFSET) (priority q) x))"

definition ics_write_xive_msi :: "nat \<Rightarrow> nat \<Rightarrow> u8 \<Rightarrow> xics_state \<Rightarrow> xics_state result" where
  "ics_write_xive_msi nr sv prio x =
     (if nr < XICS_IRQ_OFFSET then Inl OutOfBounds
      else rbind (aget (irqs x) (nr - XICS_IRQ_OFFSET)) (\<lambda>q.
        let q1 = q\<lparr>server := sv, priority := prio\<rparr> in
        if \<not> masked_pending q \<or> prio = 0xff then Inr (put_irq (nr - XICS_IRQ_OFFSET) q1 x)
        else icp_irq sv nr prio (put_irq (nr - XICS_IRQ_OFFSET) (q1\<lparr>masked_pending := False\<rparr>) x)))"

section \<open>Hypercalls and RTAS calls\<close>

datatype hret = H_SUCCESS | H_PARAMETER

definition h_cppr :: "nat \<Rightarrow> u64 \<Rightarrow> xics_state \<Rightarrow> (hret \<times> xics_state) result" where
  "h_cppr cpu arg x = rbind (icp_set_cppr cpu (ucast arg) x) (\<lambda>x'. Inr (H_SUCCESS, x'))"

definition h_ipi :: "u64 \<Rightarrow> u64 \<Rightarrow> xics_state \<Rightarrow> (hret \<times> xics_state) result" where
  "h_ipi sv m x =
     (if length (ss x) \<le> unat sv then Inr (H_PARAMETER, x)
      else rbind (icp_set_mfrr (unat sv) (ucast m) x) (\<lambda>x'. Inr (H_SUCCESS, x')))"

definition h_xirr :: "nat \<Rightarrow> xics_state \<Rightarrow> (hret \<times> u64 \<times> xics_state) result" where
  "h_xirr cpu x = rbind (icp_accept cpu x) (\<lambda>(v, x'). Inr (H_SUCCESS, ucast v, x'))"

definition h_eoi :: "nat \<Rightarrow> u64 \<Rightarrow> xics_state \<Rightarrow> (hret \<times> xics_state) result" where
  "h_eoi cpu arg x = rbind (icp_eoi cpu (ucast arg) x) (\<lambda>x'. Inr (H_SUCCESS, x'))"

text \<open>The arguments of an RTAS call are a list of words; the result is the words stored for the guest.\<close>

definition rtas_set_xive :: "nat \<Rightarrow> nat \<Rightarrow> u32 list \<Rightarrow> xics_state \<Rightarrow> (u32 list \<times> xics_state) result" where
  "rtas_set_xive nargs nret args x =
     (if nargs \<noteq> 3 \<or> nret \<noteq> 1 then Inr ([- 3], x)
      else rbind (aget args 0) (\<lambda>nr. rbind (aget args 1) (\<lambda>sv. rbind (aget args 2) (\<lambda>prio.
        if \<not> ics_valid_irq nr x \<or> length (ss x) \<le> unat sv \<or> 0xff < prio then Inr ([- 3], x)
        else rbind (ics_write_xive_msi (unat nr) (unat sv) (ucast prio) x) (\<lambda>x'. Inr ([0], x'))))))"

definition rtas_get_xive :: "nat \<Rightarrow> nat \<Rightarrow> u32 list \<Rightarrow> xics_state \<Rightarrow> u32 list result" where
  "rtas_get_xive nargs nret args x =
     (if nargs \<noteq> 1 \<or> nret \<noteq> 3 then Inr [- 3]
      else rbind (aget args 0) (\<lambda>nr.
        if \<not> ics_valid_irq nr x then Inr [- 3]
        else rbind (aget (irqs x) (unat nr - XICS_IRQ_OFFSET)) (\<lambda>q. Inr [0, of_nat (server q), ucast (priority q)])))"

text \<open>\<^verbatim>\<open>rtas_int_off\<close> and \<^verbatim>\<open>rtas_int_on\<close> only check their argument.\<close>

definition rtas_int_off :: "nat \<Rightarrow> nat \<Rightarrow> u32 list \<Rightarrow> xics_state \<Rightarrow> u32 list result" where
  "rtas_int_off nargs nret args x =
     (if nargs \<noteq> 1 \<or> nret \<noteq> 1 then Inr [- 3]
      else rbind (aget args 0) (\<lambda>nr. Inr (if ics_valid_irq nr x then [0] else [- 3])))"

definition rtas_int_on :: "nat \<Rightarrow> nat \<Rightarrow> u32 list \<Rightarrow> xics_state \<Rightarrow> u32 list result" where
  "rtas_int_on nargs nret args x =
     (if nargs \<noteq> 1 \<or> nret \<noteq> 1 then Inr [- 3]
      else rbind (aget args 0) (\<lambda>nr. Inr (if ics_valid_irq nr x then [0] else [- 3])))"

definition xics_init :: "nat \<Rightarrow> xics_state" where
  "xics_init nrcpus =
     \<lparr> ss = replicate nrcpus \<lparr> xirr = 0, pending_priority = 0, mfrr = 0xff, cpu_line = False \<rparr>,
       irqs = replicate XICS_NUM_IRQS \<lparr> server = 0, priority = 0xff, rejected = False, masked_pending = False \<rparr> \<rparr>"

definition kvm_irq_line :: "int \<Rightarrow> bool \<Rightarrow> xics_state \<Rightarrow> xics_state result" where
  "kvm_irq_line irq level x =
     (if irq < int XICS_IRQ_OFFSET then (if level then Inl OutOfBounds else Inr x)
      else ics_set_irq_msi (nat (irq - int XICS_IRQ_OFFSET)) level x)"

section \<open>Fields of the register\<close>

lemma xirr_masks: "(0x00ffffff :: u32) = mask 24" "(0xff000000 :: u32) = NOT (mask 24)"
  by (simp_all add: mask_eq_exp_minus_1)

lemma low_part: "take_bit 24 ((x AND NOT (mask 24)) OR v) = take_bit 24 (v :: u32)"
  by (rule bit_word_eqI) (auto simp: bit_simps)

lemma high_part: "drop_bit 24 ((x AND NOT (mask 24)) OR v) = drop_bit 24 (x :: u32) OR drop_bit 24 v"
  by (rule bit_word_eqI) (auto simp: bit_simps dest: bit_imp_le_length)

lemma low_part': "take_bit 24 ((x AND mask 24) OR v) = take_bit 24 (x :: u32) OR take_bit 24 v"
  by (rule bit_word_eqI) (auto simp: bit_simps)

lemma high_part': "drop_bit 24 ((x AND mask 24) OR v) = drop_bit 24 (v :: u32)"
  by (rule bit_word_eqI) (auto simp: bit_simps)

lemma XISR_take: "XISR s = take_bit 24 (xirr s)"
  by (simp add: XISR_def take_bit_eq_mask mask_eq_exp_minus_1)

lemma xirr_set: "xirr (set_XISR v s) = (xirr s AND NOT (mask 24)) OR v" "xirr (set_CPPR v s) = (xirr s AND mask 24) OR v"
  unfolding set_XISR_def set_CPPR_def xirr_masks bit.double_compl by (cases s; simp only: icp_server_state.update_convs icp_server_state.select_convs)+

lemma XISR_set_XISR [simp]: "XISR (set_XISR v s) = take_bit 24 v"
  by (simp only: XISR_take xirr_set low_part)

lemma CPPR_set_XISR [simp]: "take_bit 24 v = v \<Longrightarrow> CPPR (set_XISR v s) = CPPR s"
proof -
  assume "take_bit 24 v = v"
  then have "drop_bit 24 v = 0" by (metis drop_bit_take_bit diff_self_eq_0 take_bit_0)
  then show ?thesis by (simp only: CPPR_def xirr_set high_part or.right_neutral)
qed

lemma XISR_set_CPPR [simp]: "take_bit 24 b = 0 \<Longrightarrow> XISR (set_CPPR b s) = XISR s"
  by (simp only: XISR_take xirr_set low_part' or.right_neutral)

lemma CPPR_set_CPPR [simp]: "CPPR (set_CPPR b s) = ucast (drop_bit 24 b)"
  by (simp only: CPPR_def xirr_set high_part')

lemma prio_bits [simp]: "take_bit 24 (push_bit 24 w) = (0 :: u32)" "ucast (drop_bit 24 (push_bit 24 (ucast p) :: u32)) = (p :: u8)"
  by (rule bit_word_eqI; auto simp: bit_simps)+

lemma eoi_bits [simp]: "take_bit 24 (v AND 0xff000000) = (0 :: u32)" "drop_bit 24 (v AND 0xff000000) = (drop_bit 24 v :: u32)"
  unfolding xirr_masks by (rule bit_word_eqI; auto simp: bit_simps dest: bit_imp_le_length)+

lemma server_fields [simp]:
  "mfrr (set_XISR v s) = mfrr s" "mfrr (set_CPPR b s) = mfrr s" "pending_priority (set_XISR v s) = pending_priority s"
  "pending_priority (set_CPPR b s) = pending_priority s" "cpu_line (set_XISR v s) = cpu_line s" "cpu_line (set_CPPR b s) = cpu_line s"
  by (simp_all add: set_XISR_def set_CPPR_def)

lemma XISR_update [simp]:
  "XISR (s\<lparr>pending_priority := p\<rparr>) = XISR s" "XISR (s\<lparr>cpu_line := l\<rparr>) = XISR s" "XISR (s\<lparr>mfrr := m\<rparr>) = XISR s"
  "CPPR (s\<lparr>pending_priority := p\<rparr>) = CPPR s" "CPPR (s\<lparr>cpu_line := l\<rparr>) = CPPR s" "CPPR (s\<lparr>mfrr := m\<rparr>) = CPPR s"
  by (simp_all add: XISR_def CPPR_def)

lemma accepted_bits [simp]:
  "XISR (s\<lparr>xirr := push_bit 24 (ucast p)\<rparr>) = 0" "CPPR (s\<lparr>xirr := push_bit 24 (ucast (p :: u8))\<rparr>) = p"
  by (simp_all add: XISR_take CPPR_def)

lemma nr_bits:
  assumes "nr < 2 ^ 24"
  shows "take_bit 24 (of_nat nr :: u32) = of_nat nr" "(of_nat nr :: u32) AND XISR_MASK = of_nat nr" "unat (of_nat nr :: u32) = nr"
proof -
  show u: "unat (of_nat nr :: u32) = nr" using assms by (simp add: unat_of_nat)
  show t: "take_bit 24 (of_nat nr :: u32) = of_nat nr"
    by (simp add: word_unat_eq_iff unsigned_take_bit_eq u) (use assms in \<open>simp add: take_bit_nat_eq_self\<close>)
  show "(of_nat nr :: u32) AND XISR_MASK = of_nat nr" using t by (simp only: xirr_masks take_bit_eq_mask)
qed

section \<open>The invariant\<close>

text \<open>
  A source is live while its interrupt is held back because it is masked, or waits unmasked to be presented, or is presented to a processor. It is fairly treated when it waits only behind something at least as urgent.
\<close>

definition presented :: "xics_state \<Rightarrow> nat \<Rightarrow> bool" where
  "presented x i \<longleftrightarrow> (\<exists>n < length (ss x). XISR (ss x ! n) = of_nat (i + XICS_IRQ_OFFSET))"

definition live :: "xics_state \<Rightarrow> nat \<Rightarrow> bool" where
  "live x i \<longleftrightarrow> i < length (irqs x) \<and>
     (masked_pending (irqs x ! i) \<or> priority (irqs x ! i) \<noteq> 0xff \<and> (rejected (irqs x ! i) \<or> presented x i))"

definition fair_src :: "xics_state \<Rightarrow> nat \<Rightarrow> bool" where
  "fair_src x i \<longleftrightarrow> (let q = irqs x ! i; s = ss x ! server q in
     i < length (irqs x) \<and> rejected q \<and> priority q \<noteq> 0xff \<longrightarrow> CPPR s \<le> priority q \<or> XISR s \<noteq> 0 \<and> pending_priority s \<le> priority q)"

definition server_ok :: "xics_state \<Rightarrow> nat \<Rightarrow> bool" where
  "server_ok x n \<longleftrightarrow> (let s = ss x ! n in
     cpu_line s = (XISR s \<noteq> 0) \<and> (XISR s \<noteq> 0 \<longrightarrow> pending_priority s < CPPR s) \<and>
     (XISR s \<noteq> 0 \<and> XISR s \<noteq> XICS_IPI \<longrightarrow> (\<exists>i < length (irqs x). XISR s = of_nat (i + XICS_IRQ_OFFSET) \<and>
        server (irqs x ! i) = n \<and> priority (irqs x ! i) = pending_priority s)))"

definition ipi_ok :: "xics_state \<Rightarrow> nat \<Rightarrow> bool" where
  "ipi_ok x n \<longleftrightarrow> (let s = ss x ! n in n < length (ss x) \<and> mfrr s < CPPR s \<longrightarrow> XISR s \<noteq> 0 \<and> pending_priority s \<le> mfrr s)"

definition no_ipi :: "xics_state \<Rightarrow> bool" where
  "no_ipi x \<longleftrightarrow> (\<forall>s \<in> set (ss x). XISR s \<noteq> XICS_IPI \<and> mfrr s = 0xff)"

definition xics_inv :: "bool \<Rightarrow> nat set \<Rightarrow> nat set \<Rightarrow> nat set \<Rightarrow> xics_state \<Rightarrow> bool" where
  "xics_inv U M K L x \<longleftrightarrow> length (irqs x) \<le> XICS_NUM_IRQS \<and> (\<forall>i < length (irqs x). server (irqs x ! i) < length (ss x)) \<and>
     (\<forall>n < length (ss x). server_ok x n) \<and> (\<forall>n \<in> M. ipi_ok x n) \<and> (\<forall>i \<in> K. fair_src x i) \<and> (\<forall>i \<in> L. live x i) \<and> (U \<or> no_ipi x)"

text \<open>The outcome of a step: \<open>Q\<close> holds, or an interrupt between processors was rejected, which is possible only when these are used.\<close>

definition good :: "bool \<Rightarrow> (xics_state \<Rightarrow> bool) \<Rightarrow> xics_state result \<Rightarrow> bool" where
  "good U Q r \<longleftrightarrow> (case r of Inl e \<Rightarrow> e = OutOfBounds \<and> U | Inr x \<Rightarrow> Q x)"

lemma good_simps [simp]: "good U Q (Inr x) \<longleftrightarrow> Q x" "good U Q (Inl e) \<longleftrightarrow> e = OutOfBounds \<and> U"
  by (simp_all add: good_def)

lemma good_bind: "good U P r \<Longrightarrow> (\<And>x. P x \<Longrightarrow> good U Q (f x)) \<Longrightarrow> good U Q (rbind r f)"
  by (cases r) simp_all

lemma invD:
  assumes "xics_inv U M K L x"
  shows "i < length (irqs x) \<Longrightarrow> i + XICS_IRQ_OFFSET < 2 ^ 24" "i < length (irqs x) \<Longrightarrow> server (irqs x ! i) < length (ss x)"
    "n < length (ss x) \<Longrightarrow> server_ok x n"
  using assms by (auto simp: xics_inv_def)

definition displaced :: "nat \<Rightarrow> icp_server_state \<Rightarrow> xics_state \<Rightarrow> xics_state \<Rightarrow> bool" where
  "displaced n s x x1 \<longleftrightarrow> ss x1 = ss x \<and> length (irqs x1) = length (irqs x) \<and>
     (\<forall>j < length (irqs x). irqs x1 ! j = irqs x ! j \<or>
        irqs x1 ! j = (irqs x ! j)\<lparr>rejected := True\<rparr> \<and> server (irqs x ! j) = n \<and> priority (irqs x ! j) = pending_priority s \<and> XISR s \<noteq> 0) \<and>
     (\<forall>j < length (irqs x). XISR s = of_nat (j + XICS_IRQ_OFFSET) \<longrightarrow> rejected (irqs x1 ! j))"

lemma nr_inject: "i + XICS_IRQ_OFFSET < 2 ^ 24 \<Longrightarrow> j + XICS_IRQ_OFFSET < 2 ^ 24 \<Longrightarrow>
    (of_nat (i + XICS_IRQ_OFFSET) :: u32) = of_nat (j + XICS_IRQ_OFFSET) \<longleftrightarrow> i = j"
  using nr_bits(3) by (metis add_right_imp_eq)

lemma nr_not_ipi: "i + XICS_IRQ_OFFSET < 2 ^ 24 \<Longrightarrow> (of_nat (i + XICS_IRQ_OFFSET) :: u32) \<noteq> 2 \<and> (of_nat (i + XICS_IRQ_OFFSET) :: u32) \<noteq> 0"
  using nr_bits(3) [of "i + XICS_IRQ_OFFSET"] by (auto simp: word_unat_eq_iff)

lemma reject_pending_ok:
  assumes "xics_inv U M K L x" and "n < length (ss x)" and "s = ss x ! n"
  shows "good U (displaced n s x) (reject_pending s x)"
proof (cases "XISR s = 0")
  case True
  have "XISR s \<noteq> of_nat (j + XICS_IRQ_OFFSET)" if "j < length (irqs x)" for j
    using nr_not_ipi invD(1) [OF assms(1) that] True by auto
  then show ?thesis using True by (auto simp: reject_pending_def displaced_def)
next
  case False
  show ?thesis
  proof (cases "XISR s = XICS_IPI")
    case True
    then have "s \<in> set (ss x)" "XISR s = XICS_IPI" using assms(2,3) by simp_all
    then have U using assms(1) by (auto simp: xics_inv_def no_ipi_def)
    then show ?thesis using True by (simp add: reject_pending_def ics_reject_def)
  next
    case irq: False
    then obtain i where i: "i < length (irqs x)" "XISR s = of_nat (i + XICS_IRQ_OFFSET)" "server (irqs x ! i) = n"
      "priority (irqs x ! i) = pending_priority s"
      using invD(3) [OF assms(1,2)] False assms(3) by (auto simp: server_ok_def Let_def)
    have u: "unat (XISR s) = i + XICS_IRQ_OFFSET" using nr_bits(3) [OF invD(1) [OF assms(1) i(1)]] i(2) by simp
    have "j = i" if "j < length (irqs x)" "XISR s = of_nat (j + XICS_IRQ_OFFSET)" for j
      using nr_inject [OF invD(1) [OF assms(1) i(1)] invD(1) [OF assms(1) that(1)]] i(2) that(2) by simp
    then show ?thesis
      using False i u by (auto simp: reject_pending_def ics_reject_def aget_def displaced_def put_irq_def nth_list_update)
  qed
qed

lemma prio_max: "(p :: u8) \<le> 0xff"
  using unsigned_less [of p, where 'a = nat] by (simp add: word_le_nat_alt)

lemma displaced_fields:
  assumes "displaced n s x x1" and "j < length (irqs x)"
  shows "server (irqs x1 ! j) = server (irqs x ! j)" "priority (irqs x1 ! j) = priority (irqs x ! j)"
    "masked_pending (irqs x1 ! j) = masked_pending (irqs x ! j)" "rejected (irqs x ! j) \<Longrightarrow> rejected (irqs x1 ! j)"
  using assms by (auto simp: displaced_def)

lemma present_ok:
  assumes inv: "xics_inv U M K L x" and n: "n < length (ss x)" and s: "s = ss x ! n" and d: "displaced n s x x1"
    and s': "CPPR s' = CPPR s" "mfrr s' = mfrr s" "cpu_line s'" "pending_priority s' < CPPR s" "XISR s \<noteq> 0 \<Longrightarrow> pending_priority s' < pending_priority s"
      "mfrr s < CPPR s \<Longrightarrow> pending_priority s' \<le> mfrr s"
    and v: "XISR s' = XICS_IPI \<and> U \<or> (\<exists>i < length (irqs x). XISR s' = of_nat (i + XICS_IRQ_OFFSET) \<and> server (irqs x ! i) = n \<and> priority (irqs x ! i) = pending_priority s')"
  shows "xics_inv U (insert n M) (K \<union> {i. XISR s' = of_nat (i + XICS_IRQ_OFFSET) \<and> i < length (irqs x)})
    (L \<union> {i. XISR s' = of_nat (i + XICS_IRQ_OFFSET) \<and> i < length (irqs x)}) (put_ss n s' x1)"
proof -
  let ?x2 = "put_ss n s' x1"
  have ss2: "ss ?x2 = (ss x)[n := s']" "irqs ?x2 = irqs x1" "length (irqs x1) = length (irqs x)" using d by (simp_all add: put_ss_def displaced_def)
  have v0: "XISR s' \<noteq> 0" using v nr_not_ipi invD(1) [OF inv] by auto
  note df = displaced_fields [OF d]
  have fair: "fair_src ?x2 j" if "j \<in> K \<or> (server (irqs x ! j) = n \<and> pending_priority s' \<le> priority (irqs x ! j))" for j
  proof (cases "j < length (irqs x)")
    case True
    consider (same) "irqs x1 ! j = irqs x ! j" | (new) "server (irqs x ! j) = n" "priority (irqs x ! j) = pending_priority s" "XISR s \<noteq> 0"
      using d True by (auto simp: displaced_def)
    then show ?thesis
    proof cases
      case new
      then have "pending_priority s' \<le> priority (irqs x ! j)" using s'(5) by simp
      then show ?thesis using new(1) True n v0 ss2 df by (simp add: fair_src_def Let_def)
    next
      case same
      show ?thesis
      proof (cases "server (irqs x ! j) = n")
        case True
        have "fair_src x j \<or> pending_priority s' \<le> priority (irqs x ! j)" using that inv by (auto simp: xics_inv_def)
        then have "rejected (irqs x ! j) \<and> priority (irqs x ! j) \<noteq> 0xff \<longrightarrow> CPPR s \<le> priority (irqs x ! j) \<or> pending_priority s' \<le> priority (irqs x ! j)"
          using True s \<open>j < length (irqs x)\<close> order.strict_implies_order [OF s'(5)] by (auto simp: fair_src_def Let_def intro: order_trans)
        then show ?thesis using True same n v0 ss2 s'(1) \<open>j < length (irqs x)\<close> by (auto simp: fair_src_def Let_def)
      next
        case False
        then show ?thesis
          using that same ss2 inv \<open>j < length (irqs x)\<close> by (auto simp: fair_src_def Let_def xics_inv_def)
      qed
    qed
  qed (simp add: fair_src_def ss2 Let_def)
  have who: "server (irqs x ! j) = n \<and> priority (irqs x ! j) = pending_priority s'" if "XISR s' = of_nat (j + XICS_IRQ_OFFSET)" "j < length (irqs x)" for j
    using v that nr_inject invD(1) [OF inv] nr_not_ipi by metis
  have unmasked: "pending_priority s' \<noteq> 0xff" using s'(4) prio_max [of "CPPR s"] by auto
  have live: "live ?x2 j" if "live x j \<or> XISR s' = of_nat (j + XICS_IRQ_OFFSET) \<and> j < length (irqs x)" for j
  proof -
    have j: "j < length (irqs x)" using that by (auto simp: live_def)
    have pr: "masked_pending (irqs x ! j) \<or> priority (irqs x ! j) \<noteq> 0xff" using that who [of j] unmasked by (auto simp: live_def)
    note lj = that
    consider "rejected (irqs x ! j)" | "masked_pending (irqs x ! j)" | m where "m < length (ss x)" "m \<noteq> n" "XISR (ss x ! m) = of_nat (j + XICS_IRQ_OFFSET)"
      | "XISR s = of_nat (j + XICS_IRQ_OFFSET)" | "XISR s' = of_nat (j + XICS_IRQ_OFFSET)"
      using lj s by (auto simp: live_def presented_def)
    then show ?thesis
    proof cases
      case 3
      then have "presented ?x2 j" unfolding presented_def ss2 using n by (intro exI [of _ m]) auto
      then show ?thesis using pr j ss2 df by (auto simp: live_def)
    next
      case 4
      then have "rejected (irqs ?x2 ! j)" using j ss2 d by (simp add: displaced_def)
      then show ?thesis using pr j ss2 df by (auto simp: live_def)
    next
      case 5
      then have "presented ?x2 j" unfolding presented_def ss2 using n by (intro exI [of _ n]) auto
      then show ?thesis using pr j ss2 df by (auto simp: live_def)
    qed (use pr j ss2 df in \<open>auto simp: live_def\<close>)
  qed
  have srv: "server_ok ?x2 m" if "m < length (ss x)" for m
  proof (cases "m = n")
    case True
    then show ?thesis using n ss2 s' v v0 df by (auto simp: server_ok_def Let_def)
  next
    case False
    then show ?thesis using that ss2 df invD(3) [OF inv that] by (fastforce simp: server_ok_def Let_def)
  qed
  have ipi: "ipi_ok ?x2 m" if "m \<in> insert n M" for m
    using that ss2 n s'(1,2,6) v0 inv by (cases "m = n") (auto simp: ipi_ok_def Let_def xics_inv_def)
  have "U \<or> no_ipi ?x2"
  proof (cases U)
    case False
    then have "no_ipi x" "XISR s' \<noteq> XICS_IPI" using inv v nr_not_ipi invD(1) [OF inv] by (auto simp: xics_inv_def)
    then show ?thesis using ss2(1) s'(2) s n by (auto simp: no_ipi_def dest!: set_update_subset_insert [THEN subsetD])
  qed simp
  moreover have "\<forall>j \<in> K \<union> {i. XISR s' = of_nat (i + XICS_IRQ_OFFSET) \<and> i < length (irqs x)}. fair_src ?x2 j"
  proof
    fix j assume "j \<in> K \<union> {i. XISR s' = of_nat (i + XICS_IRQ_OFFSET) \<and> i < length (irqs x)}"
    then consider "j \<in> K" | "XISR s' = of_nat (j + XICS_IRQ_OFFSET)" "j < length (irqs x)" by auto
    then show "fair_src ?x2 j"
    proof cases
      case 2
      note who [OF this]
      then show ?thesis using fair [of j] by simp
    qed (rule fair, simp)
  qed
  ultimately show ?thesis
    using inv ss2 df live srv ipi unfolding xics_inv_def by auto
qed

lemma xics_inv_mono: "xics_inv U M K L x \<Longrightarrow> M' \<subseteq> M \<Longrightarrow> K' \<subseteq> K \<Longrightarrow> L' \<subseteq> L \<Longrightarrow> xics_inv U M' K' L' x"
  by (auto simp: xics_inv_def)

lemma good_mono: "good U P r \<Longrightarrow> (\<And>x. P x \<Longrightarrow> Q x) \<Longrightarrow> good U Q r"
  by (cases r) simp_all

lemma put_irq_ok:
  assumes "xics_inv U M K L x" and "i < length (irqs x)" and "q = irqs x ! i" and "server q' = server q" and "priority q' = priority q"
    and "K' \<subseteq> insert i K" and "i \<in> K' \<Longrightarrow> fair_src (put_irq i q' x) i" and "L' \<subseteq> insert i L" and "i \<in> L' \<Longrightarrow> live (put_irq i q' x) i"
  shows "xics_inv U M K' L' (put_irq i q' x)"
proof -
  let ?x = "put_irq i q' x"
  have irq: "irqs ?x ! j = (if j = i then q' else irqs x ! j)" "length (irqs ?x) = length (irqs x)" "ss ?x = ss x" for j
    using assms(2) by (simp_all add: put_irq_def nth_list_update)
  have same: "server (irqs ?x ! j) = server (irqs x ! j)" "priority (irqs ?x ! j) = priority (irqs x ! j)" for j
    using assms(3-5) by (simp_all add: irq)
  have "fair_src ?x j" if "j \<in> K'" for j
    using that assms(1,6,7) by (cases "j = i") (auto simp: fair_src_def irq Let_def xics_inv_def)
  moreover have "live ?x j" if "j \<in> L'" for j
    using that assms(1,8,9) by (cases "j = i") (auto simp: live_def irq presented_def xics_inv_def)
  moreover have "server_ok ?x n" if "n < length (ss x)" for n
    using invD(3) [OF assms(1) that] by (simp add: server_ok_def irq(2,3) same Let_def)
  moreover have "ipi_ok ?x n" if "n \<in> M" for n
    using that assms(1) by (auto simp: ipi_ok_def irq xics_inv_def)
  ultimately show ?thesis using assms(1) by (simp add: xics_inv_def irq(2,3) same no_ipi_def)
qed

lemma icp_irq_ok:
  assumes inv: "xics_inv U UNIV K L x" and i: "i < length (irqs x)" and q: "q = irqs x ! i" "priority q \<noteq> 0xff"
  shows "good U (xics_inv U UNIV (insert i K) (insert i L)) (icp_irq (server q) (i + XICS_IRQ_OFFSET) (priority q) x)"
proof -
  let ?n = "server q" and ?nr = "of_nat (i + XICS_IRQ_OFFSET) :: u32"
  note nr = nr_bits [OF invD(1) [OF inv i]]
  have n: "?n < length (ss x)" using invD(2) [OF inv i] q(1) by simp
  define s where "s = ss x ! ?n"
  show ?thesis
  proof (cases "CPPR s \<le> priority q \<or> (XISR s \<noteq> 0 \<and> pending_priority s \<le> priority q)")
    case True
    let ?x = "put_irq i (q\<lparr>rejected := True\<rparr>) x"
    have "fair_src ?x i" using True i q s_def by (simp add: fair_src_def Let_def put_irq_def)
    moreover have "live ?x i" using i q by (simp add: live_def put_irq_def)
    ultimately have "xics_inv U UNIV (insert i K) (insert i L) ?x" by (intro put_irq_ok [OF inv i q(1)]) auto
    then show ?thesis using True n i nr(3) q(1) s_def by (simp add: icp_irq_def aget_def ics_reject_def)
  next
    case False
    define s' where "s' = (set_XISR (?nr AND XISR_MASK) s)\<lparr>pending_priority := priority q, cpu_line := True\<rparr>"
    have x': "XISR s' = ?nr" "CPPR s' = CPPR s" using nr(1,2) by (simp_all add: s'_def)
    have ipi: "mfrr s < CPPR s \<Longrightarrow> priority q \<le> mfrr s" using inv False n s_def by (force simp: xics_inv_def ipi_ok_def Let_def)
    have "good U (xics_inv U UNIV (insert i K) (insert i L)) (rbind (reject_pending s x) (\<lambda>x1. Inr (put_ss ?n s' x1)))"
    proof (rule good_bind [OF reject_pending_ok [OF inv n s_def]])
      fix x1 assume "displaced ?n s x x1"
      then have "xics_inv U (insert ?n UNIV) (K \<union> {j. XISR s' = of_nat (j + XICS_IRQ_OFFSET) \<and> j < length (irqs x)})
          (L \<union> {j. XISR s' = of_nat (j + XICS_IRQ_OFFSET) \<and> j < length (irqs x)}) (put_ss ?n s' x1)"
        using False ipi i q x'(1) by (intro present_ok [OF inv n s_def _ x'(2)]) (auto simp: s'_def)
      then show "good U (xics_inv U UNIV (insert i K) (insert i L)) (Inr (put_ss ?n s' x1))"
        using xics_inv_mono [of U _ _ _ "put_ss ?n s' x1" UNIV "insert i K" "insert i L"] x'(1) i by auto
    qed
    moreover have "icp_irq ?n (i + XICS_IRQ_OFFSET) (priority q) x = rbind (reject_pending s x) (\<lambda>x1. Inr (put_ss ?n s' x1))"
      using False n s_def by (auto simp: icp_irq_def aget_def s'_def)
    ultimately show ?thesis by simp
  qed
qed

lemma ics_reject_len: "ics_reject nr x = Inr x' \<Longrightarrow> length (irqs x') = length (irqs x) \<and> length (ss x') = length (ss x)"
  by (auto simp: ics_reject_def aget_def put_irq_def split: if_splits)

lemma icp_irq_len: "icp_irq n nr p x = Inr x' \<Longrightarrow> length (irqs x') = length (irqs x) \<and> length (ss x') = length (ss x)"
  by (auto simp: icp_irq_def aget_def reject_pending_def put_ss_def rbind_def dest: ics_reject_len split: if_splits sum.splits)

lemma good_len:
  assumes "good U P r" and "\<And>x'. r = Inr x' \<Longrightarrow> length (irqs x') = N"
  shows "good U (\<lambda>x. P x \<and> length (irqs x) = N) r"
  using assms by (cases r) simp_all

lemma resend_one_ok:
  assumes inv: "xics_inv U UNIV {..<i} L x" and i: "i < length (irqs x)"
  shows "good U (\<lambda>x'. xics_inv U UNIV {..<Suc i} L x' \<and> length (irqs x') = length (irqs x)) (resend_one i x)"
proof -
  define q where "q = irqs x ! i"
  show ?thesis
  proof (cases "rejected q")
    case False
    then have "fair_src x i" by (simp add: fair_src_def q_def Let_def)
    then have "xics_inv U UNIV {..<Suc i} L x" using inv by (auto simp: xics_inv_def lessThan_Suc)
    then show ?thesis using False i by (simp add: resend_one_def aget_def q_def)
  next
    case True
    let ?x = "put_irq i (q\<lparr>rejected := False\<rparr>) x"
    have len: "length (irqs ?x) = length (irqs x)" "irqs ?x ! i = q\<lparr>rejected := False\<rparr>" using i by (simp_all add: put_irq_def)
    have fair: "fair_src ?x i" by (simp add: fair_src_def len Let_def)
    show ?thesis
    proof (cases "priority q = 0xff")
      case ff: True
      have "live x i \<Longrightarrow> live ?x i" using ff len by (simp add: live_def q_def)
      then have "xics_inv U UNIV {..<Suc i} L ?x"
        using fair inv by (intro put_irq_ok [OF inv i q_def]) (auto simp: xics_inv_def lessThan_Suc)
      then show ?thesis using True ff i len by (simp add: resend_one_def aget_def q_def Let_def)
    next
      case unmasked: False
      have 1: "xics_inv U UNIV {..<i} (L - {i}) ?x" by (intro put_irq_ok [OF inv i q_def]) auto
      have "good U (xics_inv U UNIV (insert i {..<i}) (insert i (L - {i}))) (icp_irq (server q) (i + XICS_IRQ_OFFSET) (priority q) ?x)"
        using icp_irq_ok [OF 1, of i] i len unmasked by simp
      then have "good U (xics_inv U UNIV {..<Suc i} L) (icp_irq (server q) (i + XICS_IRQ_OFFSET) (priority q) ?x)"
        by (rule good_mono) (auto simp: lessThan_Suc intro: xics_inv_mono)
      then have "good U (\<lambda>x'. xics_inv U UNIV {..<Suc i} L x' \<and> length (irqs x') = length (irqs x)) (icp_irq (server q) (i + XICS_IRQ_OFFSET) (priority q) ?x)"
        by (rule good_len) (auto dest: icp_irq_len simp: len)
      then show ?thesis using True unmasked i by (simp add: resend_one_def aget_def q_def Let_def)
    qed
  qed
qed

lemma good_rfold:
  assumes "P 0 x" and "\<And>i x. i < n \<Longrightarrow> P i x \<Longrightarrow> good U (P (Suc i)) (f i x)"
  shows "good U (P n) (rfold f [0..<n] x)"
  using assms(2)
proof (induction n)
  case (Suc n)
  have one: "rfold f [n] y = f n y" for y by (cases "f n y") simp_all
  from Suc have "good U (P n) (rfold f [0..<n] x)" by simp
  then have "good U (P (Suc n)) (rbind (rfold f [0..<n] x) (f n))" by (rule good_bind) (rule Suc.prems, simp_all)
  moreover have "rfold f [0..<Suc n] x = rbind (rfold f [0..<n] x) (f n)"
    using one by (cases "rfold f [0..<n] x") (simp_all add: rfold_append del: rfold.simps(2))
  ultimately show ?case by simp
qed (simp add: assms(1))

lemma ics_resend_ok:
  assumes "xics_inv U UNIV {} L x"
  shows "good U (xics_inv U UNIV UNIV L) (ics_resend x)"
proof -
  have "good U (\<lambda>x'. xics_inv U UNIV {..<length (irqs x)} L x' \<and> length (irqs x') = length (irqs x)) (ics_resend x)"
    unfolding ics_resend_def
  proof (rule good_rfold [where P = "\<lambda>i x'. xics_inv U UNIV {..<i} L x' \<and> length (irqs x') = length (irqs x)"])
    fix i y assume "i < length (irqs x)" "xics_inv U UNIV {..<i} L y \<and> length (irqs y) = length (irqs x)"
    then show "good U (\<lambda>x'. xics_inv U UNIV {..<Suc i} L x' \<and> length (irqs x') = length (irqs x)) (resend_one i y)"
      using resend_one_ok [of U i L y] by simp
  qed (use assms in simp)
  then show ?thesis by (rule good_mono) (auto simp: xics_inv_def fair_src_def Let_def)
qed

section \<open>The operations keep the invariant\<close>

lemma put_ss_ok:
  assumes inv: "xics_inv U M0 K0 L x" and n: "n < length (ss x)" and "s = ss x ! n" and "server_ok (put_ss n s' x) n"
    and "M \<subseteq> insert n M0" and "n \<in> M \<Longrightarrow> ipi_ok (put_ss n s' x) n" and "K \<subseteq> K0"
    and "\<And>i. i \<in> K \<Longrightarrow> i < length (irqs x) \<Longrightarrow> server (irqs x ! i) = n \<Longrightarrow> fair_src (put_ss n s' x) i"
    and "L' \<subseteq> L" and "\<And>i. i \<in> L' \<Longrightarrow> XISR s' = XISR s \<or> XISR s \<noteq> of_nat (i + XICS_IRQ_OFFSET)"
    and "U \<or> XISR s' \<noteq> XICS_IPI \<and> mfrr s' = 0xff"
  shows "xics_inv U M K L' (put_ss n s' x)"
proof -
  let ?x = "put_ss n s' x"
  have x: "irqs ?x = irqs x" "ss ?x = (ss x)[n := s']" by (simp_all add: put_ss_def)
  have "server_ok ?x m" if "m < length (ss x)" for m
    using assms(4) invD(3) [OF inv that] that by (cases "m = n") (simp_all add: server_ok_def x Let_def)
  moreover have "ipi_ok ?x m" if "m \<in> M" for m
    using assms(5,6) that inv by (cases "m = n") (auto simp: ipi_ok_def x Let_def xics_inv_def)
  moreover have "fair_src ?x i" if "i \<in> K" for i
  proof (cases "i < length (irqs x) \<and> server (irqs x ! i) = n")
    case False
    then show ?thesis using that assms(7) inv by (auto simp: fair_src_def x Let_def xics_inv_def)
  qed (use assms(8) that in simp)
  moreover have "live ?x i" if "i \<in> L'" for i
  proof -
    have "live x i" using that assms(9) inv by (auto simp: xics_inv_def)
    moreover have "presented ?x i" if "presented x i"
    proof -
      from that obtain m where m: "m < length (ss x)" "XISR (ss x ! m) = of_nat (i + XICS_IRQ_OFFSET)" by (auto simp: presented_def)
      then have "XISR ((ss x)[n := s'] ! m) = of_nat (i + XICS_IRQ_OFFSET)"
        using assms(3) assms(10) [OF \<open>i \<in> L'\<close>] by (cases "m = n") auto
      then show ?thesis using m(1) by (auto simp: presented_def x)
    qed
    ultimately show ?thesis by (auto simp: live_def x)
  qed
  moreover have "U \<or> no_ipi ?x"
    using assms(11) inv by (auto simp: no_ipi_def x xics_inv_def dest!: set_update_subset_insert [THEN subsetD])
  ultimately show ?thesis using inv by (simp add: xics_inv_def x(1)) (simp add: x(2))
qed

lemma ipi_used: "xics_inv U M K L x \<Longrightarrow> n < length (ss x) \<Longrightarrow> mfrr (ss x ! n) < CPPR (ss x ! n) \<Longrightarrow> U"
  using prio_max [of "CPPR (ss x ! n)"] by (force simp: xics_inv_def no_ipi_def)

lemma check_ipi_ok:
  assumes inv: "xics_inv U (UNIV - {n}) K L x" and n: "n < length (ss x)" and m: "mfrr (ss x ! n) < CPPR (ss x ! n)"
  shows "good U (xics_inv U UNIV K L) (icp_check_ipi n x)"
proof -
  define s where "s = ss x ! n"
  have U by (rule ipi_used [OF inv n m])
  show ?thesis
  proof (cases "XISR s \<noteq> 0 \<and> pending_priority s \<le> mfrr s")
    case True
    then have "ipi_ok x n" by (simp add: ipi_ok_def s_def Let_def)
    then have "xics_inv U UNIV K L x" using inv by (force simp: xics_inv_def)
    then show ?thesis using True n by (simp add: icp_check_ipi_def s_def)
  next
    case False
    define s' where "s' = (set_XISR XICS_IPI s)\<lparr>pending_priority := mfrr s, cpu_line := True\<rparr>"
    have two: "take_bit 24 (2 :: u32) = 2" by (simp add: take_bit_eq_mod)
    have x': "XISR s' = XICS_IPI" "CPPR s' = CPPR s" using two by (simp_all add: s'_def)
    have "good U (xics_inv U UNIV K L) (rbind (reject_pending s x) (\<lambda>x1. Inr (put_ss n s' x1)))"
    proof (rule good_bind [OF reject_pending_ok [OF inv n s_def]])
      fix x1 assume "displaced n s x x1"
      then have "xics_inv U (insert n (UNIV - {n})) (K \<union> {j. XISR s' = of_nat (j + XICS_IRQ_OFFSET) \<and> j < length (irqs x)})
          (L \<union> {j. XISR s' = of_nat (j + XICS_IRQ_OFFSET) \<and> j < length (irqs x)}) (put_ss n s' x1)"
        using False m x'(1) \<open>U\<close> by (intro present_ok [OF inv n s_def _ x'(2)]) (auto simp: s'_def s_def)
      then show "good U (xics_inv U UNIV K L) (Inr (put_ss n s' x1))" unfolding good_simps by (rule xics_inv_mono) auto
    qed
    moreover have "icp_check_ipi n x = rbind (reject_pending s x) (\<lambda>x1. Inr (put_ss n s' x1))"
      using False n s_def by (auto simp: icp_check_ipi_def s'_def)
    ultimately show ?thesis by simp
  qed
qed

lemma icp_resend_ok:
  assumes inv: "xics_inv U (UNIV - {n}) {} L x" and n: "n < length (ss x)"
  shows "good U (xics_inv U UNIV UNIV L) (icp_resend n x)"
proof (cases "mfrr (ss x ! n) < CPPR (ss x ! n)")
  case True
  then show ?thesis using good_bind [OF check_ipi_ok [OF inv n True] ics_resend_ok] n by (simp add: icp_resend_def)
next
  case False
  then have "ipi_ok x n" by (simp add: ipi_ok_def Let_def)
  then have "xics_inv U UNIV {} L x" using inv by (force simp: xics_inv_def)
  then show ?thesis using ics_resend_ok False n by (simp add: icp_resend_def)
qed

lemma server_okD:
  assumes "xics_inv U M K L x" and "n < length (ss x)" and "s = ss x ! n"
  shows "cpu_line s = (XISR s \<noteq> 0)" "XISR s \<noteq> 0 \<Longrightarrow> pending_priority s < CPPR s"
    "XISR s \<noteq> 0 \<Longrightarrow> XISR s \<noteq> XICS_IPI \<Longrightarrow> \<exists>i < length (irqs x). XISR s = of_nat (i + XICS_IRQ_OFFSET) \<and> server (irqs x ! i) = n \<and> priority (irqs x ! i) = pending_priority s"
    "n \<in> M \<Longrightarrow> mfrr s < CPPR s \<Longrightarrow> XISR s \<noteq> 0 \<and> pending_priority s \<le> mfrr s"
    "U \<or> XISR s \<noteq> XICS_IPI \<and> mfrr s = 0xff"
    "i \<in> K \<Longrightarrow> i < length (irqs x) \<Longrightarrow> server (irqs x ! i) = n \<Longrightarrow> rejected (irqs x ! i) \<Longrightarrow> priority (irqs x ! i) \<noteq> 0xff \<Longrightarrow>
       CPPR s \<le> priority (irqs x ! i) \<or> XISR s \<noteq> 0 \<and> pending_priority s \<le> priority (irqs x ! i)"
proof -
  have "server_ok x n" using invD(3) [OF assms(1,2)] .
  then show "cpu_line s = (XISR s \<noteq> 0)" "XISR s \<noteq> 0 \<Longrightarrow> pending_priority s < CPPR s"
    "XISR s \<noteq> 0 \<Longrightarrow> XISR s \<noteq> XICS_IPI \<Longrightarrow> \<exists>i < length (irqs x). XISR s = of_nat (i + XICS_IRQ_OFFSET) \<and> server (irqs x ! i) = n \<and> priority (irqs x ! i) = pending_priority s"
    using assms(3) by (simp_all add: server_ok_def Let_def)
  show "n \<in> M \<Longrightarrow> mfrr s < CPPR s \<Longrightarrow> XISR s \<noteq> 0 \<and> pending_priority s \<le> mfrr s" using assms by (force simp: xics_inv_def ipi_ok_def Let_def)
  show "U \<or> XISR s \<noteq> XICS_IPI \<and> mfrr s = 0xff" using assms by (auto simp: xics_inv_def no_ipi_def)
  show "i \<in> K \<Longrightarrow> i < length (irqs x) \<Longrightarrow> server (irqs x ! i) = n \<Longrightarrow> rejected (irqs x ! i) \<Longrightarrow> priority (irqs x ! i) \<noteq> 0xff \<Longrightarrow>
       CPPR s \<le> priority (irqs x ! i) \<or> XISR s \<noteq> 0 \<and> pending_priority s \<le> priority (irqs x ! i)"
    using assms by (force simp: xics_inv_def fair_src_def Let_def)
qed

lemma put_put_ss [simp]: "put_ss n s' (put_ss n s x) = put_ss n s' x" "irqs (put_ss n s x) = irqs x" "ss (put_ss n s x) = (ss x)[n := s]"
  by (simp_all add: put_ss_def)

text \<open>A new priority of the processor while nothing is presented to it, or while what is presented stays more urgent.\<close>

lemma new_cppr_ok:
  assumes inv: "xics_inv U UNIV UNIV L x" and n: "n < length (ss x)" and s: "s = ss x ! n" and b: "take_bit 24 b = 0"
  shows "XISR s = 0 \<Longrightarrow> good U (xics_inv U UNIV UNIV L) (icp_resend n (put_ss n (set_CPPR b s) x))"
    and "XISR s \<noteq> 0 \<Longrightarrow> pending_priority s < ucast (drop_bit 24 b) \<Longrightarrow> xics_inv U UNIV UNIV L (put_ss n (set_CPPR b s) x)"
    and "XISR s = 0 \<Longrightarrow> ucast (drop_bit 24 b) \<le> CPPR s \<Longrightarrow> xics_inv U UNIV UNIV L (put_ss n (set_CPPR b s) x)"
proof -
  let ?s = "set_CPPR b s" and ?x = "put_ss n (set_CPPR b s) x"
  note so = server_okD [OF inv n s]
  have same: "XISR ?s = XISR s" using b by simp
  have u: "U \<or> XISR ?s \<noteq> XICS_IPI \<and> mfrr ?s = 0xff" using so(5) same by simp
  {
    assume z: "XISR s = 0"
    then have ok: "server_ok ?x n" using n same so(1) by (simp add: server_ok_def)
    have "xics_inv U (UNIV - {n}) {} L ?x" by (rule put_ss_ok [OF inv n s ok]) (use same u in auto)
    from icp_resend_ok [OF this] n show "good U (xics_inv U UNIV UNIV L) (icp_resend n ?x)" by simp
    assume le: "ucast (drop_bit 24 b) \<le> CPPR s"
    show "xics_inv U UNIV UNIV L ?x"
    proof (rule put_ss_ok [OF inv n s ok])
      show "ipi_ok ?x n" using so(4) z le n by (auto simp: ipi_ok_def Let_def dest: order.strict_trans2)
      show "fair_src ?x i" if "i < length (irqs x)" "server (irqs x ! i) = n" for i
        using so(6) [of i] that z le n by (auto simp: fair_src_def Let_def)
    qed (use same u in auto)
  }
  assume nz: "XISR s \<noteq> 0" and lt: "pending_priority s < ucast (drop_bit 24 b)"
  show "xics_inv U UNIV UNIV L ?x"
  proof (rule put_ss_ok [OF inv n s])
    show "server_ok ?x n" using n same so(1,3) nz lt by (auto simp: server_ok_def Let_def)
    have le: "pending_priority s \<le> p" if "CPPR s \<le> p" for p using so(2) [OF nz] that by simp
    have "pending_priority s \<le> mfrr s" using so(4) le [of "mfrr s"] by (cases "mfrr s < CPPR s") (auto simp: not_less)
    then show "ipi_ok ?x n" using nz same n by (simp add: ipi_ok_def Let_def)
    show "fair_src ?x i" if "i < length (irqs x)" "server (irqs x ! i) = n" for i
      using so(6) [of i] le nz same n that by (auto simp: fair_src_def Let_def)
  qed (use same u in auto)
qed

lemma icp_set_cppr_ok:
  assumes inv: "xics_inv U UNIV UNIV L x" and n: "n < length (ss x)"
  shows "good U (xics_inv U UNIV UNIV L) (icp_set_cppr n c x)"
proof -
  define s where "s = ss x ! n"
  define s1 where "s1 = set_CPPR (push_bit 24 (ucast c)) s"
  note so = server_okD [OF inv n s_def]
  note new = new_cppr_ok [OF inv n s_def prio_bits(1), of "ucast c", folded s1_def, unfolded prio_bits(2)]
  have same: "XISR s1 = XISR s" "pending_priority s1 = pending_priority s" "CPPR s1 = c" by (simp_all add: s1_def)
  show ?thesis
  proof (cases "c < CPPR s \<and> XISR s \<noteq> 0 \<and> c \<le> pending_priority s")
    case False
    then show ?thesis using new n same so(2) by (auto simp: icp_set_cppr_def Let_def s1_def [symmetric] s_def [symmetric] not_less not_le dest: order.strict_trans2)
  next
    case True
    define s2 where "s2 = (set_XISR 0 s1)\<lparr>cpu_line := False\<rparr>"
    let ?x = "put_ss n s2 x"
    have s2: "XISR s2 = 0" "CPPR s2 = c" "mfrr s2 = mfrr s" "\<not> cpu_line s2" by (simp_all add: s2_def same(3) s1_def)
    have run: "icp_set_cppr n c x = ics_reject (XISR s) ?x"
      using True n same by (auto simp: icp_set_cppr_def Let_def s1_def [symmetric] s_def [symmetric] s2_def)
    have fair: "fair_src ?x i" if "i < length (irqs x)" "server (irqs x ! i) = n" for i
      using so(6) [of i] that True n s2 by (auto simp: fair_src_def Let_def)
    have x: "xics_inv U UNIV UNIV (L - {i. XISR s = of_nat (i + XICS_IRQ_OFFSET)}) ?x"
    proof (rule put_ss_ok [OF inv n s_def])
      show "server_ok ?x n" using n s2 by (simp add: server_ok_def Let_def)
      have "\<not> mfrr s < c" using so(4) True by (metis UNIV_I leD order.strict_trans order.strict_trans2)
      then show "ipi_ok ?x n" using s2 n by (simp add: ipi_ok_def Let_def)
    qed (use so(5) s2 fair in auto)
    show ?thesis
    proof (cases "XISR s = XICS_IPI")
      case ipi: True
      then show ?thesis using so(5) by (simp add: run ics_reject_def)
    next
      case False
      then obtain i where i: "i < length (irqs x)" "XISR s = of_nat (i + XICS_IRQ_OFFSET)" "server (irqs x ! i) = n" "priority (irqs x ! i) = pending_priority s"
        using so(3) True by auto
      let ?q = "irqs x ! i"
      have uniq: "j = i" if "j \<in> L" "XISR s = of_nat (j + XICS_IRQ_OFFSET)" for j
      proof -
        have "j < length (irqs x)" using that(1) inv by (simp add: live_def xics_inv_def)
        from nr_inject [OF invD(1) [OF inv this] invD(1) [OF inv i(1)]] show ?thesis using that(2) i(2) by metis
      qed
      have "priority ?q \<noteq> 0xff" using so(2) True i(4) prio_max [of "CPPR s"] by auto
      then have "live (put_irq i (?q\<lparr>rejected := True\<rparr>) ?x) i" using i(1) by (simp add: live_def put_irq_def)
      moreover have "fair_src (put_irq i (?q\<lparr>rejected := True\<rparr>) ?x) i" using i n s2 True by (simp add: fair_src_def put_irq_def Let_def)
      ultimately have "xics_inv U UNIV UNIV L (put_irq i (?q\<lparr>rejected := True\<rparr>) ?x)"
        using i(1) uniq by (intro put_irq_ok [OF x, of i ?q]) auto
      moreover have "unat (XISR s) = i + XICS_IRQ_OFFSET" using nr_bits(3) [OF invD(1) [OF inv i(1)]] i(2) by simp
      ultimately show ?thesis using i(1) by (simp add: run ics_reject_def)
    qed
  qed
qed

lemma icp_set_mfrr_ok:
  assumes inv: "xics_inv U UNIV UNIV L x" and n: "n < length (ss x)" and u: "U \<or> m = 0xff"
  shows "good U (xics_inv U UNIV UNIV L) (icp_set_mfrr n m x)"
proof -
  define s where "s = ss x ! n"
  let ?x = "put_ss n (s\<lparr>mfrr := m\<rparr>) x"
  note so = server_okD [OF inv n s_def]
  have x: "xics_inv U (UNIV - {n}) UNIV L ?x"
  proof (rule put_ss_ok [OF inv n s_def])
    show "server_ok ?x n" using invD(3) [OF inv n] n by (auto simp: server_ok_def Let_def s_def)
    show "fair_src ?x i" if "i < length (irqs x)" "server (irqs x ! i) = n" for i
      using so(6) [of i] that n by (auto simp: fair_src_def Let_def)
  qed (use so(5) u in auto)
  show ?thesis
  proof (cases "m < CPPR s")
    case True
    then show ?thesis using check_ipi_ok [OF x] n by (simp add: icp_set_mfrr_def s_def Let_def)
  next
    case False
    then have "ipi_ok ?x n" using n by (simp add: ipi_ok_def Let_def)
    then have "xics_inv U UNIV UNIV L ?x" using x unfolding xics_inv_def by blast
    then show ?thesis using False n by (simp add: icp_set_mfrr_def s_def Let_def)
  qed
qed

lemma icp_accept_ok:
  assumes inv: "xics_inv U UNIV UNIV L x" and n: "n < length (ss x)" and nz: "XISR (ss x ! n) \<noteq> 0"
  shows "\<exists>x'. icp_accept n x = Inr (xirr (ss x ! n), x') \<and> xics_inv U UNIV UNIV (L - {i. XISR (ss x ! n) = of_nat (i + XICS_IRQ_OFFSET)}) x'"
proof -
  define s where "s = ss x ! n"
  note so = server_okD [OF inv n s_def]
  define s' where "s' = s\<lparr>cpu_line := False, xirr := push_bit 24 (ucast (pending_priority s))\<rparr>"
  have s': "XISR s' = 0" "CPPR s' = pending_priority s" "mfrr s' = mfrr s" "\<not> cpu_line s'" by (simp_all add: s'_def)
  have lt: "pending_priority s < CPPR s" using so(2) nz s_def by simp
  have "xics_inv U UNIV UNIV (L - {i. XISR s = of_nat (i + XICS_IRQ_OFFSET)}) (put_ss n s' x)"
  proof (rule put_ss_ok [OF inv n s_def])
    show "server_ok (put_ss n s' x) n" using n s' by (simp add: server_ok_def Let_def)
    have "\<not> mfrr s < pending_priority s" using so(4) lt by (metis UNIV_I leD order.strict_trans)
    then show "ipi_ok (put_ss n s' x) n" using s' n by (simp add: ipi_ok_def Let_def)
    show "fair_src (put_ss n s' x) i" if "i < length (irqs x)" "server (irqs x ! i) = n" for i
      using so(6) [of i] that lt s' n by (auto simp: fair_src_def Let_def)
  qed (use so(5) s' in auto)
  then show ?thesis using n by (simp add: icp_accept_def s_def s'_def)
qed

lemma icp_eoi_ok:
  assumes inv: "xics_inv U UNIV UNIV L x" and n: "n < length (ss x)" and "XISR (ss x ! n) \<noteq> 0 \<longrightarrow> pending_priority (ss x ! n) < ucast (drop_bit 24 v)"
  shows "good U (xics_inv U UNIV UNIV L) (icp_eoi n v x)"
  using new_cppr_ok(1,2) [OF inv n refl eoi_bits(1), of v, unfolded eoi_bits(2)] assms(3) n by (auto simp: icp_eoi_def Let_def)

lemma ics_set_irq_msi_ok:
  assumes inv: "xics_inv U UNIV UNIV L x" and i: "i < length (irqs x)"
  shows "good U (xics_inv U UNIV UNIV (if val then insert i L else L)) (ics_set_irq_msi i val x)"
proof (cases val)
  case True
  define q where "q = irqs x ! i"
  show ?thesis
  proof (cases "priority q = 0xff")
    case ff: True
    let ?x = "put_irq i (q\<lparr>masked_pending := True\<rparr>) x"
    have "fair_src ?x i" "live ?x i" using ff i by (simp_all add: fair_src_def live_def put_irq_def Let_def)
    then have "xics_inv U UNIV UNIV (insert i L) ?x" by (intro put_irq_ok [OF inv i q_def]) auto
    then show ?thesis using True ff i by (simp add: ics_set_irq_msi_def q_def)
  next
    case False
    then show ?thesis using icp_irq_ok [OF inv i q_def] True i by (simp add: ics_set_irq_msi_def q_def)
  qed
qed (use inv in \<open>simp add: ics_set_irq_msi_def\<close>)

lemma ics_write_xive_msi_ok:
  assumes inv: "xics_inv U UNIV UNIV L x" and i: "i < length (irqs x)" and n: "n < length (ss x)" and idle: "\<not> rejected (irqs x ! i)" "\<not> presented x i"
  shows "good U (xics_inv U UNIV UNIV L) (ics_write_xive_msi (i + XICS_IRQ_OFFSET) n p x)"
proof -
  define q where "q = irqs x ! i"
  have put: "xics_inv U UNIV UNIV L' (put_irq i q' x)"
    if q': "server q' = n" "\<not> rejected q'" and L': "L' \<subseteq> L" "i \<in> L' \<Longrightarrow> masked_pending q'" for q' L'
  proof -
    let ?x = "put_irq i q' x"
    have irq: "irqs ?x ! j = (if j = i then q' else irqs x ! j)" "length (irqs ?x) = length (irqs x)" "ss ?x = ss x" for j
      using i by (simp_all add: put_irq_def nth_list_update)
    have "fair_src ?x j" for j using inv q'(2) by (cases "j = i") (auto simp: fair_src_def irq Let_def xics_inv_def)
    moreover have "live ?x j" if "j \<in> L'" for j
      using that inv L' i by (cases "j = i") (auto simp: live_def irq presented_def xics_inv_def)
    moreover have "server_ok ?x m" if "m < length (ss x)" for m
    proof -
      have "XISR (ss x ! m) \<noteq> of_nat (i + XICS_IRQ_OFFSET)" using idle(2) that by (auto simp: presented_def)
      then have "XISR (ss x ! m) = of_nat (j + XICS_IRQ_OFFSET) \<Longrightarrow> irqs ?x ! j = irqs x ! j" for j using irq(1) [of j] by auto
      then show ?thesis using invD(3) [OF inv that] unfolding server_ok_def irq(2,3) by (auto simp: Let_def)
    qed
    moreover have "ipi_ok ?x m" for m using inv by (simp add: xics_inv_def ipi_ok_def irq)
    moreover have "server (irqs ?x ! j) < length (ss x)" if "j < length (irqs x)" for j
      using invD(2) [OF inv that] q'(1) n by (simp add: irq)
    ultimately show ?thesis using inv by (simp add: xics_inv_def irq(2,3) no_ipi_def)
  qed
  show ?thesis
  proof (cases "masked_pending q \<and> p \<noteq> 0xff")
    case False
    have "i \<in> L \<Longrightarrow> masked_pending q" using inv idle by (auto simp: xics_inv_def live_def q_def)
    then have "xics_inv U UNIV UNIV L (put_irq i (q\<lparr>server := n, priority := p\<rparr>) x)" using idle(1) by (intro put) (simp_all add: q_def)
    then show ?thesis using False i by (auto simp: ics_write_xive_msi_def q_def Let_def)
  next
    case True
    let ?q = "q\<lparr>server := n, priority := p, masked_pending := False\<rparr>"
    have x: "xics_inv U UNIV UNIV (L - {i}) (put_irq i ?q x)" using idle(1) by (intro put) (auto simp: q_def)
    have "good U (xics_inv U UNIV (insert i UNIV) (insert i (L - {i}))) (icp_irq n (i + XICS_IRQ_OFFSET) p (put_irq i ?q x))"
      using icp_irq_ok [OF x, of i ?q] i True by (simp add: put_irq_def)
    then have "good U (xics_inv U UNIV UNIV L) (icp_irq n (i + XICS_IRQ_OFFSET) p (put_irq i ?q x))"
      by (rule good_mono) (auto intro: xics_inv_mono)
    then show ?thesis using True i by (simp add: ics_write_xive_msi_def q_def Let_def)
  qed
qed

section \<open>Steps\<close>

datatype xics_op =
    IrqLine nat bool
  | Cppr nat u8
  | Mfrr nat u8
  | Accept nat
  | Eoi nat u32
  | SetXive nat nat u8

definition xics_step :: "xics_op \<Rightarrow> xics_state \<Rightarrow> xics_state result" where
  "xics_step op x = (case op of
     IrqLine i level \<Rightarrow> kvm_irq_line (int (i + XICS_IRQ_OFFSET)) level x
   | Cppr n c \<Rightarrow> icp_set_cppr n c x
   | Mfrr n m \<Rightarrow> icp_set_mfrr n m x
   | Accept n \<Rightarrow> rbind (icp_accept n x) (\<lambda>(v, x'). Inr x')
   | Eoi n v \<Rightarrow> icp_eoi n v x
   | SetXive i n p \<Rightarrow> ics_write_xive_msi (i + XICS_IRQ_OFFSET) n p x)"

text \<open>
  What a guest does that keeps to the rules: it accepts only an interrupt that is presented, ends one with a priority that does not shut out what is presented
  by then, and moves a source only while it is idle. \<open>U\<close>: interrupts between processors are used.
\<close>

definition allowed :: "bool \<Rightarrow> xics_op \<Rightarrow> xics_state \<Rightarrow> bool" where
  "allowed U op x = (case op of
     IrqLine i level \<Rightarrow> i < length (irqs x)
   | Cppr n c \<Rightarrow> n < length (ss x)
   | Mfrr n m \<Rightarrow> n < length (ss x) \<and> (U \<or> m = 0xff)
   | Accept n \<Rightarrow> n < length (ss x) \<and> XISR (ss x ! n) \<noteq> 0
   | Eoi n v \<Rightarrow> n < length (ss x) \<and> (XISR (ss x ! n) \<noteq> 0 \<longrightarrow> pending_priority (ss x ! n) < ucast (drop_bit 24 v))
   | SetXive i n p \<Rightarrow> i < length (irqs x) \<and> n < length (ss x) \<and> \<not> rejected (irqs x ! i) \<and> \<not> presented x i)"

text \<open>The sources that have raised an interrupt which the guest has not taken.\<close>

definition outstanding :: "xics_op \<Rightarrow> xics_state \<Rightarrow> nat set \<Rightarrow> nat set" where
  "outstanding op x L = (case op of
     IrqLine i level \<Rightarrow> if level then insert i L else L
   | Accept n \<Rightarrow> L - {i. XISR (ss x ! n) = of_nat (i + XICS_IRQ_OFFSET)}
   | _ \<Rightarrow> L)"

lemma xics_init_ok: "nrcpus \<noteq> 0 \<Longrightarrow> xics_inv False UNIV UNIV {} (xics_init nrcpus)"
  by (auto simp: xics_inv_def xics_init_def server_ok_def ipi_ok_def fair_src_def no_ipi_def XISR_def CPPR_def Let_def)

lemma xics_step_ok:
  assumes "xics_inv U UNIV UNIV L x" and "allowed U op x"
  shows "good U (xics_inv U UNIV UNIV (outstanding op x L)) (xics_step op x)"
proof (cases op)
  case (IrqLine i level)
  then show ?thesis using ics_set_irq_msi_ok [OF assms(1), of i level] assms(2) by (simp add: xics_step_def kvm_irq_line_def allowed_def outstanding_def)
next
  case (Accept n)
  then show ?thesis using icp_accept_ok [OF assms(1), of n] assms(2) by (auto simp: xics_step_def allowed_def outstanding_def)
qed (use assms in \<open>simp_all add: xics_step_def allowed_def outstanding_def icp_set_cppr_ok icp_set_mfrr_ok icp_eoi_ok ics_write_xive_msi_ok\<close>)

inductive xics_reach :: "nat \<Rightarrow> bool \<Rightarrow> nat set \<Rightarrow> xics_state \<Rightarrow> bool" for cpus :: nat and U :: bool where
  Start: "xics_reach cpus U {} (xics_init cpus)"
| Step: "xics_reach cpus U L x \<Longrightarrow> allowed U op x \<Longrightarrow> xics_step op x = Inr x' \<Longrightarrow> xics_reach cpus U (outstanding op x L) x'"

lemma xics_reach_inv:
  assumes "xics_reach cpus U L x" and "cpus \<noteq> 0"
  shows "xics_inv U UNIV UNIV L x"
  using assms(1)
proof induction
  case Start
  then show ?case using xics_init_ok [OF assms(2)] by (simp add: xics_inv_def)
next
  case (Step L x op x')
  then show ?case using xics_step_ok [OF Step.IH Step.hyps(2)] by simp
qed

section \<open>Properties\<close>



text \<open>
  C33. While an interrupt between processors is presented, a more urgent interrupt of a device that is sent to the same processor, or a lower priority set by that processor, makes
  the controller write in front of the array of sources.
\<close>

theorem xics_ipi_reject_overflow:
  assumes "n < length (ss x)" and "XISR (ss x ! n) = XICS_IPI"
  shows "(i < length (irqs x) \<and> server (irqs x ! i) = n \<and> priority (irqs x ! i) < pending_priority (ss x ! n) \<and> priority (irqs x ! i) < CPPR (ss x ! n) \<longrightarrow>
      kvm_irq_line (int (i + XICS_IRQ_OFFSET)) True x = Inl OutOfBounds) \<and>
    (c < CPPR (ss x ! n) \<and> c \<le> pending_priority (ss x ! n) \<longrightarrow> icp_set_cppr n c x = Inl OutOfBounds)"
proof (intro conjI impI)
  assume a: "i < length (irqs x) \<and> server (irqs x ! i) = n \<and> priority (irqs x ! i) < pending_priority (ss x ! n) \<and> priority (irqs x ! i) < CPPR (ss x ! n)"
  then have "priority (irqs x ! i) \<noteq> 0xff" using prio_max [of "CPPR (ss x ! n)"] by auto
  with a assms show "kvm_irq_line (int (i + XICS_IRQ_OFFSET)) True x = Inl OutOfBounds"
    by (auto simp: kvm_irq_line_def ics_set_irq_msi_def icp_irq_def reject_pending_def ics_reject_def not_le)
next
  assume "c < CPPR (ss x ! n) \<and> c \<le> pending_priority (ss x ! n)"
  then show "icp_set_cppr n c x = Inl OutOfBounds" using assms by (simp add: icp_set_cppr_def Let_def ics_reject_def)
qed

theorem xics_ipi_reject_overflow_witness:
  "\<exists>x. icp_set_mfrr 0 5 ((xics_init 1)\<lparr>ss := [\<lparr> xirr = 0xff000000, pending_priority = 0, mfrr = 0xff, cpu_line = False \<rparr>]\<rparr>) = Inr x \<and>
     icp_set_cppr 0 0 x = Inl OutOfBounds"
proof -
  let ?s = "\<lparr> xirr = 0xff000002, pending_priority = 5, mfrr = 5, cpu_line = True \<rparr>"
  let ?x = "(xics_init 1)\<lparr>ss := [?s]\<rparr>"
  have "icp_set_mfrr 0 5 ((xics_init 1)\<lparr>ss := [\<lparr> xirr = 0xff000000, pending_priority = 0, mfrr = 0xff, cpu_line = False \<rparr>]\<rparr>) = Inr ?x"
    by (simp add: icp_set_mfrr_def icp_check_ipi_def reject_pending_def put_ss_def CPPR_def XISR_def set_XISR_def)
  moreover have "XISR ?s = 2" "CPPR ?s = 0xff" by (simp_all add: XISR_def CPPR_def)
  then have "icp_set_cppr 0 0 ?x = Inl OutOfBounds" using xics_ipi_reject_overflow [of 0 ?x 0 0] by simp
  ultimately show ?thesis by blast
qed

end
