(* ===== verification/P9pdu.thy ===== *)
theory P9pdu
  imports Iovec
begin

text \<open>
  The messages of the 9P file server: \<^verbatim>\<open>virtio/9p-pdu.c\<close>. A request lies in the buffers \<open>out_iov\<close> of the guest and
  its reply goes to the buffers \<open>in_iov\<close>; both are read and written at an offset that moves. The fields of a
  message are named by the characters of a format string. \<open>wire\<close> is the encoding that the protocol prescribes: the encoder writes it
  and the decoder reads it back. A field that lies beyond the end of the message leaves the
  variable of the caller unassigned, which is the fault \<open>UninitRead\<close>.
\<close>

section \<open>Data\<close>

record p9_qid =
  qid_type :: u8
  qid_version :: u32
  qid_path :: u64

text \<open>A string is a pointer, which may be null, to the bytes before the terminating zero.\<close>

type_synonym cstring = "u8 list option"

record p9_wstat =
  ws_size :: u16
  ws_type :: u16
  ws_dev :: u32
  ws_qid :: p9_qid
  ws_mode :: u32
  ws_atime :: u32
  ws_mtime :: u32
  ws_length :: u64
  ws_name :: cstring
  ws_uid :: cstring
  ws_gid :: cstring
  ws_muid :: cstring

record p9_iattr_dotl =
  ia_valid :: u32
  ia_mode :: u32
  ia_uid :: u32
  ia_gid :: u32
  ia_size :: u64
  ia_atime_sec :: u64
  ia_atime_nsec :: u64
  ia_mtime_sec :: u64
  ia_mtime_nsec :: u64

record p9_stat_dotl =
  sl_result_mask :: u64
  sl_qid :: p9_qid
  sl_mode :: u32
  sl_uid :: u32
  sl_gid :: u32
  sl_nlink :: u64
  sl_rdev :: u64
  sl_size :: u64
  sl_blksize :: u64
  sl_blocks :: u64
  sl_atime_sec :: u64
  sl_atime_nsec :: u64
  sl_mtime_sec :: u64
  sl_mtime_nsec :: u64
  sl_ctime_sec :: u64
  sl_ctime_nsec :: u64
  sl_btime_sec :: u64
  sl_btime_nsec :: u64
  sl_gen :: u64
  sl_data_version :: u64

text \<open>What the variable arguments of \<^verbatim>\<open>virtio_p9_pdu_readf\<close> and \<^verbatim>\<open>virtio_p9_pdu_writef\<close> hold.\<close>

datatype p9_val =
    VB u8 | VW u16 | VD u32 | VQ u64 | VS cstring
  | VQid p9_qid | VWstat p9_wstat | VIattr p9_iattr_dotl | VStat p9_stat_dotl

record p9_pdu =
  queue_head :: u16
  read_offset :: nat
  write_offset :: nat
  in_iov :: "iovec list"
  out_iov :: "iovec list"

abbreviation (input) ENOMEM :: int where "ENOMEM \<equiv> 12"
abbreviation (input) EINVAL :: int where "EINVAL \<equiv> 22"

section \<open>Bytes at the moving offsets\<close>

fun iov_read :: "iovec list \<Rightarrow> nat \<Rightarrow> nat \<Rightarrow> memory \<Rightarrow> u8 list result" where
  "iov_read [] off n m = Inr []"
| "iov_read (v # iov) off n m =
     (if n = 0 then Inr []
      else if iov_len v \<le> off then iov_read iov (off - iov_len v) n m
      else let len = min (iov_len v - off) n in
        rbind (memcpy_from m (iov_base v + off) len) (\<lambda>k.
        rbind (iov_read iov 0 (n - len) m) (\<lambda>ks. Inr (k @ ks))))"

definition virtio_p9_pdu_read :: "memory \<Rightarrow> nat \<Rightarrow> p9_pdu \<Rightarrow> (u8 list \<times> p9_pdu) result" where
  "virtio_p9_pdu_read m n pdu =
     rbind (iov_read (out_iov pdu) (read_offset pdu) n m) (\<lambda>data.
     Inr (data, pdu\<lparr>read_offset := read_offset pdu + length data\<rparr>))"

fun iov_write :: "iovec list \<Rightarrow> nat \<Rightarrow> u8 list \<Rightarrow> memory \<Rightarrow> (nat \<times> memory) result" where
  "iov_write [] off data m = Inr (0, m)"
| "iov_write (v # iov) off data m =
     (if data = [] then Inr (0, m)
      else if iov_len v \<le> off then iov_write iov (off - iov_len v) data m
      else let len = min (iov_len v - off) (length data) in
        rbind (memcpy_to m (iov_base v + off) (take len data)) (\<lambda>m1.
        rbind (iov_write iov 0 (drop len data) m1) (\<lambda>(k, m2). Inr (len + k, m2))))"

definition virtio_p9_pdu_write :: "u8 list \<Rightarrow> memory \<Rightarrow> p9_pdu \<Rightarrow> (memory \<times> p9_pdu) result" where
  "virtio_p9_pdu_write data m pdu =
     rbind (iov_write (in_iov pdu) (write_offset pdu) data m) (\<lambda>(copied, m').
     Inr (m', pdu\<lparr>write_offset := write_offset pdu + copied\<rparr>))"

section \<open>Decoding\<close>

text \<open>A variable of \<open>n\<close> bytes, all of which have to come from the message.\<close>

definition read_var :: "memory \<Rightarrow> nat \<Rightarrow> p9_pdu \<Rightarrow> (u8 list \<times> p9_pdu) result" where
  "read_var m n pdu =
     rbind (virtio_p9_pdu_read m n pdu) (\<lambda>(data, pdu').
     if length data = n then Inr (data, pdu') else Inl UninitRead)"

definition cstr :: "u8 list \<Rightarrow> u8 list" where
  "cstr bs = takeWhile (\<lambda>b. b \<noteq> 0) bs"

text \<open>
  The string case: the length is a signed 16-bit integer. For a length of \<open>-1\<close> the empty allocation
  is overrun, for a smaller one the size given to \<^verbatim>\<open>malloc\<close> is close to \<open>2\<^sup>6\<^sup>4\<close> and the result is null.
\<close>

definition read_str :: "memory \<Rightarrow> u16 \<Rightarrow> int \<Rightarrow> p9_pdu \<Rightarrow> (int \<times> cstring \<times> p9_pdu) result" where
  "read_str m len retval pdu =
     (if sint len < -1 then Inr (ENOMEM, None, pdu)
      else if sint len = -1 then Inl OutOfBounds
      else rbind (read_var m (unat len) pdu) (\<lambda>(data, pdu'). Inr (retval, Some (cstr data), pdu')))"

text \<open>The variables that a format filled, by position.\<close>

definition arg_b :: "p9_val list \<Rightarrow> nat \<Rightarrow> u8 result" where
  "arg_b vs i = rbind (aget vs i) (\<lambda>v. case v of VB x \<Rightarrow> Inr x | _ \<Rightarrow> Inl UninitRead)"

definition arg_w :: "p9_val list \<Rightarrow> nat \<Rightarrow> u16 result" where
  "arg_w vs i = rbind (aget vs i) (\<lambda>v. case v of VW x \<Rightarrow> Inr x | _ \<Rightarrow> Inl UninitRead)"

definition arg_d :: "p9_val list \<Rightarrow> nat \<Rightarrow> u32 result" where
  "arg_d vs i = rbind (aget vs i) (\<lambda>v. case v of VD x \<Rightarrow> Inr x | _ \<Rightarrow> Inl UninitRead)"

definition arg_q :: "p9_val list \<Rightarrow> nat \<Rightarrow> u64 result" where
  "arg_q vs i = rbind (aget vs i) (\<lambda>v. case v of VQ x \<Rightarrow> Inr x | _ \<Rightarrow> Inl UninitRead)"

definition arg_ptr :: "p9_val list \<Rightarrow> nat \<Rightarrow> cstring result" where
  "arg_ptr vs i = rbind (aget vs i) (\<lambda>v. case v of VS x \<Rightarrow> Inr x | _ \<Rightarrow> Inl UninitRead)"

definition arg_qid :: "p9_val list \<Rightarrow> nat \<Rightarrow> p9_qid result" where
  "arg_qid vs i = rbind (aget vs i) (\<lambda>v. case v of VQid x \<Rightarrow> Inr x | _ \<Rightarrow> Inl UninitRead)"

definition arg_iattr :: "p9_val list \<Rightarrow> nat \<Rightarrow> p9_iattr_dotl result" where
  "arg_iattr vs i = rbind (aget vs i) (\<lambda>v. case v of VIattr x \<Rightarrow> Inr x | _ \<Rightarrow> Inl UninitRead)"

text \<open>A string that is used, not only freed.\<close>

definition arg_s :: "p9_val list \<Rightarrow> nat \<Rightarrow> u8 list result" where
  "arg_s vs i = rbind (arg_ptr vs i) (\<lambda>p. case p of Some s \<Rightarrow> Inr s | None \<Rightarrow> Inl NullDeref)"

lemmas arg_defs = arg_b_def arg_w_def arg_d_def arg_q_def arg_ptr_def arg_qid_def arg_iattr_def arg_s_def

definition qid_of :: "p9_val list \<Rightarrow> p9_qid result" where
  "qid_of vs = rbind (arg_b vs 0) (\<lambda>t. rbind (arg_d vs 1) (\<lambda>v. rbind (arg_q vs 2) (\<lambda>p.
     Inr \<lparr>qid_type = t, qid_version = v, qid_path = p\<rparr>)))"

definition wstat_of :: "p9_val list \<Rightarrow> p9_wstat result" where
  "wstat_of vs =
     rbind (arg_w vs 0) (\<lambda>sz. rbind (arg_w vs 1) (\<lambda>ty. rbind (arg_d vs 2) (\<lambda>dv. rbind (arg_qid vs 3) (\<lambda>q.
     rbind (arg_d vs 4) (\<lambda>mo. rbind (arg_d vs 5) (\<lambda>at. rbind (arg_d vs 6) (\<lambda>mt. rbind (arg_q vs 7) (\<lambda>ln.
     rbind (arg_ptr vs 8) (\<lambda>nm. rbind (arg_ptr vs 9) (\<lambda>us. rbind (arg_ptr vs 10) (\<lambda>gr. rbind (arg_ptr vs 11) (\<lambda>mu.
     Inr \<lparr>ws_size = sz, ws_type = ty, ws_dev = dv, ws_qid = q, ws_mode = mo, ws_atime = at, ws_mtime = mt,
       ws_length = ln, ws_name = nm, ws_uid = us, ws_gid = gr, ws_muid = mu\<rparr>))))))))))))"

text \<open>After \<^verbatim>\<open>virtio_p9_wstat_free\<close> none of the strings can be used; the model makes the pointers null.\<close>

definition virtio_p9_wstat_free :: "p9_wstat \<Rightarrow> p9_wstat" where
  "virtio_p9_wstat_free w = w\<lparr>ws_name := None, ws_uid := None, ws_gid := None, ws_muid := None\<rparr>"

definition iattr_of :: "p9_val list \<Rightarrow> p9_iattr_dotl result" where
  "iattr_of vs =
     rbind (arg_d vs 0) (\<lambda>va. rbind (arg_d vs 1) (\<lambda>mo. rbind (arg_d vs 2) (\<lambda>us. rbind (arg_d vs 3) (\<lambda>gr.
     rbind (arg_q vs 4) (\<lambda>sz. rbind (arg_q vs 5) (\<lambda>ats. rbind (arg_q vs 6) (\<lambda>atn. rbind (arg_q vs 7) (\<lambda>mts.
     rbind (arg_q vs 8) (\<lambda>mtn.
     Inr \<lparr>ia_valid = va, ia_mode = mo, ia_uid = us, ia_gid = gr, ia_size = sz, ia_atime_sec = ats,
       ia_atime_nsec = atn, ia_mtime_sec = mts, ia_mtime_nsec = mtn\<rparr>)))))))))"

text \<open>The composite fields call the decoder again on formats of smaller weight.\<close>

definition weight :: "char \<Rightarrow> nat" where
  "weight c = (if c = CHR ''s'' then 2 else if c = CHR ''Q'' then 4 else if c = CHR ''I'' then 10
     else if c = CHR ''S'' then 20 else if c = CHR ''A'' then 24 else 1)"

lemma weight_pos [simp]: "0 < weight c"
  by (simp add: weight_def)

function virtio_p9_decode :: "memory \<Rightarrow> int \<Rightarrow> string \<Rightarrow> p9_pdu \<Rightarrow> (int \<times> p9_val list \<times> p9_pdu) result" where
  "virtio_p9_decode m retval [] pdu = Inr (retval, [], pdu)"
| "virtio_p9_decode m retval (c # fmt) pdu =
     rbind
       (if c = CHR ''b'' then rbind (read_var m 1 pdu) (\<lambda>(bs, p). Inr (retval, [VB (le_word bs)], p))
        else if c = CHR ''w'' then rbind (read_var m 2 pdu) (\<lambda>(bs, p). Inr (retval, [VW (le_word bs)], p))
        else if c = CHR ''d'' then rbind (read_var m 4 pdu) (\<lambda>(bs, p). Inr (retval, [VD (le_word bs)], p))
        else if c = CHR ''q'' then rbind (read_var m 8 pdu) (\<lambda>(bs, p). Inr (retval, [VQ (le_word bs)], p))
        else if c = CHR ''s'' then
          rbind (virtio_p9_decode m 0 ''w'' pdu) (\<lambda>(_, vs, p).
          rbind (arg_w vs 0) (\<lambda>len.
          rbind (read_str m len retval p) (\<lambda>(r, s, p'). Inr (r, [VS s], p'))))
        else if c = CHR ''Q'' then
          rbind (virtio_p9_decode m 0 ''bdq'' pdu) (\<lambda>(r, vs, p). rbind (qid_of vs) (\<lambda>q. Inr (r, [VQid q], p)))
        else if c = CHR ''S'' then
          rbind (virtio_p9_decode m 0 ''wwdQdddqssss'' pdu) (\<lambda>(r, vs, p).
          rbind (wstat_of vs) (\<lambda>w.
            Inr (r, [VWstat (if r \<noteq> 0 then virtio_p9_wstat_free w else w)], p)))
        else if c = CHR ''I'' then
          rbind (virtio_p9_decode m 0 ''ddddqqqqq'' pdu) (\<lambda>(r, vs, p). rbind (iattr_of vs) (\<lambda>a. Inr (r, [VIattr a], p)))
        else Inr (EINVAL, [], pdu))
       (\<lambda>(r, v, p). rbind (virtio_p9_decode m r fmt p) (\<lambda>(r', vs, p'). Inr (r', v @ vs, p')))"
  by pat_completeness auto
termination
  by (relation "measure (\<lambda>(m, retval, fmt, pdu). sum_list (map weight fmt))") (auto simp: weight_def)

declare virtio_p9_decode.simps(2) [simp del]

definition virtio_p9_pdu_readf :: "memory \<Rightarrow> string \<Rightarrow> p9_pdu \<Rightarrow> (int \<times> p9_val list \<times> p9_pdu) result" where
  "virtio_p9_pdu_readf m fmt pdu = virtio_p9_decode m 0 fmt pdu"

section \<open>Encoding\<close>

definition qid_args :: "p9_qid \<Rightarrow> p9_val list" where
  "qid_args q = [VB (qid_type q), VD (qid_version q), VQ (qid_path q)]"

definition wstat_args :: "p9_wstat \<Rightarrow> p9_val list" where
  "wstat_args w =
     [VW (ws_size w), VW (ws_type w), VD (ws_dev w), VQid (ws_qid w), VD (ws_mode w), VD (ws_atime w), VD (ws_mtime w),
      VQ (ws_length w), VS (ws_name w), VS (ws_uid w), VS (ws_gid w), VS (ws_muid w)]"

definition stat_args :: "p9_stat_dotl \<Rightarrow> p9_val list" where
  "stat_args s =
     [VQ (sl_result_mask s), VQid (sl_qid s), VD (sl_mode s), VD (sl_uid s), VD (sl_gid s), VQ (sl_nlink s), VQ (sl_rdev s),
      VQ (sl_size s), VQ (sl_blksize s), VQ (sl_blocks s), VQ (sl_atime_sec s), VQ (sl_atime_nsec s),
      VQ (sl_mtime_sec s), VQ (sl_mtime_nsec s), VQ (sl_ctime_sec s), VQ (sl_ctime_nsec s), VQ (sl_btime_sec s),
      VQ (sl_btime_nsec s), VQ (sl_gen s), VQ (sl_data_version s)]"

definition put :: "int \<Rightarrow> u8 list \<Rightarrow> memory \<Rightarrow> p9_pdu \<Rightarrow> (int \<times> memory \<times> p9_pdu) result" where
  "put retval data m pdu = rbind (virtio_p9_pdu_write data m pdu) (\<lambda>(m', pdu'). Inr (retval, m', pdu'))"

definition str_bytes :: "cstring \<Rightarrow> u8 list" where
  "str_bytes s = (case s of None \<Rightarrow> [] | Some bs \<Rightarrow> take 65535 bs)"

text \<open>An argument of another type than the format says is undefined in C, as is a missing one.\<close>

function virtio_p9_pdu_encode ::
  "int \<Rightarrow> string \<Rightarrow> p9_val list \<Rightarrow> memory \<Rightarrow> p9_pdu \<Rightarrow> (int \<times> memory \<times> p9_pdu) result" where
  "virtio_p9_pdu_encode retval [] args m pdu = Inr (retval, m, pdu)"
| "virtio_p9_pdu_encode retval (c # fmt) args m pdu =
     (if c \<in> set ''bwdqsQSA''
      then (case args of [] \<Rightarrow> Inl UninitRead | v # rest \<Rightarrow>
        rbind
          (case v of
             VB x \<Rightarrow> if c = CHR ''b'' then put retval [x] m pdu else Inl UninitRead
           | VW x \<Rightarrow> if c = CHR ''w'' then put retval (le_bytes 2 x) m pdu else Inl UninitRead
           | VD x \<Rightarrow> if c = CHR ''d'' then put retval (le_bytes 4 x) m pdu else Inl UninitRead
           | VQ x \<Rightarrow> if c = CHR ''q'' then put retval (le_bytes 8 x) m pdu else Inl UninitRead
           | VS s \<Rightarrow> if c = CHR ''s'' then
               rbind (virtio_p9_pdu_encode 0 ''w'' [VW (of_nat (length (str_bytes s)))] m pdu) (\<lambda>(_, m1, p1).
               put retval (str_bytes s) m1 p1) else Inl UninitRead
           | VQid q \<Rightarrow> if c = CHR ''Q'' then virtio_p9_pdu_encode 0 ''bdq'' (qid_args q) m pdu else Inl UninitRead
           | VWstat w \<Rightarrow> if c = CHR ''S'' then virtio_p9_pdu_encode 0 ''wwdQdddqssss'' (wstat_args w) m pdu else Inl UninitRead
           | VStat s \<Rightarrow> if c = CHR ''A'' then virtio_p9_pdu_encode 0 ''qQdddqqqqqqqqqqqqqqq'' (stat_args s) m pdu else Inl UninitRead
           | VIattr a \<Rightarrow> Inl UninitRead)
          (\<lambda>(r, m1, p1). virtio_p9_pdu_encode r fmt rest m1 p1))
      else virtio_p9_pdu_encode EINVAL fmt args m pdu)"
  by pat_completeness auto
termination
  by (relation "measure (\<lambda>(retval, fmt, args, m, pdu). sum_list (map weight fmt))") (auto simp: weight_def)

declare virtio_p9_pdu_encode.simps(2) [simp del]

definition virtio_p9_pdu_writef :: "string \<Rightarrow> p9_val list \<Rightarrow> memory \<Rightarrow> p9_pdu \<Rightarrow> (int \<times> memory \<times> p9_pdu) result" where
  "virtio_p9_pdu_writef fmt args m pdu = virtio_p9_pdu_encode 0 fmt args m pdu"

section \<open>Reading and writing at an offset\<close>

lemma iov_read_0 [simp]: "iov_read iov off 0 m = Inr []"
  by (cases iov) simp_all

lemma iov_read_ok: "iov_ok (length m) iov \<Longrightarrow> iov_read iov off n m = Inr (take n (drop off (gather m iov)))"
proof (induction iov arbitrary: off n)
  case (Cons v iov)
  have len: "length (buf m v) = iov_len v" and inm: "iov_base v + iov_len v \<le> length m"
    using Cons.prems length_buf [of m v] by (auto simp: inside_def)
  have ok: "iov_ok (length m) iov" using Cons.prems by simp
  show ?case
  proof (cases "iov_len v \<le> off")
    case True
    then show ?thesis using Cons.IH [OF ok] len by simp
  next
    case False
    let ?len = "min (iov_len v - off) n"
    have "iov_base v + off + ?len \<le> length m" using inm False by auto
    then have "memcpy_from m (iov_base v + off) ?len = Inr (take ?len (drop off (buf m v)))"
      by (simp add: memcpy_from_def buf_def drop_take add.commute)
    moreover have "take ?len (drop off (buf m v)) @ take (n - ?len) (gather m iov) = take n (drop off (buf m v @ gather m iov))"
      using False len by (simp add: min_def)
    ultimately show ?thesis using False Cons.IH [OF ok, of 0 "n - ?len"] by (simp add: Let_def)
  qed
qed simp

lemma iov_write_Nil [simp]: "iov_write iov off [] m = Inr (0, m)"
  by (cases iov) simp_all

lemma memcpy_to_append:
  "i + (length a + length b) \<le> length m \<Longrightarrow> memcpy_to m i (a @ b) = rbind (memcpy_to m i a) (\<lambda>m1. memcpy_to m1 (i + length a) b)"
  by (simp add: memcpy_to_def blit_def ac_simps)

lemma iov_write_full: "iov_total iov \<le> off \<Longrightarrow> iov_write iov off data m = Inr (0, m)"
  by (induction iov arbitrary: off) auto

lemma iov_write_total:
  "iov_ok (length m) iov \<Longrightarrow>
   \<exists>m'. iov_write iov off data m = Inr (min (length data) (iov_total iov - off), m') \<and> length m' = length m"
proof (induction iov arbitrary: off data m)
  case (Cons v iov)
  let ?len = "min (iov_len v - off) (length data)" and ?m = "blit m (iov_base v + off) (take (min (iov_len v - off) (length data)) data)"
  have inm: "inside (length m) v" and ok: "iov_ok (length m) iov" using Cons.prems by auto
  show ?case
  proof (cases "iov_len v \<le> off")
    case True
    then show ?thesis using Cons.IH [OF ok, of "off - iov_len v" data] by auto
  next
    case False
    have fits: "iov_base v + off + length (take ?len data) \<le> length m" using inm False by (auto simp: inside_def)
    then have l: "length ?m = length m" by (rule length_blit)
    obtain m' where "iov_write iov 0 (drop ?len data) ?m = Inr (min (length data - ?len) (iov_total iov), m')" "length m' = length ?m"
      using Cons.IH [of ?m 0 "drop ?len data"] ok unfolding l by auto
    moreover have "?len + min (length data - ?len) (iov_total iov) = min (length data) (iov_len v + iov_total iov - off)"
      using False by linarith
    moreover have "memcpy_to m (iov_base v + off) (take ?len data) = Inr ?m" using fits by (simp only: memcpy_to_def if_True)
    ultimately show ?thesis using False l by (simp add: Let_def)
  qed
qed simp

text \<open>Two writes in a row are one write of both.\<close>

lemma iov_write_append:
  "iov_ok (length m) iov \<Longrightarrow>
   iov_write iov off (a @ b) m =
     rbind (iov_write iov off a m) (\<lambda>(n, m1). rbind (iov_write iov (off + n) b m1) (\<lambda>(k, m2). Inr (n + k, m2)))"
proof (induction iov arbitrary: off a m)
  case (Cons v iov)
  have inm: "iov_base v + iov_len v \<le> length m" and ok: "iov_ok (length m) iov"
    using Cons.prems by (auto simp: inside_def)
  show ?case
  proof (cases "iov_len v \<le> off")
    case True
    then show ?thesis using Cons.IH [OF ok, of "off - iov_len v" a]
      by (cases "iov_write iov (off - iov_len v) a m") (auto simp: Let_def)
  next
    case False
    let ?i = "iov_base v + off" and ?L = "iov_len v - off"
    consider "a = []" | "a \<noteq> []" "?L \<le> length a" | "a \<noteq> []" "length a < ?L" by linarith
    then show ?thesis
    proof cases
      case 1
      then show ?thesis by (cases "iov_write (v # iov) off b m") auto
    next
      case 2
      let ?m = "blit m ?i (take ?L a)"
      have fits: "?i + length (take ?L a) \<le> length m" using inm 2 False by simp
      then have l: "length ?m = length m" by (rule length_blit)
      have mc: "memcpy_to m ?i (take ?L a) = Inr ?m" using fits by (simp only: memcpy_to_def if_True)
      have "min ?L (length (a @ b)) = ?L" "min ?L (length a) = ?L" "take ?L (a @ b) = take ?L a" "drop ?L (a @ b) = drop ?L a @ b"
        using 2 by auto
      moreover have "iov_write (v # iov) (off + (?L + n)) b k = iov_write iov n b k" for n k
        using False by (cases "b = []") auto
      ultimately show ?thesis
        using False 2 mc Cons.IH [of ?m 0 "drop ?L a"] ok l
        by (cases "iov_write iov 0 (drop ?L a) ?m") (auto simp: Let_def rbind_def split: sum.splits)
    next
      case 3
      define k where "k = min (iov_len v - (off + length a)) (length b)"
      have m1: "memcpy_to m ?i a = Inr (blit m ?i a)" using inm 3 False by (simp add: memcpy_to_def)
      have fits: "?i + (length a + length (take k b)) \<le> length m" using inm 3 False unfolding k_def by simp
      have m2: "memcpy_to m ?i (take (length a + k) (a @ b)) = memcpy_to (blit m ?i a) (?i + length a) (take k b)"
        using memcpy_to_append [OF fits] m1 by simp
      have len: "min ?L (length (a @ b)) = length a + k" "min ?L (length a) = length a"
        using 3 unfolding k_def by auto
      have n: "\<not> iov_len v \<le> off + length a" using 3 by simp
      have l: "iov_write (v # iov) off (a @ b) m =
          rbind (memcpy_to (blit m ?i a) (?i + length a) (take k b)) (\<lambda>x. rbind (iov_write iov 0 (drop k b) x) (\<lambda>(n, m2). Inr (length a + k + n, m2)))"
        using False 3(1) by (simp only: iov_write.simps len Let_def m2 append_is_Nil_conv if_False simp_thms) simp
      have r: "iov_write (v # iov) off a m = Inr (length a, blit m ?i a)"
        using False 3(1) by (simp only: iov_write.simps len Let_def m1 take_all drop_all if_False simp_thms) simp
      have "iov_write (v # iov) (off + length a) b (blit m ?i a) = (if b = [] then Inr (0, blit m ?i a) else
          rbind (memcpy_to (blit m ?i a) (?i + length a) (take k b)) (\<lambda>x. rbind (iov_write iov 0 (drop k b) x) (\<lambda>(n, m2). Inr (k + n, m2))))"
        using n by (simp add: Let_def k_def [symmetric] add.assoc)
      moreover have "blit (blit m ?i a) (?i + length a) [] = blit m ?i a" by simp
      ultimately show ?thesis unfolding l r
        using fits by (cases "b = []") (auto simp: rbind_def memcpy_to_def k_def split: sum.splits)
    qed
  qed
qed simp

text \<open>What the buffers hold after a write, and that the memory outside them is left alone.\<close>

lemma iov_write_frame:
  "iov_write iov off data m = Inr (n, m') \<Longrightarrow> iov_ok (length m) iov \<Longrightarrow> \<forall>v \<in> set iov. apart v w \<Longrightarrow>
   inside (length m) w \<Longrightarrow> buf m' w = buf m w"
proof (induction iov arbitrary: off data m n)
  case (Cons v iov)
  show ?case
  proof (cases "data = [] \<or> iov_len v \<le> off")
    case True
    with Cons show ?thesis by (auto split: if_splits)
  next
    case False
    let ?len = "min (iov_len v - off) (length data)"
    let ?m = "blit m (iov_base v + off) (take ?len data)"
    have inm: "inside (length m) v" using Cons.prems by simp
    have adv: "inside (length m) (iov_advance off v)" "apart (iov_advance off v) w"
      using advance_ok(1) [OF inm, of off] advance_ok(2) [OF inm, of off w] False Cons.prems by auto
    obtain k where k: "iov_write iov 0 (drop ?len data) ?m = Inr (k, m')"
      using Cons.prems(1) False by (auto simp: Let_def rbind_eq_Inr_iff memcpy_to_def split: if_splits)
    have "length ?m = length m" using inm False by (intro length_blit) (auto simp: inside_def)
    moreover have "buf ?m w = buf m w"
      using buf_blit_apart [OF adv(2) adv(1) Cons.prems(4), of "take ?len data"] by (simp add: iov_advance_def)
    ultimately show ?thesis using Cons.IH [OF k] Cons.prems by simp
  qed
qed simp

lemma iov_write_gather:
  "iov_write iov off data m = Inr (n, m') \<Longrightarrow> iov_ok (length m) iov \<Longrightarrow> off + length data \<le> iov_total iov \<Longrightarrow>
   gather m' iov = blit (gather m iov) off data"
proof (induction iov arbitrary: off data m n)
  case (Cons v iov)
  have inm: "inside (length m) v" and ok: "iov_ok (length m) iov" and ap: "\<forall>w \<in> set iov. apart w v"
    using Cons.prems(2) by (auto simp: apart_commute)
  have bl: "length (buf m v) = iov_len v" using length_buf [OF inm] .
  consider "data = []" | "data \<noteq> []" "iov_len v \<le> off" | "data \<noteq> []" "off < iov_len v" by linarith
  then show ?case
  proof cases
    case 1
    then show ?thesis using Cons.prems(1) by simp
  next
    case 2
    then have w: "iov_write iov (off - iov_len v) data m = Inr (n, m')" using Cons.prems(1) by simp
    have "gather m' iov = blit (gather m iov) (off - iov_len v) data"
      using Cons.prems(3) 2 by (intro Cons.IH [OF w ok]) auto
    moreover have "buf m' v = buf m v" using iov_write_frame [OF w ok ap inm] .
    ultimately show ?thesis using 2 bl by (simp add: blit_def)
  next
    case 3
    let ?len = "min (iov_len v - off) (length data)"
    let ?m = "blit m (iov_base v + off) (take ?len data)" and ?w = "iov_advance off v"
    obtain k where k: "iov_write iov 0 (drop ?len data) ?m = Inr (k, m')"
      using Cons.prems(1) 3 by (auto simp: Let_def rbind_eq_Inr_iff memcpy_to_def split: if_splits)
    have fits: "iov_base v + off + length (take ?len data) \<le> length m" using inm 3 by (auto simp: inside_def)
    have l: "length ?m = length m" using fits by (rule length_blit)
    have "gather m' iov = blit (gather ?m iov) 0 (drop ?len data)"
      using Cons.prems(3) 3 ok l by (intro Cons.IH [OF k]) auto
    also have "gather ?m iov = gather m iov"
      using gather_blit_apart [of iov ?w m "take ?len data"] advance_ok [OF inm, of off] Cons.prems(2) 3
      by (auto simp: iov_advance_def iov_ok_def apart_def)
    finally have g: "gather m' iov = blit (gather m iov) 0 (drop ?len data)" .
    have "buf m' v = buf ?m v" using iov_write_frame [OF k _ ap] ok inm l by simp
    also have "\<dots> = blit (buf m v) off (take ?len data)"
      using fits inm 3 by (intro nth_equalityI) (auto simp: buf_def nth_blit inside_def)
    finally have h: "buf m' v = blit (buf m v) off (take ?len data)" .
    have "take k data @ drop k data @ xs = data @ xs" for k xs by (simp flip: append_assoc)
    with h g bl 3 show ?thesis by (auto simp: blit_def min_def add.commute)
  qed
qed simp

section \<open>The wire format\<close>

fun wire_basic :: "p9_val \<Rightarrow> u8 list" where
  "wire_basic (VB x) = [x]"
| "wire_basic (VW x) = le_bytes 2 x"
| "wire_basic (VD x) = le_bytes 4 x"
| "wire_basic (VQ x) = le_bytes 8 x"
| "wire_basic (VS s) = le_bytes 2 (of_nat (length (str_bytes s)) :: u16) @ str_bytes s"
| "wire_basic (VQid q) = qid_type q # le_bytes 4 (qid_version q) @ le_bytes 8 (qid_path q)"
| "wire_basic _ = []"

definition iattr_args :: "p9_iattr_dotl \<Rightarrow> p9_val list" where
  "iattr_args a =
     [VD (ia_valid a), VD (ia_mode a), VD (ia_uid a), VD (ia_gid a), VQ (ia_size a), VQ (ia_atime_sec a),
      VQ (ia_atime_nsec a), VQ (ia_mtime_sec a), VQ (ia_mtime_nsec a)]"

fun wire :: "p9_val \<Rightarrow> u8 list" where
  "wire (VWstat w) = concat (map wire_basic (wstat_args w))"
| "wire (VStat s) = concat (map wire_basic (stat_args s))"
| "wire (VIattr a) = concat (map wire_basic (iattr_args a))"
| "wire v = wire_basic v"

definition wires :: "p9_val list \<Rightarrow> u8 list" where
  "wires vs = concat (map wire vs)"

lemma wires_simps [simp]: "wires [] = []" "wires (v # vs) = wire v @ wires vs"
  by (simp_all add: wires_def)

fun kind_of :: "p9_val \<Rightarrow> char" where
  "kind_of (VB _) = CHR ''b''"
| "kind_of (VW _) = CHR ''w''"
| "kind_of (VD _) = CHR ''d''"
| "kind_of (VQ _) = CHR ''q''"
| "kind_of (VS _) = CHR ''s''"
| "kind_of (VQid _) = CHR ''Q''"
| "kind_of (VWstat _) = CHR ''S''"
| "kind_of (VIattr _) = CHR ''I''"
| "kind_of (VStat _) = CHR ''A''"

lemma pdu_write_ok:
  assumes "iov_ok (length m) (in_iov pdu)"
  shows "\<exists>m'. virtio_p9_pdu_write data m pdu =
      Inr (m', pdu\<lparr>write_offset := write_offset pdu + min (length data) (iov_total (in_iov pdu) - write_offset pdu)\<rparr>) \<and>
    length m' = length m"
  using iov_write_total [OF assms, of "write_offset pdu" data] by (auto simp: virtio_p9_pdu_write_def)

lemma pdu_write_append:
  assumes "iov_ok (length m) (in_iov pdu)"
  shows "virtio_p9_pdu_write (a @ b) m pdu = rbind (virtio_p9_pdu_write a m pdu) (\<lambda>(m1, p1). virtio_p9_pdu_write b m1 p1)"
  using iov_write_append [OF assms, of "write_offset pdu" a b]
  by (auto simp: virtio_p9_pdu_write_def rbind_def add.assoc split: sum.splits)

lemma pdu_write_Nil [simp]: "virtio_p9_pdu_write [] m pdu = Inr (m, pdu)"
  by (simp add: virtio_p9_pdu_write_def)

text \<open>One field of the encoder: it writes the encoding of its argument and goes on.\<close>

definition enc_step :: "p9_val \<Rightarrow> bool" where
  "enc_step v \<longleftrightarrow> (\<forall>fmt vs m pdu. iov_ok (length m) (in_iov pdu) \<longrightarrow>
     virtio_p9_pdu_encode 0 (kind_of v # fmt) (v # vs) m pdu =
       rbind (virtio_p9_pdu_write (wire v) m pdu) (\<lambda>(m1, p1). virtio_p9_pdu_encode 0 fmt vs m1 p1))"

lemma encode_steps:
  "\<forall>v \<in> set vs. enc_step v \<Longrightarrow> iov_ok (length m) (in_iov pdu) \<Longrightarrow>
   virtio_p9_pdu_encode 0 (map kind_of vs) vs m pdu = rbind (virtio_p9_pdu_write (wires vs) m pdu) (\<lambda>(m', p'). Inr (0, m', p'))"
proof (induction vs arbitrary: m pdu)
  case (Cons v vs)
  obtain m1 p1 where w: "virtio_p9_pdu_write (wire v) m pdu = Inr (m1, p1)" "length m1 = length m" "in_iov p1 = in_iov pdu"
    using pdu_write_ok [OF Cons.prems(2), of "wire v"] by auto
  have "virtio_p9_pdu_encode 0 (kind_of v # map kind_of vs) (v # vs) m pdu = virtio_p9_pdu_encode 0 (map kind_of vs) vs m1 p1"
    using Cons.prems w unfolding enc_step_def by simp
  then show ?case using Cons w by (simp add: pdu_write_append)
qed simp

lemma enc_basic [simp]: "enc_step (VB x)" "enc_step (VW y)" "enc_step (VD z)" "enc_step (VQ u)"
  by (simp_all add: enc_step_def virtio_p9_pdu_encode.simps(2) put_def rbind_def split: sum.splits)

lemma enc_str [simp]: "enc_step (VS s)"
proof -
  have "virtio_p9_pdu_encode 0 ''w'' [VW l] m pdu = rbind (virtio_p9_pdu_write (le_bytes 2 l) m pdu) (\<lambda>(m', p'). Inr (0, m', p'))"
    if "iov_ok (length m) (in_iov pdu)" for l m pdu
    using encode_steps [of "[VW l]"] that by simp
  then show ?thesis
    by (auto simp: enc_step_def virtio_p9_pdu_encode.simps(2) put_def rbind_def pdu_write_append split: sum.splits)
qed

lemma enc_qid [simp]: "enc_step (VQid q)"
proof -
  have "virtio_p9_pdu_encode 0 ''bdq'' (qid_args q) m pdu = rbind (virtio_p9_pdu_write (wire (VQid q)) m pdu) (\<lambda>(m', p'). Inr (0, m', p'))"
    if "iov_ok (length m) (in_iov pdu)" for m pdu
    using encode_steps [of "qid_args q"] that by (simp add: qid_args_def)
  then show ?thesis
    by (auto simp: enc_step_def virtio_p9_pdu_encode.simps(2) rbind_def split: sum.splits)
qed

lemma wire_args: "map wire (wstat_args w) = map wire_basic (wstat_args w)" "map wire (stat_args s) = map wire_basic (stat_args s)"
  "map wire (iattr_args a) = map wire_basic (iattr_args a)"
  by (simp_all add: wstat_args_def stat_args_def iattr_args_def)

lemma enc_wstat [simp]: "enc_step (VWstat w)"
proof -
  have "virtio_p9_pdu_encode 0 ''wwdQdddqssss'' (wstat_args w) m pdu =
      rbind (virtio_p9_pdu_write (wire (VWstat w)) m pdu) (\<lambda>(m', p'). Inr (0, m', p'))"
    if "iov_ok (length m) (in_iov pdu)" for m pdu
  proof -
    have "map kind_of (wstat_args w) = ''wwdQdddqssss''" "\<forall>v \<in> set (wstat_args w). enc_step v" by (simp_all add: wstat_args_def)
    then show ?thesis using encode_steps [of "wstat_args w" m pdu] that by (simp add: wires_def wire_args)
  qed
  then show ?thesis
    by (auto simp: enc_step_def virtio_p9_pdu_encode.simps(2) rbind_def split: sum.splits)
qed

lemma enc_stat [simp]: "enc_step (VStat s)"
proof -
  have "virtio_p9_pdu_encode 0 ''qQdddqqqqqqqqqqqqqqq'' (stat_args s) m pdu =
      rbind (virtio_p9_pdu_write (wire (VStat s)) m pdu) (\<lambda>(m', p'). Inr (0, m', p'))"
    if "iov_ok (length m) (in_iov pdu)" for m pdu
  proof -
    have "map kind_of (stat_args s) = ''qQdddqqqqqqqqqqqqqqq''" "\<forall>v \<in> set (stat_args s). enc_step v" by (simp_all add: stat_args_def)
    then show ?thesis using encode_steps [of "stat_args s" m pdu] that by (simp add: wires_def wire_args)
  qed
  then show ?thesis
    by (auto simp: enc_step_def virtio_p9_pdu_encode.simps(2) rbind_def split: sum.splits)
qed

fun encodable :: "p9_val \<Rightarrow> bool" where
  "encodable (VIattr _) = False"
| "encodable _ = True"

lemma writef_wires:
  assumes "list_all encodable vs" and "iov_ok (length m) (in_iov pdu)" and "fmt = map kind_of vs"
  shows "virtio_p9_pdu_writef fmt vs m pdu = rbind (virtio_p9_pdu_write (wires vs) m pdu) (\<lambda>(m', p'). Inr (0, m', p'))"
proof -
  have "enc_step v" if "encodable v" for v using that by (cases v) simp_all
  then show ?thesis using assms encode_steps [of vs m pdu] by (simp add: virtio_p9_pdu_writef_def list_all_iff)
qed

text \<open>The bytes of a message that are still to be read.\<close>

definition unread :: "memory \<Rightarrow> p9_pdu \<Rightarrow> u8 list" where
  "unread m pdu = drop (read_offset pdu) (gather m (out_iov pdu))"

abbreviation skip :: "nat \<Rightarrow> p9_pdu \<Rightarrow> p9_pdu" where
  "skip n pdu \<equiv> pdu\<lparr>read_offset := read_offset pdu + n\<rparr>"

lemma unread_skip: "unread m pdu = ds @ rest \<Longrightarrow> n = length ds \<Longrightarrow> unread m (skip n pdu) = rest"
  by (simp add: unread_def add.commute [of _ "length ds"] flip: drop_drop)

lemma read_var_ok:
  "iov_ok (length m) (out_iov pdu) \<Longrightarrow> unread m pdu = ds @ rest \<Longrightarrow> n = length ds \<Longrightarrow> read_var m n pdu = Inr (ds, skip n pdu)"
  by (simp add: read_var_def virtio_p9_pdu_read_def iov_read_ok unread_def)

text \<open>Strings the decoder takes: short enough for the sign of their length, and without a zero byte.\<close>

fun str_ok :: "cstring \<Rightarrow> bool" where
  "str_ok None = False"
| "str_ok (Some bs) = (length bs < 32768 \<and> 0 \<notin> set bs)"

fun decodable :: "p9_val \<Rightarrow> bool" where
  "decodable (VS s) = str_ok s"
| "decodable (VWstat w) = (str_ok (ws_name w) \<and> str_ok (ws_uid w) \<and> str_ok (ws_gid w) \<and> str_ok (ws_muid w))"
| "decodable (VStat _) = False"
| "decodable _ = True"

definition dec_step :: "p9_val \<Rightarrow> bool" where
  "dec_step v \<longleftrightarrow> (\<forall>fmt m pdu rest. iov_ok (length m) (out_iov pdu) \<longrightarrow> unread m pdu = wire v @ rest \<longrightarrow>
     virtio_p9_decode m 0 (kind_of v # fmt) pdu =
       rbind (virtio_p9_decode m 0 fmt (skip (length (wire v)) pdu)) (\<lambda>(r, vs, p). Inr (r, v # vs, p)))"

lemma decode_steps:
  "\<forall>v \<in> set vs. dec_step v \<Longrightarrow> iov_ok (length m) (out_iov pdu) \<Longrightarrow> unread m pdu = wires vs @ rest \<Longrightarrow>
   virtio_p9_decode m 0 (map kind_of vs) pdu = Inr (0, vs, skip (length (wires vs)) pdu)"
proof (induction vs arbitrary: pdu)
  case (Cons v vs)
  have u: "unread m pdu = wire v @ wires vs @ rest" using Cons.prems(3) by simp
  have "virtio_p9_decode m 0 (kind_of v # map kind_of vs) pdu =
      rbind (virtio_p9_decode m 0 (map kind_of vs) (skip (length (wire v)) pdu)) (\<lambda>(r, vs, p). Inr (r, v # vs, p))"
    using Cons.prems(1,2) u by (auto simp: dec_step_def)
  then show ?case using Cons unread_skip [OF u] by (simp add: add.assoc)
qed simp

lemma le_word_bytes_simps [simp]:
  "le_word [b] = (b :: u8)" "le_word (le_bytes 2 x) = (x :: u16)" "le_word (le_bytes 4 y) = (y :: u32)" "le_word (le_bytes 8 z) = (z :: u64)"
  by (simp_all add: le_word_bytes) (simp add: le_word_def)

lemma dec_basic [simp]: "dec_step (VB x)" "dec_step (VW y)" "dec_step (VD z)" "dec_step (VQ u)"
  by (simp_all add: dec_step_def virtio_p9_decode.simps(2) read_var_ok [where ds = "[x]"] read_var_ok [where ds = "le_bytes 2 y"]
      read_var_ok [where ds = "le_bytes 4 z"] read_var_ok [where ds = "le_bytes 8 u"])

text \<open>The composite fields, with the format that the decoder calls itself on.\<close>

lemma decode_composite:
  "virtio_p9_decode m 0 (CHR ''s'' # fmt) pdu =
     rbind (virtio_p9_decode m 0 ''w'' pdu) (\<lambda>(_, vs, p). rbind (arg_w vs 0) (\<lambda>len. rbind (read_str m len 0 p) (\<lambda>(r, s, p1).
     rbind (virtio_p9_decode m r fmt p1) (\<lambda>(r', vs, p'). Inr (r', VS s # vs, p')))))"
  "virtio_p9_decode m 0 (CHR ''Q'' # fmt) pdu =
     rbind (virtio_p9_decode m 0 ''bdq'' pdu) (\<lambda>(r, vs, p). rbind (qid_of vs) (\<lambda>q.
     rbind (virtio_p9_decode m r fmt p) (\<lambda>(r', vs, p'). Inr (r', VQid q # vs, p'))))"
  "virtio_p9_decode m 0 (CHR ''S'' # fmt) pdu =
     rbind (virtio_p9_decode m 0 ''wwdQdddqssss'' pdu) (\<lambda>(r, vs, p). rbind (wstat_of vs) (\<lambda>w.
     rbind (virtio_p9_decode m r fmt p) (\<lambda>(r', vs, p'). Inr (r', VWstat (if r \<noteq> 0 then virtio_p9_wstat_free w else w) # vs, p'))))"
  "virtio_p9_decode m 0 (CHR ''I'' # fmt) pdu =
     rbind (virtio_p9_decode m 0 ''ddddqqqqq'' pdu) (\<lambda>(r, vs, p). rbind (iattr_of vs) (\<lambda>a.
     rbind (virtio_p9_decode m r fmt p) (\<lambda>(r', vs, p'). Inr (r', VIattr a # vs, p'))))"
  by (subst virtio_p9_decode.simps(2), simp add: rbind_assoc split_def)+

lemma cstr_id: "0 \<notin> set bs \<Longrightarrow> cstr bs = bs"
  unfolding cstr_def takeWhile_eq_all_conv by auto

lemma str_ok_unfold: "str_ok s \<Longrightarrow> \<exists>bs. s = Some bs \<and> str_bytes s = bs \<and> length bs < 32768 \<and> cstr bs = bs"
  by (cases s) (auto simp: str_bytes_def cstr_id)

lemma read_str_ok:
  assumes "iov_ok (length m) (out_iov pdu)" and "unread m pdu = bs @ rest" and "length bs < 32768" and "cstr bs = bs"
  shows "read_str m (of_nat (length bs)) 0 pdu = Inr (0, Some bs, skip (length bs) pdu)"
proof -
  have "length bs < 2 ^ 15" using assms(3) by simp
  then have u: "unat (of_nat (length bs) :: u16) = length bs" "sint (of_nat (length bs) :: u16) = int (length bs)"
    by (simp_all add: unat_of_nat sint_uint uint_nat signed_take_bit_int_eq_self)
  then show ?thesis using assms read_var_ok [OF assms(1,2)] by (simp add: read_str_def)
qed

lemma dec_str [simp]: "str_ok s \<Longrightarrow> dec_step (VS s)"
proof -
  assume "str_ok s"
  then obtain bs where s: "s = Some bs" "str_bytes s = bs" "length bs < 32768" "cstr bs = bs" using str_ok_unfold by blast
  let ?l = "of_nat (length bs) :: u16"
  have "virtio_p9_decode m 0 (CHR ''s'' # fmt) pdu =
      rbind (virtio_p9_decode m 0 fmt (skip (2 + length bs) pdu)) (\<lambda>(r, vs, p). Inr (r, VS s # vs, p))"
    if ok: "iov_ok (length m) (out_iov pdu)" and u: "unread m pdu = le_bytes 2 ?l @ bs @ rest" for fmt m pdu rest
  proof -
    have "virtio_p9_decode m 0 ''w'' pdu = Inr (0, [VW ?l], skip 2 pdu)"
      using decode_steps [of "[VW ?l]"] ok u by simp
    moreover have "read_str m ?l 0 (skip 2 pdu) = Inr (0, Some bs, skip (length bs) (skip 2 pdu))"
      using ok unread_skip [OF u] s by (intro read_str_ok) simp_all
    ultimately show ?thesis by (simp add: decode_composite arg_defs s(1) add.assoc)
  qed
  then show ?thesis using s by (auto simp: dec_step_def)
qed

text \<open>A composite field whose parts the decoder reads back.\<close>

lemma dec_qid [simp]: "dec_step (VQid q)"
proof -
  have "virtio_p9_decode m 0 ''bdq'' pdu = Inr (0, qid_args q, skip 13 pdu)"
    if "iov_ok (length m) (out_iov pdu)" "unread m pdu = wire (VQid q) @ rest" for m pdu rest
    using decode_steps [of "qid_args q"] that by (simp add: qid_args_def)
  moreover have "qid_of (qid_args q) = Inr q" by (simp add: qid_of_def qid_args_def arg_defs)
  ultimately show ?thesis
    by (auto simp: dec_step_def decode_composite)
qed

lemma dec_wstat [simp]: "decodable (VWstat w) \<Longrightarrow> dec_step (VWstat w)"
proof -
  assume w: "decodable (VWstat w)"
  let ?vs = "wstat_args w"
  have k: "map kind_of ?vs = ''wwdQdddqssss''" "\<forall>v \<in> set ?vs. dec_step v" using w by (simp_all add: wstat_args_def)
  have "virtio_p9_decode m 0 ''wwdQdddqssss'' pdu = Inr (0, ?vs, skip (length (wire (VWstat w))) pdu)"
    if "iov_ok (length m) (out_iov pdu)" "unread m pdu = wire (VWstat w) @ rest" for m pdu rest
    using decode_steps [OF k(2), of m pdu rest] that k(1) by (simp add: wires_def wire_args)
  moreover have "wstat_of ?vs = Inr w" by (simp add: wstat_of_def wstat_args_def arg_defs)
  ultimately show ?thesis
    by (auto simp: dec_step_def decode_composite simp del: wire.simps)
qed

lemma dec_iattr [simp]: "dec_step (VIattr a)"
proof -
  let ?vs = "iattr_args a"
  have k: "map kind_of ?vs = ''ddddqqqqq''" "\<forall>v \<in> set ?vs. dec_step v" by (simp_all add: iattr_args_def)
  have "virtio_p9_decode m 0 ''ddddqqqqq'' pdu = Inr (0, ?vs, skip (length (wire (VIattr a))) pdu)"
    if "iov_ok (length m) (out_iov pdu)" "unread m pdu = wire (VIattr a) @ rest" for m pdu rest
    using decode_steps [OF k(2), of m pdu rest] that k(1) by (simp add: wires_def wire_args)
  moreover have "iattr_of ?vs = Inr a" by (simp add: iattr_of_def iattr_args_def arg_defs)
  ultimately show ?thesis
    by (auto simp: dec_step_def decode_composite simp del: wire.simps)
qed

lemma readf_wires:
  assumes "list_all decodable vs" and "iov_ok (length m) (out_iov pdu)" and "unread m pdu = wires vs @ rest" and "fmt = map kind_of vs"
  shows "virtio_p9_pdu_readf m fmt pdu = Inr (0, vs, skip (length (wires vs)) pdu)"
proof -
  have "dec_step v" if "decodable v" for v using that by (cases v) simp_all
  then show ?thesis using assms decode_steps [of vs m pdu rest] by (simp add: virtio_p9_pdu_readf_def list_all_iff)
qed

text \<open>The decoder moves the read offset and nothing else, and fills one variable of the right type for each field of the format.\<close>

definition same_buffers :: "p9_pdu \<Rightarrow> p9_pdu \<Rightarrow> bool" where
  "same_buffers p q \<longleftrightarrow> queue_head q = queue_head p \<and> in_iov q = in_iov p \<and> out_iov q = out_iov p \<and> write_offset q = write_offset p"

lemma same_buffers_refl [simp]: "same_buffers p p"
  by (simp add: same_buffers_def)

lemma same_buffers_trans: "same_buffers p q \<Longrightarrow> same_buffers q r \<Longrightarrow> same_buffers p r"
  by (simp add: same_buffers_def)

lemma read_var_same: "read_var m n p = Inr (bs, q) \<Longrightarrow> same_buffers p q"
  by (auto simp: read_var_def virtio_p9_pdu_read_def rbind_eq_Inr_iff same_buffers_def split: if_splits)

lemma read_str_same: "read_str m l r p = Inr (r', s, q) \<Longrightarrow> same_buffers p q"
  by (auto simp: read_str_def rbind_eq_Inr_iff dest: read_var_same split: if_splits)

definition field_chars :: string where
  "field_chars = ''bwdqsQSI''"

definition typed :: "char \<Rightarrow> bool" where
  "typed c \<longleftrightarrow> (\<forall>m retval fmt p r vs q. virtio_p9_decode m retval (c # fmt) p = Inr (r, vs, q) \<longrightarrow>
     (\<exists>r1 p1 vs2. virtio_p9_decode m r1 fmt p1 = Inr (r, vs2, q) \<and> same_buffers p p1 \<and>
       map kind_of vs = filter (\<lambda>c. c \<in> set field_chars) [c] @ map kind_of vs2))"

lemma typedI:
  assumes "\<And>m retval fmt p r vs q. virtio_p9_decode m retval (c # fmt) p = Inr (r, vs, q) \<Longrightarrow>
     \<exists>r1 p1 vs2. virtio_p9_decode m r1 fmt p1 = Inr (r, vs2, q) \<and> same_buffers p p1 \<and>
       map kind_of vs = filter (\<lambda>c. c \<in> set field_chars) [c] @ map kind_of vs2"
  shows "typed c"
  using assms unfolding typed_def by blast

lemma typed_format:
  "list_all typed fmt \<Longrightarrow> virtio_p9_decode m retval fmt p = Inr (r, vs, q) \<Longrightarrow>
   same_buffers p q \<and> map kind_of vs = filter (\<lambda>c. c \<in> set field_chars) fmt"
proof (induction fmt arbitrary: retval p r vs)
  case (Cons c fmt)
  have "typed c" using Cons.prems(1) by simp
  then obtain r1 p1 vs2 where f: "virtio_p9_decode m r1 fmt p1 = Inr (r, vs2, q)" "same_buffers p p1"
    "map kind_of vs = filter (\<lambda>c. c \<in> set field_chars) [c] @ map kind_of vs2"
    unfolding typed_def using Cons.prems(2) by blast
  from Cons.IH [OF _ f(1)] Cons.prems(1) f(2-) show ?case by (auto intro: same_buffers_trans)
qed simp

lemma typed_basic: "typed CHR ''b''" "typed CHR ''w''" "typed CHR ''d''" "typed CHR ''q''"
  by (rule typedI, subst (asm) virtio_p9_decode.simps(2),
      fastforce simp: rbind_eq_Inr_iff field_chars_def dest!: read_var_same)+

lemma typed_str: "typed CHR ''s''"
proof (rule typedI)
  fix m retval fmt p r vs q
  assume "virtio_p9_decode m retval (CHR ''s'' # fmt) p = Inr (r, vs, q)"
  then obtain r0 ws p0 len r1 s p1 vs2 where d: "virtio_p9_decode m 0 ''w'' p = Inr (r0, ws, p0)" "read_str m len retval p0 = Inr (r1, s, p1)"
    "virtio_p9_decode m r1 fmt p1 = Inr (r, vs2, q)" "vs = VS s # vs2"
    by (subst (asm) virtio_p9_decode.simps(2)) (auto simp: rbind_eq_Inr_iff)
  have "same_buffers p p0" using typed_format [OF _ d(1)] typed_basic by simp
  then have "same_buffers p p1" using read_str_same [OF d(2)] by (rule same_buffers_trans)
  with d(3,4) show "\<exists>r1 p1 vs2. virtio_p9_decode m r1 fmt p1 = Inr (r, vs2, q) \<and> same_buffers p p1 \<and>
      map kind_of vs = filter (\<lambda>c. c \<in> set field_chars) [CHR ''s''] @ map kind_of vs2"
    by (intro exI [of _ r1] exI [of _ p1] exI [of _ vs2]) (simp add: field_chars_def)
qed

text \<open>A field that is read by a nested call with the format \<open>sub\<close>.\<close>

lemma typed_nested:
  assumes "list_all typed sub" and "\<And>v. kind_of (mk v) = c" and "c \<in> set field_chars"
    and "\<And>m retval fmt p. virtio_p9_decode m retval (c # fmt) p =
      rbind (virtio_p9_decode m 0 sub p) (\<lambda>(r, vs, p). rbind (f r vs) (\<lambda>x.
      rbind (virtio_p9_decode m r fmt p) (\<lambda>(r', vs, p'). Inr (r', mk x # vs, p'))))"
  shows "typed c"
proof (rule typedI)
  fix m retval fmt p r vs q
  assume "virtio_p9_decode m retval (c # fmt) p = Inr (r, vs, q)"
  then obtain r0 ws p0 x vs2 where d: "virtio_p9_decode m 0 sub p = Inr (r0, ws, p0)" "virtio_p9_decode m r0 fmt p0 = Inr (r, vs2, q)"
    "vs = mk x # vs2"
    unfolding assms(4) by (auto simp: rbind_eq_Inr_iff)
  with typed_format [OF assms(1) d(1)] assms(2,3) show "\<exists>r1 p1 vs2. virtio_p9_decode m r1 fmt p1 = Inr (r, vs2, q) \<and>
      same_buffers p p1 \<and> map kind_of vs = filter (\<lambda>c. c \<in> set field_chars) [c] @ map kind_of vs2"
    by (intro exI [of _ r0] exI [of _ p0] exI [of _ vs2]) simp
qed

lemma typed_qid: "typed CHR ''Q''"
  by (rule typed_nested [where sub = "''bdq''" and mk = VQid and f = "\<lambda>r vs. qid_of vs"])
    (simp_all add: typed_basic field_chars_def, subst virtio_p9_decode.simps(2), simp add: rbind_assoc split_def)

lemma typed_wstat: "typed CHR ''S''"
  by (rule typed_nested [where sub = "''wwdQdddqssss''" and mk = VWstat and
        f = "\<lambda>r vs. rbind (wstat_of vs) (\<lambda>w. Inr (if r \<noteq> 0 then virtio_p9_wstat_free w else w))"])
    (simp_all add: typed_basic typed_str typed_qid field_chars_def, subst virtio_p9_decode.simps(2), simp add: rbind_assoc split_def)

lemma typed_iattr: "typed CHR ''I''"
  by (rule typed_nested [where sub = "''ddddqqqqq''" and mk = VIattr and f = "\<lambda>r vs. iattr_of vs"])
    (simp_all add: typed_basic field_chars_def, subst virtio_p9_decode.simps(2), simp add: rbind_assoc split_def)

lemma typed_other: "c \<notin> set field_chars \<Longrightarrow> typed c"
  by (rule typedI, subst (asm) virtio_p9_decode.simps(2)) (auto simp: field_chars_def rbind_eq_Inr_iff intro: same_buffers_refl)

lemma decode_types:
  assumes "virtio_p9_decode m retval fmt p = Inr (r, vs, q)"
  shows "same_buffers p q \<and> map kind_of vs = filter (\<lambda>c. c \<in> set field_chars) fmt"
proof (rule typed_format [OF _ assms])
  have "typed c" for c
  proof (cases "c \<in> set field_chars")
    case True
    then show ?thesis using typed_basic typed_str typed_qid typed_wstat typed_iattr by (auto simp: field_chars_def)
  qed (rule typed_other)
  then show "list_all typed fmt" by (simp add: list_all_iff)
qed

section \<open>Properties\<close>

text \<open>
  C12. What \<^verbatim>\<open>virtio_p9_pdu_writef\<close> writes, \<^verbatim>\<open>virtio_p9_pdu_readf\<close> with the same format reads back. For every list of
  integers, strings, qids and stat records whose strings are shorter than 32768 bytes, and however the
  buffers are scattered, the encoder succeeds, the bytes from the write offset on are exactly the
  little-endian encoding of the list, the other bytes of the buffers keep their value, and a decoder that starts there
  returns the list and stops where the encoder stopped.
\<close>

theorem p9_pdu_roundtrip:
  assumes "list_all encodable vs" and "list_all decodable vs" and "iov_ok (length m) (in_iov pdu)"
    and "write_offset pdu + length (wires vs) \<le> iov_total (in_iov pdu)"
    and "out_iov rd = in_iov pdu" and "read_offset rd = write_offset pdu"
  shows "\<exists>m' pdu'. virtio_p9_pdu_writef (map kind_of vs) vs m pdu = Inr (0, m', pdu') \<and>
      gather m' (in_iov pdu) = blit (gather m (in_iov pdu)) (write_offset pdu) (wires vs) \<and>
      virtio_p9_pdu_readf m' (map kind_of vs) rd = Inr (0, vs, rd\<lparr>read_offset := write_offset pdu'\<rparr>)"
proof -
  obtain m' where w: "iov_write (in_iov pdu) (write_offset pdu) (wires vs) m = Inr (length (wires vs), m')" "length m' = length m"
    using iov_write_total [OF assms(3), of "write_offset pdu" "wires vs"] assms(4) by auto
  have g: "gather m' (in_iov pdu) = blit (gather m (in_iov pdu)) (write_offset pdu) (wires vs)"
    using iov_write_gather [OF w(1) assms(3,4)] .
  have wf: "virtio_p9_pdu_writef (map kind_of vs) vs m pdu = Inr (0, m', pdu\<lparr>write_offset := write_offset pdu + length (wires vs)\<rparr>)"
    using writef_wires [OF assms(1,3) refl] w by (simp add: virtio_p9_pdu_write_def)
  have "unread m' rd = wires vs @ drop (write_offset pdu + length (wires vs)) (gather m (in_iov pdu))"
    using g assms(4-6) length_gather [OF assms(3)] by (simp add: unread_def blit_def)
  then have "virtio_p9_pdu_readf m' (map kind_of vs) rd = Inr (0, vs, skip (length (wires vs)) rd)"
    using assms(2,3,5) w(2) by (intro readf_wires) simp_all
  with wf g assms(6) show ?thesis by simp
qed

definition sample_vals :: "p9_val list" where
  "sample_vals = [VD 7, VS (Some [102, 111]), VQid \<lparr>qid_type = 128, qid_version = 3, qid_path = 258\<rparr>]"

definition sample_in :: p9_pdu where
  "sample_in = \<lparr>queue_head = 0, read_offset = 0, write_offset = 7,
     in_iov = [\<lparr>iov_base = 40, iov_len = 12\<rparr>, \<lparr>iov_base = 2, iov_len = 30\<rparr>], out_iov = []\<rparr>"

definition sample_out :: p9_pdu where
  "sample_out = sample_in\<lparr>read_offset := 7, out_iov := in_iov sample_in, in_iov := []\<rparr>"

theorem p9_pdu_roundtrip_witness:
  "\<exists>m' pdu'. virtio_p9_pdu_writef ''dsQ'' sample_vals (replicate 64 0) sample_in = Inr (0, m', pdu') \<and>
      gather m' (in_iov sample_in) = blit (gather (replicate 64 0) (in_iov sample_in)) 7 (wires sample_vals) \<and>
      virtio_p9_pdu_readf m' ''dsQ'' sample_out = Inr (0, sample_vals, sample_out\<lparr>read_offset := write_offset pdu'\<rparr>)"
  using p9_pdu_roundtrip [of sample_vals "replicate 64 0" sample_in sample_out]
  by (simp add: sample_vals_def sample_in_def sample_out_def inside_def apart_def str_bytes_def)

text \<open>
  A string of 32768 to 65534 bytes is encoded, but its length is negative for the decoder: the result is a null pointer
  with \<^verbatim>\<open>ENOMEM\<close>, and the bytes of the string are taken for the next field.
\<close>

lemma p9_long_string_lost:
  assumes "32768 \<le> length bs" and "length bs < 65535" and "iov_ok (length m) (out_iov pdu)" and "unread m pdu = wire (VS (Some bs)) @ rest"
  shows "virtio_p9_pdu_readf m ''s'' pdu = Inr (ENOMEM, [VS None], skip 2 pdu)"
proof -
  let ?l = "of_nat (length bs) :: u16"
  have sb: "str_bytes (Some bs) = bs" using assms(2) by (simp add: str_bytes_def)
  have un: "unat ?l = length bs" using assms(2) by (simp add: unat_of_nat)
  have "(int (length bs) + 32768) mod 65536 = (int (length bs) - 32768 + 65536) mod 65536" by (simp add: add.commute)
  also have "\<dots> = int (length bs) - 32768" unfolding mod_add_self2 using assms(1,2) by (intro mod_pos_pos_trivial) auto
  finally have "sint ?l < -1"
    using assms(2) un by (simp add: sint_uint uint_nat signed_take_bit_eq_take_bit_shift take_bit_eq_mod)
  moreover have "virtio_p9_decode m 0 ''w'' pdu = Inr (0, [VW ?l], skip 2 pdu)"
    using decode_steps [of "[VW ?l]"] assms(3,4) sb by simp
  ultimately show ?thesis
    by (simp add: virtio_p9_pdu_readf_def decode_composite arg_defs read_str_def)
qed



end
