(* ===== verification/P9fid.thy ===== *)
theory P9fid
  imports Prelude Rbtree
begin

text \<open>
  The names of the 9P file server in \<^verbatim>\<open>virtio/9p.c\<close>: paths of the host, made from the names the guest sends, and the table of
  fids, the guest's handles for files. Paths are lists of bytes without the terminating zero. A fid
  is an object of a store, at an address; the red-black tree \<open>fids\<close> holds the addresses of those that are linked. The table is searched with an
  unsigned comparison and filled with the sign of a difference, so it is a map only for
  fids that lie within half the range.
\<close>

section \<open>Paths\<close>

type_synonym path = "u8 list"

abbreviation (input) slash :: u8 where "slash \<equiv> 47"
abbreviation (input) dotdot :: path where "dotdot \<equiv> [46, 46]"
abbreviation (input) PATH_MAX :: nat where "PATH_MAX \<equiv> 4096"
abbreviation (input) ENAMETOOLONG :: int where "ENAMETOOLONG \<equiv> 36"
abbreviation (input) EACCES :: int where "EACCES \<equiv> 13"

fun strstr :: "path \<Rightarrow> path \<Rightarrow> bool" where
  "strstr [] needle = (needle = [])"
| "strstr (c # cs) needle = (take (length needle) (c # cs) = needle \<or> strstr cs needle)"

definition path_is_illegal :: "path \<Rightarrow> bool" where
  "path_is_illegal p =
     (if strstr p [47, 46, 46, 47] then True
      else if 3 \<le> length p \<and> drop (length p - 3) p = [47, 46, 46] then True
      else False)"

text \<open>The result is the path, or the value that \<^verbatim>\<open>errno\<close> gets.\<close>

definition get_full_path_helper :: "nat \<Rightarrow> path \<Rightarrow> path \<Rightarrow> int + path" where
  "get_full_path_helper n dirname name =
     (let full = dirname @ slash # name
      in if n \<le> length full then Inl ENAMETOOLONG
         else if path_is_illegal full then Inl EACCES
         else Inr full)"

definition virtio_p9_ancestor :: "path \<Rightarrow> path \<Rightarrow> bool" where
  "virtio_p9_ancestor p ancestor =
     (let size = length ancestor
      in take size p = ancestor \<and> (length p = size \<or> p ! size = slash))"

text \<open>The components of a path, between its slashes.\<close>

fun comps :: "path \<Rightarrow> path list" where
  "comps [] = [[]]"
| "comps (c # cs) = (if c = slash then [] # comps cs else (c # hd (comps cs)) # tl (comps cs))"

lemma comps_not_Nil [simp]: "comps p \<noteq> []"
  by (cases p) simp_all

lemma comps_append: "comps (a @ slash # b) = comps a @ comps b"
  by (induction a) simp_all

lemma hd_comps_dotdot: "hd (comps p) = dotdot \<longleftrightarrow> take 3 p = [46, 46, 47] \<or> p = [46, 46]"
proof -
  have e: "hd (comps q) = [] \<longleftrightarrow> q = [] \<or> hd q = slash" for q by (cases q) auto
  show ?thesis
  proof (cases p)
    case (Cons a q)
    then show ?thesis
    proof (cases q)
      case (Cons b r)
      with \<open>p = a # q\<close> e [of r] show ?thesis by (cases r) (auto simp: numeral_3_eq_3)
    qed auto
  qed auto
qed

lemma illegal_Cons: "path_is_illegal (c # p) \<longleftrightarrow> (c = slash \<and> hd (comps p) = dotdot) \<or> path_is_illegal p"
proof -
  have s: "3 \<le> length (c # p) \<and> drop (length (c # p) - 3) (c # p) = [47, 46, 46] \<longleftrightarrow>
      c # p = [47, 46, 46] \<or> 3 \<le> length p \<and> drop (length p - 3) p = [47, 46, 46]"
  proof (cases "3 \<le> length p")
    case True
    then have "length (c # p) - 3 = Suc (length p - 3)" by simp
    with True show ?thesis by auto
  next
    case False
    then show ?thesis by (auto simp: le_Suc_eq numeral_3_eq_3)
  qed
  have "take 4 (c # p) = [47, 46, 46, 47] \<longleftrightarrow> c = slash \<and> take 3 p = [46, 46, 47]" by (simp add: numeral_eq_Suc)
  then show ?thesis
    unfolding path_is_illegal_def hd_comps_dotdot using s by (auto simp: numeral_3_eq_3)
qed

text \<open>The string search finds exactly the paths with a component \<^verbatim>\<open>..\<close> after a slash.\<close>

lemma illegal_iff: "path_is_illegal p \<longleftrightarrow> dotdot \<in> set (tl (comps p))"
proof (induction p)
  case Nil
  then show ?case by (simp add: path_is_illegal_def)
next
  case (Cons c p)
  have "dotdot \<in> set (comps p) \<longleftrightarrow> hd (comps p) = dotdot \<or> dotdot \<in> set (tl (comps p))"
    by (cases "comps p") auto
  then show ?case using Cons by (simp add: illegal_Cons)
qed

lemma illegal_append:
  "path_is_illegal (a @ slash # b) \<longleftrightarrow> path_is_illegal a \<or> dotdot \<in> set (comps b)"
  by (simp add: illegal_iff comps_append)

text \<open>Below a directory: the directory itself, or a slash and names none of which is \<^verbatim>\<open>..\<close>.\<close>

definition below :: "path \<Rightarrow> path \<Rightarrow> bool" where
  "below root p \<longleftrightarrow> p = root \<or> (\<exists>q. p = root @ slash # q \<and> dotdot \<notin> set (comps q))"

lemma full_path_below:
  assumes "get_full_path_helper n d name = Inr full" and "below root d"
  shows "below root full"
proof -
  have f: "full = d @ slash # name" "dotdot \<notin> set (comps name)"
    using assms(1) by (auto simp: get_full_path_helper_def Let_def illegal_append split: if_splits)
  from assms(2) consider "d = root" | q where "d = root @ slash # q" "dotdot \<notin> set (comps q)"
    unfolding below_def by blast
  then show ?thesis
  proof cases
    case 2
    then have "full = root @ slash # (q @ slash # name)" "dotdot \<notin> set (comps (q @ slash # name))"
      using f by (simp_all add: comps_append)
    then show ?thesis unfolding below_def by blast
  qed (use f in \<open>auto simp: below_def\<close>)
qed

section \<open>Fids\<close>

text \<open>
  The buffer \<^verbatim>\<open>abs_path\<close> of a fid starts with the root directory of the device and \<^verbatim>\<open>path\<close> points behind it; the model keeps the part from there on.
  \<open>dir\<close> is the handle of an open directory and \<open>fd\<close> the descriptor of an open file.
\<close>

record p9_fid =
  fid :: u32
  uid :: u32
  path :: path
  dir :: "int option"
  fd :: int

text \<open>A node of the tree: the number of the fid and the address of the object.\<close>

type_synonym fid_tree = "(u32 \<times> nat) rbt"

record p9_table =
  root_dir :: path
  fids :: fid_tree
  objs :: "p9_fid option list"

definition abs_path :: "p9_table \<Rightarrow> p9_fid \<Rightarrow> path" where
  "abs_path t f = root_dir t @ path f"

definition find_dir :: "u32 \<Rightarrow> u32 \<times> nat \<Rightarrow> dir" where
  "find_dir k x = (if k < fst x then Lt else if fst x < k then Gt else Eq)"

text \<open>\<^verbatim>\<open>int result = fid->fid - cur->fid\<close>.\<close>

definition insert_dir :: "u32 \<Rightarrow> u32 \<times> nat \<Rightarrow> dir" where
  "insert_dir k x = (let result = sint (k - fst x) in if result < 0 then Lt else if 0 < result then Gt else Eq)"

text \<open>\<^verbatim>\<open>insert_new_fid\<close>: \<^verbatim>\<open>-EEXIST\<close> leaves the tree unchanged, and its caller does not look at the result.\<close>

definition insert_new_fid :: "u32 \<times> nat \<Rightarrow> fid_tree \<Rightarrow> fid_tree result" where
  "insert_new_fid x t =
     (case rb_descend (insert_dir (fst x)) t [] of
        (Leaf, ps) \<Rightarrow> rb_insert_color (Node Red Leaf x Leaf) ps
      | (Node c l y r, ps) \<Rightarrow> Inr t)"

definition new_fid :: "u32 \<Rightarrow> p9_fid" where
  "new_fid k = \<lparr>fid = k, uid = 0, path = [], dir = None, fd = 0\<rparr>"

text \<open>A null result is used by every caller without a check.\<close>

definition find_or_create_fid :: "u32 \<Rightarrow> p9_table \<Rightarrow> (nat \<times> p9_table) result" where
  "find_or_create_fid k t =
     (case rb_descend (find_dir k) (fids t) [] of
        (Node c l x r, ps) \<Rightarrow> Inr (snd x, t)
      | (Leaf, ps) \<Rightarrow>
          if PATH_MAX \<le> length (root_dir t) then Inl NullDeref
          else
            let a = length (objs t)
            in rbind (insert_new_fid (k, a) (fids t)) (\<lambda>tree.
               Inr (a, t\<lparr>fids := tree, objs := objs t @ [Some (new_fid k)]\<rparr>)))"

definition get_fid :: "u32 \<Rightarrow> p9_table \<Rightarrow> (nat \<times> p9_table) result" where
  "get_fid k t = find_or_create_fid k t"

definition fid_at :: "nat \<Rightarrow> p9_table \<Rightarrow> p9_fid result" where
  "fid_at a t = rbind (aget (objs t) a) (\<lambda>f. case f of None \<Rightarrow> Inl UseAfterFree | Some x \<Rightarrow> Inr x)"

definition set_fid :: "nat \<Rightarrow> p9_fid \<Rightarrow> p9_table \<Rightarrow> p9_table" where
  "set_fid a f t = t\<lparr>objs := (objs t)[a := Some f]\<rparr>"

text \<open>
  \<^verbatim>\<open>rb_erase\<close> of an object that \<^verbatim>\<open>insert_new_fid\<close> did not link: its node is all zero, which is a red
  root without children.
\<close>

definition erase_node :: "u32 \<times> nat \<Rightarrow> fid_tree \<Rightarrow> fid_tree result" where
  "erase_node x t =
     (case rb_place (\<lambda>y. snd y = snd x) t [] of
        Some (u, ps) \<Rightarrow> rb_erase u ps
      | None \<Rightarrow> rb_erase (Node Red Leaf x Leaf) [])"

text \<open>\<^verbatim>\<open>close_fid\<close> returns the descriptor and the directory that it closes.\<close>

definition close_fid :: "u32 \<Rightarrow> p9_table \<Rightarrow> (int option \<times> int option \<times> p9_table) result" where
  "close_fid k t =
     rbind (get_fid k t) (\<lambda>(a, t1).
     rbind (fid_at a t1) (\<lambda>f.
     rbind (erase_node (fid f, a) (fids t1)) (\<lambda>tree.
     Inr (if 0 < fd f then Some (fd f) else None, dir f, t1\<lparr>fids := tree, objs := (objs t1)[a := None]\<rparr>))))"

text \<open>\<^verbatim>\<open>join_path\<close> returns false when the name does not fit behind the root directory.\<close>

definition path_size :: "p9_table \<Rightarrow> nat" where
  "path_size t = PATH_MAX - length (root_dir t)"

definition join_path :: "nat \<Rightarrow> path \<Rightarrow> p9_table \<Rightarrow> (bool \<times> p9_table) result" where
  "join_path a name t =
     rbind (fid_at a t) (\<lambda>f.
     if path_size t \<le> length name then Inr (False, t)
     else Inr (True, set_fid a (f\<lparr>path := name\<rparr>) t))"

definition virtio_p9_fix_path :: "nat \<Rightarrow> path \<Rightarrow> path \<Rightarrow> p9_table \<Rightarrow> (bool \<times> p9_table) result" where
  "virtio_p9_fix_path a old_name new_name t =
     rbind (fid_at a t) (\<lambda>f.
     if length old_name = length (path f) then join_path a new_name t
     else
       let tmp = new_name @ drop (length old_name) (path f)
       in if PATH_MAX \<le> length tmp then Inr (False, t) else join_path a tmp t)"

text \<open>The walk of \<^verbatim>\<open>rename_fids\<close> through the tree in order; it changes objects, not the tree.\<close>

definition rename_one :: "path \<Rightarrow> path \<Rightarrow> u32 \<times> nat \<Rightarrow> p9_table \<Rightarrow> p9_table result" where
  "rename_one old_name new_name x t =
     rbind (fid_at (snd x) t) (\<lambda>f.
     if fid f \<noteq> 0xFFFFFFFF \<and> virtio_p9_ancestor (path f) old_name
     then rbind (virtio_p9_fix_path (snd x) old_name new_name t) (\<lambda>(_, t'). Inr t')
     else Inr t)"

definition rename_fids :: "path \<Rightarrow> path \<Rightarrow> p9_table \<Rightarrow> p9_table result" where
  "rename_fids old_name new_name t = rfold (rename_one old_name new_name) (inorder (fids t)) t"

section \<open>The table as a map\<close>

lemma insert_dir_eq:
  assumes "k < 0x80000000" and "fst x < 0x80000000"
  shows "insert_dir k x = find_dir k x"
proof -
  define d where "d = uint k - uint (fst x)"
  have b: "uint k < 2147483648" "uint (fst x) < 2147483648" "0 \<le> uint k" "0 \<le> uint (fst x)"
    using assms by (simp_all add: word_less_alt)
  have u: "uint (k - fst x) = d mod 4294967296" unfolding d_def by (simp add: uint_word_ariths)
  have "sint (k - fst x) = (d mod 4294967296 + 2147483648) mod 4294967296 - 2147483648"
    unfolding sint_uint u by (simp add: signed_take_bit_eq_take_bit_shift take_bit_eq_mod)
  also have "(d mod 4294967296 + 2147483648) mod 4294967296 = (d + 2147483648) mod 4294967296"
    by (simp add: mod_add_left_eq)
  also have "\<dots> = d + 2147483648" using b unfolding d_def by (intro mod_pos_pos_trivial) linarith+
  finally have "sint (k - fst x) = d" by simp
  then show ?thesis by (simp add: insert_dir_def find_dir_def d_def word_less_alt)
qed

lemma descend_cong:
  "\<forall>x \<in> set (inorder t). f x = g x \<Longrightarrow> rb_descend f t ps = rb_descend g t ps"
  by (induction t arbitrary: ps) (auto split: dir.splits)

abbreviation key_less :: "u32 \<times> nat \<Rightarrow> u32 \<times> nat \<Rightarrow> bool" where
  "key_less x y \<equiv> fst x < fst y"

lemma find_dir_cases:
  "k < fst x \<Longrightarrow> find_dir k x = Lt" "fst x < k \<Longrightarrow> find_dir k x = Gt" "fst x = k \<Longrightarrow> find_dir k x = Eq"
  by (auto simp: find_dir_def)

lemma find_place:
  "rb_descend (find_dir k) t ps = (u, qs) \<Longrightarrow> sorted_wrt key_less (inorder t) \<Longrightarrow>
   \<forall>x \<in> set (left_of ps). fst x < k \<Longrightarrow> \<forall>x \<in> set (right_of ps). k < fst x \<Longrightarrow>
   (case u of Leaf \<Rightarrow> (\<forall>x \<in> set (left_of qs). fst x < k) \<and> (\<forall>x \<in> set (right_of qs). k < fst x)
    | Node c l x r \<Rightarrow> fst x = k \<and> x \<in> set (inorder t))"
proof (induction t arbitrary: ps)
  case (Node c l x r)
  have s: "sorted_wrt key_less (inorder l)" "sorted_wrt key_less (inorder r)" "\<forall>y \<in> set (inorder l). fst y < fst x"
    "\<forall>y \<in> set (inorder r). fst x < fst y"
    using Node.prems(2) by (auto simp: sorted_wrt_append)
  consider "k < fst x" | "fst x < k" | "fst x = k" by (metis linorder_less_linear)
  then show ?case
  proof cases
    case 1
    then have "rb_descend (find_dir k) l (LeftOf c x r # ps) = (u, qs)" using Node.prems(1) by (simp add: find_dir_cases)
    from Node.IH(1) [OF this s(1)] show ?thesis using Node.prems(3,4) s 1 by (fastforce split: rbt.splits)
  next
    case 2
    then have "rb_descend (find_dir k) r (RightOf c l x # ps) = (u, qs)" using Node.prems(1) by (simp add: find_dir_cases)
    from Node.IH(2) [OF this s(2)] show ?thesis using Node.prems(3,4) s 2 by (fastforce split: rbt.splits)
  next
    case 3
    then show ?thesis using Node.prems(1) by (auto simp: find_dir_cases)
  qed
qed simp

definition linked :: "p9_table \<Rightarrow> u32 \<times> nat \<Rightarrow> bool" where
  "linked t x \<longleftrightarrow> fst x < 0x80000000 \<and> snd x < length (objs t) \<and> (\<exists>f. objs t ! snd x = Some f \<and> fid f = fst x)"

lemma linked_key: "\<forall>x \<in> set xs. linked t x \<Longrightarrow> (k, a) \<in> set xs \<Longrightarrow> map_option fid (objs t ! a) = Some k"
  by (fastforce simp: linked_def)

definition table_ok :: "p9_table \<Rightarrow> bool" where
  "table_ok t \<longleftrightarrow> rb_tree (fids t) \<and> sorted_wrt key_less (inorder (fids t)) \<and>
     (\<forall>x \<in> set (inorder (fids t)). linked t x) \<and> length (root_dir t) < PATH_MAX"

definition handles :: "p9_table \<Rightarrow> u32 \<rightharpoonup> nat" where
  "handles t = map_of (inorder (fids t))"

lemma sorted_distinct: "sorted_wrt key_less xs \<Longrightarrow> distinct (map fst xs)"
  by (induction xs) auto

lemma handles_iff: "table_ok t \<Longrightarrow> handles t k = Some a \<longleftrightarrow> (k, a) \<in> set (inorder (fids t))"
  unfolding handles_def table_ok_def by (intro map_of_eq_Some_iff sorted_distinct) simp

lemma handles_inj: "table_ok t \<Longrightarrow> handles t k = Some a \<Longrightarrow> handles t j = Some a \<Longrightarrow> k = j"
  using linked_key [of "inorder (fids t)" t k a] linked_key [of "inorder (fids t)" t j a] by (auto simp: handles_iff table_ok_def)

lemma find_known:
  assumes "table_ok t" and "handles t k = Some a"
  shows "get_fid k t = Inr (a, t)"
proof -
  obtain u qs where d: "rb_descend (find_dir k) (fids t) [] = (u, qs)" by fastforce
  have p: "case u of Leaf \<Rightarrow> (\<forall>x \<in> set (left_of qs). fst x < k) \<and> (\<forall>x \<in> set (right_of qs). k < fst x)
    | Node c l x r \<Rightarrow> fst x = k \<and> x \<in> set (inorder (fids t))"
    using find_place [OF d] assms(1) by (simp add: table_ok_def)
  have ka: "(k, a) \<in> set (inorder (fids t))" using assms by (simp add: handles_iff)
  show ?thesis
  proof (cases u)
    case Leaf
    then have "inorder (fids t) = left_of qs @ right_of qs" using rb_descend_plug [OF d] inorder_plug [of u qs] by simp
    then show ?thesis using p ka Leaf by fastforce
  next
    case (Node c l x r)
    then have "handles t k = Some (snd x)" using p assms(1) by (simp add: handles_iff) (metis prod.collapse)
    then show ?thesis using d Node assms(2) by (simp add: get_fid_def find_or_create_fid_def)
  qed
qed

lemma insert_new_ok:
  assumes "rb_tree t" and "sorted_wrt key_less (inorder t)" and "\<forall>x \<in> set (inorder t). fst x < 0x80000000" and "k < 0x80000000"
    and "k \<notin> fst ` set (inorder t)"
  shows "\<exists>u. insert_new_fid (k, a) t = Inr u \<and> rb_tree u \<and> sorted_wrt key_less (inorder u) \<and>
    set (inorder u) = insert (k, a) (set (inorder t))"
proof -
  obtain v qs where d: "rb_descend (find_dir k) t [] = (v, qs)" by fastforce
  have p: "case v of Leaf \<Rightarrow> (\<forall>x \<in> set (left_of qs). fst x < k) \<and> (\<forall>x \<in> set (right_of qs). k < fst x)
    | Node c l x r \<Rightarrow> fst x = k \<and> x \<in> set (inorder t)"
    using find_place [OF d assms(2)] by simp
  then have v: "v = Leaf" using assms(5) by (cases v) auto
  have i: "rb_descend (insert_dir k) t [] = (Leaf, qs)"
    using descend_cong [of t "insert_dir k" "find_dir k" "[]"] insert_dir_eq [OF assms(4)] assms(3) d v by simp
  from insert_rb_tree [OF assms(1) i, of "(k, a)"] obtain u where
    u: "rb_insert_color (Node Red Leaf (k, a) Leaf) qs = Inr u" "rb_tree u" "inorder t = left_of qs @ right_of qs"
      "inorder u = left_of qs @ (k, a) # right_of qs" by blast
  have "sorted_wrt key_less (inorder u)" using u(3,4) p v assms(2) by (auto simp: sorted_wrt_append)
  then show ?thesis using u i by (simp add: insert_new_fid_def)
qed

lemma handles_None_iff: "handles t k = None \<longleftrightarrow> k \<notin> fst ` set (inorder (fids t))"
  by (simp add: handles_def map_of_eq_None_iff)

lemma handles_eqI:
  assumes "table_ok t" and "\<And>k a. (k, a) \<in> set (inorder (fids t)) \<longleftrightarrow> m k = Some a"
  shows "handles t = m"
proof
  fix k
  show "handles t k = m k" using handles_iff [OF assms(1), of k] assms(2) [of k] by (metis not_None_eq)
qed

lemma find_new:
  assumes "table_ok t" and "handles t k = None" and "k < 0x80000000"
  shows "\<exists>t'. get_fid k t = Inr (length (objs t), t') \<and> table_ok t' \<and> handles t' = (handles t)(k \<mapsto> length (objs t)) \<and>
    objs t' = objs t @ [Some (new_fid k)] \<and> root_dir t' = root_dir t"
proof -
  let ?a = "length (objs t)"
  note ok = assms(1) [unfolded table_ok_def]
  have notin: "k \<notin> fst ` set (inorder (fids t))" using assms(2) by (simp add: handles_None_iff)
  obtain v qs where d: "rb_descend (find_dir k) (fids t) [] = (v, qs)" by fastforce
  have v: "v = Leaf" using find_place [OF d] ok notin by (cases v) auto
  obtain u where u: "insert_new_fid (k, ?a) (fids t) = Inr u" "rb_tree u" "sorted_wrt key_less (inorder u)"
    "set (inorder u) = insert (k, ?a) (set (inorder (fids t)))"
    using insert_new_ok [of "fids t" k ?a] ok notin assms(3) by (auto simp: linked_def)
  let ?t = "t\<lparr>fids := u, objs := objs t @ [Some (new_fid k)]\<rparr>"
  have "linked ?t x" if "x \<in> set (inorder u)" for x
    using that u(4) ok assms(3) by (auto simp: linked_def new_fid_def nth_append)
  then have t': "table_ok ?t" using u ok by (simp add: table_ok_def)
  moreover have "handles ?t = (handles t)(k \<mapsto> ?a)"
    using u(4) handles_iff [OF assms(1)] notin by (intro handles_eqI [OF t']) (auto simp: image_iff)
  moreover have "get_fid k t = Inr (?a, ?t)"
    using d v u(1) ok by (simp add: get_fid_def find_or_create_fid_def Let_def)
  ultimately show ?thesis by auto
qed

lemma close_known:
  assumes "table_ok t" and "handles t k = Some a"
  shows "\<exists>c d t'. close_fid k t = Inr (c, d, t') \<and> table_ok t' \<and> handles t' = (handles t)(k := None) \<and>
    objs t' = (objs t)[a := None]"
proof -
  note ok = assms(1) [unfolded table_ok_def]
  have ka: "(k, a) \<in> set (inorder (fids t))" using assms by (simp add: handles_iff)
  then obtain f where f: "a < length (objs t)" "objs t ! a = Some f" "fid f = k"
    using ok by (fastforce simp: linked_def)
  have "\<exists>x \<in> set (inorder (fids t)). snd x = a" using ka by force
  then obtain u xs x ys where u: "rb_remove (\<lambda>y. snd y = a) (fids t) = Inr u" "rb_tree u" "snd x = a"
    "inorder (fids t) = xs @ x # ys" "inorder u = xs @ ys"
    using remove_rb_tree [of "fids t" "\<lambda>y. snd y = a"] ok by blast
  have x: "x = (k, a)" using u(3,4) ok ka f by (cases x) (auto simp: linked_def)
  have e: "erase_node (k, a) (fids t) = Inr u"
    using u(1) by (auto simp: erase_node_def rb_remove_def split: option.splits)
  let ?t = "t\<lparr>fids := u, objs := (objs t)[a := None]\<rparr>"
  have others: "snd y \<noteq> a" "fst y \<noteq> k" if "y \<in> set xs \<union> set ys" for y
  proof -
    show "fst y \<noteq> k" using that ok u(4) x by (auto simp: sorted_wrt_append)
    moreover have "(fst y, snd y) \<in> set (inorder (fids t))" using that u(4) by auto
    ultimately show "snd y \<noteq> a" using linked_key [of "inorder (fids t)" t "fst y" "snd y"] ok f by auto
  qed
  have "linked ?t y" if "y \<in> set (inorder u)" for y
    using that others [of y] ok u(4,5) by (auto simp: linked_def)
  then have t': "table_ok ?t" using u ok by (auto simp: table_ok_def sorted_wrt_append)
  moreover have "(k, b) \<notin> set xs" "(k, b) \<notin> set ys" for b using others(2) [of "(k, b)"] by auto
  then have "handles ?t = (handles t)(k := None)"
    using others u(4,5) x handles_iff [OF assms(1)] by (intro handles_eqI [OF t']) (auto simp: image_iff)
  moreover have "\<exists>c d. close_fid k t = Inr (c, d, ?t)"
    using find_known [OF assms] f e by (simp add: close_fid_def fid_at_def)
  ultimately show ?thesis by auto
qed

lemma close_unknown:
  assumes "table_ok t" and "handles t k = None" and "k < 0x80000000"
  shows "\<exists>c d t'. close_fid k t = Inr (c, d, t') \<and> table_ok t' \<and> handles t' = handles t"
proof -
  obtain t1 where t1: "get_fid k t = Inr (length (objs t), t1)" "table_ok t1" "handles t1 = (handles t)(k \<mapsto> length (objs t))"
    using find_new [OF assms] by blast
  then have k: "handles t1 k = Some (length (objs t))" by simp
  have "close_fid k t = close_fid k t1" unfolding close_fid_def t1(1) find_known [OF t1(2) k] by simp
  with close_known [OF t1(2) k] t1(3) assms(2) show ?thesis by (auto simp: fun_upd_idem)
qed

section \<open>Interface: a table of handles\<close>

text \<open>
  What the handlers of the protocol rely on: a handle that is known keeps its object, a new one gets an object of its
  own, and after a handle was closed it is unknown. \<open>good\<close> are the handles for which the table promises it. A
  client uses and closes handles in any order.
\<close>

fun handle_use :: "('k \<Rightarrow> 't \<Rightarrow> ('a \<times> 't) result) \<Rightarrow> ('k \<Rightarrow> 't \<Rightarrow> 't result) \<Rightarrow> 'k \<times> bool \<Rightarrow> 't \<Rightarrow> 't result" where
  "handle_use lookup close (k, True) t = rbind (lookup k t) (\<lambda>(_, t'). Inr t')"
| "handle_use lookup close (k, False) t = close k t"

fun live :: "'k set \<Rightarrow> ('k \<times> bool) list \<Rightarrow> 'k set" where
  "live K [] = K"
| "live K ((k, b) # us) = live (if b then insert k K else K - {k}) us"

lemma live_single: "live K ((k, b) # us) = live (live K [(k, b)]) us"
  by simp

locale handle_table =
  fixes inv :: "'t \<Rightarrow> bool"
    and tab :: "'t \<Rightarrow> 'k \<rightharpoonup> 'a"
    and good :: "'k \<Rightarrow> bool"
    and lookup :: "'k \<Rightarrow> 't \<Rightarrow> ('a \<times> 't) result"
    and close :: "'k \<Rightarrow> 't \<Rightarrow> 't result"
  assumes lookup_known: "inv t \<Longrightarrow> tab t k = Some a \<Longrightarrow> lookup k t = Inr (a, t)"
    and lookup_new: "inv t \<Longrightarrow> good k \<Longrightarrow> tab t k = None \<Longrightarrow>
      \<exists>a t'. lookup k t = Inr (a, t') \<and> inv t' \<and> tab t' = (tab t)(k \<mapsto> a)"
    and close_gone: "inv t \<Longrightarrow> good k \<Longrightarrow> \<exists>t'. close k t = Inr t' \<and> inv t' \<and> tab t' = (tab t)(k := None)"
    and no_sharing: "inv t \<Longrightarrow> tab t k = Some a \<Longrightarrow> tab t j = Some a \<Longrightarrow> k = j"
begin

lemma use_ok:
  assumes "inv t" and "good k"
  shows "\<exists>t'. handle_use lookup close (k, b) t = Inr t' \<and> inv t' \<and> dom (tab t') = live (dom (tab t)) [(k, b)] \<and> (\<forall>j. j \<noteq> k \<longrightarrow> tab t' j = tab t j)"
proof (cases b)
  case True
  show ?thesis
  proof (cases "tab t k")
    case None
    from lookup_new [OF assms None] True show ?thesis by auto
  next
    case (Some a)
    with lookup_known [OF assms(1) Some] assms(1) True show ?thesis by (auto simp: insert_absorb)
  qed
next
  case False
  with close_gone [OF assms] show ?thesis by auto
qed

lemma uses_ok:
  "inv t \<Longrightarrow> \<forall>u \<in> set us. good (fst u) \<Longrightarrow>
   \<exists>t'. rfold (handle_use lookup close) us t = Inr t' \<and> inv t' \<and> dom (tab t') = live (dom (tab t)) us \<and> (\<forall>j. j \<notin> fst ` set us \<longrightarrow> tab t' j = tab t j) \<and>
     inj_on (tab t') (dom (tab t'))"
proof (induction us arbitrary: t)
  case Nil
  then show ?case using no_sharing by (auto intro!: inj_onI)
next
  case (Cons u us)
  obtain k b where u: "u = (k, b)" by fastforce
  obtain t1 where t1: "handle_use lookup close (k, b) t = Inr t1" "inv t1" "dom (tab t1) = live (dom (tab t)) [(k, b)]" "\<forall>j. j \<noteq> k \<longrightarrow> tab t1 j = tab t j"
    using use_ok [of t k b] Cons.prems u by auto
  with Cons.IH [OF t1(2)] Cons.prems(2) u show ?case by (auto simp: live_single [of _ k b us] simp del: live.simps(2))
qed

end

definition closed :: "u32 \<Rightarrow> p9_table \<Rightarrow> p9_table result" where
  "closed k t = rbind (close_fid k t) (\<lambda>(_, _, t'). Inr t')"

interpretation fid_handles: handle_table table_ok handles "\<lambda>k. k < 0x80000000" get_fid closed
proof unfold_locales
  fix t k j a
  show "table_ok t \<Longrightarrow> handles t k = Some a \<Longrightarrow> get_fid k t = Inr (a, t)" by (rule find_known)
  show "table_ok t \<Longrightarrow> k < 0x80000000 \<Longrightarrow> handles t k = None \<Longrightarrow>
      \<exists>a t'. get_fid k t = Inr (a, t') \<and> table_ok t' \<and> handles t' = (handles t)(k \<mapsto> a)"
    using find_new [of t k] by blast
  show "table_ok t \<Longrightarrow> k < 0x80000000 \<Longrightarrow>
      \<exists>t'. closed k t = Inr t' \<and> table_ok t' \<and> handles t' = (handles t)(k := None)"
  proof (cases "handles t k")
    case None
    assume "table_ok t" "k < 0x80000000"
    with close_unknown [OF this(1) None this(2)] None show ?thesis by (auto simp: closed_def fun_upd_idem)
  next
    case (Some a)
    assume "table_ok t"
    with close_known [OF this Some] show ?thesis by (auto simp: closed_def)
  qed
  show "table_ok t \<Longrightarrow> handles t k = Some a \<Longrightarrow> handles t j = Some a \<Longrightarrow> k = j" by (rule handles_inj)
qed

section \<open>Renaming\<close>

lemma fid_at_iff: "fid_at a t = Inr f \<longleftrightarrow> a < length (objs t) \<and> objs t ! a = Some f"
  by (auto simp: fid_at_def rbind_eq_Inr_iff aget_eq_Inr_iff split: option.splits)

text \<open>What a renaming does to an object: its path is replaced when it is the old name.\<close>

definition renamed :: "path \<Rightarrow> path \<Rightarrow> p9_table \<Rightarrow> p9_table \<Rightarrow> nat \<Rightarrow> bool" where
  "renamed old new t t' a \<longleftrightarrow> (\<forall>f. fid_at a t = Inr f \<and> fid f \<noteq> 0xFFFFFFFF \<and> path f = old \<and> length new < path_size t \<longrightarrow>
     fid_at a t' = Inr (f\<lparr>path := new\<rparr>))"

definition same_table :: "p9_table \<Rightarrow> p9_table \<Rightarrow> bool" where
  "same_table t t' \<longleftrightarrow> root_dir t' = root_dir t \<and> fids t' = fids t \<and> length (objs t') = length (objs t)"

lemma join_ok:
  assumes "fid_at a t = Inr f"
  shows "\<exists>b t'. join_path a name t = Inr (b, t') \<and> same_table t t' \<and> (\<forall>c. c \<noteq> a \<longrightarrow> objs t' ! c = objs t ! c) \<and> objs t' ! a \<noteq> None \<and>
    (length name < path_size t \<longrightarrow> fid_at a t' = Inr (f\<lparr>path := name\<rparr>))"
proof -
  have a: "a < length (objs t)" "objs t ! a = Some f" using assms by (simp_all add: fid_at_iff)
  have "join_path a name t = (if path_size t \<le> length name then Inr (False, t) else Inr (True, set_fid a (f\<lparr>path := name\<rparr>) t))"
    by (simp add: join_path_def assms)
  then show ?thesis using a by (auto simp: set_fid_def same_table_def fid_at_iff)
qed

lemma rename_one_ok:
  assumes "fid_at (snd x) t = Inr f"
  shows "\<exists>t'. rename_one old new x t = Inr t' \<and> same_table t t' \<and> (\<forall>c. c \<noteq> snd x \<longrightarrow> objs t' ! c = objs t ! c) \<and>
    objs t' ! snd x \<noteq> None \<and> renamed old new t t' (snd x)"
proof -
  have a: "virtio_p9_ancestor old old" by (simp add: virtio_p9_ancestor_def)
  have s: "same_table t t" "objs t ! snd x \<noteq> None" using assms by (simp_all add: same_table_def fid_at_iff)
  obtain b1 t1 where j1: "join_path (snd x) new t = Inr (b1, t1)" "same_table t t1" "\<forall>c. c \<noteq> snd x \<longrightarrow> objs t1 ! c = objs t ! c"
    "objs t1 ! snd x \<noteq> None" "length new < path_size t \<longrightarrow> fid_at (snd x) t1 = Inr (f\<lparr>path := new\<rparr>)"
    using join_ok [OF assms, of new] by blast
  obtain b2 t2 where j2: "join_path (snd x) (new @ drop (length old) (path f)) t = Inr (b2, t2)" "same_table t t2"
    "\<forall>c. c \<noteq> snd x \<longrightarrow> objs t2 ! c = objs t ! c" "objs t2 ! snd x \<noteq> None"
    using join_ok [OF assms, of "new @ drop (length old) (path f)"] by blast
  show ?thesis using assms a s j1 j2 by (auto simp: rename_one_def virtio_p9_fix_path_def renamed_def Let_def)
qed

lemma rename_all:
  "\<forall>x \<in> set xs. \<exists>f. fid_at (snd x) t = Inr f \<Longrightarrow> distinct (map snd xs) \<Longrightarrow>
   \<exists>t'. rfold (rename_one old new) xs t = Inr t' \<and> same_table t t' \<and> (\<forall>c. c \<notin> snd ` set xs \<longrightarrow> objs t' ! c = objs t ! c) \<and>
     (\<forall>x \<in> set xs. renamed old new t t' (snd x))"
proof (induction xs arbitrary: t)
  case Nil
  then show ?case by (simp add: same_table_def)
next
  case (Cons x xs)
  obtain t1 where t1: "rename_one old new x t = Inr t1" "same_table t t1" "\<forall>c. c \<noteq> snd x \<longrightarrow> objs t1 ! c = objs t ! c"
    "renamed old new t t1 (snd x)"
    using rename_one_ok [of x t _ old new] Cons.prems(1) by auto
  have other: "fid_at (snd y) t1 = fid_at (snd y) t" if "y \<in> set xs" for y
  proof -
    have "snd y \<noteq> snd x" using Cons.prems(2) that by (metis distinct.simps(2) image_eqI list.map(2) set_map)
    with t1(2,3) show ?thesis by (simp add: fid_at_def aget_def same_table_def)
  qed
  then obtain t2 where t2: "rfold (rename_one old new) xs t1 = Inr t2" "same_table t1 t2"
    "\<forall>c. c \<notin> snd ` set xs \<longrightarrow> objs t2 ! c = objs t1 ! c" "\<forall>y \<in> set xs. renamed old new t1 t2 (snd y)"
    using Cons.IH [of t1] Cons.prems by auto
  have "renamed old new t t2 (snd x)"
    using t1(2,4) t2(2,3) Cons.prems(2) by (auto simp: renamed_def fid_at_iff same_table_def)
  moreover have "renamed old new t t2 (snd y)" if "y \<in> set xs" for y
    using t2(4) that other [OF that] t1(2) by (auto simp: renamed_def same_table_def path_size_def)
  ultimately show ?case using t1 t2 by (auto simp: same_table_def)
qed

lemma rename_fids_ok:
  assumes "table_ok t"
  shows "\<exists>t'. rename_fids old new t = Inr t' \<and> same_table t t' \<and> (\<forall>k a. handles t k = Some a \<longrightarrow> renamed old new t t' a)"
proof -
  have "distinct (map snd (inorder (fids t)))"
    unfolding distinct_map
  proof
    show "distinct (inorder (fids t))" using sorted_distinct assms by (auto simp: table_ok_def distinct_map)
    show "inj_on snd (set (inorder (fids t)))"
      using handles_inj [OF assms] handles_iff [OF assms] by (auto intro!: inj_onI)
  qed
  moreover have "\<exists>f. fid_at (snd x) t = Inr f" if "x \<in> set (inorder (fids t))" for x
    using that assms by (fastforce simp: table_ok_def linked_def fid_at_iff)
  ultimately obtain t' where t': "rename_fids old new t = Inr t'" "same_table t t'" "\<forall>x \<in> set (inorder (fids t)). renamed old new t t' (snd x)"
    using rename_all [of "inorder (fids t)" t old new] unfolding rename_fids_def by blast
  have "renamed old new t t' a" if "handles t k = Some a" for k a
    using t'(3) that handles_iff [OF assms] by (metis snd_conv)
  with t'(1,2) show ?thesis by blast
qed

section \<open>Properties\<close>

definition empty_table :: "path \<Rightarrow> p9_table" where
  "empty_table root = \<lparr>root_dir = root, fids = Leaf, objs = []\<rparr>"

lemma empty_table_ok: "length root < PATH_MAX \<Longrightarrow> table_ok (empty_table root) \<and> handles (empty_table root) = Map.empty"
  by (simp add: empty_table_def table_ok_def handles_def rb_tree_def)

text \<open>
  C37. Any sequence of uses and clunks of fids below \<open>2\<^sup>3\<^sup>1\<close> works on a table of fids that started empty as on a map: no
  operation fails, the fids that are known at the end are those that were used after they were last clunked, and no
  two of them share an object. A fid that the sequence does not mention keeps its object.
\<close>

theorem p9_fid_table_refines_map:
  assumes "length root < PATH_MAX" and "\<forall>u \<in> set (us @ vs). fst u < 0x80000000"
  shows "\<exists>t1 t2. rfold (handle_use get_fid closed) us (empty_table root) = Inr t1 \<and>
      rfold (handle_use get_fid closed) vs t1 = Inr t2 \<and>
      dom (handles t1) = live {} us \<and> dom (handles t2) = live {} (us @ vs) \<and>
      inj_on (handles t2) (dom (handles t2)) \<and> (\<forall>k. k \<notin> fst ` set vs \<longrightarrow> handles t2 k = handles t1 k)"
proof -
  note e = empty_table_ok [OF assms(1)]
  obtain t1 where t1: "rfold (handle_use get_fid closed) us (empty_table root) = Inr t1" "table_ok t1"
    "dom (handles t1) = live {} us"
    using fid_handles.uses_ok [of "empty_table root" us] e assms(2) by auto
  obtain t2 where t2: "rfold (handle_use get_fid closed) vs t1 = Inr t2" "dom (handles t2) = live (live {} us) vs"
    "\<forall>k. k \<notin> fst ` set vs \<longrightarrow> handles t2 k = handles t1 k" "inj_on (handles t2) (dom (handles t2))"
    using fid_handles.uses_ok [OF t1(2), of vs] t1(3) assms(2) by auto
  have "live K (xs @ ys) = live (live K xs) ys" for K xs and ys :: "(u32 \<times> bool) list"
    by (induction K xs rule: live.induct) simp_all
  with t1 t2 show ?thesis by auto
qed

theorem p9_fid_table_refines_map_witness:
  "\<exists>t1 t2. rfold (handle_use get_fid closed) [(1, True), (2, True)] (empty_table [47]) = Inr t1 \<and>
      rfold (handle_use get_fid closed) [(2, False), (3, True)] t1 = Inr t2 \<and>
      dom (handles t1) = {1, 2} \<and> dom (handles t2) = {1, 3} \<and>
      inj_on (handles t2) (dom (handles t2)) \<and> handles t2 1 = handles t1 1"
  using p9_fid_table_refines_map [of "[47]" "[(1, True), (2, True)]" "[(2, False), (3, True)]"]
  by (auto simp: insert_commute insert_Diff_if)

text \<open>
  A fid of \<open>2\<^sup>3\<^sup>1\<close> or more beside a small one breaks the table. With fid 0 in use, the guest walks to the fid
  \<open>0xFFFFFFFF\<close>, which is inserted where it is not searched, so that its second use makes a second object that is not linked;
  clunking that fid then erases an object outside the tree and leaves the tree empty:
  fid 0, never clunked, is forgotten with its open file, and its next use gives a new object.
\<close>

theorem p9_high_fid_empties_table:
  "\<exists>t1 t2 t3. get_fid 0 (empty_table [47]) = Inr (0, t1) \<and> get_fid 0xFFFFFFFF t1 = Inr (1, t2) \<and>
     handles t2 0 = Some 0 \<and> handles t2 0xFFFFFFFF = Some 1 \<and>
     closed 0xFFFFFFFF t2 = Inr t3 \<and> fids t3 = Leaf \<and> objs t3 ! 0 = Some (new_fid 0) \<and> objs t3 ! 1 \<noteq> None \<and>
     (\<exists>t4. get_fid 0 t3 = Inr (3, t4))"
  by (simp add: get_fid_def find_or_create_fid_def empty_table_def insert_new_fid_def find_dir_def insert_dir_def
      Let_def new_fid_def handles_def closed_def close_fid_def erase_node_def fid_at_def)

end
