(* ===== verification/P9.thy ===== *)
theory P9
  imports P9pdu P9fid Virtq
begin

text \<open>
  The file server of \<^verbatim>\<open>virtio/9p.c\<close>: one handler for each message of the protocol, the dispatch, and the virtio
  device around it. A handler reads its arguments from the request, works on the table of
  fids, calls the host and writes a reply. The host is a parameter: what it answers may depend on all calls made so far.
  Every call is recorded, so that theorems can speak about the paths the server gives to the host.
\<close>

section \<open>The host\<close>

record host_stat =
  st_ino :: u64
  st_mode :: u32
  st_nlink :: u64
  st_uid :: u32
  st_gid :: u32
  st_rdev :: u64
  st_size :: u64
  st_blksize :: u64
  st_blocks :: u64
  st_atime :: u64
  st_atime_nsec :: u64
  st_mtime :: u64
  st_mtime_nsec :: u64
  st_ctime :: u64
  st_ctime_nsec :: u64

record host_statfs =
  f_type :: u32
  f_bsize :: u32
  f_blocks :: u64
  f_bfree :: u64
  f_bavail :: u64
  f_files :: u64
  f_ffree :: u64
  f_fsid0 :: u32
  f_fsid1 :: u32
  f_namelen :: u32

record host_dirent =
  d_off :: u64
  d_type :: u8
  d_name :: path

datatype utime = UTIME_NOW | UTIME_OMIT | UTIME_AT u64 u64

datatype p9_call =
    Lstat path | Stat path | Opendir path | Open path u32 u32 | Close int | Closedir int
  | Chmod path u32 | Mkdir path u32 | Mknod path u32 u32 u32 | Symlink path path | Link path path
  | Rename path path | Remove path | Readlink path | Statfs path | Truncate path u64
  | Lchown path u32 u32 | Utimensat path utime utime
  | Preadv int "iovec list" u64 | Pwritev int "u8 list" u64 | Fsync int | Fdatasync int | Dirfd int
  | Seekdir int u64 | Readdir int

text \<open>The answers, by their type: a value or the error that \<^verbatim>\<open>errno\<close> gets.\<close>

record p9_host =
  h_int :: "p9_call list \<Rightarrow> p9_call \<Rightarrow> int + int"
  h_stat :: "p9_call list \<Rightarrow> p9_call \<Rightarrow> int + host_stat"
  h_statfs :: "p9_call list \<Rightarrow> p9_call \<Rightarrow> int + host_statfs"
  h_bytes :: "p9_call list \<Rightarrow> p9_call \<Rightarrow> int + u8 list"
  h_dirents :: "p9_call list \<Rightarrow> p9_call \<Rightarrow> host_dirent list"

section \<open>State and steps\<close>

record p9_state =
  tab :: p9_table
  pdu :: p9_pdu
  mem :: memory
  calls :: "p9_call list"
  errno :: int
  outlen :: u32

type_synonym 'a p9m = "p9_state \<Rightarrow> ('a \<times> p9_state) result"

definition ret :: "'a \<Rightarrow> 'a p9m" where
  "ret x s = Inr (x, s)"

definition bnd :: "'a p9m \<Rightarrow> ('a \<Rightarrow> 'b p9m) \<Rightarrow> 'b p9m" where
  "bnd m f s = rbind (m s) (\<lambda>(x, s'). f x s')"

definition lift :: "'a result \<Rightarrow> 'a p9m" where
  "lift r s = rbind r (\<lambda>x. Inr (x, s))"

definition modify :: "(p9_state \<Rightarrow> p9_state) \<Rightarrow> unit p9m" where
  "modify f s = Inr ((), f s)"

definition gets :: "(p9_state \<Rightarrow> 'a) \<Rightarrow> 'a p9m" where
  "gets f s = Inr (f s, s)"

definition on_tab :: "(p9_table \<Rightarrow> ('a \<times> p9_table) result) \<Rightarrow> 'a p9m" where
  "on_tab f s = rbind (f (tab s)) (\<lambda>(x, t). Inr (x, s\<lparr>tab := t\<rparr>))"

definition set_errno :: "int \<Rightarrow> unit p9m" where
  "set_errno e = modify (\<lambda>s. s\<lparr>errno := e\<rparr>)"

text \<open>
  The idiom \<^verbatim>\<open>if (...) goto err_out;\<close>: a step returns \<open>None\<close> when it failed, and a handler's body
  returns whether it got to the end.
\<close>

definition or_err :: "'a option p9m \<Rightarrow> ('a \<Rightarrow> bool p9m) \<Rightarrow> bool p9m" where
  "or_err m f = bnd m (\<lambda>r. case r of None \<Rightarrow> ret False | Some x \<Rightarrow> f x)"

text \<open>A call of the host.\<close>

definition host :: "(p9_call list \<Rightarrow> p9_call \<Rightarrow> int + 'a) \<Rightarrow> p9_call \<Rightarrow> 'a option p9m" where
  "host h c s =
     (let s' = s\<lparr>calls := c # calls s\<rparr>
      in case h (calls s) c of Inl e \<Rightarrow> Inr (None, s'\<lparr>errno := e\<rparr>) | Inr x \<Rightarrow> Inr (Some x, s'))"

definition host_list :: "(p9_call list \<Rightarrow> p9_call \<Rightarrow> 'a) \<Rightarrow> p9_call \<Rightarrow> 'a p9m" where
  "host_list h c s = Inr (h (calls s) c, s\<lparr>calls := c # calls s\<rparr>)"

section \<open>Messages\<close>

abbreviation (input) VIRTIO_9P_HDR_LEN :: nat where "VIRTIO_9P_HDR_LEN \<equiv> 7"
abbreviation (input) P9_RLERROR :: u8 where "P9_RLERROR \<equiv> 7"

text \<open>The result of \<^verbatim>\<open>virtio_p9_pdu_readf\<close> is not looked at by any handler.\<close>

definition readf :: "string \<Rightarrow> p9_val list p9m" where
  "readf fmt s = rbind (virtio_p9_pdu_readf (mem s) fmt (pdu s)) (\<lambda>(_, vs, p). Inr (vs, s\<lparr>pdu := p\<rparr>))"

definition writef :: "string \<Rightarrow> p9_val list \<Rightarrow> unit p9m" where
  "writef fmt vs s = rbind (virtio_p9_pdu_writef fmt vs (mem s) (pdu s)) (\<lambda>(_, m, p). Inr ((), s\<lparr>mem := m, pdu := p\<rparr>))"

definition seek_read :: "nat \<Rightarrow> unit p9m" where
  "seek_read n = modify (\<lambda>s. s\<lparr>pdu := (pdu s)\<lparr>read_offset := n\<rparr>\<rparr>)"

definition seek_write :: "nat \<Rightarrow> unit p9m" where
  "seek_write n = modify (\<lambda>s. s\<lparr>pdu := (pdu s)\<lparr>write_offset := n\<rparr>\<rparr>)"

definition set_outlen :: "u32 \<Rightarrow> unit p9m" where
  "set_outlen n = modify (\<lambda>s. s\<lparr>outlen := n\<rparr>)"

definition virtio_p9_set_reply_header :: "u32 \<Rightarrow> unit p9m" where
  "virtio_p9_set_reply_header size' =
     bnd (seek_read 4) (\<lambda>_.
     bnd (readf ''bw'') (\<lambda>vs.
     bnd (lift (arg_b vs 0)) (\<lambda>cmd.
     bnd (lift (arg_w vs 1)) (\<lambda>tag.
     bnd (seek_write 0) (\<lambda>_.
     writef ''dbw'' [VD size', VB (cmd + 1), VW tag])))))"

definition virtio_p9_error_reply :: "int \<Rightarrow> unit p9m" where
  "virtio_p9_error_reply err =
     (let err' = (if err = 24 then 23 else err)
      in bnd (seek_write VIRTIO_9P_HDR_LEN) (\<lambda>_.
         bnd (writef ''d'' [VD (word_of_int err')]) (\<lambda>_.
         bnd (gets (\<lambda>s. of_nat (write_offset (pdu s)))) (\<lambda>len.
         bnd (set_outlen len) (\<lambda>_.
         bnd (seek_read 5) (\<lambda>_.
         bnd (readf ''w'') (\<lambda>vs.
         bnd (lift (arg_w vs 0)) (\<lambda>tag.
         bnd (seek_write 0) (\<lambda>_.
         writef ''dbw'' [VD len, VB P9_RLERROR, VW tag])))))))))"

text \<open>The two ends of a handler.\<close>

definition reply_with :: "u32 \<Rightarrow> unit p9m" where
  "reply_with len = bnd (set_outlen len) (\<lambda>_. virtio_p9_set_reply_header len)"

definition reply :: "unit p9m" where
  "reply = bnd (gets (\<lambda>s. of_nat (write_offset (pdu s)))) reply_with"

definition err_out :: "unit p9m" where
  "err_out = bnd (gets errno) virtio_p9_error_reply"

definition ending :: "unit p9m \<Rightarrow> bool p9m \<Rightarrow> unit p9m" where
  "ending fin body = bnd body (\<lambda>ok. if ok then fin else err_out)"

section \<open>Helpers of the handlers\<close>

definition the_fid :: "u32 \<Rightarrow> nat p9m" where
  "the_fid k = on_tab (get_fid k)"

definition fid_obj :: "nat \<Rightarrow> p9_fid p9m" where
  "fid_obj a = bnd (gets tab) (\<lambda>t. lift (fid_at a t))"

definition put_fid :: "nat \<Rightarrow> p9_fid \<Rightarrow> unit p9m" where
  "put_fid a f = modify (\<lambda>s. s\<lparr>tab := set_fid a f (tab s)\<rparr>)"

definition path_of :: "nat \<Rightarrow> path p9m" where
  "path_of a = bnd (fid_obj a) (\<lambda>f. gets (\<lambda>s. abs_path (tab s) f))"

definition join :: "nat \<Rightarrow> path \<Rightarrow> unit option p9m" where
  "join a name =
     bnd (on_tab (join_path a name)) (\<lambda>ok.
     if ok then ret (Some ()) else bnd (set_errno ENAMETOOLONG) (\<lambda>_. ret None))"

abbreviation (input) S_IFMT :: u32 where "S_IFMT \<equiv> 0xF000"

definition S_ISDIR :: "u32 \<Rightarrow> bool" where
  "S_ISDIR m \<longleftrightarrow> m AND S_IFMT = 0x4000"

definition S_ISREG :: "u32 \<Rightarrow> bool" where
  "S_ISREG m \<longleftrightarrow> m AND S_IFMT = 0x8000"

definition stat2qid :: "host_stat \<Rightarrow> p9_qid" where
  "stat2qid st = \<lparr>qid_type = (if S_ISDIR (st_mode st) then 0x80 else 0), qid_version = ucast (st_mtime st), qid_path = st_ino st\<rparr>"

text \<open>\<^verbatim>\<open>is_dir\<close> and \<^verbatim>\<open>is_reg\<close> look at the buffer whether \<^verbatim>\<open>stat\<close> filled it or not.\<close>

definition fid_mode :: "p9_host \<Rightarrow> nat \<Rightarrow> u32 p9m" where
  "fid_mode H a =
     bnd (path_of a) (\<lambda>p.
     bnd (host (h_stat H) (Stat p)) (\<lambda>st.
     case st of None \<Rightarrow> lift (Inl UninitRead) | Some st \<Rightarrow> ret (st_mode st)))"

definition is_dir :: "p9_host \<Rightarrow> nat \<Rightarrow> bool p9m" where
  "is_dir H a = bnd (fid_mode H a) (\<lambda>m. ret (S_ISDIR m))"

definition is_reg :: "p9_host \<Rightarrow> nat \<Rightarrow> bool p9m" where
  "is_reg H a = bnd (fid_mode H a) (\<lambda>m. ret (S_ISREG m))"

definition full_path :: "int + path \<Rightarrow> path option p9m" where
  "full_path r = (case r of Inl e \<Rightarrow> bnd (set_errno e) (\<lambda>_. ret None) | Inr p \<Rightarrow> ret (Some p))"

definition get_full_path :: "nat \<Rightarrow> path \<Rightarrow> path option p9m" where
  "get_full_path a name = bnd (path_of a) (\<lambda>p. full_path (get_full_path_helper PATH_MAX p name))"

definition stat_rel :: "p9_host \<Rightarrow> path \<Rightarrow> host_stat option p9m" where
  "stat_rel H p =
     bnd (gets (\<lambda>s. root_dir (tab s))) (\<lambda>root.
     bnd (full_path (get_full_path_helper PATH_MAX root p)) (\<lambda>r.
     case r of None \<Rightarrow> ret None | Some full \<Rightarrow> host (h_stat H) (Lstat full)))"

definition virtio_p9_openflags :: "u32 \<Rightarrow> u32" where
  "virtio_p9_openflags flags = (flags AND NOT (0x100 OR 0x2000 OR 0x40 OR 0x4000)) OR 0x20000"

definition virtio_p9_fill_stat :: "host_stat \<Rightarrow> p9_stat_dotl" where
  "virtio_p9_fill_stat st =
     \<lparr>sl_result_mask = 0x7FF, sl_qid = stat2qid st, sl_mode = st_mode st, sl_uid = st_uid st, sl_gid = st_gid st,
      sl_nlink = st_nlink st, sl_rdev = st_rdev st, sl_size = st_size st, sl_blksize = st_blksize st, sl_blocks = st_blocks st,
      sl_atime_sec = st_atime st, sl_atime_nsec = st_atime_nsec st, sl_mtime_sec = st_mtime st, sl_mtime_nsec = st_mtime_nsec st,
      sl_ctime_sec = st_ctime st, sl_ctime_nsec = st_ctime_nsec st, sl_btime_sec = 0, sl_btime_nsec = 0, sl_gen = 0,
      sl_data_version = 0\<rparr>"

section \<open>Handlers that make and remove names\<close>

definition version_dotl :: path where
  "version_dotl = [57, 80, 50, 48, 48, 48, 46, 76]"

definition version_unknown :: path where
  "version_unknown = [117, 110, 107, 110, 111, 119, 110]"

definition virtio_p9_version :: "unit p9m" where
  "virtio_p9_version =
     bnd (readf ''ds'') (\<lambda>vs.
     bnd (lift (arg_d vs 0)) (\<lambda>msize.
     bnd (lift (arg_s vs 1)) (\<lambda>version.
     bnd (if version = version_dotl then writef ''ds'' [VD msize, VS (Some version)]
          else writef ''ds'' [VD msize, VS (Some version_unknown)]) (\<lambda>_.
     reply))))"

definition close_call :: "p9_host \<Rightarrow> (int \<Rightarrow> p9_call) \<Rightarrow> int option \<Rightarrow> unit p9m" where
  "close_call H c x = (case x of None \<Rightarrow> ret () | Some n \<Rightarrow> bnd (host_list (h_int H) (c n)) (\<lambda>_. ret ()))"

definition fid_close :: "p9_host \<Rightarrow> u32 \<Rightarrow> unit p9m" where
  "fid_close H k =
     bnd (on_tab (\<lambda>t. rbind (close_fid k t) (\<lambda>(c, d, t'). Inr ((c, d), t')))) (\<lambda>(c, d).
     bnd (close_call H Close c) (\<lambda>_. close_call H Closedir d))"

definition virtio_p9_clunk :: "p9_host \<Rightarrow> unit p9m" where
  "virtio_p9_clunk H =
     bnd (readf ''d'') (\<lambda>vs.
     bnd (lift (arg_d vs 0)) (\<lambda>k.
     bnd (fid_close H k) (\<lambda>_. reply)))"

definition virtio_p9_open :: "p9_host \<Rightarrow> unit p9m" where
  "virtio_p9_open H =
     bnd (readf ''dd'') (\<lambda>vs.
     bnd (lift (arg_d vs 0)) (\<lambda>k.
     bnd (lift (arg_d vs 1)) (\<lambda>flags.
     bnd (the_fid k) (\<lambda>a.
     bnd (path_of a) (\<lambda>p.
     ending reply
      (or_err (host (h_stat H) (Lstat p)) (\<lambda>st.
       bnd (is_dir H a) (\<lambda>isdir.
       bnd (if isdir
            then bnd (host (h_int H) (Opendir p)) (\<lambda>r.
                 bnd (fid_obj a) (\<lambda>f.
                 bnd (put_fid a (f\<lparr>dir := r\<rparr>)) (\<lambda>_. ret (r \<noteq> None))))
            else bnd (is_reg H a) (\<lambda>isreg.
              if isreg
              then bnd (host (h_int H) (Open p (virtio_p9_openflags flags) 0)) (\<lambda>r.
                   bnd (fid_obj a) (\<lambda>f.
                   bnd (put_fid a (f\<lparr>fd := (case r of None \<Rightarrow> -1 | Some n \<Rightarrow> n)\<rparr>)) (\<lambda>_. ret (r \<noteq> None))))
              else ret False)) (\<lambda>ok.
       if ok then bnd (writef ''Qd'' [VQid (stat2qid st), VD 0]) (\<lambda>_. ret True) else ret False)))))))))"

text \<open>
  \<^verbatim>\<open>virtio_p9_create\<close> turns the fid of the directory into the fid of the new file before the file exists. The branch for a
  path that does not fit writes one byte behind the buffer.
\<close>

definition create_path :: "nat \<Rightarrow> path \<Rightarrow> unit option p9m" where
  "create_path a name =
     bnd (fid_obj a) (\<lambda>f.
     bnd (gets (\<lambda>s. path_size (tab s))) (\<lambda>size'.
     let new = path f @ slash # name
     in if size' \<le> length new
        then (if 0 < size' then lift (Inl OutOfBounds) else bnd (set_errno ENAMETOOLONG) (\<lambda>_. ret None))
        else bnd (put_fid a (f\<lparr>path := new\<rparr>)) (\<lambda>_. ret (Some ()))))"

definition virtio_p9_create :: "p9_host \<Rightarrow> unit p9m" where
  "virtio_p9_create H =
     bnd (readf ''dsddd'') (\<lambda>vs.
     bnd (lift (arg_d vs 0)) (\<lambda>k.
     bnd (lift (arg_s vs 1)) (\<lambda>name.
     bnd (lift (arg_d vs 2)) (\<lambda>flags.
     bnd (lift (arg_d vs 3)) (\<lambda>mode.
     bnd (the_fid k) (\<lambda>a.
     ending reply
      (or_err (get_full_path a name) (\<lambda>full.
       or_err (create_path a name) (\<lambda>_.
       or_err (host (h_int H) (Open full (virtio_p9_openflags flags OR 0x40) mode)) (\<lambda>n.
       bnd (fid_obj a) (\<lambda>f.
       bnd (put_fid a (f\<lparr>fd := n\<rparr>)) (\<lambda>_.
       or_err (host (h_stat H) (Lstat full)) (\<lambda>st.
       or_err (host (h_int H) (Chmod full (mode AND 0x1FF))) (\<lambda>_.
       bnd (writef ''Qd'' [VQid (stat2qid st), VD 0]) (\<lambda>_. ret True)))))))))))))))"

definition virtio_p9_mkdir :: "p9_host \<Rightarrow> unit p9m" where
  "virtio_p9_mkdir H =
     bnd (readf ''dsdd'') (\<lambda>vs.
     bnd (lift (arg_d vs 0)) (\<lambda>k.
     bnd (lift (arg_s vs 1)) (\<lambda>name.
     bnd (lift (arg_d vs 2)) (\<lambda>mode.
     bnd (the_fid k) (\<lambda>a.
     ending reply
      (or_err (get_full_path a name) (\<lambda>full.
       or_err (host (h_int H) (Mkdir full mode)) (\<lambda>_.
       or_err (host (h_stat H) (Lstat full)) (\<lambda>st.
       or_err (host (h_int H) (Chmod full (mode AND 0x1FF))) (\<lambda>_.
       bnd (writef ''Qd'' [VQid (stat2qid st), VD 0]) (\<lambda>_. ret True)))))))))))"

definition virtio_p9_mknod :: "p9_host \<Rightarrow> unit p9m" where
  "virtio_p9_mknod H =
     bnd (readf ''dsdddd'') (\<lambda>vs.
     bnd (lift (arg_d vs 0)) (\<lambda>k.
     bnd (lift (arg_s vs 1)) (\<lambda>name.
     bnd (lift (arg_d vs 2)) (\<lambda>mode.
     bnd (lift (arg_d vs 3)) (\<lambda>major.
     bnd (lift (arg_d vs 4)) (\<lambda>minor.
     bnd (the_fid k) (\<lambda>a.
     ending reply
      (or_err (get_full_path a name) (\<lambda>full.
       or_err (host (h_int H) (Mknod full mode major minor)) (\<lambda>_.
       or_err (host (h_stat H) (Lstat full)) (\<lambda>st.
       or_err (host (h_int H) (Chmod full (mode AND 0x1FF))) (\<lambda>_.
       bnd (writef ''Q'' [VQid (stat2qid st)]) (\<lambda>_. ret True)))))))))))))"

definition virtio_p9_symlink :: "p9_host \<Rightarrow> unit p9m" where
  "virtio_p9_symlink H =
     bnd (readf ''dssd'') (\<lambda>vs.
     bnd (lift (arg_d vs 0)) (\<lambda>k.
     bnd (lift (arg_s vs 1)) (\<lambda>name.
     bnd (lift (arg_s vs 2)) (\<lambda>old_path.
     bnd (the_fid k) (\<lambda>a.
     ending reply
      (or_err (get_full_path a name) (\<lambda>new_name.
       or_err (host (h_int H) (Symlink old_path new_name)) (\<lambda>_.
       or_err (host (h_stat H) (Lstat new_name)) (\<lambda>st.
       bnd (writef ''Q'' [VQid (stat2qid st)]) (\<lambda>_. ret True))))))))))"

definition virtio_p9_link :: "p9_host \<Rightarrow> unit p9m" where
  "virtio_p9_link H =
     bnd (readf ''dds'') (\<lambda>vs.
     bnd (lift (arg_d vs 0)) (\<lambda>dk.
     bnd (lift (arg_d vs 1)) (\<lambda>k.
     bnd (lift (arg_s vs 2)) (\<lambda>name.
     bnd (the_fid dk) (\<lambda>d.
     bnd (the_fid k) (\<lambda>a.
     ending reply
      (or_err (get_full_path d name) (\<lambda>full.
       bnd (path_of a) (\<lambda>p.
       or_err (host (h_int H) (Link p full)) (\<lambda>_. ret True))))))))))"

definition virtio_p9_remove :: "p9_host \<Rightarrow> unit p9m" where
  "virtio_p9_remove H =
     bnd (readf ''d'') (\<lambda>vs.
     bnd (lift (arg_d vs 0)) (\<lambda>k.
     bnd (the_fid k) (\<lambda>a.
     bnd (path_of a) (\<lambda>p.
     ending reply (or_err (host (h_int H) (Remove p)) (\<lambda>_. ret True))))))"

definition virtio_p9_unlinkat :: "p9_host \<Rightarrow> unit p9m" where
  "virtio_p9_unlinkat H =
     bnd (readf ''dsd'') (\<lambda>vs.
     bnd (lift (arg_d vs 0)) (\<lambda>k.
     bnd (lift (arg_s vs 1)) (\<lambda>name.
     bnd (the_fid k) (\<lambda>a.
     ending reply
      (or_err (get_full_path a name) (\<lambda>full.
       or_err (host (h_int H) (Remove full)) (\<lambda>_. ret True)))))))"

definition virtio_p9_rename :: "p9_host \<Rightarrow> unit p9m" where
  "virtio_p9_rename H =
     bnd (readf ''dds'') (\<lambda>vs.
     bnd (lift (arg_d vs 0)) (\<lambda>k.
     bnd (lift (arg_d vs 1)) (\<lambda>nk.
     bnd (lift (arg_s vs 2)) (\<lambda>new_name.
     bnd (the_fid k) (\<lambda>a.
     bnd (the_fid nk) (\<lambda>n.
     ending reply
      (or_err (get_full_path n new_name) (\<lambda>full.
       bnd (path_of a) (\<lambda>p.
       or_err (host (h_int H) (Rename p full)) (\<lambda>_. ret True))))))))))"

definition virtio_p9_renameat :: "p9_host \<Rightarrow> unit p9m" where
  "virtio_p9_renameat H =
     bnd (readf ''dsds'') (\<lambda>vs.
     bnd (lift (arg_d vs 0)) (\<lambda>ok'.
     bnd (lift (arg_s vs 1)) (\<lambda>old_name.
     bnd (lift (arg_d vs 2)) (\<lambda>nk.
     bnd (lift (arg_s vs 3)) (\<lambda>new_name.
     bnd (the_fid ok') (\<lambda>od.
     bnd (the_fid nk) (\<lambda>nd.
     ending reply
      (or_err (get_full_path od old_name) (\<lambda>old_full.
       or_err (get_full_path nd new_name) (\<lambda>new_full.
       or_err (host (h_int H) (Rename old_full new_full)) (\<lambda>_.
       bnd (on_tab (\<lambda>t. rbind (rename_fids old_name new_name t) (\<lambda>t'. Inr ((), t')))) (\<lambda>_. ret True))))))))))))"

section \<open>Handlers that look at names and attributes\<close>

text \<open>
  One turn of the loop of \<^verbatim>\<open>virtio_p9_walk\<close>. The counter of the loop has 8 bits and the number of names 16: with more
  than 255 names the loop only ends with a failure, at the latest when the message is used
  up. A turn reads at least two bytes of the message, so a turn for every byte is enough.
\<close>

definition walk_one :: "p9_host \<Rightarrow> nat \<Rightarrow> nat \<Rightarrow> bool p9m" where
  "walk_one H n a =
     bnd (readf ''s'') (\<lambda>vs.
     bnd (lift (arg_s vs 0)) (\<lambda>str.
     bnd (fid_obj n) (\<lambda>nf.
     let tmp = path nf @ slash # str
     in if PATH_MAX \<le> length tmp then bnd (set_errno ENAMETOOLONG) (\<lambda>_. ret False)
        else
         or_err (stat_rel H tmp) (\<lambda>st.
         or_err (join n tmp) (\<lambda>_.
         bnd (fid_obj a) (\<lambda>f.
         bnd (fid_obj n) (\<lambda>nf.
         bnd (put_fid n (nf\<lparr>uid := uid f\<rparr>)) (\<lambda>_.
         bnd (writef ''Q'' [VQid (stat2qid st)]) (\<lambda>_. ret True)))))))))"

fun walk_loop :: "p9_host \<Rightarrow> nat \<Rightarrow> nat \<Rightarrow> nat \<Rightarrow> bool p9m" where
  "walk_loop H n a 0 = ret True"
| "walk_loop H n a (Suc k) = bnd (walk_one H n a) (\<lambda>ok. if ok then walk_loop H n a k else ret False)"

fun walk_forever :: "p9_host \<Rightarrow> nat \<Rightarrow> nat \<Rightarrow> nat \<Rightarrow> bool p9m" where
  "walk_forever H n a 0 = lift (Inl UninitRead)"
| "walk_forever H n a (Suc fuel) = bnd (walk_one H n a) (\<lambda>ok. if ok then walk_forever H n a fuel else ret False)"

definition skip_count :: "nat \<Rightarrow> unit p9m" where
  "skip_count n = bnd (gets (\<lambda>s. write_offset (pdu s))) (\<lambda>off. seek_write (off + n))"

text \<open>The number of qids is written with the format \<^verbatim>\<open>d\<close>, four bytes, where the protocol has two.\<close>

definition walk_reply :: "u16 \<Rightarrow> unit p9m" where
  "walk_reply nwqid =
     bnd (gets (\<lambda>s. of_nat (write_offset (pdu s)))) (\<lambda>len.
     bnd (set_outlen len) (\<lambda>_.
     bnd (seek_write VIRTIO_9P_HDR_LEN) (\<lambda>_.
     bnd (writef ''d'' [VD (ucast nwqid)]) (\<lambda>_.
     virtio_p9_set_reply_header len))))"

definition virtio_p9_walk :: "p9_host \<Rightarrow> unit p9m" where
  "virtio_p9_walk H =
     bnd (readf ''ddw'') (\<lambda>vs.
     bnd (lift (arg_d vs 0)) (\<lambda>k.
     bnd (lift (arg_d vs 1)) (\<lambda>nk.
     bnd (lift (arg_w vs 2)) (\<lambda>nwname.
     bnd (the_fid nk) (\<lambda>n.
     ending (walk_reply nwname)
      (if nwname \<noteq> 0
       then bnd (the_fid k) (\<lambda>a.
            bnd (fid_obj a) (\<lambda>f.
            or_err (join n (path f)) (\<lambda>_.
            bnd (skip_count 2) (\<lambda>_.
            if unat nwname < 256 then walk_loop H n a (unat nwname)
            else bnd (gets (\<lambda>s. iov_total (out_iov (pdu s)))) (walk_forever H n a)))))
       else bnd (skip_count 2) (\<lambda>_.
            bnd (the_fid k) (\<lambda>a.
            bnd (fid_obj a) (\<lambda>f.
            or_err (join n (path f)) (\<lambda>_.
            bnd (fid_obj a) (\<lambda>f.
            bnd (fid_obj n) (\<lambda>nf.
            bnd (put_fid n (nf\<lparr>uid := uid f\<rparr>)) (\<lambda>_. ret True)))))))))))))"

definition virtio_p9_attach :: "p9_host \<Rightarrow> unit p9m" where
  "virtio_p9_attach H =
     bnd (readf ''ddssd'') (\<lambda>vs.
     bnd (lift (arg_d vs 0)) (\<lambda>k.
     bnd (lift (arg_d vs 4)) (\<lambda>u.
     bnd (gets (\<lambda>s. root_dir (tab s))) (\<lambda>root.
     ending reply
      (or_err (host (h_stat H) (Lstat root)) (\<lambda>st.
       bnd (the_fid k) (\<lambda>a.
       bnd (fid_obj a) (\<lambda>f.
       bnd (put_fid a (f\<lparr>uid := u\<rparr>)) (\<lambda>_.
       or_err (join a [slash]) (\<lambda>_.
       bnd (writef ''Q'' [VQid (stat2qid st)]) (\<lambda>_. ret True)))))))))))"

definition virtio_p9_getattr :: "p9_host \<Rightarrow> unit p9m" where
  "virtio_p9_getattr H =
     bnd (readf ''dq'') (\<lambda>vs.
     bnd (lift (arg_d vs 0)) (\<lambda>k.
     bnd (the_fid k) (\<lambda>a.
     bnd (path_of a) (\<lambda>p.
     ending reply
      (or_err (host (h_stat H) (Lstat p)) (\<lambda>st.
       bnd (writef ''A'' [VStat (virtio_p9_fill_stat st)]) (\<lambda>_. ret True)))))))"

abbreviation (input) ATTR_MODE :: u32 where "ATTR_MODE \<equiv> 1"
abbreviation (input) ATTR_UID :: u32 where "ATTR_UID \<equiv> 2"
abbreviation (input) ATTR_GID :: u32 where "ATTR_GID \<equiv> 4"
abbreviation (input) ATTR_SIZE :: u32 where "ATTR_SIZE \<equiv> 8"
abbreviation (input) ATTR_ATIME :: u32 where "ATTR_ATIME \<equiv> 16"
abbreviation (input) ATTR_MTIME :: u32 where "ATTR_MTIME \<equiv> 32"
abbreviation (input) ATTR_CTIME :: u32 where "ATTR_CTIME \<equiv> 64"
abbreviation (input) ATTR_ATIME_SET :: u32 where "ATTR_ATIME_SET \<equiv> 128"
abbreviation (input) ATTR_MTIME_SET :: u32 where "ATTR_MTIME_SET \<equiv> 256"
abbreviation (input) ATTR_MASK :: u32 where "ATTR_MASK \<equiv> 127"

definition setattr_time :: "u32 \<Rightarrow> u32 \<Rightarrow> u32 \<Rightarrow> u64 \<Rightarrow> u64 \<Rightarrow> utime" where
  "setattr_time valid attr attr_set sec nsec =
     (if flag valid attr then (if flag valid attr_set then UTIME_AT sec nsec else UTIME_NOW) else UTIME_OMIT)"

text \<open>A step of \<^verbatim>\<open>virtio_p9_setattr\<close>: a call that is made under a condition.\<close>

definition when_call :: "bool \<Rightarrow> int option p9m \<Rightarrow> bool p9m \<Rightarrow> bool p9m" where
  "when_call c m k = (if c then or_err m (\<lambda>_. k) else k)"

definition virtio_p9_setattr :: "p9_host \<Rightarrow> unit p9m" where
  "virtio_p9_setattr H =
     bnd (readf ''dI'') (\<lambda>vs.
     bnd (lift (arg_d vs 0)) (\<lambda>k.
     bnd (lift (arg_iattr vs 1)) (\<lambda>i.
     bnd (the_fid k) (\<lambda>a.
     bnd (path_of a) (\<lambda>p.
     let valid = ia_valid i in
     ending (reply_with (of_nat VIRTIO_9P_HDR_LEN))
      (when_call (flag valid ATTR_MODE) (host (h_int H) (Chmod p (ia_mode i)))
      (when_call (flag valid (ATTR_ATIME OR ATTR_MTIME))
        (host (h_int H) (Utimensat p
           (setattr_time valid ATTR_ATIME ATTR_ATIME_SET (ia_atime_sec i) (ia_atime_nsec i))
           (setattr_time valid ATTR_MTIME ATTR_MTIME_SET (ia_mtime_sec i) (ia_mtime_nsec i))))
      (when_call (flag valid (ATTR_UID OR ATTR_GID) \<or>
          (flag valid ATTR_CTIME \<and> clrf (valid AND ATTR_MASK) ATTR_CTIME = 0))
        (host (h_int H) (Lchown p (if flag valid ATTR_UID then ia_uid i else -1) (if flag valid ATTR_GID then ia_gid i else -1)))
      (when_call (flag valid ATTR_SIZE) (host (h_int H) (Truncate p (ia_size i)))
      (ret True))))))))))"

definition virtio_p9_readlink :: "p9_host \<Rightarrow> unit p9m" where
  "virtio_p9_readlink H =
     bnd (readf ''d'') (\<lambda>vs.
     bnd (lift (arg_d vs 0)) (\<lambda>k.
     bnd (the_fid k) (\<lambda>a.
     bnd (path_of a) (\<lambda>p.
     ending reply
      (or_err (host (h_bytes H) (Readlink p)) (\<lambda>target.
       bnd (writef ''s'' [VS (Some (cstr (take (PATH_MAX - 1) target)))]) (\<lambda>_. ret True)))))))"

definition virtio_p9_statfs :: "p9_host \<Rightarrow> unit p9m" where
  "virtio_p9_statfs H =
     bnd (readf ''d'') (\<lambda>vs.
     bnd (lift (arg_d vs 0)) (\<lambda>k.
     bnd (the_fid k) (\<lambda>a.
     bnd (path_of a) (\<lambda>p.
     ending reply
      (or_err (host (h_statfs H) (Statfs p)) (\<lambda>b.
       let fsid = ucast (f_fsid0 b) OR push_bit 32 (ucast (f_fsid1 b)) in
       bnd (writef ''ddqqqqqqd''
         [VD (f_type b), VD (f_bsize b), VQ (f_blocks b), VQ (f_bfree b), VQ (f_bavail b), VQ (f_files b), VQ (f_ffree b),
          VQ fsid, VD (f_namelen b)]) (\<lambda>_. ret True)))))))"

section \<open>Handlers that move data\<close>

text \<open>
  \<^verbatim>\<open>virtio_p9_update_iov_cnt\<close>: how many buffers are needed for \<open>count\<close> bytes, and the array with the last of them
  cut. Lengths have 64 bits, the running total has 32.
\<close>

fun virtio_p9_update_iov_cnt :: "iovec list \<Rightarrow> nat \<Rightarrow> nat \<Rightarrow> nat \<times> iovec list" where
  "virtio_p9_update_iov_cnt [] tot count = (0, [])"
| "virtio_p9_update_iov_cnt (v # vs) tot count =
     (if tot < count
      then let sum = (tot + iov_len v) mod 2 ^ 64
        in if count < sum
           then (1, v\<lparr>iov_len := (iov_len v + 2 ^ 64 - (sum - count)) mod 2 ^ 64\<rparr> # vs)
           else let (n, vs') = virtio_p9_update_iov_cnt vs (sum mod 2 ^ 32) count in (Suc n, v # vs')
      else (0, v # vs))"

text \<open>
  The first buffer without the header, which is \<open>hdr\<close> bytes; its length wraps when the buffer is shorter. The result
  is the array for the host and the array that is left in the request once the first buffer was put back.
\<close>

definition data_iov :: "nat \<Rightarrow> nat \<Rightarrow> iovec list \<Rightarrow> iovec list \<times> iovec list" where
  "data_iov hdr count iov =
     (case iov of [] \<Rightarrow> ([], [])
      | v # vs \<Rightarrow>
         let v' = \<lparr>iov_base = iov_base v + hdr, iov_len = (iov_len v + 2 ^ 64 - hdr) mod 2 ^ 64\<rparr>;
             (n, arr) = virtio_p9_update_iov_cnt (v' # vs) 0 count
         in (take n arr, v # tl arr))"

definition host_preadv :: "p9_host \<Rightarrow> int \<Rightarrow> iovec list \<Rightarrow> u64 \<Rightarrow> nat option p9m" where
  "host_preadv H d iov off =
     bnd (host (h_bytes H) (Preadv d iov off)) (\<lambda>r.
     case r of None \<Rightarrow> ret None
     | Some data \<Rightarrow> (\<lambda>s. rbind (iov_write iov 0 data (mem s)) (\<lambda>(n, m). Inr (Some n, s\<lparr>mem := m\<rparr>))))"

definition virtio_p9_read :: "p9_host \<Rightarrow> unit p9m" where
  "virtio_p9_read H =
     bnd (readf ''dqd'') (\<lambda>vs.
     bnd (lift (arg_d vs 0)) (\<lambda>k.
     bnd (lift (arg_q vs 1)) (\<lambda>off.
     bnd (lift (arg_d vs 2)) (\<lambda>count.
     bnd (the_fid k) (\<lambda>a.
     bnd (fid_obj a) (\<lambda>f.
     bnd (gets (\<lambda>s. data_iov 11 (unat count) (in_iov (pdu s)))) (\<lambda>(iov, left).
     bnd (host_preadv H (fd f) iov off) (\<lambda>r.
     let n = (case r of None \<Rightarrow> -1 | Some n \<Rightarrow> of_nat n) :: u32;
         rcount = (if count < n then count else n)
     in bnd (modify (\<lambda>s. s\<lparr>pdu := (pdu s)\<lparr>in_iov := left\<rparr>\<rparr>)) (\<lambda>_.
        bnd (seek_write VIRTIO_9P_HDR_LEN) (\<lambda>_.
        bnd (writef ''d'' [VD rcount]) (\<lambda>_.
        bnd (gets (\<lambda>s. of_nat (write_offset (pdu s)) + rcount)) reply_with)))))))))))"

definition host_pwritev :: "p9_host \<Rightarrow> int \<Rightarrow> iovec list \<Rightarrow> u64 \<Rightarrow> int option p9m" where
  "host_pwritev H d iov off =
     bnd (gets mem) (\<lambda>m.
     bnd (lift (iov_read iov 0 (iov_total iov) m)) (\<lambda>data.
     host (h_int H) (Pwritev d data off)))"

definition virtio_p9_write :: "p9_host \<Rightarrow> unit p9m" where
  "virtio_p9_write H =
     bnd (readf ''dqd'') (\<lambda>vs.
     bnd (lift (arg_d vs 0)) (\<lambda>k.
     bnd (lift (arg_q vs 1)) (\<lambda>off.
     bnd (lift (arg_d vs 2)) (\<lambda>count.
     bnd (the_fid k) (\<lambda>a.
     bnd (fid_obj a) (\<lambda>f.
     bnd (gets (\<lambda>s. data_iov 23 (unat count) (out_iov (pdu s)))) (\<lambda>(iov, left).
     bnd (host_pwritev H (fd f) iov off) (\<lambda>r.
     bnd (modify (\<lambda>s. s\<lparr>pdu := (pdu s)\<lparr>out_iov := left\<rparr>\<rparr>)) (\<lambda>_.
     ending reply
      (case r of None \<Rightarrow> ret False
       | Some res \<Rightarrow> bnd (writef ''d'' [VD (word_of_int res)]) (\<lambda>_. ret True)))))))))))"

definition virtio_p9_dentry_size :: "host_dirent \<Rightarrow> nat" where
  "virtio_p9_dentry_size d = 24 + length (d_name d)"

definition stat_ones :: host_stat where
  "stat_ones = \<lparr>st_ino = -1, st_mode = -1, st_nlink = -1, st_uid = -1, st_gid = -1, st_rdev = -1, st_size = -1, st_blksize = -1,
     st_blocks = -1, st_atime = -1, st_atime_nsec = -1, st_mtime = -1, st_mtime_nsec = -1, st_ctime = -1, st_ctime_nsec = -1\<rparr>"

text \<open>
  The loop over the entries that the host has behind the given offset; it returns the number of bytes written. The
  entry is looked up by its name in the root directory of the server, whatever directory is read.
\<close>

fun readdir_loop :: "p9_host \<Rightarrow> int \<Rightarrow> u32 \<Rightarrow> u64 \<Rightarrow> u32 \<Rightarrow> host_dirent list \<Rightarrow> u32 p9m" where
  "readdir_loop H d count old rcount [] = ret rcount"
| "readdir_loop H d count old rcount (e # es) =
     (if count < rcount + of_nat (virtio_p9_dentry_size e)
      then bnd (host_list (h_int H) (Seekdir d old)) (\<lambda>_. ret rcount)
      else
        bnd (stat_rel H (d_name e)) (\<lambda>r.
        let st = (case r of None \<Rightarrow> stat_ones | Some st \<Rightarrow> st) in
        bnd (gets (\<lambda>s. write_offset (pdu s))) (\<lambda>before'.
        bnd (writef ''Qqbs'' [VQid (stat2qid st), VQ (d_off e), VB (d_type e), VS (Some (d_name e))]) (\<lambda>_.
        bnd (gets (\<lambda>s. write_offset (pdu s))) (\<lambda>after'.
        bnd (host_list (h_int H) (Readdir d)) (\<lambda>_.
        readdir_loop H d count (d_off e) (rcount + of_nat (after' - before')) es))))))"

definition virtio_p9_readdir :: "p9_host \<Rightarrow> unit p9m" where
  "virtio_p9_readdir H =
     bnd (readf ''dqd'') (\<lambda>vs.
     bnd (lift (arg_d vs 0)) (\<lambda>k.
     bnd (lift (arg_q vs 1)) (\<lambda>off.
     bnd (lift (arg_d vs 2)) (\<lambda>count.
     bnd (the_fid k) (\<lambda>a.
     bnd (is_dir H a) (\<lambda>isdir.
     if \<not> isdir then bnd (set_errno EINVAL) (\<lambda>_. err_out)
     else
       bnd (fid_obj a) (\<lambda>f.
       case dir f of None \<Rightarrow> lift (Inl NullDeref)
       | Some d \<Rightarrow>
          bnd (host_list (h_int H) (Seekdir d off)) (\<lambda>_.
          bnd (host_list (h_dirents H) (Readdir d)) (\<lambda>es.
          bnd (skip_count 4) (\<lambda>_.
          bnd (readdir_loop H d count off 0 es) (\<lambda>rcount.
          bnd (seek_write VIRTIO_9P_HDR_LEN) (\<lambda>_.
          bnd (writef ''d'' [VD rcount]) (\<lambda>_.
          bnd (gets (\<lambda>s. of_nat (write_offset (pdu s)) + rcount)) reply_with)))))))))))))"

definition virtio_p9_fsync :: "p9_host \<Rightarrow> unit p9m" where
  "virtio_p9_fsync H =
     bnd (readf ''dd'') (\<lambda>vs.
     bnd (lift (arg_d vs 0)) (\<lambda>k.
     bnd (lift (arg_d vs 1)) (\<lambda>datasync.
     bnd (the_fid k) (\<lambda>a.
     bnd (fid_obj a) (\<lambda>f.
     bnd (case dir f of
            Some d \<Rightarrow> bnd (host (h_int H) (Dirfd d)) (\<lambda>r. ret (case r of None \<Rightarrow> -1 | Some n \<Rightarrow> n))
          | None \<Rightarrow> ret (fd f)) (\<lambda>n.
     ending reply
      (or_err (host (h_int H) (if datasync \<noteq> 0 then Fdatasync n else Fsync n)) (\<lambda>_. ret True))))))))"

text \<open>Locks are always granted.\<close>

definition virtio_p9_lock :: "unit p9m" where
  "virtio_p9_lock = bnd (readf ''dbdqqds'') (\<lambda>vs. bnd (writef ''d'' [VD 0]) (\<lambda>_. reply))"

definition virtio_p9_getlock :: "unit p9m" where
  "virtio_p9_getlock =
     bnd (readf ''dbqqds'') (\<lambda>vs.
     bnd (lift (arg_q vs 2)) (\<lambda>start.
     bnd (lift (arg_q vs 3)) (\<lambda>len.
     bnd (lift (arg_d vs 4)) (\<lambda>proc_id.
     bnd (lift (arg_ptr vs 5)) (\<lambda>client_id.
     bnd (writef ''bqqds'' [VB 2, VQ start, VQ len, VD proc_id, VS client_id]) (\<lambda>_. reply))))))"

definition virtio_p9_flush :: "unit p9m" where
  "virtio_p9_flush =
     bnd (readf ''ww'') (\<lambda>vs.
     bnd (lift (arg_w vs 0)) (\<lambda>tag.
     bnd (writef ''w'' [VW tag]) (\<lambda>_. reply)))"

definition virtio_p9_eopnotsupp :: "unit p9m" where
  "virtio_p9_eopnotsupp = virtio_p9_error_reply 95"

section \<open>The device\<close>

text \<open>The table of handlers. A message without a handler is answered with \<^verbatim>\<open>EOPNOTSUPP\<close>.\<close>

definition virtio_9p_dotl_handler :: "p9_host \<Rightarrow> u8 \<Rightarrow> unit p9m option" where
  "virtio_9p_dotl_handler H cmd =
     map_of
       [(40, virtio_p9_readdir H), (8, virtio_p9_statfs H), (24, virtio_p9_getattr H), (26, virtio_p9_setattr H),
        (30, virtio_p9_eopnotsupp), (32, virtio_p9_eopnotsupp), (18, virtio_p9_mknod H), (52, virtio_p9_lock),
        (54, virtio_p9_getlock), (74, virtio_p9_renameat H), (22, virtio_p9_readlink H), (76, virtio_p9_unlinkat H),
        (72, virtio_p9_mkdir H), (100, virtio_p9_version), (12, virtio_p9_open H), (104, virtio_p9_attach H),
        (110, virtio_p9_walk H), (120, virtio_p9_clunk H), (50, virtio_p9_fsync H), (116, virtio_p9_read H),
        (108, virtio_p9_flush), (70, virtio_p9_link H), (16, virtio_p9_symlink H), (14, virtio_p9_create H),
        (118, virtio_p9_write H), (122, virtio_p9_remove H), (20, virtio_p9_rename H)] cmd"

definition handler_of :: "p9_host \<Rightarrow> u8 \<Rightarrow> unit p9m" where
  "handler_of H cmd = (case virtio_9p_dotl_handler H cmd of None \<Rightarrow> virtio_p9_eopnotsupp | Some h \<Rightarrow> h)"

record p9_dev =
  p9_vq :: virt_queue
  p9_tab :: p9_table
  p9_mem :: memory
  p9_calls :: "p9_call list"
  p9_errno :: int
  p9_signals :: nat

abbreviation (input) VIRTQUEUE_NUM :: nat where "VIRTQUEUE_NUM \<equiv> 128"

definition desc_iovec :: "u64 \<times> u32 \<Rightarrow> iovec" where
  "desc_iovec b = \<lparr>iov_base = unat (fst b), iov_len = unat (snd b)\<rparr>"

definition virtio_p9_pdu_init :: "virt_queue \<Rightarrow> (p9_pdu \<times> virt_queue) result" where
  "virtio_p9_pdu_init q =
     rbind (virt_queue_get_inout_iov VIRTQUEUE_NUM VIRTQUEUE_NUM q) (\<lambda>(head, (ins, outs), q').
     Inr (\<lparr>queue_head = head, read_offset = VIRTIO_9P_HDR_LEN, write_offset = VIRTIO_9P_HDR_LEN,
           in_iov = map desc_iovec ins, out_iov = map desc_iovec outs\<rparr>, q'))"

definition virtio_p9_get_cmd :: "memory \<Rightarrow> p9_pdu \<Rightarrow> u8 result" where
  "virtio_p9_get_cmd m p =
     (case out_iov p of [] \<Rightarrow> Inl NullDeref | v # vs \<Rightarrow> aget m (iov_base v + 4))"

text \<open>A request between the two rings: dispatch and handler.\<close>

definition p9_serve :: "p9_host \<Rightarrow> p9_state \<Rightarrow> p9_state result" where
  "p9_serve H s =
     rbind (virtio_p9_get_cmd (mem s) (pdu s)) (\<lambda>cmd.
     rbind (handler_of H cmd s) (\<lambda>(_, s'). Inr s'))"

definition virtio_p9_do_io_request :: "p9_host \<Rightarrow> p9_dev \<Rightarrow> p9_dev result" where
  "virtio_p9_do_io_request H d =
     rbind (virtio_p9_pdu_init (p9_vq d)) (\<lambda>(p, q).
     rbind (p9_serve H \<lparr>tab = p9_tab d, pdu = p, mem = p9_mem d, calls = p9_calls d, errno = p9_errno d, outlen = 0\<rparr>) (\<lambda>s.
     rbind (virt_queue_set_used_elem (ucast (queue_head p), outlen s) q) (\<lambda>q'.
     Inr (d\<lparr>p9_vq := q', p9_tab := tab s, p9_mem := mem s, p9_calls := calls s, p9_errno := errno s\<rparr>))))"

text \<open>The loop over the available requests, with fuel for their number.\<close>

fun virtio_p9_do_io :: "nat \<Rightarrow> p9_host \<Rightarrow> p9_dev \<Rightarrow> p9_dev result option" where
  "virtio_p9_do_io 0 H d = None"
| "virtio_p9_do_io (Suc fuel) H d =
     (case virt_queue_available (p9_vq d) of
        (False, q) \<Rightarrow> Some (Inr (d\<lparr>p9_vq := q\<rparr>))
      | (True, q) \<Rightarrow>
         (case virtio_p9_do_io_request H (d\<lparr>p9_vq := q\<rparr>) of
            Inl e \<Rightarrow> Some (Inl e)
          | Inr d' \<Rightarrow> virtio_p9_do_io fuel H (d'\<lparr>p9_signals := p9_signals d' + 1\<rparr>)))"

text \<open>
  \<^verbatim>\<open>notify_status\<close> when the device stops: the traversal computes the successor of a node before it is closed, but the
  removal of a node rotates the tree the traversal goes on in.
\<close>

fun close_all :: "nat \<Rightarrow> p9_host \<Rightarrow> (u32 \<times> nat) option \<Rightarrow> unit p9m" where
  "close_all n H None = ret ()"
| "close_all 0 H (Some x) = lift (Inl Die)"
| "close_all (Suc n) H (Some x) =
     bnd (gets (\<lambda>s. rb_place (\<lambda>y. snd y = snd x) (fids (tab s)) [])) (\<lambda>p.
     case p of None \<Rightarrow> lift (Inl UseAfterFree)
     | Some (u, ps) \<Rightarrow>
        bnd (fid_obj (snd x)) (\<lambda>f.
        bnd (fid_close H (fid f)) (\<lambda>_.
        close_all n H (rb_next_postorder ps))))"

definition notify_stop :: "p9_host \<Rightarrow> unit p9m" where
  "notify_stop H = bnd (gets (\<lambda>s. fids (tab s))) (\<lambda>t. close_all (length (inorder t)) H (rb_first_postorder t))"

section \<open>Reasoning about handlers\<close>

text \<open>\<open>valid P m Q\<close>: from a state with \<open>P\<close>, if the step \<open>m\<close> does not fault, its result and the new state satisfy \<open>Q\<close>.\<close>

named_theorems steps "what the steps of the handlers keep"

definition valid :: "(p9_state \<Rightarrow> bool) \<Rightarrow> 'a p9m \<Rightarrow> ('a \<Rightarrow> p9_state \<Rightarrow> bool) \<Rightarrow> bool" where
  "valid P m Q \<longleftrightarrow> (\<forall>s. P s \<longrightarrow> rall (\<lambda>(x, s'). Q x s') (m s))"

lemma valid_bnd: "valid P m R \<Longrightarrow> (\<And>x. valid (R x) (f x) Q) \<Longrightarrow> valid P (bnd m f) Q"
  by (fastforce simp: valid_def bnd_def rall_iff rbind_eq_Inr_iff)

lemma valid_ret: "(\<And>s. P s \<Longrightarrow> Q x s) \<Longrightarrow> valid P (ret x) Q"
  by (simp add: valid_def ret_def)

lemma valid_lift: "(\<And>x s. r = Inr x \<Longrightarrow> P s \<Longrightarrow> Q x s) \<Longrightarrow> valid P (lift r) Q"
  by (auto simp: valid_def lift_def rall_iff rbind_eq_Inr_iff)

lemma valid_gets: "(\<And>s. P s \<Longrightarrow> Q (f s) s) \<Longrightarrow> valid P (gets f) Q"
  by (simp add: valid_def gets_def)

lemma valid_modify: "(\<And>s. P s \<Longrightarrow> Q () (f s)) \<Longrightarrow> valid P (modify f) Q"
  by (simp add: valid_def modify_def)

lemma valid_pre: "valid P' m Q \<Longrightarrow> (\<And>s. P s \<Longrightarrow> P' s) \<Longrightarrow> valid P m Q"
  by (simp add: valid_def)

lemma valid_post: "valid P m Q' \<Longrightarrow> (\<And>x s. Q' x s \<Longrightarrow> Q x s) \<Longrightarrow> valid P m Q"
  by (fastforce simp: valid_def rall_iff)

text \<open>Steps that keep an invariant; the result may carry a fact \<open>R\<close>.\<close>

definition keeps :: "(p9_state \<Rightarrow> bool) \<Rightarrow> ('a \<Rightarrow> bool) \<Rightarrow> 'a p9m \<Rightarrow> bool" where
  "keeps I R m \<longleftrightarrow> valid I m (\<lambda>x s. I s \<and> R x)"

lemma keeps_bnd [steps]: "keeps I R m \<Longrightarrow> (\<And>x. R x \<Longrightarrow> keeps I S (f x)) \<Longrightarrow> keeps I S (bnd m f)"
  unfolding keeps_def by (rule valid_bnd, assumption) (auto simp: valid_def)

lemma keeps_ret [steps]: "R x \<Longrightarrow> keeps I R (ret x)"
  unfolding keeps_def by (rule valid_ret) simp

lemma keeps_ret_any: "keeps I (\<lambda>_. True) (ret x)"
  by (rule keeps_ret) simp

lemma keeps_lift: "(\<And>x. r = Inr x \<Longrightarrow> R x) \<Longrightarrow> keeps I R (lift r)"
  unfolding keeps_def by (rule valid_lift) simp

lemma keeps_weaken: "keeps I R m \<Longrightarrow> (\<And>x. R x \<Longrightarrow> S x) \<Longrightarrow> keeps I S m"
  unfolding keeps_def by (erule valid_post) blast

lemma keeps_or_err [steps]:
  "keeps I R m \<Longrightarrow> (\<And>x. R (Some x) \<Longrightarrow> keeps I (\<lambda>_. True) (f x)) \<Longrightarrow> keeps I (\<lambda>_. True) (or_err m f)"
  unfolding or_err_def by (rule keeps_bnd, assumption) (auto split: option.splits intro: keeps_ret)

lemma keeps_if [steps]: "(c \<Longrightarrow> keeps I R m) \<Longrightarrow> (\<not> c \<Longrightarrow> keeps I R n) \<Longrightarrow> keeps I R (if c then m else n)"
  by simp

lemma keeps_option [steps]:
  "(x = None \<Longrightarrow> keeps I R m) \<Longrightarrow> (\<And>y. x = Some y \<Longrightarrow> keeps I R (f y)) \<Longrightarrow> keeps I R (case x of None \<Rightarrow> m | Some y \<Rightarrow> f y)"
  by (cases x) simp_all

lemma keeps_modify: "(\<And>s. I s \<Longrightarrow> I (f s)) \<Longrightarrow> keeps I (\<lambda>_. True) (modify f)"
  unfolding keeps_def by (rule valid_modify) simp

lemma keeps_gets: "(\<And>s. I s \<Longrightarrow> R (f s)) \<Longrightarrow> keeps I R (gets f)"
  unfolding keeps_def by (rule valid_gets) simp

lemma keepsD: "keeps I R m \<Longrightarrow> I s \<Longrightarrow> m s = Inr (x, s') \<Longrightarrow> I s' \<and> R x"
  by (fastforce simp: keeps_def valid_def)

section \<open>The paths the host is given\<close>

fun paths_of :: "p9_call \<Rightarrow> path list" where
  "paths_of (Lstat p) = [p]"
| "paths_of (Stat p) = [p]"
| "paths_of (Opendir p) = [p]"
| "paths_of (Open p _ _) = [p]"
| "paths_of (Chmod p _) = [p]"
| "paths_of (Mkdir p _) = [p]"
| "paths_of (Mknod p _ _ _) = [p]"
| "paths_of (Symlink _ p) = [p]"
| "paths_of (Link p q) = [p, q]"
| "paths_of (Rename p q) = [p, q]"
| "paths_of (Remove p) = [p]"
| "paths_of (Readlink p) = [p]"
| "paths_of (Statfs p) = [p]"
| "paths_of (Truncate p _) = [p]"
| "paths_of (Lchown p _ _) = [p]"
| "paths_of (Utimensat p _ _) = [p]"
| "paths_of _ = []"

definition call_below :: "path \<Rightarrow> p9_call \<Rightarrow> bool" where
  "call_below root c \<longleftrightarrow> (\<forall>p \<in> set (paths_of c). below root p)"

definition tab_below :: "path \<Rightarrow> p9_table \<Rightarrow> bool" where
  "tab_below root t \<longleftrightarrow> root_dir t = root \<and> (\<forall>f. Some f \<in> set (objs t) \<longrightarrow> below [] (path f))"

definition jail :: "path \<Rightarrow> p9_state \<Rightarrow> bool" where
  "jail root s \<longleftrightarrow> tab_below root (tab s) \<and> (\<forall>c \<in> set (calls s). call_below root c)"

lemma below_append: "below [] q \<Longrightarrow> below root (root @ q)"
  by (auto simp: below_def)

lemma keeps_jail_tab:
  assumes "\<And>t x t'. tab_below root t \<Longrightarrow> f t = Inr (x, t') \<Longrightarrow> tab_below root t' \<and> R x"
  shows "keeps (jail root) R (on_tab f)"
  unfolding keeps_def valid_def jail_def on_tab_def by (auto simp: rall_iff rbind_eq_Inr_iff dest: assms)

lemma jail_host [steps]: "call_below root c \<Longrightarrow> keeps (jail root) (\<lambda>_. True) (host h c)"
  by (auto simp: keeps_def valid_def host_def jail_def Let_def split: sum.splits)

lemma jail_host_list [steps]: "call_below root c \<Longrightarrow> keeps (jail root) (\<lambda>_. True) (host_list h c)"
  by (auto simp: keeps_def valid_def host_list_def jail_def)

lemma jail_modify:
  "(\<And>s. tab (f s) = tab s \<and> calls (f s) = calls s) \<Longrightarrow> keeps (jail root) (\<lambda>_. True) (modify f)"
  by (rule keeps_modify) (simp add: jail_def)

lemma jail_simple [steps]:
  "keeps (jail root) (\<lambda>_. True) (readf fmt)" "keeps (jail root) (\<lambda>_. True) (writef fmt vs)"
  "keeps (jail root) (\<lambda>_. True) (seek_read n)" "keeps (jail root) (\<lambda>_. True) (seek_write n)"
  "keeps (jail root) (\<lambda>_. True) (set_outlen l)" "keeps (jail root) (\<lambda>_. True) (set_errno e)"
  unfolding seek_read_def seek_write_def set_outlen_def set_errno_def
  by (auto simp: keeps_def valid_def modify_def readf_def writef_def rall_iff rbind_eq_Inr_iff jail_def)

lemma keeps_lift_any [steps]: "keeps I (\<lambda>_. True) (lift r)"
  by (rule keeps_lift) simp

lemma keeps_gets_any: "keeps I (\<lambda>_. True) (gets f)"
  by (rule keeps_gets) simp

lemma aget_Some: "fid_at a t = Inr f \<Longrightarrow> Some f \<in> set (objs t)"
  by (auto simp: fid_at_def rbind_eq_Inr_iff aget_eq_Inr_iff split: option.splits) (metis nth_mem)

lemma jail_fid_obj [steps]: "keeps (jail root) (\<lambda>f. below [] (path f)) (fid_obj a)"
  by (auto simp: keeps_def valid_def fid_obj_def bnd_def gets_def lift_def rall_iff rbind_eq_Inr_iff jail_def tab_below_def dest: aget_Some)

lemma jail_path_of [steps]: "keeps (jail root) (below root) (path_of a)"
proof -
  have "keeps (jail root) (below root) (gets (\<lambda>s. abs_path (tab s) f))" if "below [] (path f)" for f
    using that by (intro keeps_gets) (auto simp: jail_def tab_below_def abs_path_def below_append)
  then show ?thesis unfolding path_of_def by (rule keeps_bnd [OF jail_fid_obj])
qed

lemma tab_below_set: "tab_below root t \<Longrightarrow> below [] (path f) \<Longrightarrow> tab_below root (set_fid a f t)"
  using set_update_subset_insert [of "objs t" a "Some f"] by (auto simp: tab_below_def set_fid_def)

lemma jail_put_fid [steps]: "below [] (path f) \<Longrightarrow> keeps (jail root) (\<lambda>_. True) (put_fid a f)"
  unfolding put_fid_def by (rule keeps_modify) (simp add: jail_def tab_below_set)

lemma new_fid_below [simp]: "below [] (path (new_fid k))"
  by (simp add: new_fid_def below_def)

lemma tab_below_new: "tab_below root t \<Longrightarrow> get_fid k t = Inr (a, t') \<Longrightarrow> tab_below root t'"
  by (auto simp: get_fid_def find_or_create_fid_def tab_below_def Let_def rbind_eq_Inr_iff
      split: prod.splits rbt.splits if_splits)

lemma jail_the_fid [steps]: "keeps (jail root) (\<lambda>_. True) (the_fid k)"
  unfolding the_fid_def by (rule keeps_jail_tab) (auto dest: tab_below_new)

lemma tab_below_close:
  assumes "tab_below root t" and "close_fid k t = Inr (c, d, t')"
  shows "tab_below root t'"
proof -
  obtain a t1 tree where g: "get_fid k t = Inr (a, t1)" and t': "t' = t1\<lparr>fids := tree, objs := (objs t1)[a := None]\<rparr>"
    using assms(2) by (auto simp: close_fid_def rbind_eq_Inr_iff)
  then show ?thesis
    using tab_below_new [OF assms(1) g] set_update_subset_insert [of "objs t1" a None] by (auto simp: tab_below_def)
qed

lemma call_below_simps [simp]:
  "call_below root (Close n)" "call_below root (Closedir n)" "call_below root (Fsync n)" "call_below root (Fdatasync n)"
  "call_below root (Dirfd n)" "call_below root (Seekdir n o')" "call_below root (Readdir n)" "call_below root (Preadv n iov o')"
  "call_below root (Pwritev n data o')"
  "call_below root (Lstat p) = below root p" "call_below root (Stat p) = below root p" "call_below root (Opendir p) = below root p"
  "call_below root (Open p f m) = below root p" "call_below root (Chmod p m) = below root p" "call_below root (Mkdir p m) = below root p"
  "call_below root (Mknod p m i j) = below root p" "call_below root (Symlink q p) = below root p"
  "call_below root (Link p q) = (below root p \<and> below root q)" "call_below root (Rename p q) = (below root p \<and> below root q)"
  "call_below root (Remove p) = below root p" "call_below root (Readlink p) = below root p" "call_below root (Statfs p) = below root p"
  "call_below root (Truncate p z) = below root p" "call_below root (Lchown p u g) = below root p" "call_below root (Utimensat p x y) = below root p"
  by (simp_all add: call_below_def)

lemma jail_close_call: "(\<And>n. call_below root (c n)) \<Longrightarrow> keeps (jail root) (\<lambda>_. True) (close_call H c x)"
  unfolding close_call_def by (rule steps | simp)+

lemma jail_fid_close [steps]: "keeps (jail root) (\<lambda>_. True) (fid_close H k)"
  unfolding fid_close_def
  by (intro keeps_bnd [OF keeps_jail_tab [where R = "\<lambda>_. True"]])
    (auto simp: rbind_eq_Inr_iff split: prod.splits intro!: keeps_bnd [where R = "\<lambda>_. True"] jail_close_call dest: tab_below_close)

lemma jail_root: "keeps (jail root) (\<lambda>r. r = root) (gets (\<lambda>s. root_dir (tab s)))"
  by (rule keeps_gets) (simp add: jail_def tab_below_def)

lemma jail_join [steps]: "below [] name \<Longrightarrow> keeps (jail root) (\<lambda>_. True) (join a name)"
  unfolding join_def
  by (rule keeps_bnd [OF keeps_jail_tab [where R = "\<lambda>_. True"]])
    (auto simp: join_path_def rbind_eq_Inr_iff tab_below_set split: if_splits intro!: keeps_ret keeps_bnd [OF jail_simple(6)])

lemma jail_full_path:
  "(\<And>p. r = Inr p \<Longrightarrow> R p) \<Longrightarrow> keeps (jail root) (\<lambda>x. case x of None \<Rightarrow> True | Some p \<Rightarrow> R p) (full_path r)"
  unfolding full_path_def by (cases r) (auto intro!: keeps_bnd [OF jail_simple(6)] keeps_ret)

lemma full_path_name: "get_full_path_helper n d name = Inr full \<Longrightarrow> dotdot \<notin> set (comps name)"
  by (auto simp: get_full_path_helper_def Let_def illegal_append split: if_splits)

lemma jail_get_full_path [steps]:
  "keeps (jail root) (\<lambda>x. case x of None \<Rightarrow> True | Some p \<Rightarrow> below root p \<and> dotdot \<notin> set (comps name)) (get_full_path a name)"
  unfolding get_full_path_def
  by (intro keeps_bnd [OF jail_path_of] jail_full_path conjI) (erule full_path_below full_path_name, assumption?)+

text \<open>\<^verbatim>\<open>stat_rel\<close> also checks the path it is given: it has no component \<^verbatim>\<open>..\<close>.\<close>

lemma jail_stat_rel [steps]:
  "keeps (jail root) (\<lambda>x. x \<noteq> None \<longrightarrow> dotdot \<notin> set (comps p)) (stat_rel H p)"
proof -
  let ?R = "\<lambda>full. below root full \<and> dotdot \<notin> set (comps p)"
  have "?R full" if "get_full_path_helper PATH_MAX root p = Inr full" for full
    using that full_path_below [OF that, of root]
      full_path_name [OF that] by (simp add: below_def)
  then have "keeps (jail root) (\<lambda>x. case x of None \<Rightarrow> True | Some q \<Rightarrow> ?R q) (full_path (get_full_path_helper PATH_MAX root p))"
    by (rule jail_full_path)
  then show ?thesis unfolding stat_rel_def
    by (intro keeps_bnd [OF jail_root] keeps_bnd [where R = "\<lambda>x. case x of None \<Rightarrow> True | Some q \<Rightarrow> ?R q"])
      (auto split: option.splits intro!: keeps_ret keeps_weaken [OF jail_host])
qed

lemma jail_reply [steps]:
  "keeps (jail root) (\<lambda>_. True) (virtio_p9_set_reply_header l)" "keeps (jail root) (\<lambda>_. True) (virtio_p9_error_reply e)"
  "keeps (jail root) (\<lambda>_. True) (reply_with l)" "keeps (jail root) (\<lambda>_. True) reply" "keeps (jail root) (\<lambda>_. True) err_out"
  unfolding virtio_p9_set_reply_header_def virtio_p9_error_reply_def reply_with_def reply_def err_out_def Let_def
  by (rule steps keeps_gets_any TrueI)+

lemma jail_ending [steps]:
  "keeps (jail root) (\<lambda>_. True) fin \<Longrightarrow> keeps (jail root) (\<lambda>_. True) body \<Longrightarrow> keeps (jail root) (\<lambda>_. True) (ending fin body)"
  unfolding ending_def by (rule keeps_bnd, assumption) (simp add: jail_reply)

lemma jail_mode [steps]: "keeps (jail root) (\<lambda>_. True) (is_dir H a)" "keeps (jail root) (\<lambda>_. True) (is_reg H a)"
  unfolding is_dir_def is_reg_def fid_mode_def by (rule steps | simp)+

lemma jail_skip [steps]: "keeps (jail root) (\<lambda>_. True) (skip_count n)"
  unfolding skip_count_def by (rule keeps_bnd [OF keeps_gets_any] steps)+

lemma jail_when [steps]:
  "keeps (jail root) (\<lambda>_. True) m \<Longrightarrow> keeps (jail root) (\<lambda>_. True) k \<Longrightarrow> keeps (jail root) (\<lambda>_. True) (when_call c m k)"
  unfolding when_call_def by (auto intro: keeps_or_err)

lemma jail_names:
  "keeps (jail root) (\<lambda>_. True) virtio_p9_version" "keeps (jail root) (\<lambda>_. True) (virtio_p9_clunk H)"
  "keeps (jail root) (\<lambda>_. True) (virtio_p9_mkdir H)" "keeps (jail root) (\<lambda>_. True) (virtio_p9_mknod H)"
  "keeps (jail root) (\<lambda>_. True) (virtio_p9_symlink H)" "keeps (jail root) (\<lambda>_. True) (virtio_p9_link H)"
  "keeps (jail root) (\<lambda>_. True) (virtio_p9_remove H)" "keeps (jail root) (\<lambda>_. True) (virtio_p9_unlinkat H)"
  "keeps (jail root) (\<lambda>_. True) (virtio_p9_rename H)"
  unfolding virtio_p9_version_def virtio_p9_clunk_def virtio_p9_mkdir_def virtio_p9_mknod_def virtio_p9_symlink_def
    virtio_p9_link_def virtio_p9_remove_def virtio_p9_unlinkat_def virtio_p9_rename_def
  by (rule keeps_ret_any steps | simp)+

lemma jail_open: "keeps (jail root) (\<lambda>_. True) (virtio_p9_open H)"
  unfolding virtio_p9_open_def by (rule keeps_ret_any steps | simp)+

lemma jail_attributes:
  "keeps (jail root) (\<lambda>_. True) (virtio_p9_getattr H)" "keeps (jail root) (\<lambda>_. True) (virtio_p9_setattr H)"
  "keeps (jail root) (\<lambda>_. True) (virtio_p9_readlink H)" "keeps (jail root) (\<lambda>_. True) (virtio_p9_statfs H)"
  "keeps (jail root) (\<lambda>_. True) (virtio_p9_fsync H)" "keeps (jail root) (\<lambda>_. True) virtio_p9_lock"
  "keeps (jail root) (\<lambda>_. True) virtio_p9_getlock" "keeps (jail root) (\<lambda>_. True) virtio_p9_flush"
  "keeps (jail root) (\<lambda>_. True) virtio_p9_eopnotsupp"
  unfolding virtio_p9_getattr_def virtio_p9_setattr_def virtio_p9_readlink_def virtio_p9_statfs_def virtio_p9_fsync_def
    virtio_p9_lock_def virtio_p9_getlock_def virtio_p9_flush_def virtio_p9_eopnotsupp_def Let_def
  by (rule keeps_ret_any steps | simp)+

lemma jail_attach: "keeps (jail root) (\<lambda>_. True) (virtio_p9_attach H)"
proof -
  have "below [] [slash]" by (simp add: below_def)
  moreover have "below root root" by (simp add: below_def)
  ultimately show ?thesis unfolding virtio_p9_attach_def
    by - (rule keeps_bnd [OF jail_root] steps | simp)+
qed

lemma below_join: "below [] q \<Longrightarrow> dotdot \<notin> set (comps name) \<Longrightarrow> below [] (q @ slash # name)"
  unfolding below_def by (auto simp: comps_append)

lemma jail_create_path: "dotdot \<notin> set (comps name) \<Longrightarrow> keeps (jail root) (\<lambda>_. True) (create_path a name)"
  unfolding create_path_def Let_def
  by (rule keeps_bnd [OF keeps_gets_any] steps | simp add: below_join)+

lemma jail_create: "keeps (jail root) (\<lambda>_. True) (virtio_p9_create H)"
  unfolding virtio_p9_create_def by (rule jail_create_path steps | simp)+

text \<open>A turn of a walk extends a path by a name that \<^verbatim>\<open>stat_rel\<close> has checked.\<close>

lemma comps_last: "dotdot \<notin> set (comps (q @ slash # name)) \<Longrightarrow> dotdot \<notin> set (comps name)"
  by (simp add: comps_append)

lemma jail_walk_one [steps]: "keeps (jail root) (\<lambda>_. True) (walk_one H n a)"
  unfolding walk_one_def Let_def by (rule steps | simp add: below_join comps_append)+

lemma jail_walk_loop [steps]: "keeps (jail root) (\<lambda>_. True) (walk_loop H n a k)"
  by (induction k) (auto intro!: keeps_ret keeps_bnd [OF jail_walk_one])

lemma jail_walk_forever [steps]: "keeps (jail root) (\<lambda>_. True) (walk_forever H n a k)"
  by (induction k) (auto intro!: keeps_ret keeps_lift_any keeps_bnd [OF jail_walk_one])

lemma jail_walk: "keeps (jail root) (\<lambda>_. True) (virtio_p9_walk H)"
  unfolding virtio_p9_walk_def walk_reply_def by (rule keeps_bnd [OF keeps_gets_any] steps | simp)+

lemma jail_readdir_loop [steps]: "keeps (jail root) (\<lambda>_. True) (readdir_loop H d count old rcount es)"
proof (induction es arbitrary: old rcount)
  case Nil
  show ?case unfolding readdir_loop.simps by (rule keeps_ret_any)
next
  case (Cons e es)
  show ?case unfolding readdir_loop.simps Let_def
    by (rule Cons.IH keeps_bnd [OF keeps_gets_any] keeps_ret_any steps | simp)+
qed

lemma jail_preadv [steps]: "keeps (jail root) (\<lambda>_. True) (host_preadv H d iov off)"
  unfolding host_preadv_def
  by (rule keeps_bnd [OF jail_host]) (auto intro: keeps_ret split: option.splits simp: keeps_def valid_def rall_iff rbind_eq_Inr_iff jail_def ret_def)

lemma jail_pwritev [steps]: "keeps (jail root) (\<lambda>_. True) (host_pwritev H d iov off)"
  unfolding host_pwritev_def by (rule keeps_bnd [OF keeps_gets_any] steps | simp)+

lemma jail_set_pdu [steps]: "keeps (jail root) (\<lambda>_. True) (modify (\<lambda>s. s\<lparr>pdu := f (pdu s)\<rparr>))"
  by (rule jail_modify) simp

lemma keeps_prod [steps]: "(\<And>x y. keeps I R (f x y)) \<Longrightarrow> keeps I R (case p of (x, y) \<Rightarrow> f x y)"
  by (cases p) simp

lemma jail_data:
  "keeps (jail root) (\<lambda>_. True) (virtio_p9_read H)" "keeps (jail root) (\<lambda>_. True) (virtio_p9_write H)"
  "keeps (jail root) (\<lambda>_. True) (virtio_p9_readdir H)"
  unfolding virtio_p9_read_def virtio_p9_write_def virtio_p9_readdir_def Let_def
  by (rule keeps_bnd [OF keeps_gets_any] keeps_ret_any steps | simp)+

section \<open>Sequences of requests\<close>

lemma jail_handler:
  assumes "cmd \<noteq> 74"
  shows "keeps (jail root) (\<lambda>_. True) (handler_of H cmd)"
  using assms unfolding handler_of_def virtio_9p_dotl_handler_def
  by (simp add: jail_names jail_open jail_attributes jail_attach jail_create jail_walk jail_data)

text \<open>A request: its buffers, and the memory of the guest when the request is served.\<close>

definition p9_request :: "p9_host \<Rightarrow> p9_pdu \<times> memory \<Rightarrow> p9_state \<Rightarrow> p9_state result" where
  "p9_request H r s = p9_serve H (s\<lparr>pdu := fst r, mem := snd r, outlen := 0\<rparr>)"

definition is_renameat :: "p9_pdu \<times> memory \<Rightarrow> bool" where
  "is_renameat r \<longleftrightarrow> virtio_p9_get_cmd (snd r) (fst r) = Inr 74"

lemma jail_request: "\<not> is_renameat r \<Longrightarrow> jail root s \<Longrightarrow> p9_request H r s = Inr s' \<Longrightarrow> jail root s'"
  by (auto simp: p9_request_def p9_serve_def is_renameat_def rbind_eq_Inr_iff dest!: keepsD [OF jail_handler, rotated 2])
    (auto simp: jail_def)

lemma jail_requests:
  "\<forall>r \<in> set rs. \<not> is_renameat r \<Longrightarrow> jail root s \<Longrightarrow> rfold (p9_request H) rs s = Inr s' \<Longrightarrow> jail root s'"
  by (induction rs arbitrary: s) (auto simp: rbind_eq_Inr_iff dest: jail_request)

definition fresh_state :: "path \<Rightarrow> p9_state" where
  "fresh_state root =
     \<lparr>tab = empty_table root, pdu = \<lparr>queue_head = 0, read_offset = 0, write_offset = 0, in_iov = [], out_iov = []\<rparr>, mem = [],
      calls = [], errno = 0, outlen = 0\<rparr>"

lemma fresh_jail: "jail root (fresh_state root)"
  by (simp add: jail_def fresh_state_def tab_below_def empty_table_def)

section \<open>The frame of a reply\<close>

text \<open>
  The buffers of a request lie in the memory and apart from each other; the first buffer for the reply has room for
  the header and a count, the first buffer of the request holds the header. \<open>hdr\<close> is the first buffer of the reply and
  the header of the request.
\<close>

definition framed :: "iovec \<times> u8 list \<Rightarrow> p9_state \<Rightarrow> bool" where
  "framed hdr s \<longleftrightarrow> iov_ok (length (mem s)) (in_iov (pdu s) @ out_iov (pdu s)) \<and>
     (\<exists>vs. in_iov (pdu s) = fst hdr # vs) \<and> 11 \<le> iov_len (fst hdr) \<and>
     (\<exists>w ws. out_iov (pdu s) = w # ws \<and> 7 \<le> iov_len w \<and> take 7 (buf (mem s) w) = snd hdr)"

text \<open>Writing into buffers of the reply, or parts of them, keeps the frame.\<close>

lemma framed_write:
  assumes "framed hdr s" and "iov_write iov off data (mem s) = Inr (n, m')" and "iov_ok (length (mem s)) iov"
    and "\<forall>u \<in> set iov. \<forall>w \<in> set (out_iov (pdu s)). apart u w"
  shows "framed hdr (s\<lparr>mem := m'\<rparr>)"
proof -
  obtain w ws where w: "out_iov (pdu s) = w # ws" "take 7 (buf (mem s) w) = snd hdr"
    using assms(1) by (auto simp: framed_def)
  have l: "length m' = length (mem s)" using iov_write_total [OF assms(3), of off data] assms(2) by auto
  have "inside (length (mem s)) w" using assms(1) w(1) by (auto simp: framed_def iov_ok_append)
  then have "buf m' w = buf (mem s) w" using iov_write_frame [OF assms(2,3)] assms(4) w(1) by simp
  then show ?thesis using assms(1) w l by (auto simp: framed_def)
qed

lemma framed_pdu: "in_iov p = in_iov (pdu s) \<Longrightarrow> out_iov p = out_iov (pdu s) \<Longrightarrow> framed hdr (s\<lparr>pdu := p\<rparr>) = framed hdr s"
  by (simp add: framed_def)

lemma framed_other [simp]:
  "framed hdr (s\<lparr>tab := t\<rparr>) = framed hdr s" "framed hdr (s\<lparr>calls := c\<rparr>) = framed hdr s"
  "framed hdr (s\<lparr>errno := e\<rparr>) = framed hdr s" "framed hdr (s\<lparr>outlen := l\<rparr>) = framed hdr s"
  by (simp_all add: framed_def)

lemma framed_in: "framed hdr s \<Longrightarrow> iov_ok (length (mem s)) (in_iov (pdu s))"
  by (simp add: framed_def iov_ok_append)

lemma framed_out: "framed hdr s \<Longrightarrow> iov_ok (length (mem s)) (out_iov (pdu s))"
  by (simp add: framed_def iov_ok_append)

lemma framed_pdu_write:
  assumes "framed hdr s" and "virtio_p9_pdu_write data (mem s) (pdu s) = Inr (m', p')"
  shows "framed hdr (s\<lparr>mem := m', pdu := p'\<rparr>)"
proof -
  obtain n where n: "iov_write (in_iov (pdu s)) (write_offset (pdu s)) data (mem s) = Inr (n, m')"
    "p' = (pdu s)\<lparr>write_offset := write_offset (pdu s) + n\<rparr>"
    using assms(2) by (auto simp: virtio_p9_pdu_write_def rbind_eq_Inr_iff)
  have "framed hdr (s\<lparr>mem := m'\<rparr>)"
    using framed_write [OF assms(1) n(1) framed_in [OF assms(1)]] assms(1) by (simp add: framed_def iov_ok_append)
  then show ?thesis using n(2) framed_pdu [of p' "s\<lparr>mem := m'\<rparr>"] by simp
qed

lemma framed_writef:
  assumes "framed hdr s" and "list_all encodable vs" and "fmt = map kind_of vs"
  shows "\<exists>m' n. writef fmt vs s = Inr ((), s\<lparr>mem := m', pdu := (pdu s)\<lparr>write_offset := write_offset (pdu s) + n\<rparr>\<rparr>) \<and>
    n = min (length (wires vs)) (iov_total (in_iov (pdu s)) - write_offset (pdu s)) \<and>
    framed hdr (s\<lparr>mem := m', pdu := (pdu s)\<lparr>write_offset := write_offset (pdu s) + n\<rparr>\<rparr>) \<and>
    (write_offset (pdu s) + length (wires vs) \<le> iov_total (in_iov (pdu s)) \<longrightarrow>
     gather m' (in_iov (pdu s)) = blit (gather (mem s) (in_iov (pdu s))) (write_offset (pdu s)) (wires vs))"
proof -
  let ?iov = "in_iov (pdu s)" and ?off = "write_offset (pdu s)"
  note ok = framed_in [OF assms(1)]
  define n where "n = min (length (wires vs)) (iov_total ?iov - ?off)"
  obtain m' where w: "iov_write ?iov ?off (wires vs) (mem s) = Inr (n, m')"
    using iov_write_total [OF ok, of ?off "wires vs"] by (auto simp: n_def)
  then have pw: "virtio_p9_pdu_write (wires vs) (mem s) (pdu s) = Inr (m', (pdu s)\<lparr>write_offset := ?off + n\<rparr>)"
    by (simp add: virtio_p9_pdu_write_def)
  have "writef fmt vs s = Inr ((), s\<lparr>mem := m', pdu := (pdu s)\<lparr>write_offset := ?off + n\<rparr>\<rparr>)"
    using writef_wires [OF assms(2) ok assms(3)] pw by (simp add: writef_def)
  with framed_pdu_write [OF assms(1) pw] iov_write_gather [OF w ok] show ?thesis unfolding n_def by blast
qed

lemma framed_readf:
  assumes "framed hdr s" and "list_all decodable vs" and "unread (mem s) (pdu s) = wires vs @ rest" and "fmt = map kind_of vs"
  shows "readf fmt s = Inr (vs, s\<lparr>pdu := skip (length (wires vs)) (pdu s)\<rparr>)"
  using readf_wires [OF assms(2) framed_out [OF assms(1)] assms(3,4)] by (simp add: readf_def)

lemma le_bytes_of_word: "length bs = 2 \<Longrightarrow> le_bytes 2 (le_word bs :: u16) = bs"
  by (intro nth_equalityI bit_word_eqI) (auto simp: le_bytes_def bit_simps bit_le_word less_2_cases_iff)

definition hdr_cmd :: "iovec \<times> u8 list \<Rightarrow> u8" where
  "hdr_cmd hdr = snd hdr ! 4"

definition hdr_tag :: "iovec \<times> u8 list \<Rightarrow> u16" where
  "hdr_tag hdr = le_word (drop 5 (snd hdr))"

lemma framed_header:
  assumes "framed hdr s"
  shows "length (snd hdr) = 7" and "take 7 (gather (mem s) (out_iov (pdu s))) = snd hdr"
    and "snd hdr = take 4 (snd hdr) @ hdr_cmd hdr # le_bytes 2 (hdr_tag hdr)"
proof -
  obtain w ws where w: "out_iov (pdu s) = w # ws" "7 \<le> iov_len w" "take 7 (buf (mem s) w) = snd hdr"
    using assms by (auto simp: framed_def)
  have "length (buf (mem s) w) = iov_len w" using assms w(1) by (intro length_buf) (simp add: framed_def iov_ok_append)
  then show l: "length (snd hdr) = 7" and "take 7 (gather (mem s) (out_iov (pdu s))) = snd hdr"
    using w(1,2) unfolding w(3) [symmetric] by auto
  have "drop 4 (snd hdr) = snd hdr ! 4 # drop 5 (snd hdr)" using l Cons_nth_drop_Suc [of 4 "snd hdr"] by simp
  then show "snd hdr = take 4 (snd hdr) @ hdr_cmd hdr # le_bytes 2 (hdr_tag hdr)"
    using l le_bytes_of_word [of "drop 5 (snd hdr)"] append_take_drop_id [of 4 "snd hdr"] by (simp add: hdr_cmd_def hdr_tag_def)
qed

lemma framed_unread:
  assumes "framed hdr s" and "read_offset (pdu s) = k" and "k \<le> 7"
  shows "\<exists>rest. unread (mem s) (pdu s) = drop k (snd hdr) @ rest"
proof -
  let ?g = "gather (mem s) (out_iov (pdu s))"
  have "?g = snd hdr @ drop 7 ?g" using framed_header(2) [OF assms(1)] append_take_drop_id [of 7 ?g] by simp
  then have "drop k ?g = drop k (snd hdr) @ drop 7 ?g" using assms(3) framed_header(1) [OF assms(1)] by (metis drop_append diff_is_0_eq drop0)
  then show ?thesis unfolding unread_def assms(2) by blast
qed

text \<open>What the reply starts with: its length, the type \<open>c\<close> and the tag of the request.\<close>

definition starts :: "p9_state \<Rightarrow> u32 \<Rightarrow> u8 \<Rightarrow> u16 \<Rightarrow> bool" where
  "starts s l c tag \<longleftrightarrow> take 7 (gather (mem s) (in_iov (pdu s))) = le_bytes 4 l @ c # le_bytes 2 tag"

definition same_but_reply :: "p9_state \<Rightarrow> p9_state \<Rightarrow> bool" where
  "same_but_reply s s' \<longleftrightarrow> tab s' = tab s \<and> calls s' = calls s \<and> errno s' = errno s \<and> outlen s' = outlen s \<and>
     in_iov (pdu s') = in_iov (pdu s) \<and> out_iov (pdu s') = out_iov (pdu s)"

lemma header_written:
  assumes "framed hdr s" and "write_offset (pdu s) = 0"
  shows "\<exists>s'. writef ''dbw'' [VD l, VB c, VW tag] s = Inr ((), s') \<and> framed hdr s' \<and> same_but_reply s s' \<and> starts s' l c tag \<and>
    drop 7 (gather (mem s') (in_iov (pdu s'))) = drop 7 (gather (mem s) (in_iov (pdu s)))"
proof -
  let ?vs = "[VD l, VB c, VW tag]" and ?iov = "in_iov (pdu s)"
  have room: "7 \<le> iov_total ?iov" using assms(1) by (auto simp: framed_def)
  have len: "length (wires ?vs) = 7" by simp
  obtain m' n where w: "writef ''dbw'' ?vs s = Inr ((), s\<lparr>mem := m', pdu := (pdu s)\<lparr>write_offset := n\<rparr>\<rparr>)"
    "framed hdr (s\<lparr>mem := m', pdu := (pdu s)\<lparr>write_offset := n\<rparr>\<rparr>)" "gather m' ?iov = blit (gather (mem s) ?iov) 0 (wires ?vs)"
    using framed_writef [OF assms(1), of ?vs "''dbw''"] room len assms(2) by auto
  moreover have "take 7 (gather m' ?iov) = wires ?vs" "drop 7 (gather m' ?iov) = drop 7 (gather (mem s) ?iov)"
    unfolding w(3) blit_def using len by (simp_all del: wires_simps)
  ultimately show ?thesis by (simp add: starts_def same_but_reply_def)
qed

lemma same_but_reply_trans: "same_but_reply s t \<Longrightarrow> same_but_reply t u \<Longrightarrow> same_but_reply s u"
  by (simp add: same_but_reply_def)

lemma seek_simps:
  "seek_read n s = Inr ((), s\<lparr>pdu := (pdu s)\<lparr>read_offset := n\<rparr>\<rparr>)" "seek_write n s = Inr ((), s\<lparr>pdu := (pdu s)\<lparr>write_offset := n\<rparr>\<rparr>)"
  "set_outlen l s = Inr ((), s\<lparr>outlen := l\<rparr>)" "set_errno e s = Inr ((), s\<lparr>errno := e\<rparr>)"
  by (simp_all add: seek_read_def seek_write_def set_outlen_def set_errno_def modify_def)

lemma bnd_simps: "m s = Inr (x, s') \<Longrightarrow> bnd m f s = f x s'" "lift (Inr y) s = Inr (y, s)" "gets g s = Inr (g s, s)" "ret z s = Inr (z, s)"
  by (simp_all add: bnd_def lift_def gets_def ret_def)

lemma set_reply_header_ok:
  assumes "framed hdr s"
  shows "\<exists>s'. virtio_p9_set_reply_header l s = Inr ((), s') \<and> framed hdr s' \<and> same_but_reply s s' \<and>
    starts s' l (hdr_cmd hdr + 1) (hdr_tag hdr) \<and> drop 7 (gather (mem s') (in_iov (pdu s'))) = drop 7 (gather (mem s) (in_iov (pdu s)))"
proof -
  let ?vs = "[VB (hdr_cmd hdr), VW (hdr_tag hdr)]"
  let ?s1 = "s\<lparr>pdu := (pdu s)\<lparr>read_offset := 4\<rparr>\<rparr>"
  have f1: "framed hdr ?s1" using assms by (simp add: framed_pdu)
  obtain rest where u: "unread (mem ?s1) (pdu ?s1) = drop 4 (snd hdr) @ rest" using framed_unread [OF f1, of 4] by auto
  have "drop 4 (snd hdr) = wires ?vs"
    using framed_header(1) [OF assms] arg_cong [OF framed_header(3) [OF assms], of "drop 4"] by simp
  with u have r: "readf ''bw'' ?s1 = Inr (?vs, ?s1\<lparr>pdu := skip 3 (pdu ?s1)\<rparr>)"
    using framed_readf [OF f1, of ?vs rest "''bw''"] by simp
  let ?s2 = "?s1\<lparr>pdu := (skip 3 (pdu ?s1))\<lparr>write_offset := 0\<rparr>\<rparr>"
  have "framed hdr ?s2" using assms by (simp add: framed_pdu)
  from header_written [OF this, of l "hdr_cmd hdr + 1" "hdr_tag hdr"] obtain s' where
    s': "writef ''dbw'' [VD l, VB (hdr_cmd hdr + 1), VW (hdr_tag hdr)] ?s2 = Inr ((), s')" "framed hdr s'" "same_but_reply ?s2 s'"
      "starts s' l (hdr_cmd hdr + 1) (hdr_tag hdr)" "drop 7 (gather (mem s') (in_iov (pdu s'))) = drop 7 (gather (mem s) (in_iov (pdu s)))"
    by auto
  have "virtio_p9_set_reply_header l s = Inr ((), s')"
    unfolding virtio_p9_set_reply_header_def using r s'(1)
    by (simp add: bnd_def lift_def seek_simps arg_defs)
  then show ?thesis using s' by (auto simp: same_but_reply_def)
qed

lemma error_reply_ok:
  assumes "framed hdr s"
  shows "\<exists>s'. virtio_p9_error_reply e s = Inr ((), s') \<and> framed hdr s' \<and> tab s' = tab s \<and> calls s' = calls s \<and> outlen s' = 11 \<and>
    starts s' 11 7 (hdr_tag hdr) \<and>
    take 4 (drop 7 (gather (mem s') (in_iov (pdu s')))) = le_bytes 4 (word_of_int (if e = 24 then 23 else e) :: u32)"
proof -
  define e' where "e' = (word_of_int (if e = 24 then 23 else e) :: u32)"
  let ?s1 = "s\<lparr>pdu := (pdu s)\<lparr>write_offset := 7\<rparr>\<rparr>"
  have f1: "framed hdr ?s1" and room: "11 \<le> iov_total (in_iov (pdu s))" using assms by (auto simp: framed_def)
  have lg: "length (gather (mem s) (in_iov (pdu s))) = iov_total (in_iov (pdu s))" using framed_in [OF assms] by (rule length_gather)
  have l4: "length (wires [VD e']) = 4" by simp
  have mn: "min 4 (iov_total (in_iov (pdu s)) - 7) = 4" using room by simp
  from framed_writef [OF f1, of "[VD e']" "''d''"] room obtain m1 where
    w: "writef ''d'' [VD e'] ?s1 = Inr ((), s\<lparr>mem := m1, pdu := (pdu s)\<lparr>write_offset := 11\<rparr>\<rparr>)"
      "framed hdr (s\<lparr>mem := m1, pdu := (pdu s)\<lparr>write_offset := 11\<rparr>\<rparr>)"
      "gather m1 (in_iov (pdu s)) = blit (gather (mem s) (in_iov (pdu s))) 7 (wires [VD e'])"
    unfolding l4 by (auto simp: mn)
  let ?s3 = "s\<lparr>mem := m1, outlen := 11, pdu := (pdu s)\<lparr>write_offset := 11, read_offset := 5\<rparr>\<rparr>"
  have f3: "framed hdr ?s3" using w(2) by (simp add: framed_def)
  obtain rest where u: "unread (mem ?s3) (pdu ?s3) = drop 5 (snd hdr) @ rest" using framed_unread [OF f3, of 5] by auto
  have "drop 5 (snd hdr) = wires [VW (hdr_tag hdr)]"
    using framed_header(1) [OF assms] arg_cong [OF framed_header(3) [OF assms], of "drop 5"] by simp
  with u have r: "readf ''w'' ?s3 = Inr ([VW (hdr_tag hdr)], ?s3\<lparr>pdu := skip 2 (pdu ?s3)\<rparr>)"
    using framed_readf [OF f3, of "[VW (hdr_tag hdr)]" rest "''w''"] by simp
  let ?s4 = "?s3\<lparr>pdu := (skip 2 (pdu ?s3))\<lparr>write_offset := 0\<rparr>\<rparr>"
  have "framed hdr ?s4" using f3 by (simp add: framed_def)
  from header_written [OF this, of 11 7 "hdr_tag hdr"] obtain s' where
    s': "writef ''dbw'' [VD 11, VB 7, VW (hdr_tag hdr)] ?s4 = Inr ((), s')" "framed hdr s'" "same_but_reply ?s4 s'"
      "starts s' 11 7 (hdr_tag hdr)" "drop 7 (gather (mem s') (in_iov (pdu s'))) = drop 7 (gather m1 (in_iov (pdu s)))"
    by auto
  have "take 4 (drop 7 (gather m1 (in_iov (pdu s)))) = wires [VD e']" unfolding w(3) blit_def using room lg l4 by simp
  moreover have "virtio_p9_error_reply e s = Inr ((), s')"
    unfolding virtio_p9_error_reply_def Let_def e'_def [symmetric] using r s'(1) w(1)
    by (simp add: bnd_def lift_def gets_def seek_simps arg_defs)
  ultimately show ?thesis using s' unfolding e'_def by (auto simp: same_but_reply_def)
qed

text \<open>Every end of a handler leaves a reply whose header is right.\<close>

definition replied :: "iovec \<times> u8 list \<Rightarrow> p9_state \<Rightarrow> bool" where
  "replied hdr s \<longleftrightarrow> framed hdr s \<and> (starts s (outlen s) (hdr_cmd hdr + 1) (hdr_tag hdr) \<or>
     starts s (outlen s) P9_RLERROR (hdr_tag hdr) \<and> outlen s = 11)"

lemma valid_reply_with: "valid (framed hdr) (reply_with l) (\<lambda>_. replied hdr)"
  unfolding valid_def
proof (intro allI impI)
  fix s assume "framed hdr s"
  then have "framed hdr (s\<lparr>outlen := l\<rparr>)" by simp
  from set_reply_header_ok [OF this, of l] show "rall (\<lambda>(x, s'). replied hdr s') (reply_with l s)"
    by (auto simp: reply_with_def bnd_def seek_simps replied_def same_but_reply_def)
qed

lemma valid_error: "valid (framed hdr) (virtio_p9_error_reply e) (\<lambda>_. replied hdr)"
  unfolding valid_def using error_reply_ok [of hdr _ e] by (fastforce simp: replied_def)

lemma valid_ends: "valid (framed hdr) reply (\<lambda>_. replied hdr)" "valid (framed hdr) err_out (\<lambda>_. replied hdr)"
  unfolding reply_def err_out_def
  by (rule valid_bnd [OF valid_gets [where Q = "\<lambda>_. framed hdr"]], simp, rule valid_reply_with valid_error)+

lemma valid_ending:
  "keeps (framed hdr) (\<lambda>_. True) body \<Longrightarrow> valid (framed hdr) fin (\<lambda>_. replied hdr) \<Longrightarrow> valid (framed hdr) (ending fin body) (\<lambda>_. replied hdr)"
  unfolding ending_def keeps_def by (rule valid_bnd [where R = "\<lambda>_. framed hdr"]) (auto elim: valid_post intro: valid_ends)

named_theorems frames "steps that keep the frame of a request"

lemma framed_cong: "mem s' = mem s \<Longrightarrow> in_iov (pdu s') = in_iov (pdu s) \<Longrightarrow> out_iov (pdu s') = out_iov (pdu s) \<Longrightarrow> framed hdr s' = framed hdr s"
  by (simp add: framed_def)

lemma keeps_framedI:
  "(\<And>s x s'. m s = Inr (x, s') \<Longrightarrow> mem s' = mem s \<and> in_iov (pdu s') = in_iov (pdu s) \<and> out_iov (pdu s') = out_iov (pdu s)) \<Longrightarrow>
   keeps (framed hdr) (\<lambda>_. True) m"
  unfolding keeps_def valid_def rall_iff using framed_cong by fast

lemma frame_tab [frames]: "keeps (framed hdr) (\<lambda>_. True) (on_tab f)" "keeps (framed hdr) (\<lambda>_. True) (the_fid k)"
  unfolding the_fid_def by (auto intro!: keeps_framedI simp: on_tab_def rbind_eq_Inr_iff)

lemma frame_pure [frames]:
  "keeps (framed hdr) (\<lambda>_. True) (gets g)" "keeps (framed hdr) (\<lambda>_. True) (ret x)" "keeps (framed hdr) (\<lambda>_. True) (lift r)"
  "keeps (framed hdr) (\<lambda>_. True) (host h c)" "keeps (framed hdr) (\<lambda>_. True) (host_list h' c)"
  "keeps (framed hdr) (\<lambda>_. True) (set_errno e)" "keeps (framed hdr) (\<lambda>_. True) (set_outlen l)"
  "keeps (framed hdr) (\<lambda>_. True) (seek_read n)" "keeps (framed hdr) (\<lambda>_. True) (seek_write n)" "keeps (framed hdr) (\<lambda>_. True) (put_fid a f)"
  by (auto intro!: keeps_framedI simp: gets_def ret_def lift_def host_def host_list_def set_errno_def set_outlen_def seek_read_def seek_write_def
      put_fid_def modify_def rbind_eq_Inr_iff Let_def split: sum.splits)

lemma frame_readf [frames]: "keeps (framed hdr) (\<lambda>_. True) (readf fmt)"
  by (rule keeps_framedI)
    (auto simp: readf_def virtio_p9_pdu_readf_def rbind_eq_Inr_iff same_buffers_def dest!: decode_types)

lemma frame_writef: "list_all encodable vs \<Longrightarrow> fmt = map kind_of vs \<Longrightarrow> keeps (framed hdr) (\<lambda>_. True) (writef fmt vs)"
  unfolding keeps_def valid_def using framed_writef [of hdr _ vs fmt] by fastforce

lemma frame_bnd [frames]:
  "keeps (framed hdr) (\<lambda>_. True) m \<Longrightarrow> (\<And>x. keeps (framed hdr) (\<lambda>_. True) (f x)) \<Longrightarrow> keeps (framed hdr) (\<lambda>_. True) (bnd m f)"
  by (rule keeps_bnd)

lemma frame_or_err [frames]:
  "keeps (framed hdr) (\<lambda>_. True) m \<Longrightarrow> (\<And>x. keeps (framed hdr) (\<lambda>_. True) (f x)) \<Longrightarrow> keeps (framed hdr) (\<lambda>_. True) (or_err m f)"
  by (rule keeps_or_err)

lemma frame_helpers [frames]:
  "keeps (framed hdr) (\<lambda>_. True) (fid_obj a)" "keeps (framed hdr) (\<lambda>_. True) (path_of a)" "keeps (framed hdr) (\<lambda>_. True) (join a q)"
  "keeps (framed hdr) (\<lambda>_. True) (full_path e)" "keeps (framed hdr) (\<lambda>_. True) (get_full_path a q)"
  "keeps (framed hdr) (\<lambda>_. True) (stat_rel H q)" "keeps (framed hdr) (\<lambda>_. True) (is_dir H a)" "keeps (framed hdr) (\<lambda>_. True) (is_reg H a)"
  "keeps (framed hdr) (\<lambda>_. True) (close_call H c x)" "keeps (framed hdr) (\<lambda>_. True) (fid_close H k)" "keeps (framed hdr) (\<lambda>_. True) (skip_count n)"
  "keeps (framed hdr) (\<lambda>_. True) (create_path a q)" "keeps (framed hdr) (\<lambda>_. True) (host_pwritev H d iov off)"
  unfolding fid_obj_def path_of_def join_def full_path_def get_full_path_def stat_rel_def is_dir_def is_reg_def fid_mode_def close_call_def
    fid_close_def skip_count_def create_path_def host_pwritev_def Let_def
  by (rule frames keeps_if keeps_option keeps_prod | simp split: sum.splits add: frames)+

lemma valid_keeps: "keeps (framed hdr) (\<lambda>_. True) m \<Longrightarrow> (\<And>x. valid (framed hdr) (f x) Q) \<Longrightarrow> valid (framed hdr) (bnd m f) Q"
  unfolding keeps_def by (rule valid_bnd [where R = "\<lambda>_. framed hdr"]) (auto elim: valid_post)

lemma valid_if: "(c \<Longrightarrow> valid P m Q) \<Longrightarrow> (\<not> c \<Longrightarrow> valid P n Q) \<Longrightarrow> valid P (if c then m else n) Q"
  by simp

lemmas reply_rules = valid_keeps valid_ending valid_ends valid_error valid_reply_with valid_if

text \<open>The arrays of the data transfers: buffers that were cut at their end.\<close>

definition shrunk :: "iovec \<Rightarrow> iovec \<Rightarrow> bool" where
  "shrunk a v \<longleftrightarrow> iov_base a = iov_base v \<and> iov_len a \<le> iov_len v"

lemma shrunk_refl [simp]: "shrunk v v" "list_all2 shrunk vs vs"
  by (simp_all add: shrunk_def list_all2_refl)

lemma shrunk_cut: "k \<le> iov_len v \<Longrightarrow> shrunk (v\<lparr>iov_len := k\<rparr>) v"
  by (simp add: shrunk_def)

lemma shrunk_apart: "shrunk a v \<Longrightarrow> apart v w \<Longrightarrow> apart a w"
  by (auto simp: shrunk_def apart_def)

lemma shrunk_set: "list_all2 shrunk xs ys \<Longrightarrow> x \<in> set xs \<Longrightarrow> \<exists>y \<in> set ys. shrunk x y"
  by (induction rule: list_all2_induct) auto

lemma wrap_sub: "d \<le> a \<Longrightarrow> a < 2 ^ 64 \<Longrightarrow> (a + 2 ^ 64 - d) mod 2 ^ 64 = (a - d :: nat)"
  using mod_add_self2 [of "a - d" "2 ^ 64"] by simp

lemma shrunk_ok: "list_all2 shrunk xs ys \<Longrightarrow> iov_ok n ys \<Longrightarrow> iov_ok n xs"
proof (induction rule: list_all2_induct)
  case (Cons x xs y ys)
  have "apart x w" if w: "w \<in> set xs" for w
  proof -
    obtain u where "u \<in> set ys" "shrunk w u" using shrunk_set [OF Cons.hyps(2) w] by blast
    then show ?thesis using Cons.prems Cons.hyps(1) by (auto simp: shrunk_def apart_def)
  qed
  then show ?case using Cons by (auto simp: inside_def shrunk_def)
qed simp

lemma update_iov_shrunk:
  "virtio_p9_update_iov_cnt vs tot cnt = (n, arr) \<Longrightarrow> tot < 2 ^ 32 \<Longrightarrow> \<forall>v \<in> set vs. iov_len v < 2 ^ 32 \<Longrightarrow> list_all2 shrunk arr vs"
proof (induction vs arbitrary: tot n arr)
  case (Cons v vs)
  have sum: "(tot + iov_len v) mod 2 ^ 64 = tot + iov_len v" using Cons.prems(2,3) by simp
  show ?case
  proof (cases "tot < cnt")
    case True
    show ?thesis
    proof (cases "cnt < tot + iov_len v")
      case cut: True
      then have "(iov_len v + 2 ^ 64 - (tot + iov_len v - cnt)) mod 2 ^ 64 = iov_len v - (tot + iov_len v - cnt)"
        using True Cons.prems(3) by (intro wrap_sub) auto
      then show ?thesis using Cons.prems(1) True cut sum by (auto simp: Let_def shrunk_cut)
    next
      case False
      obtain n' arr' where r: "virtio_p9_update_iov_cnt vs ((tot + iov_len v) mod 2 ^ 32) cnt = (n', arr')" by fastforce
      then have "list_all2 shrunk arr' vs" using Cons.prems(3) by (intro Cons.IH) auto
      then show ?thesis using Cons.prems(1) True False sum r by (auto simp: Let_def)
    qed
  qed (use Cons.prems in auto)
qed simp

lemma update_iov_tail:
  assumes "virtio_p9_update_iov_cnt (v # vs) 0 cnt = (n, arr)" and "\<forall>v \<in> set vs. iov_len v < 2 ^ 32"
  shows "list_all2 shrunk (tl arr) vs"
proof -
  obtain n' arr' where r: "virtio_p9_update_iov_cnt vs (iov_len v mod 2 ^ 64 mod 2 ^ 32) cnt = (n', arr')" by fastforce
  have "list_all2 shrunk arr' vs" using update_iov_shrunk [OF r] assms(2) by simp
  then show ?thesis using assms(1) r by (auto simp: Let_def split: if_splits)
qed

lemma data_iov_tail:
  assumes "iov_ok n (v # vs)" and "data_iov hdr cnt (v # vs) = (iov, left)"
  shows "\<exists>vs'. left = v # vs' \<and> list_all2 shrunk vs' vs"
proof -
  define v' where "v' = \<lparr>iov_base = iov_base v + hdr, iov_len = (iov_len v + 2 ^ 64 - hdr) mod 2 ^ 64\<rparr>"
  obtain k arr where a: "virtio_p9_update_iov_cnt (v' # vs) 0 cnt = (k, arr)" by fastforce
  have "left = v # tl arr" using assms(2) unfolding data_iov_def list.case Let_def v'_def [symmetric] a by simp
  moreover have "\<forall>u \<in> set vs. iov_len u < 2 ^ 32" using assms(1) by (auto simp: inside_def iov_ok_def)
  ultimately show ?thesis using update_iov_tail [OF a] by simp
qed

lemma data_iov_parts:
  assumes "iov_ok n (v # vs)" and "hdr \<le> iov_len v" and "data_iov hdr cnt (v # vs) = (iov, left)"
  shows "iov_ok n iov \<and> (\<forall>w. (\<forall>u \<in> set (v # vs). apart u w) \<longrightarrow> (\<forall>u \<in> set iov. apart u w))"
proof -
  let ?v = "iov_advance hdr v"
  have v: "inside n v" and l: "\<forall>u \<in> set (v # vs). iov_len u < 2 ^ 32" using assms(1) by (auto simp: inside_def iov_ok_def)
  obtain k arr where a: "virtio_p9_update_iov_cnt (?v # vs) 0 cnt = (k, arr)" by fastforce
  have len: "(iov_len v + 2 ^ 64 - hdr) mod 2 ^ 64 = iov_len v - hdr" using assms(2) l by (intro wrap_sub) auto
  have "?v = \<lparr>iov_base = iov_base v + hdr, iov_len = (iov_len v + 2 ^ 64 - hdr) mod 2 ^ 64\<rparr>" unfolding len iov_advance_def by simp
  then have iov: "iov = take k arr"
    using assms(3) unfolding data_iov_def list.case Let_def by (metis (no_types, lifting) a old.prod.case prod.inject)
  have sh: "list_all2 shrunk arr (?v # vs)" using update_iov_shrunk [OF a] l by (auto simp: iov_advance_def)
  have adv: "iov_ok n (?v # vs)" using assms(1) advance_ok [OF v assms(2)] by auto
  have "iov_ok n arr" using shrunk_ok [OF sh adv] .
  then have "iov_ok n iov" unfolding iov by (metis append_take_drop_id iov_ok_append)
  moreover have "apart u w" if ap: "\<forall>u \<in> set (v # vs). apart u w" and u: "u \<in> set iov" for u w
  proof -
    obtain y where y: "y \<in> set (?v # vs)" "shrunk u y" using shrunk_set [OF sh] u iov by (meson in_set_takeD)
    then have "apart y w" using ap advance_ok(2) [OF v assms(2), of w] by auto
    then show ?thesis using shrunk_apart y(2) by blast
  qed
  ultimately show ?thesis by blast
qed

lemma framed_in_left:
  assumes "framed hdr s" and "data_iov 11 cnt (in_iov (pdu s)) = (iov, left)"
  shows "framed hdr (s\<lparr>pdu := (pdu s)\<lparr>in_iov := left\<rparr>\<rparr>) \<and> iov_ok (length (mem s)) iov \<and>
    (\<forall>u \<in> set iov. \<forall>w \<in> set (out_iov (pdu s)). apart u w)"
proof -
  obtain v vs where v: "in_iov (pdu s) = v # vs" "11 \<le> iov_len v" "v = fst hdr" using assms(1) by (auto simp: framed_def)
  have ok: "iov_ok (length (mem s)) (v # vs)" using framed_in [OF assms(1)] v(1) by simp
  have out: "\<forall>u \<in> set (v # vs). apart u w" if "w \<in> set (out_iov (pdu s))" for w
    using assms(1) v(1) that by (auto simp: framed_def iov_ok_append)
  obtain vs' where vs': "left = v # vs'" "list_all2 shrunk vs' vs" using data_iov_tail [OF ok, of 11 cnt iov left] assms(2) v(1) by auto
  have sh: "list_all2 shrunk left (v # vs)" using vs' by simp
  have "iov_ok (length (mem s)) (left @ out_iov (pdu s))"
    unfolding iov_ok_append
  proof (intro conjI ballI)
    fix u w assume u: "u \<in> set left" and w: "w \<in> set (out_iov (pdu s))"
    obtain z where "z \<in> set (v # vs)" "shrunk u z" using shrunk_set [OF sh u] by blast
    then show "apart u w" using out [OF w] shrunk_apart by blast
  qed (use shrunk_ok [OF sh ok] framed_out [OF assms(1)] in auto)
  moreover obtain w ws where "out_iov (pdu s) = w # ws" "7 \<le> iov_len w" "take 7 (buf (mem s) w) = snd hdr"
    using assms(1) by (auto simp: framed_def)
  ultimately have "framed hdr (s\<lparr>pdu := (pdu s)\<lparr>in_iov := left\<rparr>\<rparr>)"
    unfolding framed_def using vs'(1) v(2,3) by simp
  moreover have "iov_ok (length (mem s)) iov \<and> (\<forall>w. (\<forall>u \<in> set (v # vs). apart u w) \<longrightarrow> (\<forall>u \<in> set iov. apart u w))"
    using data_iov_parts [OF ok v(2) assms(2) [unfolded v(1)]] .
  ultimately show ?thesis using out by blast
qed

lemma framed_out_left:
  assumes "framed hdr s" and "data_iov 23 cnt (out_iov (pdu s)) = (iov, left)"
  shows "framed hdr (s\<lparr>pdu := (pdu s)\<lparr>out_iov := left\<rparr>\<rparr>)"
proof -
  obtain w ws where w: "out_iov (pdu s) = w # ws" "7 \<le> iov_len w" "take 7 (buf (mem s) w) = snd hdr" using assms(1) by (auto simp: framed_def)
  have ok: "iov_ok (length (mem s)) (w # ws)" using framed_out [OF assms(1)] w(1) by simp
  obtain ws' where ws': "left = w # ws'" "list_all2 shrunk ws' ws" using data_iov_tail [OF ok, of 23 cnt iov left] assms(2) w(1) by auto
  have sh: "list_all2 shrunk left (w # ws)" using ws' by simp
  have "apart u y" if u: "u \<in> set (in_iov (pdu s))" and y: "y \<in> set left" for u y
  proof -
    obtain z where z: "z \<in> set (w # ws)" "shrunk y z" using shrunk_set [OF sh y] by blast
    then have "apart z u" using assms(1) w(1) u by (auto simp: framed_def iov_ok_append apart_commute)
    then show ?thesis using shrunk_apart [OF z(2)] by (simp add: apart_commute)
  qed
  then have "iov_ok (length (mem s)) (in_iov (pdu s) @ left)"
    using shrunk_ok [OF sh ok] framed_in [OF assms(1)] by (simp add: iov_ok_append)
  moreover obtain v vs where "in_iov (pdu s) = v # vs" "11 \<le> iov_len v" "v = fst hdr" using assms(1) by (auto simp: framed_def)
  ultimately show ?thesis unfolding framed_def using ws'(1) w(2,3) by simp
qed

text \<open>The transfers, up to the point where the first buffer is put back.\<close>

lemma frame_preadv:
  "keeps (\<lambda>s. framed hdr s \<and> iov_ok (length (mem s)) iov \<and> (\<forall>u \<in> set iov. \<forall>w \<in> set (out_iov (pdu s)). apart u w) \<and>
      framed hdr (s\<lparr>pdu := (pdu s)\<lparr>in_iov := left\<rparr>\<rparr>)) (\<lambda>_. True) (host_preadv H d iov off)"
  (is "keeps ?I _ _")
  unfolding keeps_def valid_def
proof (intro allI impI)
  fix s assume I: "?I s"
  show "rall (\<lambda>(x, s'). ?I s' \<and> True) (host_preadv H d iov off s)"
  proof (cases "h_bytes H (calls s) (Preadv d iov off)")
    case (Inl e)
    then show ?thesis using I by (simp add: host_preadv_def bnd_def host_def Let_def ret_def framed_def)
  next
    case (Inr data)
    let ?s = "s\<lparr>calls := Preadv d iov off # calls s\<rparr>"
    obtain k m' where w: "iov_write iov 0 data (mem s) = Inr (k, m')" "length m' = length (mem s)"
      using iov_write_total [of "mem s" iov 0 data] I by auto
    have "framed hdr (?s\<lparr>mem := m'\<rparr>)" using framed_write [of hdr ?s iov 0 data k m'] I w(1) by simp
    moreover have "framed hdr (s\<lparr>pdu := (pdu s)\<lparr>in_iov := left\<rparr>, mem := m'\<rparr>)"
      using framed_write [of hdr "s\<lparr>pdu := (pdu s)\<lparr>in_iov := left\<rparr>\<rparr>" iov 0 data k m'] I w(1) by simp
    then have "framed hdr (?s\<lparr>mem := m', pdu := (pdu s)\<lparr>in_iov := left\<rparr>\<rparr>)" by (subst (asm) framed_cong) simp_all
    moreover have "host_preadv H d iov off s = Inr (Some k, ?s\<lparr>mem := m'\<rparr>)"
      using Inr w(1) by (simp add: host_preadv_def bnd_def host_def Let_def)
    ultimately show ?thesis using I w(2) by simp
  qed
qed

text \<open>All handlers end with a reply to the request.\<close>

lemma replied_names:
  "valid (framed hdr) virtio_p9_version (\<lambda>_. replied hdr)" "valid (framed hdr) (virtio_p9_clunk H) (\<lambda>_. replied hdr)"
  "valid (framed hdr) (virtio_p9_open H) (\<lambda>_. replied hdr)" "valid (framed hdr) (virtio_p9_create H) (\<lambda>_. replied hdr)"
  "valid (framed hdr) (virtio_p9_mkdir H) (\<lambda>_. replied hdr)" "valid (framed hdr) (virtio_p9_mknod H) (\<lambda>_. replied hdr)"
  "valid (framed hdr) (virtio_p9_symlink H) (\<lambda>_. replied hdr)" "valid (framed hdr) (virtio_p9_link H) (\<lambda>_. replied hdr)"
  "valid (framed hdr) (virtio_p9_remove H) (\<lambda>_. replied hdr)" "valid (framed hdr) (virtio_p9_unlinkat H) (\<lambda>_. replied hdr)"
  "valid (framed hdr) (virtio_p9_rename H) (\<lambda>_. replied hdr)" "valid (framed hdr) (virtio_p9_renameat H) (\<lambda>_. replied hdr)"
  unfolding virtio_p9_version_def virtio_p9_clunk_def virtio_p9_open_def virtio_p9_create_def virtio_p9_mkdir_def virtio_p9_mknod_def
    virtio_p9_symlink_def virtio_p9_link_def virtio_p9_remove_def virtio_p9_unlinkat_def virtio_p9_rename_def virtio_p9_renameat_def
  by (rule reply_rules frames frame_writef keeps_if keeps_option | simp)+

lemma frame_when [frames]:
  "keeps (framed hdr) (\<lambda>_. True) m \<Longrightarrow> keeps (framed hdr) (\<lambda>_. True) k \<Longrightarrow> keeps (framed hdr) (\<lambda>_. True) (when_call c m k)"
  unfolding when_call_def by (auto intro: frame_or_err)

lemma replied_attributes:
  "valid (framed hdr) (virtio_p9_getattr H) (\<lambda>_. replied hdr)" "valid (framed hdr) (virtio_p9_setattr H) (\<lambda>_. replied hdr)"
  "valid (framed hdr) (virtio_p9_readlink H) (\<lambda>_. replied hdr)" "valid (framed hdr) (virtio_p9_statfs H) (\<lambda>_. replied hdr)"
  "valid (framed hdr) (virtio_p9_fsync H) (\<lambda>_. replied hdr)" "valid (framed hdr) virtio_p9_lock (\<lambda>_. replied hdr)"
  "valid (framed hdr) virtio_p9_getlock (\<lambda>_. replied hdr)" "valid (framed hdr) virtio_p9_flush (\<lambda>_. replied hdr)"
  "valid (framed hdr) virtio_p9_eopnotsupp (\<lambda>_. replied hdr)" "valid (framed hdr) (virtio_p9_attach H) (\<lambda>_. replied hdr)"
  unfolding virtio_p9_getattr_def virtio_p9_setattr_def virtio_p9_readlink_def virtio_p9_statfs_def virtio_p9_fsync_def
    virtio_p9_lock_def virtio_p9_getlock_def virtio_p9_flush_def virtio_p9_eopnotsupp_def virtio_p9_attach_def Let_def
  by (rule reply_rules frames frame_writef keeps_if keeps_option | simp)+

lemma frame_walk_one: "keeps (framed hdr) (\<lambda>_. True) (walk_one H n a)"
  unfolding walk_one_def Let_def by (rule frames frame_writef keeps_if | simp)+

lemma frame_walk [frames]: "keeps (framed hdr) (\<lambda>_. True) (walk_loop H n a k)" "keeps (framed hdr) (\<lambda>_. True) (walk_forever H n a k)"
  by (induction k) (auto intro!: frames frame_bnd [OF frame_walk_one])

lemma valid_set_header:
  "valid (\<lambda>s. framed hdr s \<and> outlen s = l) (virtio_p9_set_reply_header l) (\<lambda>_. replied hdr)"
  unfolding valid_def
proof (intro allI impI, elim conjE)
  fix s assume "framed hdr s" "outlen s = l"
  with set_reply_header_ok [of hdr s l] show "rall (\<lambda>(x, s'). replied hdr s') (virtio_p9_set_reply_header l s)"
    by (auto simp: replied_def same_but_reply_def)
qed

lemma valid_walk_reply: "valid (framed hdr) (walk_reply n) (\<lambda>_. replied hdr)"
proof -
  have w: "valid (\<lambda>s. framed hdr s \<and> outlen s = l) (writef ''d'' [VD x]) (\<lambda>_ s. framed hdr s \<and> outlen s = l)" for l x
    unfolding valid_def using framed_writef [of hdr _ "[VD x]" "''d''"] by fastforce
  have o': "valid (framed hdr) (set_outlen l) (\<lambda>_ s. framed hdr s \<and> outlen s = l)"
    and sk: "valid (\<lambda>s. framed hdr s \<and> outlen s = l) (seek_write 7) (\<lambda>_ s. framed hdr s \<and> outlen s = l)" for l
    unfolding set_outlen_def seek_write_def by (auto intro!: valid_modify simp: framed_pdu)
  show ?thesis unfolding walk_reply_def
    by (rule valid_keeps [OF frame_pure(1)], rule valid_bnd [OF o'], rule valid_bnd [OF sk], rule valid_bnd [OF w], rule valid_set_header)
qed

lemma replied_walk: "valid (framed hdr) (virtio_p9_walk H) (\<lambda>_. replied hdr)"
  unfolding virtio_p9_walk_def by (rule reply_rules valid_walk_reply frames keeps_if | simp)+

lemma frame_readdir_loop [frames]: "keeps (framed hdr) (\<lambda>_. True) (readdir_loop H d count old rcount es)"
proof (induction es arbitrary: old rcount)
  case Nil
  show ?case unfolding readdir_loop.simps by (rule frames)
next
  case (Cons e es)
  show ?case unfolding readdir_loop.simps Let_def by (rule Cons.IH frames frame_writef keeps_if | simp)+
qed

lemma valid_lift_err: "valid P (lift (Inl e)) Q"
  by (rule valid_lift) simp

lemma valid_option:
  "(x = None \<Longrightarrow> valid P m Q) \<Longrightarrow> (\<And>y. x = Some y \<Longrightarrow> valid P (f y) Q) \<Longrightarrow> valid P (case x of None \<Rightarrow> m | Some y \<Rightarrow> f y) Q"
  by (cases x) simp_all

lemma replied_readdir: "valid (framed hdr) (virtio_p9_readdir H) (\<lambda>_. replied hdr)"
  unfolding virtio_p9_readdir_def
  by (rule valid_lift_err valid_option reply_rules frames frame_writef | simp)+

lemma replied_read: "valid (framed hdr) (virtio_p9_read H) (\<lambda>_. replied hdr)"
proof -
  let ?I = "\<lambda>iov left s. framed hdr s \<and> iov_ok (length (mem s)) iov \<and> (\<forall>u \<in> set iov. \<forall>w \<in> set (out_iov (pdu s)). apart u w) \<and>
      framed hdr (s\<lparr>pdu := (pdu s)\<lparr>in_iov := left\<rparr>\<rparr>)"
  have iov: "valid (framed hdr) (gets (\<lambda>s. data_iov 11 n (in_iov (pdu s)))) (\<lambda>x. ?I (fst x) (snd x))" for n
    by (rule valid_gets) (use framed_in_left in \<open>fastforce simp: prod_eq_iff\<close>)
  have pre: "valid (?I iov left) (host_preadv H d iov off) (\<lambda>_. ?I iov left)" for iov left d off
    by (rule valid_post [OF frame_preadv [unfolded keeps_def]]) simp
  have put: "valid (?I iov left) (modify (\<lambda>s. s\<lparr>pdu := (pdu s)\<lparr>in_iov := left\<rparr>\<rparr>)) (\<lambda>_. framed hdr)" for iov left
    by (rule valid_modify) simp
  show ?thesis unfolding virtio_p9_read_def Let_def split_beta
    by (rule valid_bnd [OF iov] valid_bnd [OF pre] valid_bnd [OF put] reply_rules frames frame_writef | simp)+
qed

lemma pwritev_same: "host_pwritev H d iov off s = Inr (x, s') \<Longrightarrow> mem s' = mem s \<and> pdu s' = pdu s"
  by (cases "iov_read iov 0 (iov_total iov) (mem s)")
    (auto simp: host_pwritev_def bnd_def gets_def lift_def host_def Let_def split: sum.splits)

lemma replied_write: "valid (framed hdr) (virtio_p9_write H) (\<lambda>_. replied hdr)"
proof -
  let ?I = "\<lambda>left s. framed hdr s \<and> framed hdr (s\<lparr>pdu := (pdu s)\<lparr>out_iov := left\<rparr>\<rparr>)"
  have iov: "valid (framed hdr) (gets (\<lambda>s. data_iov 23 n (out_iov (pdu s)))) (\<lambda>x. ?I (snd x))" for n
    by (rule valid_gets) (use framed_out_left in \<open>fastforce simp: prod_eq_iff\<close>)
  have same: "?I left s' = ?I left s" if "mem s' = mem s" "in_iov (pdu s') = in_iov (pdu s)" "out_iov (pdu s') = out_iov (pdu s)" for left s s'
    using that by (simp add: framed_def)
  have pre: "valid (?I left) (host_pwritev H d iov off) (\<lambda>_. ?I left)" for iov left d off
  proof -
    have "?I left s'" if "?I left s" "host_pwritev H d iov off s = Inr (x, s')" for s x s'
      using same [of s' s left] pwritev_same [OF that(2)] that(1) by simp
    then show ?thesis unfolding valid_def rall_iff by fast
  qed
  have put: "valid (?I left) (modify (\<lambda>s. s\<lparr>pdu := (pdu s)\<lparr>out_iov := left\<rparr>\<rparr>)) (\<lambda>_. framed hdr)" for left
    by (rule valid_modify) simp
  show ?thesis unfolding virtio_p9_write_def split_beta
    by (rule valid_bnd [OF iov] valid_bnd [OF pre] valid_bnd [OF put] reply_rules frames frame_writef keeps_option | simp)+
qed

lemma replied_handler: "valid (framed hdr) (handler_of H cmd) (\<lambda>_. replied hdr)"
  unfolding handler_of_def virtio_9p_dotl_handler_def
  by (simp add: replied_names replied_attributes replied_walk replied_readdir replied_read replied_write)

section \<open>Properties\<close>


text \<open>A host that agrees to everything, and requests in a memory of their own: the message, then room for the reply.\<close>

definition sample_host :: p9_host where
  "sample_host = \<lparr>h_int = (\<lambda>_ _. Inr 0), h_stat = (\<lambda>_ _. Inr stat_ones), h_statfs = (\<lambda>_ _. Inl 38), h_bytes = (\<lambda>_ _. Inr []),
     h_dirents = (\<lambda>_ _. [])\<rparr>"

definition message :: "u8 \<Rightarrow> p9_val list \<Rightarrow> p9_pdu \<times> memory" where
  "message cmd vs =
     (let body = [0, 0, 0, 0, cmd, 9, 0] @ wires vs; n = length body
      in (\<lparr>queue_head = 0, read_offset = 7, write_offset = 7, in_iov = [\<lparr>iov_base = n, iov_len = 24\<rparr>],
           out_iov = [\<lparr>iov_base = 0, iov_len = n\<rparr>]\<rparr>, body @ replicate 24 0))"

definition calls_after :: "(p9_pdu \<times> memory) list \<Rightarrow> p9_call list result" where
  "calls_after rs = rbind (rfold (p9_request sample_host) rs (fresh_state [47, 115])) (\<lambda>s. Inr (calls s))"

lemma sample_calls: "calls_after [message 122 [VD 1], message 122 [VD 2]] = Inr [Remove [47, 115], Remove [47, 115]]"
  by code_simp


text \<open>
  C36. \<^verbatim>\<open>Trenameat\<close> lets the guest leave the root directory. The paths of the fids below the renamed name get the
  new name as it came, without the directory it is relative to: when the old name is sent as \<open>/a\<close> and the new one as a name \<open>n\<close> without
  a slash in front, a fid with the path \<open>/a\<close> stands for the root directory followed by \<open>n\<close> afterwards, which is
  a neighbour of the root directory. The renaming itself is legal for every check of the code.
\<close>

theorem p9_renameat_escapes:
  assumes "framed hdr s" and "unread (mem s) (pdu s) = wires [VD k, VS (Some old), VD k, VS (Some new)] @ rest"
    and "str_ok (Some old)" and "str_ok (Some new)"
    and "table_ok (tab s)" and "handles (tab s) k = Some d" and "fid_at d (tab s) = Inr df" and "path df = [slash]"
    and "handles (tab s) j = Some a" and "fid_at a (tab s) = Inr f" and "path f = old"
    and "new \<noteq> []" and "hd new \<noteq> slash" and "dotdot \<notin> set (comps old)" and "dotdot \<notin> set (comps new)"
    and "\<not> path_is_illegal (root_dir (tab s))"
    and "length (root_dir (tab s)) + length old + 2 < PATH_MAX" and "length (root_dir (tab s)) + length new + 2 < PATH_MAX"
    and "\<And>cs p q. h_int H cs (Rename p q) = Inr 0"
  shows "\<exists>s' g. virtio_p9_renameat H s = Inr ((), s') \<and> fid_at a (tab s') = Inr g \<and>
      abs_path (tab s') g = root_dir (tab s) @ new \<and> \<not> below (root_dir (tab s)) (root_dir (tab s) @ new)"
proof -
  let ?vs = "[VD k, VS (Some old), VD k, VS (Some new)]" and ?root = "root_dir (tab s)"
  let ?p = "?root @ slash # slash # old" and ?q = "?root @ slash # slash # new"
  let ?s1 = "s\<lparr>pdu := skip (length (wires ?vs)) (pdu s)\<rparr>"
  have r: "readf ''dsds'' s = Inr (?vs, ?s1)" using framed_readf [OF assms(1) _ assms(2)] assms(3,4) by simp
  have g: "get_fid k (tab s) = Inr (d, tab s)" using find_known [OF assms(5,6)] .
  have legal: "get_full_path_helper PATH_MAX (?root @ [slash]) n = Inr (?root @ slash # slash # n)"
    if "dotdot \<notin> set (comps n)" "length ?root + length n + 2 < PATH_MAX" for n
    using that assms(16) illegal_append [of "?root @ [slash]" n] illegal_append [of ?root "[]"]
    by (simp add: get_full_path_helper_def Let_def)
  obtain t where t: "rename_fids old new (tab s) = Inr t" "same_table (tab s) t" "renamed old new (tab s) t a"
    using rename_fids_ok [OF assms(5), of old new] assms(9) by blast
  have "fid f < 0x80000000"
    using assms(5,9,10) by (auto simp: handles_iff table_ok_def linked_def fid_at_iff)
  then have fa: "fid_at a t = Inr (f\<lparr>path := new\<rparr>)"
    using t(3) assms(10,11,18) by (auto simp: renamed_def path_size_def)
  let ?s2 = "?s1\<lparr>calls := Rename ?p ?q # calls s, tab := t\<rparr>"
  have "framed hdr ?s2" using assms(1) by (simp add: framed_def)
  then have "framed hdr (?s2\<lparr>outlen := of_nat (write_offset (pdu ?s2))\<rparr>)" by simp
  from set_reply_header_ok [OF this] obtain s' where
    s': "virtio_p9_set_reply_header (of_nat (write_offset (pdu ?s2))) (?s2\<lparr>outlen := of_nat (write_offset (pdu ?s2))\<rparr>) = Inr ((), s')" "tab s' = t"
    by (auto simp: same_but_reply_def)
  have "virtio_p9_renameat H s = Inr ((), s')"
    unfolding virtio_p9_renameat_def ending_def or_err_def get_full_path_def path_of_def fid_obj_def the_fid_def on_tab_def
      full_path_def host_def reply_def reply_with_def
    using r g legal [OF assms(14,17)] legal [OF assms(15,18)] t(1) s'(1) assms(7,8,19)
    by (simp add: bnd_def lift_def gets_def ret_def arg_defs abs_path_def seek_simps)
  moreover have "\<not> below ?root (?root @ new)" using assms(12,13) by (auto simp: below_def)
  ultimately show ?thesis using s'(2) fa t(2) by (auto simp: abs_path_def same_table_def)
qed

definition sample_tab :: p9_table where
  "sample_tab = \<lparr>root_dir = [47, 115], fids = Node Black Leaf (0, 0) (Node Red Leaf (1, 1) Leaf),
     objs = [Some ((new_fid 0)\<lparr>path := [47]\<rparr>), Some ((new_fid 1)\<lparr>path := [47, 97]\<rparr>)]\<rparr>"

definition request_state :: "p9_table \<Rightarrow> p9_pdu \<times> memory \<Rightarrow> p9_state" where
  "request_state t r = (fresh_state [])\<lparr>tab := t, pdu := fst r, mem := snd r\<rparr>"

definition sample_rename :: "p9_pdu \<times> memory" where
  "sample_rename = message 74 [VD 0, VS (Some [47, 97]), VD 0, VS (Some [45, 98])]"

lemma sample_tab_ok: "table_ok sample_tab" "handles sample_tab 0 = Some 0" "handles sample_tab 1 = Some 1"
  by (auto simp: sample_tab_def table_ok_def linked_def handles_def rb_tree_def new_fid_def)

lemma message_framed:
  "framed (\<lparr>iov_base = 7 + length (wires vs), iov_len = 24\<rparr>, [0, 0, 0, 0, cmd, 9, 0]) (request_state t (message cmd vs))"
  if "length (wires vs) < 1000"
  using that by (auto simp: framed_def request_state_def message_def Let_def inside_def apart_def buf_def)

lemma message_unread:
  "unread (mem (request_state t (message cmd vs))) (pdu (request_state t (message cmd vs))) = wires vs @ []"
  by (simp add: unread_def request_state_def message_def Let_def buf_def)

theorem p9_renameat_escapes_witness:
  "\<exists>s' g. virtio_p9_renameat sample_host (request_state sample_tab sample_rename) = Inr ((), s') \<and> fid_at 1 (tab s') = Inr g \<and>
     abs_path (tab s') g = [47, 115, 45, 98] \<and> \<not> below [47, 115] [47, 115, 45, 98]"
proof -
  let ?s = "request_state sample_tab sample_rename"
  let ?vs = "[VD 0, VS (Some [47, 97]), VD 0, VS (Some [45, 98])]"
  have t: "tab ?s = sample_tab" by (simp add: request_state_def)
  have f: "framed (\<lparr>iov_base = 7 + length (wires ?vs), iov_len = 24\<rparr>, [0, 0, 0, 0, 74, 9, 0]) ?s"
    unfolding sample_rename_def by (rule message_framed) (simp add: str_bytes_def)
  have u: "unread (mem ?s) (pdu ?s) = wires ?vs @ []" unfolding sample_rename_def by (rule message_unread)
  have "\<exists>s' g. virtio_p9_renameat sample_host ?s = Inr ((), s') \<and> fid_at 1 (tab s') = Inr g \<and>
      abs_path (tab s') g = root_dir (tab ?s) @ [45, 98] \<and> \<not> below (root_dir (tab ?s)) (root_dir (tab ?s) @ [45, 98])"
    by (rule p9_renameat_escapes [where d = 0 and df = "(new_fid 0)\<lparr>path := [47]\<rparr>" and j = 1 and f = "(new_fid 1)\<lparr>path := [47, 97]\<rparr>",
          OF f u])
      (simp_all add: t sample_tab_ok fid_at_iff path_is_illegal_def sample_host_def, simp_all add: sample_tab_def)
  moreover have "root_dir (tab ?s) = [47, 115]" unfolding t by (simp add: sample_tab_def)
  ultimately show ?thesis by simp
qed

text \<open>
  C35. Every request is answered. Whatever the message is and whatever the host does, when the buffers of a request lie apart from
  each other and the first buffer for the reply has 11 bytes or more, and the request is served, the reply in
  this buffer starts with the length that is also published in the used ring, with the type of the request plus one, or with the type of an
  error reply and the length 11, and with the tag of the request.
\<close>

theorem p9_reply_published:
  assumes "virtio_p9_pdu_init (p9_vq d) = Inr (p, q)"
    and "framed (v, req) \<lparr>tab = p9_tab d, pdu = p, mem = p9_mem d, calls = p9_calls d, errno = p9_errno d, outlen = 0\<rparr>"
    and "virtio_p9_do_io_request H d = Inr d'"
  shows "\<exists>l c. take 7 (buf (p9_mem d') v) = le_bytes 4 l @ c # drop 5 req \<and> (c = req ! 4 + 1 \<or> c = P9_RLERROR \<and> l = 11) \<and>
    virt_queue_set_used_elem (ucast (queue_head p), l) q = Inr (p9_vq d')"
proof -
  let ?s = "\<lparr>tab = p9_tab d, pdu = p, mem = p9_mem d, calls = p9_calls d, errno = p9_errno d, outlen = 0\<rparr>"
  obtain cmd u s where s: "handler_of H cmd ?s = Inr (u, s)" "virt_queue_set_used_elem (ucast (queue_head p), outlen s) q = Inr (p9_vq d')"
    "p9_mem d' = mem s"
    using assms(1,3) by (auto simp: virtio_p9_do_io_request_def p9_serve_def rbind_eq_Inr_iff)
  have r: "replied (v, req) s" using replied_handler [of "(v, req)" H cmd] assms(2) s(1) by (fastforce simp: valid_def)
  then have f: "framed (v, req) s" by (simp add: replied_def)
  then obtain vs where v: "in_iov (pdu s) = v # vs" "11 \<le> iov_len v" by (auto simp: framed_def)
  have "take 7 (gather (mem s) (in_iov (pdu s))) = take 7 (buf (mem s) v)"
    using v length_buf [of "mem s" v] framed_in [OF f] by simp
  moreover have "le_bytes 2 (hdr_tag (v, req)) = drop 5 req"
    using framed_header(1) [OF f] by (simp add: hdr_tag_def le_bytes_of_word)
  ultimately show ?thesis
    using r s(2,3) by (auto simp: replied_def starts_def hdr_cmd_def)
qed

definition sample_p9_dev :: p9_dev where
  "sample_p9_dev =
     \<lparr>p9_vq = \<lparr>num = 2, desc = [\<lparr>desc_addr = 0, desc_len = 11, desc_flags = 1, desc_next = 1\<rparr>,
                              \<lparr>desc_addr = 11, desc_len = 24, desc_flags = 2, desc_next = 0\<rparr>],
        avail = \<lparr>avail_flags = 0, avail_idx = 1, avail_ring = [0, 0], used_event = 0\<rparr>,
        used = \<lparr>used_flags = 0, used_idx = 0, used_ring = [(0, 0), (0, 0)], avail_event = 0\<rparr>,
        last_avail_idx = 0, last_used_signalled = 0, use_event_idx = False\<rparr>,
      p9_tab = sample_tab, p9_mem = snd (message 122 [VD 1]), p9_calls = [], p9_errno = 0, p9_signals = 0\<rparr>"

lemma sample_served: "case virtio_p9_do_io_request sample_host sample_p9_dev of Inl e \<Rightarrow> False | Inr d \<Rightarrow> True"
  by code_simp

lemma sample_init:
  "\<exists>q. virtio_p9_pdu_init (p9_vq sample_p9_dev) = Inr (fst (message 122 [VD 1]), q) \<and> used q = used (p9_vq sample_p9_dev) \<and> num q = 2"
  by (simp add: sample_p9_dev_def virtio_p9_pdu_init_def virt_queue_get_inout_iov_def virt_queue_pop_def inout_loop.simps
      virt_desc_test_flag_def desc_iovec_def message_def)

theorem p9_reply_published_witness:
  "\<exists>d' l c. virtio_p9_do_io_request sample_host sample_p9_dev = Inr d' \<and>
     take 7 (buf (p9_mem d') \<lparr>iov_base = 11, iov_len = 24\<rparr>) = le_bytes 4 (l :: u32) @ c # [9, 0] \<and> (c = 123 \<or> c = 7 \<and> l = 11) \<and>
     used_ring (used (p9_vq d')) ! 0 = (0, l)"
proof -
  obtain d' where d': "virtio_p9_do_io_request sample_host sample_p9_dev = Inr d'"
    using sample_served by (cases "virtio_p9_do_io_request sample_host sample_p9_dev") auto
  obtain q where q: "virtio_p9_pdu_init (p9_vq sample_p9_dev) = Inr (fst (message 122 [VD 1]), q)" "used q = used (p9_vq sample_p9_dev)" "num q = 2"
    using sample_init by blast
  have f: "framed (\<lparr>iov_base = 11, iov_len = 24\<rparr>, [0, 0, 0, 0, 122, 9, 0])
      \<lparr>tab = p9_tab sample_p9_dev, pdu = fst (message 122 [VD 1]), mem = p9_mem sample_p9_dev, calls = p9_calls sample_p9_dev,
       errno = p9_errno sample_p9_dev, outlen = 0\<rparr>"
    using message_framed [of "[VD 1]" 122 sample_tab]
    by (simp add: request_state_def sample_p9_dev_def fresh_state_def)
  from p9_reply_published [OF q(1) f d'] obtain l c where
    r: "take 7 (buf (p9_mem d') \<lparr>iov_base = 11, iov_len = 24\<rparr>) = le_bytes 4 (l :: u32) @ c # [9, 0]" "c = 123 \<or> c = 7 \<and> l = 11" and
    u: "virt_queue_set_used_elem (ucast (queue_head (fst (message 122 [VD 1])) :: u16), l) q = Inr (p9_vq d')"
    by auto
  have "used_ring (used (p9_vq d')) ! 0 = (0, l)"
    using u q(2,3) by (auto simp: virt_queue_set_used_elem_def virt_queue_set_used_elem_no_update_def virt_queue_used_idx_advance_def
        rbind_eq_Inr_iff aset_eq_Inr_iff sample_p9_dev_def message_def Let_def dest!: sym [of _ "p9_vq d'"])
  with d' r show ?thesis by blast
qed

text \<open>
  When the device is stopped with the fids 0 to 3 in use, the traversal misses fid 1: the removal of fid 0 rotates the tree under the
  traversal, and the fid stays in the table with its open file.
\<close>

lemma p9_stop_misses_fid:
  "\<exists>t u s. rfold (handle_use get_fid closed) [(0, True), (1, True), (2, True), (3, True)] (empty_table [47]) = Inr t \<and>
     notify_stop H (request_state t (message 0 [])) = Inr (u, s) \<and> dom (handles (tab s)) = {1}"
  by (simp add: get_fid_def find_or_create_fid_def empty_table_def insert_new_fid_def find_dir_def insert_dir_def
      Let_def new_fid_def handles_def closed_def close_fid_def erase_node_def fid_at_def notify_stop_def request_state_def message_def
      bnd_def gets_def fid_obj_def fid_close_def on_tab_def lift_def ret_def close_call_def rb_first_postorder_def)

end
