(* ===== verification/Vdev.thy ===== *)
theory Vdev
  imports Virtq
begin

text \<open>
  What a virtio transport sees of a device: \<^verbatim>\<open>struct virtio_device\<close> and \<^verbatim>\<open>struct virtio_ops\<close> of \<^verbatim>\<open>include/kvm/virtio.h\<close>, and the functions of
  \<^verbatim>\<open>virtio/core.c\<close> that the transports share. All devices of the program have their queues in an array
  that \<^verbatim>\<open>get_vq\<close> indexes without a check, set a queue up with \<^verbatim>\<open>virtio_init_device_vq\<close> and leave the size of queues fixed; what
  differs are the constants of the record \<open>virtio_ops\<close>. What a device does besides is the log of
  the calls it got.
\<close>

section \<open>Devices\<close>

text \<open>A queue before and after its set-up; \<open>vq_ring\<close> is the number of descriptors and the guest addresses of the three parts.\<close>

record dev_vq =
  vq_addr :: vring_addr
  vq_enabled :: bool
  vq_use_event_idx :: bool
  vq_endian :: u16
  vq_ring :: "(nat \<times> u64 \<times> u64 \<times> u64) option"

definition zero_vq :: dev_vq where
  "zero_vq = \<lparr>vq_addr = \<lparr>legacy = False, pfn = 0, vr_align = 0, pgsize = 0, desc_lo = 0, desc_hi = 0, avail_lo = 0, avail_hi = 0,
     used_lo = 0, used_hi = 0\<rparr>, vq_enabled = False, vq_use_event_idx = False, vq_endian = 0, vq_ring = None\<rparr>"

datatype dev_call =
    Init_vq nat | Exit_vq nat | Notify_vq nat | Set_size_vq nat u32 | Notify_status u32
  | Notify_vq_gsi nat u32 | Notify_vq_eventfd nat int

record virtio_ops =
  get_host_features :: u64
  get_vq_count :: nat
  get_size_vq :: nat
  has_exit_vq :: bool
  has_notify_status :: bool
  has_notify_vq_gsi :: bool
  has_notify_vq_eventfd :: bool

record vdev =
  is_legacy :: bool
  use_vhost :: bool
  endian :: u16
  core :: virtio_device
  vqs :: "dev_vq list"
  config :: "u8 list"
  dev_calls :: "dev_call list"

abbreviation (input) VIRTIO_ENDIAN_LE :: u16 where "VIRTIO_ENDIAN_LE \<equiv> 1"

definition call_dev :: "dev_call \<Rightarrow> vdev \<Rightarrow> vdev" where
  "call_dev c d = d\<lparr>dev_calls := dev_calls d @ [c]\<rparr>"

definition upd_vq :: "nat \<Rightarrow> (dev_vq \<Rightarrow> dev_vq) \<Rightarrow> vdev \<Rightarrow> vdev result" where
  "upd_vq q f d = rbind (aget (vqs d) q) (\<lambda>vq. Inr (d\<lparr>vqs := (vqs d)[q := f vq]\<rparr>))"

text \<open>\<^verbatim>\<open>VIRTIO_RING_F_EVENT_IDX\<close> is bit 29 of the features.\<close>

definition virtio_init_device_vq :: "nat \<Rightarrow> vdev \<Rightarrow> dev_vq \<Rightarrow> dev_vq" where
  "virtio_init_device_vq nr_descs d vq =
     vq\<lparr>vq_endian := endian d, vq_use_event_idx := flag (features (core d)) 0x20000000, vq_enabled := True,
        vq_ring := Some (nr_descs, virtio_vq_addresses nr_descs (vq_addr vq))\<rparr>"

text \<open>\<^verbatim>\<open>ops->init_vq\<close> as all devices have it.\<close>

definition init_vq :: "virtio_ops \<Rightarrow> nat \<Rightarrow> vdev \<Rightarrow> vdev result" where
  "init_vq ops q d = rbind (upd_vq q (virtio_init_device_vq (get_size_vq ops) d) d) (\<lambda>d'. Inr (call_dev (Init_vq q) d'))"

definition virtio_exit_vq :: "virtio_ops \<Rightarrow> nat \<Rightarrow> vdev \<Rightarrow> vdev result" where
  "virtio_exit_vq ops q d =
     rbind (aget (vqs d) q) (\<lambda>vq.
     upd_vq q (\<lambda>_. zero_vq) (if vq_enabled vq \<and> has_exit_vq ops then call_dev (Exit_vq q) d else d))"

text \<open>
  \<^verbatim>\<open>virtio_notify_status\<close> of the core with the calls it makes: the state of the machine is the transport's, whose
  device is read and changed with \<open>get\<close> and \<open>put\<close>, and \<open>reset\<close> is the transport's reset of the queues.
\<close>

definition notify_status ::
  "virtio_ops \<Rightarrow> ('s \<Rightarrow> vdev) \<Rightarrow> (vdev \<Rightarrow> 's \<Rightarrow> 's) \<Rightarrow> ('s \<Rightarrow> 's result) \<Rightarrow> u8 \<Rightarrow> 's \<Rightarrow> 's result" where
  "notify_status ops get put reset st s =
     (let (stop, ext, c) = virtio_notify_status st (core (get s));
          s1 = put ((get s)\<lparr>core := c\<rparr>) s
      in rbind (if stop then reset s1 else Inr s1) (\<lambda>s2.
         Inr (if has_notify_status ops then put (call_dev (Notify_status ext) (get s2)) s2 else s2)))"

definition set_features :: "u64 \<Rightarrow> vdev \<Rightarrow> vdev" where
  "set_features fs d = d\<lparr>core := virtio_set_guest_features fs (core d)\<rparr>"

text \<open>An access of \<open>len\<close> bytes to the configuration; \<open>data\<close> is the buffer of the access.\<close>

definition access_config :: "u64 \<Rightarrow> u8 list \<Rightarrow> nat \<Rightarrow> bool \<Rightarrow> vdev \<Rightarrow> (u8 list \<times> vdev) result" where
  "access_config offset data len is_wr d =
     rbind (virtio_access_config (config d) offset (take len data) is_wr) (\<lambda>r.
     case r of None \<Rightarrow> Inr (data, d) | Some (bs, c) \<Rightarrow> Inr (bs @ drop len data, d\<lparr>config := c\<rparr>))"

section \<open>Accesses keep the shape of a device\<close>

text \<open>The array of queues is as long as the device says or longer, and at most 32 queues are used.\<close>

definition dev_ok :: "virtio_ops \<Rightarrow> vdev \<Rightarrow> bool" where
  "dev_ok ops d \<longleftrightarrow> 0 < get_vq_count ops \<and> get_vq_count ops \<le> length (vqs d) \<and> get_vq_count ops \<le> 32"

lemma dev_ok_simps [simp]:
  "dev_ok ops (call_dev c d) = dev_ok ops d"
  "dev_ok ops (set_features fs d) = dev_ok ops d"
  "dev_ok ops (d\<lparr>core := k\<rparr>) = dev_ok ops d"
  "dev_ok ops (d\<lparr>endian := e\<rparr>) = dev_ok ops d"
  "dev_ok ops (d\<lparr>config := cf\<rparr>) = dev_ok ops d"
  by (simp_all add: dev_ok_def call_dev_def set_features_def)

lemma upd_vq_ok: "q < length (vqs d) \<Longrightarrow> upd_vq q f d = Inr (d\<lparr>vqs := (vqs d)[q := f (vqs d ! q)]\<rparr>)"
  by (simp add: upd_vq_def)

lemma init_vq_ok:
  "q < length (vqs d) \<Longrightarrow>
   init_vq ops q d = Inr (call_dev (Init_vq q) (d\<lparr>vqs := (vqs d)[q := virtio_init_device_vq (get_size_vq ops) d (vqs d ! q)]\<rparr>))"
  by (simp add: init_vq_def upd_vq_ok)

lemma exit_vq_ok:
  "q < length (vqs d) \<Longrightarrow>
   virtio_exit_vq ops q d =
     Inr ((if vq_enabled (vqs d ! q) \<and> has_exit_vq ops then call_dev (Exit_vq q) d else d)\<lparr>vqs := (vqs d)[q := zero_vq]\<rparr>)"
  by (auto simp: virtio_exit_vq_def upd_vq_def call_dev_def)

lemma dev_ok_vqs [simp]: "dev_ok ops (d\<lparr>vqs := (vqs d)[q := v]\<rparr>) = dev_ok ops d"
  by (simp add: dev_ok_def)

lemma dev_ok_vqs_call [simp]:
  "dev_ok ops ((call_dev c d)\<lparr>vqs := (vqs d)[q := v]\<rparr>) = dev_ok ops d"
  by (simp add: dev_ok_def call_dev_def)

lemma dev_ok_index: "dev_ok ops d \<Longrightarrow> q < get_vq_count ops \<Longrightarrow> q < length (vqs d)"
  by (simp add: dev_ok_def)

lemma access_config_ok:
  assumes "dev_ok ops d" and "unat offset + length data \<le> 2 ^ 64 - 1" and "length (config d) < 2 ^ 63"
  shows "\<exists>data' d'. access_config offset data len is_wr d = Inr (data', d') \<and> dev_ok ops d' \<and> length data' = length data \<and>
     length (config d') = length (config d) \<and> vqs d' = vqs d \<and> core d' = core d \<and> dev_calls d' = dev_calls d \<and> is_legacy d' = is_legacy d"
proof -
  let ?n = "length (take len data)"
  have n: "?n \<le> length data" by simp
  have b: "(offset + of_nat ?n > of_nat (length (config d))) \<longleftrightarrow> length (config d) < unat offset + ?n"
  proof -
    have "unat (of_nat ?n :: u64) = ?n" using assms(2) n by (simp add: unat_of_nat take_bit_nat_eq_self take_bit_eq_mod mod_less)
    then have "unat (offset + of_nat ?n) = unat offset + ?n"
      using assms(2) n by (subst unat_word_ariths) (simp add: mod_less)
    moreover have "unat (of_nat (length (config d)) :: u64) = length (config d)"
      using assms(3) by (simp add: unat_of_nat mod_less)
    ultimately show ?thesis by (simp add: word_less_nat_alt)
  qed
  show ?thesis
  proof (cases "length (config d) < unat offset + ?n \<or> ?n \<notin> {1, 2, 4, 8}")
    case True
    then have "virtio_access_config (config d) offset (take len data) is_wr = Inr None"
      unfolding virtio_access_config_def Let_def b by (elim disjE) simp_all
    with assms(1) show ?thesis by (simp add: access_config_def)
  next
    case False
    then have l: "unat offset + ?n \<le> length (config d)" "\<not> (offset + of_nat ?n > of_nat (length (config d)))" using b by auto
    with False assms(1) show ?thesis
      by (auto simp: access_config_def virtio_access_config_def Let_def memcpy_to_def memcpy_from_def)
  qed
qed

end
