(* ===== verification/Irq.thy ===== *)
theory Irq
  imports Prelude
begin

text \<open>
  Interrupt routes and event descriptors: \<^verbatim>\<open>init/irq.c\<close>, the set-up of \<^verbatim>\<open>arch/x86_64/irq.c\<close>, and \<^verbatim>\<open>init/ioeventfd.c\<close>.
  The program keeps the table of routes that the kernel uses for the interrupts of the guest, and
  passes the whole table to the kernel after every change; it keeps a list of the addresses for which the kernel
  signals a descriptor instead of returning from the guest. What the kernel holds is part of the state, and
  its answers to the calls are a list in the state (0 is success, as when the list is used up), so that theorems relate both sides.
\<close>

section \<open>Routes\<close>

record msi_msg =
  address_lo :: u32
  address_hi :: u32
  msi_data :: u32

text \<open>
  The union of an entry: the words \<open>u0\<close> and \<open>u1\<close> are the controller and the pin of an entry of type \<^verbatim>\<open>KVM_IRQ_ROUTING_IRQCHIP\<close>, and
  \<open>u0\<close> to \<open>u3\<close> are the low and high part of the address, the data and the device of an entry of type \<^verbatim>\<open>KVM_IRQ_ROUTING_MSI\<close>.
\<close>

record kvm_irq_routing_entry =
  rt_gsi :: u32
  rt_type :: u32
  rt_flags :: u32
  u0 :: u32
  u1 :: u32
  u2 :: u32
  u3 :: u32

abbreviation (input) KVM_IRQ_ROUTING_IRQCHIP :: u32 where "KVM_IRQ_ROUTING_IRQCHIP \<equiv> 1"
abbreviation (input) KVM_IRQ_ROUTING_MSI :: u32 where "KVM_IRQ_ROUTING_MSI \<equiv> 2"
abbreviation (input) KVM_MSI_VALID_DEVID :: u32 where "KVM_MSI_VALID_DEVID \<equiv> 1"
abbreviation (input) KVM_IRQ_OFFSET :: u8 where "KVM_IRQ_OFFSET \<equiv> 5"
abbreviation (input) ENXIO :: int where "ENXIO \<equiv> 6"

text \<open>
  \<open>irq_routing\<close> is the allocated table, \<open>allocated_gsis\<close> entries of which \<open>nr\<close> are in use, or a null pointer. \<open>cap_routing\<close> is what
  the kernel answers for \<^verbatim>\<open>KVM_CAP_IRQ_ROUTING\<close>, \<open>has_irq_routing\<close> the cached answer.
\<close>

record irq_state =
  next_line :: u8
  allocated_gsis :: nat
  next_gsi :: int
  irq_routing :: "(kvm_irq_routing_entry list \<times> nat) option"
  has_irq_routing :: int
  cap_routing :: bool
  msix_needs_devid :: bool
  kernel_routes :: "kvm_irq_routing_entry list"
  answers :: "int list"

definition irq_alloc_line :: "irq_state \<Rightarrow> u8 \<times> irq_state" where
  "irq_alloc_line s = (next_line s, s\<lparr>next_line := next_line s + 1\<rparr>)"

definition irq_get_nr_allocated_lines :: "irq_state \<Rightarrow> int" where
  "irq_get_nr_allocated_lines s = uint (next_line s) - uint KVM_IRQ_OFFSET"

definition zero_entry :: kvm_irq_routing_entry where
  "zero_entry = \<lparr>rt_gsi = 0, rt_type = 0, rt_flags = 0, u0 = 0, u1 = 0, u2 = 0, u3 = 0\<rparr>"

definition nr_routes :: "irq_state \<Rightarrow> nat" where
  "nr_routes s = (case irq_routing s of None \<Rightarrow> 0 | Some (es, n) \<Rightarrow> n)"

definition irq_allocate_routing_entry :: "irq_state \<Rightarrow> irq_state" where
  "irq_allocate_routing_entry s =
     (let nr_entries = nr_routes s
      in if nr_entries < allocated_gsis s then s
         else
           let n = (nr_entries + 1 + 31) div 32 * 32;
               old = (case irq_routing s of None \<Rightarrow> [] | Some (es, _) \<Rightarrow> es)
           in s\<lparr>allocated_gsis := n, irq_routing := Some (old @ replicate (n - allocated_gsis s) zero_entry, nr_entries)\<rparr>)"

definition check_for_irq_routing :: "irq_state \<Rightarrow> bool \<times> irq_state" where
  "check_for_irq_routing s =
     (let s' = (if has_irq_routing s = 0 then s\<lparr>has_irq_routing := if cap_routing s then 1 else -1\<rparr> else s)
      in (0 < has_irq_routing s', s'))"

definition answer :: "irq_state \<Rightarrow> int \<times> irq_state" where
  "answer s = (case answers s of [] \<Rightarrow> (0, s) | e # es \<Rightarrow> (e, s\<lparr>answers := es\<rparr>))"

text \<open>\<^verbatim>\<open>KVM_SET_GSI_ROUTING\<close> with the whole table; a refused table leaves the old one in place.\<close>

definition irq_update_msix_routes :: "irq_state \<Rightarrow> int \<times> irq_state" where
  "irq_update_msix_routes s =
     (let (e, s') = answer s
      in if e \<noteq> 0 then (-1, s')
         else (0, s'\<lparr>kernel_routes := (case irq_routing s of None \<Rightarrow> [] | Some (es, n) \<Rightarrow> take n es)\<rparr>))"

definition push_route :: "kvm_irq_routing_entry \<Rightarrow> irq_state \<Rightarrow> irq_state result" where
  "push_route x s =
     (case irq_routing s of None \<Rightarrow> Inl NullDeref
      | Some (es, n) \<Rightarrow> rbind (aset es n x) (\<lambda>es'. Inr (s\<lparr>irq_routing := Some (es', n + 1)\<rparr>)))"

definition msi_entry :: "u32 \<Rightarrow> bool \<Rightarrow> msi_msg \<Rightarrow> u32 \<Rightarrow> kvm_irq_routing_entry" where
  "msi_entry gsi needs_devid msg device_id =
     \<lparr>rt_gsi = gsi, rt_type = KVM_IRQ_ROUTING_MSI, rt_flags = (if needs_devid then KVM_MSI_VALID_DEVID else 0),
      u0 = address_lo msg, u1 = address_hi msg, u2 = msi_data msg, u3 = (if needs_devid then device_id else 0)\<rparr>"

definition irq_add_msix_route :: "msi_msg \<Rightarrow> u32 \<Rightarrow> irq_state \<Rightarrow> (int \<times> irq_state) result" where
  "irq_add_msix_route msg device_id s0 =
     (let (ok, s) = check_for_irq_routing s0
      in if \<not> ok then Inr (- ENXIO, s)
         else
           rbind (push_route (msi_entry (word_of_int (next_gsi s)) (msix_needs_devid s) msg device_id) (irq_allocate_routing_entry s)) (\<lambda>s1.
           let (r, s2) = irq_update_msix_routes s1
           in if r \<noteq> 0 then Inr (r, s2) else Inr (next_gsi s2, s2\<lparr>next_gsi := next_gsi s2 + 1\<rparr>)))"

text \<open>The loop over the entries in use: the index of the first one with the given number.\<close>

fun find_gsi :: "u32 \<Rightarrow> kvm_irq_routing_entry list \<Rightarrow> nat option" where
  "find_gsi g [] = None"
| "find_gsi g (e # es) = (if rt_gsi e = g then Some 0 else map_option Suc (find_gsi g es))"

definition set_msg :: "msi_msg \<Rightarrow> kvm_irq_routing_entry \<Rightarrow> kvm_irq_routing_entry" where
  "set_msg msg e = e\<lparr>u0 := address_lo msg, u1 := address_hi msg, u2 := msi_data msg\<rparr>"

definition irq_update_msix_route :: "u32 \<Rightarrow> msi_msg \<Rightarrow> irq_state \<Rightarrow> irq_state result" where
  "irq_update_msix_route gsi msg s =
     (case irq_routing s of None \<Rightarrow> Inl NullDeref
      | Some (es, n) \<Rightarrow>
         (case find_gsi gsi (take n es) of None \<Rightarrow> Inr s
          | Some i \<Rightarrow>
             rbind (aget es i) (\<lambda>e.
             let e' = set_msg msg e;
                 changed = (u1 e \<noteq> address_hi msg \<or> u0 e \<noteq> address_lo msg \<or> u2 e \<noteq> msi_data msg)
             in if \<not> changed then Inr s
                else
                  let (r, s') = irq_update_msix_routes (s\<lparr>irq_routing := Some (es[i := e'], n)\<rparr>)
                  in if r \<noteq> 0 then Inl Die else Inr s')))"

text \<open>\<^verbatim>\<open>arch/x86_64/irq.c\<close>: the routes of the interrupt controllers. When the kernel refuses them the table is freed and \<^verbatim>\<open>errno\<close> returned.\<close>

definition irq_add_routing :: "u32 \<times> u32 \<times> u32 \<Rightarrow> irq_state \<Rightarrow> irq_state result" where
  "irq_add_routing r s =
     (case r of (gsi, irqchip, pin) \<Rightarrow>
        push_route (zero_entry\<lparr>rt_gsi := gsi, rt_type := KVM_IRQ_ROUTING_IRQCHIP, u0 := irqchip, u1 := pin\<rparr>)
          (irq_allocate_routing_entry s))"

abbreviation (input) IRQCHIP_MASTER :: u32 where "IRQCHIP_MASTER \<equiv> 0"
abbreviation (input) IRQCHIP_SLAVE :: u32 where "IRQCHIP_SLAVE \<equiv> 1"
abbreviation (input) IRQCHIP_IOAPIC :: u32 where "IRQCHIP_IOAPIC \<equiv> 2"

definition x86_routes :: "(u32 \<times> u32 \<times> u32) list" where
  "x86_routes =
     map (\<lambda>i. (of_nat i, IRQCHIP_MASTER, of_nat i)) (filter (\<lambda>i. i \<noteq> 2) [0..<8]) @
     map (\<lambda>i. (of_nat i, IRQCHIP_SLAVE, of_nat i - 8)) [8..<16] @
     map (\<lambda>i. (of_nat i, IRQCHIP_IOAPIC, if i = 0 then 2 else of_nat i)) (filter (\<lambda>i. i \<noteq> 2) [0..<24])"

definition irq_init :: "irq_state \<Rightarrow> (int \<times> irq_state) result" where
  "irq_init s =
     rbind (rfold irq_add_routing x86_routes s) (\<lambda>s1.
     let (e, s2) = answer s1
     in if e \<noteq> 0 then Inr (e, s2\<lparr>irq_routing := None\<rparr>)
        else Inr (0, s2\<lparr>kernel_routes := (case irq_routing s1 of None \<Rightarrow> [] | Some (es, n) \<Rightarrow> take n es), next_gsi := 24\<rparr>))"

section \<open>Event descriptors\<close>

record ioevent =
  io_addr :: u64
  io_len :: u8
  io_fn :: nat
  io_fd :: int
  datamatch :: u64
  io_flags :: u32

record ioeventfds =
  ioeventfd_avail :: bool
  used_ioevents :: "ioevent list"
  kernel_events :: "ioevent list"
  polled :: "int list"
  io_answers :: "int list"

abbreviation (input) ENOSYS :: int where "ENOSYS \<equiv> 38"
abbreviation (input) ENOENT :: int where "ENOENT \<equiv> 2"
abbreviation (input) IOEVENTFD_FLAG_PIO :: u32 where "IOEVENTFD_FLAG_PIO \<equiv> 1"
abbreviation (input) IOEVENTFD_FLAG_USER_POLL :: u32 where "IOEVENTFD_FLAG_USER_POLL \<equiv> 2"
abbreviation (input) KVM_IOEVENTFD_FLAG_DATAMATCH :: u32 where "KVM_IOEVENTFD_FLAG_DATAMATCH \<equiv> 1"
abbreviation (input) KVM_IOEVENTFD_FLAG_PIO :: u32 where "KVM_IOEVENTFD_FLAG_PIO \<equiv> 2"

definition io_answer :: "ioeventfds \<Rightarrow> int \<times> ioeventfds" where
  "io_answer s = (case io_answers s of [] \<Rightarrow> (0, s) | e # es \<Rightarrow> (e, s\<lparr>io_answers := es\<rparr>))"

text \<open>\<open>has_pio\<close> is \<^verbatim>\<open>KVM_IOEVENTFD_HAS_PIO\<close>. Memory that is allocated for the copy of the event is always there.\<close>

definition ioeventfd_add_event :: "bool \<Rightarrow> ioevent \<Rightarrow> u32 \<Rightarrow> ioeventfds \<Rightarrow> int \<times> ioeventfds" where
  "ioeventfd_add_event has_pio ev flags s =
     (if \<not> ioeventfd_avail s then (- ENOSYS, s)
      else
        let kflags = (if has_pio \<and> flag flags IOEVENTFD_FLAG_PIO then KVM_IOEVENTFD_FLAG_DATAMATCH OR KVM_IOEVENTFD_FLAG_PIO
                      else KVM_IOEVENTFD_FLAG_DATAMATCH);
            new = ev\<lparr>io_flags := kflags\<rparr>;
            (r, s1) = io_answer s
        in if r \<noteq> 0 then (- r, s1)
           else
             let s2 = s1\<lparr>kernel_events := kernel_events s1 @ [new]\<rparr>
             in if flag flags IOEVENTFD_FLAG_USER_POLL
                then let (r', s3) = io_answer s2
                  in if r' \<noteq> 0 then (- r', s3)
                     else (0, s3\<lparr>polled := polled s3 @ [io_fd new], used_ioevents := used_ioevents s3 @ [new]\<rparr>)
                else (0, s2\<lparr>used_ioevents := used_ioevents s2 @ [new]\<rparr>))"

definition ioeventfd_del_event :: "u64 \<Rightarrow> u64 \<Rightarrow> ioeventfds \<Rightarrow> int \<times> ioeventfds" where
  "ioeventfd_del_event addr dm s =
     (if \<not> ioeventfd_avail s then (- ENOSYS, s)
      else
        case find (\<lambda>ev. io_addr ev = addr \<and> datamatch ev = dm) (used_ioevents s) of
          None \<Rightarrow> (- ENOENT, s)
        | Some ev \<Rightarrow>
            (0, s\<lparr>kernel_events := remove1 ev (kernel_events s), polled := remove1 (io_fd ev) (polled s),
                  used_ioevents := remove1 ev (used_ioevents s)\<rparr>))"

section \<open>The table as a map\<close>

text \<open>
  The table that the kernel holds is the one of the program, its size agrees with the allocation, and every number in it was handed out.
\<close>

definition used_routes :: "irq_state \<Rightarrow> kvm_irq_routing_entry list" where
  "used_routes s = (case irq_routing s of None \<Rightarrow> [] | Some (es, n) \<Rightarrow> take n es)"

definition table_ok :: "irq_state \<Rightarrow> bool" where
  "table_ok s \<longleftrightarrow>
     (case irq_routing s of None \<Rightarrow> allocated_gsis s = 0 | Some (es, n) \<Rightarrow> length es = allocated_gsis s \<and> n \<le> length es)"

definition routing_ok :: "irq_state \<Rightarrow> bool" where
  "routing_ok s \<longleftrightarrow> table_ok s \<and> kernel_routes s = used_routes s \<and>
     0 \<le> next_gsi s \<and> (\<forall>e \<in> set (kernel_routes s). uint (rt_gsi e) < next_gsi s)"

text \<open>The kernel supports routes and accepts all that it is given.\<close>

definition kernel_willing :: "irq_state \<Rightarrow> bool" where
  "kernel_willing s \<longleftrightarrow> (0 < has_irq_routing s \<or> has_irq_routing s = 0 \<and> cap_routing s) \<and> set (answers s) \<subseteq> {0}"

definition route_view :: "irq_state \<Rightarrow> u32 \<rightharpoonup> kvm_irq_routing_entry" where
  "route_view s = map_of (map (\<lambda>e. (rt_gsi e, e)) (kernel_routes s))"

lemma answer_willing:
  assumes "kernel_willing s"
  obtains s' where "answer s = (0, s')" "kernel_willing s'" "s' = s\<lparr>answers := answers s'\<rparr>"
proof (cases "answers s")
  case Nil
  then show ?thesis using assms that [of s] by (simp add: answer_def)
next
  case (Cons e es)
  then show ?thesis using assms that [of "s\<lparr>answers := es\<rparr>"] by (auto simp: answer_def kernel_willing_def)
qed

lemma update_routes_willing:
  assumes "kernel_willing s" and "irq_routing s = Some (es, n)"
  obtains as where "irq_update_msix_routes s = (0, s\<lparr>answers := as, kernel_routes := take n es\<rparr>)" "set as \<subseteq> {0}"
proof -
  obtain s' where s': "answer s = (0, s')" "kernel_willing s'" "s' = s\<lparr>answers := answers s'\<rparr>"
    using answer_willing [OF assms(1)] by blast
  have "irq_update_msix_routes s = (0, s\<lparr>answers := answers s', kernel_routes := take n es\<rparr>)"
    using s'(1) assms(2) by (subst (asm) s'(3)) (simp add: irq_update_msix_routes_def Let_def)
  with that s'(2) show ?thesis by (auto simp: kernel_willing_def)
qed

lemmas table_defs = routing_ok_def table_ok_def used_routes_def

lemma allocate_ok:
  assumes "table_ok s"
  obtains es n where "irq_allocate_routing_entry s = s\<lparr>allocated_gsis := length es, irq_routing := Some (es, n)\<rparr>"
    "n < length es" "take n es = used_routes s"
proof (cases "nr_routes s < allocated_gsis s")
  case True
  then obtain es n where e: "irq_routing s = Some (es, n)" "allocated_gsis s = length es" "n < length es" "used_routes s = take n es"
    using assms by (auto simp: table_defs nr_routes_def split: option.splits)
  have "irq_allocate_routing_entry s = s" using True by (simp add: irq_allocate_routing_entry_def)
  also have "s = s\<lparr>allocated_gsis := length es, irq_routing := Some (es, n)\<rparr>" unfolding e(1,2) [symmetric] by simp
  finally show ?thesis using that e(3,4) by simp
next
  case False
  let ?n = "nr_routes s"
  let ?old = "case irq_routing s of None \<Rightarrow> [] | Some (es, _) \<Rightarrow> es"
  let ?m = "(?n + 1 + 31) div 32 * 32"
  have old: "length ?old = allocated_gsis s" "?n = allocated_gsis s" "used_routes s = ?old"
    using assms False by (auto simp: table_defs nr_routes_def split: option.splits)
  have m: "?n < ?m" by presburger
  let ?es = "?old @ replicate (?m - allocated_gsis s) zero_entry"
  have "length ?es = ?m" using old m by simp
  moreover have "irq_allocate_routing_entry s = s\<lparr>allocated_gsis := ?m, irq_routing := Some (?es, ?n)\<rparr>"
    using False by (simp add: irq_allocate_routing_entry_def Let_def)
  ultimately show ?thesis using that [of ?es ?n] m old by simp
qed

lemma route_view_snoc:
  assumes "\<forall>e \<in> set es. rt_gsi e \<noteq> rt_gsi x"
  shows "map_of (map (\<lambda>e. (rt_gsi e, e)) (es @ [x])) = (map_of (map (\<lambda>e. (rt_gsi e, e)) es))(rt_gsi x \<mapsto> x)"
  using assms by (induction es) (auto simp: fun_eq_iff)

lemma find_gsi_None: "find_gsi g es = None \<longleftrightarrow> map_of (map (\<lambda>e. (rt_gsi e, e)) es) g = None"
  by (induction es) auto

lemma find_gsi_Some:
  "find_gsi g es = Some i \<Longrightarrow> i < length es \<and> rt_gsi (es ! i) = g \<and> map_of (map (\<lambda>e. (rt_gsi e, e)) es) g = Some (es ! i) \<and>
     (\<forall>x. rt_gsi x = g \<longrightarrow>
        map_of (map (\<lambda>e. (rt_gsi e, e)) (es[i := x])) = (map_of (map (\<lambda>e. (rt_gsi e, e)) es))(g \<mapsto> x))"
proof (induction es arbitrary: i)
  case (Cons e es)
  show ?case
  proof (cases "rt_gsi e = g")
    case True
    with Cons.prems show ?thesis by (auto simp: fun_eq_iff)
  next
    case False
    with Cons.prems obtain j where j: "i = Suc j" "find_gsi g es = Some j" by auto
    from Cons.IH [OF j(2)] False j(1) show ?thesis by (auto simp: fun_eq_iff)
  qed
qed simp

lemma check_routing_ok:
  assumes "kernel_willing s"
  obtains h where "check_for_irq_routing s = (True, s\<lparr>has_irq_routing := h\<rparr>)" "0 < h"
proof (cases "has_irq_routing s = 0")
  case True
  then show ?thesis using assms that [of 1] by (simp add: check_for_irq_routing_def kernel_willing_def)
next
  case False
  then show ?thesis using assms that [of "has_irq_routing s"] by (simp add: check_for_irq_routing_def kernel_willing_def)
qed

text \<open>A new route gets the next number and nothing else changes.\<close>

lemma add_route_ok:
  assumes "routing_ok s" and "kernel_willing s" and "next_gsi s < 2 ^ 31"
  shows "\<exists>s'. irq_add_msix_route msg dev s = Inr (next_gsi s, s') \<and> routing_ok s' \<and> kernel_willing s' \<and>
     next_gsi s' = next_gsi s + 1 \<and> msix_needs_devid s' = msix_needs_devid s \<and>
     kernel_routes s' = kernel_routes s @ [msi_entry (word_of_int (next_gsi s)) (msix_needs_devid s) msg dev] \<and>
     route_view s' = (route_view s)(word_of_int (next_gsi s) \<mapsto> msi_entry (word_of_int (next_gsi s)) (msix_needs_devid s) msg dev)"
proof -
  let ?x = "msi_entry (word_of_int (next_gsi s)) (msix_needs_devid s) msg dev"
  obtain h where h: "check_for_irq_routing s = (True, s\<lparr>has_irq_routing := h\<rparr>)" "0 < h"
    using check_routing_ok [OF assms(2)] .
  let ?s1 = "s\<lparr>has_irq_routing := h\<rparr>"
  have ok1: "table_ok ?s1" "used_routes ?s1 = kernel_routes s"
    using assms(1) by (auto simp: table_defs split: option.splits)
  obtain es n where a: "irq_allocate_routing_entry ?s1 = ?s1\<lparr>allocated_gsis := length es, irq_routing := Some (es, n)\<rparr>"
    "n < length es" "take n es = kernel_routes s"
    using allocate_ok [OF ok1(1)] ok1(2) by auto
  let ?s2 = "?s1\<lparr>allocated_gsis := length es, irq_routing := Some (es[n := ?x], n + 1)\<rparr>"
  have "kernel_willing ?s2" using assms(2) h(2) by (simp add: kernel_willing_def)
  then obtain as where as: "irq_update_msix_routes ?s2 = (0, ?s2\<lparr>answers := as, kernel_routes := take (n + 1) (es[n := ?x])\<rparr>)" "set as \<subseteq> {0}"
    by (rule update_routes_willing [where es = "es[n := ?x]" and n = "n + 1"]) simp_all
  have k: "take (n + 1) (es[n := ?x]) = kernel_routes s @ [?x]"
    using a(2,3) by (simp add: take_Suc_conv_app_nth)
  let ?s3 = "?s2\<lparr>answers := as, kernel_routes := kernel_routes s @ [?x], next_gsi := next_gsi s + 1\<rparr>"
  have add: "irq_add_msix_route msg dev s = Inr (next_gsi s, ?s3)"
    using h(1) a(1,2) as(1) k by (simp add: irq_add_msix_route_def push_route_def Let_def)
  have nx: "0 \<le> next_gsi s" "uint (word_of_int (next_gsi s) :: u32) = next_gsi s"
    using assms(1,3) by (simp_all add: routing_ok_def uint_word_of_int)
  have x: "rt_gsi ?x = word_of_int (next_gsi s)" by (simp add: msi_entry_def)
  have new: "\<forall>e \<in> set (kernel_routes s). rt_gsi e \<noteq> rt_gsi ?x"
    using assms(1) nx unfolding x routing_ok_def by fastforce
  have lt: "\<forall>e \<in> set (kernel_routes s). uint (rt_gsi e) < next_gsi s" using assms(1) by (simp add: routing_ok_def)
  have "table_ok ?s3" "used_routes ?s3 = kernel_routes s @ [?x]" using a k by (simp_all add: table_ok_def used_routes_def)
  then have "routing_ok ?s3" using nx x lt by (auto simp: routing_ok_def)
  moreover have "route_view ?s3 = (route_view s)(word_of_int (next_gsi s) \<mapsto> ?x)"
    using route_view_snoc [OF new] x by (simp add: route_view_def)
  moreover have "kernel_willing ?s3" using h(2) as(2) by (simp add: kernel_willing_def)
  ultimately show ?thesis using add by simp
qed

lemma set_msg_same: "u1 e = address_hi msg \<Longrightarrow> u0 e = address_lo msg \<Longrightarrow> u2 e = msi_data msg \<Longrightarrow> set_msg msg e = e"
  by (simp add: set_msg_def)

text \<open>An update of a number that is in the table changes the message of this entry; other numbers are ignored.\<close>

lemma update_route_ok:
  assumes "routing_ok s" and "kernel_willing s" and "irq_routing s \<noteq> None"
  shows "\<exists>s'. irq_update_msix_route g msg s = Inr s' \<and> routing_ok s' \<and> kernel_willing s' \<and> irq_routing s' \<noteq> None \<and>
     next_gsi s' = next_gsi s \<and> msix_needs_devid s' = msix_needs_devid s \<and>
     kernel_routes s' = (case find_gsi g (kernel_routes s) of None \<Rightarrow> kernel_routes s
        | Some i \<Rightarrow> (kernel_routes s)[i := set_msg msg (kernel_routes s ! i)]) \<and>
     route_view s' = (case route_view s g of None \<Rightarrow> route_view s | Some e \<Rightarrow> (route_view s)(g \<mapsto> set_msg msg e))"
proof -
  obtain es n where r: "irq_routing s = Some (es, n)" "length es = allocated_gsis s" "n \<le> length es" "kernel_routes s = take n es"
    using assms(1,3) by (auto simp: table_defs)
  show ?thesis
  proof (cases "find_gsi g (take n es)")
    case None
    have "irq_update_msix_route g msg s = Inr s" using None r(1) by (simp add: irq_update_msix_route_def)
    moreover have "route_view s g = None" using None r(4) by (simp add: find_gsi_None route_view_def)
    ultimately show ?thesis using None assms r(4) by simp
  next
    case (Some i)
    note f = find_gsi_Some [OF Some]
    have i: "i < n" "i < length es" "take n es ! i = es ! i" using f r(3) by auto
    let ?e = "set_msg msg (es ! i)"
    have same: "rt_gsi ?e = rt_gsi (es ! i)" by (simp add: set_msg_def)
    have v: "route_view s g = Some (es ! i)" using f i(3) r(4) by (simp add: route_view_def)
    have v': "map_of (map (\<lambda>e. (rt_gsi e, e)) ((take n es)[i := ?e])) = (route_view s)(g \<mapsto> ?e)"
      using f same i(3) r(4) by (simp add: route_view_def)
    show ?thesis
    proof (cases "u1 (es ! i) \<noteq> address_hi msg \<or> u0 (es ! i) \<noteq> address_lo msg \<or> u2 (es ! i) \<noteq> msi_data msg")
      case True
      let ?s1 = "s\<lparr>irq_routing := Some (es[i := ?e], n)\<rparr>"
      have "kernel_willing ?s1" using assms(2) by (simp add: kernel_willing_def)
      then obtain as where as: "irq_update_msix_routes ?s1 = (0, ?s1\<lparr>answers := as, kernel_routes := take n (es[i := ?e])\<rparr>)" "set as \<subseteq> {0}"
        by (rule update_routes_willing [where es = "es[i := ?e]" and n = n]) simp_all
      let ?s2 = "?s1\<lparr>answers := as, kernel_routes := take n (es[i := ?e])\<rparr>"
      have u: "irq_update_msix_route g msg s = Inr ?s2"
        using r(1) Some i True as(1) by (auto simp: irq_update_msix_route_def Let_def)
      have t: "take n (es[i := ?e]) = (take n es)[i := ?e]" by (simp add: take_update_swap)
      have "set ((take n es)[i := ?e]) \<subseteq> insert ?e (set (take n es))" by (rule set_update_subset_insert)
      moreover have "es ! i \<in> set (take n es)" using i f by (metis nth_mem)
      ultimately have "routing_ok ?s2" using assms(1) r same by (fastforce simp: table_defs t)
      moreover have "route_view ?s2 = (route_view s)(g \<mapsto> ?e)" using v' t by (simp add: route_view_def)
      moreover have "kernel_willing ?s2" using assms(2) as(2) by (simp add: kernel_willing_def)
      ultimately show ?thesis using u v Some i r(4) t by simp
    next
      case False
      then have e: "?e = es ! i" by (simp add: set_msg_same)
      have u: "irq_update_msix_route g msg s = Inr s"
        using r(1) Some i False by (simp add: irq_update_msix_route_def Let_def)
      have "(route_view s)(g \<mapsto> ?e) = route_view s" using v e by (simp add: fun_upd_idem)
      moreover have "(take n es)[i := ?e] = take n es" using e i by (metis list_update_id)
      ultimately show ?thesis using u v Some assms r i by simp
    qed
  qed
qed

section \<open>Sequences of changes\<close>

datatype route_op = Add_route msi_msg u32 | Update_route u32 msi_msg

fun route_step :: "route_op \<Rightarrow> irq_state \<Rightarrow> irq_state result" where
  "route_step (Add_route msg dev) s = rbind (irq_add_msix_route msg dev s) (\<lambda>(_, s'). Inr s')"
| "route_step (Update_route g msg) s = irq_update_msix_route g msg s"

text \<open>What a change means: the next number and a map from numbers to entries.\<close>

fun route_spec :: "bool \<Rightarrow> route_op \<Rightarrow> int \<times> (u32 \<rightharpoonup> kvm_irq_routing_entry) \<Rightarrow> int \<times> (u32 \<rightharpoonup> kvm_irq_routing_entry)" where
  "route_spec nd (Add_route msg dev) (n, v) = (n + 1, v(word_of_int n \<mapsto> msi_entry (word_of_int n) nd msg dev))"
| "route_spec nd (Update_route g msg) (n, v) = (n, case v g of None \<Rightarrow> v | Some e \<Rightarrow> v(g \<mapsto> set_msg msg e))"

definition routes_ready :: "irq_state \<Rightarrow> bool" where
  "routes_ready s \<longleftrightarrow> routing_ok s \<and> kernel_willing s \<and> irq_routing s \<noteq> None"

lemma update_routes_table: "irq_routing (snd (irq_update_msix_routes s)) = irq_routing s"
  by (simp add: irq_update_msix_routes_def answer_def split: list.splits)

lemma push_route_table: "push_route x s = Inr s' \<Longrightarrow> irq_routing s' \<noteq> None"
  by (auto simp: push_route_def rbind_eq_Inr_iff split: option.splits)

lemma add_keeps_table:
  assumes "irq_add_msix_route msg dev s = Inr (r, s')" and "irq_routing s \<noteq> None"
  shows "irq_routing s' \<noteq> None"
proof (cases "fst (check_for_irq_routing s)")
  case True
  let ?t = "snd (check_for_irq_routing s)"
  obtain s1 where s1: "push_route (msi_entry (word_of_int (next_gsi ?t)) (msix_needs_devid ?t) msg dev) (irq_allocate_routing_entry ?t) = Inr s1"
    "irq_routing s' = irq_routing (snd (irq_update_msix_routes s1))"
    using assms(1) True
    by (auto simp: irq_add_msix_route_def Let_def case_prod_unfold rbind_eq_Inr_iff split: if_splits)
  then show ?thesis using push_route_table [OF s1(1)] by (simp add: update_routes_table)
next
  case False
  then have "s' = snd (check_for_irq_routing s)" using assms(1) by (simp add: irq_add_msix_route_def case_prod_unfold)
  with assms(2) show ?thesis by (simp add: check_for_irq_routing_def Let_def)
qed

lemma route_step_ok:
  assumes "routes_ready s" and "next_gsi s < 2 ^ 31"
  shows "\<exists>s'. route_step op s = Inr s' \<and> routes_ready s' \<and> msix_needs_devid s' = msix_needs_devid s \<and> next_gsi s' \<le> next_gsi s + 1 \<and>
     (next_gsi s', route_view s') = route_spec (msix_needs_devid s) op (next_gsi s, route_view s)"
proof (cases op)
  case (Add_route msg dev)
  with add_route_ok [of s msg dev] assms add_keeps_table [of msg dev s] show ?thesis by (auto simp: routes_ready_def)
next
  case (Update_route g msg)
  with update_route_ok [of s g msg] assms show ?thesis by (auto simp: routes_ready_def)
qed

lemma route_run_ok:
  "routes_ready s \<Longrightarrow> next_gsi s + int (length ops) \<le> 2 ^ 31 \<Longrightarrow>
   \<exists>s'. rfold route_step ops s = Inr s' \<and> routes_ready s' \<and>
     (next_gsi s', route_view s') = fold (route_spec (msix_needs_devid s)) ops (next_gsi s, route_view s)"
proof (induction ops arbitrary: s)
  case (Cons op ops)
  then obtain t where t: "route_step op s = Inr t" "routes_ready t" "msix_needs_devid t = msix_needs_devid s"
    "next_gsi t \<le> next_gsi s + 1" "(next_gsi t, route_view t) = route_spec (msix_needs_devid s) op (next_gsi s, route_view s)"
    using route_step_ok [of s op] by auto
  from Cons.IH [OF t(2)] t Cons.prems(2) show ?case by simp
qed simp

section \<open>The routes of the interrupt controllers\<close>

text \<open>The first \<open>k\<close> routes stay as they are.\<close>

definition route_safe :: "nat \<Rightarrow> kvm_irq_routing_entry list \<Rightarrow> route_op \<Rightarrow> bool" where
  "route_safe k es op = (case op of Add_route msg dev \<Rightarrow> True
     | Update_route g msg \<Rightarrow> (case find_gsi g (take k es) of None \<Rightarrow> True | Some i \<Rightarrow> set_msg msg (es ! i) = es ! i))"

lemma find_gsi_take: "find_gsi g (take k es) = None \<Longrightarrow> find_gsi g es = Some i \<Longrightarrow> k \<le> i"
proof (induction k arbitrary: es i)
  case (Suc k)
  then show ?case by (cases es) (auto split: if_splits)
qed simp

lemma find_gsi_append: "find_gsi g xs = Some i \<Longrightarrow> find_gsi g (xs @ ys) = Some i"
  by (induction xs arbitrary: i) auto

lemma find_gsi_take_Some: "find_gsi g (take k es) = Some i \<Longrightarrow> find_gsi g es = Some i"
  using find_gsi_append [of g "take k es" i "drop k es"] by simp

lemma route_step_prefix:
  assumes "routes_ready s" and "next_gsi s < 2 ^ 31" and "route_step op s = Inr s'" and "k \<le> length (kernel_routes s)"
    and "route_safe k (kernel_routes s) op"
  shows "take k (kernel_routes s') = take k (kernel_routes s) \<and> k \<le> length (kernel_routes s')"
proof (cases op)
  case (Add_route msg dev)
  with add_route_ok [of s msg dev] assms show ?thesis by (auto simp: routes_ready_def)
next
  case (Update_route g msg)
  then have r: "kernel_routes s' = (case find_gsi g (kernel_routes s) of None \<Rightarrow> kernel_routes s
      | Some i \<Rightarrow> (kernel_routes s)[i := set_msg msg (kernel_routes s ! i)])"
    using update_route_ok [of s g msg] assms by (auto simp: routes_ready_def)
  show ?thesis
  proof (cases "find_gsi g (take k (kernel_routes s))")
    case None
    then show ?thesis using r assms(4) find_gsi_take [OF None] by (cases "find_gsi g (kernel_routes s)") auto
  next
    case (Some i)
    then show ?thesis using r assms(4,5) find_gsi_take_Some [OF Some] Update_route by (simp add: route_safe_def)
  qed
qed

lemma route_safe_cong: "take k es = take k es' \<Longrightarrow> k \<le> length es \<Longrightarrow> k \<le> length es' \<Longrightarrow> route_safe k es = route_safe k es'"
proof (rule ext)
  fix op
  assume a: "take k es = take k es'" "k \<le> length es" "k \<le> length es'"
  have "es ! i = es' ! i" if "i < k" for i using that a(1) by (metis nth_take)
  moreover have "i < k" if "find_gsi g (take k es') = Some i" for g i using find_gsi_Some [OF that] by simp
  ultimately show "route_safe k es op = route_safe k es' op"
    using a(1) by (auto simp: route_safe_def split: route_op.splits option.splits)
qed

lemma route_run_prefix:
  "routes_ready s \<Longrightarrow> next_gsi s + int (length ops) \<le> 2 ^ 31 \<Longrightarrow> k \<le> length (kernel_routes s) \<Longrightarrow>
   (\<forall>op \<in> set ops. route_safe k (kernel_routes s) op) \<Longrightarrow> rfold route_step ops s = Inr s' \<Longrightarrow>
   take k (kernel_routes s') = take k (kernel_routes s)"
proof (induction ops arbitrary: s)
  case (Cons op ops)
  obtain t where t: "route_step op s = Inr t" "routes_ready t" "next_gsi t \<le> next_gsi s + 1"
    using route_step_ok [OF Cons.prems(1), of op] Cons.prems(2) by auto
  have p: "take k (kernel_routes t) = take k (kernel_routes s)" "k \<le> length (kernel_routes t)"
    using route_step_prefix [OF Cons.prems(1) _ t(1) Cons.prems(3)] Cons.prems(2,4) by auto
  have "\<forall>op \<in> set ops. route_safe k (kernel_routes t) op"
    using route_safe_cong [OF p(1) p(2) Cons.prems(3)] Cons.prems(4) by simp
  with Cons.IH [OF t(2) _ p(2)] t p(1) Cons.prems(2,5) show ?case by simp
qed simp

lemma push_all_ok:
  "table_ok s \<Longrightarrow> \<exists>s'. rfold irq_add_routing rs s = Inr s' \<and> table_ok s' \<and>
     used_routes s' = used_routes s @
       map (\<lambda>(g, c, p). zero_entry\<lparr>rt_gsi := g, rt_type := KVM_IRQ_ROUTING_IRQCHIP, u0 := c, u1 := p\<rparr>) rs \<and>
     has_irq_routing s' = has_irq_routing s \<and> cap_routing s' = cap_routing s \<and> answers s' = answers s \<and> (rs \<noteq> [] \<longrightarrow> irq_routing s' \<noteq> None)"
proof (induction rs arbitrary: s)
  case (Cons r rs)
  obtain g c p where r: "r = (g, c, p)" by (cases r)
  let ?x = "zero_entry\<lparr>rt_gsi := g, rt_type := KVM_IRQ_ROUTING_IRQCHIP, u0 := c, u1 := p\<rparr>"
  obtain es n where a: "irq_allocate_routing_entry s = s\<lparr>allocated_gsis := length es, irq_routing := Some (es, n)\<rparr>"
    "n < length es" "take n es = used_routes s"
    using allocate_ok [OF Cons.prems] by blast
  let ?t = "s\<lparr>allocated_gsis := length es, irq_routing := Some (es[n := ?x], n + 1)\<rparr>"
  have step: "irq_add_routing r s = Inr ?t" using a r by (simp add: irq_add_routing_def push_route_def)
  have t: "table_ok ?t" "used_routes ?t = used_routes s @ [?x]"
    using a by (simp_all add: table_ok_def used_routes_def take_Suc_conv_app_nth)
  obtain s' where s': "rfold irq_add_routing rs ?t = Inr s'" "table_ok s'"
    "used_routes s' = used_routes ?t @ map (\<lambda>(g, c, p). zero_entry\<lparr>rt_gsi := g, rt_type := KVM_IRQ_ROUTING_IRQCHIP, u0 := c, u1 := p\<rparr>) rs"
    "has_irq_routing s' = has_irq_routing s" "cap_routing s' = cap_routing s" "answers s' = answers s"
    using Cons.IH [OF t(1)] by auto
  have "irq_routing s' \<noteq> None" using s'(3) t(2) by (auto simp: used_routes_def split: option.splits)
  with step s' t(2) r show ?case by simp
qed simp

definition x86_entries :: "kvm_irq_routing_entry list" where
  "x86_entries = map (\<lambda>(g, c, p). zero_entry\<lparr>rt_gsi := g, rt_type := KVM_IRQ_ROUTING_IRQCHIP, u0 := c, u1 := p\<rparr>) x86_routes"

lemma x86_routes_eval [simp]:
  "x86_routes =
     [(0, 0, 0), (1, 0, 1), (3, 0, 3), (4, 0, 4), (5, 0, 5), (6, 0, 6), (7, 0, 7),
      (8, 1, 0), (9, 1, 1), (10, 1, 2), (11, 1, 3), (12, 1, 4), (13, 1, 5), (14, 1, 6), (15, 1, 7),
      (0, 2, 2), (1, 2, 1), (3, 2, 3), (4, 2, 4), (5, 2, 5), (6, 2, 6), (7, 2, 7), (8, 2, 8), (9, 2, 9), (10, 2, 10), (11, 2, 11),
      (12, 2, 12), (13, 2, 13), (14, 2, 14), (15, 2, 15), (16, 2, 16), (17, 2, 17), (18, 2, 18), (19, 2, 19), (20, 2, 20), (21, 2, 21),
      (22, 2, 22), (23, 2, 23)]"
  by (simp add: x86_routes_def upt_rec)

text \<open>The state before \<^verbatim>\<open>irq__init\<close>.\<close>

definition irq_boot :: "irq_state \<Rightarrow> bool" where
  "irq_boot s \<longleftrightarrow> irq_routing s = None \<and> allocated_gsis s = 0 \<and> kernel_willing s"

lemma irq_init_ok:
  assumes "irq_boot s"
  shows "\<exists>s'. irq_init s = Inr (0, s') \<and> routes_ready s' \<and> next_gsi s' = 24 \<and> kernel_routes s' = x86_entries"
proof -
  have "table_ok s" using assms by (simp add: irq_boot_def table_ok_def)
  then obtain t where t: "rfold irq_add_routing x86_routes s = Inr t" "table_ok t" "used_routes t = x86_entries"
    "has_irq_routing t = has_irq_routing s" "cap_routing t = cap_routing s" "answers t = answers s" "irq_routing t \<noteq> None"
    using push_all_ok [of s x86_routes] assms by (auto simp: irq_boot_def x86_entries_def used_routes_def)
  have "kernel_willing t" using assms t by (simp add: irq_boot_def kernel_willing_def)
  then obtain u where u: "answer t = (0, u)" "kernel_willing u" "u = t\<lparr>answers := answers u\<rparr>"
    using answer_willing by blast
  let ?s = "t\<lparr>answers := answers u, kernel_routes := x86_entries, next_gsi := 24\<rparr>"
  have "irq_init s = Inr (0, u\<lparr>kernel_routes := x86_entries, next_gsi := 24\<rparr>)"
    using t(1,3) u(1) by (simp add: irq_init_def used_routes_def del: x86_routes_eval)
  then have i: "irq_init s = Inr (0, ?s)" by (subst (asm) u(3)) simp
  have "table_ok ?s" "used_routes ?s = x86_entries" using t(2,3) by (auto simp: table_ok_def used_routes_def split: option.splits)
  moreover have "\<forall>e \<in> set x86_entries. uint (rt_gsi e) < 24" by (simp add: x86_entries_def)
  moreover have "kernel_willing ?s" using u(2) by (subst (asm) u(3)) (simp add: kernel_willing_def)
  ultimately have "routes_ready ?s" using t(7) by (simp add: routes_ready_def routing_ok_def)
  with i show ?thesis by auto
qed

text \<open>The clients update a route they added, or number 0 with an empty message where a queue has no route.\<close>

definition client_op :: "route_op \<Rightarrow> bool" where
  "client_op op = (case op of Add_route msg dev \<Rightarrow> True
     | Update_route g msg \<Rightarrow> 24 \<le> g \<or> g = 0 \<and> msg = \<lparr>address_lo = 0, address_hi = 0, msi_data = 0\<rparr>)"

lemma x86_gsi: "e \<in> set x86_entries \<Longrightarrow> rt_gsi e < 24"
  by (auto simp: x86_entries_def)

lemma client_op_safe: "client_op op \<Longrightarrow> route_safe 38 x86_entries op"
proof (cases op)
  case (Update_route g msg)
  assume c: "client_op op"
  have l: "take 38 x86_entries = x86_entries" by (simp add: x86_entries_def)
  show ?thesis
  proof (cases "24 \<le> g")
    case True
    have "find_gsi g x86_entries = None"
    proof (rule ccontr)
      assume "find_gsi g x86_entries \<noteq> None"
      then obtain i where "find_gsi g x86_entries = Some i" by blast
      from find_gsi_Some [OF this] have "g < 24" using x86_gsi nth_mem by metis
      with True show False by simp
    qed
    with l Update_route show ?thesis by (simp add: route_safe_def)
  next
    case False
    with c Update_route have "g = 0" "msg = \<lparr>address_lo = 0, address_hi = 0, msi_data = 0\<rparr>" by (auto simp: client_op_def)
    moreover have "x86_entries ! 0 = zero_entry\<lparr>rt_type := KVM_IRQ_ROUTING_IRQCHIP\<rparr>" "find_gsi 0 x86_entries = Some 0"
      by (simp_all add: x86_entries_def zero_entry_def)
    ultimately show ?thesis using l Update_route by (simp add: route_safe_def set_msg_def zero_entry_def)
  qed
qed (simp add: route_safe_def)

text \<open>
  C38. The table of interrupt routes is a map. After the set-up on x86, for every sequence of new routes and updates that the
  kernel accepts, the table that the kernel holds maps numbers to routes as if each change had been made on a map: a new route gets
  the next number after 23, an update changes the message of its number and of no other. As long as the clients
  update numbers they were given, or number 0 with an empty message for a queue that has none, the 38 routes of the
  interrupt controllers stay as they were set up.
\<close>

theorem irq_routes_refine_map:
  assumes "irq_boot s" and "length ops < 2 ^ 30"
  shows "\<exists>s0 s'. irq_init s = Inr (0, s0) \<and> rfold route_step ops s0 = Inr s' \<and>
     (next_gsi s', route_view s') = fold (route_spec (msix_needs_devid s0)) ops (24, map_of (map (\<lambda>e. (rt_gsi e, e)) x86_entries)) \<and>
     ((\<forall>op \<in> set ops. client_op op) \<longrightarrow> take 38 (kernel_routes s') = x86_entries)"
proof -
  obtain s0 where s0: "irq_init s = Inr (0, s0)" "routes_ready s0" "next_gsi s0 = 24" "kernel_routes s0 = x86_entries"
    using irq_init_ok [OF assms(1)] by blast
  have b: "next_gsi s0 + int (length ops) \<le> 2 ^ 31" using s0(3) assms(2) by simp
  obtain s' where s': "rfold route_step ops s0 = Inr s'"
    "(next_gsi s', route_view s') = fold (route_spec (msix_needs_devid s0)) ops (next_gsi s0, route_view s0)"
    using route_run_ok [OF s0(2) b] by blast
  have "take 38 (kernel_routes s') = x86_entries" if "\<forall>op \<in> set ops. client_op op"
    using route_run_prefix [OF s0(2) b, of 38 s'] that client_op_safe s0(4) s'(1) by (simp add: x86_entries_def)
  with s0 s' show ?thesis by (auto simp: route_view_def)
qed

definition irq_sample :: irq_state where
  "irq_sample = \<lparr>next_line = KVM_IRQ_OFFSET, allocated_gsis = 0, next_gsi = 0, irq_routing = None, has_irq_routing = 0, cap_routing = True,
     msix_needs_devid = False, kernel_routes = [], answers = []\<rparr>"

theorem irq_routes_refine_map_witness:
  "\<exists>s0 s' e. irq_init irq_sample = Inr (0, s0) \<and>
     rfold route_step [Add_route \<lparr>address_lo = 1, address_hi = 0, msi_data = 7\<rparr> 8, Update_route 24 \<lparr>address_lo = 2, address_hi = 0, msi_data = 9\<rparr>,
       Update_route 0 \<lparr>address_lo = 0, address_hi = 0, msi_data = 0\<rparr>] s0 = Inr s' \<and>
     route_view s' 24 = Some e \<and> u0 e = 2 \<and> u2 e = 9 \<and> take 38 (kernel_routes s') = x86_entries"
proof -
  let ?ops = "[Add_route \<lparr>address_lo = 1, address_hi = 0, msi_data = 7\<rparr> 8, Update_route 24 \<lparr>address_lo = 2, address_hi = 0, msi_data = 9\<rparr>,
       Update_route 0 \<lparr>address_lo = 0, address_hi = 0, msi_data = 0\<rparr>]"
  have "irq_boot irq_sample" by (simp add: irq_boot_def kernel_willing_def irq_sample_def)
  from irq_routes_refine_map [OF this, of ?ops] obtain s0 s' where
    s: "irq_init irq_sample = Inr (0, s0)" "rfold route_step ?ops s0 = Inr s'"
    "(next_gsi s', route_view s') = fold (route_spec (msix_needs_devid s0)) ?ops (24, map_of (map (\<lambda>e. (rt_gsi e, e)) x86_entries))"
    "(\<forall>op \<in> set ?ops. client_op op) \<longrightarrow> take 38 (kernel_routes s') = x86_entries"
    by auto
  have "\<exists>e. route_view s' 24 = Some e \<and> u0 e = 2 \<and> u2 e = 9"
    using s(3) by (auto simp: set_msg_def msi_entry_def x86_entries_def split: option.splits)
  moreover have "take 38 (kernel_routes s') = x86_entries" using s(4) by (simp add: client_op_def)
  ultimately show ?thesis using s(1,2) by blast
qed

text \<open>
  A refused table is not taken back: the entry stays in the table of the program, and the next route gets the same number,
  so that later updates find the entry that was refused.
\<close>

lemma irq_refused_route_stays:
  "\<exists>s0 s1 s2. irq_init (irq_sample\<lparr>answers := [0, 1]\<rparr>) = Inr (0, s0) \<and>
     irq_add_msix_route \<lparr>address_lo = 1, address_hi = 0, msi_data = 7\<rparr> 8 s0 = Inr (-1, s1) \<and>
     irq_add_msix_route \<lparr>address_lo = 3, address_hi = 0, msi_data = 7\<rparr> 8 s1 = Inr (24, s2) \<and>
     map rt_gsi (drop 38 (kernel_routes s2)) = [24, 24]"
proof -
  have "case rbind (irq_init (irq_sample\<lparr>answers := [0, 1]\<rparr>)) (\<lambda>(r0, s0).
      rbind (irq_add_msix_route \<lparr>address_lo = 1, address_hi = 0, msi_data = 7\<rparr> 8 s0) (\<lambda>(r1, s1).
      rbind (irq_add_msix_route \<lparr>address_lo = 3, address_hi = 0, msi_data = 7\<rparr> 8 s1) (\<lambda>(r2, s2).
      Inr (r0, r1, r2, map rt_gsi (drop 38 (kernel_routes s2)))))) of Inl e \<Rightarrow> False | Inr r \<Rightarrow> r = (0, -1, 24, [24, 24])"
    by code_simp
  then show ?thesis by (auto simp: rbind_eq_Inr_iff split: sum.splits)
qed

section \<open>Events in step with the kernel\<close>

datatype io_op = Add_event ioevent u32 | Del_event u64 u64

fun io_step :: "bool \<Rightarrow> ioeventfds \<Rightarrow> io_op \<Rightarrow> ioeventfds" where
  "io_step has_pio s (Add_event ev flags) = snd (ioeventfd_add_event has_pio ev flags s)"
| "io_step has_pio s (Del_event addr dm) = snd (ioeventfd_del_event addr dm s)"

definition events_ok :: "ioeventfds \<Rightarrow> bool" where
  "events_ok s \<longleftrightarrow> kernel_events s = used_ioevents s \<and> set (io_answers s) \<subseteq> {0}"

lemma io_answer_ok: "set (io_answers s) \<subseteq> {0} \<Longrightarrow> \<exists>es. io_answer s = (0, s\<lparr>io_answers := es\<rparr>) \<and> set es \<subseteq> {0}"
proof (cases "io_answers s")
  case Nil
  then have "io_answer s = (0, s\<lparr>io_answers := []\<rparr>)" by (simp add: io_answer_def)
  then show ?thesis by auto
next
  case (Cons e es)
  assume "set (io_answers s) \<subseteq> {0}"
  with Cons show ?thesis by (auto simp: io_answer_def)
qed

lemma add_event_ok:
  assumes "events_ok s" and "ioeventfd_avail s"
  shows "\<exists>s' fl. ioeventfd_add_event has_pio ev flags s = (0, s') \<and> events_ok s' \<and> ioeventfd_avail s' \<and>
     used_ioevents s' = used_ioevents s @ [ev\<lparr>io_flags := fl\<rparr>]"
proof -
  obtain es where a: "io_answer s = (0, s\<lparr>io_answers := es\<rparr>)" "set es \<subseteq> {0}" using io_answer_ok [of s] assms(1) by (auto simp: events_ok_def)
  show ?thesis
  proof (cases "flag flags IOEVENTFD_FLAG_USER_POLL")
    case True
    let ?k = "if has_pio \<and> flag flags IOEVENTFD_FLAG_PIO then KVM_IOEVENTFD_FLAG_DATAMATCH OR KVM_IOEVENTFD_FLAG_PIO else KVM_IOEVENTFD_FLAG_DATAMATCH"
    let ?s2 = "s\<lparr>io_answers := es, kernel_events := kernel_events s @ [ev\<lparr>io_flags := ?k\<rparr>]\<rparr>"
    obtain es' where b: "io_answer ?s2 = (0, ?s2\<lparr>io_answers := es'\<rparr>)" "set es' \<subseteq> {0}" using io_answer_ok [of ?s2] a(2) by auto
    with True a assms show ?thesis by (auto simp: ioeventfd_add_event_def Let_def events_ok_def)
  qed (use a assms in \<open>auto simp: ioeventfd_add_event_def Let_def events_ok_def\<close>)
qed

lemma del_event_ok: "events_ok s \<Longrightarrow> events_ok (snd (ioeventfd_del_event addr dm s)) \<and>
    ioeventfd_avail (snd (ioeventfd_del_event addr dm s)) = ioeventfd_avail s"
  by (auto simp: ioeventfd_del_event_def events_ok_def split: option.splits)

interpretation ioev: trap_device events_ok "io_step has_pio" for has_pio
proof
  fix s op assume "events_ok s"
  then show "events_ok (io_step has_pio s op)"
  proof (cases op)
    case (Add_event ev flags)
    then show ?thesis
      using \<open>events_ok s\<close> add_event_ok [of s has_pio ev flags] by (cases "ioeventfd_avail s") (auto simp: ioeventfd_add_event_def)
  qed (simp add: del_event_ok)
qed

text \<open>
  When \<^verbatim>\<open>epoll_ctl\<close> fails the event is forgotten, but the kernel goes on signalling a descriptor that nobody reads: the guest's notifications of
  the queue are lost from then on, and no later call removes the registration.
\<close>

lemma ioeventfd_epoll_failure_leaks:
  assumes "ioeventfd_avail s" and "io_answers s = [0, 12]" and "flag flags IOEVENTFD_FLAG_USER_POLL"
  shows "\<exists>s' x. ioeventfd_add_event has_pio ev flags s = (-12, s') \<and> used_ioevents s' = used_ioevents s \<and>
     kernel_events s' = kernel_events s @ [x] \<and> io_addr x = io_addr ev \<and> datamatch x = datamatch ev"
  using assms by (auto simp: ioeventfd_add_event_def io_answer_def Let_def)

end
