(* ===== verification/Vmmio.thy ===== *)
theory Vmmio
  imports Vdev Irq Mmio Devices
begin

text \<open>
  The virtio transport over a page of registers: \<^verbatim>\<open>virtio/mmio.c\<close>, \<^verbatim>\<open>virtio/mmio-legacy.c\<close> and \<^verbatim>\<open>virtio/mmio-modern.c\<close>.
  The guest selects a queue, tells where its rings lie and enables it; a notification of a queue is
  signalled through a descriptor (theory \<open>Irq\<close>) and the device answers with an interrupt whose cause the guest reads and acknowledges. The
  buffer of an access has 8 bytes, of which \<open>len\<close> belong to the access.
\<close>

section \<open>State\<close>

record virtio_mmio_hdr =
  magic :: u32
  hdr_version :: u32
  device_id :: u32
  vendor_id :: u32
  host_features_sel :: u32
  guest_features_sel :: u32
  guest_page_size :: u32
  queue_sel :: u32
  queue_num_max :: u32
  queue_num :: u32
  queue_align :: u32
  interrupt_state :: u32
  hdr_status :: u32

record virtio_mmio =
  vm_addr :: u32
  vm_irq :: u8
  hdr :: virtio_mmio_hdr
  io_params :: "nat list"
  dev :: vdev
  ioev :: ioeventfds
  next_fd :: int
  triggers :: "u8 list"

abbreviation (input) VIRTIO_MMIO_MAX_VQ :: nat where "VIRTIO_MMIO_MAX_VQ \<equiv> 32"
abbreviation (input) VIRTIO_MMIO_IO_SIZE :: u32 where "VIRTIO_MMIO_IO_SIZE \<equiv> 0x200"
abbreviation (input) VIRTIO_MMIO_QUEUE_NOTIFY :: u32 where "VIRTIO_MMIO_QUEUE_NOTIFY \<equiv> 0x50"
abbreviation (input) VIRTIO_MMIO_CONFIG :: u32 where "VIRTIO_MMIO_CONFIG \<equiv> 0x100"
abbreviation (input) VIRTIO_MMIO_INT_VRING :: u32 where "VIRTIO_MMIO_INT_VRING \<equiv> 1"
abbreviation (input) VIRTIO_MMIO_INT_CONFIG :: u32 where "VIRTIO_MMIO_INT_CONFIG \<equiv> 2"

definition set_dev :: "vdev \<Rightarrow> virtio_mmio \<Rightarrow> virtio_mmio" where
  "set_dev d s = s\<lparr>dev := d\<rparr>"

definition on_dev :: "(vdev \<Rightarrow> vdev result) \<Rightarrow> virtio_mmio \<Rightarrow> virtio_mmio result" where
  "on_dev f s = rbind (f (dev s)) (\<lambda>d. Inr (set_dev d s))"

definition set_hdr :: "(virtio_mmio_hdr \<Rightarrow> virtio_mmio_hdr) \<Rightarrow> virtio_mmio \<Rightarrow> virtio_mmio" where
  "set_hdr f s = s\<lparr>hdr := f (hdr s)\<rparr>"

section \<open>Queues and interrupts\<close>

definition notify_addr :: "virtio_mmio \<Rightarrow> u64" where
  "notify_addr s = ucast (vm_addr s + VIRTIO_MMIO_QUEUE_NOTIFY)"

text \<open>The result is 0 or an error. \<^verbatim>\<open>eventfd\<close> always gives a fresh descriptor.\<close>

definition virtio_mmio_init_ioeventfd :: "bool \<Rightarrow> virtio_ops \<Rightarrow> nat \<Rightarrow> virtio_mmio \<Rightarrow> (int \<times> virtio_mmio) result" where
  "virtio_mmio_init_ioeventfd has_pio ops q s =
     rbind (aset (io_params s) q q) (\<lambda>ps.
     let ev = \<lparr>io_addr = notify_addr s, io_len = 4, io_fn = q, io_fd = next_fd s, datamatch = of_nat q, io_flags = 0\<rparr>;
         (err, evs) = ioeventfd_add_event has_pio ev (if use_vhost (dev s) then 0 else IOEVENTFD_FLAG_USER_POLL) (ioev s);
         s' = s\<lparr>io_params := ps, ioev := evs, next_fd := next_fd s + 1\<rparr>
     in if err \<noteq> 0 then Inr (err, s')
        else Inr (0, if has_notify_vq_eventfd ops then set_dev (call_dev (Notify_vq_eventfd q (next_fd s)) (dev s')) s' else s'))"

definition virtio_mmio_init_vq :: "bool \<Rightarrow> virtio_ops \<Rightarrow> nat \<Rightarrow> virtio_mmio \<Rightarrow> virtio_mmio result" where
  "virtio_mmio_init_vq has_pio ops q s =
     rbind (virtio_mmio_init_ioeventfd has_pio ops q s) (\<lambda>(err, s').
     if err \<noteq> 0 then Inr s' else on_dev (init_vq ops q) s')"

definition virtio_mmio_exit_vq :: "virtio_ops \<Rightarrow> nat \<Rightarrow> virtio_mmio \<Rightarrow> virtio_mmio result" where
  "virtio_mmio_exit_vq ops q s =
     on_dev (virtio_exit_vq ops q) (s\<lparr>ioev := snd (ioeventfd_del_event (notify_addr s) (of_nat q) (ioev s))\<rparr>)"

definition virtio_mmio_reset :: "virtio_ops \<Rightarrow> virtio_mmio \<Rightarrow> virtio_mmio result" where
  "virtio_mmio_reset ops s = rfold (virtio_mmio_exit_vq ops) [0..<get_vq_count ops] s"

definition virtio_mmio_signal_vq :: "virtio_mmio \<Rightarrow> virtio_mmio" where
  "virtio_mmio_signal_vq s =
     (set_hdr (\<lambda>h. h\<lparr>interrupt_state := interrupt_state h OR VIRTIO_MMIO_INT_VRING\<rparr>) s)\<lparr>triggers := triggers s @ [vm_irq s]\<rparr>"

definition virtio_mmio_signal_config :: "virtio_mmio \<Rightarrow> virtio_mmio" where
  "virtio_mmio_signal_config s =
     (set_hdr (\<lambda>h. h\<lparr>interrupt_state := interrupt_state h OR VIRTIO_MMIO_INT_CONFIG\<rparr>) s)\<lparr>triggers := triggers s @ [vm_irq s]\<rparr>"

text \<open>The doorbell: the kernel signals the descriptor of a queue and the callback tells the device.\<close>

definition virtio_mmio_ioevent_callback :: "nat \<Rightarrow> virtio_mmio \<Rightarrow> virtio_mmio result" where
  "virtio_mmio_ioevent_callback i s = rbind (aget (io_params s) i) (\<lambda>q. Inr (set_dev (call_dev (Notify_vq q) (dev s)) s))"

section \<open>Legacy registers\<close>

definition hdr_word :: "u32 \<Rightarrow> virtio_mmio_hdr \<Rightarrow> u32" where
  "hdr_word off h =
     (if off = 0x00 then magic h else if off = 0x04 then hdr_version h else if off = 0x08 then device_id h
      else if off = 0x0c then vendor_id h else if off = 0x60 then interrupt_state h else hdr_status h)"

definition write32 :: "u8 list \<Rightarrow> u32 \<Rightarrow> u8 list result" where
  "write32 data v = memcpy_to data 0 (le_bytes 4 v)"

definition read32 :: "u8 list \<Rightarrow> u32 result" where
  "read32 data = rbind (memcpy_from data 0 4) (\<lambda>bs. Inr (le_word bs))"

definition legacy_config_in :: "virtio_ops \<Rightarrow> u32 \<Rightarrow> u8 list \<Rightarrow> virtio_mmio \<Rightarrow> u8 list result" where
  "legacy_config_in ops off data s =
     (if off \<in> {0x00, 0x04, 0x08, 0x0c, 0x70, 0x60} then write32 data (hdr_word off (hdr s))
      else if off = 0x10 then write32 data (if host_features_sel (hdr s) = 0 then ucast (get_host_features ops) else 0)
      else if off = 0x40 then rbind (aget (vqs (dev s)) (unat (queue_sel (hdr s)))) (\<lambda>vq. write32 data (pfn (vq_addr vq)))
      else if off = 0x34 then write32 data (of_nat (get_size_vq ops))
      else Inr data)"

definition legacy_config_out :: "bool \<Rightarrow> virtio_ops \<Rightarrow> u16 \<Rightarrow> u32 \<Rightarrow> u32 \<Rightarrow> virtio_mmio \<Rightarrow> virtio_mmio result" where
  "legacy_config_out has_pio ops cpu_endian off val s =
     (if off = 0x14 then Inr (set_hdr (\<lambda>h. h\<lparr>host_features_sel := val\<rparr>) s)
      else if off = 0x24 then Inr (set_hdr (\<lambda>h. h\<lparr>guest_features_sel := val\<rparr>) s)
      else if off = 0x30 then
        Inr (if get_vq_count ops \<le> unat val then s else set_hdr (\<lambda>h. h\<lparr>queue_sel := val\<rparr>) s)
      else if off = 0x70 then
        let s1 = set_hdr (\<lambda>h. h\<lparr>hdr_status := val\<rparr>) s;
            s2 = (if val = 0 then set_dev ((dev s1)\<lparr>endian := cpu_endian\<rparr>) s1 else s1)
        in notify_status ops dev set_dev (virtio_mmio_reset ops) (ucast val) s2
      else if off = 0x20 then
        Inr (if guest_features_sel (hdr s) = 0 then set_dev (set_features (ucast val) (dev s)) s else s)
      else if off = 0x28 then Inr (set_hdr (\<lambda>h. h\<lparr>guest_page_size := val\<rparr>) s)
      else if off = 0x38 then
        let s1 = set_hdr (\<lambda>h. h\<lparr>queue_num := val\<rparr>) s
        in Inr (set_dev (call_dev (Set_size_vq (unat (queue_sel (hdr s1))) val) (dev s1)) s1)
      else if off = 0x3c then Inr (set_hdr (\<lambda>h. h\<lparr>queue_align := val\<rparr>) s)
      else if off = 0x40 then
        let q = unat (queue_sel (hdr s))
        in if val \<noteq> 0
           then rbind (on_dev (upd_vq q (\<lambda>vq. vq\<lparr>vq_addr := (vq_addr zero_vq)\<lparr>legacy := True, pfn := val, vr_align := queue_align (hdr s),
                  pgsize := guest_page_size (hdr s)\<rparr>\<rparr>)) s) (virtio_mmio_init_vq has_pio ops q)
           else virtio_mmio_exit_vq ops q s
      else if off = 0x50 then
        Inr (if get_vq_count ops \<le> unat val then s else set_dev (call_dev (Notify_vq (unat val)) (dev s)) s)
      else if off = 0x64 then Inr (set_hdr (\<lambda>h. h\<lparr>interrupt_state := interrupt_state h AND NOT val\<rparr>) s)
      else Inr s)"

text \<open>An access, from the bus; the result is the buffer and the state.\<close>

definition config_access :: "u32 \<Rightarrow> u8 list \<Rightarrow> nat \<Rightarrow> bool \<Rightarrow> virtio_mmio \<Rightarrow> (u8 list \<times> virtio_mmio) result" where
  "config_access offset data len is_wr s =
     rbind (access_config (ucast (offset - VIRTIO_MMIO_CONFIG)) data len is_wr (dev s)) (\<lambda>(data', d). Inr (data', set_dev d s))"

definition virtio_mmio_legacy_callback ::
  "bool \<Rightarrow> virtio_ops \<Rightarrow> u16 \<Rightarrow> u64 \<Rightarrow> u8 list \<Rightarrow> nat \<Rightarrow> bool \<Rightarrow> virtio_mmio \<Rightarrow> (u8 list \<times> virtio_mmio) result" where
  "virtio_mmio_legacy_callback has_pio ops cpu_endian addr data len is_wr s =
     (let offset = ucast (addr - ucast (vm_addr s)) :: u32
      in if VIRTIO_MMIO_CONFIG \<le> offset then config_access offset data len is_wr s
         else if is_wr
         then rbind (read32 data) (\<lambda>val. rbind (legacy_config_out has_pio ops cpu_endian offset val s) (\<lambda>s'. Inr (data, s')))
         else rbind (legacy_config_in ops offset data s) (\<lambda>data'. Inr (data', s)))"

section \<open>Modern registers\<close>

definition selected_vq :: "virtio_mmio \<Rightarrow> dev_vq result" where
  "selected_vq s = aget (vqs (dev s)) (unat (queue_sel (hdr s)))"

definition set_vq_addr :: "(vring_addr \<Rightarrow> vring_addr) \<Rightarrow> virtio_mmio \<Rightarrow> virtio_mmio result" where
  "set_vq_addr f s = on_dev (upd_vq (unat (queue_sel (hdr s))) (\<lambda>vq. vq\<lparr>vq_addr := f (vq_addr vq)\<rparr>)) s"

text \<open>Bit 32 of the features is \<^verbatim>\<open>VIRTIO_F_VERSION_1\<close>.\<close>

definition modern_features :: "virtio_ops \<Rightarrow> u32 \<Rightarrow> u32" where
  "modern_features ops sel = ucast (drop_bit (32 * unat sel) (0x100000000 OR get_host_features ops))"

definition modern_config_in :: "virtio_ops \<Rightarrow> u32 \<Rightarrow> u8 list \<Rightarrow> virtio_mmio \<Rightarrow> u8 list result" where
  "modern_config_in ops off data s =
     (if off \<in> {0x00, 0x04, 0x08, 0x0c, 0x70, 0x60} then write32 data (hdr_word off (hdr s))
      else if off = 0x10 then write32 data (if 1 < host_features_sel (hdr s) then 0 else modern_features ops (host_features_sel (hdr s)))
      else if off = 0x34 then write32 data (of_nat (get_size_vq ops))
      else if off = 0x44 then rbind (selected_vq s) (\<lambda>vq. write32 data (of_bool (vq_enabled vq)))
      else if off = 0x80 then rbind (selected_vq s) (\<lambda>vq. write32 data (desc_lo (vq_addr vq)))
      else if off = 0x84 then rbind (selected_vq s) (\<lambda>vq. write32 data (desc_hi (vq_addr vq)))
      else if off = 0xa0 then rbind (selected_vq s) (\<lambda>vq. write32 data (used_lo (vq_addr vq)))
      else if off = 0xa4 then rbind (selected_vq s) (\<lambda>vq. write32 data (used_hi (vq_addr vq)))
      else if off = 0x90 then rbind (selected_vq s) (\<lambda>vq. write32 data (avail_lo (vq_addr vq)))
      else if off = 0x94 then rbind (selected_vq s) (\<lambda>vq. write32 data (avail_hi (vq_addr vq)))
      else if off = 0xfc then write32 data 0
      else Inr data)"

definition modern_config_out :: "bool \<Rightarrow> virtio_ops \<Rightarrow> u32 \<Rightarrow> u32 \<Rightarrow> virtio_mmio \<Rightarrow> virtio_mmio result" where
  "modern_config_out has_pio ops off val s =
     (let q = unat (queue_sel (hdr s)) in
      if off = 0x14 then Inr (set_hdr (\<lambda>h. h\<lparr>host_features_sel := val\<rparr>) s)
      else if off = 0x24 then Inr (set_hdr (\<lambda>h. h\<lparr>guest_features_sel := val\<rparr>) s)
      else if off = 0x30 then Inr (set_hdr (\<lambda>h. h\<lparr>queue_sel := val\<rparr>) s)
      else if off = 0x70 then
        notify_status ops dev set_dev (virtio_mmio_reset ops) (ucast val) (set_hdr (\<lambda>h. h\<lparr>hdr_status := val\<rparr>) s)
      else if off = 0x20 then
        Inr (if 1 < guest_features_sel (hdr s) then s
             else set_dev (set_features (push_bit (32 * unat (guest_features_sel (hdr s))) (ucast val)) (dev s)) s)
      else if off = 0x38 then
        let s1 = set_hdr (\<lambda>h. h\<lparr>queue_num := val\<rparr>) s in Inr (set_dev (call_dev (Set_size_vq q val) (dev s1)) s1)
      else if off = 0x44 then (if val \<noteq> 0 then virtio_mmio_init_vq has_pio ops q s else virtio_mmio_exit_vq ops q s)
      else if off = 0x50 then Inr (set_dev (call_dev (Notify_vq (unat val)) (dev s)) s)
      else if off = 0x64 then Inr (set_hdr (\<lambda>h. h\<lparr>interrupt_state := interrupt_state h AND NOT val\<rparr>) s)
      else if off = 0x80 then set_vq_addr (\<lambda>a. a\<lparr>desc_lo := val\<rparr>) s
      else if off = 0x84 then set_vq_addr (\<lambda>a. a\<lparr>desc_hi := val\<rparr>) s
      else if off = 0xa0 then set_vq_addr (\<lambda>a. a\<lparr>used_lo := val\<rparr>) s
      else if off = 0xa4 then set_vq_addr (\<lambda>a. a\<lparr>used_hi := val\<rparr>) s
      else if off = 0x90 then set_vq_addr (\<lambda>a. a\<lparr>avail_lo := val\<rparr>) s
      else if off = 0x94 then set_vq_addr (\<lambda>a. a\<lparr>avail_hi := val\<rparr>) s
      else Inr s)"

definition virtio_mmio_modern_callback ::
  "bool \<Rightarrow> virtio_ops \<Rightarrow> u64 \<Rightarrow> u8 list \<Rightarrow> nat \<Rightarrow> bool \<Rightarrow> virtio_mmio \<Rightarrow> (u8 list \<times> virtio_mmio) result" where
  "virtio_mmio_modern_callback has_pio ops addr data len is_wr s =
     (let offset = ucast (addr - ucast (vm_addr s)) :: u32
      in if VIRTIO_MMIO_CONFIG \<le> offset then config_access offset data len is_wr s
         else if len \<noteq> 4 then Inr (data, s)
         else if is_wr
         then rbind (read32 data) (\<lambda>val. rbind (modern_config_out has_pio ops offset val s) (\<lambda>s'. Inr (data, s')))
         else rbind (modern_config_in ops offset data s) (\<lambda>data'. Inr (data', s)))"

section \<open>Set-up\<close>

text \<open>The parts of the machine that a device registers with.\<close>

record vmachine =
  io_blocks :: u32
  mbus :: mmio_bus
  irqs :: irq_state
  trees :: device_trees

definition virtio_mmio_get_io_space_block :: "u32 \<Rightarrow> vmachine \<Rightarrow> u32 \<times> vmachine" where
  "virtio_mmio_get_io_space_block sz m = (io_blocks m, m\<lparr>io_blocks := io_blocks m + sz\<rparr>)"

text \<open>
  \<open>dev_id\<close> stands for the pointer to the device in the mapping, and the handlers are numbered 1 (legacy) and 2 (modern). The result is the return value, 0 on success.
\<close>

definition virtio_mmio_init ::
  "bool \<Rightarrow> nat \<Rightarrow> u32 \<Rightarrow> vdev \<Rightarrow> ioeventfds \<Rightarrow> vmachine \<Rightarrow> (int \<times> virtio_mmio \<times> vmachine) result" where
  "virtio_mmio_init mem dev_id subsys_id d evs m0 =
     (let (base, m1) = virtio_mmio_get_io_space_block VIRTIO_MMIO_IO_SIZE m0;
          s = \<lparr>vm_addr = base, vm_irq = 0,
               hdr = \<lparr>magic = 0, hdr_version = 0, device_id = 0, vendor_id = 0, host_features_sel = 0, guest_features_sel = 0,
                 guest_page_size = 0, queue_sel = 0, queue_num_max = 0, queue_num = 0, queue_align = 0, interrupt_state = 0, hdr_status = 0\<rparr>,
               io_params = replicate VIRTIO_MMIO_MAX_VQ 0, dev = (if is_legacy d then d else d\<lparr>endian := VIRTIO_ENDIAN_LE\<rparr>),
               ioev = evs, next_fd = 3, triggers = []\<rparr>
      in rbind (kvm_register_iotrap mem 0 (ucast base) 0x200 (if is_legacy d then 1 else 2) dev_id DEVICE_BUS_MMIO (mbus m1)) (\<lambda>(r, b).
         if r < 0 then Inr (r, s, m1\<lparr>mbus := b\<rparr>)
         else
           let (line, irqs') = irq_alloc_line (irqs m1);
               s1 = s\<lparr>vm_irq := line,
                      hdr := (hdr s)\<lparr>magic := 0x74726976, hdr_version := if is_legacy d then 1 else 2, device_id := subsys_id,
                        vendor_id := 0x4d564b4c, queue_num_max := 256\<rparr>\<rparr>
           in rbind (device_register \<lparr>bus_type = 1, dev_data = dev_id, dev_num = 0\<rparr> (trees m1)) (\<lambda>(r, _, ts).
              let m2 = m1\<lparr>mbus := b, irqs := irqs', trees := ts\<rparr>
              in if r < 0
                 then rbind (kvm_deregister_iotrap (ucast base) DEVICE_BUS_MMIO b) (\<lambda>(_, b'). Inr (r, s1, m2\<lparr>mbus := b'\<rparr>))
                 else Inr (0, s1, m2))))"

definition virtio_mmio_exit :: "virtio_ops \<Rightarrow> virtio_mmio \<Rightarrow> vmachine \<Rightarrow> (virtio_mmio \<times> vmachine) result" where
  "virtio_mmio_exit ops s m =
     rbind (virtio_mmio_reset ops s) (\<lambda>s'.
     rbind (kvm_deregister_iotrap (ucast (vm_addr s')) DEVICE_BUS_MMIO (mbus m)) (\<lambda>(_, b). Inr (s', m\<lparr>mbus := b\<rparr>)))"

section \<open>No access outside the arrays\<close>

definition vmmio_ok :: "virtio_ops \<Rightarrow> bool \<Rightarrow> virtio_mmio \<Rightarrow> bool" where
  "vmmio_ok ops lg s \<longleftrightarrow> dev_ok ops (dev s) \<and> is_legacy (dev s) = lg \<and> length (config (dev s)) < 2 ^ 63 \<and> length (io_params s) = VIRTIO_MMIO_MAX_VQ \<and>
     unat (queue_sel (hdr s)) < get_vq_count ops"

lemma vmmio_ok_dev:
  "vmmio_ok ops lg s \<Longrightarrow> dev_ok ops d \<Longrightarrow> is_legacy d = lg \<Longrightarrow> length (config d) < 2 ^ 63 \<Longrightarrow> vmmio_ok ops lg (set_dev d s)"
  by (simp add: vmmio_ok_def set_dev_def)

lemma vmmio_ok_simps [simp]:
  "vmmio_ok ops lg (set_dev (call_dev c (dev s)) s) = vmmio_ok ops lg s"
  "vmmio_ok ops lg (set_dev (set_features fs (dev s)) s) = vmmio_ok ops lg s"
  "vmmio_ok ops lg (set_dev ((dev s)\<lparr>core := k\<rparr>) s) = vmmio_ok ops lg s"
  "vmmio_ok ops lg (set_dev ((dev s)\<lparr>endian := e\<rparr>) s) = vmmio_ok ops lg s"
  "vmmio_ok ops lg (s\<lparr>ioev := evs\<rparr>) = vmmio_ok ops lg s"
  by (auto simp: vmmio_ok_def set_dev_def call_dev_def set_features_def dev_ok_def)

lemma vmmio_ok_hdr: "vmmio_ok ops lg s \<Longrightarrow> queue_sel (f (hdr s)) = queue_sel (hdr s) \<Longrightarrow> vmmio_ok ops lg (set_hdr f s)"
  by (simp add: vmmio_ok_def set_hdr_def)

lemma config_simps [simp]:
  "config (call_dev c d) = config d" "vqs (call_dev c d) = vqs d" "core (call_dev c d) = core d" "is_legacy (call_dev c d) = is_legacy d"
  by (simp_all add: call_dev_def)

lemma on_upd_vq_ok:
  assumes "vmmio_ok ops lg s" and "q < get_vq_count ops"
  shows "runs (vmmio_ok ops lg) (on_dev (upd_vq q f) s)"
  using assms dev_ok_index [of ops "dev s" q]
  by (auto simp: on_dev_def upd_vq_ok vmmio_ok_def set_dev_def)

lemma init_ioeventfd_runs:
  assumes "vmmio_ok ops lg s" and "q < VIRTIO_MMIO_MAX_VQ"
  shows "runs (\<lambda>(err, s'). vmmio_ok ops lg s') (virtio_mmio_init_ioeventfd has_pio ops q s)"
  using assms
  by (auto simp: virtio_mmio_init_ioeventfd_def Let_def vmmio_ok_def case_prod_unfold set_dev_def)

lemma mmio_init_vq_runs:
  assumes "vmmio_ok ops lg s" and "q < get_vq_count ops"
  shows "runs (vmmio_ok ops lg) (virtio_mmio_init_vq has_pio ops q s)"
  unfolding virtio_mmio_init_vq_def
proof (rule runs_bind [OF init_ioeventfd_runs [OF assms(1)]])
  show "q < VIRTIO_MMIO_MAX_VQ" using assms by (simp add: vmmio_ok_def dev_ok_def)
  fix x :: "int \<times> virtio_mmio" assume "case x of (err, s') \<Rightarrow> vmmio_ok ops lg s'"
  then show "runs (vmmio_ok ops lg) (case x of (err, s') \<Rightarrow> if err \<noteq> 0 then Inr s' else on_dev (init_vq ops q) s')"
    using assms(2) dev_ok_index [of ops "dev (snd x)" q]
    by (cases x) (auto simp: on_dev_def init_vq_ok vmmio_ok_def set_dev_def)
qed

lemma mmio_exit_vq_runs:
  assumes "vmmio_ok ops lg s" and "q < get_vq_count ops"
  shows "runs (vmmio_ok ops lg) (virtio_mmio_exit_vq ops q s)"
  using assms dev_ok_index [of ops "dev s" q]
  by (auto simp: virtio_mmio_exit_vq_def on_dev_def exit_vq_ok vmmio_ok_def set_dev_def)

lemma mmio_reset_runs: "vmmio_ok ops lg s \<Longrightarrow> runs (vmmio_ok ops lg) (virtio_mmio_reset ops s)"
  unfolding virtio_mmio_reset_def by (rule runs_rfold) (auto intro: mmio_exit_vq_runs)

lemma mmio_status_runs:
  assumes "vmmio_ok ops lg s"
  shows "runs (vmmio_ok ops lg) (notify_status ops dev set_dev (virtio_mmio_reset ops) st s)"
proof -
  obtain stop ext c where n: "virtio_notify_status st (core (dev s)) = (stop, ext, c)" by (rule prod_cases3)
  let ?s = "set_dev ((dev s)\<lparr>core := c\<rparr>) s"
  have "runs (vmmio_ok ops lg) (if stop then virtio_mmio_reset ops ?s else Inr ?s)"
    using assms mmio_reset_runs [of ops lg ?s] by simp
  then have "runs (vmmio_ok ops lg) (rbind (if stop then virtio_mmio_reset ops ?s else Inr ?s)
      (\<lambda>s2. Inr (if has_notify_status ops then set_dev (call_dev (Notify_status ext) (dev s2)) s2 else s2)))"
    by (rule runs_bind) simp
  then show ?thesis using n by (simp add: notify_status_def Let_def)
qed

lemma legacy_out_runs:
  assumes "vmmio_ok ops lg s"
  shows "runs (vmmio_ok ops lg) (legacy_config_out has_pio ops e off val s)"
proof -
  have q: "unat (queue_sel (hdr s)) < get_vq_count ops" using assms by (simp add: vmmio_ok_def)
  note h = vmmio_ok_hdr [OF assms]
  have st: "runs (vmmio_ok ops lg) (notify_status ops dev set_dev (virtio_mmio_reset ops) (ucast val)
      (let s1 = set_hdr (\<lambda>h. h\<lparr>hdr_status := val\<rparr>) s in if val = 0 then set_dev ((dev s1)\<lparr>endian := e\<rparr>) s1 else s1))"
    using h by (intro mmio_status_runs) (simp add: Let_def)
  have pfn: "runs (vmmio_ok ops lg) (rbind (on_dev (upd_vq (unat (queue_sel (hdr s))) f) s)
      (virtio_mmio_init_vq has_pio ops (unat (queue_sel (hdr s)))))" for f
    by (rule runs_bind [OF on_upd_vq_ok [OF assms q] mmio_init_vq_runs]) (use q in auto)
  have sel: "vmmio_ok ops lg (set_hdr (\<lambda>h. h\<lparr>queue_sel := val\<rparr>) s)" if "unat val < get_vq_count ops"
    using assms that by (simp add: vmmio_ok_def set_hdr_def)
  show ?thesis
    using st pfn sel mmio_exit_vq_runs [OF assms q] h assms by (simp add: legacy_config_out_def Let_def)
qed

lemma write32_ok: "length data = 8 \<Longrightarrow> \<exists>d. write32 data v = Inr d \<and> length d = 8"
  by (simp add: write32_def memcpy_to_def)

lemma legacy_in_runs:
  assumes "vmmio_ok ops lg s" and "length data = 8"
  shows "runs (\<lambda>d. length d = 8) (legacy_config_in ops off data s)"
  using assms write32_ok [OF assms(2)] dev_ok_index [of ops "dev s" "unat (queue_sel (hdr s))"]
  by (auto simp: legacy_config_in_def vmmio_ok_def runs_iff)

lemma u32_in_u64: "unat (ucast (x :: u32) :: u64) < 2 ^ 32"
proof -
  have "unat (ucast x :: u64) \<le> unat x" by (simp add: unsigned_ucast_eq take_bit_nat_less_eq_self)
  also have "unat x < 2 ^ 32" using unsigned_less [of x, where 'a = nat] by simp
  finally show ?thesis .
qed

lemma config_access_runs:
  assumes "vmmio_ok ops lg s" and "length data = 8"
  shows "runs (\<lambda>(d, s'). vmmio_ok ops lg s' \<and> length d = 8) (config_access offset data len is_wr s)"
proof -
  have "unat (ucast (offset - VIRTIO_MMIO_CONFIG) :: u64) < 2 ^ 32" by (rule u32_in_u64)
  then have "\<exists>data' d'. access_config (ucast (offset - VIRTIO_MMIO_CONFIG)) data len is_wr (dev s) = Inr (data', d') \<and> dev_ok ops d' \<and>
      length data' = length data \<and> length (config d') = length (config (dev s)) \<and> vqs d' = vqs (dev s) \<and> core d' = core (dev s) \<and>
      dev_calls d' = dev_calls (dev s) \<and> is_legacy d' = is_legacy (dev s)"
    using assms by (intro access_config_ok) (auto simp: vmmio_ok_def)
  then show ?thesis using assms by (auto simp: config_access_def vmmio_ok_def set_dev_def)
qed

lemma modern_in_runs:
  assumes "vmmio_ok ops lg s" and "length data = 8"
  shows "runs (\<lambda>d. length d = 8) (modern_config_in ops off data s)"
proof -
  have w: "runs (\<lambda>d. length d = 8) (write32 data v)" for v using write32_ok [OF assms(2)] by (auto simp: runs_iff)
  have "selected_vq s = Inr (vqs (dev s) ! unat (queue_sel (hdr s)))"
    using assms(1) dev_ok_index [of ops "dev s" "unat (queue_sel (hdr s))"] by (simp add: selected_vq_def vmmio_ok_def)
  then show ?thesis using w assms(2) by (simp add: modern_config_in_def)
qed

lemma modern_out_runs:
  assumes "vmmio_ok ops lg s" and "off = 0x30 \<longrightarrow> unat val < get_vq_count ops"
  shows "runs (vmmio_ok ops lg) (modern_config_out has_pio ops off val s)"
proof -
  have q: "unat (queue_sel (hdr s)) < get_vq_count ops" using assms(1) by (simp add: vmmio_ok_def)
  note h = vmmio_ok_hdr [OF assms(1)]
  have st: "runs (vmmio_ok ops lg) (notify_status ops dev set_dev (virtio_mmio_reset ops) (ucast val) (set_hdr (\<lambda>h. h\<lparr>hdr_status := val\<rparr>) s))"
    using h by (intro mmio_status_runs) simp
  have a: "runs (vmmio_ok ops lg) (set_vq_addr f s)" for f
    unfolding set_vq_addr_def by (rule on_upd_vq_ok [OF assms(1) q])
  have sel: "vmmio_ok ops lg (set_hdr (\<lambda>h. h\<lparr>queue_sel := val\<rparr>) s)" if "unat val < get_vq_count ops"
    using assms(1) that by (simp add: vmmio_ok_def set_hdr_def)
  show ?thesis
    using st a sel mmio_exit_vq_runs [OF assms(1) q] mmio_init_vq_runs [OF assms(1) q] h assms by (simp add: modern_config_out_def Let_def)
qed

text \<open>
  What happens to the transport: an access of the guest at an offset of its page, with the 8 bytes of the buffer, or a signal of the device.
\<close>

datatype vmmio_event = Guest u32 "u8 list" nat bool | Signal_vq | Signal_config | Doorbell nat

definition mmio_step :: "bool \<Rightarrow> virtio_ops \<Rightarrow> u16 \<Rightarrow> vmmio_event \<Rightarrow> virtio_mmio \<Rightarrow> virtio_mmio result" where
  "mmio_step has_pio ops e ev s =
     (case ev of
        Guest off data len is_wr \<Rightarrow>
          rbind (if is_legacy (dev s) then virtio_mmio_legacy_callback has_pio ops e (ucast (vm_addr s) + ucast off) data len is_wr s
                 else virtio_mmio_modern_callback has_pio ops (ucast (vm_addr s) + ucast off) data len is_wr s) (\<lambda>(_, s'). Inr s')
      | Signal_vq \<Rightarrow> Inr (virtio_mmio_signal_vq s)
      | Signal_config \<Rightarrow> Inr (virtio_mmio_signal_config s)
      | Doorbell q \<Rightarrow> virtio_mmio_ioevent_callback q s)"

text \<open>The only restriction is on the modern transport, and only on the queue selector.\<close>

definition mmio_allowed :: "virtio_ops \<Rightarrow> bool \<Rightarrow> vmmio_event \<Rightarrow> bool" where
  "mmio_allowed ops lg ev =
     (case ev of
        Guest off data len is_wr \<Rightarrow> length data = 8 \<and>
          (lg \<or> \<not> is_wr \<or> off \<noteq> 0x30 \<or> len \<noteq> 4 \<or> unat (le_word (take 4 data) :: u32) < get_vq_count ops)
      | Doorbell q \<Rightarrow> q < VIRTIO_MMIO_MAX_VQ
      | _ \<Rightarrow> True)"

lemma ucast_u32_id [simp]: "ucast (ucast (x :: u32) :: u64) = x"
  by (rule bit_word_eqI) (simp add: bit_simps)

lemma read32_ok: "length data = 8 \<Longrightarrow> read32 data = Inr (le_word (take 4 data))"
  by (simp add: read32_def memcpy_from_def)

lemma legacy_callback_runs:
  assumes "vmmio_ok ops lg s" and "length data = 8"
  shows "runs (\<lambda>(d, s'). vmmio_ok ops lg s') (virtio_mmio_legacy_callback has_pio ops e (ucast (vm_addr s) + ucast (off :: u32)) data len is_wr s)"
proof -
  have w: "runs (\<lambda>(d, s'). vmmio_ok ops lg s') (rbind (legacy_config_out has_pio ops e off v s) (\<lambda>s'. Inr (data, s')))" for v
    by (rule runs_bind [OF legacy_out_runs [OF assms(1)]]) simp
  have r: "runs (\<lambda>(d, s'). vmmio_ok ops lg s') (rbind (legacy_config_in ops off data s) (\<lambda>d. Inr (d, s)))"
    by (rule runs_bind [OF legacy_in_runs [OF assms]]) (use assms in simp)
  have c: "runs (\<lambda>(d, s'). vmmio_ok ops lg s') (config_access off data len is_wr s)"
    by (rule runs_mono [OF config_access_runs [OF assms]]) auto
  show ?thesis using w r c by (simp add: virtio_mmio_legacy_callback_def Let_def read32_ok [OF assms(2)])
qed

lemma modern_callback_runs:
  assumes "vmmio_ok ops lg s" and "length data = 8"
    and "is_wr \<longrightarrow> (off :: u32) = 0x30 \<longrightarrow> len = 4 \<longrightarrow> unat (le_word (take 4 data) :: u32) < get_vq_count ops"
  shows "runs (\<lambda>(d, s'). vmmio_ok ops lg s') (virtio_mmio_modern_callback has_pio ops (ucast (vm_addr s) + ucast off) data len is_wr s)"
proof -
  have w: "runs (\<lambda>(d, s'). vmmio_ok ops lg s') (rbind (modern_config_out has_pio ops off (le_word (take 4 data)) s) (\<lambda>s'. Inr (data, s')))"
    if "is_wr" "len = 4"
    by (rule runs_bind [OF modern_out_runs [OF assms(1)]]) (use assms(3) that in simp_all)
  have r: "runs (\<lambda>(d, s'). vmmio_ok ops lg s') (rbind (modern_config_in ops off data s) (\<lambda>d. Inr (d, s)))"
    by (rule runs_bind [OF modern_in_runs [OF assms(1,2)]]) (use assms(1) in simp)
  have c: "runs (\<lambda>(d, s'). vmmio_ok ops lg s') (config_access off data len is_wr s)"
    by (rule runs_mono [OF config_access_runs [OF assms(1,2)]]) auto
  show ?thesis using w r c assms(1) by (simp add: virtio_mmio_modern_callback_def Let_def read32_ok [OF assms(2)])
qed

lemma mmio_step_safe:
  assumes "vmmio_ok ops lg s" and "mmio_allowed ops lg ev"
  shows "runs (vmmio_ok ops lg) (mmio_step has_pio ops e ev s)"
proof (cases ev)
  case (Guest off data len is_wr)
  let ?m = "if is_legacy (dev s) then virtio_mmio_legacy_callback has_pio ops e (ucast (vm_addr s) + ucast off) data len is_wr s
    else virtio_mmio_modern_callback has_pio ops (ucast (vm_addr s) + ucast off) data len is_wr s"
  have "runs (\<lambda>(d, s'). vmmio_ok ops lg s') ?m"
    using assms Guest legacy_callback_runs [OF assms(1), of data] modern_callback_runs [OF assms(1), of data is_wr off len]
    by (auto simp: mmio_allowed_def vmmio_ok_def)
  then have "runs (vmmio_ok ops lg) (rbind ?m (\<lambda>(_, s'). Inr s'))" by (rule runs_bind) auto
  then show ?thesis using Guest by (simp add: mmio_step_def)
next
  case (Doorbell q)
  then show ?thesis using assms by (simp add: mmio_step_def mmio_allowed_def virtio_mmio_ioevent_callback_def vmmio_ok_def set_dev_def)
qed (use assms in \<open>simp_all add: mmio_step_def virtio_mmio_signal_vq_def virtio_mmio_signal_config_def vmmio_ok_def set_hdr_def\<close>)

interpretation vmmio: safe_device "vmmio_ok ops lg" "mmio_allowed ops lg" "mmio_step has_pio ops e" for ops lg has_pio e
  by unfold_locales (rule mmio_step_safe)

lemma virtio_mmio_init_vmmio_ok:
  assumes "virtio_mmio_init mem dev_id subsys_id d evs m0 = Inr (r, s, m)" and "dev_ok ops d" and "length (config d) < 2 ^ 63"
  shows "vmmio_ok ops (is_legacy d) s"
proof -
  have "dev s = (if is_legacy d then d else d\<lparr>endian := VIRTIO_ENDIAN_LE\<rparr>)" "length (io_params s) = 32" "queue_sel (hdr s) = 0"
    using assms(1)
    by (auto simp: virtio_mmio_init_def virtio_mmio_get_io_space_block_def Let_def rbind_eq_Inr_iff case_prod_unfold split: if_splits)
  with assms(2,3) show ?thesis by (auto simp: vmmio_ok_def dev_ok_def)
qed

text \<open>
  C14. From its set-up on, the register transport never leaves its arrays, whatever sequence of accesses, interrupts and
  doorbells happens and whether or not the kernel takes the event descriptors: on the legacy transport for every access of the
  guest, on the modern transport as long as the guest selects existing queues.
\<close>

theorem virtio_mmio_accesses_safe:
  assumes "virtio_mmio_init mem dev_id subsys_id d evs m0 = Inr (r, s, m)" and "dev_ok ops d" and "length (config d) < 2 ^ 63"
    and "\<forall>ev \<in> set events. mmio_allowed ops (is_legacy d) ev"
  shows "\<exists>s'. rfold (mmio_step has_pio ops e) events s = Inr s' \<and> vmmio_ok ops (is_legacy d) s'"
  using vmmio.run_safe [OF virtio_mmio_init_vmmio_ok [OF assms(1-3)] assms(4)] by (simp add: runs_iff)

definition sample_vdev :: "bool \<Rightarrow> vdev" where
  "sample_vdev lg = \<lparr>is_legacy = lg, use_vhost = False, endian = 0, core = \<lparr>features = 0, vstatus = 0\<rparr>,
     vqs = replicate 2 zero_vq, config = [1, 2, 3, 4], dev_calls = []\<rparr>"

definition sample_ops :: virtio_ops where
  "sample_ops = \<lparr>get_host_features = 0x20000001, get_vq_count = 2, get_size_vq = 16, has_exit_vq = True, has_notify_status = True,
     has_notify_vq_gsi = False, has_notify_vq_eventfd = False\<rparr>"

definition sample_events :: ioeventfds where
  "sample_events = \<lparr>ioeventfd_avail = True, used_ioevents = [], kernel_events = [], polled = [], io_answers = []\<rparr>"

definition sample_machine :: vmachine where
  "sample_machine = \<lparr>io_blocks = 0xd3000000, mbus = bus_init,
     irqs = \<lparr>next_line = 5, allocated_gsis = 0, next_gsi = 0, irq_routing = None, has_irq_routing = 0, cap_routing = True,
       msix_needs_devid = False, kernel_routes = [], answers = []\<rparr>, trees = device_trees_init\<rparr>"

definition wr :: "u32 \<Rightarrow> u32 \<Rightarrow> vmmio_event" where
  "wr off v = Guest off (le_bytes 4 v @ replicate 4 0) 4 True"

lemma wr_allowed: "mmio_allowed ops lg (wr off v) \<longleftrightarrow> lg \<or> off \<noteq> 0x30 \<or> unat v < get_vq_count ops"
  by (simp add: mmio_allowed_def wr_def le_word_bytes)

lemma sample_mmio_init_True:
  "case virtio_mmio_init True 7 2 (sample_vdev True) sample_events sample_machine of Inl e \<Rightarrow> False
   | Inr (r, s, m) \<Rightarrow> r = 0 \<and> dev s = sample_vdev True"
  by code_simp

lemma sample_mmio_init_False:
  "case virtio_mmio_init True 7 2 (sample_vdev False) sample_events sample_machine of Inl e \<Rightarrow> False
   | Inr (r, s, m) \<Rightarrow> r = 0 \<and> dev s = (sample_vdev False)\<lparr>endian := 1\<rparr>"
  by code_simp

lemma sample_mmio_init:
  "\<exists>s m. virtio_mmio_init True 7 2 (sample_vdev lg) sample_events sample_machine = Inr (0, s, m) \<and>
     dev s = (if lg then sample_vdev True else (sample_vdev False)\<lparr>endian := 1\<rparr>)"
  using sample_mmio_init_True sample_mmio_init_False by (cases lg) (auto split: sum.splits)

theorem virtio_mmio_accesses_safe_witness:
  "\<exists>s m s'. virtio_mmio_init True 7 2 (sample_vdev True) sample_events sample_machine = Inr (0, s, m) \<and>
     rfold (mmio_step True sample_ops 1) [wr 0x30 100, wr 0x40 5, Signal_vq, Doorbell 1, wr 0x70 0] s = Inr s' \<and> vmmio_ok sample_ops True s'"
proof -
  obtain s m where i: "virtio_mmio_init True 7 2 (sample_vdev True) sample_events sample_machine = Inr (0, s, m)"
    using sample_mmio_init [of True] by blast
  let ?evs = "[wr 0x30 100, wr 0x40 5, Signal_vq, Doorbell 1, wr 0x70 0]"
  have l: "is_legacy (sample_vdev True) = True" by (simp add: sample_vdev_def)
  have "\<forall>ev \<in> set ?evs. mmio_allowed sample_ops (is_legacy (sample_vdev True)) ev"
    using l by (simp add: wr_allowed) (simp add: mmio_allowed_def)
  moreover have d: "dev_ok sample_ops (sample_vdev True)" "length (config (sample_vdev True)) < 2 ^ 63"
    by (simp_all add: dev_ok_def sample_ops_def sample_vdev_def)
  ultimately have "\<exists>s'. rfold (mmio_step True sample_ops 1) ?evs s = Inr s' \<and> vmmio_ok sample_ops (is_legacy (sample_vdev True)) s'"
    by (intro virtio_mmio_accesses_safe [OF i])
  with i show ?thesis unfolding l by blast
qed

lemma modern_wr:
  assumes "\<not> is_legacy (dev s)" and "off < 0x100"
  shows "mmio_step has_pio ops e (wr off v) s = modern_config_out has_pio ops off v s"
  using assms
  by (simp add: mmio_step_def wr_def virtio_mmio_modern_callback_def Let_def read32_def memcpy_from_def le_word_bytes rbind_assoc
      not_le [symmetric]) (cases "modern_config_out has_pio ops off v s", simp_all)

text \<open>On the modern transport the selector is not checked: with it beyond the queues, the next write of an address goes outside the array.\<close>

lemma virtio_mmio_modern_selector_overflow:
  assumes "virtio_mmio_init mem dev_id subsys_id d evs m0 = Inr (0, s, m)" and "\<not> is_legacy d" and "length (vqs d) \<le> unat q"
  shows "rfold (mmio_step has_pio ops e) [wr 0x30 q, wr 0x80 v] s = Inl OutOfBounds"
proof -
  have d: "dev s = d\<lparr>endian := VIRTIO_ENDIAN_LE\<rparr>"
    using assms(1,2)
    by (auto simp: virtio_mmio_init_def virtio_mmio_get_io_space_block_def Let_def rbind_eq_Inr_iff case_prod_unfold split: if_splits)
  show ?thesis
    using assms(2,3) d
    by (simp add: modern_wr modern_config_out_def set_hdr_def set_vq_addr_def on_dev_def upd_vq_def aget_def)
qed

section \<open>Setting a queue up\<close>

text \<open>How a driver enables queue \<open>q\<close> with rings at the given addresses.\<close>

definition driver_setup :: "u32 \<Rightarrow> u64 \<Rightarrow> u64 \<Rightarrow> u64 \<Rightarrow> vmmio_event list" where
  "driver_setup q da aa ua =
     [wr 0x30 q, wr 0x80 (ucast da), wr 0x84 (ucast (drop_bit 32 da)), wr 0x90 (ucast aa), wr 0x94 (ucast (drop_bit 32 aa)),
      wr 0xa0 (ucast ua), wr 0xa4 (ucast (drop_bit 32 ua)), wr 0x44 1]"

lemma split64: "push_bit 32 (ucast (ucast (drop_bit 32 a) :: u32)) OR ucast (ucast a :: u32) = (a :: u64)"
  by (rule bit_word_eqI) (auto simp: bit_simps)

lemma addresses_split:
  assumes "\<not> legacy a"
  shows "virtio_vq_addresses n (a\<lparr>desc_lo := ucast d, desc_hi := ucast (drop_bit 32 d), avail_lo := ucast av, avail_hi := ucast (drop_bit 32 av),
      used_lo := ucast u, used_hi := ucast (drop_bit 32 u)\<rparr>) = (d, av, u)"
  using assms by (simp add: virtio_vq_addresses_def split64)

definition set_rings :: "u64 \<Rightarrow> u64 \<Rightarrow> u64 \<Rightarrow> dev_vq \<Rightarrow> dev_vq" where
  "set_rings d av u vq = vq\<lparr>vq_addr := (vq_addr vq)\<lparr>desc_lo := ucast d, desc_hi := ucast (drop_bit 32 d), avail_lo := ucast av,
     avail_hi := ucast (drop_bit 32 av), used_lo := ucast u, used_hi := ucast (drop_bit 32 u)\<rparr>\<rparr>"

text \<open>The writes before the last one: the addresses are in place and nothing else has changed.\<close>

lemma setup_addresses:
  assumes "vmmio_ok ops False s" and "unat q < get_vq_count ops"
  shows "rfold (mmio_step has_pio ops e) (butlast (driver_setup q da aa ua)) s =
     Inr (s\<lparr>hdr := (hdr s)\<lparr>queue_sel := q\<rparr>, dev := (dev s)\<lparr>vqs := (vqs (dev s))[unat q := set_rings da aa ua (vqs (dev s) ! unat q)]\<rparr>\<rparr>)"
proof -
  have l: "\<not> is_legacy (dev s)" "unat q < length (vqs (dev s))"
    using assms dev_ok_index [of ops "dev s" "unat q"] by (auto simp: vmmio_ok_def)
  show ?thesis
    using l by (simp add: driver_setup_def modern_wr modern_config_out_def set_hdr_def set_vq_addr_def on_dev_def upd_vq_def set_dev_def set_rings_def)
qed

lemma init_vq_enables:
  assumes "vmmio_ok ops lg s" and "q < get_vq_count ops" and "events_ok (ioev s)" and "ioeventfd_avail (ioev s)"
  shows "\<exists>s' ev. virtio_mmio_init_vq has_pio ops q s = Inr s' \<and>
     vqs (dev s') = (vqs (dev s))[q := virtio_init_device_vq (get_size_vq ops) (dev s) (vqs (dev s) ! q)] \<and> hdr s' = hdr s \<and> vm_addr s' = vm_addr s \<and>
     vmmio_ok ops lg s' \<and> events_ok (ioev s') \<and> ioeventfd_avail (ioev s') \<and> last (dev_calls (dev s')) = Init_vq q \<and>
     used_ioevents (ioev s') = used_ioevents (ioev s) @ [ev] \<and> io_addr ev = notify_addr s \<and> datamatch ev = of_nat q \<and> io_fn ev = q"
proof -
  let ?ev = "\<lparr>io_addr = notify_addr s, io_len = 4, io_fn = q, io_fd = next_fd s, datamatch = of_nat q, io_flags = 0\<rparr>"
  obtain evs fl where a: "ioeventfd_add_event has_pio ?ev (if use_vhost (dev s) then 0 else IOEVENTFD_FLAG_USER_POLL) (ioev s) = (0, evs)"
    "events_ok evs" "ioeventfd_avail evs" "used_ioevents evs = used_ioevents (ioev s) @ [?ev\<lparr>io_flags := fl\<rparr>]"
    using add_event_ok [OF assms(3,4)] by blast
  have q: "q < length (vqs (dev s))" "q < length (io_params s)"
    using assms(1,2) dev_ok_index [of ops "dev s" q] by (auto simp: vmmio_ok_def dev_ok_def)
  let ?s1 = "s\<lparr>io_params := (io_params s)[q := q], ioev := evs, next_fd := next_fd s + 1\<rparr>"
  let ?s2 = "if has_notify_vq_eventfd ops then set_dev (call_dev (Notify_vq_eventfd q (next_fd s)) (dev ?s1)) ?s1 else ?s1"
  have i: "virtio_mmio_init_ioeventfd has_pio ops q s = Inr (0, ?s2)"
    using a(1) q(2) by (simp add: virtio_mmio_init_ioeventfd_def Let_def)
  have d: "vqs (dev ?s2) = vqs (dev s)" "endian (dev ?s2) = endian (dev s)" "core (dev ?s2) = core (dev s)"
    "hdr ?s2 = hdr s" "vm_addr ?s2 = vm_addr s" "ioev ?s2 = evs"
    by (simp_all add: set_dev_def call_dev_def)
  have v: "virtio_init_device_vq n (dev ?s2) vq = virtio_init_device_vq n (dev s) vq" for n vq
    unfolding virtio_init_device_vq_def d ..
  let ?s3 = "set_dev (call_dev (Init_vq q) ((dev ?s2)\<lparr>vqs := (vqs (dev s))[q := virtio_init_device_vq (get_size_vq ops) (dev s) (vqs (dev s) ! q)]\<rparr>)) ?s2"
  have r: "virtio_mmio_init_vq has_pio ops q s = Inr ?s3"
    using q(1) d(1) v by (simp add: virtio_mmio_init_vq_def i on_dev_def init_vq_ok)
  have k: "vmmio_ok ops lg ?s3" using mmio_init_vq_runs [OF assms(1,2), of has_pio] unfolding r by simp
  have f: "hdr ?s3 = hdr s" "vm_addr ?s3 = vm_addr s" "ioev ?s3 = evs"
    "vqs (dev ?s3) = (vqs (dev s))[q := virtio_init_device_vq (get_size_vq ops) (dev s) (vqs (dev s) ! q)]"
    "last (dev_calls (dev ?s3)) = Init_vq q"
    using d by (simp_all add: set_dev_def call_dev_def)
  show ?thesis
    by (rule exI [of _ ?s3], rule exI [of _ "?ev\<lparr>io_flags := fl\<rparr>"]) (use r k f a in simp)
qed

lemma find_last: "\<forall>x \<in> set xs. \<not> P x \<Longrightarrow> P y \<Longrightarrow> find P (xs @ [y]) = Some y"
  by (induction xs) auto

lemma remove1_last: "y \<notin> set xs \<Longrightarrow> remove1 y (xs @ [y]) = xs"
  by (induction xs) auto

text \<open>
  C39. A driver can set a queue up and take it down again. On the modern transport, when the kernel takes event descriptors, the writes of the driver
  select the queue, give the six halves of the ring addresses and enable it: then the device has the
  queue with the full addresses and its size, with event indices as negotiated, all other queues
  are as before, and the kernel signals a descriptor for exactly one more address, the notification register with the number of the queue. Disabling the
  queue clears it and removes this registration and no other.
\<close>

theorem virtio_mmio_queue_setup:
  assumes "vmmio_ok ops False s" and "unat q < get_vq_count ops" and "events_ok (ioev s)" and "ioeventfd_avail (ioev s)"
    and "\<not> legacy (vq_addr (vqs (dev s) ! unat q))"
    and "\<forall>ev \<in> set (used_ioevents (ioev s)). \<not> (io_addr ev = notify_addr s \<and> datamatch ev = of_nat (unat q))"
  shows "\<exists>s1 s2 ev. rfold (mmio_step has_pio ops e) (driver_setup q da aa ua) s = Inr s1 \<and> mmio_step has_pio ops e (wr 0x44 0) s1 = Inr s2 \<and>
     vq_ring (vqs (dev s1) ! unat q) = Some (get_size_vq ops, da, aa, ua) \<and> vq_enabled (vqs (dev s1) ! unat q) \<and>
     vq_use_event_idx (vqs (dev s1) ! unat q) = flag (features (core (dev s))) 0x20000000 \<and>
     (\<forall>j. j \<noteq> unat q \<longrightarrow> vqs (dev s1) ! j = vqs (dev s) ! j) \<and>
     kernel_events (ioev s1) = kernel_events (ioev s) @ [ev] \<and> io_addr ev = notify_addr s \<and> datamatch ev = of_nat (unat q) \<and>
     vqs (dev s2) = (vqs (dev s))[unat q := zero_vq] \<and> kernel_events (ioev s2) = kernel_events (ioev s)"
proof -
  let ?q = "unat q"
  let ?v = "set_rings da aa ua (vqs (dev s) ! ?q)"
  let ?s0 = "s\<lparr>hdr := (hdr s)\<lparr>queue_sel := q\<rparr>, dev := (dev s)\<lparr>vqs := (vqs (dev s))[?q := ?v]\<rparr>\<rparr>"
  have n: "?q < length (vqs (dev s))" using assms(1,2) dev_ok_index [of ops "dev s" ?q] by (auto simp: vmmio_ok_def)
  have ok0: "vmmio_ok ops False ?s0" using assms(1,2) by (simp add: vmmio_ok_def)
  obtain s1 ev where s1: "virtio_mmio_init_vq has_pio ops ?q ?s0 = Inr s1"
    "vqs (dev s1) = (vqs (dev ?s0))[?q := virtio_init_device_vq (get_size_vq ops) (dev ?s0) (vqs (dev ?s0) ! ?q)]" "hdr s1 = hdr ?s0"
    "vm_addr s1 = vm_addr ?s0" "vmmio_ok ops False s1" "events_ok (ioev s1)" "ioeventfd_avail (ioev s1)"
    "used_ioevents (ioev s1) = used_ioevents (ioev ?s0) @ [ev]" "io_addr ev = notify_addr ?s0" "datamatch ev = of_nat ?q"
    using init_vq_enables [OF ok0 assms(2), of has_pio] assms(3,4) by auto
  have l0: "\<not> is_legacy (dev ?s0)" and l1: "\<not> is_legacy (dev s1)" using ok0 s1(5) by (simp_all add: vmmio_ok_def)
  have last: "driver_setup q da aa ua = butlast (driver_setup q da aa ua) @ [wr 0x44 1]" by (simp add: driver_setup_def)
  have "mmio_step has_pio ops e (wr 0x44 1) ?s0 = Inr s1" using l0 s1(1) by (simp add: modern_wr modern_config_out_def)
  then have run: "rfold (mmio_step has_pio ops e) (driver_setup q da aa ua) s = Inr s1"
    by (subst last) (simp add: rfold_append setup_addresses [OF assms(1,2)])
  have n1: "?q < length (vqs (dev s1))" using s1(2) n by simp
  have na: "notify_addr s1 = notify_addr s" "notify_addr ?s0 = notify_addr s" using s1(4) by (simp_all add: notify_addr_def)
  have ev: "io_addr ev = notify_addr s \<and> datamatch ev = of_nat ?q" using s1(9,10) na by simp
  have used: "used_ioevents (ioev s1) = used_ioevents (ioev s) @ [ev]" using s1(8) by simp
  have new: "ev \<notin> set (used_ioevents (ioev s))" using assms(6) ev by blast
  have k1: "kernel_events (ioev s1) = kernel_events (ioev s) @ [ev]" using used s1(6) assms(3) by (simp add: events_ok_def)
  have "find (\<lambda>x. io_addr x = notify_addr s \<and> datamatch x = of_nat ?q) (used_ioevents (ioev s1)) = Some ev"
    unfolding used using assms(6) ev by (rule find_last)
  then have del: "kernel_events (snd (ioeventfd_del_event (notify_addr s1) (of_nat ?q) (ioev s1))) = kernel_events (ioev s)"
    using na s1(7) k1 new assms(3) by (simp add: ioeventfd_del_event_def remove1_last events_ok_def)
  obtain s2 where s2: "virtio_mmio_exit_vq ops ?q s1 = Inr s2" "vqs (dev s2) = (vqs (dev s1))[?q := zero_vq]"
    "kernel_events (ioev s2) = kernel_events (ioev s)"
    using n1 del by (simp add: virtio_mmio_exit_vq_def on_dev_def exit_vq_ok set_dev_def)
  have step: "mmio_step has_pio ops e (wr 0x44 0) s1 = Inr s2"
    using l1 s1(3) s2(1) by (simp add: modern_wr modern_config_out_def)
  have vq: "vqs (dev s1) ! ?q = virtio_init_device_vq (get_size_vq ops) (dev ?s0) ?v" using s1(2) n by simp
  have addr: "virtio_vq_addresses (get_size_vq ops) (vq_addr ?v) = (da, aa, ua)"
    using addresses_split [OF assms(5)] by (simp add: set_rings_def)
  have "vqs (dev s2) = (vqs (dev s))[?q := zero_vq]" using s1(2) s2(2) by simp
  moreover have "\<forall>j. j \<noteq> ?q \<longrightarrow> vqs (dev s1) ! j = vqs (dev s) ! j" using s1(2) by simp
  ultimately show ?thesis
    using run step s2(3) k1 ev vq addr by (auto simp: virtio_init_device_vq_def)
qed

theorem virtio_mmio_queue_setup_witness:
  "\<exists>s m s1 s2. virtio_mmio_init True 7 2 (sample_vdev False) sample_events sample_machine = Inr (0, s, m) \<and>
     rfold (mmio_step True sample_ops 1) (driver_setup 1 0x100000000 0x200000040 0x4000) s = Inr s1 \<and>
     vq_ring (vqs (dev s1) ! 1) = Some (16, 0x100000000, 0x200000040, 0x4000) \<and>
     mmio_step True sample_ops 1 (wr 0x44 0) s1 = Inr s2 \<and> kernel_events (ioev s2) = []"
proof -
  obtain s m where i: "virtio_mmio_init True 7 2 (sample_vdev False) sample_events sample_machine = Inr (0, s, m)"
    "dev s = (sample_vdev False)\<lparr>endian := 1\<rparr>"
    using sample_mmio_init [of False] by auto
  have e: "ioev s = sample_events"
    using i(1) by (auto simp: virtio_mmio_init_def virtio_mmio_get_io_space_block_def Let_def rbind_eq_Inr_iff case_prod_unfold split: if_splits)
  have ok: "vmmio_ok sample_ops (is_legacy (sample_vdev False)) s"
    by (rule virtio_mmio_init_vmmio_ok [OF i(1)]) (simp_all add: dev_ok_def sample_ops_def sample_vdev_def)
  have "\<exists>s1 s2 ev. rfold (mmio_step True sample_ops 1) (driver_setup 1 0x100000000 0x200000040 0x4000) s = Inr s1 \<and>
     mmio_step True sample_ops 1 (wr 0x44 0) s1 = Inr s2 \<and>
     vq_ring (vqs (dev s1) ! unat (1 :: u32)) = Some (get_size_vq sample_ops, 0x100000000, 0x200000040, 0x4000) \<and> vq_enabled (vqs (dev s1) ! unat (1 :: u32)) \<and>
     vq_use_event_idx (vqs (dev s1) ! unat (1 :: u32)) = flag (features (core (dev s))) 0x20000000 \<and>
     (\<forall>j. j \<noteq> unat (1 :: u32) \<longrightarrow> vqs (dev s1) ! j = vqs (dev s) ! j) \<and>
     kernel_events (ioev s1) = kernel_events (ioev s) @ [ev] \<and> io_addr ev = notify_addr s \<and> datamatch ev = of_nat (unat (1 :: u32)) \<and>
     vqs (dev s2) = (vqs (dev s))[unat (1 :: u32) := zero_vq] \<and> kernel_events (ioev s2) = kernel_events (ioev s)"
    by (rule virtio_mmio_queue_setup)
      (use ok in \<open>simp_all add: e i(2) sample_vdev_def sample_ops_def sample_events_def events_ok_def zero_vq_def numeral_2_eq_2\<close>)
  then show ?thesis using i(1) e by (auto simp: sample_ops_def sample_events_def)
qed

end
