(* ===== verification/Vpci.thy ===== *)
theory Vpci
  imports Vmmio Pci
begin

text \<open>
  The virtio transport over PCI: \<^verbatim>\<open>virtio/pci.c\<close>, \<^verbatim>\<open>virtio/pci-legacy.c\<close> and \<^verbatim>\<open>virtio/pci-modern.c\<close>. Besides the registers of the device
  it has a table of message-signalled interrupts (MSI-X): the guest gives each queue a vector, an entry of the table, and the program
  gets a number for it from the table of routes of theory \<open>Irq\<close>. A signal of the device becomes a message, a number that the kernel
  routes, a pending bit while the vector is masked, or the level of the interrupt line. The table is kept as the bytes the guest sees.
\<close>

section \<open>State\<close>

datatype irq_signal = Msi u32 u32 u32 "u32 option" | Trigger u32 | Line u8 bool

record virtio_pci =
  pci_hdr :: pci_device_header
  vp_dev_num :: u32
  doorbell_offset :: u32
  signal_msi :: bool
  vp_status :: u8
  isr :: u8
  device_features_sel :: u32
  driver_features_sel :: u32
  legacy_irq_line :: u8
  config_vector :: u16
  config_gsi :: u32
  vq_vector :: "u16 list"
  gsis :: "u32 list"
  msix_pba :: u64
  msix_table :: "u8 list"
  queue_selector :: u16
  vp_params :: "nat list"
  vp_dev :: vdev
  vp_ioev :: ioeventfds
  vp_irqs :: irq_state
  vp_next_fd :: int
  sent :: "irq_signal list"

abbreviation (input) VIRTIO_PCI_MAX_VQ :: nat where "VIRTIO_PCI_MAX_VQ \<equiv> 32"
abbreviation (input) VIRTIO_NR_MSIX :: nat where "VIRTIO_NR_MSIX \<equiv> 33"
abbreviation (input) VIRTIO_MSIX_TABLE_SIZE :: nat where "VIRTIO_MSIX_TABLE_SIZE \<equiv> 528"
abbreviation (input) VIRTIO_MSI_NO_VECTOR :: u16 where "VIRTIO_MSI_NO_VECTOR \<equiv> 0xffff"
abbreviation (input) PCI_IO_SIZE :: u32 where "PCI_IO_SIZE \<equiv> 0x100"

text \<open>Fields of the configuration space; the capability of MSI-X lies at offset 0x40.\<close>

definition cfg16 :: "nat \<Rightarrow> pci_device_header \<Rightarrow> u16" where
  "cfg16 off h = le_word (take 2 (drop off (cfg h)))"

definition cfg32 :: "nat \<Rightarrow> pci_device_header \<Rightarrow> u32" where
  "cfg32 off h = le_word (take 4 (drop off (cfg h)))"

definition msix_ctrl :: "virtio_pci \<Rightarrow> u16" where
  "msix_ctrl s = cfg16 0x42 (pci_hdr s)"

definition virtio_pci_msix_enabled :: "virtio_pci \<Rightarrow> bool" where
  "virtio_pci_msix_enabled s = flag (msix_ctrl s) 0x8000"

definition virtio_pci_port_addr :: "virtio_pci \<Rightarrow> u16" where
  "virtio_pci_port_addr s = ucast (bar_address (cfg_bar (pci_hdr s) 0))"

definition virtio_pci_mmio_addr :: "virtio_pci \<Rightarrow> u32" where
  "virtio_pci_mmio_addr s = bar_address (cfg_bar (pci_hdr s) 1)"

definition virtio_pci_msix_io_addr :: "virtio_pci \<Rightarrow> u32" where
  "virtio_pci_msix_io_addr s = bar_address (cfg_bar (pci_hdr s) 2)"

definition vp_set_dev :: "vdev \<Rightarrow> virtio_pci \<Rightarrow> virtio_pci" where
  "vp_set_dev d s = s\<lparr>vp_dev := d\<rparr>"

definition vp_on_dev :: "(vdev \<Rightarrow> vdev result) \<Rightarrow> virtio_pci \<Rightarrow> virtio_pci result" where
  "vp_on_dev f s = rbind (f (vp_dev s)) (\<lambda>d. Inr (vp_set_dev d s))"

text \<open>Entry \<open>v\<close> of the table: message and control word.\<close>

definition table_word :: "nat \<Rightarrow> virtio_pci \<Rightarrow> u32 result" where
  "table_word off s = rbind (memcpy_from (msix_table s) off 4) (\<lambda>bs. Inr (le_word bs))"

definition table_msg :: "nat \<Rightarrow> virtio_pci \<Rightarrow> msi_msg result" where
  "table_msg v s =
     rbind (table_word (16 * v) s) (\<lambda>lo. rbind (table_word (16 * v + 4) s) (\<lambda>hi. rbind (table_word (16 * v + 8) s) (\<lambda>d.
     Inr \<lparr>address_lo = lo, address_hi = hi, msi_data = d\<rparr>)))"

section \<open>Routes\<close>

text \<open>The message is only read once it is known that the kernel has routes.\<close>

definition virtio_pci_add_msix_route :: "u16 \<Rightarrow> virtio_pci \<Rightarrow> (int \<times> virtio_pci) result" where
  "virtio_pci_add_msix_route vec s =
     (if vec = VIRTIO_MSI_NO_VECTOR then Inr (- EINVAL, s)
      else
        rbind (if fst (check_for_irq_routing (vp_irqs s)) then table_msg (unat vec) s
               else Inr \<lparr>address_lo = 0, address_hi = 0, msi_data = 0\<rparr>) (\<lambda>msg.
        rbind (irq_add_msix_route msg (push_bit 3 (vp_dev_num s)) (vp_irqs s)) (\<lambda>(gsi, irqs').
        let s' = s\<lparr>vp_irqs := irqs'\<rparr>
        in if gsi = - ENXIO \<and> signal_msi s then Inr (gsi, s')
           else if gsi < 0 then Inl Die
           else Inr (gsi, s'))))"

definition virtio_pci_del_msix_route :: "u32 \<Rightarrow> virtio_pci \<Rightarrow> virtio_pci result" where
  "virtio_pci_del_msix_route gsi s =
     rbind (irq_update_msix_route gsi \<lparr>address_lo = 0, address_hi = 0, msi_data = 0\<rparr> (vp_irqs s)) (\<lambda>irqs'. Inr (s\<lparr>vp_irqs := irqs'\<rparr>))"

section \<open>Queues\<close>

definition port_doorbell :: "virtio_pci \<Rightarrow> u64" where
  "port_doorbell s = ucast (virtio_pci_port_addr s) + ucast (doorbell_offset s)"

definition mmio_doorbell :: "virtio_pci \<Rightarrow> u64" where
  "mmio_doorbell s = ucast (virtio_pci_mmio_addr s) + ucast (doorbell_offset s)"

definition virtio_pci_init_ioeventfd :: "bool \<Rightarrow> virtio_ops \<Rightarrow> nat \<Rightarrow> virtio_pci \<Rightarrow> (int \<times> virtio_pci) result" where
  "virtio_pci_init_ioeventfd has_pio ops q s =
     rbind (aset (vp_params s) q q) (\<lambda>ps.
     let fl = (if use_vhost (vp_dev s) then 0 else IOEVENTFD_FLAG_USER_POLL);
         pio_fd = vp_next_fd s; mmio_fd = vp_next_fd s + 1;
         ev = \<lparr>io_addr = port_doorbell s, io_len = 2, io_fn = q, io_fd = pio_fd, datamatch = of_nat q, io_flags = 0\<rparr>;
         (r1, evs1) = ioeventfd_add_event has_pio ev (fl OR IOEVENTFD_FLAG_PIO) (vp_ioev s)
     in if r1 \<noteq> 0 then Inr (r1, s\<lparr>vp_params := ps, vp_ioev := evs1, vp_next_fd := pio_fd + 1\<rparr>)
        else
          let (r2, evs2) = ioeventfd_add_event has_pio (ev\<lparr>io_addr := mmio_doorbell s, io_fd := mmio_fd\<rparr>) fl evs1;
              s' = s\<lparr>vp_params := ps, vp_next_fd := mmio_fd + 1\<rparr>
          in if r2 \<noteq> 0 then Inr (r2, s'\<lparr>vp_ioev := snd (ioeventfd_del_event (port_doorbell s) (of_nat q) evs2)\<rparr>)
             else
               let s2 = s'\<lparr>vp_ioev := evs2\<rparr>
               in Inr (0, if has_notify_vq_eventfd ops
                          then vp_set_dev (call_dev (Notify_vq_eventfd q (if is_legacy (vp_dev s) then pio_fd else mmio_fd)) (vp_dev s2)) s2
                          else s2))"

definition virtio_pci_init_vq :: "bool \<Rightarrow> virtio_ops \<Rightarrow> nat \<Rightarrow> virtio_pci \<Rightarrow> virtio_pci result" where
  "virtio_pci_init_vq has_pio ops q s =
     rbind (virtio_pci_init_ioeventfd has_pio ops q s) (\<lambda>(r, s').
     if r \<noteq> 0 then Inr s' else vp_on_dev (init_vq ops q) s')"

definition virtio_pci_exit_vq :: "virtio_ops \<Rightarrow> nat \<Rightarrow> virtio_pci \<Rightarrow> virtio_pci result" where
  "virtio_pci_exit_vq ops q s =
     rbind (aget (gsis s) q) (\<lambda>g.
     rbind (virtio_pci_del_msix_route g s) (\<lambda>s1.
     rbind (aset (gsis s1) q 0) (\<lambda>gs.
     rbind (aset (vq_vector s1) q VIRTIO_MSI_NO_VECTOR) (\<lambda>vs.
     let evs = snd (ioeventfd_del_event (mmio_doorbell s1) (of_nat q) (vp_ioev s1));
         evs' = snd (ioeventfd_del_event (port_doorbell s1) (of_nat q) evs)
     in vp_on_dev (virtio_exit_vq ops q) (s1\<lparr>gsis := gs, vq_vector := vs, vp_ioev := evs'\<rparr>)))))"

definition virtio_pci_reset :: "virtio_ops \<Rightarrow> virtio_pci \<Rightarrow> virtio_pci result" where
  "virtio_pci_reset ops s =
     rbind (virtio_pci_del_msix_route (config_gsi s) s) (\<lambda>s1.
     rfold (virtio_pci_exit_vq ops) [0..<get_vq_count ops] (s1\<lparr>config_gsi := 0, config_vector := VIRTIO_MSI_NO_VECTOR\<rparr>))"

section \<open>The table of messages\<close>

text \<open>The number that belongs to a vector: that of the configuration, or of the first queue with it.\<close>

fun first_index :: "u16 list \<Rightarrow> nat \<Rightarrow> nat option" where
  "first_index [] v = None"
| "first_index (x # xs) v = (if unat x = v then Some 0 else map_option Suc (first_index xs v))"

definition vector_gsi :: "nat \<Rightarrow> virtio_pci \<Rightarrow> u32 option result" where
  "vector_gsi vecnum s =
     (if vecnum = unat (config_vector s) then Inr (Some (config_gsi s))
      else (case first_index (vq_vector s) vecnum of None \<Rightarrow> Inr None | Some i \<Rightarrow> rbind (aget (gsis s) i) (\<lambda>g. Inr (Some g))))"

definition update_msix_map :: "nat \<Rightarrow> virtio_pci \<Rightarrow> virtio_pci result" where
  "update_msix_map vecnum s =
     rbind (vector_gsi vecnum s) (\<lambda>g.
     case g of None \<Rightarrow> Inr s
     | Some gsi \<Rightarrow>
        if gsi = 0 then Inr s
        else rbind (table_msg vecnum s) (\<lambda>msg. rbind (irq_update_msix_route gsi msg (vp_irqs s)) (\<lambda>irqs'. Inr (s\<lparr>vp_irqs := irqs'\<rparr>))))"

definition virtio_pci_msix_mmio_callback ::
  "u64 \<Rightarrow> u8 list \<Rightarrow> nat \<Rightarrow> bool \<Rightarrow> virtio_pci \<Rightarrow> (u8 list \<times> virtio_pci) result" where
  "virtio_pci_msix_mmio_callback addr data len is_wr s =
     (let base = ucast (virtio_pci_msix_io_addr s) :: u64;
          pba = ucast (virtio_pci_msix_io_addr s + (cfg32 0x48 (pci_hdr s) AND NOT 7)) :: u64
      in if pba \<le> addr
         then (if is_wr then Inr (data, s)
               else
                 let offset = unat (addr - pba)
                 in if 8 < offset + len then Inr (data, s)
                    else rbind (memcpy_from (le_bytes 8 (msix_pba s)) offset len) (\<lambda>bs. Inr (bs @ drop len data, s)))
         else
           let offset = unat (addr - base); vecnum = offset div 16; rest = offset mod 16
           in if \<not> is_wr then rbind (memcpy_from (msix_table s) offset len) (\<lambda>bs. Inr (bs @ drop len data, s))
              else rbind (memcpy_to (msix_table s) offset (take len data)) (\<lambda>t.
                   let s' = s\<lparr>msix_table := t\<rparr>
                   in if rest < 12 then rbind (update_msix_map vecnum s') (\<lambda>s2. Inr (data, s2)) else Inr (data, s')))"

section \<open>Signals\<close>

definition virtio_pci_signal_msi :: "nat \<Rightarrow> virtio_pci \<Rightarrow> virtio_pci result" where
  "virtio_pci_signal_msi vec s =
     rbind (table_msg vec s) (\<lambda>msg.
     Inr (s\<lparr>sent := sent s @ [Msi (address_lo msg) (address_hi msg) (msi_data msg)
        (if msix_needs_devid (vp_irqs s) then Some (push_bit 3 (vp_dev_num s)) else None)]\<rparr>))"

text \<open>
  \<^verbatim>\<open>vpci->msix_pba |= 1 << tbl\<close>: the 1 is an \<^verbatim>\<open>int\<close>, whose bit 31 is extended to the upper half; a shift by 32 is undefined.
\<close>

definition pba_bit :: "nat \<Rightarrow> u64 result" where
  "pba_bit tbl = (if tbl < 32 then Inr (scast (push_bit tbl 1 :: u32)) else Inl SignedOverflow)"

definition signal_vector :: "u16 \<Rightarrow> u32 \<Rightarrow> u8 \<Rightarrow> virtio_pci \<Rightarrow> virtio_pci result" where
  "signal_vector vec gsi isr_bit s =
     (let tbl = unat vec in
      if virtio_pci_msix_enabled s \<and> vec \<noteq> VIRTIO_MSI_NO_VECTOR
      then rbind (if flag (msix_ctrl s) 0x4000 then Inr True
                  else rbind (table_word (16 * tbl + 12) s) (\<lambda>c. Inr (flag c 1))) (\<lambda>masked.
           if masked then rbind (pba_bit tbl) (\<lambda>b. Inr (s\<lparr>msix_pba := msix_pba s OR b\<rparr>))
           else if signal_msi s then virtio_pci_signal_msi tbl s
           else Inr (s\<lparr>sent := sent s @ [Trigger gsi]\<rparr>))
      else Inr (s\<lparr>isr := isr s OR isr_bit, sent := sent s @ [Line (legacy_irq_line s) True]\<rparr>))"

definition virtio_pci_signal_vq :: "nat \<Rightarrow> virtio_pci \<Rightarrow> virtio_pci result" where
  "virtio_pci_signal_vq q s =
     rbind (aget (vq_vector s) q) (\<lambda>vec. rbind (aget (gsis s) q) (\<lambda>gsi. signal_vector vec gsi 1 s))"

definition virtio_pci_signal_config :: "virtio_pci \<Rightarrow> virtio_pci result" where
  "virtio_pci_signal_config s = signal_vector (config_vector s) (config_gsi s) 2 s"

definition virtio_pci_ioevent_callback :: "nat \<Rightarrow> virtio_pci \<Rightarrow> virtio_pci result" where
  "virtio_pci_ioevent_callback i s = rbind (aget (vp_params s) i) (\<lambda>q. Inr (vp_set_dev (call_dev (Notify_vq q) (vp_dev s)) s))"

text \<open>Reading the cause of an interrupt clears it and lowers the line.\<close>

definition read_isr :: "virtio_pci \<Rightarrow> virtio_pci" where
  "read_isr s = s\<lparr>isr := 0, sent := sent s @ [Line (legacy_irq_line s) False]\<rparr>"

section \<open>Legacy registers\<close>

definition write16 :: "u8 list \<Rightarrow> u16 \<Rightarrow> u8 list result" where
  "write16 data v = memcpy_to data 0 (le_bytes 2 v)"

definition write8 :: "u8 list \<Rightarrow> u8 \<Rightarrow> u8 list result" where
  "write8 data v = memcpy_to data 0 [v]"

definition read16 :: "u8 list \<Rightarrow> u16 result" where
  "read16 data = rbind (memcpy_from data 0 2) (\<lambda>bs. Inr (le_word bs))"

definition read8 :: "u8 list \<Rightarrow> u8 result" where
  "read8 data = aget data 0"

text \<open>A read that does not change the state.\<close>

definition show_reg :: "u8 list result \<Rightarrow> virtio_pci \<Rightarrow> (u8 list \<times> virtio_pci) result" where
  "show_reg r s = rbind r (\<lambda>d. Inr (d, s))"

definition vp_config :: "u64 \<Rightarrow> u8 list \<Rightarrow> nat \<Rightarrow> bool \<Rightarrow> virtio_pci \<Rightarrow> (u8 list \<times> virtio_pci) result" where
  "vp_config offset data len is_wr s = rbind (access_config offset data len is_wr (vp_dev s)) (\<lambda>(data', d). Inr (data', vp_set_dev d s))"

text \<open>
  The offset is converted to \<^verbatim>\<open>int\<close>; the configuration of the device starts at 20, or at 24 once MSI-X is enabled.
\<close>

definition virtio_pci_specific_data_in :: "u64 \<Rightarrow> u8 list \<Rightarrow> nat \<Rightarrow> virtio_pci \<Rightarrow> (u8 list \<times> virtio_pci) result" where
  "virtio_pci_specific_data_in offset data len s =
     (case virtio_get_dev_specific_field (sint (ucast (offset - 20) :: u32)) (virtio_pci_msix_enabled s) of
        (True, _) \<Rightarrow>
          if offset = 20 then show_reg (write16 data (config_vector s)) s
          else if offset = 22 then show_reg (rbind (aget (vq_vector s) (unat (queue_selector s))) (write16 data)) s
          else Inr (data, s)
      | (False, c) \<Rightarrow> vp_config (ucast (word_of_int c :: u32)) data len False s)"

definition virtio_pci_data_in :: "virtio_ops \<Rightarrow> u64 \<Rightarrow> u8 list \<Rightarrow> nat \<Rightarrow> virtio_pci \<Rightarrow> (u8 list \<times> virtio_pci) result" where
  "virtio_pci_data_in ops offset data len s =
     (if offset = 0 then show_reg (write32 data (ucast (get_host_features ops))) s
      else if offset = 8 then
        show_reg (rbind (aget (vqs (vp_dev s)) (unat (queue_selector s))) (\<lambda>vq. write32 data (pfn (vq_addr vq)))) s
      else if offset = 12 then show_reg (write16 data (of_nat (get_size_vq ops))) s
      else if offset = 18 then show_reg (write8 data (vp_status s)) s
      else if offset = 19 then rbind (write8 data (isr s)) (\<lambda>d. Inr (d, read_isr s))
      else virtio_pci_specific_data_in offset data len s)"

text \<open>Giving the selected queue a vector; \<^verbatim>\<open>legacy\<close> keeps the number in an \<^verbatim>\<open>int\<close> and sees an error, modern in an unsigned variable and does not.\<close>

definition set_queue_vector :: "virtio_ops \<Rightarrow> u16 \<Rightarrow> virtio_pci \<Rightarrow> virtio_pci result" where
  "set_queue_vector ops vec s =
     (let q = unat (queue_selector s) in
      rbind (aset (vq_vector s) q vec) (\<lambda>vs.
      rbind (virtio_pci_add_msix_route vec (s\<lparr>vq_vector := vs\<rparr>)) (\<lambda>(gsi, s1).
      if is_legacy (vp_dev s) \<and> gsi < 0 then Inr s1
      else rbind (aset (gsis s1) q (word_of_int gsi)) (\<lambda>gs.
           let s2 = s1\<lparr>gsis := gs\<rparr>
           in Inr (if has_notify_vq_gsi ops then vp_set_dev (call_dev (Notify_vq_gsi q (word_of_int gsi)) (vp_dev s2)) s2 else s2)))))"

definition set_config_vector :: "u16 \<Rightarrow> virtio_pci \<Rightarrow> virtio_pci result" where
  "set_config_vector vec s =
     rbind (virtio_pci_add_msix_route vec (s\<lparr>config_vector := vec\<rparr>)) (\<lambda>(gsi, s1).
     Inr (if is_legacy (vp_dev s) \<and> gsi < 0 then s1 else s1\<lparr>config_gsi := word_of_int gsi\<rparr>))"

definition virtio_pci_specific_data_out :: "virtio_ops \<Rightarrow> u64 \<Rightarrow> u8 list \<Rightarrow> nat \<Rightarrow> virtio_pci \<Rightarrow> virtio_pci result" where
  "virtio_pci_specific_data_out ops offset data len s =
     (case virtio_get_dev_specific_field (sint (ucast (offset - 20) :: u32)) (virtio_pci_msix_enabled s) of
        (True, _) \<Rightarrow>
          if offset = 20 then rbind (read16 data) (\<lambda>v. set_config_vector v s)
          else if offset = 22 then rbind (read16 data) (\<lambda>v. set_queue_vector ops v s)
          else Inr s
      | (False, c) \<Rightarrow> rbind (vp_config (ucast (word_of_int c :: u32)) data len True s) (\<lambda>(_, s'). Inr s'))"

definition virtio_pci_data_out :: "bool \<Rightarrow> virtio_ops \<Rightarrow> u16 \<Rightarrow> u64 \<Rightarrow> u8 list \<Rightarrow> nat \<Rightarrow> virtio_pci \<Rightarrow> virtio_pci result" where
  "virtio_pci_data_out has_pio ops cpu_endian offset data len s =
     (let q = unat (queue_selector s) in
      if offset = 4 then rbind (read32 data) (\<lambda>val. Inr (vp_set_dev (set_features (ucast val) (vp_dev s)) s))
      else if offset = 8 then
        rbind (read32 data) (\<lambda>val.
        if val \<noteq> 0
        then rbind (vp_on_dev (upd_vq q (\<lambda>vq. vq\<lparr>vq_addr := (vq_addr zero_vq)\<lparr>legacy := True, pfn := val, vr_align := 4096,
               pgsize := 4096\<rparr>\<rparr>)) s) (virtio_pci_init_vq has_pio ops q)
        else virtio_pci_exit_vq ops q s)
      else if offset = 14 then
        rbind (read16 data) (\<lambda>val. Inr (if get_vq_count ops \<le> unat val then s else s\<lparr>queue_selector := val\<rparr>))
      else if offset = 16 then
        rbind (read16 data) (\<lambda>val.
        Inr (if get_vq_count ops \<le> unat val then s else vp_set_dev (call_dev (Notify_vq (unat val)) (vp_dev s)) s))
      else if offset = 18 then
        rbind (read8 data) (\<lambda>val.
        let s1 = s\<lparr>vp_status := val\<rparr>; s2 = (if val = 0 then vp_set_dev ((vp_dev s1)\<lparr>endian := cpu_endian\<rparr>) s1 else s1)
        in notify_status ops vp_dev vp_set_dev (virtio_pci_reset ops) val s2)
      else virtio_pci_specific_data_out ops offset data len s)"

definition virtio_pci_legacy_io_mmio_callback ::
  "bool \<Rightarrow> virtio_ops \<Rightarrow> u16 \<Rightarrow> u64 \<Rightarrow> u8 list \<Rightarrow> nat \<Rightarrow> bool \<Rightarrow> virtio_pci \<Rightarrow> (u8 list \<times> virtio_pci) result" where
  "virtio_pci_legacy_io_mmio_callback has_pio ops cpu_endian addr data len is_wr s =
     (let ioport_addr = ucast (virtio_pci_port_addr s) :: u32;
          base = ucast (if ucast ioport_addr \<le> addr \<and> addr < ucast (ioport_addr + bar_size (pci_hdr s) ! 0) then ioport_addr
                        else virtio_pci_mmio_addr s)
      in if \<not> is_wr then virtio_pci_data_in ops (addr - base) data len s
         else rbind (virtio_pci_data_out has_pio ops cpu_endian (addr - base) data len s) (\<lambda>s'. Inr (data, s')))"

section \<open>Modern registers\<close>

definition vp_set_vq_addr :: "(vring_addr \<Rightarrow> vring_addr) \<Rightarrow> virtio_pci \<Rightarrow> virtio_pci result" where
  "vp_set_vq_addr f s = vp_on_dev (upd_vq (unat (queue_selector s)) (\<lambda>vq. vq\<lparr>vq_addr := f (vq_addr vq)\<rparr>)) s"

definition virtio_pci_common_write :: "bool \<Rightarrow> virtio_ops \<Rightarrow> u64 \<Rightarrow> u8 list \<Rightarrow> virtio_pci \<Rightarrow> virtio_pci result" where
  "virtio_pci_common_write has_pio ops off data s =
     (let q = unat (queue_selector s) in
      if off = 0 then rbind (read32 data) (\<lambda>v. Inr (s\<lparr>device_features_sel := v\<rparr>))
      else if off = 8 then rbind (read32 data) (\<lambda>v. Inr (s\<lparr>driver_features_sel := v\<rparr>))
      else if off = 12 then
        rbind (read32 data) (\<lambda>v.
        Inr (if 1 < driver_features_sel s then s
             else vp_set_dev (set_features (push_bit (32 * unat (driver_features_sel s)) (ucast v)) (vp_dev s)) s))
      else if off = 16 then rbind (read16 data) (\<lambda>v. set_config_vector v s)
      else if off = 20 then
        rbind (read8 data) (\<lambda>v. notify_status ops vp_dev vp_set_dev (virtio_pci_reset ops) v (s\<lparr>vp_status := v\<rparr>))
      else if off = 22 then
        rbind (read16 data) (\<lambda>v. Inr (if get_vq_count ops \<le> unat v then s else s\<lparr>queue_selector := v\<rparr>))
      else if off = 24 then rbind (read16 data) (\<lambda>v. Inr (vp_set_dev (call_dev (Set_size_vq q (ucast v)) (vp_dev s)) s))
      else if off = 26 then rbind (read16 data) (\<lambda>v. set_queue_vector ops v s)
      else if off = 28 then
        rbind (read16 data) (\<lambda>v. if v \<noteq> 0 then virtio_pci_init_vq has_pio ops q s else virtio_pci_exit_vq ops q s)
      else if off = 32 then rbind (read32 data) (\<lambda>v. vp_set_vq_addr (\<lambda>a. a\<lparr>desc_lo := v\<rparr>) s)
      else if off = 36 then rbind (read32 data) (\<lambda>v. vp_set_vq_addr (\<lambda>a. a\<lparr>desc_hi := v\<rparr>) s)
      else if off = 40 then rbind (read32 data) (\<lambda>v. vp_set_vq_addr (\<lambda>a. a\<lparr>avail_lo := v\<rparr>) s)
      else if off = 44 then rbind (read32 data) (\<lambda>v. vp_set_vq_addr (\<lambda>a. a\<lparr>avail_hi := v\<rparr>) s)
      else if off = 48 then rbind (read32 data) (\<lambda>v. vp_set_vq_addr (\<lambda>a. a\<lparr>used_lo := v\<rparr>) s)
      else if off = 52 then rbind (read32 data) (\<lambda>v. vp_set_vq_addr (\<lambda>a. a\<lparr>used_hi := v\<rparr>) s)
      else Inr s)"

definition virtio_pci_common_read :: "virtio_ops \<Rightarrow> u64 \<Rightarrow> u8 list \<Rightarrow> virtio_pci \<Rightarrow> u8 list result" where
  "virtio_pci_common_read ops off data s =
     (let vq = aget (vqs (vp_dev s)) (unat (queue_selector s)) in
      if off = 0 then write32 data (device_features_sel s)
      else if off = 4 then (if 1 < device_features_sel s then Inr data else write32 data (modern_features ops (device_features_sel s)))
      else if off = 8 then write32 data (driver_features_sel s)
      else if off = 16 then write32 data (ucast (config_vector s))
      else if off = 18 then write32 data (of_nat (get_vq_count ops))
      else if off = 20 then write8 data (vp_status s)
      else if off = 21 then write8 data 0
      else if off = 22 then write16 data (queue_selector s)
      else if off = 24 then write16 data (of_nat (get_size_vq ops))
      else if off = 26 then rbind (aget (vq_vector s) (unat (queue_selector s))) (write16 data)
      else if off = 28 then rbind vq (\<lambda>v. write16 data (of_bool (vq_enabled v)))
      else if off = 30 then write16 data (queue_selector s)
      else if off = 32 then rbind vq (\<lambda>v. write32 data (desc_lo (vq_addr v)))
      else if off = 36 then rbind vq (\<lambda>v. write32 data (desc_hi (vq_addr v)))
      else if off = 40 then rbind vq (\<lambda>v. write32 data (avail_lo (vq_addr v)))
      else if off = 44 then rbind vq (\<lambda>v. write32 data (avail_hi (vq_addr v)))
      else if off = 48 then rbind vq (\<lambda>v. write32 data (used_lo (vq_addr v)))
      else if off = 52 then rbind vq (\<lambda>v. write32 data (used_hi (vq_addr v)))
      else Inr data)"

definition virtio_pci_notify_write :: "u8 list \<Rightarrow> virtio_pci \<Rightarrow> virtio_pci result" where
  "virtio_pci_notify_write data s = rbind (read16 data) (\<lambda>q. Inr (vp_set_dev (call_dev (Notify_vq (unat q)) (vp_dev s)) s))"

definition virtio_pci_isr_read :: "u64 \<Rightarrow> u8 list \<Rightarrow> virtio_pci \<Rightarrow> (u8 list \<times> virtio_pci) result" where
  "virtio_pci_isr_read offset data s =
     (if offset - 60 \<noteq> 0 then Inr (data, s) else rbind (write8 data (isr s)) (\<lambda>d. Inr (d, read_isr s)))"

text \<open>The regions: 56 bytes of common registers, 4 of notification, 4 of interrupt cause, and the configuration up to byte 255.\<close>

definition virtio_pci_access ::
  "bool \<Rightarrow> virtio_ops \<Rightarrow> u64 \<Rightarrow> u8 list \<Rightarrow> nat \<Rightarrow> bool \<Rightarrow> virtio_pci \<Rightarrow> (u8 list \<times> virtio_pci) result" where
  "virtio_pci_access has_pio ops offset data len is_wr s =
     (if offset \<le> 55 then
        (if is_wr then rbind (virtio_pci_common_write has_pio ops offset data s) (\<lambda>s'. Inr (data, s'))
         else show_reg (virtio_pci_common_read ops offset data s) s)
      else if offset \<le> 59 then (if is_wr then rbind (virtio_pci_notify_write data s) (\<lambda>s'. Inr (data, s')) else Inr (data, s))
      else if offset \<le> 63 then (if \<not> is_wr then virtio_pci_isr_read offset data s else Inr (data, s))
      else if offset \<le> 255 then vp_config (offset - 64) data len is_wr s
      else Inr (data, s))"

definition virtio_pci_modern_io_mmio_callback ::
  "bool \<Rightarrow> virtio_ops \<Rightarrow> u64 \<Rightarrow> u8 list \<Rightarrow> nat \<Rightarrow> bool \<Rightarrow> virtio_pci \<Rightarrow> (u8 list \<times> virtio_pci) result" where
  "virtio_pci_modern_io_mmio_callback has_pio ops addr data len is_wr s =
     virtio_pci_access has_pio ops (addr - ucast (virtio_pci_mmio_addr s)) data len is_wr s"

section \<open>Set-up\<close>

text \<open>
  The regions on the bus of theory \<open>Mmio\<close>; the handlers are numbered 1 and 2 for the registers (legacy and modern) and 3 for the table of messages. The world of
  the PCI layer is the bus, or the fault of a bus operation.
\<close>

definition on_bus :: "(mmio_bus \<Rightarrow> (int \<times> mmio_bus) result) \<Rightarrow> mmio_bus result \<Rightarrow> int \<times> mmio_bus result" where
  "on_bus f w = (case rbind w f of Inl e \<Rightarrow> (-1, Inl e) | Inr (r, b) \<Rightarrow> (r, Inr b))"

definition virtio_pci_bar_activate :: "bool \<Rightarrow> nat \<Rightarrow> bool \<Rightarrow> pci_device_header \<Rightarrow> nat \<Rightarrow> mmio_bus \<Rightarrow> (int \<times> mmio_bus) result" where
  "virtio_pci_bar_activate mem dev_id lg h i b =
     (let a = ucast (bar_address (cfg_bar h i)) :: u64; n = ucast (bar_size h ! i) :: u64; fn = (if lg then 1 else 2)
      in if 2 < i then Inl Die
         else if i = 0 then kvm_register_iotrap mem 0 (ucast (ucast a :: u16)) (ucast (ucast n :: u16)) fn dev_id 2 b
         else if i = 1 then kvm_register_iotrap mem 0 a n fn dev_id 1 b
         else kvm_register_iotrap mem 0 a n 3 dev_id 1 b)"

definition virtio_pci_bar_deactivate :: "pci_device_header \<Rightarrow> nat \<Rightarrow> mmio_bus \<Rightarrow> (int \<times> mmio_bus) result" where
  "virtio_pci_bar_deactivate h i b =
     (let a = ucast (bar_address (cfg_bar h i)) :: u64
      in if 2 < i then Inl Die
         else if i = 0 then rbind (kvm_deregister_iotrap (ucast (ucast a :: u16)) 2 b) (\<lambda>(ok, b'). Inr (of_bool ok, b'))
         else rbind (kvm_deregister_iotrap a 1 b) (\<lambda>(ok, b'). Inr (if ok then 0 else - ENOENT, b')))"

definition virtio_pci_bar_fns :: "bool \<Rightarrow> nat \<Rightarrow> bool \<Rightarrow> (mmio_bus result) bar_fns" where
  "virtio_pci_bar_fns mem dev_id lg activate n i h =
     on_bus (if activate then virtio_pci_bar_activate mem dev_id lg h i else virtio_pci_bar_deactivate h i)"

record vpmachine = vmachine +
  port_blocks :: u16
  mmio_blocks :: u32

definition set_cfg :: "(nat \<times> u8 list) list \<Rightarrow> pci_device_header \<Rightarrow> pci_device_header" where
  "set_cfg ws h = h\<lparr>cfg := stored ws (cfg h)\<rparr>"

definition vp_header :: "bool \<Rightarrow> u16 \<Rightarrow> u16 \<Rightarrow> u32 \<Rightarrow> u16 \<Rightarrow> u32 \<Rightarrow> u32 \<Rightarrow> pci_device_header" where
  "vp_header lg dev_id subsys cls port mmio msix =
     set_cfg
       [(0x00, le_bytes 2 (0x1af4 :: u16)), (0x02, le_bytes 2 dev_id), (0x04, le_bytes 2 (3 :: u16)), (0x06, le_bytes 2 (0x10 :: u16)),
        (0x08, [if lg then 0 else 1]), (0x09, le_bytes 3 cls), (0x0e, [0]), (0x10, le_bytes 4 ((ucast port :: u32) OR 1)), (0x14, le_bytes 4 mmio),
        (0x18, le_bytes 4 msix), (0x2c, le_bytes 2 (0x1af4 :: u16)), (0x2e, le_bytes 2 subsys), (0x34, [0x40])]
       \<lparr>cfg = replicate 256 0, bar_size = [PCI_IO_SIZE, PCI_IO_SIZE, 0x400, 0, 0, 0], bar_active = replicate 6 False\<rparr>"

definition virtio_pci_cap :: "u8 \<Rightarrow> u8 \<Rightarrow> u8 \<Rightarrow> u8 \<Rightarrow> u32 \<Rightarrow> u32 \<Rightarrow> u8 list" where
  "virtio_pci_cap next len type bar off n = [9, next, len, type, bar, 0, 0, 0] @ le_bytes 4 off @ le_bytes 4 n"

text \<open>The capabilities of the modern transport; they follow the PCI Express capability, which has 36 bytes.\<close>

definition virtio_pci_modern_init :: "virtio_pci \<Rightarrow> virtio_pci" where
  "virtio_pci_modern_init s =
     (let subsys = cfg16 0x2e (pci_hdr s)
      in vp_set_dev ((vp_dev s)\<lparr>endian := VIRTIO_ENDIAN_LE\<rparr>)
        (s\<lparr>doorbell_offset := 56,
           pci_hdr := set_cfg
             [(0x02, le_bytes 2 (0x1040 + subsys)), (0x2e, le_bytes 2 (0x40 + subsys)), (0x41, [112]),
              (112, virtio_pci_cap 128 16 1 1 0 56),
              (128, virtio_pci_cap 148 20 2 1 56 4 @ replicate 4 0),
              (148, virtio_pci_cap 164 16 3 1 60 4),
              (164, virtio_pci_cap 180 16 4 1 64 192),
              (180, virtio_pci_cap 0 20 5 0 0 0 @ replicate 4 0)] (pci_hdr s)\<rparr>))"

text \<open>The type of the interrupt, which is kept beside the configuration space for the device tree, is left out.\<close>

definition pci_assign_irq :: "pci_device_header \<Rightarrow> irq_state \<Rightarrow> u8 \<times> pci_device_header \<times> irq_state" where
  "pci_assign_irq h s = (let (line, s') = irq_alloc_line s in (line, set_cfg [(0x3d, [1]), (0x3c, [line])] h, s'))"

text \<open>The transport as it is allocated, and what the set-up fills in once the regions are registered.\<close>

definition vp_zero :: "pci_device_header \<Rightarrow> vdev \<Rightarrow> ioeventfds \<Rightarrow> irq_state \<Rightarrow> virtio_pci" where
  "vp_zero h d evs ir =
     \<lparr>pci_hdr = h, vp_dev_num = 0, doorbell_offset = 0, signal_msi = False, vp_status = 0, isr = 0, device_features_sel = 0,
      driver_features_sel = 0, legacy_irq_line = 0, config_vector = 0, config_gsi = 0, vq_vector = replicate VIRTIO_PCI_MAX_VQ 0,
      gsis = replicate VIRTIO_PCI_MAX_VQ 0, msix_pba = 0, msix_table = replicate VIRTIO_MSIX_TABLE_SIZE 0, queue_selector = 0,
      vp_params = replicate VIRTIO_PCI_MAX_VQ 0, vp_dev = d, vp_ioev = evs, vp_irqs = ir, vp_next_fd = 3, sent = []\<rparr>"

definition msix_fields :: "(nat \<times> u8 list) list" where
  "msix_fields = [(0x40, [0x11]), (0x41, [0]), (0x42, le_bytes 2 (of_nat (VIRTIO_NR_MSIX - 1) :: u16)), (0x44, le_bytes 4 (2 :: u32)),
     (0x48, le_bytes 4 (2 OR of_nat VIRTIO_MSIX_TABLE_SIZE :: u32))]"

definition vp_setup :: "bool \<Rightarrow> pci_device_header \<Rightarrow> virtio_pci \<Rightarrow> virtio_pci" where
  "vp_setup can_signal_msi h s =
     (let (line, h', ir) = pci_assign_irq (set_cfg msix_fields h) (vp_irqs s)
      in s\<lparr>pci_hdr := h', config_vector := VIRTIO_MSI_NO_VECTOR, vq_vector := replicate VIRTIO_PCI_MAX_VQ VIRTIO_MSI_NO_VECTOR,
           signal_msi := can_signal_msi, legacy_irq_line := line, vp_irqs := ir\<rparr>)"

definition vp_variant :: "virtio_pci \<Rightarrow> virtio_pci" where
  "vp_variant s = (if is_legacy (vp_dev s) then s\<lparr>doorbell_offset := 16\<rparr> else virtio_pci_modern_init s)"

definition virtio_pci_init ::
  "bool \<Rightarrow> bool \<Rightarrow> nat \<Rightarrow> u16 \<Rightarrow> u16 \<Rightarrow> u32 \<Rightarrow> vdev \<Rightarrow> ioeventfds \<Rightarrow> vpmachine \<Rightarrow> (int \<times> virtio_pci \<times> vpmachine) result" where
  "virtio_pci_init mem can_signal_msi dev_id device subsys cls d evs m0 =
     (let (port, ports') = pci_get_io_port_block PCI_IO_SIZE (port_blocks m0);
          (mmio, mm1) = pci_get_mmio_block PCI_IO_SIZE (mmio_blocks m0);
          (msix, mm2) = pci_get_mmio_block 0x400 mm1;
          h = vp_header (is_legacy d) device subsys cls port mmio msix;
          m1 = m0\<lparr>port_blocks := ports', mmio_blocks := mm2\<rparr>
      in rbind (pci_register_bar_regions (virtio_pci_bar_fns mem dev_id (is_legacy d)) 0
                 \<lparr>pci_config_address_bits = 0, pci_devs = [h], pci_world = Inr (mbus m1)\<rparr>) (\<lambda>(r, p).
         rbind (pci_world p) (\<lambda>b.
         let s = vp_zero (pci_devs p ! 0) d evs (irqs m1)
         in if r < 0 then Inr (r, s, m1\<lparr>mbus := b\<rparr>)
            else
              let s1 = vp_setup can_signal_msi (pci_devs p ! 0) s
              in rbind (device_register \<lparr>bus_type = 0, dev_data = dev_id, dev_num = 0\<rparr> (trees m1)) (\<lambda>(r, dh, ts).
                 let s2 = s1\<lparr>vp_dev_num := word_of_int (dev_num dh)\<rparr>;
                     m2 = m1\<lparr>mbus := b, irqs := vp_irqs s1, trees := ts\<rparr>
                 in if r < 0 then Inr (r, s2, m2)
                    else Inr (0, vp_variant s2, m2)))))"

text \<open>\<^verbatim>\<open>virtio_init\<close> of the core chooses the transport; \<open>set_legacy\<close> is what the legacy variants do before.\<close>

datatype virtio_trans = VIRTIO_PCI | VIRTIO_PCI_LEGACY | VIRTIO_MMIO | VIRTIO_MMIO_LEGACY

datatype transport = On_pci virtio_pci | On_mmio virtio_mmio

definition set_legacy :: "vdev \<Rightarrow> vdev" where
  "set_legacy d = d\<lparr>is_legacy := True\<rparr>"

definition virtio_init ::
  "bool \<Rightarrow> bool \<Rightarrow> virtio_trans \<Rightarrow> nat \<Rightarrow> u16 \<Rightarrow> u16 \<Rightarrow> u32 \<Rightarrow> vdev \<Rightarrow> ioeventfds \<Rightarrow> vpmachine \<Rightarrow> (int \<times> transport \<times> vpmachine) result" where
  "virtio_init mem can_signal_msi tr dev_id device subsys cls d evs m =
     (let pci = (\<lambda>d. rbind (virtio_pci_init mem can_signal_msi dev_id device subsys cls d evs m) (\<lambda>(r, s, m'). Inr (r, On_pci s, m')));
          mmio = (\<lambda>d. rbind (virtio_mmio_init mem dev_id (ucast subsys) d evs (vmachine.truncate m)) (\<lambda>(r, s, m').
            Inr (r, On_mmio s, vmachine.extend m' (vpmachine.fields (port_blocks m) (mmio_blocks m)))))
      in case tr of VIRTIO_PCI_LEGACY \<Rightarrow> pci (set_legacy d) | VIRTIO_PCI \<Rightarrow> pci d
         | VIRTIO_MMIO_LEGACY \<Rightarrow> mmio (set_legacy d) | VIRTIO_MMIO \<Rightarrow> mmio d)"

definition virtio_pci_exit :: "virtio_ops \<Rightarrow> virtio_pci \<Rightarrow> vpmachine \<Rightarrow> (virtio_pci \<times> vpmachine) result" where
  "virtio_pci_exit ops s m =
     rbind (virtio_pci_reset ops s) (\<lambda>s'.
     rbind (kvm_deregister_iotrap (ucast (virtio_pci_mmio_addr s')) 1 (mbus m)) (\<lambda>(_, b1).
     rbind (kvm_deregister_iotrap (ucast (virtio_pci_msix_io_addr s')) 1 b1) (\<lambda>(_, b2).
     rbind (kvm_deregister_iotrap (ucast (virtio_pci_port_addr s')) 2 b2) (\<lambda>(_, b3).
     Inr (s', m\<lparr>mbus := b3\<rparr>)))))"

definition virtio_exit :: "virtio_ops \<Rightarrow> transport \<Rightarrow> vpmachine \<Rightarrow> (transport \<times> vpmachine) result" where
  "virtio_exit ops t m =
     (case t of
        On_pci s \<Rightarrow> rbind (virtio_pci_exit ops s m) (\<lambda>(s', m'). Inr (On_pci s', m'))
      | On_mmio s \<Rightarrow> rbind (virtio_mmio_exit ops s (vmachine.truncate m)) (\<lambda>(s', m').
          Inr (On_mmio s', vmachine.extend m' (vpmachine.fields (port_blocks m) (mmio_blocks m)))))"

section \<open>Which message an interrupt carries\<close>

text \<open>
  A source of interrupts is a queue, by its number, or the configuration, with number 32. It has a vector and a number that the kernel routes. The sources are wired when every
  vector in use belongs to one source, whose number is routed to the message that the table holds for the vector, and no other source has the number.
\<close>

definition msg_at :: "u8 list \<Rightarrow> nat \<Rightarrow> msi_msg" where
  "msg_at t v = \<lparr>address_lo = le_word (bytes_at (16 * v) 4 t), address_hi = le_word (bytes_at (16 * v + 4) 4 t),
     msi_data = le_word (bytes_at (16 * v + 8) 4 t)\<rparr>"

definition carried :: "irq_state \<Rightarrow> u32 \<Rightarrow> msi_msg option" where
  "carried ir g = map_option (\<lambda>e. \<lparr>address_lo = u0 e, address_hi = u1 e, msi_data = u2 e\<rparr>) (route_view ir g)"

definition live :: "irq_state \<Rightarrow> u32 \<Rightarrow> bool" where
  "live ir g \<longleftrightarrow> g \<noteq> 0 \<and> uint g < next_gsi ir"

definition src_vec :: "virtio_pci \<Rightarrow> nat \<Rightarrow> u16" where
  "src_vec s i = (if i = 32 then config_vector s else vq_vector s ! i)"

definition src_gsi :: "virtio_pci \<Rightarrow> nat \<Rightarrow> u32" where
  "src_gsi s i = (if i = 32 then config_gsi s else gsis s ! i)"

text \<open>The number \<^verbatim>\<open>-EINVAL\<close>, kept without a sign, is that of a source whose vector was taken away.\<close>

definition source_ok :: "irq_state \<Rightarrow> u8 list \<Rightarrow> u16 \<Rightarrow> u32 \<Rightarrow> bool" where
  "source_ok ir t v g \<longleftrightarrow> (g = 0 \<or> g = word_of_int (- EINVAL) \<or> live ir g) \<and>
     (v \<noteq> VIRTIO_MSI_NO_VECTOR \<longrightarrow> unat v < 32 \<and> live ir g \<and> carried ir g = Some (msg_at t (unat v)))"

definition wired :: "(nat \<Rightarrow> u16) \<Rightarrow> (nat \<Rightarrow> u32) \<Rightarrow> irq_state \<Rightarrow> u8 list \<Rightarrow> bool" where
  "wired vec gsi ir t \<longleftrightarrow> 0 < next_gsi ir \<and> (\<forall>i \<le> 32. source_ok ir t (vec i) (gsi i)) \<and>
     (\<forall>i \<le> 32. \<forall>j \<le> 32. i \<noteq> j \<longrightarrow> (live ir (gsi i) \<longrightarrow> gsi i \<noteq> gsi j) \<and> (vec i \<noteq> VIRTIO_MSI_NO_VECTOR \<longrightarrow> vec i \<noteq> vec j))"

lemma wired_no_vector:
  assumes "wired vec gsi ir t"
  shows "wired (vec(i := VIRTIO_MSI_NO_VECTOR)) gsi ir t"
  using assms by (auto simp: wired_def source_ok_def)

lemma live_EINVAL: "next_gsi ir \<le> 2 ^ 31 \<Longrightarrow> \<not> live ir (word_of_int (- EINVAL))"
  by (simp add: live_def uint_word_of_int)

lemma wired_drop:
  assumes "wired vec gsi ir t" and "g = 0 \<or> g = word_of_int (- EINVAL)" and "next_gsi ir \<le> 2 ^ 31"
  shows "wired (vec(i := VIRTIO_MSI_NO_VECTOR)) (gsi(i := g)) ir t"
proof -
  have "\<not> live ir g" using assms(2) live_EINVAL [OF assms(3)] by (auto simp: live_def)
  then show ?thesis using assms by (auto simp: wired_def source_ok_def)
qed

text \<open>Adding a route for a vector that nobody else uses.\<close>

lemma wired_add:
  assumes "wired vec gsi ir t" and "routes_ready ir" and "next_gsi ir < 2 ^ 31 - 1" and "unat v < 32"
    and "\<forall>j \<le> 32. j \<noteq> i \<longrightarrow> vec j \<noteq> v"
  shows "\<exists>ir'. irq_add_msix_route (msg_at t (unat v)) dv ir = Inr (next_gsi ir, ir') \<and> routes_ready ir' \<and>
     next_gsi ir' \<le> 2 ^ 31 \<and> wired (vec(i := v)) (gsi(i := word_of_int (next_gsi ir))) ir' t"
proof -
  let ?n = "next_gsi ir" and ?g = "word_of_int (next_gsi ir) :: u32"
  let ?x = "msi_entry ?g (msix_needs_devid ir) (msg_at t (unat v)) dv"
  obtain ir' where a: "irq_add_msix_route (msg_at t (unat v)) dv ir = Inr (?n, ir')" "routing_ok ir'" "kernel_willing ir'"
    "next_gsi ir' = ?n + 1" "route_view ir' = (route_view ir)(?g \<mapsto> ?x)"
    using add_route_ok [of ir "msg_at t (unat v)" dv] assms(2,3) by (auto simp: routes_ready_def)
  have r: "routes_ready ir'" using a add_keeps_table [OF a(1)] assms(2) by (simp add: routes_ready_def)
  have n: "0 < ?n" using assms(1) by (simp add: wired_def)
  have g: "uint ?g = ?n" using n assms(3) by (simp add: uint_word_of_int)
  have lg: "live ir' ?g" "\<not> live ir ?g" using g n a(4) by (auto simp: live_def)
  have mono: "live ir h \<Longrightarrow> live ir' h" for h using a(4) by (simp add: live_def)
  have older: "live ir' h \<Longrightarrow> h \<noteq> ?g \<Longrightarrow> live ir h" for h
    using a(4) g word_uint_eq_iff [of h ?g] by (auto simp: live_def)
  have c: "carried ir' ?g = Some (msg_at t (unat v))" using a(5) by (simp add: carried_def msi_entry_def)
  have c': "carried ir' h = carried ir h" if "live ir h" for h
    using a(5) that lg(2) by (auto simp: carried_def)
  have ng: "gsi j \<noteq> ?g" if "j \<le> 32" for j
  proof
    assume e: "gsi j = ?g"
    have "?g \<noteq> 0" using lg(1) by (simp add: live_def)
    moreover have "?g \<noteq> word_of_int (- EINVAL)" using lg(1) live_EINVAL [of ir'] a(4) assms(3) by auto
    ultimately have "live ir ?g" using assms(1) that e by (auto simp: wired_def source_ok_def)
    with lg(2) show False ..
  qed
  have so: "source_ok ir' t (vec j) (gsi j)" if "j \<le> 32" for j
    using assms(1) that mono c' by (auto simp: wired_def source_ok_def)
  have sv: "source_ok ir' t v ?g" using lg(1) c assms(4) by (simp add: source_ok_def)
  have d: "(live ir' (gsi j) \<longrightarrow> gsi j \<noteq> gsi k) \<and> (vec j \<noteq> VIRTIO_MSI_NO_VECTOR \<longrightarrow> vec j \<noteq> vec k)" if "j \<le> 32" "k \<le> 32" "j \<noteq> k" for j k
    using assms(1) that older ng by (auto simp: wired_def)
  have "wired (vec(i := v)) (gsi(i := ?g)) ir' t"
    using n a(4) so sv d ng assms(5) by (simp add: wired_def) metis
  with a(1,4) r assms(3) show ?thesis by simp
qed

text \<open>An update of the number of source \<open>i\<close> does not touch the other sources.\<close>

lemma update_others:
  assumes "routes_ready ir"
  shows "\<exists>ir'. irq_update_msix_route g msg ir = Inr ir' \<and> routes_ready ir' \<and> next_gsi ir' = next_gsi ir \<and>
     (\<forall>h. h \<noteq> g \<longrightarrow> carried ir' h = carried ir h) \<and> (carried ir g \<noteq> None \<longrightarrow> carried ir' g = Some msg)"
proof -
  obtain ir' where u: "irq_update_msix_route g msg ir = Inr ir'" "routes_ready ir'" "next_gsi ir' = next_gsi ir"
    "route_view ir' = (case route_view ir g of None \<Rightarrow> route_view ir | Some e \<Rightarrow> (route_view ir)(g \<mapsto> set_msg msg e))"
    using update_route_ok [of ir g msg] assms by (auto simp: routes_ready_def)
  have "\<forall>h. h \<noteq> g \<longrightarrow> carried ir' h = carried ir h" "carried ir g \<noteq> None \<longrightarrow> carried ir' g = Some msg"
    using u(4) by (auto simp: carried_def set_msg_def split: option.splits)
  with u show ?thesis by auto
qed

lemma wired_update:
  assumes "wired vec gsi ir t" and "next_gsi ir' = next_gsi ir" and "i \<le> 32"
    and "\<forall>h. h \<noteq> gsi i \<longrightarrow> carried ir' h = carried ir h"
    and "\<forall>v < 32. \<forall>j \<le> 32. j \<noteq> i \<longrightarrow> unat (vec j) = v \<longrightarrow> msg_at t' v = msg_at t v"
    and "vec i \<noteq> VIRTIO_MSI_NO_VECTOR \<longrightarrow> carried ir' (gsi i) = Some (msg_at t' (unat (vec i)))"
  shows "wired vec gsi ir' t'"
proof -
  have l: "live ir' = live ir" using assms(2) by (simp add: live_def fun_eq_iff)
  have "source_ok ir' t' (vec j) (gsi j)" if "j \<le> 32" for j
  proof (cases "j = i")
    case True
    then show ?thesis using assms(1,3,6) by (auto simp: wired_def source_ok_def l)
  next
    case False
    have "source_ok ir t (vec j) (gsi j)" using assms(1) that by (simp add: wired_def)
    moreover have "gsi j \<noteq> gsi i" if "live ir (gsi j)" using assms(1,3) that False \<open>j \<le> 32\<close> by (auto simp: wired_def)
    ultimately show ?thesis using assms(4,5) False that by (auto simp: source_ok_def l)
  qed
  then show ?thesis using assms(1,2) by (simp add: wired_def l)
qed

lemma wired_table:
  assumes "wired vec gsi ir t" and "\<forall>j \<le> 32. unat (vec j) < 32 \<longrightarrow> msg_at t' (unat (vec j)) = msg_at t (unat (vec j))"
  shows "wired vec gsi ir t'"
  using assms by (auto simp: wired_def source_ok_def)

text \<open>Removing a source: its route is cleared and its vector taken away.\<close>

lemma wired_remove:
  assumes "wired vec gsi ir t" and "routes_ready ir" and "i \<le> 32" and "next_gsi ir \<le> 2 ^ 31"
  shows "\<exists>ir'. irq_update_msix_route (gsi i) msg ir = Inr ir' \<and> routes_ready ir' \<and> next_gsi ir' = next_gsi ir \<and>
     wired (vec(i := VIRTIO_MSI_NO_VECTOR)) (gsi(i := 0)) ir' t"
proof -
  obtain ir' where u: "irq_update_msix_route (gsi i) msg ir = Inr ir'" "routes_ready ir'" "next_gsi ir' = next_gsi ir"
    "\<forall>h. h \<noteq> gsi i \<longrightarrow> carried ir' h = carried ir h"
    using update_others [OF assms(2)] by blast
  have "wired (vec(i := VIRTIO_MSI_NO_VECTOR)) gsi ir' t"
    by (rule wired_update [OF wired_no_vector [OF assms(1)] u(3) assms(3)]) (use u(4) in auto)
  then have "wired ((vec(i := VIRTIO_MSI_NO_VECTOR))(i := VIRTIO_MSI_NO_VECTOR)) (gsi(i := 0)) ir' t"
    by (rule wired_drop) (use u(3) assms(4) in auto)
  with u show ?thesis by auto
qed

section \<open>Invariant of the transport\<close>

definition vp_shape :: "virtio_ops \<Rightarrow> bool \<Rightarrow> virtio_pci \<Rightarrow> bool" where
  "vp_shape ops lg s \<longleftrightarrow> dev_ok ops (vp_dev s) \<and> is_legacy (vp_dev s) = lg \<and> length (config (vp_dev s)) < 2 ^ 63 \<and>
     length (vp_params s) = VIRTIO_PCI_MAX_VQ \<and> length (vq_vector s) = VIRTIO_PCI_MAX_VQ \<and> length (gsis s) = VIRTIO_PCI_MAX_VQ \<and>
     length (msix_table s) = VIRTIO_MSIX_TABLE_SIZE \<and> unat (queue_selector s) < get_vq_count ops \<and>
     cfg32 0x48 (pci_hdr s) AND NOT 7 = of_nat VIRTIO_MSIX_TABLE_SIZE"

definition vp_routes :: "virtio_pci \<Rightarrow> bool" where
  "vp_routes s \<longleftrightarrow> routes_ready (vp_irqs s) \<and> next_gsi (vp_irqs s) \<le> 2 ^ 31 \<and> wired (src_vec s) (src_gsi s) (vp_irqs s) (msix_table s)"

definition vp_inv :: "virtio_ops \<Rightarrow> bool \<Rightarrow> virtio_pci \<Rightarrow> bool" where
  "vp_inv ops lg s \<longleftrightarrow> vp_shape ops lg s \<and> vp_routes s"

lemma src_frame [simp]:
  "src_vec (s\<lparr>vp_dev := d\<rparr>) = src_vec s" "src_gsi (s\<lparr>vp_dev := d\<rparr>) = src_gsi s"
  "src_vec (s\<lparr>vp_params := ps\<rparr>) = src_vec s" "src_gsi (s\<lparr>vp_params := ps\<rparr>) = src_gsi s"
  "src_vec (s\<lparr>vp_ioev := es\<rparr>) = src_vec s" "src_gsi (s\<lparr>vp_ioev := es\<rparr>) = src_gsi s"
  "src_vec (s\<lparr>vp_next_fd := n\<rparr>) = src_vec s" "src_gsi (s\<lparr>vp_next_fd := n\<rparr>) = src_gsi s"
  "src_vec (s\<lparr>vp_irqs := ir\<rparr>) = src_vec s" "src_gsi (s\<lparr>vp_irqs := ir\<rparr>) = src_gsi s"
  "src_vec (s\<lparr>msix_table := t\<rparr>) = src_vec s" "src_gsi (s\<lparr>msix_table := t\<rparr>) = src_gsi s"
  "src_vec (s\<lparr>pci_hdr := h\<rparr>) = src_vec s" "src_gsi (s\<lparr>pci_hdr := h\<rparr>) = src_gsi s"
  "src_vec (s\<lparr>vp_status := st\<rparr>) = src_vec s" "src_gsi (s\<lparr>vp_status := st\<rparr>) = src_gsi s"
  "src_vec (s\<lparr>isr := i\<rparr>) = src_vec s" "src_gsi (s\<lparr>isr := i\<rparr>) = src_gsi s"
  "src_vec (s\<lparr>sent := xs\<rparr>) = src_vec s" "src_gsi (s\<lparr>sent := xs\<rparr>) = src_gsi s"
  "src_vec (s\<lparr>msix_pba := p\<rparr>) = src_vec s" "src_gsi (s\<lparr>msix_pba := p\<rparr>) = src_gsi s"
  "src_vec (s\<lparr>queue_selector := v\<rparr>) = src_vec s" "src_gsi (s\<lparr>queue_selector := v\<rparr>) = src_gsi s"
  "src_vec (s\<lparr>device_features_sel := w\<rparr>) = src_vec s" "src_gsi (s\<lparr>device_features_sel := w\<rparr>) = src_gsi s"
  "src_vec (s\<lparr>driver_features_sel := w\<rparr>) = src_vec s" "src_gsi (s\<lparr>driver_features_sel := w\<rparr>) = src_gsi s"
  by (simp_all add: src_vec_def src_gsi_def fun_eq_iff)

lemma src_upd [simp]:
  "src_vec (s\<lparr>config_vector := v\<rparr>) = (src_vec s)(32 := v)" "src_gsi (s\<lparr>config_vector := v\<rparr>) = src_gsi s"
  "src_gsi (s\<lparr>config_gsi := g\<rparr>) = (src_gsi s)(32 := g)" "src_vec (s\<lparr>config_gsi := g\<rparr>) = src_vec s"
  "src_gsi (s\<lparr>vq_vector := vs\<rparr>) = src_gsi s" "src_vec (s\<lparr>gsis := gs\<rparr>) = src_vec s"
  by (simp_all add: src_vec_def src_gsi_def fun_eq_iff)

lemma src_upd_queue:
  "q < 32 \<Longrightarrow> length (vq_vector s) = 32 \<Longrightarrow> src_vec (s\<lparr>vq_vector := (vq_vector s)[q := v]\<rparr>) = (src_vec s)(q := v)"
  "q < 32 \<Longrightarrow> length (gsis s) = 32 \<Longrightarrow> src_gsi (s\<lparr>gsis := (gsis s)[q := g]\<rparr>) = (src_gsi s)(q := g)"
  by (auto simp: src_vec_def src_gsi_def fun_eq_iff nth_list_update)

lemma vp_routes_frame [simp]:
  "vp_routes (s\<lparr>vp_dev := d\<rparr>) = vp_routes s" "vp_routes (s\<lparr>vp_params := ps\<rparr>) = vp_routes s" "vp_routes (s\<lparr>vp_ioev := es\<rparr>) = vp_routes s"
  "vp_routes (s\<lparr>vp_next_fd := n\<rparr>) = vp_routes s" "vp_routes (s\<lparr>pci_hdr := h\<rparr>) = vp_routes s" "vp_routes (s\<lparr>vp_status := st\<rparr>) = vp_routes s"
  "vp_routes (s\<lparr>isr := i\<rparr>) = vp_routes s" "vp_routes (s\<lparr>sent := xs\<rparr>) = vp_routes s" "vp_routes (s\<lparr>msix_pba := p\<rparr>) = vp_routes s"
  "vp_routes (s\<lparr>queue_selector := v\<rparr>) = vp_routes s" "vp_routes (s\<lparr>device_features_sel := w\<rparr>) = vp_routes s"
  "vp_routes (s\<lparr>driver_features_sel := w\<rparr>) = vp_routes s"
  by (simp_all add: vp_routes_def)

lemma vp_inv_frame [simp]:
  "vp_inv ops lg (s\<lparr>vp_ioev := es\<rparr>) = vp_inv ops lg s" "vp_inv ops lg (s\<lparr>vp_next_fd := n\<rparr>) = vp_inv ops lg s"
  "vp_inv ops lg (s\<lparr>vp_status := st\<rparr>) = vp_inv ops lg s" "vp_inv ops lg (s\<lparr>isr := i\<rparr>) = vp_inv ops lg s"
  "vp_inv ops lg (s\<lparr>sent := xs\<rparr>) = vp_inv ops lg s" "vp_inv ops lg (s\<lparr>msix_pba := p\<rparr>) = vp_inv ops lg s"
  "vp_inv ops lg (s\<lparr>device_features_sel := w\<rparr>) = vp_inv ops lg s" "vp_inv ops lg (s\<lparr>driver_features_sel := w\<rparr>) = vp_inv ops lg s"
  by (simp_all add: vp_inv_def vp_shape_def)

lemma vp_inv_dev:
  "vp_inv ops lg s \<Longrightarrow> dev_ok ops d \<Longrightarrow> is_legacy d = lg \<Longrightarrow> length (config d) < 2 ^ 63 \<Longrightarrow> vp_inv ops lg (vp_set_dev d s)"
  by (simp add: vp_inv_def vp_shape_def vp_set_dev_def)

lemma vp_inv_dev_simps [simp]:
  "vp_dev s = d \<Longrightarrow> vp_inv ops lg (vp_set_dev (call_dev c d) s) = vp_inv ops lg s"
  "vp_inv ops lg (vp_set_dev (set_features fs (vp_dev s)) s) = vp_inv ops lg s"
  "vp_inv ops lg (vp_set_dev ((vp_dev s)\<lparr>core := k\<rparr>) s) = vp_inv ops lg s"
  "vp_inv ops lg (vp_set_dev ((vp_dev s)\<lparr>endian := e\<rparr>) s) = vp_inv ops lg s"
  by (auto simp: vp_inv_def vp_shape_def vp_set_dev_def call_dev_def set_features_def dev_ok_def)

lemma vp_inv_sel: "vp_inv ops lg s \<Longrightarrow> unat v < get_vq_count ops \<Longrightarrow> vp_inv ops lg (s\<lparr>queue_selector := v\<rparr>)"
  by (simp add: vp_inv_def vp_shape_def)

lemma vp_inv_params: "vp_inv ops lg s \<Longrightarrow> length ps = 32 \<Longrightarrow> vp_inv ops lg (s\<lparr>vp_params := ps\<rparr>)"
  by (simp add: vp_inv_def vp_shape_def)

lemma vp_inv_queue:
  assumes "vp_inv ops lg s" and "q < get_vq_count ops"
  shows "q < length (vqs (vp_dev s))" "q < 32" "length (vq_vector s) = 32" "length (gsis s) = 32" "length (vp_params s) = 32"
  using assms by (auto simp: vp_inv_def vp_shape_def dev_ok_def)

section \<open>Operations keep the invariant\<close>

lemma vp_on_dev_runs:
  assumes "vp_inv ops lg s" and "q < get_vq_count ops"
  shows "runs (vp_inv ops lg) (vp_on_dev (upd_vq q f) s)" "runs (vp_inv ops lg) (vp_on_dev (init_vq ops q) s)"
    "runs (vp_inv ops lg) (vp_on_dev (virtio_exit_vq ops q) s)"
proof -
  have i: "dev_ok ops (vp_dev s)" "is_legacy (vp_dev s) = lg" "length (config (vp_dev s)) < 2 ^ 63"
    using assms(1) by (auto simp: vp_inv_def vp_shape_def)
  note q = vp_inv_queue(1) [OF assms]
  show "runs (vp_inv ops lg) (vp_on_dev (upd_vq q f) s)" "runs (vp_inv ops lg) (vp_on_dev (init_vq ops q) s)"
    "runs (vp_inv ops lg) (vp_on_dev (virtio_exit_vq ops q) s)"
    using i q assms(1) by (auto simp: vp_on_dev_def upd_vq_ok init_vq_ok exit_vq_ok intro!: vp_inv_dev)
qed

lemma vp_init_vq_runs:
  assumes "vp_inv ops lg s" and "q < get_vq_count ops"
  shows "runs (vp_inv ops lg) (virtio_pci_init_vq has_pio ops q s)"
proof -
  note q = vp_inv_queue [OF assms]
  have p: "vp_inv ops lg (s\<lparr>vp_params := (vp_params s)[q := q]\<rparr>)" using assms(1) q by (simp add: vp_inv_params)
  have "runs (\<lambda>(r, s'). vp_inv ops lg s') (virtio_pci_init_ioeventfd has_pio ops q s)"
    using q p by (simp add: virtio_pci_init_ioeventfd_def Let_def case_prod_unfold)
  then show ?thesis
    unfolding virtio_pci_init_vq_def
    by (rule runs_bind) (auto intro: vp_on_dev_runs(2) [OF _ assms(2)])
qed

lemma vp_remove_source:
  assumes "vp_inv ops lg s" and "i \<le> 32"
  shows "\<exists>ir'. virtio_pci_del_msix_route (src_gsi s i) s = Inr (s\<lparr>vp_irqs := ir'\<rparr>) \<and> routes_ready ir' \<and> next_gsi ir' \<le> 2 ^ 31 \<and>
     wired ((src_vec s)(i := VIRTIO_MSI_NO_VECTOR)) ((src_gsi s)(i := 0)) ir' (msix_table s)"
proof -
  have "routes_ready (vp_irqs s)" "next_gsi (vp_irqs s) \<le> 2 ^ 31" "wired (src_vec s) (src_gsi s) (vp_irqs s) (msix_table s)"
    using assms(1) by (auto simp: vp_inv_def vp_routes_def)
  from wired_remove [OF this(3,1) assms(2) this(2), of "\<lparr>address_lo = 0, address_hi = 0, msi_data = 0\<rparr>"] this(2)
  show ?thesis by (auto simp: virtio_pci_del_msix_route_def)
qed

lemma vp_exit_vq_runs:
  assumes "vp_inv ops lg s" and "q < get_vq_count ops"
  shows "runs (vp_inv ops lg) (virtio_pci_exit_vq ops q s)"
proof -
  note q = vp_inv_queue [OF assms]
  have g: "src_gsi s q = gsis s ! q" using q(2) by (simp add: src_gsi_def)
  obtain ir' where r: "virtio_pci_del_msix_route (gsis s ! q) s = Inr (s\<lparr>vp_irqs := ir'\<rparr>)" "routes_ready ir'" "next_gsi ir' \<le> 2 ^ 31"
    "wired ((src_vec s)(q := VIRTIO_MSI_NO_VECTOR)) ((src_gsi s)(q := 0)) ir' (msix_table s)"
    using vp_remove_source [OF assms(1), of q] q(2) unfolding g by auto
  let ?s = "s\<lparr>vp_irqs := ir', gsis := (gsis s)[q := 0], vq_vector := (vq_vector s)[q := VIRTIO_MSI_NO_VECTOR]\<rparr>"
  have "src_vec ?s = (src_vec s)(q := VIRTIO_MSI_NO_VECTOR)" "src_gsi ?s = (src_gsi s)(q := 0)"
    using q by (auto simp: src_vec_def src_gsi_def fun_eq_iff nth_list_update)
  then have "vp_routes ?s" using r by (simp add: vp_routes_def)
  moreover have "vp_shape ops lg ?s" using assms(1) by (simp add: vp_inv_def vp_shape_def)
  ultimately have "vp_inv ops lg (?s\<lparr>vp_ioev := es\<rparr>)" for es by (simp add: vp_inv_def vp_shape_def)
  then show ?thesis
    using q r(1) vp_on_dev_runs(3) [OF _ assms(2)] by (simp add: virtio_pci_exit_vq_def Let_def)
qed

lemma vp_reset_runs:
  assumes "vp_inv ops lg s"
  shows "runs (vp_inv ops lg) (virtio_pci_reset ops s)"
proof -
  have g: "src_gsi s 32 = config_gsi s" by (simp add: src_gsi_def)
  obtain ir' where r: "virtio_pci_del_msix_route (config_gsi s) s = Inr (s\<lparr>vp_irqs := ir'\<rparr>)" "routes_ready ir'" "next_gsi ir' \<le> 2 ^ 31"
    "wired ((src_vec s)(32 := VIRTIO_MSI_NO_VECTOR)) ((src_gsi s)(32 := 0)) ir' (msix_table s)"
    using vp_remove_source [OF assms, of 32] unfolding g by auto
  let ?s = "s\<lparr>vp_irqs := ir', config_gsi := 0, config_vector := VIRTIO_MSI_NO_VECTOR\<rparr>"
  have "vp_inv ops lg ?s" using assms r by (simp add: vp_inv_def vp_shape_def vp_routes_def)
  then show ?thesis using r(1) by (simp add: virtio_pci_reset_def) (rule runs_rfold, auto intro: vp_exit_vq_runs)
qed

lemma vp_status_runs:
  assumes "vp_inv ops lg s"
  shows "runs (vp_inv ops lg) (notify_status ops vp_dev vp_set_dev (virtio_pci_reset ops) st s)"
proof -
  obtain stop ext c where n: "virtio_notify_status st (core (vp_dev s)) = (stop, ext, c)" by (rule prod_cases3)
  let ?s = "vp_set_dev ((vp_dev s)\<lparr>core := c\<rparr>) s"
  have "runs (vp_inv ops lg) (if stop then virtio_pci_reset ops ?s else Inr ?s)" using assms vp_reset_runs [of ops lg ?s] by simp
  then have "runs (vp_inv ops lg) (rbind (if stop then virtio_pci_reset ops ?s else Inr ?s)
      (\<lambda>s2. Inr (if has_notify_status ops then vp_set_dev (call_dev (Notify_status ext) (vp_dev s2)) s2 else s2)))"
    by (rule runs_bind) simp
  then show ?thesis using n by (simp add: notify_status_def Let_def)
qed

lemma vp_config_runs:
  assumes "vp_inv ops lg s" and "unat offset + length data \<le> 2 ^ 64 - 1"
  shows "runs (\<lambda>(d, s'). vp_inv ops lg s' \<and> length d = length data) (vp_config offset data len is_wr s)"
proof -
  have i: "dev_ok ops (vp_dev s)" "is_legacy (vp_dev s) = lg" "length (config (vp_dev s)) < 2 ^ 63"
    using assms(1) by (auto simp: vp_inv_def vp_shape_def)
  obtain data' d' where a: "access_config offset data len is_wr (vp_dev s) = Inr (data', d')" "dev_ok ops d'" "length data' = length data"
    "length (config d') = length (config (vp_dev s))" "is_legacy d' = is_legacy (vp_dev s)"
    using access_config_ok [OF i(1) assms(2) i(3), of len is_wr] by auto
  then show ?thesis using assms(1) i by (simp add: vp_config_def vp_inv_dev)
qed

section \<open>Vectors\<close>

text \<open>A driver gives a source the vector \<^verbatim>\<open>NO_VECTOR\<close> or one below 32 that no other source has.\<close>

definition fresh_vector :: "virtio_pci \<Rightarrow> nat \<Rightarrow> u16 \<Rightarrow> bool" where
  "fresh_vector s i v \<longleftrightarrow> v = VIRTIO_MSI_NO_VECTOR \<or>
     unat v < 32 \<and> next_gsi (vp_irqs s) < 2 ^ 31 - 1 \<and> (\<forall>j \<le> 32. j \<noteq> i \<longrightarrow> src_vec s j \<noteq> v)"

lemma table_word_at: "off + 4 \<le> length (msix_table s) \<Longrightarrow> table_word off s = Inr (le_word (bytes_at off 4 (msix_table s)))"
  by (simp add: table_word_def memcpy_from_def bytes_at_def)

lemma table_msg_at: "length (msix_table s) = 528 \<Longrightarrow> v < 33 \<Longrightarrow> table_msg v s = Inr (msg_at (msix_table s) v)"
  by (simp add: table_msg_def table_word_at msg_at_def)

lemma add_no_vector: "virtio_pci_add_msix_route VIRTIO_MSI_NO_VECTOR s = Inr (- EINVAL, s)"
  by (simp add: virtio_pci_add_msix_route_def)

lemma vp_add_source:
  assumes "vp_inv ops lg s" and "fresh_vector s i v" and "v \<noteq> VIRTIO_MSI_NO_VECTOR" and "vp_irqs s' = vp_irqs s" and "msix_table s' = msix_table s"
  shows "\<exists>n ir'. virtio_pci_add_msix_route v s' = Inr (n, s'\<lparr>vp_irqs := ir'\<rparr>) \<and> 0 \<le> n \<and> routes_ready ir' \<and> next_gsi ir' \<le> 2 ^ 31 \<and>
     wired ((src_vec s)(i := v)) ((src_gsi s)(i := word_of_int n)) ir' (msix_table s)"
proof -
  have i: "routes_ready (vp_irqs s)" "wired (src_vec s) (src_gsi s) (vp_irqs s) (msix_table s)" "length (msix_table s) = 528"
    using assms(1) by (auto simp: vp_inv_def vp_routes_def vp_shape_def)
  have f: "unat v < 32" "next_gsi (vp_irqs s) < 2 ^ 31 - 1" "\<forall>j \<le> 32. j \<noteq> i \<longrightarrow> src_vec s j \<noteq> v"
    using assms(2,3) by (auto simp: fresh_vector_def)
  obtain ir' where a: "irq_add_msix_route (msg_at (msix_table s) (unat v)) (push_bit 3 (vp_dev_num s')) (vp_irqs s) = Inr (next_gsi (vp_irqs s), ir')"
    "routes_ready ir'" "next_gsi ir' \<le> 2 ^ 31"
    "wired ((src_vec s)(i := v)) ((src_gsi s)(i := word_of_int (next_gsi (vp_irqs s)))) ir' (msix_table s)"
    using wired_add [OF i(2,1) f(2,1,3)] by blast
  have n: "0 \<le> next_gsi (vp_irqs s)" using i(1) by (simp add: routes_ready_def routing_ok_def)
  have "fst (check_for_irq_routing (vp_irqs s))"
    using i(1) check_routing_ok [of "vp_irqs s"] by (metis fst_conv routes_ready_def)
  then have "virtio_pci_add_msix_route v s' = Inr (next_gsi (vp_irqs s), s'\<lparr>vp_irqs := ir'\<rparr>)"
    using a(1) f(1) i(3) assms(3,4,5) n by (simp add: virtio_pci_add_msix_route_def table_msg_at Let_def)
  with a n show ?thesis by blast
qed

lemma set_queue_vector_runs:
  assumes "vp_inv ops lg s" and "fresh_vector s (unat (queue_selector s)) v"
  shows "runs (vp_inv ops lg) (set_queue_vector ops v s)"
proof -
  let ?q = "unat (queue_selector s)"
  have qc: "?q < get_vq_count ops" using assms(1) by (simp add: vp_inv_def vp_shape_def)
  note q = vp_inv_queue [OF assms(1) qc]
  have w: "wired (src_vec s) (src_gsi s) (vp_irqs s) (msix_table s)" "routes_ready (vp_irqs s)" "next_gsi (vp_irqs s) \<le> 2 ^ 31"
    using assms(1) by (auto simp: vp_inv_def vp_routes_def)
  let ?s1 = "s\<lparr>vq_vector := (vq_vector s)[?q := v]\<rparr>"
  have inv: "vp_inv ops lg (?s1\<lparr>vp_irqs := ir, gsis := (gsis s)[?q := g]\<rparr>)"
    if "routes_ready ir" "next_gsi ir \<le> 2 ^ 31" "wired ((src_vec s)(?q := v)) ((src_gsi s)(?q := g)) ir (msix_table s)" for ir g
  proof -
    let ?t = "?s1\<lparr>vp_irqs := ir, gsis := (gsis s)[?q := g]\<rparr>"
    have "src_vec ?t = (src_vec s)(?q := v)" "src_gsi ?t = (src_gsi s)(?q := g)"
      using q by (auto simp: src_vec_def src_gsi_def fun_eq_iff nth_list_update)
    with that assms(1) show ?thesis by (simp add: vp_inv_def vp_routes_def vp_shape_def)
  qed
  show ?thesis
  proof (cases "v = VIRTIO_MSI_NO_VECTOR")
    case True
    have a: "wired ((src_vec s)(?q := v)) ((src_gsi s)(?q := word_of_int (- EINVAL))) (vp_irqs s) (msix_table s)"
      unfolding True by (rule wired_drop [OF w(1) _ w(3)]) simp
    have "wired ((src_vec s)(?q := v)) ((src_gsi s)(?q := src_gsi s ?q)) (vp_irqs s) (msix_table s)"
      unfolding True using wired_no_vector [OF w(1)] by simp
    moreover have "src_gsi s ?q = gsis s ! ?q" using q by (simp add: src_gsi_def)
    ultimately have "vp_inv ops lg ?s1" using inv [OF w(2,3), of "src_gsi s ?q"] q by simp
    then show ?thesis
      using True q inv [OF w(2,3) a] by (simp add: set_queue_vector_def add_no_vector Let_def)
  next
    case False
    obtain n ir' where a: "virtio_pci_add_msix_route v ?s1 = Inr (n, ?s1\<lparr>vp_irqs := ir'\<rparr>)" "0 \<le> n" "routes_ready ir'" "next_gsi ir' \<le> 2 ^ 31"
      "wired ((src_vec s)(?q := v)) ((src_gsi s)(?q := word_of_int n)) ir' (msix_table s)"
      using vp_add_source [OF assms False, of ?s1] by auto
    show ?thesis
      using a(1,2) q inv [OF a(3-5)] by (simp add: set_queue_vector_def Let_def)
  qed
qed

lemma set_config_vector_runs:
  assumes "vp_inv ops lg s" and "fresh_vector s 32 v"
  shows "runs (vp_inv ops lg) (set_config_vector v s)"
proof -
  have w: "wired (src_vec s) (src_gsi s) (vp_irqs s) (msix_table s)" "routes_ready (vp_irqs s)" "next_gsi (vp_irqs s) \<le> 2 ^ 31"
    using assms(1) by (auto simp: vp_inv_def vp_routes_def)
  show ?thesis
  proof (cases "v = VIRTIO_MSI_NO_VECTOR")
    case True
    have "vp_inv ops lg (s\<lparr>config_vector := v, config_gsi := word_of_int (- EINVAL)\<rparr>)" "vp_inv ops lg (s\<lparr>config_vector := v\<rparr>)"
      using assms(1) w wired_drop [OF w(1) _ w(3), of "word_of_int (- EINVAL)" 32] wired_no_vector [OF w(1), of 32]
      by (simp_all add: True vp_inv_def vp_routes_def vp_shape_def)
    then show ?thesis using True by (simp add: set_config_vector_def add_no_vector)
  next
    case False
    let ?s1 = "s\<lparr>config_vector := v\<rparr>"
    obtain n ir' where a: "virtio_pci_add_msix_route v ?s1 = Inr (n, ?s1\<lparr>vp_irqs := ir'\<rparr>)" "0 \<le> n" "routes_ready ir'" "next_gsi ir' \<le> 2 ^ 31"
      "wired ((src_vec s)(32 := v)) ((src_gsi s)(32 := word_of_int n)) ir' (msix_table s)"
      using vp_add_source [OF assms False, of ?s1] by auto
    then have "vp_inv ops lg (?s1\<lparr>vp_irqs := ir', config_gsi := word_of_int n\<rparr>)"
      using assms(1) by (simp add: vp_inv_def vp_routes_def vp_shape_def)
    with a show ?thesis by (simp add: set_config_vector_def)
  qed
qed

section \<open>Writes to the table\<close>

lemma first_index_Some: "first_index xs v = Some i \<Longrightarrow> i < length xs \<and> unat (xs ! i) = v"
  by (induction xs arbitrary: i) (auto split: if_splits)

lemma first_index_None: "first_index xs v = None \<Longrightarrow> i < length xs \<Longrightarrow> unat (xs ! i) \<noteq> v"
  by (induction xs arbitrary: i) (auto simp: nth_Cons split: if_splits nat.splits)

text \<open>The search finds the source of a vector, if there is one.\<close>

lemma source_of_vector:
  assumes "length (vq_vector s) = 32" and "length (gsis s) = 32"
  obtains i where "i \<le> 32" "unat (src_vec s i) = v" "vector_gsi v s = Inr (Some (src_gsi s i))"
  | "\<forall>i \<le> 32. unat (src_vec s i) \<noteq> v" "vector_gsi v s = Inr None"
proof (cases "v = unat (config_vector s)")
  case True
  then show ?thesis by (intro that(1) [of 32]) (simp_all add: src_vec_def src_gsi_def vector_gsi_def)
next
  case False
  show ?thesis
  proof (cases "first_index (vq_vector s) v")
    case None
    then show ?thesis using False assms first_index_None [OF None] by (intro that(2)) (auto simp: src_vec_def vector_gsi_def)
  next
    case (Some i)
    then show ?thesis
      using False assms first_index_Some [OF Some] by (intro that(1) [of i]) (auto simp: src_vec_def src_gsi_def vector_gsi_def)
  qed
qed

lemma update_map_runs:
  assumes "vp_inv ops lg s" and "length t = 528" and "v < 33" and "\<forall>w. w \<noteq> v \<longrightarrow> msg_at t w = msg_at (msix_table s) w"
  shows "runs (vp_inv ops lg) (update_msix_map v (s\<lparr>msix_table := t\<rparr>))"
proof -
  let ?s = "s\<lparr>msix_table := t\<rparr>"
  have w: "wired (src_vec s) (src_gsi s) (vp_irqs s) (msix_table s)" "routes_ready (vp_irqs s)" "next_gsi (vp_irqs s) \<le> 2 ^ 31"
    and l: "length (vq_vector s) = 32" "length (gsis s) = 32" and sh: "vp_shape ops lg s"
    using assms(1) by (auto simp: vp_inv_def vp_routes_def vp_shape_def)
  have inv: "vp_inv ops lg (?s\<lparr>vp_irqs := ir\<rparr>)" if "routes_ready ir" "next_gsi ir \<le> 2 ^ 31" "wired (src_vec s) (src_gsi s) ir t" for ir
    using that sh assms(2) by (simp add: vp_inv_def vp_routes_def vp_shape_def)
  have vg: "vector_gsi v ?s = vector_gsi v s" by (simp add: vector_gsi_def split: option.split)
  show ?thesis
  proof (rule source_of_vector [OF l, of v])
    fix i
    assume i: "i \<le> 32" "unat (src_vec s i) = v" "vector_gsi v s = Inr (Some (src_gsi s i))"
    have nv: "src_vec s i \<noteq> VIRTIO_MSI_NO_VECTOR" using i(2) assms(3) by auto
    then have so: "live (vp_irqs s) (src_gsi s i)" "carried (vp_irqs s) (src_gsi s i) \<noteq> None"
      using w(1) i(1) by (auto simp: wired_def source_ok_def)
    obtain ir' where u: "irq_update_msix_route (src_gsi s i) (msg_at t v) (vp_irqs s) = Inr ir'" "routes_ready ir'"
      "next_gsi ir' = next_gsi (vp_irqs s)" "\<forall>h. h \<noteq> src_gsi s i \<longrightarrow> carried ir' h = carried (vp_irqs s) h" "carried ir' (src_gsi s i) = Some (msg_at t v)"
      using update_others [OF w(2)] so(2) by blast
    have o: "unat (src_vec s j) \<noteq> v" if "j \<le> 32" "j \<noteq> i" for j
      using w(1) i(1,2) nv that word_unat_eq_iff [of "src_vec s i" "src_vec s j"] by (auto simp: wired_def)
    have "wired (src_vec s) (src_gsi s) ir' t"
      by (rule wired_update [OF w(1) u(3) i(1) u(4)]) (use o assms(4) u(5) i(2) in auto)
    then have "vp_inv ops lg (?s\<lparr>vp_irqs := ir'\<rparr>)" using inv u(2,3) w(3) by simp
    moreover have "update_msix_map v ?s = Inr (?s\<lparr>vp_irqs := ir'\<rparr>)"
      using i(3) so(1) u(1) assms(2,3) by (simp add: update_msix_map_def vg live_def table_msg_at)
    ultimately show ?thesis by simp
  next
    assume n: "\<forall>i \<le> 32. unat (src_vec s i) \<noteq> v" "vector_gsi v s = Inr None"
    then have "wired (src_vec s) (src_gsi s) (vp_irqs s) t" using assms(4) by (intro wired_table [OF w(1)]) auto
    then show ?thesis using inv [OF w(2,3)] n(2) by (simp add: update_msix_map_def vg)
  qed
qed

lemma msg_at_blit:
  assumes "off + length src \<le> length t" and "off mod 16 + length src \<le> 16" and "w \<noteq> off div 16 \<or> 12 \<le> off mod 16"
  shows "msg_at (blit t off src) w = msg_at t w"
proof -
  have off: "off = 16 * (off div 16) + off mod 16" by simp
  have "16 * w + 12 \<le> off \<or> off + length src \<le> 16 * w"
  proof (cases "w = off div 16")
    case False
    then have "w < off div 16 \<or> off div 16 < w" by linarith
    with assms(2) off show ?thesis by linarith
  qed (use assms(3) off in linarith)
  then show ?thesis using assms(1) by (auto simp: msg_at_def bytes_at_blit_apart)
qed

lemma entry_bounds: "(n :: nat) < 528 \<Longrightarrow> n mod 16 + l \<le> 16 \<Longrightarrow> n div 16 < 33 \<and> n + l \<le> 528"
proof -
  assume a: "n < 528" "n mod 16 + l \<le> 16"
  then have "n div 16 < 33" by linarith
  with a(2) div_mult_mod_eq [of n 16] show ?thesis by linarith
qed

lemma unat_u32: "unat (ucast (x :: u32) :: u64) = unat x"
  using unsigned_less [of x, where 'a = nat] by (simp add: unsigned_ucast_eq take_bit_nat_eq_self)

text \<open>An access at offset \<open>off\<close> of the region that lies within one entry.\<close>

lemma vp_table_runs:
  assumes "vp_inv ops lg s" and "length data = 8" and "unat (off :: u32) mod 16 + len \<le> 16" and "len \<le> 8"
  shows "runs (\<lambda>(d, s'). vp_inv ops lg s') (virtio_pci_msix_mmio_callback (ucast (virtio_pci_msix_io_addr s) + ucast off) data len is_wr s)"
proof -
  let ?b = "virtio_pci_msix_io_addr s"
  let ?a = "ucast ?b + ucast off :: u64" and ?p = "ucast (?b + 528) :: u64"
  have cfg: "cfg32 0x48 (pci_hdr s) AND NOT 7 = 528" and l: "length (msix_table s) = 528"
    using assms(1) by (simp_all add: vp_inv_def vp_shape_def)
  show ?thesis
  proof (cases "?p \<le> ?a")
    case True
    then show ?thesis
      using assms(1) cfg by (auto simp: virtio_pci_msix_mmio_callback_def Let_def memcpy_from_def)
  next
    case False
    note u = unat_u32 [of ?b] unat_u32 [of off] unat_u32 [of "?b + 528"]
    have lt: "unat ?b < 2 ^ 32" "unat off < 2 ^ 32" using unsigned_less [of ?b, where 'a = nat] unsigned_less [of off, where 'a = nat] by simp_all
    have a: "unat ?a = unat ?b + unat off" using u lt by (simp add: unat_word_ariths)
    have "unat (?b + 528) \<le> unat ?b + 528" by (simp add: unat_word_ariths)
    then have off: "unat off < 528" using False a u(3) by (simp add: word_le_nat_alt)
    then have o: "unat off div 16 < 33" "unat off + len \<le> 528" using entry_bounds [OF _ assms(3)] by auto
    let ?t = "blit (msix_table s) (unat off) (take len data)"
    have t: "length ?t = 528" "memcpy_to (msix_table s) (unat off) (take len data) = Inr ?t"
      using o(2) l assms(2,4) by (simp_all add: memcpy_to_def)
    have m: "msg_at ?t w = msg_at (msix_table s) w" if "w \<noteq> unat off div 16 \<or> 12 \<le> unat off mod 16" for w
      using msg_at_blit [OF _ _ that] o(2) l assms(2,3,4) by simp
    have up: "runs (vp_inv ops lg) (update_msix_map (unat off div 16) (s\<lparr>msix_table := ?t\<rparr>))"
      by (rule update_map_runs [OF assms(1) t(1) o(1)]) (use m in auto)
    have same: "vp_inv ops lg (s\<lparr>msix_table := ?t\<rparr>)" if "12 \<le> unat off mod 16"
      using assms(1) t(1) m that wired_table [of "src_vec s" "src_gsi s" "vp_irqs s" "msix_table s" ?t]
      by (simp add: vp_inv_def vp_routes_def vp_shape_def)
    show ?thesis
      using False cfg t(2) same l o(2) runs_bind [OF up, of "\<lambda>(d, s'). vp_inv ops lg s'" "\<lambda>s2. Inr (data, s2)"] assms(1)
      by (simp add: virtio_pci_msix_mmio_callback_def Let_def unat_u32 memcpy_from_def not_less)
  qed
qed

section \<open>Signals and registers\<close>

lemma source_vector:
  assumes "vp_inv ops lg s" and "i \<le> 32" and "src_vec s i \<noteq> VIRTIO_MSI_NO_VECTOR"
  shows "unat (src_vec s i) < 32" "carried (vp_irqs s) (src_gsi s i) = Some (msg_at (msix_table s) (unat (src_vec s i)))"
  using assms by (auto simp: vp_inv_def vp_routes_def wired_def source_ok_def)

lemma signal_vector_runs:
  assumes "vp_inv ops lg s" and "i \<le> 32"
  shows "runs (vp_inv ops lg) (signal_vector (src_vec s i) g b s)"
proof (cases "src_vec s i = VIRTIO_MSI_NO_VECTOR")
  case True
  then show ?thesis using assms(1) by (simp add: signal_vector_def)
next
  case False
  note v = source_vector(1) [OF assms False]
  have l: "length (msix_table s) = 528" using assms(1) by (simp add: vp_inv_def vp_shape_def)
  show ?thesis
    using assms(1) v l
    by (simp add: signal_vector_def table_word_at table_msg_at pba_bit_def virtio_pci_signal_msi_def Let_def)
qed

lemma vp_write_ok:
  assumes "length data = 8"
  shows "runs (\<lambda>d. length d = 8) (write8 data b)" "runs (\<lambda>d. length d = 8) (write16 data h)" "runs (\<lambda>d. length d = 8) (write32 data w)"
  using assms by (simp_all add: write8_def write16_def write32_def memcpy_to_def)

lemma vp_read_ok:
  assumes "length data = 8"
  shows "read8 data = Inr (data ! 0)" "read16 data = Inr (le_word (take 2 data))" "read32 data = Inr (le_word (take 4 data))"
  using assms by (simp_all add: read8_def read16_def read32_def memcpy_from_def)

definition vp_buf :: "virtio_ops \<Rightarrow> bool \<Rightarrow> u8 list \<times> virtio_pci \<Rightarrow> bool" where
  "vp_buf ops lg r \<longleftrightarrow> length (fst r) = 8 \<and> vp_inv ops lg (snd r)"

lemma vp_config_u32_runs:
  assumes "vp_inv ops lg s" and "length data = 8"
  shows "runs (vp_buf ops lg) (vp_config (ucast (x :: u32)) data len is_wr s)"
  by (rule runs_mono [OF vp_config_runs [OF assms(1)]]) (use assms(2) u32_in_u64 [of x] in \<open>auto simp: vp_buf_def\<close>)

lemma show_reg_runs: "runs (\<lambda>d. length d = 8) m \<Longrightarrow> vp_inv ops lg s \<Longrightarrow> runs (vp_buf ops lg) (show_reg m s)"
  unfolding show_reg_def by (erule runs_bind) (simp add: vp_buf_def)

lemma read_isr_inv [simp]: "vp_inv ops lg (read_isr s) = vp_inv ops lg s"
  by (simp add: read_isr_def)

lemma vp_selected:
  assumes "vp_inv ops lg s"
  shows "unat (queue_selector s) < get_vq_count ops" "aget (vqs (vp_dev s)) (unat (queue_selector s)) = Inr (vqs (vp_dev s) ! unat (queue_selector s))"
    "aget (vq_vector s) (unat (queue_selector s)) = Inr (vq_vector s ! unat (queue_selector s))"
proof -
  show c: "unat (queue_selector s) < get_vq_count ops" using assms by (simp add: vp_inv_def vp_shape_def)
  show "aget (vqs (vp_dev s)) (unat (queue_selector s)) = Inr (vqs (vp_dev s) ! unat (queue_selector s))"
    "aget (vq_vector s) (unat (queue_selector s)) = Inr (vq_vector s ! unat (queue_selector s))"
    using vp_inv_queue [OF assms c] by simp_all
qed

lemma legacy_data_in_runs:
  assumes "vp_inv ops lg s" and "length data = 8"
  shows "runs (vp_buf ops lg) (virtio_pci_data_in ops offset data len s)"
proof -
  note sh = show_reg_runs [OF vp_write_ok(1) [OF assms(2)] assms(1)] show_reg_runs [OF vp_write_ok(2) [OF assms(2)] assms(1)]
    show_reg_runs [OF vp_write_ok(3) [OF assms(2)] assms(1)]
  have isr: "runs (vp_buf ops lg) (rbind (write8 data (isr s)) (\<lambda>d. Inr (d, read_isr s)))"
    by (rule runs_bind [OF vp_write_ok(1) [OF assms(2)]]) (use assms(1) in \<open>simp add: vp_buf_def\<close>)
  have keep: "vp_buf ops lg (data, s)" using assms by (simp add: vp_buf_def)
  have "runs (vp_buf ops lg) (virtio_pci_specific_data_in offset data len s)"
    using sh keep vp_config_u32_runs [OF assms] vp_selected [OF assms(1)]
    by (simp add: virtio_pci_specific_data_in_def split: prod.split bool.split)
  then show ?thesis using sh isr vp_selected [OF assms(1)] by (simp add: virtio_pci_data_in_def)
qed

lemma legacy_data_out_runs:
  assumes "vp_inv ops lg s" and "length data = 8" and "offset = 20 \<longrightarrow> fresh_vector s 32 (le_word (take 2 data))"
    and "offset = 22 \<longrightarrow> fresh_vector s (unat (queue_selector s)) (le_word (take 2 data))"
  shows "runs (vp_inv ops lg) (virtio_pci_data_out has_pio ops e offset data len s)"
proof -
  let ?q = "unat (queue_selector s)"
  note q = vp_selected(1) [OF assms(1)] and rd = vp_read_ok [OF assms(2)]
  have st: "runs (vp_inv ops lg) (notify_status ops vp_dev vp_set_dev (virtio_pci_reset ops) val
      (let s1 = s\<lparr>vp_status := val\<rparr> in if val = 0 then vp_set_dev ((vp_dev s1)\<lparr>endian := e\<rparr>) s1 else s1))" for val
  proof (rule vp_status_runs)
    have "vp_inv ops lg (vp_set_dev ((vp_dev (s\<lparr>vp_status := val\<rparr>))\<lparr>endian := e\<rparr>) (s\<lparr>vp_status := val\<rparr>))"
      unfolding vp_inv_dev_simps using assms(1) by simp
    then show "vp_inv ops lg (let s1 = s\<lparr>vp_status := val\<rparr> in if val = 0 then vp_set_dev ((vp_dev s1)\<lparr>endian := e\<rparr>) s1 else s1)"
      using assms(1) by (auto simp: Let_def)
  qed
  have pfn: "runs (vp_inv ops lg) (rbind (vp_on_dev (upd_vq ?q f) s) (virtio_pci_init_vq has_pio ops ?q))" for f
    by (rule runs_bind [OF vp_on_dev_runs(1) [OF assms(1) q] vp_init_vq_runs]) (use q in auto)
  have cfg: "runs (vp_inv ops lg) (rbind (vp_config (ucast (x :: u32)) data len True s) (\<lambda>(_, s'). Inr s'))" for x
    by (rule runs_bind [OF vp_config_u32_runs [OF assms(1,2)]]) (auto simp: vp_buf_def)
  have "runs (vp_inv ops lg) (virtio_pci_specific_data_out ops offset data len s)"
    using assms(1,3,4) cfg set_config_vector_runs [OF assms(1)] set_queue_vector_runs [OF assms(1)]
    by (simp add: virtio_pci_specific_data_out_def rd split: prod.split bool.split)
  then show ?thesis
    using st pfn assms(1) q vp_exit_vq_runs [OF assms(1) q] vp_inv_sel [OF assms(1)]
    by (simp add: virtio_pci_data_out_def Let_def rd)
qed

lemma common_write_runs:
  assumes "vp_inv ops lg s" and "length data = 8" and "off = 16 \<longrightarrow> fresh_vector s 32 (le_word (take 2 data))"
    and "off = 26 \<longrightarrow> fresh_vector s (unat (queue_selector s)) (le_word (take 2 data))"
  shows "runs (vp_inv ops lg) (virtio_pci_common_write has_pio ops off data s)"
proof -
  note q = vp_selected(1) [OF assms(1)] and rd = vp_read_ok [OF assms(2)]
  have st: "runs (vp_inv ops lg) (notify_status ops vp_dev vp_set_dev (virtio_pci_reset ops) val (s\<lparr>vp_status := val\<rparr>))" for val
    by (rule vp_status_runs) (use assms(1) in simp)
  have a: "runs (vp_inv ops lg) (vp_set_vq_addr f s)" for f
    unfolding vp_set_vq_addr_def by (rule vp_on_dev_runs(1) [OF assms(1) q])
  show ?thesis
    using st a assms(1,3,4) q vp_exit_vq_runs [OF assms(1) q] vp_init_vq_runs [OF assms(1) q] vp_inv_sel [OF assms(1)]
      set_config_vector_runs [OF assms(1)] set_queue_vector_runs [OF assms(1)]
    by (simp add: virtio_pci_common_write_def Let_def rd)
qed

lemma common_read_runs:
  assumes "vp_inv ops lg s" and "length data = 8"
  shows "runs (\<lambda>d. length d = 8) (virtio_pci_common_read ops off data s)"
  using vp_write_ok [OF assms(2)] vp_selected [OF assms(1)] assms(2) by (simp add: virtio_pci_common_read_def Let_def)

lemma modern_access_runs:
  assumes "vp_inv ops lg s" and "length data = 8" and "is_wr \<and> off = 16 \<longrightarrow> fresh_vector s 32 (le_word (take 2 data))"
    and "is_wr \<and> off = 26 \<longrightarrow> fresh_vector s (unat (queue_selector s)) (le_word (take 2 data))"
  shows "runs (vp_buf ops lg) (virtio_pci_access has_pio ops off data len is_wr s)"
proof -
  have w: "runs (vp_buf ops lg) (rbind (virtio_pci_common_write has_pio ops off data s) (\<lambda>s'. Inr (data, s')))" if is_wr
    by (rule runs_bind [OF common_write_runs [OF assms(1,2)]]) (use assms that in \<open>auto simp: vp_buf_def\<close>)
  have r: "runs (vp_buf ops lg) (show_reg (virtio_pci_common_read ops off data s) s)"
    by (rule show_reg_runs [OF common_read_runs [OF assms(1,2)] assms(1)])
  have i: "runs (vp_buf ops lg) (rbind (write8 data (isr s)) (\<lambda>d. Inr (d, read_isr s)))"
    by (rule runs_bind [OF vp_write_ok(1) [OF assms(2)]]) (use assms(1) in \<open>simp add: vp_buf_def\<close>)
  have c: "runs (vp_buf ops lg) (vp_config (off - 64) data len is_wr s)" if "off \<le> 255" "\<not> off \<le> 63"
  proof -
    have "64 \<le> off" using that(2) by (simp add: word_le_nat_alt)
    then have "off - 64 \<le> off" by (rule word_sub_le)
    then have "unat (off - 64) \<le> 255" using that(1) by (simp add: word_le_nat_alt)
    then have "unat (off - 64) + length data \<le> 2 ^ 64 - 1" using assms(2) by simp
    then show ?thesis by (intro runs_mono [OF vp_config_runs [OF assms(1)]]) (use assms(2) in \<open>auto simp: vp_buf_def\<close>)
  qed
  have keep: "vp_buf ops lg (data, s)" using assms by (simp add: vp_buf_def)
  show ?thesis
    using w r i c keep assms(1,2) vp_read_ok [OF assms(2)]
    by (simp add: virtio_pci_access_def virtio_pci_notify_write_def virtio_pci_isr_read_def vp_buf_def)
qed

section \<open>Runs\<close>

text \<open>
  What happens to the transport: an access of the guest to the registers or, at an offset of its region, to the table of messages; a write to the configuration space, after which the
  header is \<open>h\<close>; a signal of the device for a queue or for its configuration; a doorbell.
\<close>

datatype vp_event = Reg u64 "u8 list" nat bool | Table u32 "u8 list" nat bool | Header pci_device_header | Queue_signal nat | Config_signal | Bell nat

definition vp_step :: "bool \<Rightarrow> virtio_ops \<Rightarrow> u16 \<Rightarrow> vp_event \<Rightarrow> virtio_pci \<Rightarrow> virtio_pci result" where
  "vp_step has_pio ops e ev s =
     (case ev of
        Reg addr data len is_wr \<Rightarrow>
          rbind (if is_legacy (vp_dev s) then virtio_pci_legacy_io_mmio_callback has_pio ops e addr data len is_wr s
                 else virtio_pci_modern_io_mmio_callback has_pio ops addr data len is_wr s) (\<lambda>(_, s'). Inr s')
      | Table off data len is_wr \<Rightarrow>
          rbind (virtio_pci_msix_mmio_callback (ucast (virtio_pci_msix_io_addr s) + ucast off) data len is_wr s) (\<lambda>(_, s'). Inr s')
      | Header h \<Rightarrow> Inr (s\<lparr>pci_hdr := h\<rparr>)
      | Queue_signal q \<Rightarrow> virtio_pci_signal_vq q s
      | Config_signal \<Rightarrow> virtio_pci_signal_config s
      | Bell q \<Rightarrow> virtio_pci_ioevent_callback q s)"

definition reg_offset :: "u64 \<Rightarrow> virtio_pci \<Rightarrow> u64" where
  "reg_offset addr s =
     (let port = ucast (virtio_pci_port_addr s) :: u32 in
      if \<not> is_legacy (vp_dev s) then addr - ucast (virtio_pci_mmio_addr s)
      else if ucast port \<le> addr \<and> addr < ucast (port + bar_size (pci_hdr s) ! 0) then addr - ucast port
      else addr - ucast (virtio_pci_mmio_addr s))"

text \<open>
  What a driver does: it gives each source a vector of its own, accesses the table within an entry, and leaves the offset of
  the pending bits in the configuration space alone.
\<close>

definition vp_allowed :: "vp_event \<Rightarrow> virtio_pci \<Rightarrow> bool" where
  "vp_allowed ev s =
     (case ev of
        Reg addr data len is_wr \<Rightarrow> length data = 8 \<and>
          (is_wr \<and> reg_offset addr s = (if is_legacy (vp_dev s) then 20 else 16) \<longrightarrow> fresh_vector s 32 (le_word (take 2 data))) \<and>
          (is_wr \<and> reg_offset addr s = (if is_legacy (vp_dev s) then 22 else 26) \<longrightarrow> fresh_vector s (unat (queue_selector s)) (le_word (take 2 data)))
      | Table off data len is_wr \<Rightarrow> length data = 8 \<and> len \<le> 8 \<and> unat off mod 16 + len \<le> 16
      | Header h \<Rightarrow> cfg32 0x48 h AND NOT 7 = of_nat VIRTIO_MSIX_TABLE_SIZE
      | Queue_signal q \<Rightarrow> q < VIRTIO_PCI_MAX_VQ
      | Bell q \<Rightarrow> q < VIRTIO_PCI_MAX_VQ
      | _ \<Rightarrow> True)"

definition driver_step :: "bool \<Rightarrow> virtio_ops \<Rightarrow> u16 \<Rightarrow> vp_event \<Rightarrow> virtio_pci \<Rightarrow> virtio_pci result" where
  "driver_step has_pio ops e ev s = (if vp_allowed ev s then vp_step has_pio ops e ev s else Inr s)"

lemma vp_buf_drop: "runs (vp_buf ops lg) m \<Longrightarrow> runs (vp_inv ops lg) (rbind m (\<lambda>(_, s'). Inr s'))"
  by (erule runs_bind) (auto simp: vp_buf_def)

lemma legacy_callback_pci_runs:
  assumes "vp_inv ops lg s" and "lg" and "vp_allowed (Reg addr data len is_wr) s"
  shows "runs (vp_buf ops lg) (virtio_pci_legacy_io_mmio_callback has_pio ops e addr data len is_wr s)"
proof -
  have l: "is_legacy (vp_dev s)" "length data = 8" using assms by (auto simp: vp_inv_def vp_shape_def vp_allowed_def)
  have eq: "virtio_pci_legacy_io_mmio_callback has_pio ops e addr data len is_wr s =
      (if \<not> is_wr then virtio_pci_data_in ops (reg_offset addr s) data len s
       else rbind (virtio_pci_data_out has_pio ops e (reg_offset addr s) data len s) (\<lambda>s'. Inr (data, s')))"
    using l(1) by (simp add: virtio_pci_legacy_io_mmio_callback_def reg_offset_def Let_def)
  have "runs (vp_buf ops lg) (rbind (virtio_pci_data_out has_pio ops e (reg_offset addr s) data len s) (\<lambda>s'. Inr (data, s')))" if is_wr
    by (rule runs_bind [OF legacy_data_out_runs [OF assms(1) l(2)]]) (use assms(3) that l in \<open>auto simp: vp_allowed_def vp_buf_def\<close>)
  then show ?thesis unfolding eq using legacy_data_in_runs [OF assms(1) l(2)] by simp
qed

lemma modern_callback_pci_runs:
  assumes "vp_inv ops lg s" and "\<not> lg" and "vp_allowed (Reg addr data len is_wr) s"
  shows "runs (vp_buf ops lg) (virtio_pci_modern_io_mmio_callback has_pio ops addr data len is_wr s)"
proof -
  have l: "\<not> is_legacy (vp_dev s)" using assms(1,2) by (simp add: vp_inv_def vp_shape_def)
  then have o: "addr - ucast (virtio_pci_mmio_addr s) = reg_offset addr s" by (simp add: reg_offset_def)
  show ?thesis
    unfolding virtio_pci_modern_io_mmio_callback_def o
    by (rule modern_access_runs [OF assms(1)]) (use assms(3) l in \<open>auto simp: vp_allowed_def\<close>)
qed

lemma vp_step_safe:
  assumes "vp_inv ops lg s" and "vp_allowed ev s"
  shows "runs (vp_inv ops lg) (vp_step has_pio ops e ev s)"
proof (cases ev)
  case (Reg addr data len is_wr)
  have l: "is_legacy (vp_dev s) = lg" using assms(1) by (simp add: vp_inv_def vp_shape_def)
  show ?thesis
    using assms(2) legacy_callback_pci_runs [OF assms(1), of addr data len is_wr has_pio e]
      modern_callback_pci_runs [OF assms(1), of addr data len is_wr has_pio]
    by (auto simp: vp_step_def Reg l intro!: vp_buf_drop)
next
  case (Table off data len is_wr)
  have "runs (\<lambda>(d, s'). vp_inv ops lg s')
      (virtio_pci_msix_mmio_callback (ucast (virtio_pci_msix_io_addr s) + ucast off) data len is_wr s)"
    by (rule vp_table_runs [OF assms(1)]) (use assms(2) Table in \<open>auto simp: vp_allowed_def\<close>)
  then have "runs (vp_inv ops lg)
      (rbind (virtio_pci_msix_mmio_callback (ucast (virtio_pci_msix_io_addr s) + ucast off) data len is_wr s) (\<lambda>(_, s'). Inr s'))"
    by (rule runs_bind) auto
  then show ?thesis by (simp add: vp_step_def Table)
next
  case (Header h)
  then show ?thesis using assms by (simp add: vp_step_def vp_allowed_def vp_inv_def vp_shape_def)
next
  case (Queue_signal q)
  then have q: "q < 32" "length (vq_vector s) = 32" "length (gsis s) = 32" "src_vec s q = vq_vector s ! q"
    using assms by (auto simp: vp_allowed_def vp_inv_def vp_shape_def src_vec_def)
  then show ?thesis using signal_vector_runs [OF assms(1), of q] Queue_signal by (simp add: vp_step_def virtio_pci_signal_vq_def)
next
  case Config_signal
  then show ?thesis
    using signal_vector_runs [OF assms(1), of 32] by (simp add: vp_step_def virtio_pci_signal_config_def src_vec_def)
next
  case (Bell q)
  then have "q < length (vp_params s)" using assms by (simp add: vp_allowed_def vp_inv_def vp_shape_def)
  then show ?thesis using assms(1) Bell by (simp add: vp_step_def virtio_pci_ioevent_callback_def)
qed

interpretation vpci: safe_device "vp_inv ops lg" "\<lambda>_. True" "driver_step has_pio ops e" for ops lg has_pio e
  by unfold_locales (simp add: driver_step_def vp_step_safe)

section \<open>After the set-up\<close>

lemma toggle_keeps_cfg:
  assumes "n < length (pci_devs s)"
  shows "cfg (pci_devs (snd (pci_toggle_bar fns b n i s)) ! n) = cfg (pci_devs s ! n) \<and>
     length (pci_devs (snd (pci_toggle_bar fns b n i s))) = length (pci_devs s)"
  using assms by (auto simp: pci_toggle_bar_def upd_dev_def Let_def case_prod_unfold)

lemma register_keeps_cfg:
  "register_bars fns n is s = Inr (r, s') \<Longrightarrow> n < length (pci_devs s) \<Longrightarrow> cfg (pci_devs s' ! n) = cfg (pci_devs s ! n)"
proof (induction "is" arbitrary: s)
  case (Cons i "is")
  let ?a = "pci_activate_bar fns n i s"
  have t: "cfg (pci_devs (snd ?a) ! n) = cfg (pci_devs s ! n)" "length (pci_devs (snd ?a)) = length (pci_devs s)"
    using toggle_keeps_cfg [OF Cons.prems(2)] by (simp_all add: pci_activate_bar_def)
  consider "register_bars fns n is s = Inr (r, s')" | "s' = s" | "s' = snd ?a" | "register_bars fns n is (snd ?a) = Inr (r, s')"
    using Cons.prems(1) by (auto simp: Let_def case_prod_unfold split: if_splits)
  then show ?case using Cons.IH [of s] Cons.IH [of "snd ?a"] Cons.prems(2) t by cases auto
qed simp

lemma routes_ready_line [simp]: "routes_ready (ir\<lparr>next_line := l\<rparr>) = routes_ready ir"
  by (simp add: routes_ready_def routing_ok_def table_ok_def used_routes_def kernel_willing_def split: option.split)

lemma wired_none:
  assumes "0 < next_gsi ir" and "\<forall>i \<le> 32. vec i = VIRTIO_MSI_NO_VECTOR" and "\<forall>i \<le> 32. gsi i = 0"
  shows "wired vec gsi ir t"
  using assms by (simp add: wired_def source_ok_def live_def)

definition pba_set :: "pci_device_header \<Rightarrow> bool" where
  "pba_set h \<longleftrightarrow> length (cfg h) = 256 \<and> bytes_at 0x48 4 (cfg h) = le_bytes 4 (530 :: u32)"

lemma pba_set_field: "pba_set h \<Longrightarrow> cfg32 0x48 h AND NOT 7 = of_nat VIRTIO_MSIX_TABLE_SIZE"
  by (simp add: pba_set_def cfg32_def bytes_at_def le_word_bytes)

lemma pba_set_msix: "length (cfg h) = 256 \<Longrightarrow> pba_set (set_cfg msix_fields h)"
proof -
  assume l: "length (cfg h) = 256"
  have "stores msix_fields (cfg h) = Inr (stored msix_fields (cfg h)) \<and> length (stored msix_fields (cfg h)) = length (cfg h)"
    by (rule stores_ok) (simp add: msix_fields_def l)
  moreover have "bytes_at 0x48 (length (le_bytes 4 (530 :: u32))) (stored msix_fields (cfg h)) = le_bytes 4 (530 :: u32)"
    by (rule stored_get) (simp_all add: msix_fields_def l)
  ultimately show ?thesis using l by (simp add: pba_set_def set_cfg_def)
qed

lemma pba_set_other:
  assumes "pba_set h" and "\<forall>(o', src) \<in> set ws. o' + length src \<le> 256 \<and> (0x4c \<le> o' \<or> o' + length src \<le> 0x48)"
  shows "pba_set (set_cfg ws h)"
proof -
  have l: "length (cfg h) = 256" using assms(1) by (simp add: pba_set_def)
  have "length (stored ws (cfg h)) = length (cfg h)" using stores_ok [of ws "cfg h"] assms(2) l by fastforce
  moreover have "bytes_at 0x48 4 (stored ws (cfg h)) = bytes_at 0x48 4 (cfg h)"
    using assms(2) l by (intro bytes_at_stored_apart) fastforce
  ultimately show ?thesis using assms(1) l by (simp add: pba_set_def set_cfg_def)
qed

lemma length_vp_header: "length (cfg (vp_header lg dev_id subsys cls port mmio msix)) = 256"
  unfolding vp_header_def set_cfg_def by (simp add: blit_def)

lemma vp_inv_fresh:
  assumes "dev_ok ops (vp_dev s)" and "length (config (vp_dev s)) < 2 ^ 63" and "pba_set (pci_hdr s)" and "queue_selector s = 0"
    and "length (vp_params s) = 32" and "vq_vector s = replicate 32 VIRTIO_MSI_NO_VECTOR" and "gsis s = replicate 32 0"
    and "length (msix_table s) = 528" and "config_vector s = VIRTIO_MSI_NO_VECTOR" and "config_gsi s = 0"
    and "routes_ready (vp_irqs s)" and "0 < next_gsi (vp_irqs s)" and "next_gsi (vp_irqs s) \<le> 2 ^ 31"
  shows "vp_inv ops (is_legacy (vp_dev s)) s"
proof -
  have "wired (src_vec s) (src_gsi s) (vp_irqs s) (msix_table s)"
    by (rule wired_none [OF assms(12)]) (use assms in \<open>simp_all add: src_vec_def src_gsi_def\<close>)
  then show ?thesis
    using assms pba_set_field [OF assms(3)] by (simp add: vp_inv_def vp_shape_def vp_routes_def dev_ok_def)
qed

lemma modern_init_frame [simp]:
  "queue_selector (virtio_pci_modern_init s) = queue_selector s" "vp_params (virtio_pci_modern_init s) = vp_params s"
  "vq_vector (virtio_pci_modern_init s) = vq_vector s" "gsis (virtio_pci_modern_init s) = gsis s"
  "msix_table (virtio_pci_modern_init s) = msix_table s" "config_vector (virtio_pci_modern_init s) = config_vector s"
  "config_gsi (virtio_pci_modern_init s) = config_gsi s" "vp_irqs (virtio_pci_modern_init s) = vp_irqs s"
  "vp_dev (virtio_pci_modern_init s) = (vp_dev s)\<lparr>endian := VIRTIO_ENDIAN_LE\<rparr>"
  by (simp_all add: virtio_pci_modern_init_def Let_def vp_set_dev_def)

lemma modern_init_pba: "pba_set (pci_hdr s) \<Longrightarrow> pba_set (pci_hdr (virtio_pci_modern_init s))"
  by (simp add: virtio_pci_modern_init_def Let_def vp_set_dev_def pba_set_other virtio_pci_cap_def)

lemma virtio_pci_init_inv:
  assumes "virtio_pci_init mem can_signal dev_id device subsys cls d evs m0 = Inr (0, s, m)" and "dev_ok ops d" and "length (config d) < 2 ^ 63"
    and "routes_ready (irqs m0)" and "0 < next_gsi (irqs m0)" and "next_gsi (irqs m0) \<le> 2 ^ 31"
  shows "vp_inv ops (is_legacy d) s"
proof -
  obtain p r h0 n where
    p: "pci_register_bar_regions (virtio_pci_bar_fns mem dev_id (is_legacy d)) 0
         \<lparr>pci_config_address_bits = 0, pci_devs = [h0], pci_world = Inr (mbus m0)\<rparr> = Inr (r, p)" "length (cfg h0) = 256"
    and s: "s = vp_variant ((vp_setup can_signal (pci_devs p ! 0) (vp_zero (pci_devs p ! 0) d evs (irqs m0)))\<lparr>vp_dev_num := n\<rparr>)"
    using assms(1) length_vp_header
    by (auto simp: virtio_pci_init_def Let_def rbind_eq_Inr_iff case_prod_unfold split: if_splits)
  let ?h = "pci_devs p ! 0"
  let ?s1 = "(vp_setup can_signal ?h (vp_zero ?h d evs (irqs m0)))\<lparr>vp_dev_num := n\<rparr>"
  have "cfg ?h = cfg h0" using p(1) register_keeps_cfg [of _ 0] by (fastforce simp: pci_register_bar_regions_def)
  then have "pba_set (set_cfg msix_fields ?h)" using pba_set_msix p(2) by simp
  then have h: "pba_set (pci_hdr ?s1)"
    by (simp add: vp_setup_def vp_zero_def pci_assign_irq_def irq_alloc_line_def pba_set_other)
  have f: "vp_dev ?s1 = d" "queue_selector ?s1 = 0" "length (vp_params ?s1) = 32" "vq_vector ?s1 = replicate 32 VIRTIO_MSI_NO_VECTOR"
    "gsis ?s1 = replicate 32 0" "length (msix_table ?s1) = 528" "config_vector ?s1 = VIRTIO_MSI_NO_VECTOR" "config_gsi ?s1 = 0"
    "vp_irqs ?s1 = (irqs m0)\<lparr>next_line := next_line (irqs m0) + 1\<rparr>"
    by (simp_all add: vp_setup_def vp_zero_def pci_assign_irq_def irq_alloc_line_def)
  have "pba_set (pci_hdr s)" using s h modern_init_pba [of ?s1] by (simp add: vp_variant_def)
  then have "vp_inv ops (is_legacy (vp_dev s)) s"
    using assms(2-6) f s by (intro vp_inv_fresh) (auto simp: vp_variant_def)
  moreover have "is_legacy (vp_dev s) = is_legacy d" using s f(1) by (simp add: vp_variant_def)
  ultimately show ?thesis by simp
qed

section \<open>Interrupts arrive with the message of their vector\<close>

definition masked :: "u16 \<Rightarrow> virtio_pci \<Rightarrow> bool" where
  "masked v s \<longleftrightarrow> flag (msix_ctrl s) 0x4000 \<or> flag (le_word (bytes_at (16 * unat v + 12) 4 (msix_table s)) :: u32) 1"

text \<open>What the guest gets of a signal: the message that was sent, or the one to which the kernel routes the number.\<close>

definition delivered :: "irq_state \<Rightarrow> irq_signal \<Rightarrow> msi_msg option" where
  "delivered ir x = (case x of Msi lo hi d _ \<Rightarrow> Some \<lparr>address_lo = lo, address_hi = hi, msi_data = d\<rparr> | Trigger g \<Rightarrow> carried ir g | Line _ _ \<Rightarrow> None)"

lemma signal_delivered:
  assumes "vp_inv ops lg s" and "i \<le> 32" and "virtio_pci_msix_enabled s" and "src_vec s i \<noteq> VIRTIO_MSI_NO_VECTOR" and "\<not> masked (src_vec s i) s"
  shows "\<exists>s' x. signal_vector (src_vec s i) (src_gsi s i) b s = Inr s' \<and> sent s' = sent s @ [x] \<and> isr s' = isr s \<and>
     delivered (vp_irqs s') x = Some (msg_at (msix_table s) (unat (src_vec s i)))"
proof -
  note v = source_vector [OF assms(1,2,4)]
  have l: "length (msix_table s) = 528" using assms(1) by (simp add: vp_inv_def vp_shape_def)
  show ?thesis
    using assms(3-5) v l
    by (auto simp: signal_vector_def table_word_at table_msg_at virtio_pci_signal_msi_def Let_def masked_def delivered_def)
qed


definition sample_vpmachine :: vpmachine where
  "sample_vpmachine =
     \<lparr>io_blocks = 0xd3000000, mbus = bus_init, irqs = (case irq_init irq_sample of Inr (r, ir) \<Rightarrow> ir | Inl e \<Rightarrow> irq_sample),
      trees = device_trees_init, port_blocks = 0x6200, mmio_blocks = 0xd2000000\<rparr>"

text \<open>The guest enables MSI-X, writes 7 as the data of entry 3, and gives queue 0 vector 3.\<close>

definition sample_header :: pci_device_header where
  "sample_header = \<lparr>cfg = stored [(0x14, le_bytes 4 (0xd2000000 :: u32)), (0x18, le_bytes 4 (0xd2000400 :: u32)), (0x42, [0, 0x80]),
     (0x48, le_bytes 4 (530 :: u32))] (replicate 256 0), bar_size = [0x100, 0x100, 0x400, 0, 0, 0], bar_active = replicate 6 True\<rparr>"

definition sample_vp :: virtio_pci where
  "sample_vp =
     (let h = (vp_header True 0x1000 1 0 0x6200 0xd2000000 0xd2000400)\<lparr>bar_active := [True, True, True, False, False, False]\<rparr>
      in (vp_setup False h (vp_zero h (sample_vdev True) sample_events (irqs sample_vpmachine)))\<lparr>doorbell_offset := 16\<rparr>)"

lemma sample_register:
  "case pci_register_bar_regions (virtio_pci_bar_fns True 7 True) 0
      \<lparr>pci_config_address_bits = 0, pci_devs = [vp_header True 0x1000 1 0 0x6200 0xd2000000 0xd2000400], pci_world = Inr (mbus sample_vpmachine)\<rparr>
   of Inl e \<Rightarrow> False
   | Inr (r, p) \<Rightarrow> r = 0 \<and> pci_devs p = [(vp_header True 0x1000 1 0 0x6200 0xd2000000 0xd2000400)\<lparr>bar_active := [True, True, True, False, False, False]\<rparr>] \<and>
      \<not> isl (pci_world p)"
  by code_simp

lemma sample_number:
  "case device_register \<lparr>bus_type = 0, dev_data = 7, dev_num = 0\<rparr> device_trees_init of Inl e \<Rightarrow> False | Inr (r, dh, ts) \<Rightarrow> r = 0 \<and> dev_num dh = 0"
  by code_simp

lemma sample_blocks:
  "pci_get_io_port_block 0x100 0x6200 = (0x6200, 0x6300)" "pci_get_mmio_block 0x100 0xd2000000 = (0xd2000000, 0xd2000100)"
  "pci_get_mmio_block 0x400 0xd2000100 = (0xd2000400, 0xd2000800)"
  by code_simp+

lemma sample_vp_init: "\<exists>m. virtio_pci_init True False 7 0x1000 1 0 (sample_vdev True) sample_events sample_vpmachine = Inr (0, sample_vp, m)"
proof -
  let ?h = "vp_header True 0x1000 1 0 0x6200 0xd2000000 0xd2000400"
  obtain p where p: "pci_register_bar_regions (virtio_pci_bar_fns True 7 True) 0
      \<lparr>pci_config_address_bits = 0, pci_devs = [?h], pci_world = Inr (mbus sample_vpmachine)\<rparr> = Inr (0, p)"
    "pci_devs p = [?h\<lparr>bar_active := [True, True, True, False, False, False]\<rparr>]" "\<not> isl (pci_world p)"
    using sample_register by (auto split: sum.splits)
  then obtain b where b: "pci_world p = Inr b" by (cases "pci_world p") auto
  obtain dh ts where d: "device_register \<lparr>bus_type = 0, dev_data = 7, dev_num = 0\<rparr> device_trees_init = Inr (0, dh, ts)" "dev_num dh = 0"
    using sample_number by (auto split: sum.splits)
  have m: "port_blocks sample_vpmachine = 0x6200" "mmio_blocks sample_vpmachine = 0xd2000000" "trees sample_vpmachine = device_trees_init"
    "is_legacy (sample_vdev True)"
    by (simp_all add: sample_vpmachine_def sample_vdev_def)
  have z: "(vp_setup False h (vp_zero h (sample_vdev True) sample_events ir))\<lparr>vp_dev_num := 0\<rparr> = vp_setup False h (vp_zero h (sample_vdev True) sample_events ir)" for h ir
    by (simp add: vp_setup_def vp_zero_def case_prod_unfold Let_def)
  have l: "is_legacy (vp_dev (vp_setup False h (vp_zero h (sample_vdev True) sample_events ir)))" for h ir
    using m(4) by (simp add: vp_setup_def vp_zero_def case_prod_unfold Let_def)
  show ?thesis
    using p b d m z l by (simp add: virtio_pci_init_def sample_blocks sample_vp_def vp_variant_def Let_def)
qed

definition sample_driver :: "vp_event list" where
  "sample_driver = [Header sample_header, Table 56 [7, 0, 0, 0, 0, 0, 0, 0] 4 True, Reg 0xd2000016 [3, 0, 0, 0, 0, 0, 0, 0] 2 True]"

lemma sample_vp_fields:
  "vp_dev sample_vp = sample_vdev True" "queue_selector sample_vp = 0" "vq_vector sample_vp = replicate 32 VIRTIO_MSI_NO_VECTOR"
  "gsis sample_vp = replicate 32 0" "config_vector sample_vp = VIRTIO_MSI_NO_VECTOR" "msix_table sample_vp = replicate 528 0"
  "next_gsi (vp_irqs sample_vp) = next_gsi (irqs sample_vpmachine)"
  by (simp_all add: sample_vp_def vp_setup_def vp_zero_def Let_def case_prod_unfold pci_assign_irq_def irq_alloc_line_def)

lemma sample_header_fields:
  "cfg_bar sample_header 0 = 0" "cfg_bar sample_header (Suc 0) = 0xd2000000" "cfg_bar sample_header 2 = 0xd2000400" "cfg16 0x42 sample_header = 0x8000"
  "cfg32 0x48 sample_header = 530" "bar_size sample_header ! 0 = 0x100"
  by code_simp+

lemma bar_address_samples [simp]: "bar_address 0 = 0" "bar_address 0xd2000000 = 0xd2000000" "bar_address 0xd2000400 = 0xd2000400"
  by (simp_all add: bar_address_def bar_is_io_def)

definition sample_table :: "u8 list" where
  "sample_table = blit (replicate 528 0) 56 [7, 0, 0, 0]"

lemma sample_step_table:
  "rfold (driver_step True sample_ops 1) [Header sample_header, Table 56 [7, 0, 0, 0, 0, 0, 0, 0] 4 True] sample_vp =
     Inr (sample_vp\<lparr>pci_hdr := sample_header, msix_table := sample_table\<rparr>)"
proof -
  let ?s = "sample_vp\<lparr>pci_hdr := sample_header\<rparr>"
  have "first_index (replicate n VIRTIO_MSI_NO_VECTOR) 3 = None" for n by (induction n) auto
  then have "update_msix_map 3 (?s\<lparr>msix_table := t\<rparr>) = Inr (?s\<lparr>msix_table := t\<rparr>)" for t
    by (simp add: update_msix_map_def vector_gsi_def sample_vp_fields)
  then show ?thesis
    by (simp add: driver_step_def vp_allowed_def vp_step_def sample_header_fields virtio_pci_msix_mmio_callback_def virtio_pci_msix_io_addr_def
        sample_vp_fields memcpy_to_def sample_table_def)
qed

lemma sample_routes: "routes_ready (irqs sample_vpmachine)" "next_gsi (irqs sample_vpmachine) = 24"
proof -
  have "irq_boot irq_sample" by (simp add: irq_boot_def kernel_willing_def irq_sample_def)
  from irq_init_ok [OF this] show "routes_ready (irqs sample_vpmachine)" "next_gsi (irqs sample_vpmachine) = 24"
    by (auto simp: sample_vpmachine_def)
qed

lemma sample_vp_inv: "vp_inv sample_ops True (sample_vp\<lparr>pci_hdr := sample_header, msix_table := sample_table\<rparr>)"
proof -
  obtain m where "virtio_pci_init True False 7 0x1000 1 0 (sample_vdev True) sample_events sample_vpmachine = Inr (0, sample_vp, m)"
    using sample_vp_init by blast
  then have "vp_inv sample_ops (is_legacy (sample_vdev True)) sample_vp"
    by (rule virtio_pci_init_inv) (simp_all add: sample_routes dev_ok_def sample_ops_def sample_vdev_def)
  then have "runs (vp_inv sample_ops True)
      (rfold (driver_step True sample_ops 1) [Header sample_header, Table 56 [7, 0, 0, 0, 0, 0, 0, 0] 4 True] sample_vp)"
    by (intro vpci.run_safe) (simp_all add: sample_vdev_def)
  then show ?thesis unfolding sample_step_table by simp
qed

lemma sample_vp_run:
  "\<exists>s. rfold (driver_step True sample_ops 1) sample_driver sample_vp = Inr s \<and> virtio_pci_msix_enabled s \<and> vq_vector s ! 0 = 3 \<and>
     \<not> masked 3 s \<and> msg_at (msix_table s) 3 = \<lparr>address_lo = 0, address_hi = 0, msi_data = 7\<rparr> \<and> vp_inv sample_ops True s"
proof -
  let ?s = "sample_vp\<lparr>pci_hdr := sample_header, msix_table := sample_table\<rparr>"
  let ?s1 = "?s\<lparr>vq_vector := (vq_vector sample_vp)[0 := 3]\<rparr>"
  have few: "next_gsi (vp_irqs ?s) < 2 ^ 31 - 1" using sample_routes(2) by (simp add: sample_vp_fields)
  have fresh: "fresh_vector ?s 0 3" using few by (auto simp: fresh_vector_def src_vec_def sample_vp_fields)
  obtain n ir where a: "virtio_pci_add_msix_route 3 ?s1 = Inr (n, ?s1\<lparr>vp_irqs := ir\<rparr>)" "0 \<le> n"
    using vp_add_source [OF sample_vp_inv fresh, of ?s1] by auto
  let ?s2 = "?s1\<lparr>vp_irqs := ir, gsis := (gsis sample_vp)[0 := word_of_int n]\<rparr>"
  have set: "set_queue_vector sample_ops 3 ?s = Inr ?s2"
    using a by (simp add: set_queue_vector_def Let_def sample_vp_fields sample_ops_def sample_vdev_def)
  have off: "reg_offset 0xd2000016 ?s = 22" "is_legacy (vp_dev ?s)"
    by (simp_all add: reg_offset_def virtio_pci_port_addr_def virtio_pci_mmio_addr_def sample_header_fields sample_vp_fields sample_vdev_def)
  have "driver_step True sample_ops 1 (Reg 0xd2000016 [3, 0, 0, 0, 0, 0, 0, 0] 2 True) ?s = Inr ?s2"
    using off fresh set
    by (simp add: driver_step_def vp_allowed_def vp_step_def virtio_pci_legacy_io_mmio_callback_def virtio_pci_data_out_def
        virtio_pci_specific_data_out_def virtio_get_dev_specific_field_def virtio_pci_msix_enabled_def msix_ctrl_def flag_def
        sample_header_fields sample_vp_fields virtio_pci_port_addr_def virtio_pci_mmio_addr_def vp_read_ok le_word_def)
  then have "rfold (driver_step True sample_ops 1) sample_driver sample_vp = Inr ?s2"
    using sample_step_table by (simp add: sample_driver_def rbind_eq_Inr_iff) blast
  moreover have "virtio_pci_msix_enabled ?s2" "vq_vector ?s2 ! 0 = 3"
    by (simp_all add: virtio_pci_msix_enabled_def msix_ctrl_def sample_header_fields flag_def sample_vp_fields)
  moreover have zero: "(push_bit 8 ^^ n) 0 = (0 :: u32)" for n by (induction n) simp_all
  moreover have "\<not> masked 3 ?s2" "msg_at (msix_table ?s2) 3 = \<lparr>address_lo = 0, address_hi = 0, msi_data = 7\<rparr>"
    by (simp_all add: masked_def msix_ctrl_def sample_header_fields flag_def msg_at_def sample_table_def bytes_at_blit_apart bytes_at_blit_same)
      (simp_all add: bytes_at_def le_word_def zero)
  moreover have "vp_inv sample_ops True ?s2"
    using set_queue_vector_runs [OF sample_vp_inv, of 3] fresh set by (simp add: sample_vp_fields)
  ultimately show ?thesis by blast
qed


section \<open>Pending interrupts\<close>

text \<open>What an access of the guest leaves alone: the pending bits and the messages that were sent. Only the level of the line may change.\<close>

definition messages :: "virtio_pci \<Rightarrow> irq_signal list" where
  "messages s = filter (\<lambda>x. case x of Line _ _ \<Rightarrow> False | _ \<Rightarrow> True) (sent s)"

definition quiet :: "virtio_pci \<Rightarrow> u64 \<times> irq_signal list" where
  "quiet s = (msix_pba s, messages s)"

lemma quiet_frame [simp]:
  "quiet (s\<lparr>vp_dev := d\<rparr>) = quiet s" "quiet (vp_set_dev d s) = quiet s" "quiet (s\<lparr>vp_params := ps\<rparr>) = quiet s" "quiet (s\<lparr>vp_ioev := es\<rparr>) = quiet s"
  "quiet (s\<lparr>vp_next_fd := n\<rparr>) = quiet s" "quiet (s\<lparr>pci_hdr := h\<rparr>) = quiet s" "quiet (s\<lparr>vp_status := st\<rparr>) = quiet s" "quiet (s\<lparr>vp_irqs := ir\<rparr>) = quiet s"
  "quiet (s\<lparr>queue_selector := v\<rparr>) = quiet s" "quiet (s\<lparr>device_features_sel := w\<rparr>) = quiet s" "quiet (s\<lparr>driver_features_sel := w\<rparr>) = quiet s"
  "quiet (s\<lparr>config_vector := v\<rparr>) = quiet s" "quiet (s\<lparr>config_gsi := g\<rparr>) = quiet s" "quiet (s\<lparr>vq_vector := vs\<rparr>) = quiet s" "quiet (s\<lparr>gsis := gs\<rparr>) = quiet s"
  "quiet (s\<lparr>msix_table := t\<rparr>) = quiet s" "quiet (read_isr s) = quiet s"
  by (simp_all add: quiet_def messages_def vp_set_dev_def read_isr_def)

definition keeps :: "('a \<Rightarrow> virtio_pci) \<Rightarrow> virtio_pci \<Rightarrow> 'a result \<Rightarrow> bool" where
  "keeps get s m \<longleftrightarrow> (\<forall>x. m = Inr x \<longrightarrow> quiet (get x) = quiet s)"

lemma keeps_simps [simp]: "keeps get s (Inl e)" "keeps get s (Inr x) \<longleftrightarrow> quiet (get x) = quiet s"
  by (simp_all add: keeps_def)

lemma keeps_bind: "keeps get s m \<Longrightarrow> (\<And>x. m = Inr x \<Longrightarrow> quiet (get x) = quiet s \<Longrightarrow> keeps get' s (f x)) \<Longrightarrow> keeps get' s (rbind m f)"
  by (cases m) auto

lemma keeps_value: "(\<And>x. m = Inr x \<Longrightarrow> keeps get s (f x)) \<Longrightarrow> keeps get s (rbind m f)"
  by (cases m) auto

lemma keeps_cong: "quiet t = quiet s \<Longrightarrow> keeps get t m \<Longrightarrow> keeps get s m"
  by (simp add: keeps_def)

lemma keeps_rfold: "(\<And>b t. keeps id t (f b t)) \<Longrightarrow> keeps id s (rfold f bs s)"
proof (induction bs arbitrary: s)
  case (Cons b bs)
  have rest: "keeps id s (rfold f bs t)" if "quiet t = quiet s" for t using Cons.IH [OF Cons.prems] keeps_cong [OF that] by blast
  show ?case unfolding rfold.simps by (rule keeps_bind [OF Cons.prems [of s b]], rule rest, simp only: id_apply)
qed simp

lemma keeps_dev: "keeps id s (vp_on_dev f s)"
  unfolding vp_on_dev_def by (rule keeps_value) simp

lemma keeps_init_vq: "keeps id s (virtio_pci_init_vq has_pio ops q s)"
proof -
  have "keeps snd s (virtio_pci_init_ioeventfd has_pio ops q s)"
    unfolding virtio_pci_init_ioeventfd_def by (rule keeps_value) (simp add: Let_def case_prod_unfold)
  then show ?thesis
    unfolding virtio_pci_init_vq_def by (rule keeps_bind) (auto intro: keeps_cong [OF _ keeps_dev])
qed

lemma keeps_del_route: "keeps id s (virtio_pci_del_msix_route g s)"
  unfolding virtio_pci_del_msix_route_def by (rule keeps_value) simp

lemma keeps_exit_vq: "keeps id s (virtio_pci_exit_vq ops q s)"
  unfolding virtio_pci_exit_vq_def
  by (intro keeps_value keeps_bind [OF keeps_del_route]) (simp add: Let_def, rule keeps_cong [OF _ keeps_dev], simp)

lemma keeps_reset: "keeps id s (virtio_pci_reset ops s)"
  unfolding virtio_pci_reset_def
  by (rule keeps_bind [OF keeps_del_route]) (rule keeps_cong [OF _ keeps_rfold], simp_all add: keeps_exit_vq)

lemma keeps_status: "keeps id s (notify_status ops vp_dev vp_set_dev (virtio_pci_reset ops) st s)"
proof -
  obtain stop ext c where n: "virtio_notify_status st (core (vp_dev s)) = (stop, ext, c)" by (rule prod_cases3)
  have "keeps id s (if stop then virtio_pci_reset ops (vp_set_dev ((vp_dev s)\<lparr>core := c\<rparr>) s) else Inr (vp_set_dev ((vp_dev s)\<lparr>core := c\<rparr>) s))"
    by (auto intro: keeps_cong [OF _ keeps_reset])
  then show ?thesis unfolding notify_status_def n Let_def prod.case by (rule keeps_bind) simp
qed

lemma keeps_add_route: "keeps snd s (virtio_pci_add_msix_route v s)"
  unfolding virtio_pci_add_msix_route_def by (auto intro!: keeps_value simp: Let_def case_prod_unfold)

lemma keeps_vector: "keeps id s (set_queue_vector ops v s)" "keeps id s (set_config_vector v s)"
proof -
  have a: "keeps snd s (virtio_pci_add_msix_route v (s\<lparr>vq_vector := vs\<rparr>))" for vs by (rule keeps_cong [OF _ keeps_add_route]) simp
  show "keeps id s (set_queue_vector ops v s)"
    unfolding set_queue_vector_def Let_def
    by (rule keeps_value, rule keeps_bind [OF a]) (auto intro!: keeps_value)
  have "keeps snd s (virtio_pci_add_msix_route v (s\<lparr>config_vector := v\<rparr>))" by (rule keeps_cong [OF _ keeps_add_route]) simp
  then show "keeps id s (set_config_vector v s)"
    unfolding set_config_vector_def by (rule keeps_bind) auto
qed

lemma keeps_table: "keeps snd s (virtio_pci_msix_mmio_callback addr data len is_wr s)"
proof -
  have "keeps id t (update_msix_map v t)" for v t
    unfolding update_msix_map_def by (rule keeps_value) (auto intro!: keeps_value split: option.split)
  then have "keeps id s (update_msix_map v (s\<lparr>msix_table := t\<rparr>))" for v t by (intro keeps_cong [of "s\<lparr>msix_table := t\<rparr>" s]) auto
  then have up: "keeps snd s (rbind (update_msix_map v (s\<lparr>msix_table := t\<rparr>)) (\<lambda>s2. Inr (d, s2)))" for v t d
    by (rule keeps_bind) simp
  show ?thesis
    unfolding virtio_pci_msix_mmio_callback_def Let_def by (simp add: keeps_value up)
qed

lemma keeps_config: "keeps snd s (vp_config off data len is_wr s)"
  unfolding vp_config_def by (rule keeps_value) auto

lemma keeps_show: "keeps snd s (show_reg m s)"
  unfolding show_reg_def by (rule keeps_value) simp

lemma keeps_data_in: "keeps snd s (virtio_pci_data_in ops off data len s)"
  by (auto simp: virtio_pci_data_in_def virtio_pci_specific_data_in_def keeps_show keeps_config intro!: keeps_value split: prod.split bool.split)

lemma keeps_data_out: "keeps id s (virtio_pci_data_out has_pio ops e off data len s)"
proof -
  have st: "keeps id s (notify_status ops vp_dev vp_set_dev (virtio_pci_reset ops) v t)" if "quiet t = quiet s" for v t
    using that by (rule keeps_cong [OF _ keeps_status])
  have pfn: "keeps id s (rbind (vp_on_dev f s) (virtio_pci_init_vq has_pio ops q))" for f q
    by (rule keeps_bind [OF keeps_dev]) (auto intro: keeps_cong [OF _ keeps_init_vq])
  have cf: "keeps id s (rbind (vp_config o' data len True s) (\<lambda>(_, s'). Inr s'))" for o'
    by (rule keeps_bind [OF keeps_config]) auto
  show ?thesis
    by (auto simp: virtio_pci_data_out_def virtio_pci_specific_data_out_def Let_def st pfn cf keeps_exit_vq keeps_vector
        intro!: keeps_value split: prod.split bool.split)
qed

lemma keeps_access: "keeps snd s (virtio_pci_access has_pio ops off data len is_wr s)"
proof -
  have st: "keeps id s (notify_status ops vp_dev vp_set_dev (virtio_pci_reset ops) v t)" if "quiet t = quiet s" for v t
    using that by (rule keeps_cong [OF _ keeps_status])
  have "keeps id s (virtio_pci_common_write has_pio ops off data s)"
    by (auto simp: virtio_pci_common_write_def Let_def st keeps_exit_vq keeps_init_vq keeps_vector keeps_dev vp_set_vq_addr_def intro!: keeps_value)
  then have "keeps snd s (rbind (virtio_pci_common_write has_pio ops off data s) (\<lambda>s'. Inr (data, s')))"
    by (rule keeps_bind) simp
  then show ?thesis
    by (auto simp: virtio_pci_access_def keeps_show keeps_config virtio_pci_notify_write_def virtio_pci_isr_read_def rbind_assoc intro!: keeps_value)
qed

definition guest_event :: "vp_event \<Rightarrow> bool" where
  "guest_event ev = (case ev of Queue_signal q \<Rightarrow> False | Config_signal \<Rightarrow> False | _ \<Rightarrow> True)"

lemma keeps_drop: "keeps snd s m \<Longrightarrow> keeps id s (rbind m (\<lambda>(_, s'). Inr s'))"
  by (erule keeps_bind) auto

lemma keeps_step:
  assumes "guest_event ev"
  shows "keeps id s (vp_step has_pio ops e ev s)"
proof (cases ev)
  case (Reg addr data len is_wr)
  have "keeps snd s (virtio_pci_legacy_io_mmio_callback has_pio ops e addr data len is_wr s)"
    unfolding virtio_pci_legacy_io_mmio_callback_def Let_def by (auto simp: keeps_data_in intro: keeps_bind [OF keeps_data_out])
  then show ?thesis
    unfolding vp_step_def Reg vp_event.case
    by (intro keeps_drop) (simp add: virtio_pci_modern_io_mmio_callback_def keeps_access)
next
  case (Table off data len is_wr)
  then show ?thesis unfolding vp_step_def by (auto intro: keeps_drop [OF keeps_table])
qed (use assms in \<open>auto simp: vp_step_def guest_event_def virtio_pci_ioevent_callback_def intro!: keeps_value\<close>)

lemma keeps_events:
  "(\<forall>ev \<in> set events. guest_event ev) \<Longrightarrow> rfold (vp_step has_pio ops e) events s = Inr s' \<Longrightarrow> quiet s' = quiet s"
proof (induction events arbitrary: s)
  case (Cons ev events)
  then obtain t where t: "vp_step has_pio ops e ev s = Inr t" "rfold (vp_step has_pio ops e) events t = Inr s'" by (auto simp: rbind_eq_Inr_iff)
  have "quiet t = quiet s" using keeps_step [of ev s has_pio ops e] Cons.prems(1) t(1) by simp
  then show ?case using Cons.IH [OF _ t(2)] Cons.prems(1) by simp
qed simp

lemma pba_bit_set: "n < 32 \<Longrightarrow> \<exists>w. pba_bit n = Inr w \<and> bit w n"
  by (auto simp: pba_bit_def bit_simps)

text \<open>
  C40. An interrupt that is signalled while its vector is masked is lost. The signal sets the pending bit and sends nothing; after that no access of the guest,
  the unmasking of the vector included, ever sends it or clears the bit, whatever the guest does until the device signals again. (The PCI
  standard has the function send the message as soon as the vector is unmasked.)
\<close>

theorem virtio_pci_pending_never_sent:
  assumes "vp_inv ops lg s" and "q < get_vq_count ops" and "virtio_pci_msix_enabled s" and "vq_vector s ! q \<noteq> VIRTIO_MSI_NO_VECTOR"
    and "masked (vq_vector s ! q) s"
  shows "\<exists>s1. virtio_pci_signal_vq q s = Inr s1 \<and> sent s1 = sent s \<and> bit (msix_pba s1) (unat (vq_vector s ! q)) \<and>
     (\<forall>events s2. (\<forall>ev \<in> set events. guest_event ev) \<and> rfold (vp_step has_pio ops e) events s1 = Inr s2 \<longrightarrow>
        messages s2 = messages s \<and> bit (msix_pba s2) (unat (vq_vector s ! q)))"
proof -
  let ?v = "vq_vector s ! q"
  note q = vp_inv_queue [OF assms(1,2)]
  have sv: "src_vec s q = ?v" using q(2) by (simp add: src_vec_def)
  have v: "unat ?v < 32" using source_vector(1) [OF assms(1), of q] assms(4) q(2) unfolding sv by simp
  have l: "length (msix_table s) = 528" using assms(1) by (simp add: vp_inv_def vp_shape_def)
  obtain w where w: "pba_bit (unat ?v) = Inr w" "bit w (unat ?v)" using pba_bit_set [OF v] by blast
  let ?s1 = "s\<lparr>msix_pba := msix_pba s OR w\<rparr>"
  have sig: "virtio_pci_signal_vq q s = Inr ?s1"
    using assms(3-5) q v l w(1) by (auto simp: virtio_pci_signal_vq_def signal_vector_def table_word_at masked_def Let_def)
  have "messages s2 = messages s \<and> bit (msix_pba s2) (unat ?v)"
    if "\<forall>ev \<in> set events. guest_event ev" "rfold (vp_step has_pio ops e) events ?s1 = Inr s2" for events s2
    using keeps_events [OF that] w(2) by (auto simp: quiet_def messages_def bit_simps)
  with sig w(2) show ?thesis by (auto simp: bit_simps)
qed

lemma signal_vector_table: "signal_vector v g b s = Inr s' \<Longrightarrow> msix_table s' = msix_table s"
  unfolding signal_vector_def Let_def virtio_pci_signal_msi_def rbind_eq_Inr_iff by (auto simp: rbind_eq_Inr_iff split: if_split_asm)

definition sample_masked :: pci_device_header where
  "sample_masked = set_cfg [(0x42, [0, 0xc0])] sample_header"

lemma sample_masked_fields: "cfg16 0x42 sample_masked = 0xc000" "cfg32 0x48 sample_masked = 530"
  by code_simp+

theorem virtio_pci_pending_never_sent_witness:
  "\<exists>s s1. vp_inv sample_ops True s \<and> vq_vector s ! 0 = 3 \<and> virtio_pci_signal_vq 0 s = Inr s1 \<and>
     vp_step True sample_ops 1 (Header sample_header) s1 = Inr (s1\<lparr>pci_hdr := sample_header\<rparr>) \<and>
     \<not> masked 3 (s1\<lparr>pci_hdr := sample_header\<rparr>) \<and> bit (msix_pba (s1\<lparr>pci_hdr := sample_header\<rparr>)) 3 \<and>
     messages (s1\<lparr>pci_hdr := sample_header\<rparr>) = messages s"
proof -
  obtain s0 where s0: "vq_vector s0 ! 0 = 3" "\<not> masked 3 s0" "vp_inv sample_ops True s0" using sample_vp_run by blast
  let ?s = "s0\<lparr>pci_hdr := sample_masked\<rparr>"
  have i: "vp_inv sample_ops True ?s" using s0(3) by (simp add: vp_inv_def vp_shape_def sample_masked_fields)
  have e: "virtio_pci_msix_enabled ?s" "masked 3 ?s"
    by (simp_all add: virtio_pci_msix_enabled_def masked_def msix_ctrl_def sample_masked_fields flag_def)
  have q: "0 < get_vq_count sample_ops" "vq_vector ?s ! 0 \<noteq> VIRTIO_MSI_NO_VECTOR" "masked (vq_vector ?s ! 0) ?s"
    using s0(1) e(2) by (simp_all add: sample_ops_def)
  obtain s1 where s1: "virtio_pci_signal_vq 0 ?s = Inr s1"
    "\<forall>events s2. (\<forall>ev \<in> set events. guest_event ev) \<and> rfold (vp_step True sample_ops 1) events s1 = Inr s2 \<longrightarrow>
        messages s2 = messages ?s \<and> bit (msix_pba s2) (unat (vq_vector ?s ! 0))"
    using virtio_pci_pending_never_sent [OF i q(1) e(1) q(2,3), of True 1] by blast
  let ?u = "s1\<lparr>pci_hdr := sample_header\<rparr>"
  have h: "vp_step True sample_ops 1 (Header sample_header) s1 = Inr ?u" by (simp add: vp_step_def)
  have u: "messages ?u = messages ?s" "bit (msix_pba ?u) 3"
    using s1(2) [rule_format, of "[Header sample_header]" ?u] h s0(1) by (simp_all add: guest_event_def)
  have "msix_table s1 = msix_table s0"
    using s1(1) by (auto simp: virtio_pci_signal_vq_def rbind_eq_Inr_iff dest: signal_vector_table)
  then have "\<not> masked 3 ?u" using s0(2) by (simp add: masked_def msix_ctrl_def sample_header_fields flag_def)
  with i s0(1) s1(1) h u show ?thesis by (intro exI [of _ ?s] exI [of _ s1]) simp
qed

section \<open>What a guest can break\<close>

text \<open>A vector beyond the table is looked up in it all the same.\<close>

lemma virtio_pci_vector_overflow:
  assumes "vp_inv ops lg s" and "33 \<le> unat v" and "v \<noteq> VIRTIO_MSI_NO_VECTOR"
  shows "set_queue_vector ops v s = Inl OutOfBounds"
proof -
  note q = vp_inv_queue [OF assms(1) vp_selected(1) [OF assms(1)]]
  have l: "length (msix_table s) = 528" and r: "routes_ready (vp_irqs s)" using assms(1) by (auto simp: vp_inv_def vp_shape_def vp_routes_def)
  have "fst (check_for_irq_routing (vp_irqs s))" using r check_routing_ok [of "vp_irqs s"] by (metis fst_conv routes_ready_def)
  then show ?thesis
    using assms(2,3) q l by (simp add: set_queue_vector_def virtio_pci_add_msix_route_def table_msg_def table_word_def memcpy_from_def Let_def)
qed

text \<open>The offset of the pending bits is in the configuration space, where the guest can write it; the table then seems longer than it is.\<close>

lemma virtio_pci_pba_offset_overflow:
  assumes "vp_inv ops lg s" and "cfg32 0x48 h AND NOT 7 = 0x3f8" and "cfg_bar h 2 = 0xd2000400" and "length data = 8"
  shows "virtio_pci_msix_mmio_callback 0xd2000610 data 4 True (s\<lparr>pci_hdr := h\<rparr>) = Inl OutOfBounds"
  using assms by (simp add: virtio_pci_msix_mmio_callback_def virtio_pci_msix_io_addr_def Let_def memcpy_to_def vp_inv_def vp_shape_def)

text \<open>Of two queues that share a vector only the first follows a change of the entry.\<close>

lemma virtio_pci_shared_vector_stale:
  assumes "vp_shape ops lg s" and "routes_ready (vp_irqs s)" and "first_index (vq_vector s) v = Some i" and "v \<noteq> unat (config_vector s)" and "v < 33"
    and "unat (vq_vector s ! j) = v" and "gsis s ! i \<noteq> gsis s ! j"
  shows "\<exists>s'. update_msix_map v s = Inr s' \<and> carried (vp_irqs s') (gsis s ! j) = carried (vp_irqs s) (gsis s ! j)"
proof -
  have l: "length (msix_table s) = 528" "length (gsis s) = 32" "length (vq_vector s) = 32" using assms(1) by (auto simp: vp_shape_def)
  have i: "i < 32" using first_index_Some [OF assms(3)] l by simp
  obtain ir where "irq_update_msix_route (gsis s ! i) (msg_at (msix_table s) v) (vp_irqs s) = Inr ir"
    "\<forall>h. h \<noteq> gsis s ! i \<longrightarrow> carried ir h = carried (vp_irqs s) h"
    using update_others [OF assms(2)] by blast
  then show ?thesis using assms i l by (simp add: update_msix_map_def vector_gsi_def table_msg_at)
qed

end
