(* ===== verification/Spec2Isabelle.thy ===== *)
theory Spec2Isabelle
  imports Serial8250 I8042 Rtc Mmio Devices Plic Cfi Pci Blk Uip Membank Xics P9 Vpci
begin

text \<open>
  kemu is a user-space hypervisor for KVM guests, a C program derived from kvmtool. The kernel runs the guest's
  processors; kemu gives the guest its devices. A load or store of the guest that hits no memory comes back to the
  program as a trapped access; \<^verbatim>\<open>init/mmio.c\<close> finds the device that owns the address and calls its handler. This development models
  the device side of the program, from the bus down to the bytes of host files and sockets, and
  states what makes it correct, or, where the code does not do what it means to do, exactly what it does.

  \<^bold>\<open>Conventions\<close> (theory \<open>Prelude\<close>). Fixed-width integers are words and wrap as in C. Arrays and buffers are lists;
  an access outside them is \<open>Inl OutOfBounds\<close>, a failed assertion \<open>Inl Die\<close>, a use of freed memory
  \<open>Inl UseAfterFree\<close>, so that a result \<open>Inr\<close> says that none of it happens. A function that may wait or loop for
  ever returns an option, with \<open>None\<close> for not returning. State is passed as a record. Operations
  under a lock are single steps, and their interleavings are lists of operations or step
  relations. What the host answers to a system call is an argument or a list of incidents in the
  state; its documented behaviour is the only thing assumed of it. \<open>Prelude\<close> also holds the shared interfaces
  as locales (trap handlers, devices whose steps may fault, bounded queues); every locale of the development is interpreted on the model's own operations.

  \<^bold>\<open>The bus.\<close>
  \<^item> \<open>Rbtree\<close>: \<^verbatim>\<open>util/rbtree.c\<close>, insertion and removal with the rotations of the source on a tree with a path (zipper) in
    place of parent pointers; order, colour and black height are kept.
  \<^item> \<open>Interval\<close>: \<^verbatim>\<open>util/rbtree-interval.c\<close>, disjoint address ranges in a red-black tree.
  \<^item> \<open>Mmio\<close>: \<^verbatim>\<open>init/mmio.c\<close>, registration, emulation with reference counts and deferred removal; an access reaches
    exactly the owner of its address and no handler is used after it was freed, in every interleaving.
  \<^item> \<open>Devices\<close>: \<^verbatim>\<open>init/devices.c\<close>, the registry of devices by bus and number.
  \<^item> \<open>Pci\<close>: \<^verbatim>\<open>init/pci.c\<close>, configuration space, sizing and activation of BARs, address allocation.

  \<^bold>\<open>Devices with registers.\<close>
  \<^item> \<open>Serial8250\<close> (\<^verbatim>\<open>hw/serial.c\<close>), \<open>I8042\<close> (\<^verbatim>\<open>hw/i8042.c\<close>), \<open>Rtc\<close> (\<^verbatim>\<open>hw/rtc.c\<close>), \<open>Cfi\<close> (\<^verbatim>\<open>hw/cfi_flash.c\<close>),
    \<open>Plic\<close> (\<^verbatim>\<open>arch/riscv/plic.c\<close>): every register access with its errors, an invariant kept by all of them, what the
    guest observes over runs (bytes in order, interrupt lines true to the registers, locked
    flash blocks never changed, no interrupt lost between claim and completion).

  \<^bold>\<open>Storage.\<close>
  \<^item> \<open>Hostio\<close>: \<^verbatim>\<open>util/read-write.c\<close>, transfers that are repeated until complete, against files whose calls are interrupted, cut short or fail.
  \<^item> \<open>Iovec\<close>: \<^verbatim>\<open>util/iovec.c\<close>, copies to and from scattered buffers of a flat memory.
  \<^item> \<open>Tablecache\<close>, \<open>Qcow\<close>: \<^verbatim>\<open>disk/qcow.c\<close>, the caches of tables and reading of images; reading refines a plain array of
    bytes. Decompression is a parameter.
  \<^item> \<open>Disk\<close>: \<^verbatim>\<open>disk/core.c\<close>, \<^verbatim>\<open>disk/raw.c\<close>, \<^verbatim>\<open>disk/blk.c\<close>.
  \<^item> \<open>Virtq\<close>: \<^verbatim>\<open>virtio/core.c\<close>, the rings, descriptor chains, notification and status negotiation.
  \<^item> \<open>Blk\<close>: \<^verbatim>\<open>virtio/blk.c\<close>, from a request in the ring to the bytes of the image and the completion.

  \<^bold>\<open>Network.\<close>
  \<^item> \<open>Csum\<close>, \<open>Uipbuf\<close>, \<open>Uiptcp\<close>, \<open>Uip\<close>: \<^verbatim>\<open>net/uip/*.c\<close>, the stack that answers the guest's ARP, ICMP, DHCP,
    UDP and TCP itself and carries the data over host sockets: checksums, the pool of packet buffers shared by
    threads, the sequence numbers of a connection as an invariant of a step relation, delivery of
    frames into the guest's buffers.

  \<^bold>\<open>Transports.\<close>
  \<^item> \<open>Irq\<close>: \<^verbatim>\<open>init/irq.c\<close>, \<^verbatim>\<open>arch/x86_64/irq.c\<close> and \<^verbatim>\<open>init/ioeventfd.c\<close>, the table of interrupt routes and the list of event descriptors, beside what the
    kernel holds of both. The table refines a map from numbers to routes, and clients cannot change the routes of the interrupt controllers.
  \<^item> \<open>Vdev\<close>: what a transport sees of a device (\<^verbatim>\<open>virtio/core.c\<close>): set-up and removal of queues, status, features, configuration. The calls the device gets are a log.
  \<^item> \<open>Vmmio\<close>: \<^verbatim>\<open>virtio/mmio*.c\<close>, the legacy and the modern register page. No access leaves the arrays on the legacy page, nor on the
    modern one while existing queues are selected; the writes of a driver set a queue up, and disabling it removes exactly its registration with the kernel.
  \<^item> \<open>Vpci\<close>: \<^verbatim>\<open>virtio/pci*.c\<close>, the same over PCI with the table of messages, and the choice of the transport. Over all runs of a driver that gives each source a vector of its own,
    an interrupt that is not masked arrives with the message that the guest has in the table; an
    interrupt signalled while it is masked is shown to be lost. Further lemmas say what vectors out of range, a
    changed offset of the pending bits, and shared vectors do.

  \<^bold>\<open>Files.\<close>
  \<^item> \<open>P9pdu\<close>: \<^verbatim>\<open>virtio/9p-pdu.c\<close>, the messages of the 9P protocol in the scattered buffers of a request: what the encoder
    writes is the encoding of the protocol and the decoder reads it back, with the variables typed by the format.
  \<^item> \<open>P9fid\<close>: the paths and the table of fids of \<^verbatim>\<open>virtio/9p.c\<close>. The test for \<^verbatim>\<open>..\<close> by string search is exact; the table is a map from
    numbers to objects for fids below \<open>2\<^sup>3\<^sup>1\<close>, and not beyond.
  \<^item> \<open>P9\<close>: the handlers of all messages, the dispatch, the service of the queue and the callbacks of the device, in a monad of a state with faults. The host is a parameter
    that may answer anything, and its calls are recorded. With rules for triples of the monad: every path that
    is given to the host stays below the root directory for every sequence of requests without \<^verbatim>\<open>Trenameat\<close>, which is
    shown to break this; and every request that is served is answered with a header that agrees with the used ring.

  \<^bold>\<open>Memory and processors.\<close>
  \<^item> \<open>Membank\<close>: the banks of guest memory in \<^verbatim>\<open>init/kvm.c\<close>, their registration as a refinement of a set of disjoint
    ranges, the translation of addresses both ways, the memory layout of x86 and the memory table given to vhost.
  \<^item> \<open>Xics\<close>: \<^verbatim>\<open>arch/powerpc/xics.c\<close>, the interrupt controller of the pSeries machine with its hypercalls; which interrupts are never lost, and which write goes outside the table.

  \<^bold>\<open>Bounds and termination.\<close> Loops are structural or have a termination proof. The restart loops of \<open>Hostio\<close> and the loops of the
  network threads can run for ever in the code as well: they end when the list of incidents does, and a
  theorem says when they do not. The walk of a descriptor chain is bounded by the capacity of the array it fills, as in the code.

  \<^bold>\<open>Not modelled.\<close> The set-up of the virtual machine through \<^verbatim>\<open>ioctl\<close>s, the run loops of the processors, the
  boot code and firmware tables of the architectures, the display back ends, device assignment
  (\<^verbatim>\<open>vfio\<close>), the commands of the program and its option parser: they
  are sequences of calls of the kernel or of libraries with little state of their own. The write path of QCOW images is not
  modelled because no caller reaches it.
\<close>

end
